(* ===== verification/Prelude.thy ===== *)
theory Prelude
  imports Main "HOL-Library.Word"
begin

text \<open>
  Shared prelude of the development: names for the machine integers of the C sources, the
  C rules for signed division, ring-buffer index arithmetic, and a few facts about list
  updates that several components use. The collections \<open>hal_simps\<close> (unfolding of small
  accessors) and \<open>inv_intros\<close> (preservation of well-formedness) are filled by the component
  theories.
\<close>

unbundle bit_operations_syntax

named_theorems hal_simps "unfolding rules of small accessors"
named_theorems inv_intros "operations preserve well-formedness"

section \<open>Machine integers\<close>

type_synonym u8 = "8 word"
type_synonym u16 = "16 word"
type_synonym u32 = "32 word"
type_synonym u64 = "64 word"

text \<open>
  C99 division of signed integers truncates towards zero and the remainder has the sign of
  the dividend; \<open>div\<close> and \<open>mod\<close> on \<open>int\<close> round down instead.
\<close>

definition c_div :: "int \<Rightarrow> int \<Rightarrow> int" where
  "c_div a b = sgn a * sgn b * (\<bar>a\<bar> div \<bar>b\<bar>)"

definition c_mod :: "int \<Rightarrow> int \<Rightarrow> int" where
  "c_mod a b = a - c_div a b * b"

lemma c_div_nonneg [simp]: "0 \<le> a \<Longrightarrow> 0 < b \<Longrightarrow> c_div a b = a div b"
  by (cases "a = 0") (auto simp: c_div_def)

lemma c_mod_nonneg [simp]: "0 \<le> a \<Longrightarrow> 0 < b \<Longrightarrow> c_mod a b = a mod b"
  by (simp add: c_mod_def minus_div_mult_eq_mod)

lemma c_mod_neg:
  assumes "a < 0" "0 < b"
  shows "c_mod a b = - (- a mod b)"
proof -
  have "b * (- a div b) + - a mod b = - a" by (rule mult_div_mod_eq)
  moreover have "c_mod a b = a + b * (- a div b)"
    using assms by (simp add: c_mod_def c_div_def algebra_simps)
  ultimately show ?thesis by linarith
qed

lemma c_mod_eq_0_iff: "0 < b \<Longrightarrow> c_mod a b = 0 \<longleftrightarrow> b dvd a"
  by (cases "0 \<le> a") (simp_all add: c_mod_neg mod_eq_0_iff_dvd)

lemma le_div_iff: "0 < b \<Longrightarrow> a \<le> k div b \<longleftrightarrow> a * b \<le> (k :: int)"
proof
  assume "0 < b" "a \<le> k div b"
  then have "a * b \<le> k div b * b" by (simp add: mult_right_mono)
  also have "\<dots> \<le> k" using \<open>0 < b\<close> pos_mod_sign [of b k] div_mult_mod_eq [of k b] by linarith
  finally show "a * b \<le> k" .
next
  assume "0 < b" "a * b \<le> k"
  then show "a \<le> k div b" using zdiv_mono1 [of "a * b" k b] by simp
qed

lemma div_less_iff: "0 < b \<Longrightarrow> k div b < a \<longleftrightarrow> (k :: int) < a * b"
  using le_div_iff [of b a k] by linarith

text \<open>Signed 32-bit and 64-bit values: two's complement wrap-around.\<close>

definition s32 :: "int \<Rightarrow> int" where "s32 x = signed_take_bit 31 x"
definition s64 :: "int \<Rightarrow> int" where "s64 x = signed_take_bit 63 x"

lemma s32_id [simp]: "- (2 ^ 31) \<le> x \<Longrightarrow> x < 2 ^ 31 \<Longrightarrow> s32 x = x"
  unfolding s32_def by (simp add: signed_take_bit_int_eq_self)

lemma s64_id [simp]: "- (2 ^ 63) \<le> x \<Longrightarrow> x < 2 ^ 63 \<Longrightarrow> s64 x = x"
  unfolding s64_def by (simp add: signed_take_bit_int_eq_self)

lemma bit_less_exp: "i < 2 ^ n \<Longrightarrow> bit (i :: nat) k \<Longrightarrow> k < n"
proof (rule ccontr)
  assume "i < 2 ^ n" "bit i k" "\<not> k < n"
  then have "i < 2 ^ k" by (meson less_le_trans one_le_numeral power_increasing not_less)
  then show False using \<open>bit i k\<close> by (simp add: bit_iff_odd)
qed

section \<open>Ring-buffer indices\<close>

definition ring_idx :: "nat \<Rightarrow> nat \<Rightarrow> nat \<Rightarrow> nat" where
  "ring_idx n r i = (r + i) mod n"

lemma ring_idx_less [simp]: "0 < n \<Longrightarrow> ring_idx n r i < n"
  by (simp add: ring_idx_def)

lemma ring_idx_0 [simp]: "r < n \<Longrightarrow> ring_idx n r 0 = r"
  by (simp add: ring_idx_def)

lemma ring_idx_shift: "ring_idx n (ring_idx n r k) i = ring_idx n r (k + i)"
  by (simp add: ring_idx_def mod_add_left_eq add.assoc)

lemma ring_idx_no_wrap: "r + i < n \<Longrightarrow> ring_idx n r i = r + i"
  by (simp add: ring_idx_def)

lemma ring_idx_wrap: "r < n \<Longrightarrow> i < n \<Longrightarrow> n \<le> r + i \<Longrightarrow> ring_idx n r i = r + i - n"
  by (simp add: ring_idx_def mod_if)

lemma ring_idx_inj:
  assumes "r < n" "i < n" "j < n" "ring_idx n r i = ring_idx n r j"
  shows "i = j"
  using assms by (auto simp: ring_idx_def mod_if split: if_splits)

lemma ring_idx_step: "r < n \<Longrightarrow> (if Suc r = n then 0 else Suc r) = ring_idx n r 1"
  by (auto simp: ring_idx_def mod_if)

section \<open>Lists\<close>

lemma map_upt_Suc_shift: "map f [0..<Suc n] = f 0 # map (\<lambda>i. f (Suc i)) [0..<n]"
  by (induction n) auto

lemma map_upt_cong: "(\<And>i. i < n \<Longrightarrow> f i = g i) \<Longrightarrow> map f [0..<n] = map g [0..<n]"
  by simp

end
