(* ===== verification/HalQueue.thy ===== *)
theory HalQueue
  imports Prelude
begin

text \<open>
  The two ring-buffer queues of \<open>DeviceCode/Include/tinyhal.h\<close>:
  \<open>Hal_Queue_KnownSize\<close> (the capacity is a template argument) and
  \<open>Hal_Queue_UnknownSize\<close> (the storage and its size are handed to \<open>Initialize\<close>). The pointer
  that \<open>Push\<close>, \<open>Peek\<close> and \<open>Pop\<close> return into \<open>m_data\<close> is an index of the slot (\<open>None\<close> is
  NULL); the caller's write through it is \<open>uq_store\<close>. Sizes are \<open>nat\<close>: every intermediate
  value is at most twice the capacity, and the one expression that may exceed the width of
  \<open>size_t\<close> for a capacity above half the address space, \<open>m_size + m_writer - m_reader\<close>, is
  exact in modular arithmetic too.
\<close>

section \<open>The interface: a bounded FIFO\<close>

text \<open>One client action on a queue.\<close>

datatype 'a fifo_op = Put 'a | Get

text \<open>
  The contract: every operation with its result, on the queue and on the reference model, a list
  that holds at most \<open>cap\<close> elements. A put is stored exactly while there is room, a get delivers
  the oldest element exactly when there is one.
\<close>

datatype 'a fifo_result = Stored bool | Got "'a option"

fun fifo_trace :: "('a \<Rightarrow> 'q \<Rightarrow> 'q \<times> bool) \<Rightarrow> ('q \<Rightarrow> 'q \<times> 'a option) \<Rightarrow> 'a fifo_op list \<Rightarrow> 'q
    \<Rightarrow> 'q \<times> 'a fifo_result list" where
  "fifo_trace put get [] q = (q, [])"
| "fifo_trace put get (Put x # ops) q =
     (let (q1, ok) = put x q; (q2, rs) = fifo_trace put get ops q1 in (q2, Stored ok # rs))"
| "fifo_trace put get (Get # ops) q =
     (let (q1, r) = get q; (q2, rs) = fifo_trace put get ops q1 in (q2, Got r # rs))"

fun fifo_model :: "nat \<Rightarrow> 'a fifo_op list \<Rightarrow> 'a list \<Rightarrow> 'a list \<times> 'a fifo_result list" where
  "fifo_model cap [] xs = (xs, [])"
| "fifo_model cap (Put x # ops) xs =
     (let (ys, rs) = fifo_model cap ops (if length xs < cap then xs @ [x] else xs)
      in (ys, Stored (length xs < cap) # rs))"
| "fifo_model cap (Get # ops) xs =
     (let (ys, rs) = fifo_model cap ops (tl xs)
      in (ys, Got (case xs of [] \<Rightarrow> None | x # _ \<Rightarrow> Some x) # rs))"

locale bounded_fifo =
  fixes ok :: "'q \<Rightarrow> bool"
    and lst :: "'q \<Rightarrow> 'a list"
    and cap :: "'q \<Rightarrow> nat"
    and put :: "'a \<Rightarrow> 'q \<Rightarrow> 'q \<times> bool"
    and get :: "'q \<Rightarrow> 'q \<times> 'a option"
  assumes put_full: "ok q \<Longrightarrow> length (lst q) = cap q \<Longrightarrow> put x q = (q, False)"
    and put_room: "ok q \<Longrightarrow> length (lst q) < cap q \<Longrightarrow>
      snd (put x q) \<and> ok (fst (put x q)) \<and> lst (fst (put x q)) = lst q @ [x] \<and>
      cap (fst (put x q)) = cap q"
    and get_empty: "ok q \<Longrightarrow> lst q = [] \<Longrightarrow> get q = (q, None)"
    and get_some: "ok q \<Longrightarrow> lst q = x # xs \<Longrightarrow>
      snd (get q) = Some x \<and> ok (fst (get q)) \<and> lst (fst (get q)) = xs \<and>
      cap (fst (get q)) = cap q"
    and lst_cap: "ok q \<Longrightarrow> length (lst q) \<le> cap q"
begin

lemma put_cases:
  assumes "ok q" "put x q = (q', b)"
  shows "ok q' \<and> cap q' = cap q \<and> lst q' = lst q @ (if b then [x] else [])"
proof (cases "length (lst q) = cap q")
  case True
  with put_full [OF assms(1) True, of x] assms show ?thesis by simp
next
  case False
  with lst_cap [OF assms(1)] have "length (lst q) < cap q" by simp
  from put_room [OF assms(1) this, of x] assms(2) show ?thesis by simp
qed

lemma get_cases:
  assumes "ok q" "get q = (q', r)"
  shows "ok q' \<and> cap q' = cap q \<and> lst q = (case r of None \<Rightarrow> [] | Some x \<Rightarrow> [x]) @ lst q' \<and>
    (r = None \<longleftrightarrow> lst q = [])"
proof (cases "lst q")
  case Nil
  with get_empty [OF assms(1) Nil] assms show ?thesis by simp
next
  case (Cons x xs)
  from get_some [OF assms(1) Cons] assms(2) Cons show ?thesis by auto
qed

text \<open>The queue gives the results of the model, whatever the history.\<close>

lemma trace_model:
  assumes "ok q"
  shows "\<exists>q' rs. fifo_trace put get ops q = (q', rs) \<and> ok q' \<and> cap q' = cap q \<and>
    fifo_model (cap q) ops (lst q) = (lst q', rs)"
  using assms
proof (induction ops arbitrary: q)
  case Nil
  then show ?case by simp
next
  case (Cons a ops)
  show ?case
  proof (cases a)
    case (Put x)
    obtain q1 b where p: "put x q = (q1, b)" by fastforce
    have b: "b \<longleftrightarrow> length (lst q) < cap q"
      using put_full [OF Cons.prems, of x] put_room [OF Cons.prems, of x] lst_cap [OF Cons.prems] p
      by (cases "length (lst q) = cap q") auto
    from put_cases [OF Cons.prems p] have q1: "ok q1" "cap q1 = cap q"
      "lst q1 = lst q @ (if b then [x] else [])" by auto
    from Cons.IH [OF q1(1)] q1 p b Put show ?thesis by (auto split: if_splits)
  next
    case Get
    obtain q1 r where p: "get q = (q1, r)" by fastforce
    have r: "r = (case lst q of [] \<Rightarrow> None | x # _ \<Rightarrow> Some x)" and l: "lst q1 = tl (lst q)"
      using get_empty [OF Cons.prems] get_some [OF Cons.prems] p by (cases "lst q"; auto)+
    from get_cases [OF Cons.prems p] have q1: "ok q1" "cap q1 = cap q" by auto
    from Cons.IH [OF q1(1)] q1 p r l Get show ?thesis by auto
  qed
qed

end

section \<open>\<open>Hal_Queue_UnknownSize\<close>\<close>

record 'a uqueue =
  uq_writer :: nat
  uq_reader :: nat
  uq_size :: nat
  uq_full :: bool
  uq_data :: "'a list"

definition uq_Initialize :: "'a list \<Rightarrow> nat \<Rightarrow> 'a uqueue" where
  "uq_Initialize data sz =
     \<lparr>uq_writer = 0, uq_reader = 0, uq_size = sz, uq_full = False, uq_data = data\<rparr>"

definition uq_NumberOfElements :: "'a uqueue \<Rightarrow> nat" where
  "uq_NumberOfElements q =
     (if uq_writer q < uq_reader q then uq_size q + uq_writer q - uq_reader q
      else if uq_full q then uq_size q
      else uq_writer q - uq_reader q)"

definition uq_IsEmpty :: "'a uqueue \<Rightarrow> bool" where
  "uq_IsEmpty q \<longleftrightarrow> uq_writer q = uq_reader q \<and> \<not> uq_full q"

definition uq_IsFull :: "'a uqueue \<Rightarrow> bool" where
  "uq_IsFull q \<longleftrightarrow> uq_full q"

definition uq_at :: "'a uqueue \<Rightarrow> int \<Rightarrow> nat option" where
  "uq_at q index =
     (if index < 0 \<or> index \<ge> int (uq_NumberOfElements q) then None
      else Some ((uq_reader q + nat index) mod uq_size q))"

definition uq_Push :: "'a uqueue \<Rightarrow> 'a uqueue \<times> nat option" where
  "uq_Push q =
     (let oldWriter = uq_writer q
      in if uq_full q then (q, None)
         else
           (let w1 = uq_writer q + 1; w2 = (if w1 = uq_size q then 0 else w1);
                q1 = q\<lparr>uq_writer := w2\<rparr>;
                q2 = (if w2 = uq_reader q1 then q1\<lparr>uq_full := True\<rparr> else q1)
            in (q2, Some oldWriter)))"

definition uq_Peek :: "'a uqueue \<Rightarrow> nat option" where
  "uq_Peek q = (if uq_writer q = uq_reader q \<and> \<not> uq_full q then None else Some (uq_reader q))"

definition uq_Pop :: "'a uqueue \<Rightarrow> 'a uqueue \<times> nat option" where
  "uq_Pop q =
     (let oldReader = uq_reader q
      in if uq_reader q = uq_writer q \<and> \<not> uq_full q then (q, None)
         else
           (let r1 = uq_reader q + 1; r2 = (if r1 = uq_size q then 0 else r1)
            in (q\<lparr>uq_reader := r2, uq_full := False\<rparr>, Some oldReader)))"

text \<open>
  The block operations take the number of elements wanted and return the number granted in
  the same reference argument; the granted block is contiguous in \<open>m_data\<close>.
\<close>

definition uq_PushN :: "'a uqueue \<Rightarrow> nat \<Rightarrow> 'a uqueue \<times> nat \<times> nat option" where
  "uq_PushN q nElements =
     (let oldWriter = uq_writer q
      in if uq_full q \<or> nElements = 0 then (q, 0, None)
         else
           (let max = (if uq_writer q < uq_reader q then uq_reader q - uq_writer q
                       else uq_size q - uq_writer q);
                n = (if max < nElements then max else nElements);
                w1 = uq_writer q + n; w2 = (if w1 = uq_size q then 0 else w1);
                q1 = q\<lparr>uq_writer := w2\<rparr>;
                q2 = (if w2 = uq_reader q1 then q1\<lparr>uq_full := True\<rparr> else q1)
            in (q2, n, Some oldWriter)))"

definition uq_PopN :: "'a uqueue \<Rightarrow> nat \<Rightarrow> 'a uqueue \<times> nat \<times> nat option" where
  "uq_PopN q nElements =
     (let oldReader = uq_reader q
      in if nElements = 0 then (q, nElements, None)
         else if uq_reader q = uq_writer q \<and> \<not> uq_full q
         then (q\<lparr>uq_reader := 0, uq_writer := 0\<rparr>, 0, None)
         else
           (let max = (if uq_writer q \<le> uq_reader q then uq_size q - uq_reader q
                       else uq_writer q - uq_reader q);
                n = (if max < nElements then max else nElements);
                r1 = uq_reader q + n; r2 = (if r1 = uq_size q then 0 else r1)
            in (q\<lparr>uq_reader := r2, uq_full := False\<rparr>, n, Some oldReader)))"

definition uq_Storage :: "'a uqueue \<Rightarrow> 'a list" where
  "uq_Storage q = uq_data q"

text \<open>Writes of the caller through the returned pointers.\<close>

definition uq_store :: "'a uqueue \<Rightarrow> nat \<Rightarrow> 'a \<Rightarrow> 'a uqueue" where
  "uq_store q i x = q\<lparr>uq_data := (uq_data q)[i := x]\<rparr>"

fun uq_store_block :: "'a uqueue \<Rightarrow> nat \<Rightarrow> 'a list \<Rightarrow> 'a uqueue" where
  "uq_store_block q i [] = q"
| "uq_store_block q i (x # xs) = uq_store_block (uq_store q i x) (Suc i) xs"

definition uq_put :: "'a \<Rightarrow> 'a uqueue \<Rightarrow> 'a uqueue \<times> bool" where
  "uq_put x q = (case uq_Push q of
     (q1, None) \<Rightarrow> (q1, False) | (q1, Some i) \<Rightarrow> (uq_store q1 i x, True))"

definition uq_get :: "'a uqueue \<Rightarrow> 'a uqueue \<times> 'a option" where
  "uq_get q = (case uq_Pop q of
     (q1, None) \<Rightarrow> (q1, None) | (q1, Some i) \<Rightarrow> (q1, Some (uq_data q1 ! i)))"

subsection \<open>Well-formedness and the contents as a list\<close>

definition uq_wf :: "'a uqueue \<Rightarrow> bool" where
  "uq_wf q \<longleftrightarrow> uq_reader q < uq_size q \<and> uq_writer q < uq_size q \<and>
     uq_size q \<le> length (uq_data q) \<and> (uq_full q \<longrightarrow> uq_writer q = uq_reader q)"

definition uq_list :: "'a uqueue \<Rightarrow> 'a list" where
  "uq_list q = map (\<lambda>i. uq_data q ! ring_idx (uq_size q) (uq_reader q) i)
     [0..<uq_NumberOfElements q]"

lemma uq_wfD:
  assumes "uq_wf q"
  shows "uq_reader q < uq_size q" "uq_writer q < uq_size q" "uq_size q \<le> length (uq_data q)"
    "uq_full q \<Longrightarrow> uq_writer q = uq_reader q"
  using assms by (auto simp: uq_wf_def)

lemma length_uq_list [simp]: "length (uq_list q) = uq_NumberOfElements q"
  by (simp add: uq_list_def)

lemma uq_count_le: "uq_wf q \<Longrightarrow> uq_NumberOfElements q \<le> uq_size q"
  by (auto simp: uq_wf_def uq_NumberOfElements_def)

lemma uq_count_full: "uq_wf q \<Longrightarrow> uq_NumberOfElements q = uq_size q \<longleftrightarrow> uq_full q"
  by (auto simp: uq_wf_def uq_NumberOfElements_def)

lemma uq_count_empty: "uq_wf q \<Longrightarrow> uq_NumberOfElements q = 0 \<longleftrightarrow> uq_IsEmpty q"
  by (auto simp: uq_wf_def uq_NumberOfElements_def uq_IsEmpty_def)

text \<open>The writer is always one past the last element.\<close>

lemma uq_writer_idx:
  "uq_wf q \<Longrightarrow> ring_idx (uq_size q) (uq_reader q) (uq_NumberOfElements q) = uq_writer q"
  by (auto simp: uq_wf_def uq_NumberOfElements_def ring_idx_def mod_if)

lemma uq_list_nth:
  "i < uq_NumberOfElements q \<Longrightarrow>
     uq_list q ! i = uq_data q ! ring_idx (uq_size q) (uq_reader q) i"
  by (simp add: uq_list_def)

lemma uq_at_list:
  "uq_at q i = Some k \<Longrightarrow> uq_data q ! k = uq_list q ! nat i"
  by (auto simp: uq_at_def uq_list_nth ring_idx_def nat_less_iff split: if_splits)

lemma uq_Initialize_wf:
  "0 < n \<Longrightarrow> n \<le> length d \<Longrightarrow> uq_wf (uq_Initialize d n) \<and> uq_list (uq_Initialize d n) = []"
  by (simp add: uq_wf_def uq_Initialize_def uq_list_def uq_NumberOfElements_def)


subsection \<open>Single-element operations\<close>

lemma uq_store_simps [simp]:
  "uq_size (uq_store q i x) = uq_size q" "uq_reader (uq_store q i x) = uq_reader q"
  "uq_writer (uq_store q i x) = uq_writer q" "uq_full (uq_store q i x) = uq_full q"
  "uq_data (uq_store q i x) = (uq_data q)[i := x]"
  "uq_NumberOfElements (uq_store q i x) = uq_NumberOfElements q"
  "uq_wf (uq_store q i x) = uq_wf q"
  by (simp_all add: uq_store_def uq_NumberOfElements_def uq_wf_def)

lemma uq_Push_full: "uq_Push q = (q', None) \<longleftrightarrow> uq_full q \<and> q' = q"
  by (auto simp: uq_Push_def Let_def split: if_splits)

lemma uq_Push_Some:
  assumes wf: "uq_wf q" and p: "uq_Push q = (q', Some i)"
  shows "\<not> uq_full q" "i = uq_writer q" "uq_wf q'" "uq_data q' = uq_data q"
    "uq_size q' = uq_size q" "uq_reader q' = uq_reader q"
    "uq_NumberOfElements q' = Suc (uq_NumberOfElements q)"
  using p uq_wfD [OF wf]
  by (auto simp: uq_Push_def uq_wf_def uq_NumberOfElements_def Let_def split: if_splits)

lemma uq_list_push_store:
  assumes wf: "uq_wf q" and p: "uq_Push q = (q', Some i)"
  shows "uq_list (uq_store q' i x) = uq_list q @ [x]"
proof -
  note P = uq_Push_Some [OF wf p]
  let ?n = "uq_NumberOfElements q"
  have lt: "?n < uq_size q"
    using uq_count_le [OF wf] uq_count_full [OF wf] P(1) by simp
  have i: "ring_idx (uq_size q) (uq_reader q) ?n = i"
    using uq_writer_idx [OF wf] P(2) by simp
  have ne: "ring_idx (uq_size q) (uq_reader q) j \<noteq> i" if "j < ?n" for j
    using ring_idx_inj [OF uq_wfD(1) [OF wf], of j ?n] that lt i by auto
  have upd: "(uq_data q)[i := x] ! ring_idx (uq_size q) (uq_reader q) j =
      uq_data q ! ring_idx (uq_size q) (uq_reader q) j" if "j < ?n" for j
    using ne [OF that] by simp
  have "i < length (uq_data q)" using P(2) uq_wfD [OF wf] by simp
  then show ?thesis
    by (simp add: uq_list_def P(4-7) i upd)
qed

lemma uq_Pop_None: "uq_Pop q = (q', None) \<longleftrightarrow> uq_IsEmpty q \<and> q' = q"
  by (auto simp: uq_Pop_def uq_IsEmpty_def Let_def split: if_splits)

lemma uq_Pop_Some:
  assumes wf: "uq_wf q" and p: "uq_Pop q = (q', Some i)"
  shows "i = uq_reader q" "uq_wf q'" "uq_data q' = uq_data q" "uq_size q' = uq_size q"
    "uq_reader q' = ring_idx (uq_size q) (uq_reader q) 1"
    "uq_NumberOfElements q = Suc (uq_NumberOfElements q')"
  using p uq_wfD [OF wf]
  by (auto simp: uq_Pop_def uq_wf_def uq_NumberOfElements_def Let_def ring_idx_def
      split: if_splits)

lemma uq_list_pop:
  assumes wf: "uq_wf q" and p: "uq_Pop q = (q', Some i)"
  shows "uq_list q = uq_data q ! i # uq_list q'"
proof -
  note P = uq_Pop_Some [OF wf p]
  show ?thesis
    using P(1) uq_wfD(1) [OF wf]
    by (simp add: uq_list_def P(3-6) map_upt_Suc_shift ring_idx_shift del: upt_Suc)
qed

lemma uq_Peek_Some: "uq_wf q \<Longrightarrow> uq_Peek q = Some i \<Longrightarrow> uq_list q \<noteq> [] \<and> uq_data q ! i = hd (uq_list q)"
  by (auto simp: uq_Peek_def uq_wf_def uq_list_def uq_NumberOfElements_def hd_map
      upt_conv_Cons split: if_splits)

lemma uq_Peek_Pop: "uq_Peek q = snd (uq_Pop q)"
  by (auto simp: uq_Peek_def uq_Pop_def Let_def)

lemma uq_observers:
  assumes "uq_wf q"
  shows "uq_NumberOfElements q = length (uq_list q) \<and> (uq_IsEmpty q \<longleftrightarrow> uq_list q = []) \<and>
    (uq_IsFull q \<longleftrightarrow> length (uq_list q) = uq_size q) \<and>
    (case uq_Peek q of None \<Rightarrow> uq_list q = []
     | Some k \<Rightarrow> uq_list q \<noteq> [] \<and> uq_data q ! k = hd (uq_list q)) \<and>
    (\<forall>i. case uq_at q i of None \<Rightarrow> i < 0 \<or> int (length (uq_list q)) \<le> i
      | Some k \<Rightarrow> 0 \<le> i \<and> i < int (length (uq_list q)) \<and> uq_data q ! k = uq_list q ! nat i)"
proof -
  have e: "uq_IsEmpty q \<longleftrightarrow> uq_list q = []"
    using uq_count_empty [OF assms] length_uq_list [of q] by (metis length_0_conv)
  have "uq_Peek q = None \<longleftrightarrow> uq_IsEmpty q" by (auto simp: uq_Peek_def uq_IsEmpty_def)
  with e uq_Peek_Some [OF assms] have p: "case uq_Peek q of None \<Rightarrow> uq_list q = []
     | Some k \<Rightarrow> uq_list q \<noteq> [] \<and> uq_data q ! k = hd (uq_list q)" by (simp split: option.split)
  have "case uq_at q i of None \<Rightarrow> i < 0 \<or> int (length (uq_list q)) \<le> i
      | Some k \<Rightarrow> 0 \<le> i \<and> i < int (length (uq_list q)) \<and> uq_data q ! k = uq_list q ! nat i" for i
    using uq_at_list [of q i] by (auto simp: uq_at_def split: option.split)
  with e p uq_count_full [OF assms] show ?thesis by (auto simp: uq_IsFull_def)
qed

interpretation uq: bounded_fifo uq_wf uq_list uq_size uq_put uq_get
proof
  fix q :: "'a uqueue" and x
  assume wf: "uq_wf q" and len: "length (uq_list q) = uq_size q"
  then have "uq_full q" by (simp add: uq_count_full)
  then show "uq_put x q = (q, False)" by (simp add: uq_put_def uq_Push_def)
next
  fix q :: "'a uqueue" and x
  assume wf: "uq_wf q" and len: "length (uq_list q) < uq_size q"
  then have nf: "\<not> uq_full q" using uq_count_full [OF wf] by auto
  obtain q' i where p: "uq_Push q = (q', Some i)"
    using nf uq_Push_full [of q] by (cases "uq_Push q"; cases "snd (uq_Push q)") auto
  from uq_Push_Some [OF wf p] uq_list_push_store [OF wf p]
  show "snd (uq_put x q) \<and> uq_wf (fst (uq_put x q)) \<and>
      uq_list (fst (uq_put x q)) = uq_list q @ [x] \<and> uq_size (fst (uq_put x q)) = uq_size q"
    by (simp add: uq_put_def p)
next
  fix q :: "'a uqueue"
  assume wf: "uq_wf q" and "uq_list q = []"
  then have "uq_IsEmpty q" using uq_count_empty [OF wf] by (metis length_uq_list list.size(3))
  then have "uq_Pop q = (q, None)" by (simp add: uq_Pop_None)
  then show "uq_get q = (q, None)" by (simp add: uq_get_def)
next
  fix q :: "'a uqueue" and x xs
  assume wf: "uq_wf q" and l: "uq_list q = x # xs"
  then have "\<not> uq_IsEmpty q" using uq_count_empty [OF wf] length_uq_list [of q] by auto
  then obtain q' i where p: "uq_Pop q = (q', Some i)"
    using uq_Pop_None [of q] by (cases "uq_Pop q"; cases "snd (uq_Pop q)") auto
  from uq_Pop_Some [OF wf p] uq_list_pop [OF wf p] l
  show "snd (uq_get q) = Some x \<and> uq_wf (fst (uq_get q)) \<and> uq_list (fst (uq_get q)) = xs \<and>
      uq_size (fst (uq_get q)) = uq_size q"
    by (simp add: uq_get_def p)
next
  fix q :: "'a uqueue"
  assume "uq_wf q"
  then show "length (uq_list q) \<le> uq_size q" by (simp add: uq_count_le)
qed

subsection \<open>Block operations\<close>

lemma uq_store_block_simps [simp]:
  "uq_size (uq_store_block q i xs) = uq_size q" "uq_reader (uq_store_block q i xs) = uq_reader q"
  "uq_writer (uq_store_block q i xs) = uq_writer q" "uq_full (uq_store_block q i xs) = uq_full q"
  "length (uq_data (uq_store_block q i xs)) = length (uq_data q)"
  "uq_NumberOfElements (uq_store_block q i xs) = uq_NumberOfElements q"
  "uq_wf (uq_store_block q i xs) = uq_wf q"
  by (induction q i xs rule: uq_store_block.induct) simp_all

lemma uq_store_block_nth:
  assumes "i + length xs \<le> length (uq_data q)"
  shows "uq_data (uq_store_block q i xs) ! j =
    (if i \<le> j \<and> j < i + length xs then xs ! (j - i) else uq_data q ! j)"
  using assms
proof (induction q i xs rule: uq_store_block.induct)
  case (1 q i)
  then show ?case by auto
next
  case (2 q i x xs)
  then show ?case by (auto simp: nth_Cons')
qed

lemma uq_PushN_None:
  "uq_PushN q n = (q', k, None) \<longleftrightarrow> (uq_full q \<or> n = 0) \<and> q' = q \<and> k = 0"
  by (auto simp: uq_PushN_def Let_def split: if_splits)

lemma uq_PushN_step:
  assumes "uq_PushN q n = (q', k, Some i)"
  shows "\<not> uq_full q" "0 < n" "i = uq_writer q"
    "k = min (if uq_writer q < uq_reader q then uq_reader q - uq_writer q
              else uq_size q - uq_writer q) n"
    "q' = q\<lparr>uq_writer := (if uq_writer q + k = uq_size q then 0 else uq_writer q + k),
       uq_full := ((if uq_writer q + k = uq_size q then 0 else uq_writer q + k) = uq_reader q)\<rparr>"
  using assms by (auto simp: uq_PushN_def Let_def min_def split: if_splits)

lemma uq_PushN_Some:
  assumes wf: "uq_wf q" and p: "uq_PushN q n = (q', k, Some i)"
  shows "0 < k" "k \<le> n" "i = uq_writer q" "i + k \<le> uq_size q" "uq_wf q'"
    "uq_data q' = uq_data q" "uq_size q' = uq_size q" "uq_reader q' = uq_reader q"
    "uq_NumberOfElements q' = uq_NumberOfElements q + k"
proof -
  note S = uq_PushN_step [OF p] and W = uq_wfD [OF wf]
  show "0 < k" "k \<le> n" "i = uq_writer q" using S(2,3,4) W by auto
  show room: "i + k \<le> uq_size q" using S(3,4) W by auto
  show "uq_data q' = uq_data q" "uq_size q' = uq_size q" "uq_reader q' = uq_reader q"
    by (simp_all add: S(5))
  show "uq_wf q'" using room S(3) W by (auto simp: S(5) uq_wf_def)
  show "uq_NumberOfElements q' = uq_NumberOfElements q + k"
  proof (cases "uq_writer q < uq_reader q")
    case True
    then have "uq_writer q + k \<le> uq_reader q" using S(4) by auto
    then show ?thesis using True W(1) S(1) \<open>0 < k\<close>
      by (auto simp: S(5) uq_NumberOfElements_def)
  next
    case False
    then show ?thesis using room S(1,3) W(1,2) \<open>0 < k\<close>
      by (auto simp: S(5) uq_NumberOfElements_def)
  qed
qed

lemma uq_list_pushN_store:
  assumes wf: "uq_wf q" and p: "uq_PushN q n = (q', k, Some i)" and k: "length xs = k"
  shows "uq_list (uq_store_block q' i xs) = uq_list q @ xs"
proof (rule nth_equalityI)
  note P = uq_PushN_Some [OF wf p] and W = uq_wfD [OF wf]
  let ?c = "uq_NumberOfElements q" and ?n = "uq_size q" and ?r = "uq_reader q"
  show len: "length (uq_list (uq_store_block q' i xs)) = length (uq_list q @ xs)"
    using P k by simp
  fix j assume "j < length (uq_list (uq_store_block q' i xs))"
  then have j: "j < ?c + k" using P k by simp
  have ck: "?c + k \<le> ?n" using uq_count_le [OF P(5)] P by simp
  have at: "ring_idx ?n ?r (?c + d) = i + d" if "d < k" for d
    using that P(3,4) ring_idx_no_wrap [of i d ?n] uq_writer_idx [OF wf]
    by (simp add: ring_idx_shift [symmetric])
  have sel: "uq_list (uq_store_block q' i xs) ! j =
      uq_data (uq_store_block q' i xs) ! ring_idx ?n ?r j"
    using j P by (simp add: uq_list_nth)
  have room: "i + length xs \<le> length (uq_data q')" using P k W by simp
  show "uq_list (uq_store_block q' i xs) ! j = (uq_list q @ xs) ! j"
  proof (cases "j < ?c")
    case True
    have "\<not> (i \<le> ring_idx ?n ?r j \<and> ring_idx ?n ?r j < i + length xs)"
    proof
      assume a: "i \<le> ring_idx ?n ?r j \<and> ring_idx ?n ?r j < i + length xs"
      define d where "d = ring_idx ?n ?r j - i"
      from a k have d: "d < k" "ring_idx ?n ?r j = i + d" by (auto simp: d_def)
      then have "ring_idx ?n ?r j = ring_idx ?n ?r (?c + d)" by (simp add: at)
      then have "j = ?c + d"
        using ring_idx_inj [OF W(1), of j "?c + d"] True ck d by simp
      with True show False by simp
    qed
    then show ?thesis
      unfolding sel uq_store_block_nth [OF room]
      using True P(6) by (auto simp: nth_append uq_list_nth)
  next
    case False
    define d where "d = j - ?c"
    with False j have d: "d < k" "j = ?c + d" by auto
    then show ?thesis
      using sel at [OF d(1)] uq_store_block_nth [OF room] k by (simp add: nth_append)
  qed
qed

lemma uq_PopN_None:
  "uq_PopN q n = (q', k, None) \<Longrightarrow> k = 0 \<and> (n = 0 \<and> q' = q \<or> uq_IsEmpty q \<and>
     q' = q\<lparr>uq_reader := 0, uq_writer := 0\<rparr>)"
  by (auto simp: uq_PopN_def uq_IsEmpty_def Let_def split: if_splits)

lemma uq_PopN_step:
  assumes "uq_PopN q n = (q', k, Some i)"
  shows "uq_reader q \<noteq> uq_writer q \<or> uq_full q" "0 < n" "i = uq_reader q"
    "k = min (if uq_writer q \<le> uq_reader q then uq_size q - uq_reader q
              else uq_writer q - uq_reader q) n"
    "q' = q\<lparr>uq_reader := (if uq_reader q + k = uq_size q then 0 else uq_reader q + k),
       uq_full := False\<rparr>"
  using assms by (auto simp: uq_PopN_def Let_def min_def split: if_splits)

lemma uq_PopN_Some:
  assumes wf: "uq_wf q" and p: "uq_PopN q n = (q', k, Some i)"
  shows "0 < k" "k \<le> n" "i = uq_reader q" "i + k \<le> uq_size q" "uq_wf q'"
    "uq_data q' = uq_data q" "uq_size q' = uq_size q"
    "uq_reader q' = ring_idx (uq_size q) (uq_reader q) k"
    "uq_NumberOfElements q = k + uq_NumberOfElements q'"
proof -
  note S = uq_PopN_step [OF p] and W = uq_wfD [OF wf]
  show "0 < k" "k \<le> n" "i = uq_reader q" using S(2,3,4) W by auto
  show room: "i + k \<le> uq_size q" using S(3,4) W by auto
  show "uq_data q' = uq_data q" "uq_size q' = uq_size q" by (simp_all add: S(5))
  show "uq_wf q'" using room S(3) W by (auto simp: S(5) uq_wf_def)
  show "uq_reader q' = ring_idx (uq_size q) (uq_reader q) k"
    using room S(3) W(1) by (auto simp: S(5) ring_idx_def)
  show "uq_NumberOfElements q = k + uq_NumberOfElements q'"
  proof (cases "uq_writer q \<le> uq_reader q")
    case True
    then show ?thesis using S(1,3) W room \<open>0 < k\<close>
      by (auto simp: S(5) uq_NumberOfElements_def)
  next
    case False
    then have "uq_reader q + k \<le> uq_writer q" using S(4) by auto
    then show ?thesis using False S(1) W \<open>0 < k\<close>
      by (auto simp: S(5) uq_NumberOfElements_def)
  qed
qed

lemma uq_list_popN:
  assumes wf: "uq_wf q" and p: "uq_PopN q n = (q', k, Some i)"
  shows "uq_list q = take k (drop i (uq_data q)) @ uq_list q'"
proof -
  note P = uq_PopN_Some [OF wf p] and W = uq_wfD [OF wf]
  let ?f = "\<lambda>j. uq_data q ! ring_idx (uq_size q) (uq_reader q) j"
  have "map ?f [0..<k] = take k (drop i (uq_data q))"
    using P(3,4) W by (intro nth_equalityI) (auto simp: ring_idx_no_wrap)
  moreover have "map ?f [k..<k + uq_NumberOfElements q'] =
      map (\<lambda>j. ?f (k + j)) [0..<uq_NumberOfElements q']"
    by (rule nth_equalityI) simp_all
  moreover have "map (\<lambda>j. ?f (k + j)) [0..<uq_NumberOfElements q'] = uq_list q'"
    unfolding uq_list_def [of q'] P(6) P(7) P(8) ring_idx_shift ..
  ultimately show ?thesis
    by (simp add: uq_list_def [of q] P(9) upt_add_eq_append [of 0 k])
qed

section \<open>\<open>Hal_Queue_KnownSize\<close>\<close>

text \<open>The capacity is the length of the array member \<open>m_data\<close>.\<close>

record 'a kqueue =
  kq_writer :: nat
  kq_reader :: nat
  kq_full :: bool
  kq_data :: "'a list"

abbreviation kq_size :: "'a kqueue \<Rightarrow> nat" where
  "kq_size q \<equiv> length (kq_data q)"

definition kq_Initialize :: "'a kqueue \<Rightarrow> 'a kqueue" where
  "kq_Initialize q = q\<lparr>kq_writer := 0, kq_reader := 0, kq_full := False\<rparr>"

definition kq_NumberOfElements :: "'a kqueue \<Rightarrow> nat" where
  "kq_NumberOfElements q =
     (if kq_writer q < kq_reader q then kq_size q + kq_writer q - kq_reader q
      else if kq_full q then kq_size q
      else kq_writer q - kq_reader q)"

definition kq_IsEmpty :: "'a kqueue \<Rightarrow> bool" where
  "kq_IsEmpty q \<longleftrightarrow> kq_writer q = kq_reader q \<and> \<not> kq_full q"

definition kq_IsFull :: "'a kqueue \<Rightarrow> bool" where
  "kq_IsFull q \<longleftrightarrow> kq_full q"

definition kq_at :: "'a kqueue \<Rightarrow> int \<Rightarrow> nat option" where
  "kq_at q index =
     (if index < 0 \<or> index \<ge> int (kq_NumberOfElements q) then None
      else Some ((kq_reader q + nat index) mod kq_size q))"

definition kq_Push :: "'a kqueue \<Rightarrow> 'a kqueue \<times> nat option" where
  "kq_Push q =
     (let oldWriter = kq_writer q; n1 = oldWriter + 1;
          nextWriter = (if n1 = kq_size q then 0 else n1)
      in if kq_full q then (q, None)
         else
           (let q1 = (if nextWriter = kq_reader q then q\<lparr>kq_full := True\<rparr> else q)
            in (q1\<lparr>kq_writer := nextWriter\<rparr>, Some oldWriter)))"

definition kq_Peek :: "'a kqueue \<Rightarrow> nat option" where
  "kq_Peek q = (if kq_writer q = kq_reader q \<and> \<not> kq_full q then None else Some (kq_reader q))"

definition kq_Pop :: "'a kqueue \<Rightarrow> 'a kqueue \<times> nat option" where
  "kq_Pop q =
     (let oldReader = kq_reader q
      in if oldReader = kq_writer q \<and> \<not> kq_full q then (q, None)
         else
           (let n1 = oldReader + 1; nextReader = (if n1 = kq_size q then 0 else n1)
            in (q\<lparr>kq_reader := nextReader, kq_full := False\<rparr>, Some oldReader)))"

definition kq_store :: "'a kqueue \<Rightarrow> nat \<Rightarrow> 'a \<Rightarrow> 'a kqueue" where
  "kq_store q i x = q\<lparr>kq_data := (kq_data q)[i := x]\<rparr>"

definition kq_put :: "'a \<Rightarrow> 'a kqueue \<Rightarrow> 'a kqueue \<times> bool" where
  "kq_put x q = (case kq_Push q of
     (q1, None) \<Rightarrow> (q1, False) | (q1, Some i) \<Rightarrow> (kq_store q1 i x, True))"

definition kq_get :: "'a kqueue \<Rightarrow> 'a kqueue \<times> 'a option" where
  "kq_get q = (case kq_Pop q of
     (q1, None) \<Rightarrow> (q1, None) | (q1, Some i) \<Rightarrow> (q1, Some (kq_data q1 ! i)))"

text \<open>
  The known-size queue is the unknown-size queue whose size field is its capacity: the
  embedding commutes with every operation.
\<close>

definition kq_embed :: "'a kqueue \<Rightarrow> 'a uqueue" where
  "kq_embed q = \<lparr>uq_writer = kq_writer q, uq_reader = kq_reader q, uq_size = kq_size q,
     uq_full = kq_full q, uq_data = kq_data q\<rparr>"

lemma kq_embed_inj: "kq_embed p = kq_embed q \<Longrightarrow> p = q"
  by (simp add: kq_embed_def)

lemma kq_embed_Push: "map_prod kq_embed id (kq_Push q) = uq_Push (kq_embed q)"
  by (auto simp: kq_embed_def kq_Push_def uq_Push_def Let_def)

lemma kq_embed_Pop: "map_prod kq_embed id (kq_Pop q) = uq_Pop (kq_embed q)"
  by (auto simp: kq_embed_def kq_Pop_def uq_Pop_def Let_def)

lemma kq_embed_store: "kq_embed (kq_store q i x) = uq_store (kq_embed q) i x"
  by (simp add: kq_embed_def kq_store_def uq_store_def)

lemma kq_embed_put: "map_prod kq_embed id (kq_put x q) = uq_put x (kq_embed q)"
  using kq_embed_Push [of q, symmetric]
  by (auto simp: kq_put_def uq_put_def kq_embed_store split: prod.splits option.splits)

lemma kq_embed_get: "map_prod kq_embed id (kq_get q) = uq_get (kq_embed q)"
  using kq_embed_Pop [of q, symmetric]
  by (auto simp: kq_get_def uq_get_def kq_embed_def split: prod.splits option.splits)

lemma kq_embed_trace:
  "fifo_trace uq_put uq_get ops (kq_embed q) =
     map_prod kq_embed id (fifo_trace kq_put kq_get ops q)"
proof (induction ops arbitrary: q)
  case Nil
  then show ?case by simp
next
  case (Cons a ops)
  then show ?case
    by (cases a) (simp_all add: kq_embed_put [symmetric] kq_embed_get [symmetric] Let_def split_beta)
qed

lemma kq_embed_observers:
  "kq_embed (kq_Initialize q) = uq_Initialize (kq_data q) (kq_size q)"
  "uq_NumberOfElements (kq_embed q) = kq_NumberOfElements q"
  "uq_IsEmpty (kq_embed q) \<longleftrightarrow> kq_IsEmpty q" "uq_IsFull (kq_embed q) \<longleftrightarrow> kq_IsFull q"
  "uq_at (kq_embed q) i = kq_at q i" "uq_Peek (kq_embed q) = kq_Peek q"
  by (simp_all add: kq_embed_def kq_Initialize_def uq_Initialize_def uq_NumberOfElements_def
      kq_NumberOfElements_def uq_IsEmpty_def kq_IsEmpty_def uq_IsFull_def kq_IsFull_def
      uq_at_def kq_at_def uq_Peek_def kq_Peek_def)

definition kq_wf :: "'a kqueue \<Rightarrow> bool" where
  "kq_wf q \<longleftrightarrow> uq_wf (kq_embed q)"

definition kq_list :: "'a kqueue \<Rightarrow> 'a list" where
  "kq_list q = uq_list (kq_embed q)"

lemma kq_put_step: "kq_embed (fst (kq_put x q)) = fst (uq_put x (kq_embed q))"
  "snd (kq_put x q) = snd (uq_put x (kq_embed q))"
  by (simp_all add: kq_embed_put [symmetric])

lemma kq_get_step: "kq_embed (fst (kq_get q)) = fst (uq_get (kq_embed q))"
  "snd (kq_get q) = snd (uq_get (kq_embed q))"
  by (simp_all add: kq_embed_get [symmetric])

lemma uq_size_embed [simp]: "uq_size (kq_embed q) = kq_size q"
  by (simp add: kq_embed_def)

interpretation kq: bounded_fifo kq_wf kq_list kq_size kq_put kq_get
proof
  fix q :: "'a kqueue" and x
  assume "kq_wf q" "length (kq_list q) = kq_size q"
  then have "uq_put x (kq_embed q) = (kq_embed q, False)"
    using uq.put_full [of "kq_embed q" x] by (simp add: kq_wf_def kq_list_def)
  then show "kq_put x q = (q, False)"
    using kq_put_step [of x q] kq_embed_inj by (metis fst_conv prod.collapse snd_conv)
next
  fix q :: "'a kqueue" and x
  assume a: "kq_wf q" "length (kq_list q) < kq_size q"
  have "kq_size (fst (kq_put x q)) = kq_size q"
    using uq.put_room [of "kq_embed q" x] a
    by (simp add: kq_wf_def kq_list_def kq_put_step uq_size_embed [symmetric] del: uq_size_embed)
  then show "snd (kq_put x q) \<and> kq_wf (fst (kq_put x q)) \<and>
      kq_list (fst (kq_put x q)) = kq_list q @ [x] \<and> kq_size (fst (kq_put x q)) = kq_size q"
    using uq.put_room [of "kq_embed q" x] a
    by (simp add: kq_wf_def kq_list_def kq_put_step)
next
  fix q :: "'a kqueue"
  assume "kq_wf q" "kq_list q = []"
  then have "uq_get (kq_embed q) = (kq_embed q, None)"
    using uq.get_empty [of "kq_embed q"] by (simp add: kq_wf_def kq_list_def)
  then show "kq_get q = (q, None)"
    using kq_get_step [of q] kq_embed_inj by (metis fst_conv prod.collapse snd_conv)
next
  fix q :: "'a kqueue" and x xs
  assume a: "kq_wf q" "kq_list q = x # xs"
  have "kq_size (fst (kq_get q)) = kq_size q"
    using uq.get_some [of "kq_embed q" x xs] a
    by (simp add: kq_wf_def kq_list_def kq_get_step uq_size_embed [symmetric] del: uq_size_embed)
  then show "snd (kq_get q) = Some x \<and> kq_wf (fst (kq_get q)) \<and> kq_list (fst (kq_get q)) = xs \<and>
      kq_size (fst (kq_get q)) = kq_size q"
    using uq.get_some [of "kq_embed q" x xs] a
    by (simp add: kq_wf_def kq_list_def kq_get_step)
next
  fix q :: "'a kqueue"
  assume "kq_wf q"
  then show "length (kq_list q) \<le> kq_size q"
    using uq.lst_cap [of "kq_embed q"] by (simp add: kq_wf_def kq_list_def)
qed

section \<open>Properties\<close>

text \<open>
  C1. The ring buffer \<open>Hal_Queue_UnknownSize\<close> is a FIFO of \<open>m_size\<close> elements: over any history
  of pushes and pops each operation has the result of the reference model, a list with room for
  \<open>m_size\<close> elements. A push is accepted exactly while fewer are queued, a pop delivers the
  oldest element exactly when there is one, and the structure stays well formed. In every
  state so reached the observers report that list: its length, whether it is empty or has
  \<open>m_size\<close> elements, its first element and the element at an index.
\<close>

theorem uq_history_fifo:
  assumes "uq_wf q"
  shows "\<exists>q' rs. fifo_trace uq_put uq_get ops q = (q', rs) \<and>
    fifo_model (uq_size q) ops (uq_list q) = (uq_list q', rs) \<and> uq_wf q' \<and> uq_size q' = uq_size q \<and>
    uq_NumberOfElements q' = length (uq_list q') \<and> (uq_IsEmpty q' \<longleftrightarrow> uq_list q' = []) \<and>
    (uq_IsFull q' \<longleftrightarrow> length (uq_list q') = uq_size q) \<and>
    (case uq_Peek q' of None \<Rightarrow> uq_list q' = []
     | Some k \<Rightarrow> uq_list q' \<noteq> [] \<and> uq_data q' ! k = hd (uq_list q')) \<and>
    (\<forall>i. case uq_at q' i of None \<Rightarrow> i < 0 \<or> int (length (uq_list q')) \<le> i
      | Some k \<Rightarrow> 0 \<le> i \<and> i < int (length (uq_list q')) \<and> uq_data q' ! k = uq_list q' ! nat i)"
proof -
  from uq.trace_model [OF assms] obtain q' rs where
    t: "fifo_trace uq_put uq_get ops q = (q', rs)" "uq_wf q'" "uq_size q' = uq_size q"
      "fifo_model (uq_size q) ops (uq_list q) = (uq_list q', rs)" by blast
  show ?thesis using t uq_observers [OF t(2)] by auto
qed

theorem uq_history_fifo_witness:
  "\<exists>q'. fifo_trace uq_put uq_get [Put 1, Put 2, Put 3, Get, Put 3, Get, Get, Get]
      (uq_Initialize [0, 0] 2) = (q', [Stored True, Stored True, Stored False, Got (Some (1::nat)),
        Stored True, Got (Some 2), Got (Some 3), Got None]) \<and> uq_IsEmpty q'"
proof -
  let ?q = "uq_Initialize [0, 0::nat] 2"
    and ?ops = "[Put 1, Put 2, Put 3, Get, Put 3, Get, Get, Get :: nat fifo_op]"
  have q: "uq_wf ?q" "uq_list ?q = []" "uq_size ?q = 2"
    by (simp_all add: uq_Initialize_wf) (simp add: uq_Initialize_def)
  have "fifo_model 2 ?ops [] = ([], [Stored True, Stored True, Stored False, Got (Some 1),
      Stored True, Got (Some 2), Got (Some 3), Got None])" by simp
  with uq_history_fifo [OF q(1), of ?ops] q show ?thesis by auto
qed

text \<open>
  C2. The block operations of \<open>Hal_Queue_UnknownSize\<close>: a granted block is contiguous inside
  the storage and not longer than asked for; filling a pushed block with \<open>xs\<close> appends exactly
  \<open>xs\<close> to the queue, and a popped block holds exactly the oldest elements, which leave the
  queue.
\<close>

theorem uq_block_ops:
  assumes "uq_wf q"
  shows "(uq_PushN q n = (q1, k, Some i) \<and> length xs = k \<longrightarrow>
      0 < k \<and> k \<le> n \<and> i + k \<le> uq_size q \<and> uq_wf (uq_store_block q1 i xs) \<and>
      uq_list (uq_store_block q1 i xs) = uq_list q @ xs) \<and>
    (uq_PopN q n = (q2, j, Some r) \<longrightarrow>
      0 < j \<and> j \<le> n \<and> r + j \<le> uq_size q \<and> uq_wf q2 \<and>
      uq_list q = take j (drop r (uq_data q)) @ uq_list q2)"
  using uq_PushN_Some [OF assms, of n q1 k i] uq_list_pushN_store [OF assms, of n q1 k i xs]
    uq_PopN_Some [OF assms, of n q2 j r] uq_list_popN [OF assms, of n q2 j r]
  by auto

theorem uq_block_ops_witness:
  "uq_list (uq_store_block (fst (uq_PushN (uq_Initialize [0, 0, 0::nat] 3) 2)) 0 [7, 8]) = [7, 8]"
proof -
  let ?q = "uq_Initialize [0, 0, 0::nat] 3"
  have wf: "uq_wf ?q" and e: "uq_list ?q = []" by (simp_all add: uq_Initialize_wf)
  have "uq_PushN ?q 2 = (fst (uq_PushN ?q 2), 2, Some 0) \<and> length [7, 8::nat] = 2"
    by (simp add: uq_PushN_def uq_Initialize_def Let_def)
  with uq_block_ops [OF wf, of 2 "fst (uq_PushN ?q 2)" 2 0 "[7, 8]"] e show ?thesis by simp
qed

text \<open>
  C3. \<open>Hal_Queue_KnownSize\<close> and \<open>Hal_Queue_UnknownSize\<close> are the same machine: the embedding of
  the fixed-size queue commutes with every operation of the class. Initialisation gives the
  matching state, the five observers agree, a push or a pop returns the same slot and leads to
  the matching state, and so any history has the same results.
\<close>

theorem kq_uq_equivalent:
  "kq_embed (kq_Initialize q) = uq_Initialize (kq_data q) (kq_size q) \<and>
   uq_NumberOfElements (kq_embed q) = kq_NumberOfElements q \<and>
   (uq_IsEmpty (kq_embed q) \<longleftrightarrow> kq_IsEmpty q) \<and> (uq_IsFull (kq_embed q) \<longleftrightarrow> kq_IsFull q) \<and>
   uq_at (kq_embed q) i = kq_at q i \<and> uq_Peek (kq_embed q) = kq_Peek q \<and>
   uq_Push (kq_embed q) = map_prod kq_embed id (kq_Push q) \<and>
   uq_Pop (kq_embed q) = map_prod kq_embed id (kq_Pop q) \<and>
   fifo_trace uq_put uq_get ops (kq_embed q) = map_prod kq_embed id (fifo_trace kq_put kq_get ops q)"
  using kq_embed_Push [of q] kq_embed_Pop [of q] kq_embed_trace [of ops q] kq_embed_observers(1-4,6) [of q] kq_embed_observers(5) [of q i]
  by simp

end
