(* ===== verification/HalList.thy ===== *)
theory HalList
  imports Prelude
begin

text \<open>
  The intrusive doubly linked list of \<open>DeviceCode/Include/tinyhal.h\<close>
  (\<open>HAL_DblLinkedNode\<close>, \<open>HAL_DblLinkedList\<close>), over a flat memory of pointer-sized cells.

  A node at address \<open>a\<close> has \<open>m_nextNode\<close> in cell \<open>a\<close> and \<open>m_prevNode\<close> in cell \<open>a + 1\<close>
  (the node base class is the first member of \<open>T\<close>, so \<open>offsetof(T, m_nextNode)\<close> is 0). A list
  object at address \<open>L\<close> has \<open>m_first\<close>, \<open>m_null\<close>, \<open>m_last\<close> in the cells \<open>L\<close>, \<open>L + 1\<close>, \<open>L + 2\<close>.
  \<open>Head()\<close> is the pseudo node whose next field is \<open>m_first\<close>, hence \<open>L\<close>; \<open>Tail()\<close> is the pseudo
  node whose prev field is \<open>m_last\<close>, hence \<open>L + 1\<close>; their other fields overlap in \<open>m_null\<close>.
  The model keeps this overlap: nothing but the three cells represents an empty list. NULL is 0.
\<close>

type_synonym addr = nat
type_synonym mem = "addr \<Rightarrow> nat"

section \<open>\<open>HAL_DblLinkedNode\<close>\<close>

definition dn_Initialize :: "mem \<Rightarrow> addr \<Rightarrow> mem" where
  "dn_Initialize m a = (m(a := 0))(a + 1 := 0)"

definition dn_Next :: "mem \<Rightarrow> addr \<Rightarrow> addr" where
  "dn_Next m a = m a"

definition dn_Prev :: "mem \<Rightarrow> addr \<Rightarrow> addr" where
  "dn_Prev m a = m (a + 1)"

definition dn_SetNext :: "mem \<Rightarrow> addr \<Rightarrow> addr \<Rightarrow> mem" where
  "dn_SetNext m a next = m(a := next)"

definition dn_SetPrev :: "mem \<Rightarrow> addr \<Rightarrow> addr \<Rightarrow> mem" where
  "dn_SetPrev m a prev = m(a + 1 := prev)"

definition dn_IsLinked :: "mem \<Rightarrow> addr \<Rightarrow> bool" where
  "dn_IsLinked m a \<longleftrightarrow> m a \<noteq> 0"

definition dn_RemoveFromList :: "mem \<Rightarrow> addr \<Rightarrow> mem" where
  "dn_RemoveFromList m a =
     (let next = m a; prev = m (a + 1);
          m1 = (if prev \<noteq> 0 then dn_SetNext m prev next else m)
      in if next \<noteq> 0 then dn_SetPrev m1 next prev else m1)"

definition dn_Unlink :: "mem \<Rightarrow> addr \<Rightarrow> mem" where
  "dn_Unlink m a =
     (let next = m a; prev = m (a + 1);
          m1 = (if prev \<noteq> 0 then dn_SetNext m prev next else m);
          m2 = (if next \<noteq> 0 then dn_SetPrev m1 next prev else m1)
      in dn_SetPrev (dn_SetNext m2 a 0) a 0)"

section \<open>\<open>HAL_DblLinkedList\<close>\<close>

definition dl_Head :: "addr \<Rightarrow> addr" where
  "dl_Head L = L"

definition dl_Tail :: "addr \<Rightarrow> addr" where
  "dl_Tail L = L + 1"

definition dl_Initialize :: "mem \<Rightarrow> addr \<Rightarrow> mem" where
  "dl_Initialize m L = ((m(L := dl_Tail L))(L + 1 := 0))(L + 2 := dl_Head L)"

definition dl_FirstNode :: "mem \<Rightarrow> addr \<Rightarrow> addr" where
  "dl_FirstNode m L = m L"

definition dl_LastNode :: "mem \<Rightarrow> addr \<Rightarrow> addr" where
  "dl_LastNode m L = m (L + 2)"

definition dl_IsEmpty :: "mem \<Rightarrow> addr \<Rightarrow> bool" where
  "dl_IsEmpty m L \<longleftrightarrow> m L = dl_Tail L"

definition dl_FirstValidNode :: "mem \<Rightarrow> addr \<Rightarrow> addr" where
  "dl_FirstValidNode m L = (let res = m L in if dn_Next m res \<noteq> 0 then res else 0)"

definition dl_LastValidNode :: "mem \<Rightarrow> addr \<Rightarrow> addr" where
  "dl_LastValidNode m L = (let res = m (L + 2) in if dn_Prev m res \<noteq> 0 then res else 0)"

text \<open>
  The two loops over the list; \<open>None\<close> is a loop that does not end (a corrupted, cyclic list;
  the assertion in \<open>Exists\<close> catches the one-element case of that).
\<close>

partial_function (option) dl_count_from :: "mem \<Rightarrow> addr \<Rightarrow> nat \<Rightarrow> nat option" where
  "dl_count_from m ptr num =
     (let ptrNext = dn_Next m ptr
      in if ptrNext \<noteq> 0 then dl_count_from m ptrNext (num + 1) else Some num)"

definition dl_NumOfNodes :: "mem \<Rightarrow> addr \<Rightarrow> nat option" where
  "dl_NumOfNodes m L = dl_count_from m (dl_FirstNode m L) 0"

partial_function (option) dl_exists_from :: "mem \<Rightarrow> addr \<Rightarrow> addr \<Rightarrow> bool option" where
  "dl_exists_from m node searchNode =
     (if node \<noteq> 0 \<and> node \<noteq> searchNode
      then if node = dn_Next m node then None
           else dl_exists_from m (dn_Next m node) searchNode
      else Some (node \<noteq> 0))"

definition dl_Exists :: "mem \<Rightarrow> addr \<Rightarrow> addr \<Rightarrow> bool option" where
  "dl_Exists m L searchNode = dl_exists_from m (dl_FirstValidNode m L) searchNode"

definition dl_Insert :: "mem \<Rightarrow> addr \<Rightarrow> addr \<Rightarrow> addr \<Rightarrow> mem" where
  "dl_Insert m prev next node =
     (let m1 = dn_SetNext m node next;
          m2 = dn_SetPrev m1 node prev;
          m3 = dn_SetPrev m2 next node
      in dn_SetNext m3 prev node)"

definition dl_InsertBeforeNode :: "mem \<Rightarrow> addr \<Rightarrow> addr \<Rightarrow> mem" where
  "dl_InsertBeforeNode m node nodeNew =
     (if node \<noteq> 0 \<and> nodeNew \<noteq> 0 \<and> node \<noteq> nodeNew then
        (let m1 = dn_RemoveFromList m nodeNew
         in dl_Insert m1 (dn_Prev m1 node) node nodeNew)
      else m)"

definition dl_InsertAfterNode :: "mem \<Rightarrow> addr \<Rightarrow> addr \<Rightarrow> mem" where
  "dl_InsertAfterNode m node nodeNew =
     (if node \<noteq> 0 \<and> nodeNew \<noteq> 0 \<and> node \<noteq> nodeNew then
        (let m1 = dn_RemoveFromList m nodeNew
         in dl_Insert m1 node (dn_Next m1 node) nodeNew)
      else m)"

definition dl_LinkAtFront :: "mem \<Rightarrow> addr \<Rightarrow> addr \<Rightarrow> mem" where
  "dl_LinkAtFront m L node = dl_InsertAfterNode m (dl_Head L) node"

definition dl_LinkAtBack :: "mem \<Rightarrow> addr \<Rightarrow> addr \<Rightarrow> mem" where
  "dl_LinkAtBack m L node = dl_InsertBeforeNode m (dl_Tail L) node"

definition dl_ExtractFirstNode :: "mem \<Rightarrow> addr \<Rightarrow> mem \<times> addr" where
  "dl_ExtractFirstNode m L =
     (let node = dl_FirstValidNode m L in (if node \<noteq> 0 then dn_Unlink m node else m, node))"

definition dl_ExtractLastNode :: "mem \<Rightarrow> addr \<Rightarrow> mem \<times> addr" where
  "dl_ExtractLastNode m L =
     (let node = dl_LastValidNode m L in (if node \<noteq> 0 then dn_Unlink m node else m, node))"

section \<open>Representation\<close>

text \<open>Neighbouring nodes of a chain point at each other.\<close>

fun dl_links :: "mem \<Rightarrow> addr list \<Rightarrow> bool" where
  "dl_links m (a # b # cs) \<longleftrightarrow> m a = b \<and> m (b + 1) = a \<and> dl_links m (b # cs)"
| "dl_links m cs \<longleftrightarrow> True"

text \<open>The cells a list with nodes \<open>xs\<close> uses are pairwise different.\<close>

definition dl_sep :: "addr \<Rightarrow> addr list \<Rightarrow> bool" where
  "dl_sep L xs \<longleftrightarrow> L \<noteq> 0 \<and> 0 \<notin> set xs \<and> distinct (L # (L + 1) # xs) \<and>
     (\<forall>x \<in> set (L # xs). \<forall>y \<in> set ((L + 1) # xs). x \<noteq> y + 1)"

definition dl_rep :: "mem \<Rightarrow> addr \<Rightarrow> addr list \<Rightarrow> bool" where
  "dl_rep m L xs \<longleftrightarrow> dl_sep L xs \<and> m (L + 1) = 0 \<and> dl_links m (L # xs @ [L + 1])"

definition dl_detached :: "mem \<Rightarrow> addr \<Rightarrow> bool" where
  "dl_detached m n \<longleftrightarrow> m n = 0 \<and> m (n + 1) = 0"

lemma dl_links_append:
  "dl_links m (as @ a # b # bs) \<longleftrightarrow>
     dl_links m (as @ [a]) \<and> m a = b \<and> m (b + 1) = a \<and> dl_links m (b # bs)"
proof (induction as)
  case Nil
  then show ?case by simp
next
  case (Cons c as)
  then show ?case by (cases as) auto
qed

lemma dl_links_upd:
  "c \<notin> set (butlast cs) \<Longrightarrow> c \<notin> Suc ` set (tl cs) \<Longrightarrow> dl_links (m(c := v)) cs = dl_links m cs"
proof (induction cs)
  case Nil
  then show ?case by simp
next
  case (Cons a cs)
  show ?case
  proof (cases cs)
    case Nil
    then show ?thesis by simp
  next
    case (Cons b bs)
    with Cons.prems have "c \<noteq> a" "c \<noteq> b + 1" "c \<notin> set (butlast cs)" "c \<notin> Suc ` set (tl cs)"
      by (auto split: if_splits)
    with Cons.IH Cons show ?thesis by simp
  qed
qed

lemma dl_sep_perm: "dl_sep L (xs @ n # ys) \<longleftrightarrow> dl_sep L (n # xs @ ys)"
  by (auto simp: dl_sep_def)

lemma dl_sep_Cons: "dl_sep L (n # xs) \<Longrightarrow> dl_sep L xs"
  by (auto simp: dl_sep_def)

lemma dl_sep_remove: "dl_sep L (xs @ n # ys) \<Longrightarrow> dl_sep L (xs @ ys)"
  using dl_sep_perm dl_sep_Cons by blast

text \<open>
  A chain splits around any position: the node before and the node after are real nodes or
  the two pseudo nodes.
\<close>

lemma chain_split:
  obtains as a b bs where "L # xs = as @ [a]" "ys @ [L + 1] = b # bs"
    "L # (xs @ ys) @ [L + 1] = as @ a # b # bs"
proof -
  obtain as a where a: "L # xs = as @ [a]" by (metis list.distinct(1) rev_exhaust)
  obtain b bs where b: "ys @ [L + 1] = b # bs" by (cases "ys @ [L + 1]") auto
  have "L # (xs @ ys) @ [L + 1] = (L # xs) @ ys @ [L + 1]" by simp
  also have "\<dots> = as @ a # b # bs" unfolding a b by simp
  finally show ?thesis using that a b by blast
qed


text \<open>Facts of a separated list in the shape the updates need them.\<close>

lemma dl_sep_facts:
  assumes "dl_sep L (n # xs @ ys)" "L # xs = as @ [a]" "ys @ [L + 1] = b # bs"
  shows "n \<noteq> 0" "a \<noteq> 0" "b \<noteq> 0" "n \<noteq> a" "n \<noteq> b" "a \<noteq> b"
    "a \<noteq> n + 1" "a \<noteq> b + 1" "n \<noteq> b + 1" "n \<noteq> L + 1" "n \<noteq> L" "a \<noteq> L + 1" "b \<noteq> L"
    "\<And>c. c \<in> {n, n + 1, a, b + 1} \<Longrightarrow> c \<notin> set as \<and> c \<notin> Suc ` set xs"
    "\<And>c. c \<in> {n, n + 1, a, b + 1} \<Longrightarrow> c \<notin> set ys \<and> c \<notin> Suc ` set bs"
proof -
  let ?N = "insert L (insert n (set xs \<union> set ys))"
  let ?P = "insert (L + 1) (insert n (set xs \<union> set ys))"
  note D = assms(1) [unfolded dl_sep_def]
  have nz: "0 \<notin> ?N" using D by auto
  have dist: "distinct (L # (L + 1) # n # xs @ ys)" using D by (elim conjE)
  have "\<forall>x \<in> set (L # n # xs @ ys). \<forall>y \<in> set ((L + 1) # n # xs @ ys). x \<noteq> y + 1"
    using D by (elim conjE)
  then have sp: "x \<noteq> y + 1" if "x \<in> ?N" "y \<in> ?P" for x y
    using that unfolding list.set set_append by blast
  have dn: "n \<notin> insert L (insert (L + 1) (set xs \<union> set ys))"
    and dL: "L \<notin> set xs \<union> set ys" "L + 1 \<notin> set xs \<union> set ys" and dxy: "set xs \<inter> set ys = {}"
    using dist by auto
  have a: "a \<in> insert L (set xs)" "set as \<subseteq> insert L (set xs)"
    using arg_cong [OF assms(2), of set] by auto
  have b: "b \<in> insert (L + 1) (set ys)" "set bs \<subseteq> insert (L + 1) (set ys)"
    using arg_cong [OF assms(3), of set] by auto
  have d: "distinct (as @ [a])" "distinct (b # bs)"
    using dist unfolding assms(2,3) [symmetric] by auto
  have aN: "a \<in> ?N" and bP: "b \<in> ?P" using a(1) b(1) by blast+
  have nzN: "x \<noteq> 0" if "x \<in> ?N" for x
  proof
    assume "x = 0" with that nz show False by simp
  qed
  show "n \<noteq> 0" by (rule nzN) simp
  show "a \<noteq> 0" using aN by (rule nzN)
  show "b \<noteq> 0"
  proof (cases "b = L + 1")
    case False
    with b(1) have "b \<in> ?N" by simp
    then show ?thesis by (rule nzN)
  qed simp
  show "n \<noteq> a" "n \<noteq> b" using dn a(1) b(1) by auto
  show "a \<noteq> b" using a(1) b(1) dL dxy by auto
  show "a \<noteq> n + 1" "a \<noteq> b + 1" "n \<noteq> b + 1" using sp aN bP by blast+
  show "n \<noteq> L + 1" "n \<noteq> L" using dn by auto
  show "a \<noteq> L + 1" "b \<noteq> L" using a(1) b(1) dL by auto
  have Suc_notin: "x \<in> ?N \<Longrightarrow> A \<subseteq> ?P \<Longrightarrow> x \<notin> Suc ` A" for x A using sp by auto
  have Suc_notin': "y \<in> ?P \<Longrightarrow> A \<subseteq> ?N \<Longrightarrow> y + 1 \<notin> A" for y A using sp by blast
  fix c assume c: "c \<in> {n, n + 1, a, b + 1}"
  have "n \<notin> set as" "a \<notin> set as" using a(2) dn d(1) by auto
  moreover have "n + 1 \<notin> set as" "b + 1 \<notin> set as"
    using Suc_notin' [of _ "set as"] a(2) bP by blast+
  moreover have "n \<notin> Suc ` set xs" "a \<notin> Suc ` set xs"
    using Suc_notin [of _ "set xs"] aN by blast+
  moreover have "n + 1 \<notin> Suc ` set xs" "b + 1 \<notin> Suc ` set xs"
    using dn b(1) dL dxy by auto
  ultimately show "c \<notin> set as \<and> c \<notin> Suc ` set xs" using c by (elim insertE emptyE) simp_all
  have "n \<notin> set ys" "a \<notin> set ys" using dn a(1) dL dxy by auto
  moreover have "n + 1 \<notin> set ys" "b + 1 \<notin> set ys"
    using Suc_notin' [of _ "set ys"] bP by blast+
  moreover have "n \<notin> Suc ` set bs" "a \<notin> Suc ` set bs"
    using Suc_notin [of _ "set bs"] aN b(2) by blast+
  moreover have "n + 1 \<notin> Suc ` set bs" "b + 1 \<notin> Suc ` set bs"
    using dn b(2) d(2) by auto
  ultimately show "c \<notin> set ys \<and> c \<notin> Suc ` set bs" using c by (elim insertE emptyE) simp_all
qed

lemma dl_links_halves:
  assumes s: "L # xs = as @ [a]" "ys @ [L + 1] = b # bs"
    and c: "c \<notin> set as \<and> c \<notin> Suc ` set xs" "c \<notin> set ys \<and> c \<notin> Suc ` set bs"
  shows "dl_links (m(c := v)) (as @ [a]) = dl_links m (as @ [a])"
    "dl_links (m(c := v)) (b # bs) = dl_links m (b # bs)"
proof -
  have "tl (as @ [a]) = xs" using s(1) [symmetric] by simp
  then show "dl_links (m(c := v)) (as @ [a]) = dl_links m (as @ [a])"
    using c(1) by (intro dl_links_upd) auto
  have "butlast (b # bs) = ys" using s(2) [symmetric] by simp
  then show "dl_links (m(c := v)) (b # bs) = dl_links m (b # bs)"
    using c(2) by (intro dl_links_upd) auto
qed

lemma dl_rep_insert:
  assumes rep: "dl_rep m L (xs @ ys)" and sep: "dl_sep L (n # xs @ ys)"
    and p: "p = last (L # xs)" and q: "q = hd (ys @ [L + 1])"
  shows "dl_rep (dl_Insert m p q n) L (xs @ n # ys)"
proof -
  obtain as a b bs where s: "L # xs = as @ [a]" "ys @ [L + 1] = b # bs"
    and ch: "L # (xs @ ys) @ [L + 1] = as @ a # b # bs"
    by (rule chain_split)
  have pq: "p = a" "q = b" using p q unfolding s by auto
  note F = dl_sep_facts [OF sep s] and H = dl_links_halves [OF s F(14) F(15)]
  have l: "dl_links m (as @ [a])" "dl_links m (b # bs)"
    using rep unfolding dl_rep_def ch dl_links_append by auto
  let ?m = "dl_Insert m p q n"
  have m: "?m = (((m(n := b))(n + 1 := a))(b + 1 := n))(a := n)"
    by (simp add: dl_Insert_def dn_SetNext_def dn_SetPrev_def pq)
  have "dl_links ?m (as @ [a])" "dl_links ?m (b # bs)" by (simp_all add: m H l)
  moreover have "?m a = n" "?m (n + 1) = a" "?m n = b" "?m (b + 1) = n"
    using F(4-13) by (simp_all add: m)
  ultimately have "dl_links ?m (as @ a # n # b # bs)"
    by (simp add: dl_links_append)
  moreover have "L # (xs @ n # ys) @ [L + 1] = as @ a # n # b # bs"
    using s by (metis append_Cons append_assoc append_Nil)
  moreover have "?m (L + 1) = 0"
    using rep F(4-13) by (simp add: m dl_rep_def)
  ultimately show ?thesis
    using sep unfolding dl_rep_def by (simp add: dl_sep_perm)
qed

lemma dl_rep_remove:
  assumes rep: "dl_rep m L (xs @ n # ys)"
  shows "dl_rep (dn_RemoveFromList m n) L (xs @ ys)"
    "dl_rep (dn_Unlink m n) L (xs @ ys)" "dl_detached (dn_Unlink m n) n"
proof -
  obtain as a b bs where s: "L # xs = as @ [a]" "ys @ [L + 1] = b # bs"
    and ch: "L # (xs @ ys) @ [L + 1] = as @ a # b # bs"
    by (rule chain_split)
  have ch': "L # (xs @ n # ys) @ [L + 1] = as @ a # n # b # bs"
    using s by (metis append_Cons append_assoc append_Nil)
  have sep: "dl_sep L (n # xs @ ys)" using rep by (simp add: dl_rep_def dl_sep_perm)
  note F = dl_sep_facts [OF sep s] and H = dl_links_halves [OF s F(14) F(15)]
  have l: "dl_links m (as @ [a])" "m a = n" "m (n + 1) = a" "m n = b" "m (b + 1) = n"
    "dl_links m (b # bs)" and z: "m (L + 1) = 0"
    using rep unfolding dl_rep_def ch' dl_links_append [of m as a n] by auto
  have sep': "dl_sep L (xs @ ys)" using sep by (rule dl_sep_Cons)
  have r: "dn_RemoveFromList m n = (m(a := b))(b + 1 := a)"
    using F(2,3) l by (simp add: dn_RemoveFromList_def dn_SetNext_def dn_SetPrev_def)
  have u: "dn_Unlink m n = (((m(a := b))(b + 1 := a))(n := 0))(n + 1 := 0)"
    using F(2,3) l by (simp add: dn_Unlink_def dn_SetNext_def dn_SetPrev_def)
  show "dl_rep (dn_RemoveFromList m n) L (xs @ ys)"
    unfolding dl_rep_def r ch dl_links_append
    using sep' z F(4-13) l by (simp add: H)
  show "dl_rep (dn_Unlink m n) L (xs @ ys)"
    unfolding dl_rep_def u ch dl_links_append
    using sep' z F(4-13) l by (simp add: H)
  show "dl_detached (dn_Unlink m n) n" by (simp add: dl_detached_def u)
qed


section \<open>Observers\<close>

lemma dl_rep_sep: "dl_rep m L xs \<Longrightarrow> dl_sep L xs"
  by (simp add: dl_rep_def)

lemma dl_sep_distinct: "dl_sep L xs \<Longrightarrow> distinct (L # xs @ [L + 1])"
  by (auto simp: dl_sep_def)

lemma dl_rep_neighbours:
  assumes "dl_rep m L (xs @ n # ys)"
  shows "dn_Next m n = hd (ys @ [L + 1])" "dn_Prev m n = last (L # xs)"
proof -
  obtain as a b bs where s: "L # xs = as @ [a]" "ys @ [L + 1] = b # bs"
    by (metis chain_split)
  have "L # (xs @ n # ys) @ [L + 1] = as @ a # n # b # bs"
    using s by (metis append_Cons append_assoc append_Nil)
  then have "m (n + 1) = a" "m n = b"
    using assms unfolding dl_rep_def by (auto simp: dl_links_append)
  moreover have "hd (ys @ [L + 1]) = b" "last (L # xs) = a" unfolding s by auto
  ultimately show "dn_Next m n = hd (ys @ [L + 1])" "dn_Prev m n = last (L # xs)"
    by (simp_all only: dn_Next_def dn_Prev_def)
qed

lemma dl_rep_ends:
  assumes "dl_rep m L xs"
  shows "dl_FirstNode m L = hd (xs @ [L + 1])" "dl_LastNode m L = last (L # xs)"
    "dn_Next m (L + 1) = 0" "dn_Prev m L = 0" "dn_Prev m (L + 1) = last (L # xs)"
    "dn_Next m L = hd (xs @ [L + 1])"
proof -
  obtain as a b bs where s: "L # [] = as @ [a]" "xs @ [L + 1] = b # bs"
    by (metis chain_split)
  then have "as = []" "a = L" by (auto simp: Cons_eq_append_conv)
  then have "m L = b"
    using assms s unfolding dl_rep_def by (metis append_Nil dl_links.simps(1))
  then show "dl_FirstNode m L = hd (xs @ [L + 1])" "dn_Next m L = hd (xs @ [L + 1])"
    using s by (simp_all add: dl_FirstNode_def dn_Next_def)
  obtain cs c where c: "L # xs = cs @ [c]" by (metis list.distinct(1) rev_exhaust)
  have "L # xs @ [L + 1] = cs @ c # (L + 1) # []" using c by simp
  then have "dl_links m (cs @ c # (L + 1) # [])" using assms unfolding dl_rep_def by metis
  then have "m (L + 1 + 1) = c" unfolding dl_links_append by (elim conjE)
  then show "dl_LastNode m L = last (L # xs)" "dn_Prev m (L + 1) = last (L # xs)"
    unfolding c by (simp_all add: dl_LastNode_def dn_Prev_def)
  show "dn_Next m (L + 1) = 0" "dn_Prev m L = 0"
    using assms by (simp_all add: dl_rep_def dn_Next_def dn_Prev_def)
qed

lemma dl_rep_next_nonzero:
  assumes "dl_rep m L xs" "x \<in> set xs"
  shows "dn_Next m x \<noteq> 0" "dn_Prev m x \<noteq> 0"
proof -
  obtain as bs where xs: "xs = as @ x # bs" using assms(2) by (meson split_list)
  have "0 \<notin> set (L # xs @ [L + 1])" using dl_rep_sep [OF assms(1)] by (auto simp: dl_sep_def)
  moreover have "hd (bs @ [L + 1]) \<in> set (L # xs @ [L + 1])" "last (L # as) \<in> set (L # xs @ [L + 1])"
    unfolding xs by (cases bs; simp) (cases as rule: rev_cases; simp)
  ultimately show "dn_Next m x \<noteq> 0" "dn_Prev m x \<noteq> 0"
    using dl_rep_neighbours [of m L as x bs] assms(1) unfolding xs by metis+
qed

lemma dl_IsEmpty_iff:
  assumes "dl_rep m L xs" shows "dl_IsEmpty m L \<longleftrightarrow> xs = []"
proof -
  have "L + 1 \<notin> set xs" using dl_rep_sep [OF assms] by (auto simp: dl_sep_def)
  then show ?thesis
    using dl_rep_ends(1) [OF assms]
    by (cases xs) (auto simp: dl_IsEmpty_def dl_FirstNode_def dl_Tail_def)
qed

lemma dl_FirstValidNode_rep:
  assumes "dl_rep m L xs"
  shows "dl_FirstValidNode m L = (case xs of [] \<Rightarrow> 0 | x # _ \<Rightarrow> x)"
  using dl_rep_ends(1,3) [OF assms] dl_rep_next_nonzero(1) [OF assms]
  by (cases xs) (auto simp: dl_FirstValidNode_def dl_FirstNode_def Let_def)

lemma dl_LastValidNode_rep:
  assumes "dl_rep m L xs"
  shows "dl_LastValidNode m L = (if xs = [] then 0 else last xs)"
  using dl_rep_ends(2,4) [OF assms] dl_rep_next_nonzero(2) [OF assms]
  by (auto simp: dl_LastValidNode_def dl_LastNode_def Let_def)

lemma dl_count_from_rep:
  assumes "dl_rep m L (xs @ ys)"
  shows "dl_count_from m (hd (ys @ [L + 1])) k = Some (k + length ys)"
  using assms
proof (induction ys arbitrary: xs k)
  case Nil
  then show ?case
    using dl_rep_ends(3) [of m L xs] by (simp add: dl_count_from.simps Let_def)
next
  case (Cons y ys)
  have "dn_Next m y \<noteq> 0" using dl_rep_next_nonzero(1) [OF Cons.prems, of y] by simp
  with Cons.IH [of "xs @ [y]" "k + 1"] Cons.prems dl_rep_neighbours(1) [OF Cons.prems]
  show ?case by (subst dl_count_from.simps) (simp add: Let_def)
qed

lemma dl_NumOfNodes_rep: "dl_rep m L xs \<Longrightarrow> dl_NumOfNodes m L = Some (length xs)"
  using dl_count_from_rep [of m L "[]" xs 0] dl_rep_ends(1) [of m L xs]
  by (simp add: dl_NumOfNodes_def)

lemma dl_exists_from_rep:
  assumes "dl_rep m L (xs @ ys)" "s \<noteq> 0"
  shows "dl_exists_from m (hd (ys @ [L + 1])) s = Some (s \<in> set (ys @ [L + 1]))"
  using assms
proof (induction ys arbitrary: xs)
  case Nil
  then have "dl_exists_from m 0 s = Some False"
    by (subst dl_exists_from.simps) simp
  with Nil show ?case
    using dl_rep_ends(3) [of m L xs] by (subst dl_exists_from.simps) auto
next
  case (Cons y ys)
  have "distinct (y # ys @ [L + 1])" "y \<noteq> 0"
    using dl_rep_sep [OF Cons.prems(1)] by (auto simp: dl_sep_def)
  then have "hd (ys @ [L + 1]) \<noteq> y" by (cases ys) auto
  with Cons.IH [of "xs @ [y]"] Cons.prems dl_rep_neighbours(1) [OF Cons.prems(1)] \<open>y \<noteq> 0\<close>
  show ?case by (subst dl_exists_from.simps) auto
qed

lemma dl_Exists_rep:
  assumes "dl_rep m L xs" "s \<noteq> 0" "s \<noteq> L + 1"
  shows "dl_Exists m L s = Some (s \<in> set xs)"
proof (cases xs)
  case Nil
  then show ?thesis
    using dl_FirstValidNode_rep [OF assms(1)] assms(2)
    by (simp add: dl_Exists_def dl_exists_from.simps)
next
  case (Cons y ys)
  then show ?thesis
    using dl_FirstValidNode_rep [OF assms(1)] dl_exists_from_rep [of m L "[]" xs s] assms
    by (auto simp: dl_Exists_def)
qed


section \<open>Mutators\<close>

lemma dl_Initialize_rep: "L \<noteq> 0 \<Longrightarrow> dl_rep (dl_Initialize m L) L []"
  by (simp add: dl_rep_def dl_sep_def dl_Initialize_def dl_Head_def dl_Tail_def)

lemma dn_RemoveFromList_detached: "dl_detached m n \<Longrightarrow> dn_RemoveFromList m n = m"
  by (simp add: dl_detached_def dn_RemoveFromList_def)

lemma dn_Unlink_detached: "dl_detached m n \<Longrightarrow> dn_Unlink m n = m"
  by (auto simp: dl_detached_def dn_Unlink_def dn_SetNext_def dn_SetPrev_def)

lemma dn_Initialize_detached: "dl_detached (dn_Initialize m n) n"
  by (simp add: dl_detached_def dn_Initialize_def)

lemma dl_sep_node: "dl_sep L (n # xs) \<Longrightarrow> x \<in> set (L # xs) \<Longrightarrow> x \<noteq> 0 \<and> x \<noteq> n"
  by (cases "x = 0") (auto simp: dl_sep_def)

lemma dl_last_in: "dl_sep L (n # xs) \<Longrightarrow> last (L # xs) \<noteq> 0 \<and> last (L # xs) \<noteq> n"
  by (erule dl_sep_node) (rule last_in_set, simp)

lemma dl_hd_in:
  assumes "dl_sep L (n # xs)"
  shows "hd (xs @ [L + 1]) \<noteq> 0 \<and> hd (xs @ [L + 1]) \<noteq> n"
  using assms by (cases xs) (auto simp: dl_sep_def)

text \<open>The two insertions, wherever the new node was before.\<close>

lemma dl_InsertBeforeNode_rep:
  assumes rep: "dl_rep (dn_RemoveFromList m n) L (xs @ ys)" and sep: "dl_sep L (n # xs @ ys)"
  shows "dl_rep (dl_InsertBeforeNode m (hd (ys @ [L + 1])) n) L (xs @ n # ys)"
proof -
  let ?m = "dn_RemoveFromList m n" and ?q = "hd (ys @ [L + 1])"
  have q: "?q \<noteq> 0" "?q \<noteq> n" "n \<noteq> 0"
    using sep by (cases ys; auto simp: dl_sep_def)+
  have "dn_Prev ?m ?q = last (L # xs)"
  proof (cases ys)
    case Nil
    then show ?thesis using dl_rep_ends(5) [OF rep] by simp
  next
    case (Cons y zs)
    then show ?thesis using dl_rep_neighbours(2) [of ?m L xs y zs] rep by simp
  qed
  then show ?thesis
    using dl_rep_insert [OF rep sep refl refl] q by (simp add: dl_InsertBeforeNode_def)
qed

lemma dl_InsertAfterNode_rep:
  assumes rep: "dl_rep (dn_RemoveFromList m n) L (xs @ ys)" and sep: "dl_sep L (n # xs @ ys)"
  shows "dl_rep (dl_InsertAfterNode m (last (L # xs)) n) L (xs @ n # ys)"
proof -
  let ?m = "dn_RemoveFromList m n" and ?p = "last (L # xs)"
  have "dl_sep L (n # xs)" using sep by (auto simp: dl_sep_def)
  then have p: "?p \<noteq> 0" "?p \<noteq> n" using dl_last_in by blast+
  have "n \<noteq> 0" using sep by (auto simp: dl_sep_def)
  have "dn_Next ?m ?p = hd (ys @ [L + 1])"
  proof (cases xs rule: rev_cases)
    case Nil
    then show ?thesis using dl_rep_ends(6) [OF rep] by simp
  next
    case (snoc zs z)
    then show ?thesis using dl_rep_neighbours(1) [of ?m L zs z ys] rep by simp
  qed
  then show ?thesis
    using dl_rep_insert [OF rep sep refl refl] p \<open>n \<noteq> 0\<close>
    by (simp add: dl_InsertAfterNode_def del: last.simps)
qed

lemma dl_LinkAtBack_rep:
  assumes "dl_rep (dn_RemoveFromList m n) L xs" "dl_sep L (n # xs)"
  shows "dl_rep (dl_LinkAtBack m L n) L (xs @ [n])"
  using dl_InsertBeforeNode_rep [of m n L xs "[]"] assms
  by (simp add: dl_LinkAtBack_def dl_Tail_def)

lemma dl_LinkAtFront_rep:
  assumes "dl_rep (dn_RemoveFromList m n) L xs" "dl_sep L (n # xs)"
  shows "dl_rep (dl_LinkAtFront m L n) L (n # xs)"
  using dl_InsertAfterNode_rep [of m n L "[]" xs] assms
  by (simp add: dl_LinkAtFront_def dl_Head_def)

lemma dl_ExtractFirstNode_rep:
  assumes "dl_rep m L xs" "dl_ExtractFirstNode m L = (m', n)"
  shows "xs = [] \<Longrightarrow> n = 0 \<and> m' = m"
    "xs = y # ys \<Longrightarrow> n = y \<and> m' = dn_Unlink m y \<and> dl_rep m' L ys \<and> dl_detached m' y"
  using assms dl_FirstValidNode_rep [OF assms(1)] dl_rep_sep [OF assms(1)]
    dl_rep_remove [of m L "[]" y ys]
  by (auto simp: dl_ExtractFirstNode_def Let_def dl_sep_def split: if_splits)

lemma dl_ExtractLastNode_rep:
  assumes "dl_rep m L xs" "dl_ExtractLastNode m L = (m', n)"
  shows "xs = [] \<Longrightarrow> n = 0 \<and> m' = m"
    "xs = ys @ [y] \<Longrightarrow> n = y \<and> m' = dn_Unlink m y \<and> dl_rep m' L ys \<and> dl_detached m' y"
  using assms dl_LastValidNode_rep [OF assms(1)] dl_rep_sep [OF assms(1)]
    dl_rep_remove [of m L ys y "[]"]
  by (auto simp: dl_ExtractLastNode_def Let_def dl_sep_def split: if_splits)

text \<open>Unlinking by address: the node leaves wherever it was.\<close>

lemma dl_Unlink_rep:
  assumes "dl_rep m L xs" "n \<in> set xs"
  shows "dl_rep (dn_Unlink m n) L (remove1 n xs)" "dl_rep (dn_RemoveFromList m n) L (remove1 n xs)"
    "dl_detached (dn_Unlink m n) n"
proof -
  obtain as bs where xs: "xs = as @ n # bs" using assms(2) by (meson split_list)
  have "n \<notin> set as" using dl_rep_sep [OF assms(1)] by (auto simp: dl_sep_def xs)
  then have "remove1 n xs = as @ bs" by (simp add: xs remove1_append)
  with dl_rep_remove [of m L as n bs] assms(1) xs
  show "dl_rep (dn_Unlink m n) L (remove1 n xs)" "dl_rep (dn_RemoveFromList m n) L (remove1 n xs)"
    "dl_detached (dn_Unlink m n) n" by auto
qed

lemma dl_sep_remove1: "dl_sep L xs \<Longrightarrow> n \<in> set xs \<Longrightarrow> dl_sep L (n # remove1 n xs)"
  using dl_sep_perm split_list [of n xs]
  by (fastforce simp: dl_sep_def remove1_append)

section \<open>Frame\<close>

text \<open>The memory a list occupies: what it reads, and all it can write.\<close>

definition dl_cells :: "addr \<Rightarrow> addr list \<Rightarrow> addr set" where
  "dl_cells L xs = {L, L + 1, L + 2} \<union> set xs \<union> Suc ` set xs"

lemma dl_links_cong:
  "(\<And>c. c \<in> set (butlast cs) \<union> Suc ` set (tl cs) \<Longrightarrow> m' c = m c) \<Longrightarrow> dl_links m' cs = dl_links m cs"
proof (induction cs)
  case Nil
  then show ?case by simp
next
  case (Cons a cs)
  show ?case
  proof (cases cs)
    case Nil
    then show ?thesis by simp
  next
    case (Cons b bs)
    have "m' a = m a" "m' (b + 1) = m (b + 1)" using Cons.prems Cons by auto
    moreover have "dl_links m' cs = dl_links m cs"
      using Cons.prems Cons by (intro Cons.IH) auto
    ultimately show ?thesis using Cons by simp
  qed
qed

lemma dl_rep_frame:
  assumes "\<And>c. c \<in> dl_cells L xs \<Longrightarrow> m' c = m c"
  shows "dl_rep m' L xs = dl_rep m L xs"
proof -
  have "dl_links m' (L # xs @ [L + 1]) = dl_links m (L # xs @ [L + 1])"
    using assms by (intro dl_links_cong) (auto simp: dl_cells_def butlast_append)
  moreover have "m' (L + 1) = m (L + 1)" using assms by (simp add: dl_cells_def)
  ultimately show ?thesis by (simp add: dl_rep_def)
qed

lemma dl_sep_fresh:
  "dl_sep L xs \<Longrightarrow> n \<noteq> 0 \<Longrightarrow> n \<notin> dl_cells L xs \<Longrightarrow> n + 1 \<notin> dl_cells L xs \<Longrightarrow> dl_sep L (n # xs)"
  by (auto simp: dl_sep_def dl_cells_def)

lemma dl_cells_remove1: "dl_cells L (remove1 n xs) \<subseteq> dl_cells L xs"
  using set_remove1_subset [of n xs] by (auto simp: dl_cells_def)

lemma dl_neighbours_in:
  "hd (ys @ [L + 1]) \<in> set ys \<union> {L + 1}" "last (L # xs) \<in> set xs \<union> {L}"
  by (cases ys; simp) (cases xs rule: rev_cases; simp)

lemma dn_Unlink_frame:
  assumes "dl_rep m L xs" "n \<in> set xs" "c \<notin> dl_cells L xs"
  shows "dn_Unlink m n c = m c"
proof -
  obtain as bs where xs: "xs = as @ n # bs" using assms(2) by (meson split_list)
  have "dn_Next m n \<in> set bs \<union> {L + 1}" "dn_Prev m n \<in> set as \<union> {L}"
    using dl_rep_neighbours [of m L as n bs] assms(1) dl_neighbours_in xs by metis+
  then have "m n \<in> set xs \<union> {L + 1}" "m (n + 1) \<in> set xs \<union> {L}"
    by (auto simp: xs dn_Next_def dn_Prev_def)
  then show ?thesis
    using assms(2,3) by (auto simp: dn_Unlink_def dn_SetNext_def dn_SetPrev_def dl_cells_def Let_def)
qed

lemma dl_InsertBeforeNode_frame:
  assumes "dl_rep m L (xs @ ys)" "dl_detached m n" "c \<notin> dl_cells L (n # xs @ ys)"
  shows "dl_InsertBeforeNode m (hd (ys @ [L + 1])) n c = m c"
proof -
  let ?q = "hd (ys @ [L + 1])"
  have q: "?q \<in> set ys \<union> {L + 1}" by (rule dl_neighbours_in)
  have p: "dn_Prev m ?q \<in> set xs \<union> {L}"
  proof (cases ys)
    case Nil
    then show ?thesis using dl_rep_ends(5) [OF assms(1)] dl_neighbours_in(2) [of L xs] by simp
  next
    case (Cons y zs)
    then show ?thesis
      using dl_rep_neighbours(2) [of m L xs y zs] assms(1) dl_neighbours_in(2) [of L xs] by simp
  qed
  show ?thesis
    using q p assms(3)
    by (auto simp: dl_InsertBeforeNode_def dn_RemoveFromList_detached [OF assms(2)] dl_Insert_def
        dn_SetNext_def dn_SetPrev_def dl_cells_def Let_def)
qed

lemma dl_LinkAtBack_frame:
  assumes "dl_rep m L xs" "dl_detached m n" "c \<notin> dl_cells L (n # xs)"
  shows "dl_LinkAtBack m L n c = m c"
  using dl_InsertBeforeNode_frame [of m L xs "[]" n c] assms
  by (simp add: dl_LinkAtBack_def dl_Tail_def)

section \<open>The interface its clients use\<close>

text \<open>
  A work list of nodes: \<open>rep m xs\<close> reads the state as the list of linked nodes, \<open>idle m n\<close>
  says that a node is in no list, \<open>room xs n\<close> that it does not overlap the nodes of the list.
\<close>

locale node_list =
  fixes rep :: "'m \<Rightarrow> addr list \<Rightarrow> bool"
    and idle :: "'m \<Rightarrow> addr \<Rightarrow> bool"
    and room :: "addr list \<Rightarrow> addr \<Rightarrow> bool"
    and push_back :: "'m \<Rightarrow> addr \<Rightarrow> 'm"
    and unlink :: "'m \<Rightarrow> addr \<Rightarrow> 'm"
    and pop_front :: "'m \<Rightarrow> 'm \<times> addr"
  assumes push_idle: "rep m xs \<Longrightarrow> idle m n \<Longrightarrow> room xs n \<Longrightarrow> rep (push_back m n) (xs @ [n])"
    and push_linked: "rep m xs \<Longrightarrow> n \<in> set xs \<Longrightarrow> rep (push_back m n) (remove1 n xs @ [n])"
    and unlink_linked: "rep m xs \<Longrightarrow> n \<in> set xs \<Longrightarrow>
      rep (unlink m n) (remove1 n xs) \<and> idle (unlink m n) n"
    and unlink_idle: "idle m n \<Longrightarrow> unlink m n = m"
    and pop_empty: "rep m [] \<Longrightarrow> pop_front m = (m, 0)"
    and pop_cons: "rep m (x # xs) \<Longrightarrow>
      pop_front m = (unlink m x, x) \<and> x \<noteq> 0"
    and rep_distinct: "rep m xs \<Longrightarrow> distinct xs"
begin

lemma pop_cons_rep: "rep m (x # xs) \<Longrightarrow> rep (fst (pop_front m)) xs \<and> idle (fst (pop_front m)) x"
  using pop_cons [of m x xs] unlink_linked [of m "x # xs" x] by simp

text \<open>A node that is pushed and then unlinked leaves the list as it was.\<close>

lemma push_unlink: "rep m xs \<Longrightarrow> idle m n \<Longrightarrow> room xs n \<Longrightarrow> rep (unlink (push_back m n) n) xs"
  using unlink_linked [OF push_idle, of m xs n n] rep_distinct [OF push_idle, of m xs n]
  by (simp add: remove1_append)

end

interpretation dl: node_list "\<lambda>m. dl_rep m L" dl_detached "\<lambda>xs n. dl_sep L (n # xs)"
  "\<lambda>m. dl_LinkAtBack m L" dn_Unlink "\<lambda>m. dl_ExtractFirstNode m L" for L
proof
  fix m xs n
  assume "dl_rep m L xs" "dl_detached m n" "dl_sep L (n # xs)"
  then show "dl_rep (dl_LinkAtBack m L n) L (xs @ [n])"
    by (simp add: dl_LinkAtBack_rep dn_RemoveFromList_detached)
next
  fix m xs n
  assume "dl_rep m L xs" "n \<in> set xs"
  then show "dl_rep (dl_LinkAtBack m L n) L (remove1 n xs @ [n])"
    by (simp add: dl_LinkAtBack_rep dl_Unlink_rep dl_sep_remove1 dl_rep_sep)
next
  fix m xs n
  assume "dl_rep m L xs" "n \<in> set xs"
  then show "dl_rep (dn_Unlink m n) L (remove1 n xs) \<and> dl_detached (dn_Unlink m n) n"
    by (simp add: dl_Unlink_rep)
next
  fix m n
  assume "dl_detached m n"
  then show "dn_Unlink m n = m" by (rule dn_Unlink_detached)
next
  fix m
  assume "dl_rep m L []"
  then show "dl_ExtractFirstNode m L = (m, 0)"
    using dl_ExtractFirstNode_rep(1) [of m L "[]"] by (cases "dl_ExtractFirstNode m L") auto
next
  fix m x xs
  assume r: "dl_rep m L (x # xs)"
  then show "dl_ExtractFirstNode m L = (dn_Unlink m x, x) \<and> x \<noteq> 0"
    using dl_ExtractFirstNode_rep(2) [OF r, of _ _ x xs] dl_rep_sep [OF r]
    by (cases "dl_ExtractFirstNode m L") (auto simp: dl_sep_def)
next
  fix m xs
  assume "dl_rep m L xs"
  then show "distinct xs" using dl_rep_sep by (fastforce simp: dl_sep_def)
qed

section \<open>Properties\<close>

text \<open>
  Where a node goes in from: an idle node beside the list, or a node of the list, which leaves
  its place first.
\<close>

definition dl_comes :: "mem \<Rightarrow> addr \<Rightarrow> addr \<Rightarrow> addr list \<Rightarrow> addr list \<Rightarrow> bool" where
  "dl_comes m L n xs others \<longleftrightarrow> (dl_detached m n \<and> dl_sep L (n # xs) \<and> others = xs) \<or>
     (n \<in> set xs \<and> others = remove1 n xs)"

lemma dl_comes_rep:
  assumes "dl_rep m L xs" "dl_comes m L n xs others"
  shows "dl_rep (dn_RemoveFromList m n) L others" "dl_sep L (n # others)"
  using assms dl_Unlink_rep [of m L xs n] dl_sep_remove1 [OF dl_rep_sep, of m L xs n]
  by (auto simp: dl_comes_def dn_RemoveFromList_detached)

lemma dl_Insert_null:
  "node = 0 \<or> n = 0 \<or> node = n \<Longrightarrow> dl_InsertBeforeNode m node n = m \<and> dl_InsertAfterNode m node n = m"
  by (auto simp: dl_InsertBeforeNode_def dl_InsertAfterNode_def)

lemma dl_Extract_rep:
  assumes "dl_rep m L xs"
  shows "dl_ExtractFirstNode m L = (if xs = [] then (m, 0) else (dn_Unlink m (hd xs), hd xs))"
    "dl_ExtractLastNode m L = (if xs = [] then (m, 0) else (dn_Unlink m (last xs), last xs))"
    "xs \<noteq> [] \<Longrightarrow> dl_rep (dn_Unlink m (hd xs)) L (tl xs) \<and> dl_rep (dn_Unlink m (last xs)) L (butlast xs)"
proof -
  obtain m1 n1 m2 n2 where e: "dl_ExtractFirstNode m L = (m1, n1)" "dl_ExtractLastNode m L = (m2, n2)"
    by fastforce
  note F = dl_ExtractFirstNode_rep [OF assms e(1)] and B = dl_ExtractLastNode_rep [OF assms e(2)]
  show "dl_ExtractFirstNode m L = (if xs = [] then (m, 0) else (dn_Unlink m (hd xs), hd xs))"
    using e(1) F(1) F(2) [of "hd xs" "tl xs"] by auto
  show "dl_ExtractLastNode m L = (if xs = [] then (m, 0) else (dn_Unlink m (last xs), last xs))"
    using e(2) B(1) B(2) [of "butlast xs" "last xs"] by auto
  show "xs \<noteq> [] \<Longrightarrow> dl_rep (dn_Unlink m (hd xs)) L (tl xs) \<and> dl_rep (dn_Unlink m (last xs)) L (butlast xs)"
    using F(2) [of "hd xs" "tl xs"] B(2) [of "butlast xs" "last xs"] by auto
qed

lemma dl_node_neighbours:
  assumes "dl_rep m L xs" "xs = ys @ k # zs"
  shows "dn_IsLinked m k \<and> dn_Next m k = hd (zs @ [dl_Tail L]) \<and> dn_Prev m k = last (dl_Head L # ys)"
  using dl_rep_neighbours [of m L ys k zs] dl_rep_next_nonzero(1) [of m L xs k] assms
  by (simp add: dn_IsLinked_def dn_Next_def dl_Head_def dl_Tail_def)

text \<open>
  C4. Refinement of the intrusive list, overlapping sentinels included, to a sequence. Initialising
  a list gives the empty one and initialising a node an idle one. If the memory represents the
  nodes \<open>xs\<close>, every operation of the two classes does on the memory what its name says:
  \<open>LinkAtBack\<close>, \<open>LinkAtFront\<close>, \<open>InsertBeforeNode\<close> and \<open>InsertAfterNode\<close> put an idle node, or a
  node that leaves its place in the list, at the back, the front or between any two neighbours
  (and do nothing with NULL or a node and itself); \<open>Unlink\<close> takes any node out and leaves it
  idle, \<open>RemoveFromList\<close> takes it out and leaves its own fields; \<open>ExtractFirstNode\<close> and
  \<open>ExtractLastNode\<close> take out and return the ends, or NULL; the observers report the ends, emptiness,
  membership and the length (the loops end), and \<open>Next\<close>, \<open>Prev\<close> and \<open>IsLinked\<close> of a node its
  neighbours.
\<close>

theorem dl_list_refinement:
  assumes "dl_rep m L xs"
  shows "(\<forall>m0 n. dl_rep (dl_Initialize m0 L) L [] \<and> dl_detached (dn_Initialize m0 n) n \<and>
        \<not> dn_IsLinked (dn_Initialize m0 n) n)
    \<and> (dl_comes m L n xs others \<longrightarrow>
        dl_rep (dl_LinkAtBack m L n) L (others @ [n]) \<and> dl_rep (dl_LinkAtFront m L n) L (n # others) \<and>
        (others = ys @ zs \<longrightarrow>
          dl_rep (dl_InsertBeforeNode m (hd (zs @ [dl_Tail L])) n) L (ys @ n # zs) \<and>
          dl_rep (dl_InsertAfterNode m (last (dl_Head L # ys)) n) L (ys @ n # zs)))
    \<and> (node = 0 \<or> n = 0 \<or> node = n \<longrightarrow>
        dl_InsertBeforeNode m node n = m \<and> dl_InsertAfterNode m node n = m)
    \<and> (k \<in> set xs \<longrightarrow> dl_rep (dn_Unlink m k) L (remove1 k xs) \<and> dl_detached (dn_Unlink m k) k \<and>
        dl_rep (dn_RemoveFromList m k) L (remove1 k xs))
    \<and> (dl_detached m n \<longrightarrow> dn_Unlink m n = m \<and> dn_RemoveFromList m n = m)
    \<and> dl_ExtractFirstNode m L = (if xs = [] then (m, 0) else (dn_Unlink m (hd xs), hd xs))
    \<and> dl_ExtractLastNode m L = (if xs = [] then (m, 0) else (dn_Unlink m (last xs), last xs))
    \<and> (xs \<noteq> [] \<longrightarrow> dl_rep (dn_Unlink m (hd xs)) L (tl xs) \<and> dl_rep (dn_Unlink m (last xs)) L (butlast xs))
    \<and> dl_FirstNode m L = hd (xs @ [dl_Tail L]) \<and> dl_LastNode m L = last (dl_Head L # xs)
    \<and> dl_FirstValidNode m L = (case xs of [] \<Rightarrow> 0 | x # _ \<Rightarrow> x)
    \<and> dl_LastValidNode m L = (if xs = [] then 0 else last xs)
    \<and> (dl_IsEmpty m L \<longleftrightarrow> xs = []) \<and> dl_NumOfNodes m L = Some (length xs)
    \<and> (s \<noteq> 0 \<and> s \<noteq> dl_Tail L \<longrightarrow> dl_Exists m L s = Some (s \<in> set xs))
    \<and> (xs = us @ k # vs \<longrightarrow> dn_IsLinked m k \<and> dn_Next m k = hd (vs @ [dl_Tail L]) \<and>
        dn_Prev m k = last (dl_Head L # us))"
proof -
  have "L \<noteq> 0" using dl_rep_sep [OF assms] by (simp add: dl_sep_def)
  then have 1: "\<forall>m0 n. dl_rep (dl_Initialize m0 L) L [] \<and> dl_detached (dn_Initialize m0 n) n \<and>
      \<not> dn_IsLinked (dn_Initialize m0 n) n"
    using dn_Initialize_detached by (auto simp: dl_Initialize_rep dn_IsLinked_def dl_detached_def)
  have "dl_rep (dl_LinkAtBack m L n) L (others @ [n]) \<and> dl_rep (dl_LinkAtFront m L n) L (n # others) \<and>
      (others = ys @ zs \<longrightarrow>
        dl_rep (dl_InsertBeforeNode m (hd (zs @ [dl_Tail L])) n) L (ys @ n # zs) \<and>
        dl_rep (dl_InsertAfterNode m (last (dl_Head L # ys)) n) L (ys @ n # zs))"
    if "dl_comes m L n xs others"
    using dl_comes_rep [OF assms that] dl_LinkAtBack_rep dl_LinkAtFront_rep
      dl_InsertBeforeNode_rep [of m n L ys zs] dl_InsertAfterNode_rep [of m n L ys zs]
    unfolding dl_Tail_def dl_Head_def by blast
  note 2 = impI [OF this]
  have "dl_rep (dn_Unlink m k) L (remove1 k xs) \<and> dl_detached (dn_Unlink m k) k \<and>
      dl_rep (dn_RemoveFromList m k) L (remove1 k xs)" if "k \<in> set xs"
    using dl_Unlink_rep [OF assms that] by blast
  note 3 = impI [OF this]
  have 4: "dl_FirstNode m L = hd (xs @ [dl_Tail L])" "dl_LastNode m L = last (dl_Head L # xs)"
    using dl_rep_ends(1,2) [OF assms] unfolding dl_Tail_def dl_Head_def by blast+
  have 5: "s \<noteq> 0 \<and> s \<noteq> dl_Tail L \<longrightarrow> dl_Exists m L s = Some (s \<in> set xs)"
    using dl_Exists_rep [OF assms, of s] by (simp add: dl_Tail_def)
  have 6: "dl_detached m n \<longrightarrow> dn_Unlink m n = m \<and> dn_RemoveFromList m n = m"
    by (simp add: dn_Unlink_detached dn_RemoveFromList_detached)
  note x = dl_Extract_rep [OF assms]
  show ?thesis
    by (intro conjI 1 2 3 4 5 6 x(1,2) impI [OF x(3)] impI [OF dl_Insert_null]
        dl_FirstValidNode_rep [OF assms] dl_LastValidNode_rep [OF assms] dl_IsEmpty_iff [OF assms]
        dl_NumOfNodes_rep [OF assms] impI [OF dl_node_neighbours [OF assms]])
qed

theorem dl_list_refinement_witness:
  "let m = dl_LinkAtBack (dl_LinkAtBack (dl_Initialize (\<lambda>_. 0) 1) 1 10) 1 20
   in dl_NumOfNodes m 1 = Some 2 \<and> snd (dl_ExtractLastNode m 1) = 20 \<and>
      dl_NumOfNodes (fst (dl_ExtractLastNode m 1)) 1 = Some 1 \<and>
      dl_FirstValidNode (dl_InsertBeforeNode m 10 20) 1 = 20"
proof -
  let ?m0 = "dl_Initialize (\<lambda>_. 0) 1" let ?m1 = "dl_LinkAtBack ?m0 1 10"
  let ?m2 = "dl_LinkAtBack ?m1 1 20"
  have r0: "dl_rep ?m0 1 []" by (simp add: dl_Initialize_rep)
  have s: "dl_sep 1 [10]" "dl_sep 1 [20, 10]" by (auto simp: dl_sep_def)
  have "dl_detached ?m0 10" by (simp add: dl_detached_def dl_Initialize_def dl_Head_def dl_Tail_def)
  with s have "dl_comes ?m0 1 10 [] []" by (simp add: dl_comes_def)
  with dl_list_refinement [OF r0, of 10 "[]"] have r1: "dl_rep ?m1 1 [10]" by simp
  have "dl_detached ?m1 20"
    by (simp add: dl_detached_def dl_Initialize_def dl_Head_def dl_Tail_def dl_LinkAtBack_def
        dl_InsertBeforeNode_def dn_RemoveFromList_def dl_Insert_def dn_SetNext_def dn_SetPrev_def
        dn_Prev_def)
  with s have "dl_comes ?m1 1 20 [10] [10]" by (simp add: dl_comes_def)
  with dl_list_refinement [OF r1, of 20 "[10]"] have r2: "dl_rep ?m2 1 [10, 20]" by simp
  note R = dl_list_refinement [OF r2]
  have "dl_comes ?m2 1 20 [10, 20] [10]" by (simp add: dl_comes_def)
  with R [of 20 "[10]" "[]" "[10]"] have "dl_rep (dl_InsertBeforeNode ?m2 10 20) 1 [20, 10]" by simp
  from dl_list_refinement [OF this] have "dl_FirstValidNode (dl_InsertBeforeNode ?m2 10 20) 1 = 20" by simp
  moreover have "dl_ExtractLastNode ?m2 1 = (dn_Unlink ?m2 20, 20)" "dl_rep (dn_Unlink ?m2 20) 1 [10]"
    "dl_NumOfNodes ?m2 1 = Some 2" using R by simp_all
  moreover have "dl_NumOfNodes (dn_Unlink ?m2 20) 1 = Some 1"
    using dl_list_refinement [OF \<open>dl_rep (dn_Unlink ?m2 20) 1 [10]\<close>] by simp
  ultimately show ?thesis by (simp add: Let_def)
qed

end
