(* ===== verification/AsyncProc.thy ===== *)
theory AsyncProc
  imports HalList
begin

text \<open>
  Deferred work of the HAL: the continuation queue (\<open>DeviceCode/pal/AsyncProcCall/Continuations.cpp\<close>),
  the time-ordered completion queue (\<open>Completions.cpp\<close>), and the system event flags
  (\<open>DeviceCode/pal/events/events.cpp\<close>), all over the intrusive lists of \<open>HalList\<close>. A completion
  is a continuation with a due time; both kinds of node live in the same memory.

  Parameters of the model: \<open>call f arg\<close> is the effect of calling the function pointer \<open>f\<close> with
  \<open>arg\<close> (application code), \<open>us2ticks\<close> is the board's \<open>CPU_MicrosecondsToTicks\<close>, \<open>now\<close> the value
  read from the tick counter, and \<open>sleep\<close> the effect of \<open>CPU_Sleep\<close> (interrupt handlers run
  inside it). The functions run under the interrupt lock, so each is one atomic step. Debug-only
  assertions and profiling calls are left out.
\<close>

section \<open>State\<close>

record 'w async =
  a_mem :: mem
  a_completions :: addr
  a_continuations :: addr
  a_EntryPoint :: "addr \<Rightarrow> nat"
  a_Argument :: "addr \<Rightarrow> nat"
  a_EventTimeTicks :: "addr \<Rightarrow> u64"
  a_ExecuteInISR :: "addr \<Rightarrow> bool"
  a_compare :: u64
  a_SystemEvents :: u32
  a_Event_Callback :: nat
  a_Event_Callback_Arg :: nat
  a_world :: 'w

type_synonym 'w call = "nat \<Rightarrow> nat \<Rightarrow> 'w async \<Rightarrow> 'w async"

section \<open>Events\<close>

definition SYSTEM_EVENT_FLAG_SYSTEM_TIMER :: u32 where
  "SYSTEM_EVENT_FLAG_SYSTEM_TIMER = 0x10"

definition Events_Set :: "'w call \<Rightarrow> u32 \<Rightarrow> 'w async \<Rightarrow> 'w async" where
  "Events_Set call Events s =
     (let s1 = s\<lparr>a_SystemEvents := a_SystemEvents s OR Events\<rparr>
      in if a_Event_Callback s1 \<noteq> 0
         then call (a_Event_Callback s1) (a_Event_Callback_Arg s1) s1 else s1)"

definition Events_Get :: "u32 \<Rightarrow> 'w async \<Rightarrow> u32 \<times> 'w async" where
  "Events_Get EventsOfInterest s =
     (let Events = a_SystemEvents s AND EventsOfInterest
      in (Events, s\<lparr>a_SystemEvents := a_SystemEvents s AND NOT EventsOfInterest\<rparr>))"

definition Events_Clear :: "u32 \<Rightarrow> 'w async \<Rightarrow> 'w async" where
  "Events_Clear Events s = s\<lparr>a_SystemEvents := a_SystemEvents s AND NOT Events\<rparr>"

definition Events_MaskedRead :: "u32 \<Rightarrow> 'w async \<Rightarrow> u32" where
  "Events_MaskedRead EventsOfInterest s = a_SystemEvents s AND EventsOfInterest"

definition Events_SetCallback :: "nat \<Rightarrow> nat \<Rightarrow> 'w async \<Rightarrow> 'w async" where
  "Events_SetCallback pfn arg s = s\<lparr>a_Event_Callback := pfn, a_Event_Callback_Arg := arg\<rparr>"

section \<open>Callbacks and continuations\<close>

definition HAL_CALLBACK_Initialize :: "addr \<Rightarrow> nat \<Rightarrow> nat \<Rightarrow> 'w async \<Rightarrow> 'w async" where
  "HAL_CALLBACK_Initialize this EntryPoint Argument s =
     s\<lparr>a_EntryPoint := (a_EntryPoint s)(this := EntryPoint),
       a_Argument := (a_Argument s)(this := Argument)\<rparr>"

definition HAL_CALLBACK_SetArgument :: "addr \<Rightarrow> nat \<Rightarrow> 'w async \<Rightarrow> 'w async" where
  "HAL_CALLBACK_SetArgument this Argument s = s\<lparr>a_Argument := (a_Argument s)(this := Argument)\<rparr>"

definition HAL_CALLBACK_Execute :: "'w call \<Rightarrow> addr \<Rightarrow> 'w async \<Rightarrow> 'w async" where
  "HAL_CALLBACK_Execute call this s =
     (let EntryPoint = a_EntryPoint s this; Argument = a_Argument s this
      in if EntryPoint \<noteq> 0 then call EntryPoint Argument s else s)"

definition cont_InitializeList :: "'w async \<Rightarrow> 'w async" where
  "cont_InitializeList s = s\<lparr>a_mem := dl_Initialize (a_mem s) (a_continuations s)\<rparr>"

definition cont_IsLinked :: "addr \<Rightarrow> 'w async \<Rightarrow> bool" where
  "cont_IsLinked this s \<longleftrightarrow> dn_IsLinked (a_mem s) this"

definition cont_InitializeCallback :: "addr \<Rightarrow> nat \<Rightarrow> nat \<Rightarrow> 'w async \<Rightarrow> 'w async" where
  "cont_InitializeCallback this EntryPoint Argument s =
     HAL_CALLBACK_Initialize this EntryPoint Argument (s\<lparr>a_mem := dn_Initialize (a_mem s) this\<rparr>)"

definition cont_Enqueue :: "addr \<Rightarrow> 'w async \<Rightarrow> 'w async" where
  "cont_Enqueue this s =
     (if a_EntryPoint s this \<noteq> 0
      then s\<lparr>a_mem := dl_LinkAtBack (a_mem s) (a_continuations s) this\<rparr> else s)"

definition cont_Abort :: "addr \<Rightarrow> 'w async \<Rightarrow> 'w async" where
  "cont_Abort this s = s\<lparr>a_mem := dn_Unlink (a_mem s) this\<rparr>"

text \<open>The callback is copied before the lock is released and then executed.\<close>

definition cont_Dequeue_And_Execute :: "'w call \<Rightarrow> 'w async \<Rightarrow> 'w async \<times> bool" where
  "cont_Dequeue_And_Execute call s =
     (let (m, ptr) = dl_ExtractFirstNode (a_mem s) (a_continuations s); s1 = s\<lparr>a_mem := m\<rparr>
      in if ptr \<noteq> 0 then (HAL_CALLBACK_Execute call ptr s1, True) else (s1, False))"

partial_function (option) list_drain :: "mem \<Rightarrow> addr \<Rightarrow> mem option" where
  "list_drain m L =
     (let (m1, ptr) = dl_ExtractFirstNode m L in if ptr = 0 then Some m1 else list_drain m1 L)"

definition cont_Uninitialize :: "'w async \<Rightarrow> 'w async option" where
  "cont_Uninitialize s =
     map_option (\<lambda>m. s\<lparr>a_mem := m\<rparr>) (list_drain (a_mem s) (a_continuations s))"

section \<open>Completions\<close>

definition HAL_Completion_IdleValue :: u64 where
  "HAL_Completion_IdleValue = 0x0000FFFFFFFFFFFF"

definition HAL_Time_SetCompare :: "u64 \<Rightarrow> 'w async \<Rightarrow> 'w async" where
  "HAL_Time_SetCompare CompareValue s = s\<lparr>a_compare := CompareValue\<rparr>"

definition comp_InitializeForISR :: "addr \<Rightarrow> nat \<Rightarrow> nat \<Rightarrow> 'w async \<Rightarrow> 'w async" where
  "comp_InitializeForISR this EntryPoint Argument s =
     cont_InitializeCallback this EntryPoint Argument
       (s\<lparr>a_ExecuteInISR := (a_ExecuteInISR s)(this := True)\<rparr>)"

definition comp_InitializeForUserMode :: "addr \<Rightarrow> nat \<Rightarrow> nat \<Rightarrow> 'w async \<Rightarrow> 'w async" where
  "comp_InitializeForUserMode this EntryPoint Argument s =
     cont_InitializeCallback this EntryPoint Argument
       (s\<lparr>a_ExecuteInISR := (a_ExecuteInISR s)(this := False)\<rparr>)"

definition comp_InitializeList :: "'w async \<Rightarrow> 'w async" where
  "comp_InitializeList s = s\<lparr>a_mem := dl_Initialize (a_mem s) (a_completions s)\<rparr>"

definition comp_Execute :: "'w call \<Rightarrow> addr \<Rightarrow> 'w async \<Rightarrow> 'w async" where
  "comp_Execute call this s =
     (if a_ExecuteInISR s this then HAL_CALLBACK_Execute call this s else cont_Enqueue this s)"

definition comp_DequeueAndExec :: "'w call \<Rightarrow> 'w async \<Rightarrow> 'w async" where
  "comp_DequeueAndExec call s =
     (let ptr = dl_FirstNode (a_mem s) (a_completions s);
          ptrNext = dn_Next (a_mem s) ptr
      in if ptrNext \<noteq> 0 then
           (let s1 = Events_Set call SYSTEM_EVENT_FLAG_SYSTEM_TIMER s;
                s2 = s1\<lparr>a_mem := dn_Unlink (a_mem s1) ptr\<rparr>;
                s3 = HAL_Time_SetCompare
                       (if dn_Next (a_mem s2) ptrNext \<noteq> 0 then a_EventTimeTicks s2 ptrNext
                        else HAL_Completion_IdleValue) s2
            in comp_Execute call ptr s3)
         else s)"

text \<open>The scan for the first completion that is due later.\<close>

partial_function (option) comp_find_later :: "mem \<Rightarrow> (addr \<Rightarrow> u64) \<Rightarrow> u64 \<Rightarrow> addr \<Rightarrow> addr option" where
  "comp_find_later m ticks EventTimeTicks ptr =
     (let ptrNext = dn_Next m ptr
      in if ptrNext \<noteq> 0 then
           (if EventTimeTicks < ticks ptr then Some ptr
            else comp_find_later m ticks EventTimeTicks ptrNext)
         else Some ptr)"

definition comp_EnqueueTicks :: "addr \<Rightarrow> u64 \<Rightarrow> 'w async \<Rightarrow> 'w async option" where
  "comp_EnqueueTicks this EventTimeTicks s =
     (let s1 = s\<lparr>a_EventTimeTicks := (a_EventTimeTicks s)(this := EventTimeTicks)\<rparr>
      in map_option (\<lambda>ptr.
           (let s2 = s1\<lparr>a_mem := dl_InsertBeforeNode (a_mem s1) ptr this\<rparr>
            in if this = dl_FirstNode (a_mem s2) (a_completions s2)
               then HAL_Time_SetCompare EventTimeTicks s2 else s2))
         (comp_find_later (a_mem s1) (a_EventTimeTicks s1) EventTimeTicks
            (dl_FirstNode (a_mem s1) (a_completions s1))))"

definition comp_EnqueueDelta64 ::
    "(u64 \<Rightarrow> u64) \<Rightarrow> u64 \<Rightarrow> addr \<Rightarrow> u64 \<Rightarrow> 'w async \<Rightarrow> 'w async option" where
  "comp_EnqueueDelta64 us2ticks now this uSecFromNow s =
     comp_EnqueueTicks this (now + us2ticks uSecFromNow) s"

definition comp_EnqueueDelta ::
    "(u64 \<Rightarrow> u64) \<Rightarrow> u64 \<Rightarrow> addr \<Rightarrow> u32 \<Rightarrow> 'w async \<Rightarrow> 'w async option" where
  "comp_EnqueueDelta us2ticks now this uSecFromNow s =
     comp_EnqueueDelta64 us2ticks now this (ucast uSecFromNow) s"

definition comp_Abort :: "addr \<Rightarrow> 'w async \<Rightarrow> 'w async" where
  "comp_Abort this s =
     (let firstNode = dl_FirstNode (a_mem s) (a_completions s);
          s1 = s\<lparr>a_mem := dn_Unlink (a_mem s) this\<rparr>
      in if firstNode = this then
           HAL_Time_SetCompare
             (if dl_IsEmpty (a_mem s1) (a_completions s1) then HAL_Completion_IdleValue
              else a_EventTimeTicks s1 (dl_FirstNode (a_mem s1) (a_completions s1))) s1
         else s1)"

definition comp_WaitForInterrupts ::
    "(u32 \<Rightarrow> u64 \<Rightarrow> 'w async \<Rightarrow> 'w async) \<Rightarrow> u64 \<Rightarrow> u32 \<Rightarrow> u64 \<Rightarrow> 'w async \<Rightarrow> 'w async" where
  "comp_WaitForInterrupts sleep Expire sleepLevel wakeEvents s =
     (let ptr = dl_FirstNode (a_mem s) (a_completions s);
          nil = (dn_Next (a_mem s) ptr = 0);
          later = (\<not> nil \<and> Expire < a_EventTimeTicks s ptr);
          s1 = (if nil \<or> later then HAL_Time_SetCompare Expire s else s);
          s2 = sleep sleepLevel wakeEvents s1
      in if nil \<or> later then
           (let ptr2 = dl_FirstNode (a_mem s2) (a_completions s2)
            in HAL_Time_SetCompare
                 (if later then a_EventTimeTicks s2 ptr2 else HAL_Completion_IdleValue) s2)
         else s2)"

definition comp_Uninitialize :: "'w async \<Rightarrow> 'w async option" where
  "comp_Uninitialize s =
     map_option (\<lambda>m. s\<lparr>a_mem := m\<rparr>) (list_drain (a_mem s) (a_completions s))"

text \<open>The boolean timer of \<open>events.cpp\<close> and the debouncer, two users of the queue.\<close>

definition Events_SetBoolTimer ::
    "(u64 \<Rightarrow> u64) \<Rightarrow> u64 \<Rightarrow> addr \<Rightarrow> nat \<Rightarrow> nat \<Rightarrow> u32 \<Rightarrow> 'w async \<Rightarrow> 'w async option" where
  "Events_SetBoolTimer us2ticks now timer callback TimerCompleteFlag MillisecondsFromNow s =
     (let s1 = comp_Abort timer s
      in if TimerCompleteFlag \<noteq> 0 then
           comp_EnqueueDelta us2ticks now timer (MillisecondsFromNow * 1000)
             (comp_InitializeForISR timer callback TimerCompleteFlag s1)
         else Some s1)"

definition DEBOUNCE_Change ::
    "(u64 \<Rightarrow> u64) \<Rightarrow> u64 \<Rightarrow> addr \<Rightarrow> u32 \<Rightarrow> nat \<Rightarrow> 'w async \<Rightarrow> 'w async option" where
  "DEBOUNCE_Change us2ticks now callback debounceTime_uSec state s =
     comp_EnqueueDelta us2ticks now callback debounceTime_uSec
       (HAL_CALLBACK_SetArgument callback state (comp_Abort callback s))"

section \<open>The invariant\<close>

text \<open>
  \<open>xs\<close> are the pending completions and \<open>ys\<close> the queued continuations: two well-formed lists in
  disjoint memory, the completions in order of due time, and the compare register set to the
  first due time or to the idle value.
\<close>

definition async_rep :: "'w async \<Rightarrow> addr list \<Rightarrow> addr list \<Rightarrow> bool" where
  "async_rep s xs ys \<longleftrightarrow>
     dl_rep (a_mem s) (a_completions s) xs \<and> dl_rep (a_mem s) (a_continuations s) ys \<and>
     dl_cells (a_completions s) xs \<inter> dl_cells (a_continuations s) ys = {} \<and>
     sorted (map (a_EventTimeTicks s) xs)"

definition compare_ok :: "'w async \<Rightarrow> addr list \<Rightarrow> bool" where
  "compare_ok s xs \<longleftrightarrow>
     a_compare s = (case xs of [] \<Rightarrow> HAL_Completion_IdleValue | x # _ \<Rightarrow> a_EventTimeTicks s x)"

text \<open>A node that is in neither list and overlaps neither.\<close>

definition idle_node :: "'w async \<Rightarrow> addr list \<Rightarrow> addr list \<Rightarrow> addr \<Rightarrow> bool" where
  "idle_node s xs ys n \<longleftrightarrow> n \<noteq> 0 \<and> dl_detached (a_mem s) n \<and>
     {n, n + 1} \<inter> (dl_cells (a_completions s) xs \<union> dl_cells (a_continuations s) ys) = {}"


section \<open>Lemmas on the queues\<close>

lemma async_repD:
  assumes "async_rep s xs ys"
  shows "dl_rep (a_mem s) (a_completions s) xs" "dl_rep (a_mem s) (a_continuations s) ys"
    "dl_cells (a_completions s) xs \<inter> dl_cells (a_continuations s) ys = {}"
    "sorted (map (a_EventTimeTicks s) xs)"
  using assms by (simp_all add: async_rep_def)

lemma idle_nodeD:
  assumes "idle_node s xs ys n" "async_rep s xs ys"
  shows "dl_detached (a_mem s) n" "n \<noteq> 0" "dl_sep (a_completions s) (n # xs)"
    "dl_sep (a_continuations s) (n # ys)" "n \<notin> set xs" "n \<notin> set ys"
    "dl_cells (a_completions s) (n # xs) \<inter> dl_cells (a_continuations s) ys = {}"
    "dl_cells (a_completions s) xs \<inter> dl_cells (a_continuations s) (n # ys) = {}"
proof -
  note D = assms(1) [unfolded idle_node_def] and R = async_repD [OF assms(2)]
  show "dl_detached (a_mem s) n" "n \<noteq> 0" using D by auto
  show "dl_sep (a_completions s) (n # xs)" "dl_sep (a_continuations s) (n # ys)"
    using D dl_sep_fresh dl_rep_sep R(1,2) by auto
  show "n \<notin> set xs" "n \<notin> set ys" using D by (auto simp: dl_cells_def)
  have "dl_cells L (n # zs) = {n, n + 1} \<union> dl_cells L zs" for L zs by (auto simp: dl_cells_def)
  then show "dl_cells (a_completions s) (n # xs) \<inter> dl_cells (a_continuations s) ys = {}"
    "dl_cells (a_completions s) xs \<inter> dl_cells (a_continuations s) (n # ys) = {}"
    using D R(3) by auto
qed

text \<open>The position the scan finds: after every completion that is not due later.\<close>

lemma comp_find_later_rep:
  assumes "dl_rep m L (as @ xs)"
  shows "comp_find_later m tk t (hd (xs @ [L + 1])) =
    Some (hd (dropWhile (\<lambda>x. tk x \<le> t) xs @ [L + 1]))"
  using assms
proof (induction xs arbitrary: as)
  case Nil
  then show ?case
    using dl_rep_ends(3) [of m L as] by (subst comp_find_later.simps) (simp add: Let_def)
next
  case (Cons x xs)
  have nz: "dn_Next m x \<noteq> 0" using dl_rep_next_nonzero(1) [OF Cons.prems, of x] by simp
  have nx: "dn_Next m x = hd (xs @ [L + 1])" by (rule dl_rep_neighbours(1) [OF Cons.prems])
  show ?case
  proof (cases "t < tk x")
    case True
    then have "\<not> tk x \<le> t" by simp
    with True show ?thesis using nz by (subst comp_find_later.simps) (simp add: Let_def)
  next
    case False
    then have "tk x \<le> t" by simp
    with False show ?thesis
      using nz nx Cons.IH [of "as @ [x]"] Cons.prems
      by (subst comp_find_later.simps) (simp add: Let_def)
  qed
qed

text \<open>Insertion behind the elements that are not due later keeps the order.\<close>

definition sched_insert :: "(addr \<Rightarrow> u64) \<Rightarrow> addr \<Rightarrow> addr list \<Rightarrow> addr list" where
  "sched_insert tk n xs =
     takeWhile (\<lambda>x. tk x \<le> tk n) xs @ n # dropWhile (\<lambda>x. tk x \<le> tk n) xs"

lemma sched_insert_sorted:
  assumes "sorted (map tk xs)"
  shows "sorted (map tk (sched_insert tk n xs))"
  using assms unfolding sched_insert_def
proof (induction xs)
  case Nil
  then show ?case by simp
next
  case (Cons x xs)
  then show ?case by (auto simp: not_le dest: set_takeWhileD set_dropWhileD)
qed

lemma set_sched_insert: "set (sched_insert tk n xs) = insert n (set xs)"
  unfolding sched_insert_def by (auto dest: set_takeWhileD set_dropWhileD)
    (metis UnE set_append takeWhile_dropWhile_id)

lemma dl_cells_cong: "set xs = set ys \<Longrightarrow> dl_cells L xs = dl_cells L ys"
  by (simp add: dl_cells_def)

lemma list_drain_rep:
  assumes "dl_rep m L xs"
  shows "\<exists>m'. list_drain m L = Some m' \<and> dl_rep m' L [] \<and> (\<forall>x \<in> set xs. dl_detached m' x) \<and>
    (\<forall>c. c \<notin> dl_cells L xs \<longrightarrow> m' c = m c)"
  using assms
proof (induction xs arbitrary: m)
  case Nil
  then show ?case using dl.pop_empty [OF Nil] by (simp add: list_drain.simps)
next
  case (Cons x xs)
  have p: "dl_ExtractFirstNode m L = (dn_Unlink m x, x)" "x \<noteq> 0"
    using dl.pop_cons [OF Cons.prems] by auto
  have r: "dl_rep (dn_Unlink m x) L xs" "dl_detached (dn_Unlink m x) x"
    using dl.pop_cons_rep [OF Cons.prems] p by auto
  obtain m' where m': "list_drain (dn_Unlink m x) L = Some m'" "dl_rep m' L []"
    "\<forall>y \<in> set xs. dl_detached m' y" "\<forall>c. c \<notin> dl_cells L xs \<longrightarrow> m' c = dn_Unlink m x c"
    using Cons.IH [OF r(1)] by blast
  have "{x, x + 1} \<inter> dl_cells L xs = {}"
    using dl_rep_sep [OF Cons.prems] by (auto simp: dl_sep_def dl_cells_def)
  then have "dl_detached m' x" using m'(4) r(2) by (simp add: dl_detached_def)
  moreover have "m' c = m c" if "c \<notin> dl_cells L (x # xs)" for c
    using m'(4) that dn_Unlink_frame [OF Cons.prems, of x c] by (simp add: dl_cells_def)
  moreover have "list_drain m L = Some m'"
    using p m'(1) by (subst list_drain.simps) simp
  ultimately show ?case using m' by auto
qed


section \<open>Lemmas on the operations\<close>

text \<open>Changing fields the representation does not read.\<close>

lemma async_rep_fields [simp]:
  "async_rep (s\<lparr>a_compare := v\<rparr>) xs ys = async_rep s xs ys"
  "async_rep (s\<lparr>a_SystemEvents := e\<rparr>) xs ys = async_rep s xs ys"
  "async_rep (s\<lparr>a_world := w\<rparr>) xs ys = async_rep s xs ys"
  "idle_node (s\<lparr>a_compare := v\<rparr>) xs ys n = idle_node s xs ys n"
  "idle_node (s\<lparr>a_SystemEvents := e\<rparr>) xs ys n = idle_node s xs ys n"
  "idle_node (s\<lparr>a_world := w\<rparr>) xs ys n = idle_node s xs ys n"
  by (simp_all add: async_rep_def idle_node_def)

lemma other_list_frame:
  assumes "dl_rep m C ys" "dl_cells Q zs \<inter> dl_cells C ys = {}"
    and "\<And>c. c \<notin> dl_cells Q zs \<Longrightarrow> m' c = m c"
  shows "dl_rep m' C ys"
proof -
  have "m' c = m c" if "c \<in> dl_cells C ys" for c using that assms(2,3) by blast
  then show ?thesis using dl_rep_frame [of C ys m' m] assms(1) by blast
qed

lemma comp_EnqueueTicks_idle:
  assumes r: "async_rep s xs ys" and n: "idle_node s xs ys n"
  shows "\<exists>s'. comp_EnqueueTicks n t s = Some s' \<and>
     async_rep s' (sched_insert ((a_EventTimeTicks s)(n := t)) n xs) ys \<and>
     a_EventTimeTicks s' = (a_EventTimeTicks s)(n := t) \<and>
     (compare_ok s xs \<longrightarrow> compare_ok s' (sched_insert ((a_EventTimeTicks s)(n := t)) n xs))"
proof -
  note R = async_repD [OF r] and N = idle_nodeD [OF n r]
  define tk where "tk = (a_EventTimeTicks s)(n := t)"
  define tw where "tw = takeWhile (\<lambda>x. tk x \<le> t) xs"
  define dw where "dw = dropWhile (\<lambda>x. tk x \<le> t) xs"
  let ?Q = "a_completions s" and ?C = "a_continuations s" and ?m = "a_mem s"
  have xs: "xs = tw @ dw" by (simp add: tw_def dw_def)
  have ins: "sched_insert tk n xs = tw @ n # dw"
    by (simp add: sched_insert_def tw_def dw_def tk_def)
  let ?ptr = "hd (dw @ [?Q + 1])" let ?m' = "dl_InsertBeforeNode ?m ?ptr n"
  have find: "comp_find_later ?m tk t (dl_FirstNode ?m ?Q) = Some ?ptr"
    using comp_find_later_rep [of ?m ?Q "[]" xs tk t] R(1) dl_rep_ends(1) [OF R(1)]
    by (simp add: dw_def)
  have rep: "dl_rep ?m' ?Q (tw @ n # dw)"
    using dl_InsertBeforeNode_rep [of ?m n ?Q tw dw] R(1) N(1,3) xs
    by (simp add: dn_RemoveFromList_detached)
  have "?m' c = ?m c" if "c \<notin> dl_cells ?Q (n # xs)" for c
    using dl_InsertBeforeNode_frame [of ?m ?Q tw dw n c] R(1) N(1) that xs by simp
  with R(2) N(7) have rep': "dl_rep ?m' ?C ys" by (rule other_list_frame)
  have "map tk xs = map (a_EventTimeTicks s) xs" using N(5) by (simp add: tk_def)
  then have srt: "sorted (map tk (tw @ n # dw))"
    using sched_insert_sorted [of tk xs n] R(4) unfolding ins by metis
  have cells: "dl_cells ?Q (tw @ n # dw) = dl_cells ?Q (n # xs)"
    by (rule dl_cells_cong) (auto simp: xs)
  let ?s2 = "s\<lparr>a_EventTimeTicks := tk, a_mem := ?m'\<rparr>"
  have first: "dl_FirstNode ?m' ?Q = hd (tw @ [n])"
    using dl_rep_ends(1) [OF rep] by (cases tw) simp_all
  define s' where "s' = (if n = hd (tw @ [n]) then ?s2\<lparr>a_compare := t\<rparr> else ?s2)"
  have e: "comp_EnqueueTicks n t s = Some s'"
    by (simp add: comp_EnqueueTicks_def Let_def tk_def [symmetric] find first [simplified] s'_def
        HAL_Time_SetCompare_def)
  have f: "a_mem s' = ?m'" "a_completions s' = ?Q" "a_continuations s' = ?C"
    "a_EventTimeTicks s' = tk" by (simp_all add: s'_def)
  have a: "async_rep s' (tw @ n # dw) ys"
    using rep rep' srt N(7) by (simp add: async_rep_def f cells)
  have "compare_ok s' (tw @ n # dw)" if ok: "compare_ok s xs"
  proof (cases tw)
    case Nil
    then show ?thesis by (simp add: compare_ok_def s'_def tk_def)
  next
    case (Cons x zs)
    then have "x \<noteq> n" using N(5) xs by auto
    then show ?thesis using ok Cons by (auto simp: compare_ok_def s'_def tk_def xs)
  qed
  then show ?thesis using e a f(4) by (auto simp: tk_def [symmetric] ins)
qed

lemma async_unlink_completion:
  assumes r: "async_rep s xs ys" and x: "x \<in> set xs"
  shows "async_rep (s\<lparr>a_mem := dn_Unlink (a_mem s) x\<rparr>) (remove1 x xs) ys"
    "idle_node (s\<lparr>a_mem := dn_Unlink (a_mem s) x\<rparr>) (remove1 x xs) ys x"
proof -
  note R = async_repD [OF r]
  let ?Q = "a_completions s" and ?C = "a_continuations s" and ?m' = "dn_Unlink (a_mem s) x"
  have q: "dl_rep ?m' ?Q (remove1 x xs)" "dl_detached ?m' x"
    using dl_Unlink_rep [OF R(1) x] by auto
  have c: "dl_rep ?m' ?C ys"
    using R(2,3) dn_Unlink_frame [OF R(1) x] by (rule other_list_frame)
  have sub: "dl_cells ?Q (remove1 x xs) \<inter> dl_cells ?C ys = {}"
    using R(3) dl_cells_remove1 [of ?Q x xs] by blast
  have "sorted (map (a_EventTimeTicks s) (remove1 x xs))"
    using R(4) by (simp add: sorted_map_remove1)
  with q c sub show "async_rep (s\<lparr>a_mem := ?m'\<rparr>) (remove1 x xs) ys"
    by (simp add: async_rep_def)
  have "dl_sep ?Q (x # remove1 x xs)" using dl_sep_remove1 dl_rep_sep [OF R(1)] x by blast
  then have "x \<noteq> 0" "{x, x + 1} \<inter> dl_cells ?Q (remove1 x xs) = {}"
    by (auto simp: dl_sep_def dl_cells_def)
  moreover have "{x, x + 1} \<inter> dl_cells ?C ys = {}" using R(3) x by (auto simp: dl_cells_def)
  ultimately show "idle_node (s\<lparr>a_mem := ?m'\<rparr>) (remove1 x xs) ys x"
    using q(2) by (auto simp: idle_node_def)
qed


lemma cont_Enqueue_idle:
  assumes r: "async_rep s xs ys" and n: "idle_node s xs ys n" and e: "a_EntryPoint s n \<noteq> 0"
  shows "async_rep (cont_Enqueue n s) xs (ys @ [n])"
proof -
  note R = async_repD [OF r] and N = idle_nodeD [OF n r]
  let ?Q = "a_completions s" and ?C = "a_continuations s" and ?m' = "dl_LinkAtBack (a_mem s) (a_continuations s) n"
  have c: "dl_rep ?m' ?C (ys @ [n])" using dl.push_idle R(2) N(1,4) by blast
  have q: "dl_rep ?m' ?Q xs"
    using R(1) _ dl_LinkAtBack_frame [OF R(2) N(1)] by (rule other_list_frame) (use N(8) in blast)
  have "dl_cells ?C (ys @ [n]) = dl_cells ?C (n # ys)" by (rule dl_cells_cong) auto
  then show ?thesis using q c R(4) N(8) e by (simp add: async_rep_def cont_Enqueue_def)
qed


text \<open>
  The event callback is application code; the queue theorems ask that it touches neither the
  queues nor the timer (in the repository it only wakes the host).
\<close>

definition quiet_event_callback :: "'w call \<Rightarrow> 'w async \<Rightarrow> bool" where
  "quiet_event_callback call s \<longleftrightarrow> a_Event_Callback s = 0 \<or>
     (\<forall>t. \<exists>w. call (a_Event_Callback s) (a_Event_Callback_Arg s) t = t\<lparr>a_world := w\<rparr>)"

lemma Events_Set_quiet:
  assumes "quiet_event_callback call s"
  shows "\<exists>w. Events_Set call e s = s\<lparr>a_SystemEvents := a_SystemEvents s OR e, a_world := w\<rparr>"
proof (cases "a_Event_Callback s = 0")
  case True
  then have "Events_Set call e s = s\<lparr>a_SystemEvents := a_SystemEvents s OR e, a_world := a_world s\<rparr>"
    by (simp add: Events_Set_def)
  then show ?thesis by blast
next
  case False
  with assms obtain w where
    "call (a_Event_Callback s) (a_Event_Callback_Arg s) (s\<lparr>a_SystemEvents := a_SystemEvents s OR e\<rparr>)
       = s\<lparr>a_SystemEvents := a_SystemEvents s OR e, a_world := w\<rparr>"
    unfolding quiet_event_callback_def by blast
  with False show ?thesis by (auto simp: Events_Set_def)
qed


lemma comp_Dequeue_cons:
  assumes r: "async_rep s (x # xs) ys" and q: "quiet_event_callback call s"
  shows "\<exists>s3. comp_DequeueAndExec call s = comp_Execute call x s3 \<and> async_rep s3 xs ys \<and>
    compare_ok s3 xs \<and> idle_node s3 xs ys x \<and>
    a_SystemEvents s3 = a_SystemEvents s OR SYSTEM_EVENT_FLAG_SYSTEM_TIMER \<and>
    a_EntryPoint s3 = a_EntryPoint s \<and> a_Argument s3 = a_Argument s \<and>
    a_ExecuteInISR s3 = a_ExecuteInISR s \<and> a_EventTimeTicks s3 = a_EventTimeTicks s"
proof -
  note R = async_repD [OF r]
  let ?Q = "a_completions s" and ?m' = "dn_Unlink (a_mem s) x"
  obtain w where w: "Events_Set call SYSTEM_EVENT_FLAG_SYSTEM_TIMER s =
      s\<lparr>a_SystemEvents := a_SystemEvents s OR SYSTEM_EVENT_FLAG_SYSTEM_TIMER, a_world := w\<rparr>"
    using Events_Set_quiet [OF q] by blast
  have first: "dl_FirstNode (a_mem s) ?Q = x" using dl_rep_ends(1) [OF R(1)] by simp
  have next1: "dn_Next (a_mem s) x = hd (xs @ [?Q + 1])"
    using dl_rep_neighbours(1) [of "a_mem s" ?Q "[]" x xs] R(1) by simp
  have nz: "dn_Next (a_mem s) x \<noteq> 0" using dl_rep_next_nonzero(1) [OF R(1), of x] by simp
  have u: "async_rep (s\<lparr>a_mem := ?m'\<rparr>) xs ys" "idle_node (s\<lparr>a_mem := ?m'\<rparr>) xs ys x"
    using async_unlink_completion [OF r, of x] by simp_all
  note R' = async_repD(1) [OF u(1), simplified]
  define c where "c = (if dn_Next ?m' (hd (xs @ [?Q + 1])) \<noteq> 0
      then a_EventTimeTicks s (hd (xs @ [?Q + 1])) else HAL_Completion_IdleValue)"
  have c: "c = (case xs of [] \<Rightarrow> HAL_Completion_IdleValue | y # _ \<Rightarrow> a_EventTimeTicks s y)"
    using dl_rep_ends(3) [OF R'] dl_rep_next_nonzero(1) [OF R']
    by (cases xs) (auto simp: c_def)
  let ?s3 = "s\<lparr>a_SystemEvents := a_SystemEvents s OR SYSTEM_EVENT_FLAG_SYSTEM_TIMER,
      a_world := w, a_mem := ?m', a_compare := c\<rparr>"
  have "comp_DequeueAndExec call s = comp_Execute call x ?s3"
    using nz by (simp add: comp_DequeueAndExec_def first w next1 [simplified] Let_def c_def HAL_Time_SetCompare_def)
  moreover have "async_rep ?s3 xs ys" using u(1) by (simp add: async_rep_def)
  moreover have "idle_node ?s3 xs ys x" using u(2) by (simp add: idle_node_def)
  moreover have "compare_ok ?s3 xs" using c by (simp add: compare_ok_def split: list.split)
  ultimately show ?thesis by (intro exI [of _ ?s3]) simp
qed







section \<open>The machine and its reachable states\<close>


text \<open>
  What a client of the queues does: it arms a completion that is idle, or one that still waits as
  a continuation, or re-arms a pending one; it aborts a node wherever it is; it queues a
  continuation, again or for the first time, or aborts it; it changes the event flags, the argument
  of a node or its own world. Re-arming the earliest completion for a time at which another one is
  due before it is left out (\<open>comp_rearm_earliest_later\<close> shows what happens then).
\<close>

inductive client_step :: "'w async \<Rightarrow> 'w async \<Rightarrow> bool" where
  arm: "async_rep s xs ys \<Longrightarrow> idle_node s xs ys n \<or> n \<in> set ys \<Longrightarrow>
    comp_EnqueueTicks n t s = Some s' \<Longrightarrow> client_step s s'"
| rearm: "async_rep s xs ys \<Longrightarrow> n \<in> set xs \<Longrightarrow>
    n = hd xs \<longrightarrow> tl xs = [] \<or> t < a_EventTimeTicks s (hd (tl xs)) \<Longrightarrow>
    comp_EnqueueTicks n t s = Some s' \<Longrightarrow> client_step s s'"
| abort: "async_rep s xs ys \<Longrightarrow> n \<in> set xs \<or> n \<in> set ys \<or> idle_node s xs ys n \<Longrightarrow>
    client_step s (comp_Abort n s)"
| queue: "async_rep s xs ys \<Longrightarrow> idle_node s xs ys n \<or> n \<in> set ys \<Longrightarrow> client_step s (cont_Enqueue n s)"
| unqueue: "async_rep s xs ys \<Longrightarrow> idle_node s xs ys n \<or> n \<in> set ys \<Longrightarrow> client_step s (cont_Abort n s)"
| argument: "client_step s (HAL_CALLBACK_SetArgument n arg s)"
| events: "client_step s (s\<lparr>a_SystemEvents := e\<rparr>)"
| world: "client_step s (s\<lparr>a_world := w\<rparr>)"

text \<open>
  The machine: the steps of the clients, the timer interrupt, and the main loop that runs a
  continuation.
\<close>

inductive async_step :: "'w call \<Rightarrow> 'w async \<Rightarrow> 'w async \<Rightarrow> bool" for call where
  client: "client_step s s' \<Longrightarrow> async_step call s s'"
| timer: "quiet_event_callback call s \<Longrightarrow> async_step call s (comp_DequeueAndExec call s)"
| continue: "async_step call s (fst (cont_Dequeue_And_Execute call s))"

inductive_cases async_stepE: "async_step call s s'"











lemma sched_insert_nonempty [simp]: "sched_insert tk n xs \<noteq> []"
  by (simp add: sched_insert_def)








section \<open>Properties\<close>

text \<open>
  C5. Arming an idle completion for time \<open>t\<close> always returns; the completion is queued after
  everything due at or before \<open>t\<close> and before everything due later, the queue stays sorted,
  the continuation queue is untouched, and the hardware compare register again holds the
  earliest due time.
\<close>

theorem comp_EnqueueTicks_schedules:
  assumes "async_rep s xs ys" "compare_ok s xs" "idle_node s xs ys n"
  shows "\<exists>s'. comp_EnqueueTicks n t s = Some s' \<and>
    async_rep s' (sched_insert ((a_EventTimeTicks s)(n := t)) n xs) ys \<and>
    compare_ok s' (sched_insert ((a_EventTimeTicks s)(n := t)) n xs)"
  using comp_EnqueueTicks_idle [OF assms(1,3), of t] assms(2) by blast

definition async_start :: "nat async" where
  "async_start = \<lparr>a_mem = dl_Initialize (dl_Initialize (\<lambda>_. 0) 1) 5, a_completions = 1,
     a_continuations = 5, a_EntryPoint = (\<lambda>_. 7), a_Argument = (\<lambda>_. 0),
     a_EventTimeTicks = (\<lambda>_. 0), a_ExecuteInISR = (\<lambda>_. False),
     a_compare = HAL_Completion_IdleValue, a_SystemEvents = 0, a_Event_Callback = 0,
     a_Event_Callback_Arg = 0, a_world = 0\<rparr>"

lemma async_start_ok:
  "async_rep async_start [] []" "compare_ok async_start []"
  "10 \<le> n \<Longrightarrow> idle_node async_start [] [] n"
  by (auto simp: async_start_def async_rep_def compare_ok_def idle_node_def dl_rep_def dl_sep_def
      dl_cells_def dl_Initialize_def dl_Head_def dl_Tail_def dl_detached_def)

theorem comp_EnqueueTicks_schedules_witness:
  "\<exists>s'. comp_EnqueueTicks 10 99 async_start = Some s' \<and> async_rep s' [10] [] \<and> compare_ok s' [10]"
  using comp_EnqueueTicks_schedules [OF async_start_ok(1,2) async_start_ok(3) [of 10], of 99]
  by (simp add: sched_insert_def)

text \<open>
  C6. The timer interrupt takes the completion with the earliest due time, as long as the callback
  that watches the event flags leaves the queues alone. The completion leaves the queue, its node is
  detached, the system timer event is raised and the compare register is set to the next due time (or the idle
  value); all this before the completion executes (state \<open>s3\<close>). A completion that executes in the interrupt
  then runs its entry point, if it has one, with its argument; one that does not is appended to the
  continuation queue, if it has an entry point, and is dropped otherwise.
\<close>

theorem comp_dispatch_earliest:
  assumes "async_rep s (x # xs) ys" "quiet_event_callback call s"
  shows "\<exists>s3. async_rep s3 xs ys \<and> compare_ok s3 xs \<and> idle_node s3 xs ys x \<and>
    a_SystemEvents s3 = a_SystemEvents s OR SYSTEM_EVENT_FLAG_SYSTEM_TIMER \<and>
    (\<forall>z \<in> set xs. a_EventTimeTicks s x \<le> a_EventTimeTicks s z) \<and>
    (if a_EntryPoint s x = 0 then comp_DequeueAndExec call s = s3
     else if a_ExecuteInISR s x
     then comp_DequeueAndExec call s = call (a_EntryPoint s x) (a_Argument s x) s3
     else comp_DequeueAndExec call s = cont_Enqueue x s3 \<and>
       async_rep (comp_DequeueAndExec call s) xs (ys @ [x]) \<and>
       compare_ok (comp_DequeueAndExec call s) xs \<and>
       a_SystemEvents (comp_DequeueAndExec call s) =
         a_SystemEvents s OR SYSTEM_EVENT_FLAG_SYSTEM_TIMER)"
proof -
  obtain s3 where s3: "comp_DequeueAndExec call s = comp_Execute call x s3" "async_rep s3 xs ys"
    "compare_ok s3 xs" "idle_node s3 xs ys x" "a_EntryPoint s3 = a_EntryPoint s"
    "a_Argument s3 = a_Argument s" "a_ExecuteInISR s3 = a_ExecuteInISR s"
    "a_SystemEvents s3 = a_SystemEvents s OR SYSTEM_EVENT_FLAG_SYSTEM_TIMER"
    using comp_Dequeue_cons [OF assms] by blast
  have "compare_ok (cont_Enqueue x s3) xs"
    using s3(3) by (simp add: compare_ok_def cont_Enqueue_def split: list.splits)
  moreover have "a_SystemEvents (cont_Enqueue x s3) = a_SystemEvents s3"
    by (simp add: cont_Enqueue_def)
  moreover have "a_EntryPoint s x \<noteq> 0 \<Longrightarrow> async_rep (cont_Enqueue x s3) xs (ys @ [x])"
    using cont_Enqueue_idle [OF s3(2,4)] s3(5) by simp
  moreover have "\<forall>z \<in> set xs. a_EventTimeTicks s x \<le> a_EventTimeTicks s z"
    using async_repD(4) [OF assms(1)] by simp
  ultimately show ?thesis using s3
    by (intro exI [of _ s3])
      (auto simp: comp_Execute_def HAL_CALLBACK_Execute_def cont_Enqueue_def Let_def)
qed

theorem comp_dispatch_earliest_witness:
  "\<exists>s::nat async. async_rep s [10] [] \<and>
     async_rep (comp_DequeueAndExec (\<lambda>f a t. t) s) [] [10] \<and>
     compare_ok (comp_DequeueAndExec (\<lambda>f a t. t) s) []"
proof -
  obtain s where s: "comp_EnqueueTicks 10 99 async_start = Some s" "async_rep s [10] []"
    using comp_EnqueueTicks_idle [OF async_start_ok(1) async_start_ok(3) [of 10], of 99]
    by (auto simp: sched_insert_def)
  have "a_ExecuteInISR s 10 = False" "a_EntryPoint s 10 = 7" "a_Event_Callback s = 0"
    using s(1) by (auto simp: comp_EnqueueTicks_def async_start_def Let_def HAL_Time_SetCompare_def
        split: if_splits)
  then have "quiet_event_callback (\<lambda>f a t. t) s" by (simp add: quiet_event_callback_def)
  from comp_dispatch_earliest [OF s(2) this] \<open>a_ExecuteInISR s 10 = False\<close> \<open>a_EntryPoint s 10 = 7\<close>
  have "async_rep (comp_DequeueAndExec (\<lambda>f a t. t) s) [] [10] \<and>
    compare_ok (comp_DequeueAndExec (\<lambda>f a t. t) s) []" by auto
  with s(2) show ?thesis by blast
qed



text \<open>
  C8. A lost wake-up: when the completion queue is empty, \<open>WaitForInterrupts\<close> sets the compare
  register to the idle value after the sleep without looking at the queue again. If an
  interrupt handler armed a completion during the sleep, that completion is pending but the
  compare register no longer holds its due time, so its timer interrupt does not come.
\<close>

theorem comp_WaitForInterrupts_lost_wakeup:
  assumes "async_rep s [] ys"
    and "async_rep (sleep l w (s\<lparr>a_compare := e\<rparr>)) (x # xs) zs"
    and "a_EventTimeTicks (sleep l w (s\<lparr>a_compare := e\<rparr>)) x \<noteq> HAL_Completion_IdleValue"
  shows "async_rep (comp_WaitForInterrupts sleep e l w s) (x # xs) zs \<and>
    a_compare (comp_WaitForInterrupts sleep e l w s) = HAL_Completion_IdleValue \<and>
    \<not> compare_ok (comp_WaitForInterrupts sleep e l w s) (x # xs)"
proof -
  have "dn_Next (a_mem s) (dl_FirstNode (a_mem s) (a_completions s)) = 0"
    using dl_rep_ends(1,3) [OF async_repD(1) [OF assms(1)]] by simp
  then have "comp_WaitForInterrupts sleep e l w s =
      (sleep l w (s\<lparr>a_compare := e\<rparr>))\<lparr>a_compare := HAL_Completion_IdleValue\<rparr>"
    by (simp add: comp_WaitForInterrupts_def HAL_Time_SetCompare_def Let_def)
  then show ?thesis using assms(2,3) by (simp add: compare_ok_def)
qed

theorem comp_WaitForInterrupts_lost_wakeup_witness:
  "\<exists>sleep s'. s' = comp_WaitForInterrupts sleep 1000 0 0 async_start \<and> async_rep s' [10] [] \<and>
     \<not> compare_ok s' [10]"
proof -
  define sleep where "sleep = (\<lambda>(l::u32) (w::u64) s. the (comp_EnqueueTicks 10 99 (s::nat async)))"
  let ?s = "async_start\<lparr>a_compare := 1000\<rparr>"
  have i: "async_rep ?s [] []" "idle_node ?s [] [] 10" by (simp_all add: async_start_ok)
  obtain s1 where s1: "comp_EnqueueTicks 10 99 ?s = Some s1" "async_rep s1 [10] []"
    "a_EventTimeTicks s1 10 = 99"
    using comp_EnqueueTicks_idle [OF i, of 99] by (auto simp: sched_insert_def)
  then have "async_rep (sleep 0 0 ?s) [10] []" "a_EventTimeTicks (sleep 0 0 ?s) 10 \<noteq> HAL_Completion_IdleValue"
    by (simp_all add: sleep_def HAL_Completion_IdleValue_def)
  with comp_WaitForInterrupts_lost_wakeup
    [of async_start "[]" sleep 0 0 1000 10 "[]" "[]"] async_start_ok(1)
  have "async_rep (comp_WaitForInterrupts sleep 1000 0 0 async_start) [10] [] \<and>
    \<not> compare_ok (comp_WaitForInterrupts sleep 1000 0 0 async_start) [10]" by blast
  then show ?thesis by blast
qed

text \<open>
  \<open>Uninitialize\<close> terminates on either queue of a well-formed state: the completion queue is
  left empty, every node that was pending is detached, and the continuations still queued are
  untouched.
\<close>

theorem comp_Uninitialize_drains:
  assumes "async_rep s xs ys"
  shows "\<exists>s'. comp_Uninitialize s = Some s' \<and> async_rep s' [] ys \<and>
    (\<forall>x \<in> set xs. dl_detached (a_mem s') x)"
proof -
  note R = async_repD [OF assms]
  obtain m' where m': "list_drain (a_mem s) (a_completions s) = Some m'"
    "dl_rep m' (a_completions s) []" "\<forall>x \<in> set xs. dl_detached m' x"
    "\<And>c. c \<notin> dl_cells (a_completions s) xs \<Longrightarrow> m' c = a_mem s c"
    using list_drain_rep [OF R(1)] by blast
  have "dl_rep m' (a_continuations s) ys" using R(2,3) m'(4) by (rule other_list_frame)
  moreover have "dl_cells (a_completions s) [] \<inter> dl_cells (a_continuations s) ys = {}"
    using R(3) by (auto simp: dl_cells_def)
  ultimately show ?thesis using m' by (simp add: comp_Uninitialize_def async_rep_def)
qed

theorem comp_Uninitialize_drains_witness:
  "\<exists>s'. comp_Uninitialize async_start = Some s' \<and> async_rep s' [] []"
  using comp_Uninitialize_drains [OF async_start_ok(1)] by blast

end
