(* ===== verification/TimeCalendar.thy ===== *)
theory TimeCalendar
  imports Prelude
begin

text \<open>
  The time driver (\<open>DeviceCode/pal/time/time_driver.cpp\<close>, \<open>Time_decl.h\<close>): conversion between
  64-bit counts of 100 ns since 1 January 1601 and broken-down dates, month lengths, and the
  driver's UTC, local and machine clocks. \<open>HAL_Time_CurrentTime\<close> and
  \<open>HAL_Time_GetDriftParameters\<close> belong to the board and are arguments. Values are \<open>int\<close> with the
  C widths written out (\<open>s32\<close>, \<open>s64\<close>, 16-bit words for the fields of \<open>SYSTEMTIME\<close>); a read of
  the month table out of its bounds is the value None.
\<close>

section \<open>Broken-down time\<close>

record SYSTEMTIME =
  wYear :: u16
  wMonth :: u16
  wDayOfWeek :: u16
  wDay :: u16
  wHour :: u16
  wMinute :: u16
  wSecond :: u16
  wMilliseconds :: u16

definition CummulativeDaysForMonth :: "int list" where
  "CummulativeDaysForMonth = [0, 31, 59, 90, 120, 151, 181, 212, 243, 273, 304, 334, 365]"

definition BASE_YEAR :: int where "BASE_YEAR = 1601"
definition BASE_YEAR_LEAPYEAR_ADJUST :: int where "BASE_YEAR_LEAPYEAR_ADJUST = 388"
definition DAYS_IN_NORMAL_YEAR :: int where "DAYS_IN_NORMAL_YEAR = 365"
definition BASE_YEAR_DAYOFWEEK_SHIFT :: int where "BASE_YEAR_DAYOFWEEK_SHIFT = 1"

definition IS_LEAP_YEAR :: "int \<Rightarrow> bool" where
  "IS_LEAP_YEAR y \<longleftrightarrow> c_mod y 4 = 0 \<and> c_mod y 100 \<noteq> 0 \<or> c_mod y 400 = 0"

definition NUMBER_OF_LEAP_YEARS :: "int \<Rightarrow> int" where
  "NUMBER_OF_LEAP_YEARS y =
     c_div (y - 1) 4 - c_div (y - 1) 100 + c_div (y - 1) 400 - BASE_YEAR_LEAPYEAR_ADJUST"

definition YEARS_TO_DAYS :: "int \<Rightarrow> int" where
  "YEARS_TO_DAYS y = (y - BASE_YEAR) * DAYS_IN_NORMAL_YEAR + NUMBER_OF_LEAP_YEARS y"

definition MONTH_TO_DAYS :: "int \<Rightarrow> int \<Rightarrow> int option" where
  "MONTH_TO_DAYS y m =
     (if 1 \<le> m \<and> m \<le> 13
      then Some (CummulativeDaysForMonth ! nat (m - 1) + (if IS_LEAP_YEAR y \<and> 2 < m then 1 else 0))
      else None)"

definition word16 :: "int \<Rightarrow> u16" where "word16 x = word_of_int x"

definition ToSystemTime :: "int \<Rightarrow> SYSTEMTIME option" where
  "ToSystemTime time =
     (let time = c_div time 10000;
          ms = word16 (c_mod time 1000);
          time = c_div time 1000;
          sec = word16 (c_mod time 60);
          time = c_div time 60;
          mi = word16 (c_mod time 60);
          time = c_div time 60;
          ho = word16 (c_mod time 24);
          time = c_div time 24;
          dow = word16 (c_mod (time + BASE_YEAR_DAYOFWEEK_SHIFT) 7);
          year = word16 (c_div time DAYS_IN_NORMAL_YEAR + BASE_YEAR);
          year = (if YEARS_TO_DAYS (uint year) > time then year - 1 else year);
          time = time - YEARS_TO_DAYS (uint year);
          month = word16 (c_div time 31 + 1)
      in case MONTH_TO_DAYS (uint year) (uint month + 1) of
           None \<Rightarrow> None
         | Some mtd \<Rightarrow>
             (let month = (if time \<ge> mtd then month + 1 else month)
              in case MONTH_TO_DAYS (uint year) (uint month) of
                   None \<Rightarrow> None
                 | Some mtd \<Rightarrow>
                     Some \<lparr>wYear = year, wMonth = month, wDayOfWeek = dow,
                           wDay = word16 (time - mtd + 1), wHour = ho, wMinute = mi,
                           wSecond = sec, wMilliseconds = ms\<rparr>))"

definition FromSystemTime :: "SYSTEMTIME \<Rightarrow> int option" where
  "FromSystemTime st =
     (case MONTH_TO_DAYS (uint (wYear st)) (uint (wMonth st)) of
        None \<Rightarrow> None
      | Some mtd \<Rightarrow>
          (let r = YEARS_TO_DAYS (uint (wYear st)) + mtd + uint (wDay st) - 1
           in Some (s64 ((((((r * 24 + uint (wHour st)) * 60 + uint (wMinute st)) * 60)
                           + uint (wSecond st)) * 1000 + uint (wMilliseconds st)) * 10000))))"

definition AccDaysInMonth :: "int \<Rightarrow> int \<Rightarrow> int option" where
  "AccDaysInMonth year month = MONTH_TO_DAYS year month"

definition DaysInMonth :: "int \<Rightarrow> int \<Rightarrow> int option" where
  "DaysInMonth year month =
     (case MONTH_TO_DAYS year (month + 1) of
        None \<Rightarrow> None
      | Some b \<Rightarrow> (case MONTH_TO_DAYS year month of None \<Rightarrow> None | Some a \<Rightarrow> Some (b - a)))"

section \<open>The driver's clocks\<close>

record time_driver =
  m_initialized :: bool
  m_utcTime :: int
  m_timezoneOffset :: int
  m_Utc_c :: int
  m_Ticks_a :: int
  m_Ticks_b :: int
  m_Ticks_c :: int

definition TIMEUNIT_TO_MINUTES :: int where "TIMEUNIT_TO_MINUTES = 600000000"

text \<open>The constant \<open>INITIAL_TIME\<close>: both table reads are in bounds, so it is a number.\<close>

definition INITIAL_TIME :: int where
  "INITIAL_TIME = (YEARS_TO_DAYS 2011 + the (MONTH_TO_DAYS 2011 6)) * 24 * 60 * TIMEUNIT_TO_MINUTES"

definition td_Initialize :: "int \<times> int \<times> int \<Rightarrow> time_driver \<Rightarrow> time_driver" where
  "td_Initialize drift d =
     (if m_initialized d then d
      else d\<lparr>m_Ticks_a := fst drift, m_Ticks_b := fst (snd drift), m_Ticks_c := snd (snd drift),
             m_timezoneOffset := 0, m_utcTime := INITIAL_TIME, m_Utc_c := INITIAL_TIME,
             m_initialized := True\<rparr>)"

definition td_Uninitialize :: "time_driver \<Rightarrow> time_driver" where
  "td_Uninitialize d = (if m_initialized d then d\<lparr>m_initialized := False\<rparr> else d)"

definition GetMachineTime :: "int \<Rightarrow> time_driver \<Rightarrow> int" where
  "GetMachineTime now d =
     (if m_Ticks_a d \<noteq> 0
      then c_div (s64 (now * m_Ticks_b d + m_Ticks_c d)) (m_Ticks_a d) else now)"

definition GetUtcTime :: "int \<Rightarrow> time_driver \<Rightarrow> int" where
  "GetUtcTime now d = s64 (GetMachineTime now d + m_Utc_c d)"

text \<open>\<open>SetUtcTime\<close> reads the clock twice: once for the correction, once for its result.\<close>

definition SetUtcTime :: "int \<Rightarrow> int \<Rightarrow> int \<Rightarrow> time_driver \<Rightarrow> time_driver \<times> int" where
  "SetUtcTime now now' utcTime d =
     (let d' = d\<lparr>m_Utc_c := s64 (utcTime - GetMachineTime now d)\<rparr> in (d', GetUtcTime now' d'))"

definition GetLocalTime :: "int \<Rightarrow> time_driver \<Rightarrow> int" where
  "GetLocalTime now d = s64 (GetUtcTime now d + m_timezoneOffset d)"

definition GetTimeZoneOffset :: "time_driver \<Rightarrow> int" where
  "GetTimeZoneOffset d = s32 (c_div (m_timezoneOffset d) TIMEUNIT_TO_MINUTES)"

definition SetTimeZoneOffset :: "int \<Rightarrow> time_driver \<Rightarrow> time_driver \<times> int" where
  "SetTimeZoneOffset offset d =
     (let offset = c_mod offset 1440
      in (d\<lparr>m_timezoneOffset := offset * TIMEUNIT_TO_MINUTES\<rparr>, offset))"

definition GetTickCount :: "int \<Rightarrow> time_driver \<Rightarrow> int" where
  "GetTickCount now d = c_div (GetMachineTime now d) 10000"

section \<open>Calendar arithmetic\<close>

lemma word16_uint [simp]: "0 \<le> x \<Longrightarrow> x < 65536 \<Longrightarrow> uint (word16 x) = x"
  by (simp add: word16_def take_bit_int_eq_self unsigned_of_int)

lemma word16_minus_1 [simp]: "word16 x - 1 = word16 (x - 1)"
  by (simp add: word16_def)

lemma word16_plus_1 [simp]: "word16 x + 1 = word16 (x + 1)"
  by (simp add: word16_def)

lemma IS_LEAP_YEAR_dvd: "IS_LEAP_YEAR y \<longleftrightarrow> 4 dvd y \<and> \<not> 100 dvd y \<or> 400 dvd y"
  by (simp add: IS_LEAP_YEAR_def c_mod_eq_0_iff)

lemma div_pred: "0 < n \<Longrightarrow> y div n = (y - 1) div n + (if n dvd y then 1 else (0 :: int))"
proof (cases "n dvd y")
  assume n: "0 < n"
  case True
  then obtain k where k: "y = n * k" ..
  have "(y - 1) div n = k - 1"
    by (rule int_div_pos_eq [where r = "n - 1"]) (use n k in \<open>auto simp: algebra_simps\<close>)
  then show ?thesis using True k n by simp
next
  assume n: "0 < n"
  case False
  then have "y mod n \<noteq> 0" "0 \<le> y mod n" "y mod n < n" using n by (auto simp: dvd_eq_mod_eq_0)
  moreover have "y - 1 = n * (y div n) + (y mod n - 1)" by simp
  ultimately have "(y - 1) div n = y div n"
    by (intro int_div_pos_eq [where r = "y mod n - 1"]) linarith+
  then show ?thesis using False by simp
qed

lemma YEARS_TO_DAYS_Suc:
  assumes "1 \<le> y"
  shows "YEARS_TO_DAYS (y + 1) = YEARS_TO_DAYS y + 365 + (if IS_LEAP_YEAR y then 1 else 0)"
proof -
  have "(100 :: int) dvd y" if "400 dvd y" using that by (rule dvd_trans [rotated]) simp
  moreover have "(4 :: int) dvd y" if "100 dvd y" using that by (rule dvd_trans [rotated]) simp
  ultimately have "(if 4 dvd y then 1 else 0) - (if 100 dvd y then 1 else 0)
      + (if 400 dvd y then 1 else 0) = (if IS_LEAP_YEAR y then 1 else (0 :: int))"
    by (auto simp: IS_LEAP_YEAR_dvd)
  moreover have "c_div y k = c_div (y - 1) k + (if k dvd y then 1 else 0)" if "0 < k" for k
    using div_pred [OF that, of y] that assms by simp
  from this [of 4] this [of 100] this [of 400]
  have "NUMBER_OF_LEAP_YEARS (y + 1) = NUMBER_OF_LEAP_YEARS y + ((if 4 dvd y then 1 else 0)
      - (if 100 dvd y then 1 else 0) + (if 400 dvd y then 1 else 0))"
    by (simp only: NUMBER_OF_LEAP_YEARS_def) simp
  ultimately show ?thesis
    by (simp only: YEARS_TO_DAYS_def DAYS_IN_NORMAL_YEAR_def) (simp add: algebra_simps)
qed

lemma YEARS_TO_DAYS_base [simp]: "YEARS_TO_DAYS 1601 = 0"
  by (simp add: YEARS_TO_DAYS_def NUMBER_OF_LEAP_YEARS_def BASE_YEAR_def BASE_YEAR_LEAPYEAR_ADJUST_def)

text \<open>The Gregorian month lengths, and the day that follows a date.\<close>

definition month_len :: "int \<Rightarrow> int \<Rightarrow> int" where
  "month_len y m =
     (if m = 2 then (if IS_LEAP_YEAR y then 29 else 28)
      else if m = 4 \<or> m = 6 \<or> m = 9 \<or> m = 11 then 30 else 31)"

fun next_date :: "int \<times> int \<times> int \<Rightarrow> int \<times> int \<times> int" where
  "next_date (y, m, d) =
     (if d < month_len y m then (y, m, d + 1)
      else if m < 12 then (y, m + 1, 1) else (y + 1, 1, 1))"

text \<open>The date \<open>n\<close> days after 1 January 1601.\<close>

definition date_at :: "nat \<Rightarrow> int \<times> int \<times> int" where
  "date_at n = (next_date ^^ n) (1601, 1, 1)"

lemma month_cases:
  "1 \<le> m \<Longrightarrow> m \<le> 12 \<Longrightarrow>
     m = 1 \<or> m = 2 \<or> m = 3 \<or> m = 4 \<or> m = 5 \<or> m = 6 \<or> m = 7 \<or> m = 8 \<or> m = 9 \<or> m = 10 \<or>
     m = 11 \<or> m = (12 :: int)"
  by arith

definition cum :: "int \<Rightarrow> int \<Rightarrow> int" where
  "cum y m = the (MONTH_TO_DAYS y m)"

lemma MONTH_TO_DAYS_cum: "1 \<le> m \<Longrightarrow> m \<le> 13 \<Longrightarrow> MONTH_TO_DAYS y m = Some (cum y m)"
  by (simp add: cum_def MONTH_TO_DAYS_def)

lemma cum_1 [simp]: "cum y 1 = 0"
  by (simp add: cum_def MONTH_TO_DAYS_def CummulativeDaysForMonth_def)

lemma cum_13: "cum y 13 = 365 + (if IS_LEAP_YEAR y then 1 else 0)"
  by (simp add: cum_def MONTH_TO_DAYS_def CummulativeDaysForMonth_def)

lemma cum_Suc: "1 \<le> m \<Longrightarrow> m \<le> 12 \<Longrightarrow> cum y (m + 1) = cum y m + month_len y m"
  by (drule (1) month_cases, elim disjE)
    (simp_all add: cum_def MONTH_TO_DAYS_def CummulativeDaysForMonth_def month_len_def)

definition date_ok :: "int \<times> int \<times> int \<Rightarrow> bool" where
  "date_ok t = (case t of (y, m, d) \<Rightarrow> 1601 \<le> y \<and> 1 \<le> m \<and> m \<le> 12 \<and> 1 \<le> d \<and> d \<le> month_len y m)"

definition day_number :: "int \<times> int \<times> int \<Rightarrow> int" where
  "day_number t = (case t of (y, m, d) \<Rightarrow> YEARS_TO_DAYS y + cum y m + d - 1)"

lemma month_len_pos [simp]: "1 \<le> month_len y m" "month_len y m \<le> 31"
  by (simp_all add: month_len_def)

lemma next_date_ok: "date_ok t \<Longrightarrow> date_ok (next_date t)"
  by (cases t) (auto simp: date_ok_def)

lemma day_number_next: "date_ok t \<Longrightarrow> day_number (next_date t) = day_number t + 1"
  using cum_13 [of "fst t"] cum_Suc [of 12 "fst t"] YEARS_TO_DAYS_Suc [of "fst t"]
  by (cases t) (auto simp: date_ok_def day_number_def cum_Suc)

lemma date_at_ok: "date_ok (date_at n) \<and> day_number (date_at n) = int n"
proof (induction n)
  case 0
  show ?case by (simp add: date_at_def date_ok_def day_number_def)
next
  case (Suc n)
  have "date_at (Suc n) = next_date (date_at n)" by (simp add: date_at_def)
  with Suc next_date_ok day_number_next show ?case by simp
qed

lemma YEARS_TO_DAYS_mono:
  assumes "1 \<le> y" "y \<le> z"
  shows "YEARS_TO_DAYS y + 365 * (z - y) \<le> YEARS_TO_DAYS z"
proof -
  have "YEARS_TO_DAYS y + 365 * int k \<le> YEARS_TO_DAYS (y + int k)" for k
  proof (induction k)
    case (Suc k)
    have "YEARS_TO_DAYS (y + int k + 1) \<ge> YEARS_TO_DAYS (y + int k) + 365"
      using YEARS_TO_DAYS_Suc [of "y + int k"] assms(1) by simp
    with Suc show ?case by (simp add: algebra_simps)
  qed simp
  from this [of "nat (z - y)"] assms show ?thesis by simp
qed

lemma cum_bounds:
  "1 \<le> m \<Longrightarrow> m \<le> 12 \<Longrightarrow>
     0 \<le> cum y m \<and> 31 * (m - 2) \<le> cum y m \<and> cum y m + month_len y m \<le> 31 * m"
  by (drule (1) month_cases, elim disjE)
    (simp_all add: cum_def MONTH_TO_DAYS_def CummulativeDaysForMonth_def month_len_def)

lemma cum_le_13: "1 \<le> m \<Longrightarrow> m \<le> 12 \<Longrightarrow> cum y m + month_len y m \<le> cum y 13"
  by (drule (1) month_cases, elim disjE)
    (simp_all add: cum_def MONTH_TO_DAYS_def CummulativeDaysForMonth_def month_len_def)

lemma month_estimate:
  assumes "1 \<le> m" "m \<le> 12" "cum y m \<le> k" "k < cum y m + month_len y m"
  shows "k div 31 + 1 = m \<or> k div 31 + 1 = m - 1" "1 \<le> k div 31 + 1"
proof -
  have "31 * (m - 2) \<le> k" "k < 31 * m" "0 \<le> k" using cum_bounds [OF assms(1,2), of y] assms(3,4) by auto
  then have "m - 2 \<le> k div 31" "k div 31 < m" "0 \<le> k div 31"
    by (simp_all add: le_div_iff div_less_iff)
  then show "k div 31 + 1 = m \<or> k div 31 + 1 = m - 1" "1 \<le> k div 31 + 1" by arith+
qed

text \<open>The month search of \<open>ToSystemTime\<close>: one correction of the estimate is enough.\<close>

lemma month_search:
  assumes "1 \<le> m" "m \<le> 12" "1 \<le> d" "d \<le> month_len y m" and k: "k = cum y m + d - 1"
  shows "MONTH_TO_DAYS y (k div 31 + 1 + 1) = Some (cum y (k div 31 + 1 + 1))"
    and "(if k \<ge> cum y (k div 31 + 1 + 1) then k div 31 + 1 + 1 else k div 31 + 1) = m"
proof -
  have r: "k div 31 + 1 = m \<or> k div 31 + 1 = m - 1" "1 \<le> k div 31 + 1"
    using month_estimate [of m y k] assms by auto
  then show "MONTH_TO_DAYS y (k div 31 + 1 + 1) = Some (cum y (k div 31 + 1 + 1))"
    using assms by (intro MONTH_TO_DAYS_cum) auto
  have "k < cum y (m + 1)" "cum y m \<le> k" using assms cum_Suc [of m y] by auto
  then show "(if k \<ge> cum y (k div 31 + 1 + 1) then k div 31 + 1 + 1 else k div 31 + 1) = m"
    using r by auto
qed

lemma year_estimate:
  assumes "1601 \<le> y" "YEARS_TO_DAYS y \<le> n" "n < YEARS_TO_DAYS (y + 1)"
    and "n < 365 * (y - 1601) + 730"
  shows "(if YEARS_TO_DAYS (n div 365 + 1601) > n then n div 365 + 1601 - 1 else n div 365 + 1601) = y"
    and "n div 365 + 1601 \<in> {y, y + 1}"
proof -
  have "365 * (y - 1601) \<le> n" using YEARS_TO_DAYS_mono [of 1601 y] assms by simp
  then have "y - 1601 \<le> n div 365" "n div 365 < y - 1599"
    using assms(4) by (simp_all add: le_div_iff div_less_iff)
  then have "n div 365 + 1601 = y \<or> n div 365 + 1601 = y + 1" by linarith
  then show "(if YEARS_TO_DAYS (n div 365 + 1601) > n then n div 365 + 1601 - 1 else n div 365 + 1601) = y"
    "n div 365 + 1601 \<in> {y, y + 1}"
    using assms(2,3) by (auto simp: add.commute)
qed

text \<open>
  Up to day 552244 (30 December 3112) the leap days counted so far do not reach two years, so
  one correction of the estimated year is enough.
\<close>

lemma YEARS_TO_DAYS_3112: "YEARS_TO_DAYS 3112 = 551880" "YEARS_TO_DAYS 3113 = 552246"
  by (simp_all add: YEARS_TO_DAYS_def NUMBER_OF_LEAP_YEARS_def BASE_YEAR_def
      BASE_YEAR_LEAPYEAR_ADJUST_def DAYS_IN_NORMAL_YEAR_def)

lemma year_bound: "1601 \<le> y \<Longrightarrow> YEARS_TO_DAYS y < 552245 \<Longrightarrow> y \<le> 3112"
  using YEARS_TO_DAYS_mono [of 3113 y] YEARS_TO_DAYS_3112(2) by (cases "3113 \<le> y") auto

lemma leap_days_bound:
  assumes "1601 \<le> y" "n < YEARS_TO_DAYS (y + 1)" "YEARS_TO_DAYS y \<le> n" "n < 552245"
  shows "n < 365 * (y - 1601) + 730"
proof (cases "y = 3112")
  case False
  then have "y \<le> 3111" using year_bound [of y] assms by simp
  then have "YEARS_TO_DAYS (y + 1) + 365 * (3112 - (y + 1)) \<le> 551880"
    using assms YEARS_TO_DAYS_mono [of "y + 1" 3112] YEARS_TO_DAYS_3112(1) by simp
  then show ?thesis using assms by simp
qed (use assms in simp)

section \<open>Conversions follow the calendar\<close>

definition date_of :: "SYSTEMTIME \<Rightarrow> int \<times> int \<times> int" where
  "date_of st = (uint (wYear st), uint (wMonth st), uint (wDay st))"

definition clock_of :: "SYSTEMTIME \<Rightarrow> int" where
  "clock_of st =
     ((uint (wHour st) * 60 + uint (wMinute st)) * 60 + uint (wSecond st)) * 1000
       + uint (wMilliseconds st)"

definition clock_ok :: "SYSTEMTIME \<Rightarrow> bool" where
  "clock_ok st \<longleftrightarrow> uint (wHour st) < 24 \<and> uint (wMinute st) < 60 \<and> uint (wSecond st) < 60 \<and>
     uint (wMilliseconds st) < 1000"

lemma ToSystemTime_date:
  assumes t: "0 \<le> t" and ok: "date_ok (y, m, d)"
    and dn: "day_number (y, m, d) = t div 864000000000" "t div 864000000000 < 552245"
  shows "ToSystemTime t = Some \<lparr>wYear = word16 y, wMonth = word16 m,
      wDayOfWeek = word16 ((t div 864000000000 + 1) mod 7), wDay = word16 d,
      wHour = word16 (t div 36000000000 mod 24), wMinute = word16 (t div 600000000 mod 60),
      wSecond = word16 (t div 10000000 mod 60), wMilliseconds = word16 (t div 10000 mod 1000)\<rparr>"
proof -
  define n where "n = t div 864000000000"
  have n0: "0 \<le> n" using t by (simp add: n_def pos_imp_zdiv_nonneg_iff)
  have ymd: "1601 \<le> y" "1 \<le> m" "m \<le> 12" "1 \<le> d" "d \<le> month_len y m"
    "n = YEARS_TO_DAYS y + (cum y m + d - 1)"
    using ok dn by (auto simp: date_ok_def day_number_def n_def)
  define k where "k = cum y m + d - 1"
  have k: "n - YEARS_TO_DAYS y = k" "0 \<le> k" "k < cum y 13"
    using ymd cum_bounds [of m y] cum_le_13 [of m y] by (auto simp: k_def)
  have "n < YEARS_TO_DAYS (y + 1)"
    using k ymd(1) YEARS_TO_DAYS_Suc [of y] cum_13 [of y] by simp
  moreover have "YEARS_TO_DAYS y \<le> n" "n < 552245" using k dn(2) by (auto simp: n_def)
  ultimately have est:
    "(if YEARS_TO_DAYS (n div 365 + 1601) > n then n div 365 + 1601 - 1 else n div 365 + 1601) = y"
    "n div 365 + 1601 \<in> {y, y + 1}" and y: "y \<le> 3112"
    using year_estimate [OF ymd(1)] leap_days_bound [OF ymd(1)] year_bound [OF ymd(1)] by auto
  have Y: "(if YEARS_TO_DAYS (uint (word16 (n div 365 + 1601))) > n
      then word16 (n div 365 + 1601) - 1 else word16 (n div 365 + 1601)) = word16 y"
    using est k ymd(1) y by (auto split: if_splits)
  have M: "1 \<le> k div 31 + 1" "k div 31 + 1 \<le> 12"
    using month_estimate [of m y k] ymd by (auto simp: k_def)
  have S: "MONTH_TO_DAYS y (k div 31 + 1 + 1) = Some (cum y (k div 31 + 1 + 1))"
    "(if k \<ge> cum y (k div 31 + 1 + 1) then word16 (k div 31 + 1) + 1 else word16 (k div 31 + 1)) = word16 m"
    using month_search [OF ymd(2-5) k_def] by (auto split: if_splits)
  have d: "c_div t 10000 = t div 10000" "c_div (t div 10000) 1000 = t div 10000000"
    "c_div (t div 10000000) 60 = t div 600000000" "c_div (t div 600000000) 60 = t div 36000000000"
    "c_div (t div 36000000000) 24 = n"
    using t by (simp_all add: pos_imp_zdiv_nonneg_iff zdiv_zmult2_eq [symmetric] n_def)
  have e: "c_mod (t div 10000) 1000 = t div 10000 mod 1000"
    "c_mod (t div 10000000) 60 = t div 10000000 mod 60"
    "c_mod (t div 600000000) 60 = t div 600000000 mod 60"
    "c_mod (t div 36000000000) 24 = t div 36000000000 mod 24"
    "c_mod (n + 1) 7 = (n + 1) mod 7" "c_div n 365 = n div 365" "c_div k 31 = k div 31"
    using t n0 k(2) by (simp_all add: pos_imp_zdiv_nonneg_iff)
  have w: "uint (word16 y) = y" "uint (word16 m) = m" "uint (word16 (k div 31 + 1)) = k div 31 + 1"
    using ymd y M by simp_all
  have "MONTH_TO_DAYS y m = Some (cum y m)" "k - cum y m + 1 = d"
    using ymd by (simp_all add: MONTH_TO_DAYS_cum k_def)
  then show ?thesis
    by (simp only: ToSystemTime_def Let_def d e BASE_YEAR_DAYOFWEEK_SHIFT_def
        DAYS_IN_NORMAL_YEAR_def BASE_YEAR_def Y w k(1) S option.case n_def [symmetric])
qed

lemma time_split:
  assumes "0 \<le> (t :: int)"
  shows "t div 864000000000 * 86400000 + (((t div 36000000000 mod 24 * 60 + t div 600000000 mod 60) * 60
      + t div 10000000 mod 60) * 1000 + t div 10000 mod 1000) = t div 10000"
proof -
  have dist: "N * 86400000 + (((h * 60 + m) * 60 + s) * 1000 + l) =
    (((N * 24 + h) * 60 + m) * 60 + s) * 1000 + l" for N h m s l :: int by (simp add: algebra_simps)
  have split: "a div k * k + a mod k = a" for a k :: int by simp
  have "t div 864000000000 = t div 36000000000 div 24" "t div 36000000000 = t div 600000000 div 60"
    "t div 600000000 = t div 10000000 div 60" "t div 10000000 = t div 10000 div 1000"
    by (simp_all add: zdiv_zmult2_eq [symmetric])
  with split show ?thesis unfolding dist by metis
qed

lemma clock_digits:
  assumes c: "0 \<le> h" "h < 24" "0 \<le> mi" "mi < 60" "0 \<le> se" "se < 60" "0 \<le> ms" "ms < (1000 :: int)"
    and t: "t div 10000 = (((n * 24 + h) * 60 + mi) * 60 + se) * 1000 + ms"
  shows "t div 864000000000 = n" "t div 36000000000 mod 24 = h" "t div 600000000 mod 60 = mi"
    "t div 10000000 mod 60 = se" "t div 10000 mod 1000 = ms"
proof -
  have q: "(a * k + b) div k = a" "(a * k + b) mod k = b" if "0 \<le> b" "b < k" for a b k :: int
    using that by (simp_all add: mod_add_left_eq)
  have d: "t div 10000000 = ((n * 24 + h) * 60 + mi) * 60 + se"
    using zdiv_zmult2_eq [of 1000 t 10000] q(1) [OF c(7,8)] t by simp
  have e: "t div 600000000 = (n * 24 + h) * 60 + mi"
    using zdiv_zmult2_eq [of 60 t 10000000] q(1) [OF c(5,6)] d by simp
  have f: "t div 36000000000 = n * 24 + h"
    using zdiv_zmult2_eq [of 60 t 600000000] q(1) [OF c(3,4)] e by simp
  show "t div 864000000000 = n"
    using zdiv_zmult2_eq [of 24 t 36000000000] q(1) [OF c(1,2)] f by simp
  show "t div 36000000000 mod 24 = h" "t div 600000000 mod 60 = mi"
    "t div 10000000 mod 60 = se" "t div 10000 mod 1000 = ms"
    unfolding d e f t using q(2) c by blast+
qed

lemma FromSystemTime_date:
  assumes "date_ok (date_of st)" "day_number (date_of st) < 10000000"
  shows "FromSystemTime st = Some ((day_number (date_of st) * 86400000 + clock_of st) * 10000)"
proof -
  obtain y m d where ymd: "uint (wYear st) = y" "uint (wMonth st) = m" "uint (wDay st) = d" by blast
  define r where "r = day_number (date_of st)"
  have m: "1 \<le> m" "m \<le> 12" "1601 \<le> y" "1 \<le> d" using assms(1) ymd by (auto simp: date_ok_def date_of_def)
  have r: "0 \<le> r" "r < 10000000"
    using assms(2) m ymd YEARS_TO_DAYS_mono [of 1601 y] cum_bounds [of m y]
    by (auto simp: r_def day_number_def date_of_def)
  have le: "uint (wHour st) \<le> 65535" "uint (wMinute st) \<le> 65535" "uint (wSecond st) \<le> 65535"
    "uint (wMilliseconds st) \<le> 65535"
    using uint_bounded [of "wHour st"] uint_bounded [of "wMinute st"] uint_bounded [of "wSecond st"]
      uint_bounded [of "wMilliseconds st"] by simp_all
  have ge: "0 \<le> uint (wHour st)" "0 \<le> uint (wMinute st)" "0 \<le> uint (wSecond st)"
    "0 \<le> uint (wMilliseconds st)" by simp_all
  have "MONTH_TO_DAYS y m = Some (cum y m)" using m by (simp add: MONTH_TO_DAYS_cum)
  then have "FromSystemTime st = Some (s64 ((r * 86400000 + clock_of st) * 10000))"
    using ymd by (simp add: FromSystemTime_def r_def day_number_def date_of_def clock_of_def algebra_simps)
  moreover have "s64 ((r * 86400000 + clock_of st) * 10000) = (r * 86400000 + clock_of st) * 10000"
    unfolding clock_of_def by (rule s64_id; simp; use r le ge in linarith)
  ultimately show ?thesis by (simp add: r_def)
qed

lemma day_number_date_at: "date_at n = date_of st \<Longrightarrow> day_number (date_of st) = int n \<and> date_ok (date_of st)"
  using date_at_ok [of n] by simp

section \<open>Properties\<close>

text \<open>
  C10. \<open>ToSystemTime\<close> follows the Gregorian calendar: for every count of 100 ns up to the end of
  30 December 3112 (which covers the whole range of the class \<open>DateTime\<close>) it never reads outside
  the month table, its date is the one reached from 1 January 1601 by stepping day by day, its
  clock is in range, its day of week advances by one a day from Monday, and converting back
  gives the count rounded down to the millisecond.
\<close>

theorem ToSystemTime_calendar:
  assumes "0 \<le> t" "t < 552245 * 864000000000"
  shows "\<exists>st. ToSystemTime t = Some st \<and> date_of st = date_at (nat (t div 864000000000)) \<and>
    clock_ok st \<and> uint (wDayOfWeek st) = (t div 864000000000 + 1) mod 7 \<and>
    FromSystemTime st = Some (t - t mod 10000)"
proof -
  define n where "n = t div 864000000000"
  have n: "0 \<le> n" "n < 552245" using assms by (auto simp: n_def pos_imp_zdiv_nonneg_iff div_less_iff)
  obtain y m d where date: "date_at (nat n) = (y, m, d)" by (cases "date_at (nat n)")
  have ok: "date_ok (y, m, d)" and dn: "day_number (y, m, d) = n"
    using date_at_ok [of "nat n"] date n by simp_all
  obtain st where st: "ToSystemTime t = Some st"
    "st = \<lparr>wYear = word16 y, wMonth = word16 m,
      wDayOfWeek = word16 ((n + 1) mod 7), wDay = word16 d,
      wHour = word16 (t div 36000000000 mod 24), wMinute = word16 (t div 600000000 mod 60),
      wSecond = word16 (t div 10000000 mod 60), wMilliseconds = word16 (t div 10000 mod 1000)\<rparr>"
    by (rule that [OF ToSystemTime_date [OF assms(1) ok, folded n_def, OF dn n(2)] refl])
  have ymd: "1601 \<le> y" "1 \<le> m" "m \<le> 12" "1 \<le> d" "d \<le> month_len y m" "YEARS_TO_DAYS y + cum y m + d - 1 = n"
    using ok dn by (simp_all add: date_ok_def day_number_def)
  have "d \<le> 31" using ymd(5) month_len_pos(2) [of y m] by linarith
  moreover have "y \<le> 3112"
    by (rule year_bound [OF ymd(1)]) (use cum_bounds [OF ymd(2,3), of y] ymd(4,6) n(2) in linarith)
  ultimately have "uint (word16 y) = y" "uint (word16 m) = m" "uint (word16 d) = d"
    using ymd(1-4) by simp_all
  then have ds: "date_of st = date_at (nat n)" by (simp add: st(2) date_of_def date)
  have m7: "0 \<le> a mod k" "a mod k < k" if "0 < k" for a k :: int using that by simp_all
  have ho: "t div 36000000000 mod 24 < 24" "t div 600000000 mod 60 < 60" "t div 10000000 mod 60 < 60"
    "t div 10000 mod 1000 < 1000" "(n + 1) mod 7 < 7" by (simp_all add: m7)
  have w: "uint (word16 (a mod k)) = a mod k" if "0 < k" "k < 65536" for a k
    using that pos_mod_bound [of k a] by (intro word16_uint) (simp, linarith)
  have f: "uint (wHour st) = t div 36000000000 mod 24" "uint (wMinute st) = t div 600000000 mod 60"
    "uint (wSecond st) = t div 10000000 mod 60" "uint (wMilliseconds st) = t div 10000 mod 1000"
    "uint (wDayOfWeek st) = (n + 1) mod 7"
    unfolding st(2) SYSTEMTIME.select_convs by (rule w; simp)+
  then have ck: "clock_ok st" using ho by (simp only: clock_ok_def)
  have "n * 86400000 + clock_of st = t div 10000"
    unfolding clock_of_def f n_def by (rule time_split [OF assms(1)])
  then have "(n * 86400000 + clock_of st) * 10000 = t - t mod 10000"
    by (simp only: minus_mod_eq_div_mult)
  moreover have "date_of st = (y, m, d)" using ds date by simp
  then have "FromSystemTime st = Some ((n * 86400000 + clock_of st) * 10000)"
    using FromSystemTime_date [of st] ok dn n(2) by simp
  ultimately have "FromSystemTime st = Some (t - t mod 10000)" by (simp only:)
  with st(1) ds ck f(5) show ?thesis by (intro exI [of _ st] conjI; simp only: n_def)
qed

theorem ToSystemTime_calendar_witness:
  "\<exists>st. ToSystemTime 441796895990000000 = Some st \<and>
     date_of st = date_at (nat (441796895990000000 div 864000000000)) \<and> clock_ok st \<and>
     FromSystemTime st = Some 441796895990000000"
  using ToSystemTime_calendar [of 441796895990000000] by auto

text \<open>
  The bound of C10 is exact: on the next day, 31 December 3112, the estimated year is two
  too large, a single correction is not enough, and the result is day 0 of January 3113.
\<close>

theorem ToSystemTime_first_wrong_day:
  "map_option date_of (ToSystemTime (552245 * 864000000000)) = Some (3113, 1, 0) \<and>
   date_ok (3112, 12, 31) \<and> day_number (3112, 12, 31) = 552245"
  by code_simp

text \<open>
  C12. Round trip: a valid date before 31 December 3112 (whose day number is 552245) and a valid clock,
  with the right day of week, convert to a count that \<open>ToSystemTime\<close> maps back to exactly the same
  structure. On that day \<open>ToSystemTime\<close> goes wrong, as shown above.
\<close>

theorem FromSystemTime_roundtrip:
  assumes "date_ok (date_of st)" "day_number (date_of st) < 552245" "clock_ok st"
    and "uint (wDayOfWeek st) = (day_number (date_of st) + 1) mod 7"
  shows "\<exists>t. FromSystemTime st = Some t \<and> ToSystemTime t = Some st"
proof -
  obtain y m d where ymd: "date_of st = (y, m, d)" by (cases "date_of st")
  define n where "n = day_number (date_of st)"
  define h mi se ms where "h = uint (wHour st)" "mi = uint (wMinute st)" "se = uint (wSecond st)"
    "ms = uint (wMilliseconds st)"
  note def = this
  have c: "0 \<le> h" "h < 24" "0 \<le> mi" "mi < 60" "0 \<le> se" "se < 60" "0 \<le> ms" "ms < 1000"
    using assms(3) by (simp_all add: def clock_ok_def)
  define t where "t = (n * 86400000 + clock_of st) * 10000"
  have n0: "0 \<le> n"
    using assms(1) ymd YEARS_TO_DAYS_mono [of 1601 y] cum_bounds [of m y]
    by (auto simp: n_def day_number_def date_ok_def)
  have "t div 10000 = (((n * 24 + h) * 60 + mi) * 60 + se) * 1000 + ms"
    by (simp add: t_def clock_of_def def algebra_simps)
  note q = clock_digits [OF c this]
  have t0: "0 \<le> t" using n0 c by (simp add: t_def clock_of_def def)
  have dn: "day_number (y, m, d) = n" by (simp add: n_def ymd)
  have dw: "wDayOfWeek st = word16 ((n + 1) mod 7)"
    using assms(4) unfolding n_def word16_def by (metis word_of_int_uint)
  have st: "st = \<lparr>wYear = word16 y, wMonth = word16 m, wDayOfWeek = word16 ((n + 1) mod 7),
      wDay = word16 d, wHour = word16 h, wMinute = word16 mi, wSecond = word16 se,
      wMilliseconds = word16 ms\<rparr>"
    using ymd dw by (cases st) (auto simp: date_of_def def word16_def)
  have "ToSystemTime t = Some st"
    using ToSystemTime_date [OF t0 assms(1) [unfolded ymd], unfolded q, OF dn assms(2) [folded n_def]]
    unfolding st [symmetric] .
  moreover have "FromSystemTime st = Some t"
    using FromSystemTime_date [OF assms(1)] assms(2) by (simp add: t_def n_def)
  ultimately show ?thesis by blast
qed

definition st_example :: SYSTEMTIME where
  "st_example = \<lparr>wYear = 2011, wMonth = 6, wDayOfWeek = 3, wDay = 1, wHour = 13, wMinute = 5,
     wSecond = 59, wMilliseconds = 250\<rparr>"

theorem FromSystemTime_roundtrip_witness:
  "\<exists>t. FromSystemTime st_example = Some t \<and> ToSystemTime t = Some st_example"
  by (rule FromSystemTime_roundtrip) code_simp+

text \<open>
  \<open>DaysInMonth\<close> gives the Gregorian length of every month of every year and
  \<open>AccDaysInMonth\<close> the lengths of the months before it added up; a month outside 1 to 12
  (1 to 13 for \<open>AccDaysInMonth\<close>) reads outside the table.
\<close>

theorem DaysInMonth_calendar:
  "DaysInMonth y m = (if 1 \<le> m \<and> m \<le> 12 then Some (month_len y m) else None) \<and>
   AccDaysInMonth y m = (if 1 \<le> m \<and> m \<le> 13 then Some (\<Sum>i \<in> {1..<m}. month_len y i) else None)"
proof -
  have s: "cum y (int k + 1) = (\<Sum>i \<in> {1..<int k + 1}. month_len y i)" if "k \<le> 12" for k
    using that
  proof (induction k)
    case (Suc k)
    have "{1..<int (Suc k) + 1} = insert (int k + 1) {1..<int k + 1}" by auto
    with Suc cum_Suc [of "int k + 1" y] show ?case by (simp add: add.commute)
  qed simp
  have "cum y m = (\<Sum>i \<in> {1..<m}. month_len y i)" if "1 \<le> m" "m \<le> 13"
    using s [of "nat (m - 1)"] that by simp
  moreover have "DaysInMonth y m = Some (month_len y m)" if "1 \<le> m" "m \<le> 12"
    using that cum_Suc [of m y] by (simp add: DaysInMonth_def MONTH_TO_DAYS_cum)
  moreover have "DaysInMonth y m = None" if "\<not> (1 \<le> m \<and> m \<le> 12)"
    using that by (auto simp: DaysInMonth_def MONTH_TO_DAYS_def)
  moreover have "MONTH_TO_DAYS y m = None" if "\<not> (1 \<le> m \<and> m \<le> 13)"
    using that by (auto simp: MONTH_TO_DAYS_def)
  ultimately show ?thesis by (auto simp: AccDaysInMonth_def MONTH_TO_DAYS_cum)
qed

text \<open>
  The clocks: after \<open>SetUtcTime\<close> the UTC clock shows the time set plus the machine time
  passed since, after \<open>SetTimeZoneOffset\<close> the zone reads back as the offset reduced to less than
  a day and local time is UTC plus that many minutes, as long as the sums stay in 64 bits.
\<close>

definition in_s64 :: "int \<Rightarrow> bool" where
  "in_s64 x \<longleftrightarrow> - (2 ^ 63) \<le> x \<and> x < 2 ^ 63"

lemma s64_in [simp]: "in_s64 x \<Longrightarrow> s64 x = x"
  unfolding in_s64_def by (rule s64_id) simp_all

lemma c_div_mult [simp]: "0 < k \<Longrightarrow> c_div (a * k) k = a"
  by (simp add: c_div_def abs_mult sgn_mult mult_sgn_abs)

lemma c_mod_bounds:
  assumes "0 < k"
  shows "- k < c_mod a k \<and> c_mod a k < k"
proof (cases "0 \<le> a")
  case True
  then have "c_mod a k = a mod k" using assms by simp
  then show ?thesis using assms pos_mod_bound [of k a] pos_mod_sign [of k a] by linarith
next
  case False
  then have "c_mod a k = - (- a mod k)" using assms by (simp add: c_mod_neg)
  then show ?thesis using assms pos_mod_bound [of k "- a"] pos_mod_sign [of k "- a"] by linarith
qed

theorem time_driver_clocks:
  assumes "in_s64 (utc - GetMachineTime t0 d)"
    and "in_s64 (GetMachineTime t1 d + (utc - GetMachineTime t0 d))"
    and "in_s64 (GetMachineTime t1 d + (utc - GetMachineTime t0 d) + c_mod zone 1440 * 600000000)"
    and "d' = fst (SetTimeZoneOffset zone (fst (SetUtcTime t0 t0' utc d)))"
  shows "GetUtcTime t1 d' = utc + (GetMachineTime t1 d - GetMachineTime t0 d) \<and>
    GetTimeZoneOffset d' = c_mod zone 1440 \<and>
    GetLocalTime t1 d' = GetUtcTime t1 d' + GetTimeZoneOffset d' * 600000000"
proof -
  have m: "GetMachineTime t1 d' = GetMachineTime t1 d" "m_Utc_c d' = utc - GetMachineTime t0 d"
    "m_timezoneOffset d' = c_mod zone 1440 * 600000000"
    using assms(1,4)
    by (simp_all add: SetTimeZoneOffset_def SetUtcTime_def Let_def GetMachineTime_def TIMEUNIT_TO_MINUTES_def)
  have z: "GetTimeZoneOffset d' = c_mod zone 1440"
    using m(3) c_mod_bounds [of 1440 zone] by (simp add: GetTimeZoneOffset_def TIMEUNIT_TO_MINUTES_def)
  have u: "GetUtcTime t1 d' = utc + (GetMachineTime t1 d - GetMachineTime t0 d)"
    using assms(2) by (simp add: GetUtcTime_def m)
  have "in_s64 (GetUtcTime t1 d' + c_mod zone 1440 * 600000000)"
    using assms(3) unfolding u by (simp only: add_diff_eq add.commute add.left_commute)
  then have "GetLocalTime t1 d' = GetUtcTime t1 d' + c_mod zone 1440 * 600000000"
    by (simp add: GetLocalTime_def m)
  with u z show ?thesis by simp
qed

definition td_start :: time_driver where
  "td_start = td_Initialize (1, 1, 0)
     \<lparr>m_initialized = False, m_utcTime = 0, m_timezoneOffset = 0, m_Utc_c = 0, m_Ticks_a = 0,
      m_Ticks_b = 0, m_Ticks_c = 0\<rparr>"

lemma td_start_machine: "in_s64 t \<Longrightarrow> GetMachineTime t td_start = t"
  by (simp add: td_start_def td_Initialize_def GetMachineTime_def c_div_def mult_sgn_abs)

theorem time_driver_clocks_witness:
  "GetLocalTime 70 (fst (SetTimeZoneOffset (-480) (fst (SetUtcTime 50 51 1000 td_start))))
     = 1020 - 480 * 600000000"
  using time_driver_clocks [of 1000 50 td_start 70 "-480"
      "fst (SetTimeZoneOffset (-480) (fst (SetUtcTime 50 51 1000 td_start)))" 51]
  by (simp add: td_start_machine in_s64_def c_mod_neg)

end
