(* ===== verification/Crc.thy ===== *)
theory Crc
  imports Prelude
begin

text \<open>
  The checksum of the support library (\<open>Support/crc/CRC.cpp\<close>) and what the type system rests on
  it (\<open>CLR/Core/TypeSystem.cpp\<close>): the validation of an assembly image and the hash of an
  assembly name. A block of memory is the list of its bytes; reading past its end is the value
  None. The reference definition is the bit-by-bit division by the polynomial named in the
  source's comment.
\<close>

section \<open>The table-driven checksum\<close>

definition c_CRCTable :: "u32 list" where
  "c_CRCTable =
     [
      0x00000000, 0x04C11DB7, 0x09823B6E, 0x0D4326D9, 0x130476DC, 0x17C56B6B, 0x1A864DB2, 0x1E475005,
      0x2608EDB8, 0x22C9F00F, 0x2F8AD6D6, 0x2B4BCB61, 0x350C9B64, 0x31CD86D3, 0x3C8EA00A, 0x384FBDBD,
      0x4C11DB70, 0x48D0C6C7, 0x4593E01E, 0x4152FDA9, 0x5F15ADAC, 0x5BD4B01B, 0x569796C2, 0x52568B75,
      0x6A1936C8, 0x6ED82B7F, 0x639B0DA6, 0x675A1011, 0x791D4014, 0x7DDC5DA3, 0x709F7B7A, 0x745E66CD,
      0x9823B6E0, 0x9CE2AB57, 0x91A18D8E, 0x95609039, 0x8B27C03C, 0x8FE6DD8B, 0x82A5FB52, 0x8664E6E5,
      0xBE2B5B58, 0xBAEA46EF, 0xB7A96036, 0xB3687D81, 0xAD2F2D84, 0xA9EE3033, 0xA4AD16EA, 0xA06C0B5D,
      0xD4326D90, 0xD0F37027, 0xDDB056FE, 0xD9714B49, 0xC7361B4C, 0xC3F706FB, 0xCEB42022, 0xCA753D95,
      0xF23A8028, 0xF6FB9D9F, 0xFBB8BB46, 0xFF79A6F1, 0xE13EF6F4, 0xE5FFEB43, 0xE8BCCD9A, 0xEC7DD02D,
      0x34867077, 0x30476DC0, 0x3D044B19, 0x39C556AE, 0x278206AB, 0x23431B1C, 0x2E003DC5, 0x2AC12072,
      0x128E9DCF, 0x164F8078, 0x1B0CA6A1, 0x1FCDBB16, 0x018AEB13, 0x054BF6A4, 0x0808D07D, 0x0CC9CDCA,
      0x7897AB07, 0x7C56B6B0, 0x71159069, 0x75D48DDE, 0x6B93DDDB, 0x6F52C06C, 0x6211E6B5, 0x66D0FB02,
      0x5E9F46BF, 0x5A5E5B08, 0x571D7DD1, 0x53DC6066, 0x4D9B3063, 0x495A2DD4, 0x44190B0D, 0x40D816BA,
      0xACA5C697, 0xA864DB20, 0xA527FDF9, 0xA1E6E04E, 0xBFA1B04B, 0xBB60ADFC, 0xB6238B25, 0xB2E29692,
      0x8AAD2B2F, 0x8E6C3698, 0x832F1041, 0x87EE0DF6, 0x99A95DF3, 0x9D684044, 0x902B669D, 0x94EA7B2A,
      0xE0B41DE7, 0xE4750050, 0xE9362689, 0xEDF73B3E, 0xF3B06B3B, 0xF771768C, 0xFA325055, 0xFEF34DE2,
      0xC6BCF05F, 0xC27DEDE8, 0xCF3ECB31, 0xCBFFD686, 0xD5B88683, 0xD1799B34, 0xDC3ABDED, 0xD8FBA05A,
      0x690CE0EE, 0x6DCDFD59, 0x608EDB80, 0x644FC637, 0x7A089632, 0x7EC98B85, 0x738AAD5C, 0x774BB0EB,
      0x4F040D56, 0x4BC510E1, 0x46863638, 0x42472B8F, 0x5C007B8A, 0x58C1663D, 0x558240E4, 0x51435D53,
      0x251D3B9E, 0x21DC2629, 0x2C9F00F0, 0x285E1D47, 0x36194D42, 0x32D850F5, 0x3F9B762C, 0x3B5A6B9B,
      0x0315D626, 0x07D4CB91, 0x0A97ED48, 0x0E56F0FF, 0x1011A0FA, 0x14D0BD4D, 0x19939B94, 0x1D528623,
      0xF12F560E, 0xF5EE4BB9, 0xF8AD6D60, 0xFC6C70D7, 0xE22B20D2, 0xE6EA3D65, 0xEBA91BBC, 0xEF68060B,
      0xD727BBB6, 0xD3E6A601, 0xDEA580D8, 0xDA649D6F, 0xC423CD6A, 0xC0E2D0DD, 0xCDA1F604, 0xC960EBB3,
      0xBD3E8D7E, 0xB9FF90C9, 0xB4BCB610, 0xB07DABA7, 0xAE3AFBA2, 0xAAFBE615, 0xA7B8C0CC, 0xA379DD7B,
      0x9B3660C6, 0x9FF77D71, 0x92B45BA8, 0x9675461F, 0x8832161A, 0x8CF30BAD, 0x81B02D74, 0x857130C3,
      0x5D8A9099, 0x594B8D2E, 0x5408ABF7, 0x50C9B640, 0x4E8EE645, 0x4A4FFBF2, 0x470CDD2B, 0x43CDC09C,
      0x7B827D21, 0x7F436096, 0x7200464F, 0x76C15BF8, 0x68860BFD, 0x6C47164A, 0x61043093, 0x65C52D24,
      0x119B4BE9, 0x155A565E, 0x18197087, 0x1CD86D30, 0x029F3D35, 0x065E2082, 0x0B1D065B, 0x0FDC1BEC,
      0x3793A651, 0x3352BBE6, 0x3E119D3F, 0x3AD08088, 0x2497D08D, 0x2056CD3A, 0x2D15EBE3, 0x29D4F654,
      0xC5A92679, 0xC1683BCE, 0xCC2B1D17, 0xC8EA00A0, 0xD6AD50A5, 0xD26C4D12, 0xDF2F6BCB, 0xDBEE767C,
      0xE3A1CBC1, 0xE760D676, 0xEA23F0AF, 0xEEE2ED18, 0xF0A5BD1D, 0xF464A0AA, 0xF9278673, 0xFDE69BC4,
      0x89B8FD09, 0x8D79E0BE, 0x803AC667, 0x84FBDBD0, 0x9ABC8BD5, 0x9E7D9662, 0x933EB0BB, 0x97FFAD0C,
      0xAFB010B1, 0xAB710D06, 0xA6322BDF, 0xA2F33668, 0xBCB4666D, 0xB8757BDA, 0xB5365D03, 0xB1F740B4
     ]"

fun crc_loop :: "u8 list \<Rightarrow> nat \<Rightarrow> u32 \<Rightarrow> u32 option" where
  "crc_loop ptr 0 crc = Some crc"
| "crc_loop [] (Suc n) crc = None"
| "crc_loop (b # ptr) (Suc n) crc =
     crc_loop ptr n ((c_CRCTable ! unat ((drop_bit 24 crc XOR ucast b) AND 0xFF)) XOR push_bit 8 crc)"

definition SUPPORT_ComputeCRC :: "u8 list \<Rightarrow> int \<Rightarrow> u32 \<Rightarrow> u32 option" where
  "SUPPORT_ComputeCRC rgBlock nLength crc = crc_loop rgBlock (nat nLength) crc"

section \<open>The reference: division by the polynomial\<close>

definition crc_bit :: "u32 \<Rightarrow> u32" where
  "crc_bit c = (if bit c 31 then push_bit 1 c XOR 0x04C11DB7 else push_bit 1 c)"

definition crc_step :: "u32 \<Rightarrow> u8 \<Rightarrow> u32" where
  "crc_step c b = (crc_bit ^^ 8) (c XOR push_bit 24 (ucast b))"

text \<open>
  Two table entries follow from each earlier one: entry \<open>2 i\<close> by one more division step and entry
  \<open>2 i + 1\<close> by adding the polynomial.
\<close>

fun crc_double :: "u32 list \<Rightarrow> u32 list" where
  "crc_double [] = []"
| "crc_double (x # xs) = crc_bit x # (crc_bit x XOR 0x04C11DB7) # crc_double xs"

lemma crc_bit_numeral:
  "crc_bit (numeral n) = (if bit (numeral n :: u32) 31 then numeral (num.Bit0 n) XOR 0x04C11DB7 else numeral (num.Bit0 n))"
  "crc_bit 0 = 0"
proof -
  have "push_bit 1 (numeral n :: u32) = numeral (num.Bit0 n)"
    by (simp only: push_bit_eq_mult power_one_right mult_2_right numeral_Bit0 [of n])
  then show "crc_bit (numeral n) =
    (if bit (numeral n :: u32) 31 then numeral (num.Bit0 n) XOR 0x04C11DB7 else numeral (num.Bit0 n))"
    by (simp only: crc_bit_def)
qed (simp add: crc_bit_def)

lemma table_double: "crc_double (take 128 c_CRCTable) = c_CRCTable"
  unfolding c_CRCTable_def by (simp add: crc_bit_numeral)

lemma table_length [simp]: "length c_CRCTable = 256"
  by (simp add: c_CRCTable_def)

lemma table_0 [simp]: "c_CRCTable ! 0 = 0"
  by (simp add: c_CRCTable_def)

lemma crc_double_nth:
  "i < length xs \<Longrightarrow> crc_double xs ! (2 * i) = crc_bit (xs ! i) \<and>
     crc_double xs ! (2 * i + 1) = crc_bit (xs ! i) XOR 0x04C11DB7"
  by (induction xs arbitrary: i rule: crc_double.induct) (auto simp: nth_Cons split: nat.splits)

lemma table_even: "i < 128 \<Longrightarrow> c_CRCTable ! (2 * i) = crc_bit (c_CRCTable ! i)"
  using crc_double_nth [of i "take 128 c_CRCTable"] by (simp add: table_double)

lemma table_odd: "i < 128 \<Longrightarrow> c_CRCTable ! (2 * i + 1) = crc_bit (c_CRCTable ! i) XOR 0x04C11DB7"
  using crc_double_nth [of i "take 128 c_CRCTable"] by (simp add: table_double)

lemma crc_bit_xor: "crc_bit (a XOR b) = crc_bit a XOR crc_bit b"
  by (auto simp: crc_bit_def bit_xor_iff push_bit_xor ac_simps xor.left_commute)

lemma crc_bits_xor: "(crc_bit ^^ n) (a XOR b) = (crc_bit ^^ n) a XOR (crc_bit ^^ n) b"
  by (induction n) (simp_all add: crc_bit_xor)

lemma crc_bits_0 [simp]: "(crc_bit ^^ n) 0 = 0"
  by (induction n) (simp_all add: crc_bit_numeral)

lemma crc_bits_low: "n + k \<le> 32 \<Longrightarrow> (\<And>j. bit c j \<Longrightarrow> j < k) \<Longrightarrow> (crc_bit ^^ n) c = push_bit n c"
proof (induction n)
  case (Suc n)
  have "\<not> bit (push_bit n c) 31"
    using Suc.prems(1) Suc.prems(2) [of "31 - n"] by (auto simp: bit_push_bit_iff)
  with Suc show ?case by (simp add: crc_bit_def)
qed simp

lemma crc_bit_double:
  assumes "j < 128"
  shows "crc_bit (push_bit 24 (word_of_nat j)) = push_bit 24 (word_of_nat (2 * j))"
proof -
  have "\<not> bit j 7" using assms by (simp add: bit_iff_odd)
  then have "\<not> bit (push_bit 24 (word_of_nat j :: u32)) 31"
    by (simp add: bit_push_bit_iff bit_of_nat_iff)
  then show ?thesis by (simp add: crc_bit_def push_bit_eq_mult ac_simps)
qed

lemma crc_bit_8: "(crc_bit ^^ 8) c =
    crc_bit (crc_bit (crc_bit (crc_bit (crc_bit (crc_bit (crc_bit (crc_bit c)))))))"
  by (simp add: eval_nat_numeral)

lemma crc_poly: "(crc_bit ^^ 8) 0x01000000 = 0x04C11DB7"
  unfolding crc_bit_8 by (simp add: crc_bit_numeral)

lemma table_reference: "i < 256 \<Longrightarrow> c_CRCTable ! i = (crc_bit ^^ 8) (push_bit 24 (word_of_nat i))"
proof (induction i rule: less_induct)
  case (less i)
  define j where "j = i div 2"
  have j: "j < 128" using less.prems by (simp add: j_def)
  have even: "c_CRCTable ! (2 * j) = (crc_bit ^^ 8) (push_bit 24 (word_of_nat (2 * j)))"
  proof (cases "j = 0")
    case False
    then have "j < i" by (simp add: j_def)
    then have "c_CRCTable ! (2 * j) = crc_bit ((crc_bit ^^ 8) (push_bit 24 (word_of_nat j)))"
      using less.IH j by (simp add: table_even)
    then show ?thesis using j by (simp add: funpow_swap1 crc_bit_double)
  qed simp
  show ?case
  proof (cases "even i")
    case True
    then show ?thesis using even by (simp add: j_def)
  next
    case False
    then have i: "i = 2 * j + 1" by (simp add: j_def)
    have "(word_of_nat i :: u32) = word_of_nat (2 * j) XOR 1"
      by (simp add: i xor_one_eq)
    then have "(crc_bit ^^ 8) (push_bit 24 (word_of_nat i)) =
        (crc_bit ^^ 8) (push_bit 24 (word_of_nat (2 * j))) XOR (crc_bit ^^ 8) 0x01000000"
      by (simp add: push_bit_xor crc_bits_xor)
    then show ?thesis using even table_odd [OF j] table_even [OF j] by (simp add: i crc_poly)
  qed
qed

lemma crc_bits_byte:
  "k \<le> 16 \<Longrightarrow> (crc_bit ^^ 8) (push_bit k (ucast (b :: u8))) = push_bit (k + 8) (ucast b)"
  by (subst crc_bits_low [where k = "k + 8"])
    (force simp: bit_simps push_bit_push_bit add.commute dest: bit_imp_le_length)+

lemma mask_8_24: "(0xFF :: u32) = mask 8" "(0x00FFFFFF :: u32) = mask 24"
  by (simp_all add: mask_eq_exp_minus_1)

text \<open>One table lookup is eight division steps.\<close>

lemma table_step:
  "c_CRCTable ! unat ((drop_bit 24 crc XOR ucast b) AND 0xFF) XOR push_bit 8 crc = crc_step crc b"
proof -
  define x where "x = (drop_bit 24 crc XOR ucast b) AND (0xFF :: u32)"
  have x: "x = take_bit 8 x" unfolding x_def mask_8_24 by (simp add: take_bit_eq_mask)
  have "unat x < 256"
    using word_and_le1 [of "drop_bit 24 crc XOR ucast b" "0xFF :: u32"]
    by (simp add: x_def word_le_nat_alt)
  then have "c_CRCTable ! unat x = (crc_bit ^^ 8) (push_bit 24 x)"
    using table_reference [of "unat x"] by simp
  moreover have "(crc_bit ^^ 8) (take_bit 24 crc) = push_bit 8 (take_bit 24 crc)"
    by (rule crc_bits_low [where k = 24]) (auto simp: bit_simps)
  moreover have "push_bit 8 (take_bit 24 crc) = push_bit 8 crc"
    by (rule bit_word_eqI) (auto simp: bit_simps)
  moreover have "crc XOR push_bit 24 (ucast b) = push_bit 24 x XOR take_bit 24 crc"
    unfolding x_def mask_8_24 by (rule bit_word_eqI) (auto simp: bit_simps)
  ultimately show ?thesis by (simp add: x_def [symmetric] crc_bits_xor crc_step_def)
qed

lemma crc_loop_fold:
  "crc_loop bs n crc = (if n \<le> length bs then Some (foldl crc_step crc (take n bs)) else None)"
  by (induction bs n crc rule: crc_loop.induct) (simp_all only: crc_loop.simps table_step, simp_all)

section \<open>Error detection\<close>

lemma crc_bit_eq_0: "crc_bit c = 0 \<Longrightarrow> c = 0"
proof -
  assume z: "crc_bit c = 0"
  have n: "\<not> bit c 31"
  proof
    assume "bit c 31"
    then have "push_bit 1 c XOR 0x04C11DB7 = 0" using z by (simp add: crc_bit_def)
    then have "\<not> bit (push_bit 1 c XOR 0x04C11DB7) 0" by simp
    then show False by (simp add: bit_0 even_xor_iff)
  qed
  then have "push_bit 1 c = 0" using z by (simp add: crc_bit_def)
  show "c = 0"
  proof (rule bit_word_eqI)
    fix k assume k: "k < LENGTH(32)"
    have "\<not> bit (push_bit 1 c) (k + 1)" by (simp only: \<open>push_bit 1 c = 0\<close>) simp
    then have "\<not> (k + 1 < 32 \<and> bit c k)" unfolding bit_push_bit_iff by simp
    then show "bit c k \<longleftrightarrow> bit (0 :: u32) k"
      using n k by (cases "k = 31") auto
  qed
qed

lemma crc_bits_eq_0: "(crc_bit ^^ n) c = 0 \<Longrightarrow> c = 0"
  by (induction n) (auto dest: crc_bit_eq_0)

lemma xor_eq_0_iff: "a XOR b = 0 \<longleftrightarrow> a = (b :: u32)"
proof
  assume "a XOR b = 0"
  then have "(a XOR b) XOR b = 0 XOR b" by (simp only:)
  then show "a = b" by (simp add: xor.assoc)
qed simp

lemma crc_bits_inj: "(crc_bit ^^ n) a = (crc_bit ^^ n) b \<Longrightarrow> a = b"
  using crc_bits_eq_0 [of n "a XOR b"] by (simp add: crc_bits_xor xor_eq_0_iff)

lemma xor_right_cancel: "a XOR p = c XOR p \<longleftrightarrow> a = (c :: u32)"
proof
  assume "a XOR p = c XOR p"
  then have "(a XOR p) XOR p = (c XOR p) XOR p" by (simp only:)
  then show "a = c" by (simp add: xor.assoc)
qed simp

lemma crc_step_inj: "crc_step a b = crc_step c b \<Longrightarrow> a = c"
  unfolding crc_step_def by (drule crc_bits_inj) (simp only: xor_right_cancel)

lemma crc_fold_inj: "foldl crc_step a bs = foldl crc_step c bs \<Longrightarrow> a = c"
  by (induction bs arbitrary: a c) (simp_all, blast dest: crc_step_inj)

text \<open>Four bytes in a row enter the checksum as one 32-bit word.\<close>

definition be_word :: "u8 \<Rightarrow> u8 \<Rightarrow> u8 \<Rightarrow> u8 \<Rightarrow> u32" where
  "be_word a b c d = push_bit 24 (ucast a) XOR push_bit 16 (ucast b) XOR push_bit 8 (ucast c) XOR ucast d"

lemma crc_four:
  "foldl crc_step crc [a, b, c, d] = (crc_bit ^^ 32) (crc XOR be_word a b c d)"
proof -
  have f: "(crc_bit ^^ 32) x = (crc_bit ^^ 8) ((crc_bit ^^ 8) ((crc_bit ^^ 8) ((crc_bit ^^ 8) x)))" for x
    by (simp flip: funpow_add comp_apply [of "crc_bit ^^ 8"] add: comp_def [symmetric])
  have s: "(crc_bit ^^ 8) (push_bit 16 (ucast x)) = push_bit 24 (ucast x)"
    "(crc_bit ^^ 8) (push_bit 8 (ucast x)) = push_bit 16 (ucast x)"
    "(crc_bit ^^ 8) (ucast x) = push_bit 8 (ucast x)" for x :: u8
    using crc_bits_byte [of 16 x] crc_bits_byte [of 8 x] crc_bits_byte [of 0 x] by simp_all
  show ?thesis by (simp add: f be_word_def crc_step_def crc_bits_xor s xor.assoc)
qed

lemma be_word_inj:
  assumes "be_word a b c d = be_word a' b' c' d'"
  shows "a = a' \<and> b = b' \<and> c = c' \<and> d = d'"
proof -
  have "bit (be_word a b c d) k = bit (be_word a' b' c' d') k" for k using assms by simp
  note k = this [unfolded be_word_def bit_xor_iff bit_push_bit_iff bit_ucast_iff]
  have z: "\<not> bit x (8 + n)" "\<not> bit x (16 + n)" "\<not> bit x (n + 24)" "\<not> bit x (n + 8)"
    "\<not> bit x (n + 16)" for x :: u8 and n
    by (auto dest: bit_imp_le_length)
  have "bit a n = bit a' n" if "n < 8" for n using k [of "n + 24"] that by (simp add: z)
  moreover have "bit b n = bit b' n" if "n < 8" for n using k [of "n + 16"] that by (simp add: z)
  moreover have "bit c n = bit c' n" if "n < 8" for n using k [of "n + 8"] that by (simp add: z)
  moreover have "bit d n = bit d' n" if "n < 8" for n using k [of n] that by simp
  ultimately show ?thesis by (auto intro!: bit_word_eqI)
qed

section \<open>Assembly images\<close>

record CLR_RECORD_VERSION =
  iMajorVersion :: u16
  iMinorVersion :: u16
  iBuildNumber :: u16
  iRevisionNumber :: u16

record CLR_RECORD_ASSEMBLY =
  a_marker :: "u8 list"
  a_headerCRC :: u32
  a_assemblyCRC :: u32
  a_flags :: u32
  a_nativeMethodsChecksum :: u32
  a_patchEntryOffset :: u32
  a_version :: CLR_RECORD_VERSION
  a_assemblyName :: u16
  a_stringTableVersion :: u16
  a_startOfTables :: "u32 list"
  a_numOfPatchedMethods :: u32
  a_paddingOfTables :: "u8 list"

definition TBL_Max_len :: nat where "TBL_Max_len = 16"
definition TBL_EndOfAssembly_idx :: nat where "TBL_EndOfAssembly_idx = 15"
definition c_Flags_BigEndian :: u32 where "c_Flags_BigEndian = 0x80000080"

text \<open>The bytes of the structures as a little-endian target lays them out, without padding.\<close>

definition bytes16 :: "u16 \<Rightarrow> u8 list" where
  "bytes16 w = [ucast w, ucast (drop_bit 8 w)]"

definition bytes32 :: "u32 \<Rightarrow> u8 list" where
  "bytes32 w = [ucast w, ucast (drop_bit 8 w), ucast (drop_bit 16 w), ucast (drop_bit 24 w)]"

definition version_bytes :: "CLR_RECORD_VERSION \<Rightarrow> u8 list" where
  "version_bytes v = bytes16 (iMajorVersion v) @ bytes16 (iMinorVersion v)
     @ bytes16 (iBuildNumber v) @ bytes16 (iRevisionNumber v)"

definition asm_bytes :: "CLR_RECORD_ASSEMBLY \<Rightarrow> u8 list" where
  "asm_bytes h = a_marker h @ bytes32 (a_headerCRC h) @ bytes32 (a_assemblyCRC h)
     @ bytes32 (a_flags h) @ bytes32 (a_nativeMethodsChecksum h) @ bytes32 (a_patchEntryOffset h)
     @ version_bytes (a_version h) @ bytes16 (a_assemblyName h) @ bytes16 (a_stringTableVersion h)
     @ concat (map bytes32 (a_startOfTables h)) @ bytes32 (a_numOfPatchedMethods h)
     @ a_paddingOfTables h"

definition sizeof_CLR_RECORD_ASSEMBLY :: u32 where "sizeof_CLR_RECORD_ASSEMBLY = 124"

definition asm_wf :: "CLR_RECORD_ASSEMBLY \<Rightarrow> bool" where
  "asm_wf h \<longleftrightarrow> length (a_marker h) = 8 \<and> length (a_startOfTables h) = TBL_Max_len \<and>
     length (a_paddingOfTables h) = 16"

definition SizeOfTable :: "CLR_RECORD_ASSEMBLY \<Rightarrow> nat \<Rightarrow> u32" where
  "SizeOfTable h tbl =
     a_startOfTables h ! (tbl + 1) - a_startOfTables h ! tbl - ucast (a_paddingOfTables h ! tbl)"

definition TotalSize :: "CLR_RECORD_ASSEMBLY \<Rightarrow> u32" where
  "TotalSize h = a_startOfTables h ! TBL_EndOfAssembly_idx"

text \<open>\<open>''MSSpot1''\<close> and its terminating zero: eight bytes.\<close>

definition c_MARKER_ASSEMBLY_V1 :: "u8 list" where
  "c_MARKER_ASSEMBLY_V1 = [77, 83, 83, 112, 111, 116, 49, 0]"

definition c_CLR_StringTable_Version :: u16 where "c_CLR_StringTable_Version = 1"

definition GoodHeader :: "CLR_RECORD_ASSEMBLY \<Rightarrow> bool" where
  "GoodHeader h =
     (if a_flags h AND c_Flags_BigEndian = c_Flags_BigEndian then False
      else if SUPPORT_ComputeCRC (asm_bytes (h\<lparr>a_headerCRC := 0\<rparr>)) 124 0 \<noteq> Some (a_headerCRC h)
      then False
      else if a_stringTableVersion h \<noteq> c_CLR_StringTable_Version then False
      else a_marker h = c_MARKER_ASSEMBLY_V1)"

text \<open>The body is the memory behind the header; None is a read past its end.\<close>

definition GoodAssembly :: "CLR_RECORD_ASSEMBLY \<Rightarrow> u8 list \<Rightarrow> bool option" where
  "GoodAssembly h body =
     (if \<not> GoodHeader h then Some False
      else case SUPPORT_ComputeCRC body (sint (TotalSize h - sizeof_CLR_RECORD_ASSEMBLY)) 0 of
             None \<Rightarrow> None
           | Some c \<Rightarrow> Some (c = a_assemblyCRC h))"

definition ComputeCRC :: "CLR_RECORD_ASSEMBLY \<Rightarrow> u8 list \<Rightarrow> CLR_RECORD_ASSEMBLY option" where
  "ComputeCRC h body =
     (let h = h\<lparr>a_marker := c_MARKER_ASSEMBLY_V1, a_headerCRC := 0\<rparr>
      in case SUPPORT_ComputeCRC body (sint (TotalSize h - sizeof_CLR_RECORD_ASSEMBLY)) 0 of
           None \<Rightarrow> None
         | Some c \<Rightarrow>
             (let h = h\<lparr>a_assemblyCRC := c\<rparr>
              in case SUPPORT_ComputeCRC (asm_bytes h) 124 0 of
                   None \<Rightarrow> None
                 | Some c \<Rightarrow> Some (h\<lparr>a_headerCRC := c\<rparr>)))"

text \<open>\<open>hal_strlen_s\<close> stops at the first zero byte; the name given here is the text before it.\<close>

definition ComputeAssemblyHash :: "u8 list \<Rightarrow> CLR_RECORD_VERSION \<Rightarrow> u32 option" where
  "ComputeAssemblyHash name ver =
     (case SUPPORT_ComputeCRC name (int (length name)) 0 of
        None \<Rightarrow> None
      | Some c \<Rightarrow> SUPPORT_ComputeCRC (version_bytes ver) 8 c)"

lemma bytes_length [simp]: "length (bytes16 a) = 2" "length (bytes32 b) = 4" "length (version_bytes v) = 8"
  by (simp_all add: bytes16_def bytes32_def version_bytes_def)

lemma concat_bytes32_length [simp]: "length (concat (map bytes32 xs)) = 4 * length xs"
  by (induction xs) simp_all

lemma asm_bytes_length: "asm_wf h \<Longrightarrow> length (asm_bytes h) = 124"
  by (simp add: asm_bytes_def asm_wf_def TBL_Max_len_def)

lemma ComputeCRC_total: "nat n \<le> length bs \<Longrightarrow>
    SUPPORT_ComputeCRC bs n crc = Some (foldl crc_step crc (take (nat n) bs))"
  by (simp add: SUPPORT_ComputeCRC_def crc_loop_fold)

lemma crc_burst:
  assumes "length us = 4" "length vs = 4" "us \<noteq> vs"
  shows "SUPPORT_ComputeCRC (xs @ us @ ys) (int (length xs + 4 + length ys)) crc \<noteq>
    SUPPORT_ComputeCRC (xs @ vs @ ys) (int (length xs + 4 + length ys)) crc"
proof
  assume eq: "SUPPORT_ComputeCRC (xs @ us @ ys) (int (length xs + 4 + length ys)) crc =
    SUPPORT_ComputeCRC (xs @ vs @ ys) (int (length xs + 4 + length ys)) crc"
  obtain a b c d where us: "us = [a, b, c, d]"
    using assms(1) by (auto simp: numeral_eq_Suc length_Suc_conv)
  obtain a' b' c' d' where vs: "vs = [a', b', c', d']"
    using assms(2) by (auto simp: numeral_eq_Suc length_Suc_conv)
  have "foldl crc_step crc (xs @ us @ ys) = foldl crc_step crc (xs @ vs @ ys)"
    using eq assms(1,2) unfolding SUPPORT_ComputeCRC_def nat_int crc_loop_fold by simp
  then have "foldl crc_step (foldl crc_step (foldl crc_step crc xs) us) ys =
      foldl crc_step (foldl crc_step (foldl crc_step crc xs) vs) ys" by (simp only: foldl_append)
  then have "foldl crc_step (foldl crc_step crc xs) us = foldl crc_step (foldl crc_step crc xs) vs"
    by (rule crc_fold_inj)
  then have "foldl crc_step crc xs XOR be_word a b c d = foldl crc_step crc xs XOR be_word a' b' c' d'"
    unfolding us vs crc_four by (rule crc_bits_inj)
  then have "be_word a b c d = be_word a' b' c' d'"
    by (metis xor.commute xor_right_cancel)
  then show False using assms(3) be_word_inj us vs by blast
qed

section \<open>Properties\<close>

text \<open>
  C15. The table-driven checksum is the bit-by-bit remainder: for every block, length and start
  value \<open>SUPPORT_ComputeCRC\<close> gives the result of eight division steps per byte, and it reads
  outside the block exactly when the length exceeds it. A length that is not positive leaves the
  checksum as it was.
\<close>

theorem crc_is_polynomial_division:
  "SUPPORT_ComputeCRC bs n crc =
     (if n \<le> int (length bs)
      then Some (foldl (\<lambda>c b. (crc_bit ^^ 8) (c XOR push_bit 24 (ucast b))) crc (take (nat n) bs))
      else None)"
proof -
  have "crc_step = (\<lambda>c b. (crc_bit ^^ 8) (c XOR push_bit 24 (ucast b)))"
    by (simp add: fun_eq_iff crc_step_def)
  moreover have "nat n \<le> length bs \<longleftrightarrow> n \<le> int (length bs)" by (simp add: nat_le_iff)
  ultimately show ?thesis by (simp only: SUPPORT_ComputeCRC_def crc_loop_fold)
qed

text \<open>
  C16. Every change confined to four consecutive bytes of a block is detected: two blocks that
  differ only there have different checksums, whatever the start value.
\<close>

theorem crc_detects_burst:
  assumes "length us = 4" "length vs = 4" "us \<noteq> vs"
  shows "SUPPORT_ComputeCRC (xs @ us @ ys) (int (length xs + 4 + length ys)) crc \<noteq>
    SUPPORT_ComputeCRC (xs @ vs @ ys) (int (length xs + 4 + length ys)) crc"
  using assms by (rule crc_burst)

theorem crc_detects_burst_witness:
  "SUPPORT_ComputeCRC ([1, 2] @ [3, 4, 5, 6] @ [7]) 7 0 \<noteq> SUPPORT_ComputeCRC ([1, 2] @ [3, 9, 5, 6] @ [7]) 7 0"
  using crc_detects_burst [of "[3, 4, 5, 6]" "[3, 9, 5, 6]" "[1, 2]" "[7]" 0] by simp

text \<open>
  Sealing and checking an assembly agree: after \<open>ComputeCRC\<close> on an image with the right
  string table version and byte order, \<open>GoodAssembly\<close> accepts it, and it rejects the same header
  with any body that differs within four consecutive bytes of the part covered by the size.
\<close>

theorem assembly_seal_check:
  assumes "asm_wf h" "a_stringTableVersion h = c_CLR_StringTable_Version"
    and "a_flags h AND c_Flags_BigEndian \<noteq> c_Flags_BigEndian"
    and "sint (TotalSize h - sizeof_CLR_RECORD_ASSEMBLY) = int (length xs + 4 + length ys)"
    and "length us = 4" "length vs = 4" "us \<noteq> vs"
  shows "\<exists>h'. ComputeCRC h (xs @ us @ ys) = Some h' \<and>
    GoodAssembly h' (xs @ us @ ys) = Some True \<and> GoodAssembly h' (xs @ vs @ ys) = Some False"
proof -
  define h0 where "h0 = h\<lparr>a_marker := c_MARKER_ASSEMBLY_V1, a_headerCRC := 0\<rparr>"
  let ?n = "int (length xs + 4 + length ys)"
  have tot: "TotalSize (h0\<lparr>a_assemblyCRC := c\<rparr>) = TotalSize h" "TotalSize h0 = TotalSize h" for c
    by (simp_all add: h0_def TotalSize_def)
  obtain c where c: "SUPPORT_ComputeCRC (xs @ us @ ys) ?n 0 = Some c"
    using assms(5) ComputeCRC_total [of ?n "xs @ us @ ys" 0] by simp
  obtain c' where c': "SUPPORT_ComputeCRC (xs @ vs @ ys) ?n 0 = Some c'"
    using assms(6) ComputeCRC_total [of ?n "xs @ vs @ ys" 0] by simp
  have "c \<noteq> c'" using crc_burst [OF assms(5-7), of xs ys 0] c c' by simp
  have "asm_wf (h0\<lparr>a_assemblyCRC := c\<rparr>)"
    using assms(1) by (simp add: asm_wf_def h0_def c_MARKER_ASSEMBLY_V1_def)
  then obtain d where d: "SUPPORT_ComputeCRC (asm_bytes (h0\<lparr>a_assemblyCRC := c\<rparr>)) 124 0 = Some d"
    using ComputeCRC_total [of 124 "asm_bytes (h0\<lparr>a_assemblyCRC := c\<rparr>)" 0] asm_bytes_length by simp
  define h' where "h' = h0\<lparr>a_assemblyCRC := c, a_headerCRC := d\<rparr>"
  have "ComputeCRC h (xs @ us @ ys) = Some h'"
    using c d assms(4) tot by (simp add: ComputeCRC_def h0_def [symmetric] Let_def h'_def)
  have "h'\<lparr>a_headerCRC := 0\<rparr> = h0\<lparr>a_assemblyCRC := c\<rparr>" by (simp add: h'_def h0_def)
  then have "SUPPORT_ComputeCRC (asm_bytes (h'\<lparr>a_headerCRC := 0\<rparr>)) 124 0 = Some (a_headerCRC h')"
    using d by (simp only: \<open>h'\<lparr>a_headerCRC := 0\<rparr> = h0\<lparr>a_assemblyCRC := c\<rparr>\<close>) (simp add: h'_def)
  moreover have "a_flags h' = a_flags h" "a_stringTableVersion h' = a_stringTableVersion h"
    "a_marker h' = c_MARKER_ASSEMBLY_V1" by (simp_all add: h'_def h0_def)
  ultimately have "GoodHeader h'" using assms(2,3) by (simp add: GoodHeader_def)
  have "TotalSize h' = TotalSize h" by (simp add: h'_def h0_def TotalSize_def)
  moreover have "a_assemblyCRC h' = c" by (simp add: h'_def)
  moreover note \<open>ComputeCRC h (xs @ us @ ys) = Some h'\<close> \<open>GoodHeader h'\<close>
  ultimately show ?thesis using c c' \<open>c \<noteq> c'\<close> assms(4) by (simp add: GoodAssembly_def)
qed

definition asm_example :: CLR_RECORD_ASSEMBLY where
  "asm_example = \<lparr>a_marker = replicate 8 0, a_headerCRC = 0, a_assemblyCRC = 0, a_flags = 0,
     a_nativeMethodsChecksum = 0, a_patchEntryOffset = 0,
     a_version = \<lparr>iMajorVersion = 4, iMinorVersion = 2, iBuildNumber = 0, iRevisionNumber = 0\<rparr>,
     a_assemblyName = 0, a_stringTableVersion = 1, a_startOfTables = replicate 16 129,
     a_numOfPatchedMethods = 0, a_paddingOfTables = replicate 16 0\<rparr>"

theorem assembly_seal_check_witness:
  "\<exists>h'. ComputeCRC asm_example ([] @ [1, 2, 3, 4] @ [5]) = Some h' \<and>
    GoodAssembly h' ([] @ [1, 2, 3, 4] @ [5]) = Some True \<and>
    GoodAssembly h' ([] @ [1, 7, 3, 4] @ [5]) = Some False"
  by (rule assembly_seal_check)
    (simp_all add: asm_example_def asm_wf_def TBL_Max_len_def c_CLR_StringTable_Version_def
      c_Flags_BigEndian_def TotalSize_def TBL_EndOfAssembly_idx_def sizeof_CLR_RECORD_ASSEMBLY_def)

end
