(* ===== verification/ClrMeta.thy ===== *)
theory ClrMeta
  imports Crc
begin

text \<open>
  Metadata encodings of the CLR (\<open>CLR/Include/TinyCLR_Types.h\<close>): tokens, their 16-bit compressed
  form (written by \<open>CLR/Tools/Parser/ByteCodeParser_Save.cpp\<close>), the variable-length integers and
  the unaligned reads of the byte-code stream, and the signature parser of
  \<open>CLR/Core/TypeSystem.cpp\<close> built on them. A pointer into metadata is the list of the bytes from
  there on; reading past the end of the image, or outside a lookup table, is the value None.
\<close>

section \<open>Tokens\<close>

text \<open>\<open>CLR_TABLESENUM\<close> values are unchecked casts of 32-bit numbers, so they are numbers here.\<close>

definition TBL_TypeRef :: u32 where "TBL_TypeRef = 1"
definition TBL_FieldRef :: u32 where "TBL_FieldRef = 2"
definition TBL_MethodRef :: u32 where "TBL_MethodRef = 3"
definition TBL_TypeDef :: u32 where "TBL_TypeDef = 4"
definition TBL_FieldDef :: u32 where "TBL_FieldDef = 5"
definition TBL_MethodDef :: u32 where "TBL_MethodDef = 6"
definition TBL_TypeSpec :: u32 where "TBL_TypeSpec = 8"
definition TBL_Strings :: u32 where "TBL_Strings = 0xB"
definition TBL_Max :: u32 where "TBL_Max = 0x10"

lemmas tbl_defs = TBL_TypeRef_def TBL_FieldRef_def TBL_MethodRef_def TBL_TypeDef_def
  TBL_FieldDef_def TBL_MethodDef_def TBL_TypeSpec_def TBL_Strings_def TBL_Max_def

definition CLR_DataFromTk :: "u32 \<Rightarrow> u32" where
  "CLR_DataFromTk tk = tk AND 0x00FFFFFF"

definition CLR_TypeFromTk :: "u32 \<Rightarrow> u32" where
  "CLR_TypeFromTk tk = drop_bit 24 tk"

definition CLR_TkFromType :: "u32 \<Rightarrow> u32 \<Rightarrow> u32" where
  "CLR_TkFromType tbl data = (push_bit 24 tbl AND 0xFF000000) OR (data AND 0x00FFFFFF)"

definition CLR_UncompressStringToken :: "u32 \<Rightarrow> u32" where
  "CLR_UncompressStringToken tk = CLR_TkFromType TBL_Strings tk"

text \<open>The table of \<open>CLR_UncompressTypeToken\<close> has three entries for a two-bit index.\<close>

definition CLR_UncompressTypeToken :: "u32 \<Rightarrow> u32 option" where
  "CLR_UncompressTypeToken tk =
     (let i = unat (drop_bit 14 tk AND 3)
      in if i < 3 then Some (CLR_TkFromType ([TBL_TypeDef, TBL_TypeRef, TBL_TypeSpec] ! i) (0x3FFF AND tk))
         else None)"

definition CLR_UncompressFieldToken :: "u32 \<Rightarrow> u32" where
  "CLR_UncompressFieldToken tk =
     CLR_TkFromType ([TBL_FieldDef, TBL_FieldRef] ! unat (drop_bit 15 tk AND 1)) (0x7FFF AND tk)"

definition CLR_UncompressMethodToken :: "u32 \<Rightarrow> u32" where
  "CLR_UncompressMethodToken tk =
     CLR_TkFromType ([TBL_MethodDef, TBL_MethodRef] ! unat (drop_bit 15 tk AND 1)) (0x7FFF AND tk)"

text \<open>The search of \<open>CLR_CompressTokenHelper\<close> for the token's table.\<close>

fun find_table :: "u32 \<Rightarrow> u32 list \<Rightarrow> nat \<Rightarrow> nat option" where
  "find_table tbl [] i = None"
| "find_table tbl (t # ts) i = (if tbl = t then Some i else find_table tbl ts (i + 1))"

definition CLR_CompressTokenHelper :: "u32 list \<Rightarrow> u32 \<Rightarrow> bool \<Rightarrow> u32 option" where
  "CLR_CompressTokenHelper tables tk fBigEndian =
     (case find_table (CLR_TypeFromTk tk) tables 0 of
        None \<Rightarrow> None
      | Some iTable \<Rightarrow>
          if length tables < 1 \<or> length tables > 3 then None
          else let cBitsTable = length tables - 1;
                   tk = push_bit (16 - cBitsTable) (of_nat iTable)
                          OR (tk AND drop_bit cBitsTable 0xFFFF)
               in Some (if fBigEndian then push_bit 8 (tk AND 0xFF) OR (drop_bit 8 tk AND 0xFF) else tk))"

definition CLR_CompressStringToken :: "u32 \<Rightarrow> bool \<Rightarrow> u32 option" where
  "CLR_CompressStringToken tk be = CLR_CompressTokenHelper [TBL_Strings] tk be"

definition CLR_CompressTypeToken :: "u32 \<Rightarrow> bool \<Rightarrow> u32 option" where
  "CLR_CompressTypeToken tk be = CLR_CompressTokenHelper [TBL_TypeDef, TBL_TypeRef, TBL_TypeSpec] tk be"

definition CLR_CompressFieldToken :: "u32 \<Rightarrow> bool \<Rightarrow> u32 option" where
  "CLR_CompressFieldToken tk be = CLR_CompressTokenHelper [TBL_FieldDef, TBL_FieldRef] tk be"

definition CLR_CompressMethodToken :: "u32 \<Rightarrow> bool \<Rightarrow> u32 option" where
  "CLR_CompressMethodToken tk be = CLR_CompressTokenHelper [TBL_MethodDef, TBL_MethodRef] tk be"

section \<open>Variable-length integers and unaligned reads\<close>

definition CLR_CompressData :: "u32 \<Rightarrow> u8 list option" where
  "CLR_CompressData val =
     (if val \<le> 0x7F then Some [ucast val]
      else if val \<le> 0x3FFF then Some [ucast (drop_bit 8 val OR 0x80), ucast val]
      else if val \<le> 0x1FFFFFFF
      then Some [ucast (drop_bit 24 val OR 0xC0), ucast (drop_bit 16 val), ucast (drop_bit 8 val), ucast val]
      else None)"

fun CLR_UncompressData :: "u8 list \<Rightarrow> (u32 \<times> u8 list) option" where
  "CLR_UncompressData [] = None"
| "CLR_UncompressData (b # ptr) =
     (let val = ucast b :: u32
      in if val AND 0x80 = 0 then Some (val, ptr)
         else if val AND 0xC0 = 0x80
         then (case ptr of
                 b1 # ptr \<Rightarrow> Some (push_bit 8 (val AND 0x3F) OR ucast b1, ptr)
               | [] \<Rightarrow> None)
         else (case ptr of
                 b1 # b2 # b3 # ptr \<Rightarrow>
                   Some (push_bit 24 (val AND 0x1F) OR push_bit 16 (ucast b1) OR push_bit 8 (ucast b2)
                           OR ucast b3, ptr)
               | _ \<Rightarrow> None))"

fun CLR_UncompressElementType :: "u8 list \<Rightarrow> (u8 \<times> u8 list) option" where
  "CLR_UncompressElementType [] = None"
| "CLR_UncompressElementType (b # p) = Some (b, p)"

definition CLR_TkFromStream :: "u8 list \<Rightarrow> (u32 \<times> u8 list) option" where
  "CLR_TkFromStream p =
     (case CLR_UncompressData p of
        None \<Rightarrow> None
      | Some (data, p) \<Rightarrow>
          Some (CLR_TkFromType ([TBL_TypeDef, TBL_TypeRef, TBL_TypeSpec, TBL_Max] ! unat (data AND 3))
                  (drop_bit 2 data), p))"

text \<open>The argument \<open>be\<close> says whether the build has \<open>BIG_ENDIAN\<close>.\<close>

fun READ_UNALIGNED_UINT16 :: "bool \<Rightarrow> u8 list \<Rightarrow> (u32 \<times> u8 list) option" where
  "READ_UNALIGNED_UINT16 be (a # b # ip) =
     Some (if be then push_bit 8 (ucast a) OR ucast b else ucast a OR push_bit 8 (ucast b), ip)"
| "READ_UNALIGNED_UINT16 be _ = None"

fun READ_UNALIGNED_UINT32 :: "bool \<Rightarrow> u8 list \<Rightarrow> (u32 \<times> u8 list) option" where
  "READ_UNALIGNED_UINT32 be (a # b # c # d # ip) =
     Some (if be then push_bit 24 (ucast a) OR push_bit 16 (ucast b) OR push_bit 8 (ucast c) OR ucast d
           else ucast a OR push_bit 8 (ucast b) OR push_bit 16 (ucast c) OR push_bit 24 (ucast d), ip)"
| "READ_UNALIGNED_UINT32 be _ = None"

fun READ_UNALIGNED_UINT64 :: "bool \<Rightarrow> u8 list \<Rightarrow> (u64 \<times> u8 list) option" where
  "READ_UNALIGNED_UINT64 be (a # b # c # d # e # f # g # h # ip) =
     Some (if be
           then push_bit 56 (ucast a) OR push_bit 48 (ucast b) OR push_bit 40 (ucast c)
                  OR push_bit 32 (ucast d) OR push_bit 24 (ucast e) OR push_bit 16 (ucast f)
                  OR push_bit 8 (ucast g) OR ucast h
           else ucast a OR push_bit 8 (ucast b) OR push_bit 16 (ucast c) OR push_bit 24 (ucast d)
                  OR push_bit 32 (ucast e) OR push_bit 40 (ucast f) OR push_bit 48 (ucast g)
                  OR push_bit 56 (ucast h), ip)"
| "READ_UNALIGNED_UINT64 be _ = None"

text \<open>The signed reads go through the unsigned value and sign-extend it.\<close>

definition READ_UNALIGNED_INT16 :: "bool \<Rightarrow> u8 list \<Rightarrow> (u32 \<times> u8 list) option" where
  "READ_UNALIGNED_INT16 be ip = map_option (\<lambda>(arg, ip). (signed_take_bit 15 arg, ip)) (READ_UNALIGNED_UINT16 be ip)"

definition READ_UNALIGNED_INT32 :: "bool \<Rightarrow> u8 list \<Rightarrow> (u32 \<times> u8 list) option" where
  "READ_UNALIGNED_INT32 be ip = READ_UNALIGNED_UINT32 be ip"

definition READ_UNALIGNED_INT64 :: "bool \<Rightarrow> u8 list \<Rightarrow> (u64 \<times> u8 list) option" where
  "READ_UNALIGNED_INT64 be ip = READ_UNALIGNED_UINT64 be ip"

definition READ_COMPRESSED_FIELDTOKEN :: "bool \<Rightarrow> u8 list \<Rightarrow> (u32 \<times> u8 list) option" where
  "READ_COMPRESSED_FIELDTOKEN be ip =
     map_option (\<lambda>(arg, ip). (CLR_UncompressFieldToken arg, ip)) (READ_UNALIGNED_UINT16 be ip)"

definition READ_COMPRESSED_METHODTOKEN :: "bool \<Rightarrow> u8 list \<Rightarrow> (u32 \<times> u8 list) option" where
  "READ_COMPRESSED_METHODTOKEN be ip =
     map_option (\<lambda>(arg, ip). (CLR_UncompressMethodToken arg, ip)) (READ_UNALIGNED_UINT16 be ip)"

definition READ_COMPRESSED_TYPETOKEN :: "bool \<Rightarrow> u8 list \<Rightarrow> (u32 \<times> u8 list) option" where
  "READ_COMPRESSED_TYPETOKEN be ip =
     (case READ_UNALIGNED_UINT16 be ip of
        None \<Rightarrow> None
      | Some (arg, ip) \<Rightarrow> map_option (\<lambda>tk. (tk, ip)) (CLR_UncompressTypeToken arg))"

definition READ_COMPRESSED_STRINGTOKEN :: "bool \<Rightarrow> u8 list \<Rightarrow> (u32 \<times> u8 list) option" where
  "READ_COMPRESSED_STRINGTOKEN be ip =
     map_option (\<lambda>(arg, ip). (CLR_UncompressStringToken arg, ip)) (READ_UNALIGNED_UINT16 be ip)"

text \<open>
  An opcode is one byte, or two after the escape byte \<open>CEE_PREFIX1\<close> (a value of the generated
  opcode table, so an argument).
\<close>

fun CLR_ReadNextOpcode :: "u8 \<Rightarrow> u8 list \<Rightarrow> (u32 \<times> u8 list) option" where
  "CLR_ReadNextOpcode CEE_PREFIX1 [] = None"
| "CLR_ReadNextOpcode CEE_PREFIX1 (b # ptr) =
     (if b = CEE_PREFIX1
      then (case ptr of [] \<Rightarrow> None | c # ptr \<Rightarrow> Some (ucast c + 256, ptr))
      else Some (ucast b, ptr))"

section \<open>Round trips\<close>

lemma masks:
  "(0xFF000000 :: u32) = push_bit 24 (mask 8)" "(0x3FFF :: u32) = mask 14" "(0x7FFF :: u32) = mask 15"
  "(0xFFFF :: u32) = mask 16" "(3 :: u32) = mask 2" "(0x7F :: u32) = mask 7"
  "(0x3F :: u32) = mask 6" "(0x1F :: u32) = mask 5" "(0x1FFFFFFF :: u32) = mask 29"
  by (simp_all add: mask_eq_exp_minus_1 push_bit_eq_mult)

lemma le_mask_iff: "n \<le> 32 \<Longrightarrow> (w :: u32) \<le> mask n \<longleftrightarrow> take_bit n w = w"
  by (simp add: take_bit_eq_mask mask_eq_iff word_le_def uint_mask_eq min_absorb2
      mask_eq_exp_minus_1 [where 'a = int])

lemma le_mask_bit: "n \<le> 32 \<Longrightarrow> (w :: u32) \<le> mask n \<Longrightarrow> bit w k \<Longrightarrow> k < n"
  using bit_take_bit_iff [of n w k] by (simp add: le_mask_iff)

lemma CLR_Tk_parts:
  "tbl \<le> mask 8 \<Longrightarrow> CLR_TypeFromTk (CLR_TkFromType tbl data) = tbl"
  "CLR_DataFromTk (CLR_TkFromType tbl data) = data AND mask 24"
  unfolding CLR_TypeFromTk_def CLR_DataFromTk_def CLR_TkFromType_def mask_8_24 masks
  by (rule bit_word_eqI, force simp: bit_simps dest: le_mask_bit [rotated])+

lemma CLR_Tk_surjective: "CLR_TkFromType (CLR_TypeFromTk tk) (CLR_DataFromTk tk) = tk"
  unfolding CLR_TypeFromTk_def CLR_DataFromTk_def CLR_TkFromType_def mask_8_24 masks
  by (rule bit_word_eqI) (auto simp: bit_simps)

lemma CLR_TkFromType_eq_iff:
  assumes "tbl \<le> mask 8" "data \<le> mask 24"
  shows "CLR_TkFromType tbl data = tk \<longleftrightarrow> tbl = CLR_TypeFromTk tk \<and> data = CLR_DataFromTk tk"
proof
  assume "CLR_TkFromType tbl data = tk"
  then show "tbl = CLR_TypeFromTk tk \<and> data = CLR_DataFromTk tk"
    using CLR_Tk_parts [of tbl data] assms by (auto simp: le_mask_iff take_bit_eq_mask)
qed (simp add: CLR_Tk_surjective)

text \<open>The compressed form of a token: the table's index in the top bits, the low bits of the token below.\<close>

lemma compressed_parts:
  assumes "i < 2 ^ n" "n \<le> 2"
  shows "drop_bit (16 - n) (push_bit (16 - n) (of_nat i) OR (tk AND drop_bit n (mask 16))) = (of_nat i :: u32)"
    and "mask (16 - n) AND (push_bit (16 - n) (of_nat i) OR (tk AND drop_bit n (mask 16))) = (tk AND mask (16 - n) :: u32)"
proof -
  note z = bit_less_exp [OF assms(1)]
  show "drop_bit (16 - n) (push_bit (16 - n) (of_nat i) OR (tk AND drop_bit n (mask 16))) = (of_nat i :: u32)"
    by (rule bit_word_eqI) (use assms(2) in \<open>auto simp: bit_simps dest: z\<close>)
  show "mask (16 - n) AND (push_bit (16 - n) (of_nat i) OR (tk AND drop_bit n (mask 16))) = (tk AND mask (16 - n) :: u32)"
    by (rule bit_word_eqI) (use assms(2) in \<open>auto simp: bit_simps\<close>)
qed

lemma read16_write16:
  assumes "w \<le> mask 16"
  shows "READ_UNALIGNED_UINT16 be
     (bytes16 (ucast (if be then push_bit 8 (w AND 0xFF) OR (drop_bit 8 w AND 0xFF) else w)) @ ip) = Some (w, ip)"
proof -
  have z: "n < 16" if "bit w n" for n using le_mask_bit [of 16 w n] assms that by simp
  have "(ucast (ucast w16 :: u8) OR push_bit 8 (ucast (ucast (drop_bit 8 w16) :: u8)) :: u32) = w"
    if "w16 = (ucast w :: u16)" for w16
    unfolding that
  proof (rule bit_word_eqI)
    fix n :: nat
    consider "n < 8" | "8 \<le> n" "n < 16" | "\<not> bit w n" "16 \<le> n" using z [of n] by linarith
    then show "bit (ucast (ucast (ucast w :: u16) :: u8)
        OR push_bit 8 (ucast (ucast (drop_bit 8 (ucast w :: u16)) :: u8)) :: u32) n = bit w n"
      by cases (auto simp: bit_simps)
  qed
  moreover have "(push_bit 8 (ucast (ucast w16 :: u8)) OR ucast (ucast (drop_bit 8 w16) :: u8) :: u32) = w"
    if "w16 = (ucast (push_bit 8 (w AND mask 8) OR (drop_bit 8 w AND mask 8)) :: u16)" for w16
    unfolding that
  proof (rule bit_word_eqI)
    fix n :: nat
    consider "n < 8" | "8 \<le> n" "n < 16" | "\<not> bit w n" "16 \<le> n" using z [of n] by linarith
    then show "bit (push_bit 8 (ucast (ucast (ucast (push_bit 8 (w AND mask 8) OR (drop_bit 8 w AND mask 8)) :: u16) :: u8))
        OR ucast (ucast (drop_bit 8 (ucast (push_bit 8 (w AND mask 8) OR (drop_bit 8 w AND mask 8)) :: u16)) :: u8) :: u32) n
      = bit w n"
      by cases (auto simp: bit_simps)
  qed
  ultimately show ?thesis unfolding mask_8_24 bytes16_def by simp
qed

lemma find_table_bound: "find_table t ts i = Some k \<Longrightarrow> i \<le> k \<and> k < i + length ts \<and> ts ! (k - i) = t"
proof (induction ts arbitrary: i)
  case (Cons a ts)
  show ?case
  proof (cases "t = a")
    case False
    with Cons.prems Cons.IH [of "i + 1"] have "i + 1 \<le> k" "k < i + 1 + length ts" "ts ! (k - (i + 1)) = t"
      by simp_all
    then show ?thesis by (simp add: nth_Cons split: nat.splits) (metis Suc_diff_Suc Suc_le_lessD nat.inject)
  qed (use Cons.prems in auto)
qed simp

lemma compressed_le:
  assumes "i < 2 ^ n" "n \<le> 2"
  shows "(push_bit (16 - n) (of_nat i) OR (tk AND drop_bit n (mask 16)) :: u32) \<le> mask 16"
proof -
  note z = bit_less_exp [OF assms(1)]
  show ?thesis unfolding le_mask_iff [of 16, simplified]
    by (rule bit_word_eqI) (use assms(2) in \<open>auto simp: bit_simps dest: z\<close>)
qed

text \<open>Writing a compressed token and reading the 16 bits back, in either byte order.\<close>

lemma compress_read:
  assumes "1 \<le> length tables" "length tables \<le> 3"
  shows "Option.bind (CLR_CompressTokenHelper tables tk be)
      (\<lambda>c. READ_UNALIGNED_UINT16 be (bytes16 (ucast c) @ ip)) =
    map_option (\<lambda>i. (push_bit (16 - (length tables - 1)) (of_nat i)
      OR (tk AND drop_bit (length tables - 1) (mask 16)), ip)) (find_table (CLR_TypeFromTk tk) tables 0)"
proof (cases "find_table (CLR_TypeFromTk tk) tables 0")
  case None
  then show ?thesis by (simp add: CLR_CompressTokenHelper_def)
next
  case (Some i)
  have n: "length tables - 1 \<le> 2" and ne: "tables \<noteq> []" using assms by auto
  have "i < length tables" using find_table_bound [OF Some] by simp
  then have "i < 2 ^ (length tables - 1)"
    using less_exp [of "length tables - 1"] assms(1) by linarith
  note le = compressed_le [OF this n, of tk]
  define W :: u32 where "W = push_bit (16 - (length tables - 1)) (of_nat i)
    OR (tk AND drop_bit (length tables - 1) 0xFFFF)"
  have "CLR_CompressTokenHelper tables tk be =
      Some (if be then push_bit 8 (W AND 0xFF) OR (drop_bit 8 W AND 0xFF) else W)"
    using Some assms ne unfolding CLR_CompressTokenHelper_def Let_def W_def by simp
  moreover have "W \<le> mask 16" using le unfolding W_def masks(4) .
  ultimately show ?thesis
    using read16_write16 [of W be ip] Some unfolding W_def masks(4) by (simp only: bind.simps option.map)
qed

lemma table_index:
  "i < 3 \<Longrightarrow> unat (of_nat i AND 3 :: u32) = i"
  "i < 2 \<Longrightarrow> unat (of_nat i AND 1 :: u32) = i"
proof -
  assume "i < 3"
  then have "i = 0 \<or> i = 1 \<or> i = 2" by auto
  then show "unat (of_nat i AND 3 :: u32) = i" by auto
next
  assume "i < 2"
  then have "i = 0 \<or> i = 1" by auto
  then show "unat (of_nat i AND 1 :: u32) = i" by auto
qed

lemma UncompressType_parts:
  assumes "i < 3"
  shows "CLR_UncompressTypeToken (push_bit (16 - 2) (of_nat i) OR (tk AND drop_bit 2 (mask 16))) =
    Some (CLR_TkFromType ([TBL_TypeDef, TBL_TypeRef, TBL_TypeSpec] ! i) (tk AND mask 14))"
  using compressed_parts [of i 2 tk] assms table_index(1) [OF assms]
  by (simp only: CLR_UncompressTypeToken_def Let_def masks) simp

lemma UncompressField_parts:
  assumes "i < 2"
  shows "CLR_UncompressFieldToken (push_bit (16 - 1) (of_nat i) OR (tk AND drop_bit 1 (mask 16))) =
    CLR_TkFromType ([TBL_FieldDef, TBL_FieldRef] ! i) (tk AND mask 15)"
    "CLR_UncompressMethodToken (push_bit (16 - 1) (of_nat i) OR (tk AND drop_bit 1 (mask 16))) =
    CLR_TkFromType ([TBL_MethodDef, TBL_MethodRef] ! i) (tk AND mask 15)"
  using compressed_parts [of i 1 tk] assms table_index(2) [OF assms]
  by (simp_all only: CLR_UncompressFieldToken_def CLR_UncompressMethodToken_def masks) simp_all

lemma bind_assoc: "Option.bind (Option.bind m f) g = Option.bind m (\<lambda>x. Option.bind (f x) g)"
  by (cases m) simp_all

lemma find_table_None: "find_table t ts i = None \<longleftrightarrow> t \<notin> set ts"
  by (induction ts arbitrary: i) auto

lemma compress_uncompress:
  assumes "1 \<le> length tables" "length tables \<le> 3"
    and "\<And>i. i < length tables \<Longrightarrow>
      u (push_bit (16 - (length tables - 1)) (of_nat i) OR (tk AND drop_bit (length tables - 1) (mask 16))) =
      Some (CLR_TkFromType (tables ! i) (tk AND m))"
    and rd: "\<And>ip. rd ip = Option.bind (READ_UNALIGNED_UINT16 be ip) (\<lambda>r. map_option (\<lambda>tk. (tk, snd r)) (u (fst r)))"
  shows "Option.bind (CLR_CompressTokenHelper tables tk be) (\<lambda>c. rd (bytes16 (ucast c) @ ip)) =
    (if CLR_TypeFromTk tk \<in> set tables
     then Some (CLR_TkFromType (CLR_TypeFromTk tk) (tk AND m), ip) else None)"
proof (cases "find_table (CLR_TypeFromTk tk) tables 0")
  case None
  then have "CLR_TypeFromTk tk \<notin> set tables" using find_table_None by blast
  with None show ?thesis
    unfolding rd bind_assoc [symmetric] compress_read [OF assms(1,2)] by simp
next
  case (Some i)
  then have "CLR_TypeFromTk tk \<in> set tables" using find_table_None [of "CLR_TypeFromTk tk" tables 0] by simp
  moreover have "i < length tables" "tables ! i = CLR_TypeFromTk tk"
    using find_table_bound [OF Some] by simp_all
  note assms(3) [OF this(1), unfolded this(2)]
  ultimately show ?thesis
    unfolding rd bind_assoc [symmetric] compress_read [OF assms(1,2)] Some
    by (simp only: option.map bind.simps fst_conv snd_conv if_True)
qed

lemma read_token_binds:
  "READ_COMPRESSED_TYPETOKEN be ip = Option.bind (READ_UNALIGNED_UINT16 be ip)
     (\<lambda>r. map_option (\<lambda>tk. (tk, snd r)) (CLR_UncompressTypeToken (fst r)))"
  "READ_COMPRESSED_FIELDTOKEN be ip = Option.bind (READ_UNALIGNED_UINT16 be ip)
     (\<lambda>r. map_option (\<lambda>tk. (tk, snd r)) (Some (CLR_UncompressFieldToken (fst r))))"
  "READ_COMPRESSED_METHODTOKEN be ip = Option.bind (READ_UNALIGNED_UINT16 be ip)
     (\<lambda>r. map_option (\<lambda>tk. (tk, snd r)) (Some (CLR_UncompressMethodToken (fst r))))"
  "READ_COMPRESSED_STRINGTOKEN be ip = Option.bind (READ_UNALIGNED_UINT16 be ip)
     (\<lambda>r. map_option (\<lambda>tk. (tk, snd r)) (Some (CLR_UncompressStringToken (fst r))))"
  by (cases "READ_UNALIGNED_UINT16 be ip";
    auto simp: READ_COMPRESSED_TYPETOKEN_def READ_COMPRESSED_FIELDTOKEN_def
      READ_COMPRESSED_METHODTOKEN_def READ_COMPRESSED_STRINGTOKEN_def)+

section \<open>Properties\<close>

text \<open>
  Compressing a token, writing its 16 bits and reading them back, in either byte order,
  gives the token of the same table with its index cut to the bits the compressed form has:
  14 for types, 15 for fields and methods, 16 for strings. A token of any other table is
  refused.
\<close>

theorem token_stream_roundtrip:
  "Option.bind (CLR_CompressTypeToken tk be) (\<lambda>c. READ_COMPRESSED_TYPETOKEN be (bytes16 (ucast c) @ ip)) =
     (if CLR_TypeFromTk tk \<in> {TBL_TypeDef, TBL_TypeRef, TBL_TypeSpec}
      then Some (CLR_TkFromType (CLR_TypeFromTk tk) (tk AND 0x3FFF), ip) else None) \<and>
   Option.bind (CLR_CompressFieldToken tk be) (\<lambda>c. READ_COMPRESSED_FIELDTOKEN be (bytes16 (ucast c) @ ip)) =
     (if CLR_TypeFromTk tk \<in> {TBL_FieldDef, TBL_FieldRef}
      then Some (CLR_TkFromType (CLR_TypeFromTk tk) (tk AND 0x7FFF), ip) else None) \<and>
   Option.bind (CLR_CompressMethodToken tk be) (\<lambda>c. READ_COMPRESSED_METHODTOKEN be (bytes16 (ucast c) @ ip)) =
     (if CLR_TypeFromTk tk \<in> {TBL_MethodDef, TBL_MethodRef}
      then Some (CLR_TkFromType (CLR_TypeFromTk tk) (tk AND 0x7FFF), ip) else None) \<and>
   Option.bind (CLR_CompressStringToken tk be) (\<lambda>c. READ_COMPRESSED_STRINGTOKEN be (bytes16 (ucast c) @ ip)) =
     (if CLR_TypeFromTk tk = TBL_Strings
      then Some (CLR_TkFromType TBL_Strings (tk AND 0xFFFF), ip) else None)"
proof (intro conjI)
  show "Option.bind (CLR_CompressTypeToken tk be) (\<lambda>c. READ_COMPRESSED_TYPETOKEN be (bytes16 (ucast c) @ ip)) =
     (if CLR_TypeFromTk tk \<in> {TBL_TypeDef, TBL_TypeRef, TBL_TypeSpec}
      then Some (CLR_TkFromType (CLR_TypeFromTk tk) (tk AND 0x3FFF), ip) else None)"
    using compress_uncompress [OF _ _ _ read_token_binds(1), of "[TBL_TypeDef, TBL_TypeRef, TBL_TypeSpec]" tk "mask 14" be ip]
      UncompressType_parts [of _ tk]
    by (simp add: CLR_CompressTypeToken_def masks numeral_2_eq_2)
  show "Option.bind (CLR_CompressFieldToken tk be) (\<lambda>c. READ_COMPRESSED_FIELDTOKEN be (bytes16 (ucast c) @ ip)) =
     (if CLR_TypeFromTk tk \<in> {TBL_FieldDef, TBL_FieldRef}
      then Some (CLR_TkFromType (CLR_TypeFromTk tk) (tk AND 0x7FFF), ip) else None)"
    using compress_uncompress [OF _ _ _ read_token_binds(2), of "[TBL_FieldDef, TBL_FieldRef]" tk "mask 15" be ip]
      UncompressField_parts [of _ tk]
    by (simp add: CLR_CompressFieldToken_def masks numeral_2_eq_2)
  show "Option.bind (CLR_CompressMethodToken tk be) (\<lambda>c. READ_COMPRESSED_METHODTOKEN be (bytes16 (ucast c) @ ip)) =
     (if CLR_TypeFromTk tk \<in> {TBL_MethodDef, TBL_MethodRef}
      then Some (CLR_TkFromType (CLR_TypeFromTk tk) (tk AND 0x7FFF), ip) else None)"
    using compress_uncompress [OF _ _ _ read_token_binds(3), of "[TBL_MethodDef, TBL_MethodRef]" tk "mask 15" be ip]
      UncompressField_parts [of _ tk]
    by (simp add: CLR_CompressMethodToken_def masks numeral_2_eq_2)
  show "Option.bind (CLR_CompressStringToken tk be) (\<lambda>c. READ_COMPRESSED_STRINGTOKEN be (bytes16 (ucast c) @ ip)) =
     (if CLR_TypeFromTk tk = TBL_Strings then Some (CLR_TkFromType TBL_Strings (tk AND 0xFFFF), ip) else None)"
    using compress_uncompress [OF _ _ _ read_token_binds(4), of "[TBL_Strings]" tk "mask 16" be ip]
    by (simp add: CLR_CompressStringToken_def CLR_UncompressStringToken_def masks)
qed

lemma bit_80: "bit (0x80 :: u32) n \<longleftrightarrow> n = 7"
proof -
  have "(0x80 :: u32) = push_bit 7 1" by (simp add: push_bit_eq_mult)
  then show ?thesis by (simp only: bit_push_bit_iff bit_1_iff) auto
qed

lemma bit_C0: "bit (0xC0 :: u32) n \<longleftrightarrow> n = 6 \<or> n = 7"
proof -
  have "(0xC0 :: u32) = push_bit 6 1 OR push_bit 7 1" by (simp add: push_bit_eq_mult)
  then show ?thesis by (simp only: bit_or_iff bit_push_bit_iff bit_1_iff) auto
qed

lemmas byte_bits = bit_and_iff bit_or_iff bit_push_bit_iff bit_drop_bit_eq bit_take_bit_iff
  bit_ucast_iff bit_mask_iff bit_80 bit_C0

lemma le_mask_high: "n \<le> 32 \<Longrightarrow> (w :: u32) \<le> mask n \<Longrightarrow> n \<le> k \<Longrightarrow> bit w k = False"
  using le_mask_bit [of n w k] by auto

lemma bit_ne_0: "bit (w :: u32) n \<Longrightarrow> w \<noteq> 0"
  by auto

lemma byte_value: "w \<le> mask 8 \<Longrightarrow> ucast (ucast w :: u8) = (w :: u32)"
  by (rule bit_word_eqI) (auto simp: bit_simps dest: le_mask_bit [of 8, rotated 1])

lemma uncompress_1:
  assumes "val \<le> mask 7"
  shows "CLR_UncompressData (ucast val # p) = Some (val, p)"
proof -
  note z = le_mask_high [of 7 val, simplified, OF assms]
  have "val \<le> mask 8" using assms by (auto simp: mask_eq_exp_minus_1 elim: order_trans)
  moreover have "val AND 0x80 = 0"
    by (rule bit_word_eqI) (auto simp: byte_bits z simp del: bit_numeral_word_iff)
  ultimately show ?thesis by (simp add: Let_def byte_value)
qed

lemma uncompress_2:
  assumes "val \<le> mask 14"
  shows "CLR_UncompressData (ucast (drop_bit 8 val OR 0x80) # ucast val # p) = Some (val, p)"
proof -
  note z = le_mask_high [of 14 val, simplified, OF assms]
  let ?u = "drop_bit 8 val OR 0x80"
  have "?u \<le> mask 8"
    unfolding le_mask_iff [of 8, simplified]
    by (rule bit_word_eqI, rename_tac n, case_tac "n < 6")
      (auto simp: byte_bits z simp del: bit_numeral_word_iff)
  then have u: "ucast (ucast ?u :: u8) = ?u" by (rule byte_value)
  have "bit (?u AND 0x80) 7" by (simp add: byte_bits del: bit_numeral_word_iff)
  then have "?u AND 0x80 \<noteq> 0" by (rule bit_ne_0)
  moreover have "?u AND 0xC0 = 0x80"
    by (rule bit_word_eqI) (auto simp: byte_bits z simp del: bit_numeral_word_iff)
  moreover have "push_bit 8 (?u AND 0x3F) OR ucast (ucast val :: u8) = val"
    unfolding masks
  proof (rule bit_word_eqI)
    fix n :: nat assume "n < LENGTH(32)"
    then show "bit (push_bit 8 ((drop_bit 8 val OR 0x80) AND mask 6) OR ucast (ucast val :: u8)) n = bit val n"
      by (cases "n < 8"; cases "n < 14") (auto simp: byte_bits z simp del: bit_numeral_word_iff push_bit_or push_bit_and)
  qed
  ultimately show ?thesis by (simp only: CLR_UncompressData.simps Let_def u list.case) simp
qed

lemma uncompress_4:
  assumes "val \<le> mask 29"
  shows "CLR_UncompressData (ucast (drop_bit 24 val OR 0xC0) # ucast (drop_bit 16 val)
      # ucast (drop_bit 8 val) # ucast val # p) = Some (val, p)"
proof -
  note z = le_mask_high [of 29 val, simplified, OF assms]
  let ?u = "drop_bit 24 val OR 0xC0"
  have "?u \<le> mask 8"
    unfolding le_mask_iff [of 8, simplified]
    by (rule bit_word_eqI, rename_tac n, case_tac "n < 5")
      (auto simp: byte_bits z simp del: bit_numeral_word_iff)
  then have u: "ucast (ucast ?u :: u8) = ?u" by (rule byte_value)
  have "bit (?u AND 0x80) 7" by (simp add: byte_bits del: bit_numeral_word_iff)
  then have a: "?u AND 0x80 \<noteq> 0" by (rule bit_ne_0)
  have "bit (?u AND 0xC0) 6" by (simp add: byte_bits del: bit_numeral_word_iff)
  moreover have "\<not> bit (0x80 :: u32) 6" by (simp add: bit_80 del: bit_numeral_word_iff)
  ultimately have b: "?u AND 0xC0 \<noteq> 0x80" by metis
  have "push_bit 24 (?u AND 0x1F) OR push_bit 16 (ucast (ucast (drop_bit 16 val) :: u8))
      OR push_bit 8 (ucast (ucast (drop_bit 8 val) :: u8)) OR ucast (ucast val :: u8) = val"
    unfolding masks
  proof (rule bit_word_eqI)
    fix n :: nat assume "n < LENGTH(32)"
    consider "n < 8" | "8 \<le> n" "n < 16" | "16 \<le> n" "n < 24" | "24 \<le> n" "n < 29" | "29 \<le> n"
      by linarith
    then show "bit (push_bit 24 ((drop_bit 24 val OR 0xC0) AND mask 5)
        OR push_bit 16 (ucast (ucast (drop_bit 16 val) :: u8))
        OR push_bit 8 (ucast (ucast (drop_bit 8 val) :: u8)) OR ucast (ucast val :: u8)) n = bit val n"
      using \<open>n < LENGTH(32)\<close> by cases (auto simp: byte_bits z simp del: bit_numeral_word_iff push_bit_or push_bit_and)
  qed
  with a b show ?thesis by (simp only: CLR_UncompressData.simps Let_def u list.case) simp
qed

text \<open>
  The variable-length integers: \<open>CLR_CompressData\<close> accepts exactly the values up to 29 bits,
  and \<open>CLR_UncompressData\<close> reads the encoding back, leaving the rest of the stream. The
  encoding takes 1, 2 or 4 bytes.
\<close>

theorem compressed_data_roundtrip:
  "Option.bind (CLR_CompressData val) (\<lambda>bs. CLR_UncompressData (bs @ p)) =
     (if val \<le> 0x1FFFFFFF then Some (val, p) else None) \<and>
   map_option length (CLR_CompressData val) =
     (if val \<le> 0x7F then Some 1 else if val \<le> 0x3FFF then Some 2
      else if val \<le> 0x1FFFFFFF then Some 4 else None)"
proof -
  have "val \<le> 0x7F \<Longrightarrow> val \<le> 0x1FFFFFFF" "val \<le> 0x3FFF \<Longrightarrow> val \<le> 0x1FFFFFFF"
    by (auto elim: order_trans)
  then show ?thesis
    using uncompress_1 [of val p] uncompress_2 [of val p] uncompress_4 [of val p]
    unfolding masks [symmetric] CLR_CompressData_def by auto
qed

text \<open>The bytes of a value in the byte order of the build.\<close>

definition bytes64 :: "u64 \<Rightarrow> u8 list" where
  "bytes64 w = map (\<lambda>i. ucast (drop_bit (8 * i) w)) [0..<8]"

definition endian :: "bool \<Rightarrow> u8 list \<Rightarrow> u8 list" where
  "endian be bs = (if be then rev bs else bs)"

lemma low_byte: "ucast (ucast w :: u8) = take_bit 8 (w :: 'a::len word)"
  by (rule bit_word_eqI) (auto simp: bit_simps)

lemma low_byte_16: "(ucast (ucast (w :: u16) :: u8) :: u32) = take_bit 8 (ucast w)"
  by (rule bit_word_eqI) (auto simp: bit_simps)

lemma ucast_drop_16: "(ucast (drop_bit k (w :: u16)) :: u32) = drop_bit k (ucast w)"
  by (rule bit_word_eqI) (auto simp: bit_simps dest: bit_imp_le_length)

lemma join_byte:
  "take_bit a w OR push_bit a (take_bit 8 (drop_bit a w)) = take_bit (a + 8) (w :: 'a::len word)"
  by (rule bit_word_eqI) (auto simp: bit_simps)

lemma take_bit_full: "take_bit 32 (w :: u32) = w" "take_bit 64 (v :: u64) = v"
  by (rule bit_word_eqI, simp add: bit_take_bit_iff)+

lemma word_bytes_16: "(ucast (ucast w :: u8) OR push_bit 8 (ucast (ucast (drop_bit 8 w) :: u8)) :: u32) = ucast (w :: u16)"
proof -
  have "take_bit 16 (ucast w :: u32) = ucast w"
    by (rule bit_word_eqI) (auto simp: bit_simps dest: bit_imp_le_length)
  then show ?thesis using join_byte [of 8 "ucast w :: u32"] unfolding low_byte_16 ucast_drop_16 by simp
qed

lemma word_bytes_32:
  "(ucast (ucast w :: u8) OR push_bit 8 (ucast (ucast (drop_bit 8 w) :: u8))
     OR push_bit 16 (ucast (ucast (drop_bit 16 w) :: u8))
     OR push_bit 24 (ucast (ucast (drop_bit 24 w) :: u8)) :: u32) = w"
  unfolding low_byte or.assoc [symmetric] using join_byte [of 8 w] join_byte [of 16 w] join_byte [of 24 w]
  by (simp add: take_bit_full)

lemma word_bytes_64:
  "(ucast (ucast w :: u8) OR push_bit 8 (ucast (ucast (drop_bit 8 w) :: u8))
     OR push_bit 16 (ucast (ucast (drop_bit 16 w) :: u8)) OR push_bit 24 (ucast (ucast (drop_bit 24 w) :: u8))
     OR push_bit 32 (ucast (ucast (drop_bit 32 w) :: u8)) OR push_bit 40 (ucast (ucast (drop_bit 40 w) :: u8))
     OR push_bit 48 (ucast (ucast (drop_bit 48 w) :: u8))
     OR push_bit 56 (ucast (ucast (drop_bit 56 w) :: u8)) :: u64) = w"
  unfolding low_byte or.assoc [symmetric]
  using join_byte [of 8 w] join_byte [of 16 w] join_byte [of 24 w] join_byte [of 32 w]
    join_byte [of 40 w] join_byte [of 48 w] join_byte [of 56 w]
  by (simp add: take_bit_full)

lemma sign_extend_16: "signed_take_bit 15 (ucast w :: u32) = scast (w :: u16)"
  by (rule bit_word_eqI) (auto simp: bit_simps min_def)

text \<open>
  The unaligned reads fetch a value stored in the byte order of the build, whatever the
  order, leave the rest of the stream, and the signed 16-bit read extends the sign.
\<close>

theorem unaligned_reads:
  "READ_UNALIGNED_UINT16 be (endian be (bytes16 h) @ ip) = Some (ucast h, ip) \<and>
   READ_UNALIGNED_INT16 be (endian be (bytes16 h) @ ip) = Some (scast h, ip) \<and>
   READ_UNALIGNED_UINT32 be (endian be (bytes32 w) @ ip) = Some (w, ip) \<and>
   READ_UNALIGNED_INT32 be (endian be (bytes32 w) @ ip) = Some (w, ip) \<and>
   READ_UNALIGNED_UINT64 be (endian be (bytes64 d) @ ip) = Some (d, ip) \<and>
   READ_UNALIGNED_INT64 be (endian be (bytes64 d) @ ip) = Some (d, ip)"
proof -
  have b8: "[0..<8] = [0, 1, 2, 3, 4, 5, 6, 7]" by (simp add: upt_rec)
  have "READ_UNALIGNED_UINT16 be (endian be (bytes16 h) @ ip) = Some (ucast h, ip)"
    using word_bytes_16 [of h] by (simp add: endian_def bytes16_def or.commute)
  moreover from this have "READ_UNALIGNED_INT16 be (endian be (bytes16 h) @ ip) = Some (scast h, ip)"
    by (simp add: READ_UNALIGNED_INT16_def sign_extend_16)
  moreover have "READ_UNALIGNED_UINT32 be (endian be (bytes32 w) @ ip) = Some (w, ip)"
    using word_bytes_32 [of w] by (simp add: endian_def bytes32_def ac_simps or.left_commute)
  moreover have "READ_UNALIGNED_UINT64 be (endian be (bytes64 d) @ ip) = Some (d, ip)"
    using word_bytes_64 [of d]
    by (simp add: endian_def bytes64_def b8 or.commute or.left_commute or.assoc)
  ultimately show ?thesis by (simp add: READ_UNALIGNED_INT32_def READ_UNALIGNED_INT64_def)
qed

end
