(* ===== verification/DataTypes.thy ===== *)
theory DataTypes
  imports Prelude
begin

text \<open>
  The data types of the runtime (\<open>CLR_DataType\<close> in \<open>CLR/Include/TinyCLR_Types.h\<close>) that the type
  system and the managed heap tell apart, with the values the enumeration gives them when
  application domains are compiled in.
\<close>

definition DATATYPE_VOID :: u8 where "DATATYPE_VOID = 0"
definition DATATYPE_OBJECT :: u8 where "DATATYPE_OBJECT = 16"
definition DATATYPE_CLASS :: u8 where "DATATYPE_CLASS = 17"
definition DATATYPE_VALUETYPE :: u8 where "DATATYPE_VALUETYPE = 18"
definition DATATYPE_SZARRAY :: u8 where "DATATYPE_SZARRAY = 19"
definition DATATYPE_BYREF :: u8 where "DATATYPE_BYREF = 20"
definition DATATYPE_FREEBLOCK :: u8 where "DATATYPE_FREEBLOCK = 21"
definition DATATYPE_WEAKCLASS :: u8 where "DATATYPE_WEAKCLASS = 24"
definition DATATYPE_REFLECTION :: u8 where "DATATYPE_REFLECTION = 25"
definition DATATYPE_ARRAY_BYREF :: u8 where "DATATYPE_ARRAY_BYREF = 26"
definition DATATYPE_DELEGATE_HEAD :: u8 where "DATATYPE_DELEGATE_HEAD = 27"
definition DATATYPE_DELEGATELIST_HEAD :: u8 where "DATATYPE_DELEGATELIST_HEAD = 28"
definition DATATYPE_BINARY_BLOB_HEAD :: u8 where "DATATYPE_BINARY_BLOB_HEAD = 30"
definition DATATYPE_TRANSPARENT_PROXY :: u8 where "DATATYPE_TRANSPARENT_PROXY = 53"

lemmas datatype_defs = DATATYPE_VOID_def DATATYPE_OBJECT_def DATATYPE_CLASS_def
  DATATYPE_VALUETYPE_def DATATYPE_SZARRAY_def DATATYPE_BYREF_def

lemmas gc_types = DATATYPE_OBJECT_def DATATYPE_BYREF_def DATATYPE_CLASS_def DATATYPE_VALUETYPE_def
  DATATYPE_SZARRAY_def DATATYPE_REFLECTION_def DATATYPE_ARRAY_BYREF_def DATATYPE_DELEGATE_HEAD_def
  DATATYPE_DELEGATELIST_HEAD_def DATATYPE_BINARY_BLOB_HEAD_def DATATYPE_TRANSPARENT_PROXY_def
  DATATYPE_FREEBLOCK_def

end
