(* ===== verification/ClrSignature.thy ===== *)
theory ClrSignature
  imports ClrMeta DataTypes
begin

text \<open>
  The signature parser of the type system (\<open>CLR_RT_SignatureParser\<close> in
  \<open>CLR/Core/TypeSystem.cpp\<close>, declared in \<open>CLR/Include/TinyCLR_Runtime.h\<close>): it walks the
  type signatures of fields, methods, locals, interfaces and type specifications. What it asks of
  the loaded assembly (signatures of type specifications, token resolution, the well-known
  classes, the table of data types) is the environment record. A type specification may refer to
  itself, so the walk is a partial function whose None is not returning; running off the
  signature is the result \<open>Overrun\<close>. The object mode of the parser needs the managed heap and is
  not modelled.
\<close>

section \<open>Elements and the environment\<close>

record 'c Element =
  m_fByRef :: bool
  m_levels :: int
  m_dt :: u8
  m_cls :: 'c

record 'c sig_env =
  GetTypeSpec :: "u32 \<Rightarrow> u8 list"
  ResolveToken :: "u32 \<Rightarrow> 'c option"
  wk_Object :: 'c
  wk_Void :: 'c
  DataTypeLookup :: "u8 \<Rightarrow> 'c option"

datatype 'a sig_result = Parsed 'a | WrongType | Overrun

text \<open>The loop of \<open>Advance\<close> over the bytes of one element, and its recursion into a type specification.\<close>

partial_function (option) sig_element ::
  "'c sig_env \<Rightarrow> bool \<Rightarrow> int \<Rightarrow> u8 list \<Rightarrow> ('c Element \<times> u8 list) sig_result option" where
  "sig_element env fByRef levels sig =
     (case sig of
        [] \<Rightarrow> Some Overrun
      | dt # sig \<Rightarrow>
          if dt = DATATYPE_BYREF
          then (if fByRef then Some WrongType else sig_element env True levels sig)
          else if dt = DATATYPE_SZARRAY then sig_element env fByRef (levels + 1) sig
          else if dt = DATATYPE_CLASS \<or> dt = DATATYPE_VALUETYPE
          then (case CLR_TkFromStream sig of
                  None \<Rightarrow> Some Overrun
                | Some (tk, sig) \<Rightarrow>
                    if CLR_TypeFromTk tk = TBL_TypeSpec
                    then Option.bind (sig_element env False 0 (GetTypeSpec env (CLR_DataFromTk tk)))
                           (\<lambda>r. case r of
                                  Parsed (res, sub) \<Rightarrow>
                                    Some (Parsed (res\<lparr>m_levels := m_levels res + levels\<rparr>, sig))
                                | WrongType \<Rightarrow> Some WrongType
                                | Overrun \<Rightarrow> Some Overrun)
                    else (case ResolveToken env tk of
                            None \<Rightarrow> Some WrongType
                          | Some cls \<Rightarrow>
                              Some (Parsed (\<lparr>m_fByRef = fByRef, m_levels = levels, m_dt = dt, m_cls = cls\<rparr>, sig))))
          else if dt = DATATYPE_OBJECT
          then Some (Parsed (\<lparr>m_fByRef = fByRef, m_levels = levels, m_dt = dt, m_cls = wk_Object env\<rparr>, sig))
          else if dt = DATATYPE_VOID
          then Some (Parsed (\<lparr>m_fByRef = fByRef, m_levels = levels, m_dt = dt, m_cls = wk_Void env\<rparr>, sig))
          else (case DataTypeLookup env dt of
                  None \<Rightarrow> Some WrongType
                | Some cls \<Rightarrow>
                    Some (Parsed (\<lparr>m_fByRef = fByRef, m_levels = levels, m_dt = dt, m_cls = cls\<rparr>, sig))))"

record sig_parser =
  sp_sig :: "u8 list"
  sp_type :: nat
  sp_flags :: u32
  sp_count :: int

definition c_TypeSpec :: nat where "c_TypeSpec = 0"
definition c_Interfaces :: nat where "c_Interfaces = 1"
definition c_Field :: nat where "c_Field = 2"
definition c_Method :: nat where "c_Method = 3"
definition c_Locals :: nat where "c_Locals = 4"

definition Initialize_TypeSpec :: "u8 list \<Rightarrow> sig_parser" where
  "Initialize_TypeSpec ts = \<lparr>sp_sig = ts, sp_type = c_TypeSpec, sp_flags = 0, sp_count = 1\<rparr>"

text \<open>The argument of the next one is None for a class without interfaces (\<open>CLR_EmptyIndex\<close>).\<close>

definition Initialize_Interfaces :: "u8 list option \<Rightarrow> sig_parser option" where
  "Initialize_Interfaces sig =
     (case sig of
        None \<Rightarrow> Some \<lparr>sp_sig = [], sp_type = c_Interfaces, sp_flags = 0, sp_count = 0\<rparr>
      | Some [] \<Rightarrow> None
      | Some (n # sig) \<Rightarrow> Some \<lparr>sp_sig = sig, sp_type = c_Interfaces, sp_flags = 0, sp_count = uint n\<rparr>)"

fun Initialize_FieldDef :: "u8 list \<Rightarrow> sig_parser option" where
  "Initialize_FieldDef (f # fd) = Some \<lparr>sp_sig = fd, sp_type = c_Field, sp_flags = ucast f, sp_count = 1\<rparr>"
| "Initialize_FieldDef [] = None"

fun Initialize_MethodSignature :: "u8 list \<Rightarrow> sig_parser option" where
  "Initialize_MethodSignature (f # n # md) =
     Some \<lparr>sp_sig = md, sp_type = c_Method, sp_flags = ucast f, sp_count = uint n + 1\<rparr>"
| "Initialize_MethodSignature _ = None"

definition Initialize_MethodLocals :: "u8 list \<Rightarrow> u8 \<Rightarrow> sig_parser" where
  "Initialize_MethodLocals sig numLocals =
     \<lparr>sp_sig = sig, sp_type = c_Locals, sp_flags = 0, sp_count = uint numLocals\<rparr>"

definition Available :: "sig_parser \<Rightarrow> int" where
  "Available p = sp_count p"

definition Advance :: "'c sig_env \<Rightarrow> sig_parser \<Rightarrow> ('c Element \<times> sig_parser) sig_result option" where
  "Advance env p =
     (let p = p\<lparr>sp_count := sp_count p - 1\<rparr>
      in if sp_type p = c_Interfaces
         then (case CLR_TkFromStream (sp_sig p) of
                 None \<Rightarrow> Some Overrun
               | Some (tk, sig) \<Rightarrow>
                   (case ResolveToken env tk of
                      None \<Rightarrow> Some WrongType
                    | Some cls \<Rightarrow>
                        Some (Parsed (\<lparr>m_fByRef = False, m_levels = 0, m_dt = DATATYPE_CLASS, m_cls = cls\<rparr>,
                                      p\<lparr>sp_sig := sig\<rparr>))))
         else Option.bind (sig_element env False 0 (sp_sig p))
                (\<lambda>r. case r of
                       Parsed (res, sig) \<Rightarrow> Some (Parsed (res, p\<lparr>sp_sig := sig\<rparr>))
                     | WrongType \<Rightarrow> Some WrongType
                     | Overrun \<Rightarrow> Some Overrun))"

text \<open>A client's walk: \<open>Advance\<close> as long as elements are available (the first argument counts them).\<close>

fun walk :: "nat \<Rightarrow> 'c sig_env \<Rightarrow> sig_parser \<Rightarrow> ('c Element list \<times> sig_parser) sig_result option" where
  "walk 0 env p = Some (Parsed ([], p))"
| "walk (Suc n) env p =
     Option.bind (Advance env p)
       (\<lambda>r. case r of
              Parsed (e, p) \<Rightarrow>
                Option.bind (walk n env p)
                  (\<lambda>r. case r of
                         Parsed (es, p) \<Rightarrow> Some (Parsed (e # es, p))
                       | WrongType \<Rightarrow> Some WrongType
                       | Overrun \<Rightarrow> Some Overrun)
            | WrongType \<Rightarrow> Some WrongType
            | Overrun \<Rightarrow> Some Overrun)"

section \<open>What a signature means\<close>

text \<open>
  The types a signature describes, and their encoding: an optional by-reference mark, one array
  mark per level, and the element type; a class carries its table (0 for definitions, 1 for
  references) and index in one compressed integer.
\<close>

datatype sig_base = B_Object | B_Void | B_Prim u8 | B_Class bool nat u32

record sig_type =
  t_byref :: bool
  t_levels :: nat
  t_base :: sig_base

definition token_bytes :: "nat \<Rightarrow> u32 \<Rightarrow> u8 list" where
  "token_bytes tbl data = the (CLR_CompressData (push_bit 2 data OR of_nat tbl))"

fun base_bytes :: "sig_base \<Rightarrow> u8 list" where
  "base_bytes B_Object = [DATATYPE_OBJECT]"
| "base_bytes B_Void = [DATATYPE_VOID]"
| "base_bytes (B_Prim dt) = [dt]"
| "base_bytes (B_Class vt tbl data) = (if vt then DATATYPE_VALUETYPE else DATATYPE_CLASS) # token_bytes tbl data"

definition type_bytes :: "sig_type \<Rightarrow> u8 list" where
  "type_bytes t = (if t_byref t then [DATATYPE_BYREF] else []) @ replicate (t_levels t) DATATYPE_SZARRAY
     @ base_bytes (t_base t)"

fun base_class :: "'c sig_env \<Rightarrow> sig_base \<Rightarrow> 'c option" where
  "base_class env B_Object = Some (wk_Object env)"
| "base_class env B_Void = Some (wk_Void env)"
| "base_class env (B_Prim dt) =
     (if dt \<in> {DATATYPE_VOID, DATATYPE_OBJECT, DATATYPE_CLASS, DATATYPE_VALUETYPE, DATATYPE_SZARRAY,
        DATATYPE_BYREF} then None else DataTypeLookup env dt)"
| "base_class env (B_Class vt tbl data) =
     (if tbl < 2 \<and> data \<le> mask 24 then ResolveToken env (CLR_TkFromType ([TBL_TypeDef, TBL_TypeRef] ! tbl) data)
      else None)"

fun base_datatype :: "sig_base \<Rightarrow> u8" where
  "base_datatype B_Object = DATATYPE_OBJECT"
| "base_datatype B_Void = DATATYPE_VOID"
| "base_datatype (B_Prim dt) = dt"
| "base_datatype (B_Class vt tbl data) = (if vt then DATATYPE_VALUETYPE else DATATYPE_CLASS)"

definition type_element :: "'c sig_env \<Rightarrow> sig_type \<Rightarrow> 'c Element option" where
  "type_element env t =
     map_option (\<lambda>c. \<lparr>m_fByRef = t_byref t, m_levels = int (t_levels t),
       m_dt = base_datatype (t_base t), m_cls = c\<rparr>) (base_class env (t_base t))"

lemma stream_roundtrip: "val \<le> mask 29 \<Longrightarrow> CLR_UncompressData (the (CLR_CompressData val) @ p) = Some (val, p)"
  using uncompress_1 [of val p] uncompress_2 [of val p] uncompress_4 [of val p]
  unfolding masks [symmetric] CLR_CompressData_def by auto

lemma token_stream:
  assumes "tbl < 3" "data \<le> mask 24"
  shows "CLR_TkFromStream (token_bytes tbl data @ p) =
    Some (CLR_TkFromType ([TBL_TypeDef, TBL_TypeRef, TBL_TypeSpec] ! tbl) data, p)"
proof -
  have tbl: "tbl = 0 \<or> tbl = 1 \<or> tbl = 2" using assms(1) by auto
  have "tbl < 2 ^ 2" using assms(1) by simp
  note b = bit_less_exp [OF this]
  note z = le_mask_high [of 24 data, simplified, OF assms(2)]
  let ?v = "push_bit 2 data OR of_nat tbl"
  have le: "?v \<le> mask 29"
    unfolding le_mask_iff [of 29, simplified]
    by (rule bit_word_eqI, rename_tac n, case_tac "n < 29") (auto simp: bit_simps z dest: b)
  have "?v AND 3 = of_nat tbl"
    unfolding masks by (rule bit_word_eqI) (auto simp: bit_simps dest: b)
  moreover have "drop_bit 2 ?v = data"
    by (rule bit_word_eqI, rename_tac n, case_tac "n < 24") (auto simp: bit_simps z dest: b)
  moreover have "unat (of_nat tbl :: u32) = tbl" using tbl by auto
  moreover have "[TBL_TypeDef, TBL_TypeRef, TBL_TypeSpec, TBL_Max] ! tbl = [TBL_TypeDef, TBL_TypeRef, TBL_TypeSpec] ! tbl"
    using tbl by auto
  ultimately show ?thesis
    unfolding CLR_TkFromStream_def token_bytes_def stream_roundtrip [OF le] by simp
qed

lemma sig_element_arrays:
  "sig_element env r l (replicate n DATATYPE_SZARRAY @ sig) = sig_element env r (l + int n) sig"
proof (induction n arbitrary: l)
  case (Suc n)
  have "sig_element env r l (DATATYPE_SZARRAY # sig') = sig_element env r (l + 1) sig'" for sig'
    by (subst sig_element.simps) (simp add: datatype_defs)
  with Suc [of "l + 1"] show ?case by (simp add: algebra_simps)
qed simp

lemma tk_types: "tbl < 3 \<Longrightarrow> CLR_TypeFromTk (CLR_TkFromType ([TBL_TypeDef, TBL_TypeRef, TBL_TypeSpec] ! tbl) data) =
    [TBL_TypeDef, TBL_TypeRef, TBL_TypeSpec] ! tbl"
proof (rule CLR_Tk_parts(1))
  assume "tbl < 3"
  then have "tbl = 0 \<or> tbl = 1 \<or> tbl = 2" by auto
  then show "[TBL_TypeDef, TBL_TypeRef, TBL_TypeSpec] ! tbl \<le> mask 8"
    by (auto simp: tbl_defs mask_eq_exp_minus_1)
qed

lemma sig_element_base:
  assumes "base_class env b = Some c"
  shows "sig_element env r l (base_bytes b @ sig) =
    Some (Parsed (\<lparr>m_fByRef = r, m_levels = l, m_dt = base_datatype b, m_cls = c\<rparr>, sig))"
proof (cases b)
  case (B_Class vt tbl data)
  with assms have t: "tbl < 2" "data \<le> mask 24"
    "ResolveToken env (CLR_TkFromType ([TBL_TypeDef, TBL_TypeRef] ! tbl) data) = Some c"
    by (auto split: if_splits)
  then have tbl: "tbl = 0 \<or> tbl = 1" by auto
  then have nth: "[TBL_TypeDef, TBL_TypeRef, TBL_TypeSpec] ! tbl = [TBL_TypeDef, TBL_TypeRef] ! tbl" by auto
  have "CLR_TypeFromTk (CLR_TkFromType ([TBL_TypeDef, TBL_TypeRef] ! tbl) data) \<noteq> TBL_TypeSpec"
    using tk_types [of tbl data] t(1) tbl unfolding nth by (auto simp: tbl_defs)
  moreover have "CLR_TkFromStream (token_bytes tbl data @ sig) =
      Some (CLR_TkFromType ([TBL_TypeDef, TBL_TypeRef] ! tbl) data, sig)"
    using token_stream [of tbl data sig] t nth by simp
  moreover have "dt \<noteq> DATATYPE_BYREF \<and> dt \<noteq> DATATYPE_SZARRAY"
    if "dt = (if vt then DATATYPE_VALUETYPE else DATATYPE_CLASS)" for dt
    using that by (auto simp: datatype_defs)
  ultimately show ?thesis
    using B_Class t(3) by (subst sig_element.simps) (simp add: datatype_defs)
qed (use assms in \<open>subst sig_element.simps; auto simp: datatype_defs split: if_splits\<close>)+

lemma sig_element_type:
  assumes "type_element env t = Some e"
  shows "sig_element env False 0 (type_bytes t @ sig) = Some (Parsed (e, sig))"
proof -
  obtain c where c: "base_class env (t_base t) = Some c"
    "e = \<lparr>m_fByRef = t_byref t, m_levels = int (t_levels t), m_dt = base_datatype (t_base t), m_cls = c\<rparr>"
    using assms by (auto simp: type_element_def)
  have "sig_element env False 0 ((if t_byref t then [DATATYPE_BYREF] else []) @ s) = sig_element env (t_byref t) 0 s" for s
    by (subst sig_element.simps) (auto simp: datatype_defs sig_element.simps [of env False 0 s])
  then show ?thesis
    unfolding type_bytes_def append_assoc by (simp add: sig_element_arrays sig_element_base [OF c(1)] c(2))
qed

lemma Advance_type:
  assumes "type_element env t = Some e" "sp_sig p = type_bytes t @ sig" "sp_type p \<noteq> c_Interfaces"
  shows "Advance env p = Some (Parsed (e, p\<lparr>sp_count := sp_count p - 1, sp_sig := sig\<rparr>))"
  using sig_element_type [OF assms(1), of sig] assms(2,3) by (simp add: Advance_def Let_def)

lemma walk_types:
  assumes "list_all2 (\<lambda>t e. type_element env t = Some e) ts es"
    and "sp_sig p = concat (map type_bytes ts) @ rest" "sp_type p \<noteq> c_Interfaces"
  shows "walk (length ts) env p = Some (Parsed (es, p\<lparr>sp_count := sp_count p - int (length ts), sp_sig := rest\<rparr>))"
  using assms
proof (induction ts es arbitrary: p rule: list_all2_induct)
  case Nil
  then show ?case by (cases p) simp
next
  case (Cons t ts e es)
  let ?p = "p\<lparr>sp_count := sp_count p - 1, sp_sig := concat (map type_bytes ts) @ rest\<rparr>"
  have "Advance env p = Some (Parsed (e, ?p))"
    using Advance_type [OF Cons.hyps(1)] Cons.prems by simp
  moreover have "walk (length ts) env ?p =
      Some (Parsed (es, ?p\<lparr>sp_count := sp_count ?p - int (length ts), sp_sig := rest\<rparr>))"
    using Cons.IH [of ?p] Cons.prems(2) by simp
  ultimately show ?case by simp
qed

section \<open>Properties\<close>

text \<open>
  C21. A method signature is read back element by element: for any flags, return type and
  argument types that resolve in the assembly, parsing the encoding yields exactly their
  elements, with nothing left to read before the rest of the stream and no element available.
\<close>

theorem method_signature_roundtrip:
  assumes "list_all2 (\<lambda>t e. type_element env t = Some e) (ret # args) es" "length args < 256"
  shows "\<exists>p q. Initialize_MethodSignature
      (flags # of_nat (length args) # concat (map type_bytes (ret # args)) @ rest) = Some p \<and>
    sp_flags p = ucast flags \<and> Available p = int (length es) \<and>
    walk (nat (Available p)) env p = Some (Parsed (es, q)) \<and> sp_sig q = rest \<and> Available q = 0"
proof -
  let ?p = "\<lparr>sp_sig = concat (map type_bytes (ret # args)) @ rest, sp_type = c_Method,
    sp_flags = ucast flags, sp_count = int (length (ret # args))\<rparr>"
  have n: "uint (of_nat (length args) :: u8) = int (length args)"
    using assms(2) by (simp add: unsigned_of_nat take_bit_nat_eq_self uint_nat)
  have "walk (length (ret # args)) env ?p =
      Some (Parsed (es, ?p\<lparr>sp_count := sp_count ?p - int (length (ret # args)), sp_sig := rest\<rparr>))"
    by (rule walk_types [OF assms(1)]) (simp_all add: c_Method_def c_Interfaces_def)
  moreover have l: "length es = length (ret # args)" using list_all2_lengthD [OF assms(1)] by simp
  moreover have "nat (Available ?p) = length (ret # args)" by (simp add: Available_def)
  ultimately have "walk (nat (Available ?p)) env ?p =
      Some (Parsed (es, ?p\<lparr>sp_count := 0, sp_sig := rest\<rparr>))" by (simp only:) simp
  moreover have "Initialize_MethodSignature
      (flags # of_nat (length args) # concat (map type_bytes (ret # args)) @ rest) = Some ?p"
    using n by simp
  ultimately show ?thesis
    using l by (intro exI [of _ ?p] exI [of _ "?p\<lparr>sp_count := 0, sp_sig := rest\<rparr>"]) (simp add: Available_def)
qed

definition sig_example :: "nat sig_env" where
  "sig_example = \<lparr>GetTypeSpec = (\<lambda>i. [DATATYPE_SZARRAY, 7]), ResolveToken = (\<lambda>tk. Some (unat tk)),
     wk_Object = 1, wk_Void = 2, DataTypeLookup = (\<lambda>dt. Some (unat dt + 10))\<rparr>"

theorem method_signature_roundtrip_witness:
  "\<exists>p q. Initialize_MethodSignature (0 # 2 # concat (map type_bytes
        [\<lparr>t_byref = False, t_levels = 0, t_base = B_Void\<rparr>, \<lparr>t_byref = True, t_levels = 2, t_base = B_Prim 7\<rparr>,
         \<lparr>t_byref = False, t_levels = 0, t_base = B_Object\<rparr>]) @ [99]) = Some p \<and>
     walk (nat (Available p)) sig_example p =
       Some (Parsed ([\<lparr>m_fByRef = False, m_levels = 0, m_dt = 0, m_cls = 2\<rparr>,
         \<lparr>m_fByRef = True, m_levels = 2, m_dt = 7, m_cls = 17\<rparr>,
         \<lparr>m_fByRef = False, m_levels = 0, m_dt = 16, m_cls = 1\<rparr>], q)) \<and> sp_sig q = [99]"
  using method_signature_roundtrip [of sig_example "\<lparr>t_byref = False, t_levels = 0, t_base = B_Void\<rparr>"
      "[\<lparr>t_byref = True, t_levels = 2, t_base = B_Prim 7\<rparr>, \<lparr>t_byref = False, t_levels = 0, t_base = B_Object\<rparr>]"
      "[\<lparr>m_fByRef = False, m_levels = 0, m_dt = 0, m_cls = 2\<rparr>,
         \<lparr>m_fByRef = True, m_levels = 2, m_dt = 7, m_cls = 17\<rparr>,
         \<lparr>m_fByRef = False, m_levels = 0, m_dt = 16, m_cls = 1\<rparr>]" 0 "[99]"]
  by (auto simp: type_element_def sig_example_def datatype_defs)

text \<open>
  An element given by a type specification loses its by-reference mark: \<open>Advance\<close> of the
  specification clears the mark in the shared result, and only the array levels are added back.
  So \<open>BYREF CLASS <spec>\<close> and \<open>CLASS <spec>\<close> parse to the same element.
\<close>

theorem typespec_drops_byref:
  assumes "type_element env t = Some e" "data \<le> mask 24" "GetTypeSpec env data = type_bytes t"
  shows "sig_element env False 0
      ((if byref then [DATATYPE_BYREF] else []) @ replicate n DATATYPE_SZARRAY
         @ DATATYPE_CLASS # token_bytes 2 data @ rest) =
    Some (Parsed (e\<lparr>m_levels := m_levels e + int n\<rparr>, rest))"
proof -
  have "data AND mask 24 = data" using assms(2) by (simp add: le_mask_iff take_bit_eq_mask)
  then have d: "CLR_DataFromTk (CLR_TkFromType TBL_TypeSpec data) = data" by (simp add: CLR_Tk_parts(2))
  have s: "sig_element env False 0 (GetTypeSpec env data) = Some (Parsed (e, []))"
    using sig_element_type [OF assms(1), of "[]"] assms(3) by simp
  have c: "sig_element env r l (DATATYPE_CLASS # token_bytes 2 data @ rest) =
      Some (Parsed (e\<lparr>m_levels := m_levels e + l\<rparr>, rest))" for r l
    using token_stream [of 2 data rest] tk_types [of 2 data] assms(2) d s
    by (subst sig_element.simps) (simp add: datatype_defs)
  have "sig_element env False 0 ((if byref then [DATATYPE_BYREF] else []) @ s) = sig_element env byref 0 s" for s
    by (subst sig_element.simps) (auto simp: datatype_defs sig_element.simps [of env False 0 s])
  then show ?thesis by (simp add: sig_element_arrays c)
qed

theorem typespec_drops_byref_witness:
  "sig_element sig_example False 0 ([DATATYPE_BYREF] @ DATATYPE_CLASS # token_bytes 2 5 @ [99]) =
     Some (Parsed (\<lparr>m_fByRef = False, m_levels = 1, m_dt = 7, m_cls = 17\<rparr>, [99]))"
  using typespec_drops_byref [of sig_example "\<lparr>t_byref = False, t_levels = 1, t_base = B_Prim 7\<rparr>"
      "\<lparr>m_fByRef = False, m_levels = 1, m_dt = 7, m_cls = 17\<rparr>" 5 True 0 "[99]"]
  by (simp add: sig_example_def type_element_def datatype_defs type_bytes_def mask_eq_exp_minus_1)

end
