(* ===== verification/AvlTree.thy ===== *)
theory AvlTree
  imports Prelude "HOL-Library.Multiset"
begin

text \<open>
  The AVL tree of the CLR (\<open>CLR/Core/AVLTree.cpp\<close>, \<open>CLR_RT_AVLTree\<close> in
  \<open>CLR/Include/TinyCLR_Runtime__HeapBlock.h\<close>). A node pointer is the tree it points to and an
  operation on \<open>Entry*&\<close> returns the tree to store back; following a null pointer is the value
  None. The owner's callbacks are a record of functions that thread the owner's state. The locale
  \<open>avl_owner\<close> states what the tree relies on: a comparison by a linear key of the entry's
  payload, and that new and reassigned entries carry the payload given to them.
\<close>

section \<open>Data\<close>

datatype Skew = SKEW_LEFT | SKEW_NONE | SKEW_RIGHT

datatype Result = RES_OK | RES_BALANCE | RES_NOTFOUND | RES_DUPLICATE | RES_ERROR

datatype 'e avl = Null | Entry "'e avl" Skew 'e "'e avl"

record ('e, 's) OwnerInfo =
  ftn_compare :: "'s \<Rightarrow> 'e \<Rightarrow> 'e \<Rightarrow> int"
  ftn_newNode :: "'s \<Rightarrow> 'e \<Rightarrow> 'e option \<times> 's"
  ftn_freeNode :: "'s \<Rightarrow> 'e \<Rightarrow> 's"
  ftn_reassignNode :: "'s \<Rightarrow> 'e \<Rightarrow> 'e \<Rightarrow> 'e \<times> 's"

section \<open>Rotations and rebalancing\<close>

fun RotateLeft :: "'e avl \<Rightarrow> 'e avl option" where
  "RotateLeft (Entry a s x (Entry b t y c)) = Some (Entry (Entry a s x b) t y c)"
| "RotateLeft _ = None"

fun RotateRight :: "'e avl \<Rightarrow> 'e avl option" where
  "RotateRight (Entry (Entry a t y b) s x c) = Some (Entry a t y (Entry b s x c))"
| "RotateRight _ = None"

text \<open>The double rotations: new skews of the top and of its child, from the skew of the grandchild.\<close>

fun skews_left_right :: "Skew \<Rightarrow> Skew \<times> Skew" where
  "skews_left_right SKEW_LEFT = (SKEW_RIGHT, SKEW_NONE)"
| "skews_left_right SKEW_RIGHT = (SKEW_NONE, SKEW_LEFT)"
| "skews_left_right SKEW_NONE = (SKEW_NONE, SKEW_NONE)"

fun skews_right_left :: "Skew \<Rightarrow> Skew \<times> Skew" where
  "skews_right_left SKEW_RIGHT = (SKEW_LEFT, SKEW_NONE)"
| "skews_right_left SKEW_LEFT = (SKEW_NONE, SKEW_RIGHT)"
| "skews_right_left SKEW_NONE = (SKEW_NONE, SKEW_NONE)"

fun rotate_left_right :: "'e avl \<Rightarrow> 'e \<Rightarrow> 'e avl \<Rightarrow> 'e avl option" where
  "rotate_left_right (Entry ll ls lx (Entry rl rs rx rr)) x r =
     (let (ns, ls') = skews_left_right rs
      in Option.bind (RotateLeft (Entry ll ls' lx (Entry rl SKEW_NONE rx rr)))
           (\<lambda>l'. RotateRight (Entry l' ns x r)))"
| "rotate_left_right _ x r = None"

fun rotate_right_left :: "'e avl \<Rightarrow> 'e \<Rightarrow> 'e avl \<Rightarrow> 'e avl option" where
  "rotate_right_left l x (Entry (Entry ll ls lx lr) rs rx rr) =
     (let (ns, rs') = skews_right_left ls
      in Option.bind (RotateRight (Entry (Entry ll SKEW_NONE lx lr) rs' rx rr))
           (\<lambda>r'. RotateLeft (Entry l ns x r')))"
| "rotate_right_left l x _ = None"

fun LeftGrown :: "'e avl \<Rightarrow> ('e avl \<times> Result) option" where
  "LeftGrown Null = None"
| "LeftGrown (Entry l SKEW_LEFT x r) =
     (case l of
        Null \<Rightarrow> None
      | Entry ll ls lx lr \<Rightarrow>
          map_option (\<lambda>n. (n, RES_OK))
            (if ls = SKEW_LEFT then RotateRight (Entry (Entry ll SKEW_NONE lx lr) SKEW_NONE x r)
             else rotate_left_right l x r))"
| "LeftGrown (Entry l SKEW_RIGHT x r) = Some (Entry l SKEW_NONE x r, RES_OK)"
| "LeftGrown (Entry l SKEW_NONE x r) = Some (Entry l SKEW_LEFT x r, RES_BALANCE)"

fun RightGrown :: "'e avl \<Rightarrow> ('e avl \<times> Result) option" where
  "RightGrown Null = None"
| "RightGrown (Entry l SKEW_LEFT x r) = Some (Entry l SKEW_NONE x r, RES_OK)"
| "RightGrown (Entry l SKEW_RIGHT x r) =
     (case r of
        Null \<Rightarrow> None
      | Entry rl rs rx rr \<Rightarrow>
          map_option (\<lambda>n. (n, RES_OK))
            (if rs = SKEW_RIGHT then RotateLeft (Entry l SKEW_NONE x (Entry rl SKEW_NONE rx rr))
             else rotate_right_left l x r))"
| "RightGrown (Entry l SKEW_NONE x r) = Some (Entry l SKEW_RIGHT x r, RES_BALANCE)"

fun LeftShrunk :: "'e avl \<Rightarrow> ('e avl \<times> Result) option" where
  "LeftShrunk Null = None"
| "LeftShrunk (Entry l SKEW_LEFT x r) = Some (Entry l SKEW_NONE x r, RES_BALANCE)"
| "LeftShrunk (Entry l SKEW_RIGHT x r) =
     (case r of
        Null \<Rightarrow> None
      | Entry rl rs rx rr \<Rightarrow>
          if rs = SKEW_RIGHT
          then map_option (\<lambda>n. (n, RES_BALANCE))
                 (RotateLeft (Entry l SKEW_NONE x (Entry rl SKEW_NONE rx rr)))
          else if rs = SKEW_NONE
          then map_option (\<lambda>n. (n, RES_OK))
                 (RotateLeft (Entry l SKEW_RIGHT x (Entry rl SKEW_LEFT rx rr)))
          else map_option (\<lambda>n. (n, RES_BALANCE)) (rotate_right_left l x r))"
| "LeftShrunk (Entry l SKEW_NONE x r) = Some (Entry l SKEW_RIGHT x r, RES_OK)"

fun RightShrunk :: "'e avl \<Rightarrow> ('e avl \<times> Result) option" where
  "RightShrunk Null = None"
| "RightShrunk (Entry l SKEW_RIGHT x r) = Some (Entry l SKEW_NONE x r, RES_BALANCE)"
| "RightShrunk (Entry l SKEW_LEFT x r) =
     (case l of
        Null \<Rightarrow> None
      | Entry ll ls lx lr \<Rightarrow>
          if ls = SKEW_LEFT
          then map_option (\<lambda>n. (n, RES_BALANCE))
                 (RotateRight (Entry (Entry ll SKEW_NONE lx lr) SKEW_NONE x r))
          else if ls = SKEW_NONE
          then map_option (\<lambda>n. (n, RES_OK))
                 (RotateRight (Entry (Entry ll SKEW_RIGHT lx lr) SKEW_LEFT x r))
          else map_option (\<lambda>n. (n, RES_BALANCE)) (rotate_left_right l x r))"
| "RightShrunk (Entry l SKEW_NONE x r) = Some (Entry l SKEW_LEFT x r, RES_OK)"

section \<open>Searching, inserting, removing\<close>

fun Find :: "('e, 's) OwnerInfo \<Rightarrow> 's \<Rightarrow> 'e avl \<Rightarrow> 'e \<Rightarrow> 'e option" where
  "Find ow s Null d = None"
| "Find ow s (Entry l sk x r) d =
     (let cmp = ftn_compare ow s x d
      in if cmp = 0 then Some x else if cmp > 0 then Find ow s l d else Find ow s r d)"

text \<open>
  The result of \<open>FindHighest\<close> and \<open>FindLowest\<close>: whether a node was found, the subtree to store
  back, the target's new content, the result code and the owner's state.
\<close>

fun FindHighest :: "('e, 's) OwnerInfo \<Rightarrow> 's \<Rightarrow> 'e avl \<Rightarrow> 'e \<Rightarrow>
    (bool \<times> 'e avl \<times> 'e \<times> Result \<times> 's) option" where
  "FindHighest ow s Null target = Some (False, Null, target, RES_BALANCE, s)"
| "FindHighest ow s (Entry l sk x r) target =
     (if r \<noteq> Null
      then Option.bind (FindHighest ow s r target)
        (\<lambda>(found, r', tg, res, s').
           if \<not> found then Some (False, Entry l sk x r', tg, res, s')
           else if res = RES_BALANCE
           then map_option (\<lambda>(n, res). (True, n, tg, res, s')) (RightShrunk (Entry l sk x r'))
           else Some (True, Entry l sk x r', tg, res, s'))
      else (let (tg, s1) = ftn_reassignNode ow s x target;
                s2 = ftn_freeNode ow s1 x
            in Some (True, l, tg, RES_BALANCE, s2)))"

fun FindLowest :: "('e, 's) OwnerInfo \<Rightarrow> 's \<Rightarrow> 'e avl \<Rightarrow> 'e \<Rightarrow>
    (bool \<times> 'e avl \<times> 'e \<times> Result \<times> 's) option" where
  "FindLowest ow s Null target = Some (False, Null, target, RES_BALANCE, s)"
| "FindLowest ow s (Entry l sk x r) target =
     (if l \<noteq> Null
      then Option.bind (FindLowest ow s l target)
        (\<lambda>(found, l', tg, res, s').
           if \<not> found then Some (False, Entry l' sk x r, tg, res, s')
           else if res = RES_BALANCE
           then map_option (\<lambda>(n, res). (True, n, tg, res, s')) (LeftShrunk (Entry l' sk x r))
           else Some (True, Entry l' sk x r, tg, res, s'))
      else (let (tg, s1) = ftn_reassignNode ow s x target;
                s2 = ftn_freeNode ow s1 x
            in Some (True, r, tg, RES_BALANCE, s2)))"

fun Insert :: "('e, 's) OwnerInfo \<Rightarrow> 's \<Rightarrow> 'e avl \<Rightarrow> 'e \<Rightarrow> ('e avl \<times> Result \<times> 's) option" where
  "Insert ow s Null d =
     (case ftn_newNode ow s d of
        (None, s') \<Rightarrow> Some (Null, RES_ERROR, s')
      | (Some node, s') \<Rightarrow> Some (Entry Null SKEW_NONE node Null, RES_BALANCE, s'))"
| "Insert ow s (Entry l sk x r) d =
     (let cmp = ftn_compare ow s x d
      in if cmp > 0
         then Option.bind (Insert ow s l d)
           (\<lambda>(l', res, s').
              if res = RES_BALANCE
              then map_option (\<lambda>(n, res). (n, res, s')) (LeftGrown (Entry l' sk x r))
              else Some (Entry l' sk x r, res, s'))
         else if cmp < 0
         then Option.bind (Insert ow s r d)
           (\<lambda>(r', res, s').
              if res = RES_BALANCE
              then map_option (\<lambda>(n, res). (n, res, s')) (RightGrown (Entry l sk x r'))
              else Some (Entry l sk x r', res, s'))
         else Some (Entry l sk x r, RES_DUPLICATE, s))"

text \<open>Removing a node that was found: its place is taken from a subtree, or it is freed.\<close>

definition Remove_here :: "('e, 's) OwnerInfo \<Rightarrow> 's \<Rightarrow> 'e avl \<Rightarrow> Skew \<Rightarrow> 'e \<Rightarrow> 'e avl \<Rightarrow>
    ('e avl \<times> Result \<times> 's) option" where
  "Remove_here ow s l sk x r =
     (let try_right = (\<lambda>l x s.
            if r \<noteq> Null
            then Option.bind (FindLowest ow s r x)
              (\<lambda>(found, r', tg, res, s').
                 if found
                 then (if res = RES_BALANCE
                       then map_option (\<lambda>(n, res). (n, res, s')) (RightShrunk (Entry l sk tg r'))
                       else Some (Entry l sk tg r', res, s'))
                 else Some (Null, RES_BALANCE, ftn_freeNode ow s' tg))
            else Some (Null, RES_BALANCE, ftn_freeNode ow s x))
      in if l \<noteq> Null
         then Option.bind (FindHighest ow s l x)
           (\<lambda>(found, l', tg, res, s').
              if found
              then (if res = RES_BALANCE
                    then map_option (\<lambda>(n, res). (n, res, s')) (LeftShrunk (Entry l' sk tg r))
                    else Some (Entry l' sk tg r, res, s'))
              else try_right l' tg s')
         else try_right l x s)"

fun Remove :: "('e, 's) OwnerInfo \<Rightarrow> 's \<Rightarrow> 'e avl \<Rightarrow> 'e \<Rightarrow> ('e avl \<times> Result \<times> 's) option" where
  "Remove ow s Null d = Some (Null, RES_NOTFOUND, s)"
| "Remove ow s (Entry l sk x r) d =
     (let cmp = ftn_compare ow s x d
      in if cmp > 0
         then Option.bind (Remove ow s l d)
           (\<lambda>(l', res, s').
              if res = RES_BALANCE
              then map_option (\<lambda>(n, res). (n, res, s')) (LeftShrunk (Entry l' sk x r))
              else Some (Entry l' sk x r, res, s'))
         else if cmp < 0
         then Option.bind (Remove ow s r d)
           (\<lambda>(r', res, s').
              if res = RES_BALANCE
              then map_option (\<lambda>(n, res). (n, res, s')) (RightShrunk (Entry l sk x r'))
              else Some (Entry l sk x r', res, s'))
         else Remove_here ow s l sk x r)"

section \<open>Balance\<close>

fun inorder :: "'e avl \<Rightarrow> 'e list" where
  "inorder Null = []"
| "inorder (Entry l sk x r) = inorder l @ x # inorder r"

fun ht :: "'e avl \<Rightarrow> nat" where
  "ht Null = 0"
| "ht (Entry l sk x r) = Suc (max (ht l) (ht r))"

fun skew_of :: "Skew \<Rightarrow> nat \<Rightarrow> nat \<Rightarrow> bool" where
  "skew_of SKEW_NONE hl hr \<longleftrightarrow> hl = hr"
| "skew_of SKEW_LEFT hl hr \<longleftrightarrow> hl = Suc hr"
| "skew_of SKEW_RIGHT hl hr \<longleftrightarrow> hr = Suc hl"

fun avl_ok :: "'e avl \<Rightarrow> bool" where
  "avl_ok Null \<longleftrightarrow> True"
| "avl_ok (Entry l sk x r) \<longleftrightarrow> avl_ok l \<and> avl_ok r \<and> skew_of sk (ht l) (ht r)"

text \<open>A subtree that has just grown leans to one side, or is a single new node.\<close>

fun leans :: "'e avl \<Rightarrow> bool" where
  "leans Null \<longleftrightarrow> False"
| "leans (Entry l sk x r) \<longleftrightarrow> sk \<noteq> SKEW_NONE \<or> l = Null \<and> r = Null"

lemma ht_0 [simp]: "ht t = 0 \<longleftrightarrow> t = Null"
  by (cases t) auto


definition grew :: "nat \<Rightarrow> 'e list \<Rightarrow> ('e avl \<times> Result) option \<Rightarrow> bool" where
  "grew h xs res = (case res of None \<Rightarrow> False | Some (t, c) \<Rightarrow>
     avl_ok t \<and> inorder t = xs \<and>
     (c = RES_OK \<and> ht t = h \<or> c = RES_BALANCE \<and> ht t = Suc h \<and> leans t))"

definition shrank :: "nat \<Rightarrow> 'e list \<Rightarrow> ('e avl \<times> Result) option \<Rightarrow> bool" where
  "shrank h xs res = (case res of None \<Rightarrow> False | Some (t, c) \<Rightarrow>
     avl_ok t \<and> inorder t = xs \<and> (c = RES_OK \<and> ht t = h \<or> c = RES_BALANCE \<and> Suc (ht t) = h))"

lemma rotate_left_right_ok:
  assumes "avl_ok l" "avl_ok r" "ht l = Suc (Suc (ht r))" "l = Entry ll SKEW_RIGHT lx lr"
  obtains t where "rotate_left_right l x r = Some t" "avl_ok t"
    "inorder t = inorder l @ x # inorder r" "ht t = Suc (Suc (ht r))" 
proof -
  from assms obtain rl rs rx rr where lr: "lr = Entry rl rs rx rr"
    by (cases lr) auto
  show thesis
    by (rule that [of "the (rotate_left_right l x r)"]; cases rs)
       (use assms lr in \<open>auto simp: max_def\<close>)
qed

lemma rotate_right_left_ok:
  assumes "avl_ok l" "avl_ok r" "ht r = Suc (Suc (ht l))" "r = Entry rl SKEW_LEFT rx rr"
  obtains t where "rotate_right_left l x r = Some t" "avl_ok t"
    "inorder t = inorder l @ x # inorder r" "ht t = Suc (Suc (ht l))"
proof -
  from assms obtain ll ls lx lr where rl: "rl = Entry ll ls lx lr"
    by (cases rl) auto
  show thesis
    by (rule that [of "the (rotate_right_left l x r)"]; cases ls)
       (use assms rl in \<open>auto simp: max_def\<close>)
qed

lemma LeftGrown_grew:
  assumes "avl_ok l" "avl_ok r" "skew_of sk h (ht r)" "ht l = Suc h" "leans l"
  shows "grew (Suc (max h (ht r))) (inorder l @ x # inorder r) (LeftGrown (Entry l sk x r))"
proof (cases "sk = SKEW_LEFT")
  case True
  with assms obtain ll ls lx lr where l: "l = Entry ll ls lx lr" and h: "h = Suc (ht r)"
    by (cases l) auto
  show ?thesis
  proof (cases "ls = SKEW_RIGHT")
    case T: True
    then obtain t where "rotate_left_right l x r = Some t" "avl_ok t"
      "inorder t = inorder l @ x # inorder r" "ht t = Suc (Suc (ht r))"
      using rotate_left_right_ok [of l r ll lx lr x] assms l h by auto
    then show ?thesis
      using True T l h by (simp add: grew_def)
  next
    case False
    with assms l h True show ?thesis
      by (cases ls) (auto simp: grew_def max_def)
  qed
next
  case False
  with assms show ?thesis
    by (cases sk) (auto simp: grew_def max_def)
qed

lemma RightGrown_grew:
  assumes "avl_ok l" "avl_ok r" "skew_of sk (ht l) h" "ht r = Suc h" "leans r"
  shows "grew (Suc (max (ht l) h)) (inorder l @ x # inorder r) (RightGrown (Entry l sk x r))"
proof (cases "sk = SKEW_RIGHT")
  case True
  with assms obtain rl rs rx rr where r: "r = Entry rl rs rx rr" and h: "h = Suc (ht l)"
    by (cases r) auto
  show ?thesis
  proof (cases "rs = SKEW_LEFT")
    case T: True
    then obtain t where "rotate_right_left l x r = Some t" "avl_ok t"
      "inorder t = inorder l @ x # inorder r" "ht t = Suc (Suc (ht l))"
      using rotate_right_left_ok [of l r rl rx rr x] assms r h by auto
    then show ?thesis
      using True T r h by (simp add: grew_def)
  next
    case False
    with assms r h True show ?thesis
      by (cases rs) (auto simp: grew_def max_def)
  qed
next
  case False
  with assms show ?thesis
    by (cases sk) (auto simp: grew_def max_def)
qed

lemma LeftShrunk_shrank:
  assumes "avl_ok l" "avl_ok r" "skew_of sk h (ht r)" "h = Suc (ht l)"
  shows "shrank (Suc (max h (ht r))) (inorder l @ x # inorder r) (LeftShrunk (Entry l sk x r))"
proof (cases "sk = SKEW_RIGHT")
  case True
  with assms obtain rl rs rx rr where r: "r = Entry rl rs rx rr"
    by (cases r) auto
  show ?thesis
  proof (cases "rs = SKEW_LEFT")
    case T: True
    then obtain t where "rotate_right_left l x r = Some t" "avl_ok t"
      "inorder t = inorder l @ x # inorder r" "ht t = Suc (Suc (ht l))"
      using rotate_right_left_ok [of l r rl rx rr x] assms r True by auto
    then show ?thesis
      using True T r assms by (simp add: shrank_def)
  next
    case False
    with assms r True show ?thesis
      by (cases rs) (auto simp: shrank_def max_def)
  qed
next
  case False
  with assms show ?thesis
    by (cases sk) (auto simp: shrank_def max_def)
qed

lemma RightShrunk_shrank:
  assumes "avl_ok l" "avl_ok r" "skew_of sk (ht l) h" "h = Suc (ht r)"
  shows "shrank (Suc (max (ht l) h)) (inorder l @ x # inorder r) (RightShrunk (Entry l sk x r))"
proof (cases "sk = SKEW_LEFT")
  case True
  with assms obtain ll ls lx lr where l: "l = Entry ll ls lx lr"
    by (cases l) auto
  show ?thesis
  proof (cases "ls = SKEW_RIGHT")
    case T: True
    then obtain t where "rotate_left_right l x r = Some t" "avl_ok t"
      "inorder t = inorder l @ x # inorder r" "ht t = Suc (Suc (ht r))"
      using rotate_left_right_ok [of l r ll lx lr x] assms l True by auto
    then show ?thesis
      using True T l assms by (simp add: shrank_def)
  next
    case False
    with assms l True show ?thesis
      by (cases ls) (auto simp: shrank_def max_def)
  qed
next
  case False
  with assms show ?thesis
    by (cases sk) (auto simp: shrank_def max_def)
qed


lemma LeftShrunk_step:
  assumes "avl_ok (Entry l sk x r)" "avl_ok l'" "Suc (ht l') = ht l"
  shows "shrank (ht (Entry l sk x r)) (inorder l' @ y # inorder r) (LeftShrunk (Entry l' sk y r))"
  unfolding ht.simps by (rule LeftShrunk_shrank) (use assms in \<open>simp_all only: avl_ok.simps\<close>)

lemma RightShrunk_step:
  assumes "avl_ok (Entry l sk x r)" "avl_ok r'" "Suc (ht r') = ht r"
  shows "shrank (ht (Entry l sk x r)) (inorder l @ y # inorder r') (RightShrunk (Entry l sk y r'))"
  unfolding ht.simps by (rule RightShrunk_shrank) (use assms in \<open>simp_all only: avl_ok.simps\<close>)

section \<open>The owner's contract and what the tree promises\<close>

text \<open>
  \<open>payload\<close> is what an entry stores and \<open>node\<close> is its identity; \<open>inv s N\<close> says that the
  owner, in state \<open>s\<close>, counts exactly the nodes \<open>N\<close> as being in the tree.
\<close>

locale avl_owner =
  fixes ow :: "('e, 's) OwnerInfo"
    and payload :: "'e \<Rightarrow> 'p" and node :: "'e \<Rightarrow> 'n" and key :: "'p \<Rightarrow> 'k::linorder"
    and inv :: "'s \<Rightarrow> 'n multiset \<Rightarrow> bool"
  assumes compare_eq: "(ftn_compare ow s a b = 0) = (key (payload a) = key (payload b))"
    and compare_gt: "(ftn_compare ow s a b > 0) = (key (payload b) < key (payload a))"
    and new_some: "\<lbrakk>inv s N; ftn_newNode ow s d = (Some e, s')\<rbrakk> \<Longrightarrow>
      payload e = payload d \<and> inv s' (add_mset (node e) N)"
    and new_none: "\<lbrakk>inv s N; ftn_newNode ow s d = (None, s')\<rbrakk> \<Longrightarrow> inv s' N"
    and free: "\<lbrakk>inv s N; node x \<in># N\<rbrakk> \<Longrightarrow> inv (ftn_freeNode ow s x) (N - {#node x#})"
    and reassign: "\<lbrakk>inv s N; {#node x, node y#} \<subseteq># N; ftn_reassignNode ow s x y = (z, s')\<rbrakk> \<Longrightarrow>
      inv s' N \<and> node z = node y \<and> payload z = payload x"
begin

definition entries :: "'e avl \<Rightarrow> 'p list" where
  "entries t = map payload (inorder t)"

definition nodes :: "'e avl \<Rightarrow> 'n multiset" where
  "nodes t = mset (map node (inorder t))"

definition ordered :: "'e avl \<Rightarrow> bool" where
  "ordered t \<longleftrightarrow> sorted_wrt (\<lambda>p q. key p < key q) (entries t)"

lemma entries_simps [simp]:
  "entries Null = []" "entries (Entry l sk x r) = entries l @ payload x # entries r"
  by (simp_all add: entries_def)

lemma nodes_simps [simp]:
  "nodes Null = {#}" "nodes (Entry l sk x r) = add_mset (node x) (nodes l + nodes r)"
  by (simp_all add: nodes_def)

lemma ordered_simps [simp]:
  "ordered Null"
  "ordered (Entry l sk x r) \<longleftrightarrow> ordered l \<and> ordered r \<and>
     (\<forall>p\<in>set (entries l). key p < key (payload x)) \<and> (\<forall>p\<in>set (entries r). key (payload x) < key p)"
  by (fastforce simp: ordered_def sorted_wrt_append)+

lemma entries_cong: "inorder t = inorder t' \<Longrightarrow> entries t = entries t' \<and> nodes t = nodes t'"
  by (simp add: entries_def nodes_def)

lemma inorder_eq_Nil [simp]: "inorder t = [] \<longleftrightarrow> t = Null"
  by (cases t) auto

lemma compare_lt: "(ftn_compare ow s a b < 0) = (key (payload a) < key (payload b))"
  using compare_eq [of s a b] compare_gt [of s a b]
  by (cases "ftn_compare ow s a b" "0 :: int" rule: linorder_cases) auto

lemma find_at:
  assumes "sorted_wrt (\<lambda>p q. key p < key q) (xs @ p # ys)"
  shows "find (\<lambda>q. key q = key p) (xs @ p # ys) = Some p"
  using assms by (induction xs) (auto dest: less_imp_neq)

lemma Find_correct:
  assumes "ordered t"
  shows "map_option payload (Find ow s t d) = find (\<lambda>p. key p = key (payload d)) (entries t)"
proof -
  have *: "(case Find ow s t d of
     None \<Rightarrow> \<forall>p\<in>set (entries t). key p \<noteq> key (payload d)
   | Some x \<Rightarrow> payload x \<in> set (entries t) \<and> key (payload x) = key (payload d))"
    using assms
    by (induction t) (auto simp: Let_def compare_eq compare_gt split: option.splits)
  show ?thesis
  proof (cases "Find ow s t d")
    case None
    with * have "find (\<lambda>p. key p = key (payload d)) (entries t) = None"
      by (simp add: find_None_iff)
    with None show ?thesis
      by simp
  next
    case (Some x)
    with * obtain xs ys where e: "entries t = xs @ payload x # ys" "key (payload x) = key (payload d)"
      by (auto dest: split_list)
    with assms find_at [of xs "payload x" ys] Some show ?thesis
      by (simp add: ordered_def)
  qed
qed

definition placed :: "'p \<Rightarrow> 'p list \<Rightarrow> 'p list \<Rightarrow> bool" where
  "placed p es es' \<longleftrightarrow> (\<exists>xs ys. es = xs @ ys \<and> es' = xs @ p # ys \<and>
     (\<forall>q\<in>set xs. key q < key p) \<and> (\<forall>q\<in>set ys. key p < key q))"

lemma placed_Nil: "placed p [] [p]"
  by (auto simp: placed_def)

lemma placed_left:
  assumes "placed p es es'" "\<forall>q\<in>set rs. key p < key q"
  shows "placed p (es @ rs) (es' @ rs)"
proof -
  obtain xs ys where "es = xs @ ys" "es' = xs @ p # ys"
    "\<forall>q\<in>set xs. key q < key p" "\<forall>q\<in>set ys. key p < key q"
    using assms(1) by (auto simp: placed_def)
  with assms(2) show ?thesis
    unfolding placed_def by (intro exI [of _ xs] exI [of _ "ys @ rs"]) auto
qed

lemma placed_right:
  assumes "placed p es es'" "\<forall>q\<in>set ls. key q < key p"
  shows "placed p (ls @ es) (ls @ es')"
proof -
  obtain xs ys where "es = xs @ ys" "es' = xs @ p # ys"
    "\<forall>q\<in>set xs. key q < key p" "\<forall>q\<in>set ys. key p < key q"
    using assms(1) by (auto simp: placed_def)
  with assms(2) show ?thesis
    unfolding placed_def by (intro exI [of _ "ls @ xs"] exI [of _ ys]) auto
qed

lemma placed_ordered:
  assumes "placed p (entries t) (entries t')" "ordered t"
  shows "ordered t'"
  using assms by (auto simp: placed_def ordered_def sorted_wrt_append intro: less_trans)

lemma placed_fresh: "placed p es es' \<Longrightarrow> \<forall>q\<in>set es. key q \<noteq> key p"
  by (force simp: placed_def)

lemma placed_set: "placed p es es' \<Longrightarrow> set es' = insert p (set es)"
  by (auto simp: placed_def)

text \<open>The result of an insertion into the tree \<open>t\<close>, \<open>M\<close> being the nodes outside \<open>t\<close>.\<close>

definition inserted :: "'n multiset \<Rightarrow> 'e avl \<Rightarrow> 'e \<Rightarrow> ('e avl \<times> Result \<times> 's) option \<Rightarrow> bool" where
  "inserted M t d res = (case res of None \<Rightarrow> False | Some (t', c, s') \<Rightarrow>
     avl_ok t' \<and> inv s' (M + nodes t') \<and>
     (case c of
        RES_DUPLICATE \<Rightarrow> t' = t \<and> (\<exists>p\<in>set (entries t). key p = key (payload d))
      | RES_ERROR \<Rightarrow> t' = t \<and> (\<forall>p\<in>set (entries t). key p \<noteq> key (payload d))
      | RES_NOTFOUND \<Rightarrow> False
      | RES_OK \<Rightarrow> placed (payload d) (entries t) (entries t') \<and> ht t' = ht t
      | RES_BALANCE \<Rightarrow> placed (payload d) (entries t) (entries t') \<and> ht t' = Suc (ht t) \<and> leans t'))"

lemma inserted_Some: "inserted M t d res \<Longrightarrow> \<exists>t' c s'. res = Some (t', c, s')"
  by (auto simp: inserted_def split: option.splits)

lemma grew_Some: "grew h xs res \<Longrightarrow> \<exists>t c. res = Some (t, c) \<and> (c = RES_OK \<or> c = RES_BALANCE)"
  by (auto simp: grew_def split: option.splits)

lemma inserted_left:
  assumes ok: "avl_ok (Entry l sk x r)" "ordered (Entry l sk x r)"
    and k: "key (payload d) < key (payload x)"
    and i: "inserted (add_mset (node x) (M + nodes r)) l d (Some (l', c, s'))"
  shows "inserted M (Entry l sk x r) d
    (if c = RES_BALANCE then map_option (\<lambda>(n, res). (n, res, s')) (LeftGrown (Entry l' sk x r))
     else Some (Entry l' sk x r, c, s'))"
proof -
  have g: "\<forall>q\<in>set (payload x # entries r). key (payload d) < key q"
    using ok k by (auto intro: less_trans)
  show ?thesis
  proof (cases "c = RES_BALANCE")
    case True
    with i have gr: "grew (Suc (max (ht l) (ht r))) (inorder l' @ x # inorder r) (LeftGrown (Entry l' sk x r))"
      using ok by (intro LeftGrown_grew) (auto simp: inserted_def)
    then obtain n c' where n: "LeftGrown (Entry l' sk x r) = Some (n, c')" "c' = RES_OK \<or> c' = RES_BALANCE"
      using grew_Some by blast
    moreover from this gr have "entries n = entries l' @ payload x # entries r"
      "nodes n = add_mset (node x) (nodes l' + nodes r)"
      using entries_cong [of n "Entry l' sk x r"] by (simp_all add: grew_def)
    moreover have "placed (payload d) (entries l @ payload x # entries r) (entries l' @ payload x # entries r)"
      using i True g by (intro placed_left) (auto simp: inserted_def)
    ultimately show ?thesis
      using gr True i by (auto simp: inserted_def grew_def ac_simps)
  next
    case False
    then show ?thesis
      using i ok k g placed_left [of "payload d" "entries l" "entries l'", OF _ g]
      by (cases c) (auto simp: inserted_def ac_simps dest: less_imp_neq)
  qed
qed

lemma inserted_right:
  assumes ok: "avl_ok (Entry l sk x r)" "ordered (Entry l sk x r)"
    and k: "key (payload x) < key (payload d)"
    and i: "inserted (add_mset (node x) (M + nodes l)) r d (Some (r', c, s'))"
  shows "inserted M (Entry l sk x r) d
    (if c = RES_BALANCE then map_option (\<lambda>(n, res). (n, res, s')) (RightGrown (Entry l sk x r'))
     else Some (Entry l sk x r', c, s'))"
proof -
  have g: "\<forall>q\<in>set (entries l @ [payload x]). key q < key (payload d)"
    using ok k by (auto intro: less_trans)
  note pr = placed_right [OF _ g, of "entries r" "entries r'", simplified]
  show ?thesis
  proof (cases "c = RES_BALANCE")
    case True
    with i have gr: "grew (Suc (max (ht l) (ht r))) (inorder l @ x # inorder r') (RightGrown (Entry l sk x r'))"
      using ok by (intro RightGrown_grew) (auto simp: inserted_def)
    then obtain n c' where n: "RightGrown (Entry l sk x r') = Some (n, c')" "c' = RES_OK \<or> c' = RES_BALANCE"
      using grew_Some by blast
    moreover from this gr have "entries n = entries l @ payload x # entries r'"
      "nodes n = add_mset (node x) (nodes l + nodes r')"
      using entries_cong [of n "Entry l sk x r'"] by (simp_all add: grew_def)
    moreover have "placed (payload d) (entries l @ payload x # entries r) (entries l @ payload x # entries r')"
      using i True by (intro pr) (auto simp: inserted_def)
    ultimately show ?thesis
      using gr True i by (auto simp: inserted_def grew_def ac_simps)
  next
    case False
    then show ?thesis
      using i ok k g pr
      by (cases c) (auto simp: inserted_def ac_simps dest: less_imp_neq)
  qed
qed

lemma Insert_correct:
  assumes "avl_ok t" "ordered t" "inv s (M + nodes t)"
  shows "inserted M t d (Insert ow s t d)"
  using assms
proof (induction t arbitrary: M)
  case Null
  then show ?case
    by (cases "ftn_newNode ow s d")
       (auto simp: inserted_def placed_Nil dest: new_some new_none split: option.splits)
next
  case (Entry l sk x r)
  note ok = Entry.prems
  consider "ftn_compare ow s x d > 0" | "ftn_compare ow s x d < 0" | "ftn_compare ow s x d = 0"
    by linarith
  then show ?case
  proof cases
    case 1
    have "inserted (add_mset (node x) (M + nodes r)) l d (Insert ow s l d)"
      using ok by (intro Entry.IH(1)) (simp_all add: ac_simps)
    moreover from inserted_Some [OF this] obtain l' c s' where "Insert ow s l d = Some (l', c, s')"
      by blast
    ultimately show ?thesis
      using 1 inserted_left [OF ok(1,2), of d M l' c s'] by (simp add: compare_gt)
  next
    case 2
    have "inserted (add_mset (node x) (M + nodes l)) r d (Insert ow s r d)"
      using ok by (intro Entry.IH(2)) (simp_all add: ac_simps)
    moreover from inserted_Some [OF this] obtain r' c s' where "Insert ow s r d = Some (r', c, s')"
      by blast
    ultimately show ?thesis
      using 2 inserted_right [OF ok(1,2), of d M r' c s'] compare_lt [of s x d]
      by (simp add: Let_def not_less order.strict_implies_order)
  next
    case 3
    then have "Insert ow s (Entry l sk x r) d = Some (Entry l sk x r, RES_DUPLICATE, s)"
      by simp
    with 3 ok show ?thesis
      by (auto simp: inserted_def compare_eq)
  qed
qed

text \<open>Taking the highest or the lowest entry of a subtree for the target.\<close>

definition taken :: "'n multiset \<Rightarrow> 'e avl \<Rightarrow> 'e list \<Rightarrow> 'e \<Rightarrow> 'e \<Rightarrow>
    (bool \<times> 'e avl \<times> 'e \<times> Result \<times> 's) option \<Rightarrow> bool" where
  "taken M t rest x target res = (case res of None \<Rightarrow> False | Some (found, t', tg, c, s') \<Rightarrow>
     found \<and> shrank (ht t) rest (Some (t', c)) \<and> payload tg = payload x \<and> node tg = node target \<and>
     inv s' (M + mset (map node rest)))"

lemma taken_Some:
  "taken M t rest x tg res \<Longrightarrow> \<exists>t' tg' c s'. res = Some (True, t', tg', c, s')"
  by (auto simp: taken_def split: option.splits)

lemma shrank_Some: "shrank h xs res \<Longrightarrow> \<exists>t c. res = Some (t, c)"
  by (auto simp: shrank_def split: option.splits)

lemma take_node:
  assumes "inv s (M + add_mset (node x) N)" "node target \<in># M"
  shows "(case ftn_reassignNode ow s x target of (tg, s1) \<Rightarrow>
     inv (ftn_freeNode ow s1 x) (M + N) \<and> payload tg = payload x \<and> node tg = node target)"
proof -
  obtain tg s1 where r: "ftn_reassignNode ow s x target = (tg, s1)"
    by force
  have "{#node x, node target#} \<subseteq># M + add_mset (node x) N"
    using assms(2) by (auto dest!: multi_member_split simp: ac_simps)
  with reassign [OF assms(1) _ r] have "inv s1 (M + add_mset (node x) N)"
    "node tg = node target" "payload tg = payload x"
    by auto
  with r free [of s1 "M + add_mset (node x) N" x] show ?thesis
    by simp
qed

lemma FindHighest_taken:
  assumes "avl_ok t" "t \<noteq> Null" "inv s (M + nodes t)" "node target \<in># M"
  shows "taken M t (butlast (inorder t)) (last (inorder t)) target (FindHighest ow s t target)"
  using assms
proof (induction t arbitrary: M)
  case Null
  then show ?case by simp
next
  case (Entry l sk x r)
  show ?case
  proof (cases "r = Null")
    case True
    with Entry.prems have ht: "ht l \<le> 1" "avl_ok l" "sk \<noteq> SKEW_RIGHT"
      by (cases sk; simp)+
    moreover have "shrank (Suc (ht l)) (inorder l) (Some (l, RES_BALANCE))"
      using ht by (simp add: shrank_def)
    ultimately show ?thesis
      using take_node [of s M x "nodes l" target] Entry.prems True
      by (auto simp: taken_def nodes_def split: prod.splits)
  next
    case False
    have "taken (add_mset (node x) (M + nodes l)) r (butlast (inorder r)) (last (inorder r)) target
        (FindHighest ow s r target)"
      using Entry.prems False by (intro Entry.IH(2)) (simp_all add: ac_simps)
    moreover from taken_Some [OF this] obtain r' tg c s' where
      f: "FindHighest ow s r target = Some (True, r', tg, c, s')"
      by blast
    ultimately have t: "taken (add_mset (node x) (M + nodes l)) r (butlast (inorder r)) (last (inorder r)) target
        (Some (True, r', tg, c, s'))"
      by simp
    show ?thesis
    proof (cases "c = RES_BALANCE")
      case True
      with t Entry.prems have s: "shrank (Suc (max (ht l) (ht r))) (inorder l @ x # inorder r') (RightShrunk (Entry l sk x r'))"
        by (intro RightShrunk_shrank) (auto simp: taken_def shrank_def)
      moreover from shrank_Some [OF s] obtain n c' where "RightShrunk (Entry l sk x r') = Some (n, c')"
        by blast
      ultimately show ?thesis
        using f t True False by (auto simp: taken_def shrank_def butlast_append nodes_def ac_simps)
    next
      case c: False
      with f t False Entry.prems show ?thesis
        by (auto simp: taken_def shrank_def butlast_append nodes_def ac_simps)
    qed
  qed
qed

lemma FindLowest_taken:
  assumes "avl_ok t" "t \<noteq> Null" "inv s (M + nodes t)" "node target \<in># M"
  shows "taken M t (tl (inorder t)) (hd (inorder t)) target (FindLowest ow s t target)"
  using assms
proof (induction t arbitrary: M)
  case Null
  then show ?case by simp
next
  case (Entry l sk x r)
  show ?case
  proof (cases "l = Null")
    case True
    with Entry.prems have ht: "ht r \<le> 1" "avl_ok r" "sk \<noteq> SKEW_LEFT"
      by (cases sk; simp)+
    moreover have "shrank (Suc (ht r)) (inorder r) (Some (r, RES_BALANCE))"
      using ht by (simp add: shrank_def)
    ultimately show ?thesis
      using take_node [of s M x "nodes r" target] Entry.prems True
      by (auto simp: taken_def nodes_def split: prod.splits)
  next
    case False
    have "taken (add_mset (node x) (M + nodes r)) l (tl (inorder l)) (hd (inorder l)) target
        (FindLowest ow s l target)"
      using Entry.prems False by (intro Entry.IH(1)) (simp_all add: ac_simps)
    moreover from taken_Some [OF this] obtain l' tg c s' where
      f: "FindLowest ow s l target = Some (True, l', tg, c, s')"
      by blast
    ultimately have t: "taken (add_mset (node x) (M + nodes r)) l (tl (inorder l)) (hd (inorder l)) target
        (Some (True, l', tg, c, s'))"
      by simp
    show ?thesis
    proof (cases "c = RES_BALANCE")
      case True
      with t Entry.prems have s: "shrank (Suc (max (ht l) (ht r))) (inorder l' @ x # inorder r) (LeftShrunk (Entry l' sk x r))"
        by (intro LeftShrunk_shrank) (auto simp: taken_def shrank_def)
      moreover from shrank_Some [OF s] obtain n c' where "LeftShrunk (Entry l' sk x r) = Some (n, c')"
        by blast
      ultimately show ?thesis
        using f t True False by (auto simp: taken_def shrank_def nodes_def ac_simps)
    next
      case c: False
      with f t False Entry.prems show ?thesis
        by (auto simp: taken_def shrank_def nodes_def ac_simps)
    qed
  qed
qed

definition dropped :: "'k \<Rightarrow> 'p list \<Rightarrow> 'p list \<Rightarrow> bool" where
  "dropped k es es' \<longleftrightarrow> (\<exists>xs p ys. es = xs @ p # ys \<and> es' = xs @ ys \<and> key p = k)"

lemma dropped_here: "dropped (key p) (xs @ p # ys) (xs @ ys)"
  by (auto simp: dropped_def)

lemma dropped_left: "dropped k es es' \<Longrightarrow> dropped k (es @ rs) (es' @ rs)"
  by (fastforce simp: dropped_def)

lemma dropped_right: "dropped k es es' \<Longrightarrow> dropped k (ls @ es) (ls @ es')"
  unfolding dropped_def by (metis append_assoc)

lemma dropped_ordered:
  assumes "dropped k (entries t) (entries t')" "ordered t"
  shows "ordered t'"
  using assms by (auto simp: dropped_def ordered_def sorted_wrt_append)

lemma dropped_set:
  assumes "dropped k (entries t) (entries t')" "ordered t"
  shows "set (entries t') = {q \<in> set (entries t). key q \<noteq> k}"
  using assms by (force simp: dropped_def ordered_def sorted_wrt_append)

lemma dropped_hit: "dropped k es es' \<Longrightarrow> \<exists>p\<in>set es. key p = k"
  by (auto simp: dropped_def)

lemma dropped_length:
  "dropped k (entries t) (entries t') \<Longrightarrow> length (inorder t) = Suc (length (inorder t'))"
  by (auto simp: dropped_def dest!: arg_cong [of _ _ length]) (simp add: entries_def)

definition removed :: "'n multiset \<Rightarrow> 'e avl \<Rightarrow> 'e \<Rightarrow> ('e avl \<times> Result \<times> 's) option \<Rightarrow> bool" where
  "removed M t d res = (case res of None \<Rightarrow> False | Some (t', c, s') \<Rightarrow>
     avl_ok t' \<and> inv s' (M + nodes t') \<and>
     (case c of
        RES_NOTFOUND \<Rightarrow> t' = t \<and> (\<forall>p\<in>set (entries t). key p \<noteq> key (payload d))
      | RES_OK \<Rightarrow> dropped (key (payload d)) (entries t) (entries t') \<and> ht t' = ht t
      | RES_BALANCE \<Rightarrow> dropped (key (payload d)) (entries t) (entries t') \<and> Suc (ht t') = ht t
      | _ \<Rightarrow> False))"

lemma removed_Some: "removed M t d res \<Longrightarrow> \<exists>t' c s'. res = Some (t', c, s')"
  by (auto simp: removed_def split: option.splits)

lemma removed_shrank:
  assumes "shrank (ht t) xs res" "entries t = es" "dropped (key (payload d)) es (map payload xs)"
    "inv s' (M + mset (map node xs))"
  shows "removed M t d (map_option (\<lambda>(n, c). (n, c, s')) res)"
  using assms by (auto simp: removed_def shrank_def entries_def nodes_def split: option.splits)

lemma Remove_here_removed:
  assumes ok: "avl_ok (Entry l sk x r)" "inv s (M + nodes (Entry l sk x r))"
    and k: "key (payload x) = key (payload d)"
  shows "removed M (Entry l sk x r) d (Remove_here ow s l sk x r)"
proof (cases "l = Null")
  case False
  have "taken (add_mset (node x) (M + nodes r)) l (butlast (inorder l)) (last (inorder l)) x
      (FindHighest ow s l x)"
    using ok False by (intro FindHighest_taken) (simp_all add: ac_simps)
  moreover from taken_Some [OF this] obtain l' tg c s' where
    f: "FindHighest ow s l x = Some (True, l', tg, c, s')"
    by blast
  ultimately have t: "taken (add_mset (node x) (M + nodes r)) l (butlast (inorder l)) (last (inorder l)) x
      (Some (True, l', tg, c, s'))"
    by simp
  have "entries l = map payload (butlast (inorder l) @ [last (inorder l)])"
    using False by (simp add: entries_def)
  with t have e: "entries l = entries l' @ [payload tg]"
    by (simp add: entries_def taken_def shrank_def del: append_butlast_last_id)
  then have d: "dropped (key (payload d)) (entries (Entry l sk x r))
      (map payload (inorder l' @ tg # inorder r))"
    using dropped_here [of "payload x" "entries l' @ [payload tg]" "entries r"] k
    by (simp add: entries_def)
  have n: "inv s' (M + mset (map node (inorder l' @ tg # inorder r)))"
    using t by (auto simp: taken_def shrank_def nodes_def ac_simps)
  show ?thesis
  proof (cases "c = RES_BALANCE")
    case True
    then have "shrank (ht (Entry l sk x r)) (inorder l' @ tg # inorder r) (LeftShrunk (Entry l' sk tg r))"
      using t by (intro LeftShrunk_step ok) (auto simp: taken_def shrank_def)
    from removed_shrank [OF this refl d n] show ?thesis
      using False True f by (simp add: Remove_here_def)
  next
    case c: False
    then have s: "shrank (ht (Entry l sk x r)) (inorder l' @ tg # inorder r) (Some (Entry l' sk tg r, c))"
      using t ok by (auto simp: taken_def shrank_def)
    from removed_shrank [OF s refl d n] show ?thesis
      using False c f by (simp add: Remove_here_def)
  qed
next
  case l: True
  show ?thesis
  proof (cases "r = Null")
    case True
    have "shrank (ht (Entry l sk x r)) [] (Some (Null, RES_BALANCE))"
      using l True by (simp add: shrank_def)
    moreover have "dropped (key (payload d)) (entries (Entry l sk x r)) (map payload [])"
      using dropped_here [of "payload x" "[]" "[]"] k l True by simp
    moreover have "inv (ftn_freeNode ow s x) (M + mset (map node []))"
      using free [OF ok(2), of x] l True by simp
    ultimately show ?thesis
      using removed_shrank [of "Entry l sk x r" "[]" _ _ d] l True by (fastforce simp: Remove_here_def)
  next
    case False
    have "taken (add_mset (node x) (M + nodes l)) r (tl (inorder r)) (hd (inorder r)) x
        (FindLowest ow s r x)"
      using ok False by (intro FindLowest_taken) (simp_all add: ac_simps)
    moreover from taken_Some [OF this] obtain r' tg c s' where
      f: "FindLowest ow s r x = Some (True, r', tg, c, s')"
      by blast
    ultimately have t: "taken (add_mset (node x) (M + nodes l)) r (tl (inorder r)) (hd (inorder r)) x
        (Some (True, r', tg, c, s'))"
      by simp
    have "entries r = map payload (hd (inorder r) # tl (inorder r))"
      using False by (simp add: entries_def)
    with t have e: "entries r = payload tg # entries r'"
      by (simp add: entries_def taken_def shrank_def del: list.collapse)
    then have d: "dropped (key (payload d)) (entries (Entry l sk x r))
        (map payload (inorder l @ tg # inorder r'))"
      using dropped_here [of "payload x" "[]" "payload tg # entries r'"] k l
      by (simp add: entries_def)
    have n: "inv s' (M + mset (map node (inorder l @ tg # inorder r')))"
      using t by (auto simp: taken_def shrank_def nodes_def ac_simps)
    show ?thesis
    proof (cases "c = RES_BALANCE")
      case True
      then have "shrank (ht (Entry l sk x r)) (inorder l @ tg # inorder r') (RightShrunk (Entry l sk tg r'))"
        using t by (intro RightShrunk_step ok) (auto simp: taken_def shrank_def)
      from removed_shrank [OF this refl d n] show ?thesis
        using False True f l by (simp add: Remove_here_def)
    next
      case c: False
      then have s: "shrank (ht (Entry l sk x r)) (inorder l @ tg # inorder r') (Some (Entry l sk tg r', c))"
        using t ok by (auto simp: taken_def shrank_def)
      from removed_shrank [OF s refl d n] show ?thesis
        using False c f l by (simp add: Remove_here_def)
    qed
  qed
qed

lemma removed_left:
  assumes ok: "avl_ok (Entry l sk x r)" "ordered (Entry l sk x r)"
    and k: "key (payload d) < key (payload x)"
    and i: "removed (add_mset (node x) (M + nodes r)) l d (Some (l', c, s'))"
  shows "removed M (Entry l sk x r) d
    (if c = RES_BALANCE then map_option (\<lambda>(n, res). (n, res, s')) (LeftShrunk (Entry l' sk x r))
     else Some (Entry l' sk x r, c, s'))"
proof (cases "c = RES_BALANCE")
  case True
  with i have s: "shrank (ht (Entry l sk x r)) (inorder l' @ x # inorder r) (LeftShrunk (Entry l' sk x r))"
    by (intro LeftShrunk_step ok) (simp_all add: removed_def)
  have d: "dropped (key (payload d)) (entries (Entry l sk x r)) (map payload (inorder l' @ x # inorder r))"
    using i True dropped_left [of _ "entries l" "entries l'" "payload x # entries r"]
    by (simp add: removed_def entries_def)
  have n: "inv s' (M + mset (map node (inorder l' @ x # inorder r)))"
    using i by (simp add: removed_def nodes_def ac_simps)
  from removed_shrank [OF s refl d n] True show ?thesis
    by simp
next
  case False
  moreover have "\<forall>p\<in>set (entries r). key p \<noteq> key (payload d)"
    using ok k by fastforce
  ultimately show ?thesis
    using i ok k dropped_left [of _ "entries l" "entries l'" "payload x # entries r"]
    by (cases c) (auto simp: removed_def ac_simps)
qed

lemma removed_right:
  assumes ok: "avl_ok (Entry l sk x r)" "ordered (Entry l sk x r)"
    and k: "key (payload x) < key (payload d)"
    and i: "removed (add_mset (node x) (M + nodes l)) r d (Some (r', c, s'))"
  shows "removed M (Entry l sk x r) d
    (if c = RES_BALANCE then map_option (\<lambda>(n, res). (n, res, s')) (RightShrunk (Entry l sk x r'))
     else Some (Entry l sk x r', c, s'))"
proof (cases "c = RES_BALANCE")
  case True
  with i have s: "shrank (ht (Entry l sk x r)) (inorder l @ x # inorder r') (RightShrunk (Entry l sk x r'))"
    by (intro RightShrunk_step ok) (simp_all add: removed_def)
  have d: "dropped (key (payload d)) (entries (Entry l sk x r)) (map payload (inorder l @ x # inorder r'))"
    using i True dropped_right [of _ "entries r" "entries r'" "entries l @ [payload x]"]
    by (simp add: removed_def entries_def)
  have n: "inv s' (M + mset (map node (inorder l @ x # inorder r')))"
    using i by (simp add: removed_def nodes_def ac_simps)
  from removed_shrank [OF s refl d n] True show ?thesis
    by simp
next
  case False
  moreover have "\<forall>p\<in>set (entries l). key p \<noteq> key (payload d)"
    using ok k by fastforce
  ultimately show ?thesis
    using i ok k dropped_right [of _ "entries r" "entries r'" "entries l @ [payload x]"]
    by (cases c) (auto simp: removed_def ac_simps)
qed

lemma Remove_correct:
  assumes "avl_ok t" "ordered t" "inv s (M + nodes t)"
  shows "removed M t d (Remove ow s t d)"
  using assms
proof (induction t arbitrary: M)
  case Null
  then show ?case
    by (simp add: removed_def)
next
  case (Entry l sk x r)
  note ok = Entry.prems
  consider "ftn_compare ow s x d > 0" | "ftn_compare ow s x d < 0" | "ftn_compare ow s x d = 0"
    by linarith
  then show ?case
  proof cases
    case 1
    have "removed (add_mset (node x) (M + nodes r)) l d (Remove ow s l d)"
      using ok by (intro Entry.IH(1)) (simp_all add: ac_simps)
    moreover from removed_Some [OF this] obtain l' c s' where "Remove ow s l d = Some (l', c, s')"
      by blast
    ultimately show ?thesis
      using 1 removed_left [OF ok(1,2), of d M l' c s'] by (simp add: compare_gt)
  next
    case 2
    have "removed (add_mset (node x) (M + nodes l)) r d (Remove ow s r d)"
      using ok by (intro Entry.IH(2)) (simp_all add: ac_simps)
    moreover from removed_Some [OF this] obtain r' c s' where "Remove ow s r d = Some (r', c, s')"
      by blast
    ultimately show ?thesis
      using 2 removed_right [OF ok(1,2), of d M r' c s'] compare_lt [of s x d]
      by (simp add: Let_def not_less order.strict_implies_order)
  next
    case 3
    then have "Remove ow s (Entry l sk x r) d = Remove_here ow s l sk x r"
      by simp
    with 3 Remove_here_removed [OF ok(1,3)] show ?thesis
      by (simp add: compare_eq)
  qed
qed

text \<open>The finite map the tree stands for.\<close>

definition lookup :: "'e avl \<Rightarrow> 'k \<Rightarrow> 'p option" where
  "lookup t = map_of (map (\<lambda>p. (key p, p)) (entries t))"

lemma lookup_Null [simp]: "lookup Null = Map.empty"
  by (simp add: lookup_def)

lemma map_of_find: "map_of (map (\<lambda>p. (key p, p)) ps) k = find (\<lambda>p. key p = k) ps"
  by (induction ps) auto

lemma lookup_Find: "ordered t \<Longrightarrow> lookup t (key (payload d)) = map_option payload (Find ow s t d)"
  by (simp add: Find_correct lookup_def map_of_find)

lemma lookup_None: "lookup t k = None \<longleftrightarrow> (\<forall>p\<in>set (entries t). key p \<noteq> k)"
  by (force simp: lookup_def map_of_eq_None_iff)

lemma lookup_Some: "ordered t \<Longrightarrow> lookup t k = Some p \<longleftrightarrow> p \<in> set (entries t) \<and> key p = k"
proof -
  assume o: "ordered t"
  have "p \<in> set (entries t) \<Longrightarrow> lookup t (key p) = Some p"
    using o by (auto simp: lookup_def map_of_find ordered_def find_at dest!: split_list)
  then show ?thesis
    by (auto simp: lookup_def map_of_find find_Some_iff dest: nth_mem)
qed

lemma lookup_placed:
  assumes "placed p (entries t) (entries t')" "ordered t"
  shows "lookup t' = (lookup t)(key p \<mapsto> p)"
proof
  fix k
  have o': "ordered t'"
    using assms by (rule placed_ordered)
  show "lookup t' k = ((lookup t)(key p \<mapsto> p)) k"
  proof (cases "k = key p")
    case True
    then show ?thesis
      using o' placed_set [OF assms(1)] by (simp add: lookup_Some)
  next
    case False
    then have "lookup t' k = Some q \<longleftrightarrow> lookup t k = Some q" for q
      using assms(2) o' placed_set [OF assms(1)] by (auto simp: lookup_Some)
    with False show ?thesis
      by (metis fun_upd_other not_Some_eq)
  qed
qed

lemma lookup_dropped:
  assumes "dropped k (entries t) (entries t')" "ordered t"
  shows "lookup t' = (lookup t)(k := None)"
proof
  fix j
  have o': "ordered t'"
    using assms by (rule dropped_ordered)
  have "lookup t' j = Some q \<longleftrightarrow> ((lookup t)(k := None)) j = Some q" for q
    using assms(2) o' dropped_set [OF assms] by (auto simp: lookup_Some)
  then show "lookup t' j = ((lookup t)(k := None)) j"
    by (metis not_Some_eq)
qed

definition tree_ok :: "'s \<Rightarrow> 'e avl \<Rightarrow> bool" where
  "tree_ok s t \<longleftrightarrow> avl_ok t \<and> ordered t \<and> inv s (nodes t)"

theorem Insert_refines_map:
  assumes "tree_ok s t"
  obtains t' c s' where "Insert ow s t d = Some (t', c, s')" "tree_ok s' t'"
    "c = RES_DUPLICATE \<longleftrightarrow> lookup t (key (payload d)) \<noteq> None"
    "c \<noteq> RES_NOTFOUND"
    "lookup t' = (if c = RES_OK \<or> c = RES_BALANCE then (lookup t)(key (payload d) \<mapsto> payload d) else lookup t)"
    "c = RES_ERROR \<or> c = RES_DUPLICATE \<Longrightarrow> t' = t"
    "ht t' = (if c = RES_BALANCE then Suc (ht t) else ht t)"
proof -
  have i: "inserted {#} t d (Insert ow s t d)"
    using assms by (intro Insert_correct) (auto simp: tree_ok_def)
  from inserted_Some [OF this] obtain t' c s' where e: "Insert ow s t d = Some (t', c, s')"
    by blast
  have o: "ordered t"
    using assms by (simp add: tree_ok_def)
  have "tree_ok s' t'" "c = RES_DUPLICATE \<longleftrightarrow> lookup t (key (payload d)) \<noteq> None" "c \<noteq> RES_NOTFOUND"
    using i o e placed_ordered [of "payload d" t t'] placed_fresh [of "payload d" "entries t" "entries t'"]
    by (cases c; auto simp: inserted_def tree_ok_def lookup_None)+
  moreover have "lookup t' = (if c = RES_OK \<or> c = RES_BALANCE then (lookup t)(key (payload d) \<mapsto> payload d)
      else lookup t)" "c = RES_ERROR \<or> c = RES_DUPLICATE \<Longrightarrow> t' = t"
    "ht t' = (if c = RES_BALANCE then Suc (ht t) else ht t)"
    using i o e lookup_placed [of "payload d" t t'] by (cases c; auto simp: inserted_def)+
  ultimately show thesis
    using that e by blast
qed

theorem Remove_refines_map:
  assumes "tree_ok s t"
  obtains t' c s' where "Remove ow s t d = Some (t', c, s')" "tree_ok s' t'"
    "c = RES_NOTFOUND \<longleftrightarrow> lookup t (key (payload d)) = None"
    "c \<in> {RES_OK, RES_BALANCE, RES_NOTFOUND}"
    "lookup t' = (lookup t)(key (payload d) := None)"
    "ht t = (if c = RES_BALANCE then Suc (ht t') else ht t')"
    "length (inorder t) = (if c = RES_NOTFOUND then length (inorder t') else Suc (length (inorder t')))"
proof -
  have i: "removed {#} t d (Remove ow s t d)"
    using assms by (intro Remove_correct) (auto simp: tree_ok_def)
  from removed_Some [OF this] obtain t' c s' where e: "Remove ow s t d = Some (t', c, s')"
    by blast
  have o: "ordered t"
    using assms by (simp add: tree_ok_def)
  have "tree_ok s' t'" "c = RES_NOTFOUND \<longleftrightarrow> lookup t (key (payload d)) = None"
    "c \<in> {RES_OK, RES_BALANCE, RES_NOTFOUND}"
    using i o e dropped_ordered [of "key (payload d)" t t'] dropped_hit [of "key (payload d)" "entries t" "entries t'"]
    by (cases c; auto simp: removed_def tree_ok_def lookup_None)+
  moreover have "lookup t' = (lookup t)(key (payload d) := None)"
    "ht t = (if c = RES_BALANCE then Suc (ht t') else ht t')"
    using i o e lookup_dropped [of "key (payload d)" t t']
    by (cases c; auto simp: removed_def lookup_None [symmetric] fun_upd_idem)+
  moreover have "length (inorder t) = (if c = RES_NOTFOUND then length (inorder t') else Suc (length (inorder t')))"
    using i unfolding e by (cases c) (auto simp: removed_def intro: dropped_length)
  ultimately show thesis
    by (rule that [OF e])
qed

end

section \<open>What an insertion does to the owner\<close>

lemma Find_mem: "Find ow s t d = Some x \<Longrightarrow> x \<in> set (inorder t) \<and> ftn_compare ow s x d = 0"
  by (induction t) (auto simp: Let_def split: if_splits)

lemma RotateLeft_inorder: "RotateLeft t = Some n \<Longrightarrow> inorder n = inorder t"
  by (cases t rule: RotateLeft.cases) auto

lemma RotateRight_inorder: "RotateRight t = Some n \<Longrightarrow> inorder n = inorder t"
  by (cases t rule: RotateRight.cases) auto

lemma rotate_left_right_inorder:
  "rotate_left_right l x r = Some n \<Longrightarrow> inorder n = inorder l @ x # inorder r"
  by (cases "(l, x, r)" rule: rotate_left_right.cases)
     (auto simp: bind_eq_Some_conv split: prod.splits dest!: RotateLeft_inorder RotateRight_inorder)

lemma rotate_right_left_inorder:
  "rotate_right_left l x r = Some n \<Longrightarrow> inorder n = inorder l @ x # inorder r"
  by (cases "(l, x, r)" rule: rotate_right_left.cases)
     (auto simp: bind_eq_Some_conv split: prod.splits dest!: RotateLeft_inorder RotateRight_inorder)

lemma LeftGrown_inorder:
  "LeftGrown t = Some (n, c) \<Longrightarrow> inorder n = inorder t \<and> (c = RES_OK \<or> c = RES_BALANCE)"
  by (cases t rule: LeftGrown.cases)
     (auto split: avl.splits if_splits dest!: rotate_left_right_inorder RotateRight_inorder)

lemma RightGrown_inorder:
  "RightGrown t = Some (n, c) \<Longrightarrow> inorder n = inorder t \<and> (c = RES_OK \<or> c = RES_BALANCE)"
  by (cases t rule: RightGrown.cases)
     (auto split: avl.splits if_splits dest!: rotate_right_left_inorder RotateLeft_inorder)

lemma Insert_new:
  assumes "Insert ow s t d = Some (t', c, s')"
  shows "(case c of
      RES_DUPLICATE \<Rightarrow> s' = s
    | RES_ERROR \<Rightarrow> ftn_newNode ow s d = (None, s')
    | RES_NOTFOUND \<Rightarrow> False
    | _ \<Rightarrow> (\<exists>e \<in> set (inorder t'). ftn_newNode ow s d = (Some e, s')))"
  using assms
proof (induction t arbitrary: t' c s')
  case Null
  then show ?case
    by (auto split: option.splits prod.splits)
next
  case (Entry l sk x r)
  consider "ftn_compare ow s x d > 0" | "ftn_compare ow s x d < 0" | "ftn_compare ow s x d = 0"
    by linarith
  then show ?case
  proof cases
    case 1
    with Entry.prems obtain l' c1 s1 where i: "Insert ow s l d = Some (l', c1, s1)"
      and r: "(if c1 = RES_BALANCE then map_option (\<lambda>(n, res). (n, res, s1)) (LeftGrown (Entry l' sk x r))
        else Some (Entry l' sk x r, c1, s1)) = Some (t', c, s')"
      by (auto simp: bind_eq_Some_conv)
    from Entry.IH(1) [OF i] r show ?thesis
      by (cases c1) (auto dest!: LeftGrown_inorder)
  next
    case 2
    with Entry.prems obtain r' c1 s1 where i: "Insert ow s r d = Some (r', c1, s1)"
      and r: "(if c1 = RES_BALANCE then map_option (\<lambda>(n, res). (n, res, s1)) (RightGrown (Entry l sk x r'))
        else Some (Entry l sk x r', c1, s1)) = Some (t', c, s')"
      by (auto simp: bind_eq_Some_conv)
    from Entry.IH(2) [OF i] r show ?thesis
      by (cases c1) (auto dest!: RightGrown_inorder)
  next
    case 3
    with Entry.prems show ?thesis
      by auto
  qed
qed

section \<open>Height\<close>

lemma avl_height:
  assumes "avl_ok t"
  shows "2 ^ ht t \<le> (Suc (length (inorder t)))\<^sup>2"
  using assms
proof (induction t)
  case Null
  then show ?case by simp
next
  case (Entry l sk x r)
  define A B where "A = Suc (length (inorder l))" and "B = Suc (length (inorder r))"
  have AB: "2 ^ ht l \<le> A\<^sup>2" "2 ^ ht r \<le> B\<^sup>2"
    using Entry by (simp_all add: A_def B_def)
  have step: "2 ^ Suc (Suc h) \<le> (a + b)\<^sup>2" if "2 ^ Suc h \<le> a\<^sup>2" "2 ^ h \<le> b\<^sup>2" for a b h :: nat
  proof -
    have "(2 ^ h)\<^sup>2 \<le> (2 ^ Suc h :: nat) * 2 ^ h"
      by (simp add: power2_eq_square)
    also have "\<dots> \<le> a\<^sup>2 * b\<^sup>2"
      using that by (rule mult_le_mono)
    finally have "2 ^ h \<le> a * b"
      by (simp add: power_mult_distrib [symmetric])
    with that show ?thesis
      by (simp add: power2_sum)
  qed
  have eq: "2 ^ Suc h \<le> (a + b)\<^sup>2" if "2 ^ h \<le> a\<^sup>2" "2 ^ h \<le> b\<^sup>2" for a b h :: nat
    using that by (simp add: power2_sum)
  have "2 ^ Suc (max (ht l) (ht r)) \<le> (A + B)\<^sup>2"
    using Entry.prems AB step [of "ht r" A B] step [of "ht l" B A] eq [of "ht l" A B]
    by (cases sk) (auto simp: max_def add.commute)
  then show ?case
    by (simp add: A_def B_def)
qed

end
