(* ===== verification/MethodCache.thy ===== *)
theory MethodCache
  imports AvlTree "HOL-Library.Product_Lexorder"
begin

text \<open>
  The virtual method cache of the CLR in its AVL tree form (\<open>CLR/Core/Cache.cpp\<close> and
  \<open>CLR_RT_EventCache\<close> in \<open>CLR/Include/TinyCLR_Runtime.h\<close>, under
  \<open>TINYCLR_USE_AVLTREE_FOR_METHODLOOKUP\<close>). A \<open>LookupEntry\<close> is its index in the array of
  entries with its payload; the two lists of the table hold indices, most recently used first.
  An entry is on at most one list, so unlinking it from the list it is on is removing it from
  both. What the type system answers is an argument: the class that declares a method, whether a
  method is abstract, and \<open>FindVirtualMethodDef\<close>.
\<close>

section \<open>Data and the owner's callbacks\<close>

record Payload =
  m_mdVirtual :: u32
  m_cls :: u32
  m_md :: u32

definition Compare :: "Payload \<Rightarrow> Payload \<Rightarrow> int" where
  "Compare a b =
     (if m_mdVirtual a = m_mdVirtual b
      then (if m_cls a = m_cls b then 0 else if m_cls a < m_cls b then -1 else 1)
      else if m_mdVirtual a < m_mdVirtual b then -1 else 1)"

type_synonym LookupEntry = "nat \<times> Payload"

record VmtLists =
  m_list_freeItems :: "nat list"
  m_list_inUse :: "nat list"

definition RemoveFromList :: "nat \<Rightarrow> VmtLists \<Rightarrow> VmtLists" where
  "RemoveFromList n s = s\<lparr>m_list_freeItems := remove1 n (m_list_freeItems s),
     m_list_inUse := remove1 n (m_list_inUse s)\<rparr>"

definition inUse_LinkAtFront :: "nat \<Rightarrow> VmtLists \<Rightarrow> VmtLists" where
  "inUse_LinkAtFront n s = (let s' = RemoveFromList n s in s'\<lparr>m_list_inUse := n # m_list_inUse s'\<rparr>)"

definition freeItems_LinkAtBack :: "nat \<Rightarrow> VmtLists \<Rightarrow> VmtLists" where
  "freeItems_LinkAtBack n s = (let s' = RemoveFromList n s in
     s'\<lparr>m_list_freeItems := m_list_freeItems s' @ [n]\<rparr>)"

definition freeItems_ExtractFirstNode :: "VmtLists \<Rightarrow> nat option \<times> VmtLists" where
  "freeItems_ExtractFirstNode s = (case m_list_freeItems s of
     [] \<Rightarrow> (None, s) | n # ns \<Rightarrow> (Some n, s\<lparr>m_list_freeItems := ns\<rparr>))"

fun insert_after :: "nat \<Rightarrow> nat \<Rightarrow> nat list \<Rightarrow> nat list" where
  "insert_after m n [] = []"
| "insert_after m n (x # xs) = (if x = m then x # n # xs else x # insert_after m n xs)"

definition inUse_InsertAfterNode :: "nat \<Rightarrow> nat \<Rightarrow> VmtLists \<Rightarrow> VmtLists" where
  "inUse_InsertAfterNode m n s = (if m \<noteq> n
     then (let s' = RemoveFromList n s in s'\<lparr>m_list_inUse := insert_after m n (m_list_inUse s')\<rparr>)
     else s)"

definition Callback_Compare :: "VmtLists \<Rightarrow> LookupEntry \<Rightarrow> LookupEntry \<Rightarrow> int" where
  "Callback_Compare s a b = Compare (snd a) (snd b)"

definition Callback_NewNode :: "VmtLists \<Rightarrow> LookupEntry \<Rightarrow> LookupEntry option \<times> VmtLists" where
  "Callback_NewNode s pl = (case freeItems_ExtractFirstNode s of
     (None, s') \<Rightarrow> (None, s')
   | (Some n, s') \<Rightarrow> (Some (n, snd pl), inUse_LinkAtFront n s'))"

definition Callback_FreeNode :: "VmtLists \<Rightarrow> LookupEntry \<Rightarrow> VmtLists" where
  "Callback_FreeNode s en = freeItems_LinkAtBack (fst en) s"

definition Callback_Reassign :: "VmtLists \<Rightarrow> LookupEntry \<Rightarrow> LookupEntry \<Rightarrow> LookupEntry \<times> VmtLists" where
  "Callback_Reassign s from_en to_en =
     ((fst to_en, snd from_en), inUse_InsertAfterNode (fst from_en) (fst to_en) s)"

definition vmt_owner :: "(LookupEntry, VmtLists) OwnerInfo" where
  "vmt_owner = \<lparr>ftn_compare = Callback_Compare, ftn_newNode = Callback_NewNode,
     ftn_freeNode = Callback_FreeNode, ftn_reassignNode = Callback_Reassign\<rparr>"

section \<open>The table\<close>

record VirtualMethodTable =
  m_tree :: "LookupEntry avl"
  vmt_lists :: VmtLists

definition Initialize :: "nat \<Rightarrow> VirtualMethodTable" where
  "Initialize n = \<lparr>m_tree = Null,
     vmt_lists = fold freeItems_LinkAtBack [0..<n] \<lparr>m_list_freeItems = [], m_list_inUse = []\<rparr>\<rparr>"

text \<open>What the type system answers.\<close>

record TypeSystem =
  class_of_method :: "u32 \<Rightarrow> u32"
  is_abstract :: "u32 \<Rightarrow> bool"
  FindVirtualMethodDef :: "u32 \<Rightarrow> u32 \<Rightarrow> u32 option"

text \<open>The payload of the entry with a given index: the memory behind a \<open>LookupEntry*\<close>.\<close>

definition entry_at :: "LookupEntry avl \<Rightarrow> nat \<Rightarrow> LookupEntry option" where
  "entry_at t n = find (\<lambda>e. fst e = n) (inorder t)"

text \<open>
  The last node of the in-use list is stolen when no entry is free. None is a dereference that
  cannot happen; the pair is the result and the value left in \<open>md\<close>.
\<close>

definition vmt_steal :: "VirtualMethodTable \<Rightarrow> VirtualMethodTable option" where
  "vmt_steal v = Option.bind (entry_at (m_tree v) (last (m_list_inUse (vmt_lists v))))
     (\<lambda>en. map_option (\<lambda>(t, _, s). \<lparr>m_tree = t, vmt_lists = s\<rparr>)
             (Remove vmt_owner (vmt_lists v) (m_tree v) en))"

definition vmt_add :: "Payload \<Rightarrow> VirtualMethodTable \<Rightarrow> VirtualMethodTable option" where
  "vmt_add p v = map_option (\<lambda>(t, _, s). \<lparr>m_tree = t, vmt_lists = s\<rparr>)
     (Insert vmt_owner (vmt_lists v) (m_tree v) (0, p))"

definition FindVirtualMethod :: "TypeSystem \<Rightarrow> u32 \<Rightarrow> u32 \<Rightarrow> VirtualMethodTable \<Rightarrow>
    (u32 option \<times> VirtualMethodTable) option" where
  "FindVirtualMethod ts cls mdVirtual v =
     (if cls = class_of_method ts mdVirtual \<and> \<not> is_abstract ts mdVirtual
      then Some (Some mdVirtual, v)
      else
        (let key = \<lparr>m_mdVirtual = mdVirtual, m_cls = cls, m_md = 0\<rparr>
         in case Find vmt_owner (vmt_lists v) (m_tree v) (0, key) of
              Some en \<Rightarrow> Some (Some (m_md (snd en)),
                               v\<lparr>vmt_lists := inUse_LinkAtFront (fst en) (vmt_lists v)\<rparr>)
            | None \<Rightarrow>
                (case FindVirtualMethodDef ts cls mdVirtual of
                   None \<Rightarrow> Some (None, v)
                 | Some md \<Rightarrow>
                     if m_list_freeItems (vmt_lists v) = [] \<and> m_list_inUse (vmt_lists v) = []
                     then Some (Some md, v)
                     else map_option (Pair (Some md))
                       (Option.bind
                         (if m_list_freeItems (vmt_lists v) = [] then vmt_steal v else Some v)
                         (vmt_add (key\<lparr>m_md := md\<rparr>))))))"

section \<open>The table's own invariant\<close>

definition pkey :: "Payload \<Rightarrow> u32 \<times> u32" where
  "pkey p = (m_mdVirtual p, m_cls p)"

text \<open>Every one of the \<open>n\<close> entries is free or in use, and those in use are the nodes of the tree.\<close>

definition vmt_inv :: "nat \<Rightarrow> VmtLists \<Rightarrow> nat multiset \<Rightarrow> bool" where
  "vmt_inv n s N \<longleftrightarrow> mset (m_list_inUse s) = N \<and>
     mset (m_list_freeItems s @ m_list_inUse s) = mset [0..<n]"

lemma vmt_inv_distinct:
  "vmt_inv n s N \<Longrightarrow> distinct (m_list_freeItems s @ m_list_inUse s)"
  unfolding vmt_inv_def by (metis distinct_upt mset_eq_imp_distinct_iff)

lemma mset_insert_after [simp]:
  "m \<in> set xs \<Longrightarrow> mset (insert_after m n xs) = add_mset n (mset xs)"
  by (induction xs) auto

lemma Compare_sign:
  "Compare a b = 0 \<longleftrightarrow> pkey a = pkey b" "Compare a b > 0 \<longleftrightarrow> pkey b < pkey a"
  by (auto simp: Compare_def pkey_def less_prod_def')

interpretation vmt: avl_owner vmt_owner snd fst pkey "vmt_inv n" for n
proof
  fix s :: VmtLists and a b :: LookupEntry
  show "(ftn_compare vmt_owner s a b = 0) = (pkey (snd a) = pkey (snd b))"
    "(0 < ftn_compare vmt_owner s a b) = (pkey (snd b) < pkey (snd a))"
    by (simp_all add: vmt_owner_def Callback_Compare_def Compare_sign)
next
  fix s s' :: VmtLists and N and d e :: LookupEntry
  assume "vmt_inv n s N" and "ftn_newNode vmt_owner s d = (Some e, s')"
  with vmt_inv_distinct [of n s N] show "snd e = snd d \<and> vmt_inv n s' (add_mset (fst e) N)"
    by (auto simp: vmt_owner_def Callback_NewNode_def freeItems_ExtractFirstNode_def
          inUse_LinkAtFront_def RemoveFromList_def vmt_inv_def Let_def remove1_idem
          split: list.splits)
next
  fix s s' :: VmtLists and N and d :: LookupEntry
  assume "vmt_inv n s N" and "ftn_newNode vmt_owner s d = (None, s')"
  then show "vmt_inv n s' N"
    by (auto simp: vmt_owner_def Callback_NewNode_def freeItems_ExtractFirstNode_def split: list.splits)
next
  fix s :: VmtLists and N and x :: LookupEntry
  assume i: "vmt_inv n s N" and x: "fst x \<in># N"
  then have "fst x \<in> set (m_list_inUse s)" "fst x \<notin> set (m_list_freeItems s)"
    using vmt_inv_distinct [OF i] by (auto simp: vmt_inv_def)
  moreover have "fst x \<in># mset [0..<n]"
    using i calculation unfolding vmt_inv_def by (metis UnCI set_append set_mset_mset)
  ultimately show "vmt_inv n (ftn_freeNode vmt_owner s x) (N - {#fst x#})"
    using i by (auto simp: vmt_owner_def Callback_FreeNode_def freeItems_LinkAtBack_def RemoveFromList_def
          vmt_inv_def Let_def remove1_idem)
next
  fix s s' :: VmtLists and N and x y z :: LookupEntry
  assume i: "vmt_inv n s N" and xy: "{#fst x, fst y#} \<subseteq># N"
    and r: "ftn_reassignNode vmt_owner s x y = (z, s')"
  have N: "mset (m_list_inUse s) = N" "distinct (m_list_inUse s)"
    using i vmt_inv_distinct [OF i] by (auto simp: vmt_inv_def)
  then have ne: "fst x \<noteq> fst y"
    using mset_subset_eq_count [OF xy, of "fst x"]
    by (auto simp: distinct_count_atmost_1 split: if_splits)
  moreover have "fst x \<in> set (m_list_inUse s)" "fst y \<in> set (m_list_inUse s)"
    using N xy by (auto simp: mset_subset_eq_insertD dest: mset_subset_eqD)
  moreover have "fst y \<notin> set (m_list_freeItems s)"
    using vmt_inv_distinct [OF i] calculation by auto
  ultimately show "vmt_inv n s' N \<and> fst z = fst y \<and> snd z = snd x"
    using i r by (auto simp: vmt_owner_def Callback_Reassign_def inUse_InsertAfterNode_def
          RemoveFromList_def vmt_inv_def Let_def remove1_idem)
qed


section \<open>Correctness\<close>

text \<open>The map the tree stands for, and the invariant over the model's own state.\<close>

definition vmt_table :: "LookupEntry avl \<Rightarrow> u32 \<times> u32 \<Rightarrow> Payload option" where
  "vmt_table t = map_of (map (\<lambda>e. (pkey (snd e), snd e)) (inorder t))"

definition vmt_wf :: "nat \<Rightarrow> VirtualMethodTable \<Rightarrow> bool" where
  "vmt_wf n v \<longleftrightarrow> avl_ok (m_tree v) \<and>
     sorted_wrt (\<lambda>p q. pkey p < pkey q) (map snd (inorder (m_tree v))) \<and>
     vmt_inv n (vmt_lists v) (mset (map fst (inorder (m_tree v))))"

definition cache_ok :: "TypeSystem \<Rightarrow> nat \<Rightarrow> VirtualMethodTable \<Rightarrow> bool" where
  "cache_ok ts n v \<longleftrightarrow> vmt_wf n v \<and>
     (\<forall>k p. vmt_table (m_tree v) k = Some p \<longrightarrow> FindVirtualMethodDef ts (m_cls p) (m_mdVirtual p) = Some (m_md p))"

lemma vmt_table_lookup: "vmt_table t = vmt.lookup t"
  by (simp add: vmt_table_def vmt.lookup_def vmt.entries_def comp_def)

lemma vmt_wf_tree_ok: "vmt_wf n \<lparr>m_tree = t, vmt_lists = s\<rparr> \<longleftrightarrow> vmt.tree_ok n s t"
  by (simp add: vmt_wf_def vmt.tree_ok_def vmt.ordered_def vmt.entries_def vmt.nodes_def)

lemma vmt_sizes:
  assumes "vmt_wf n v"
  shows "length (m_list_inUse (vmt_lists v)) = length (inorder (m_tree v))"
    "length (m_list_freeItems (vmt_lists v)) + length (inorder (m_tree v)) = n"
proof -
  have "size (mset (m_list_inUse (vmt_lists v))) = length (inorder (m_tree v))"
    using assms by (simp add: vmt_wf_def vmt_inv_def del: size_mset) simp
  moreover have "size (mset (m_list_freeItems (vmt_lists v) @ m_list_inUse (vmt_lists v))) = n"
    using assms by (simp only: vmt_wf_def vmt_inv_def) simp
  ultimately show "length (m_list_inUse (vmt_lists v)) = length (inorder (m_tree v))"
    "length (m_list_freeItems (vmt_lists v)) + length (inorder (m_tree v)) = n"
    by simp_all
qed

lemma vmt_Find: "vmt_wf n \<lparr>m_tree = t, vmt_lists = s\<rparr> \<Longrightarrow>
    map_option snd (Find vmt_owner s t d) = vmt_table t (pkey (snd d))"
  by (simp add: vmt_wf_tree_ok vmt.tree_ok_def vmt.lookup_Find [where s = s] vmt_table_lookup)

lemma newNode_None: "ftn_newNode vmt_owner s d = (None, s') \<longleftrightarrow> m_list_freeItems s = [] \<and> s' = s"
  by (auto simp: vmt_owner_def Callback_NewNode_def freeItems_ExtractFirstNode_def split: list.splits)

lemma newNode_Some: "ftn_newNode vmt_owner s d = (Some e, s') \<Longrightarrow>
    snd e = snd d \<and> m_list_freeItems s \<noteq> [] \<and> m_list_inUse s' = fst e # remove1 (fst e) (m_list_inUse s)"
  by (auto simp: vmt_owner_def Callback_NewNode_def freeItems_ExtractFirstNode_def
        inUse_LinkAtFront_def RemoveFromList_def Let_def split: list.splits)

lemma vmt_Insert:
  assumes "vmt_wf n \<lparr>m_tree = t, vmt_lists = s\<rparr>"
  obtains t' c s' where "Insert vmt_owner s t d = Some (t', c, s')"
    "vmt_wf n \<lparr>m_tree = t', vmt_lists = s'\<rparr>"
    "c = (if vmt_table t (pkey (snd d)) \<noteq> None then RES_DUPLICATE
          else if m_list_freeItems s = [] then RES_ERROR
          else if ht t' = ht t then RES_OK else RES_BALANCE)"
    "vmt_table t' = (if c = RES_OK \<or> c = RES_BALANCE then (vmt_table t)(pkey (snd d) \<mapsto> snd d) else vmt_table t)"
    "c = RES_OK \<or> c = RES_BALANCE \<Longrightarrow> (hd (m_list_inUse s'), snd d) \<in> set (inorder t')"
proof -
  have ok: "vmt.tree_ok n s t"
    using assms by (simp add: vmt_wf_tree_ok)
  obtain t' c s' where i: "Insert vmt_owner s t d = Some (t', c, s')" "vmt.tree_ok n s' t'"
    "c = RES_DUPLICATE \<longleftrightarrow> vmt.lookup t (pkey (snd d)) \<noteq> None" "c \<noteq> RES_NOTFOUND"
    "vmt.lookup t' = (if c = RES_OK \<or> c = RES_BALANCE then (vmt.lookup t)(pkey (snd d) \<mapsto> snd d) else vmt.lookup t)"
    "ht t' = (if c = RES_BALANCE then Suc (ht t) else ht t)"
    by (rule vmt.Insert_refines_map [OF ok, of d])
  note new = Insert_new [OF i(1)]
  show thesis
  proof (rule that [OF i(1)])
    show "vmt_wf n \<lparr>m_tree = t', vmt_lists = s'\<rparr>"
      using i by (simp add: vmt_wf_tree_ok)
    show "c = (if vmt_table t (pkey (snd d)) \<noteq> None then RES_DUPLICATE
          else if m_list_freeItems s = [] then RES_ERROR
          else if ht t' = ht t then RES_OK else RES_BALANCE)"
      using i new by (cases c) (auto simp: vmt_table_lookup newNode_None dest!: newNode_Some)
    show "vmt_table t' = (if c = RES_OK \<or> c = RES_BALANCE then (vmt_table t)(pkey (snd d) \<mapsto> snd d) else vmt_table t)"
      using i by (simp add: vmt_table_lookup)
    show "(hd (m_list_inUse s'), snd d) \<in> set (inorder t')" if "c = RES_OK \<or> c = RES_BALANCE"
    proof -
      from that new obtain e where "e \<in> set (inorder t')" "ftn_newNode vmt_owner s d = (Some e, s')"
        by auto
      with newNode_Some [of s d e s'] show ?thesis
        by (cases e) auto
    qed
  qed
qed

lemma vmt_Remove:
  assumes "vmt_wf n \<lparr>m_tree = t, vmt_lists = s\<rparr>"
  obtains t' c s' where "Remove vmt_owner s t d = Some (t', c, s')"
    "vmt_wf n \<lparr>m_tree = t', vmt_lists = s'\<rparr>"
    "c = (if vmt_table t (pkey (snd d)) = None then RES_NOTFOUND
          else if ht t' = ht t then RES_OK else RES_BALANCE)"
    "vmt_table t' = (vmt_table t)(pkey (snd d) := None)"
    "c \<noteq> RES_NOTFOUND \<Longrightarrow> m_list_freeItems s' \<noteq> []"
proof -
  have ok: "vmt.tree_ok n s t"
    using assms by (simp add: vmt_wf_tree_ok)
  obtain t' c s' where i: "Remove vmt_owner s t d = Some (t', c, s')" "vmt.tree_ok n s' t'"
    "c = RES_NOTFOUND \<longleftrightarrow> vmt.lookup t (pkey (snd d)) = None"
    "c \<in> {RES_OK, RES_BALANCE, RES_NOTFOUND}"
    "vmt.lookup t' = (vmt.lookup t)(pkey (snd d) := None)"
    "ht t = (if c = RES_BALANCE then Suc (ht t') else ht t')"
    "length (inorder t) = (if c = RES_NOTFOUND then length (inorder t') else Suc (length (inorder t')))"
    by (rule vmt.Remove_refines_map [OF ok, of d])
  have wf: "vmt_wf n \<lparr>m_tree = t', vmt_lists = s'\<rparr>"
    using i by (simp add: vmt_wf_tree_ok)
  show thesis
  proof (rule that [OF i(1) wf])
    show "c = (if vmt_table t (pkey (snd d)) = None then RES_NOTFOUND
          else if ht t' = ht t then RES_OK else RES_BALANCE)"
      using i(3,4,6) by (auto simp: vmt_table_lookup split: if_splits)
    show "vmt_table t' = (vmt_table t)(pkey (snd d) := None)"
      using i by (simp add: vmt_table_lookup)
    show "m_list_freeItems s' \<noteq> []" if "c \<noteq> RES_NOTFOUND"
      using that i(7) vmt_sizes(2) [OF assms] vmt_sizes(2) [OF wf] by auto
  qed
qed


section \<open>The lookup\<close>

lemma entry_at_Some:
  assumes "k \<in># mset (map fst (inorder t))"
  obtains en where "entry_at t k = Some en" "en \<in> set (inorder t)" "fst en = k"
proof (cases "entry_at t k")
  case None
  with assms show thesis
    by (auto simp: entry_at_def find_None_iff)
next
  case (Some en)
  then have "en \<in> set (inorder t)" "fst en = k"
    by (auto simp: entry_at_def find_Some_iff)
  with Some that show thesis
    by blast
qed

lemma vmt_table_entry:
  assumes "vmt_wf n v" "en \<in> set (inorder (m_tree v))"
  shows "vmt_table (m_tree v) (pkey (snd en)) = Some (snd en)"
proof -
  have "vmt.ordered (m_tree v)"
    using assms(1) by (simp add: vmt_wf_def vmt.ordered_def vmt.entries_def)
  then show ?thesis
    using assms(2) by (simp add: vmt_table_lookup vmt.lookup_Some vmt.entries_def)
qed

lemma cache_ok_step:
  assumes "cache_ok ts n v" "vmt_wf n v'"
    and "\<And>k p. vmt_table (m_tree v') k = Some p \<Longrightarrow> vmt_table (m_tree v) k = Some p \<or>
      FindVirtualMethodDef ts (m_cls p) (m_mdVirtual p) = Some (m_md p)"
  shows "cache_ok ts n v'"
  using assms unfolding cache_ok_def by blast

lemma vmt_steal_ok:
  assumes ok: "cache_ok ts n v" and ne: "m_list_inUse (vmt_lists v) \<noteq> []"
  obtains v' where "vmt_steal v = Some v'" "cache_ok ts n v'" "m_list_freeItems (vmt_lists v') \<noteq> []"
    "\<And>k. vmt_table (m_tree v) k = None \<Longrightarrow> vmt_table (m_tree v') k = None"
proof -
  obtain t s where v: "v = \<lparr>m_tree = t, vmt_lists = s\<rparr>"
    by (cases v) auto
  have wf: "vmt_wf n \<lparr>m_tree = t, vmt_lists = s\<rparr>"
    using ok v by (simp add: cache_ok_def)
  then have "mset (m_list_inUse s) = mset (map fst (inorder t))"
    by (simp add: vmt_wf_def vmt_inv_def)
  moreover have "last (m_list_inUse s) \<in># mset (m_list_inUse s)"
    using ne v by simp
  ultimately have "last (m_list_inUse s) \<in># mset (map fst (inorder t))"
    by (rule subst)
  then obtain en where en: "entry_at t (last (m_list_inUse s)) = Some en" "en \<in> set (inorder t)"
    by (rule entry_at_Some)
  have hit: "vmt_table t (pkey (snd en)) \<noteq> None"
    using vmt_table_entry [OF wf] en by simp
  obtain t' c s' where r: "Remove vmt_owner s t en = Some (t', c, s')"
    "vmt_wf n \<lparr>m_tree = t', vmt_lists = s'\<rparr>"
    "c = (if vmt_table t (pkey (snd en)) = None then RES_NOTFOUND
          else if ht t' = ht t then RES_OK else RES_BALANCE)"
    "vmt_table t' = (vmt_table t)(pkey (snd en) := None)"
    "c \<noteq> RES_NOTFOUND \<Longrightarrow> m_list_freeItems s' \<noteq> []"
    by (rule vmt_Remove [OF wf, of en]) blast
  show thesis
  proof (rule that)
    show "vmt_steal v = Some \<lparr>m_tree = t', vmt_lists = s'\<rparr>"
      using en r v by (simp add: vmt_steal_def)
    show "cache_ok ts n \<lparr>m_tree = t', vmt_lists = s'\<rparr>"
      using r(4) v by (intro cache_ok_step [OF ok r(2)]) (simp split: if_splits)
    show "m_list_freeItems (vmt_lists \<lparr>m_tree = t', vmt_lists = s'\<rparr>) \<noteq> []"
      using r(3,5) hit by (simp split: if_splits)
    show "vmt_table (m_tree \<lparr>m_tree = t', vmt_lists = s'\<rparr>) k = None" if "vmt_table (m_tree v) k = None" for k
      using that r(4) v by simp
  qed
qed

definition most_recent :: "VirtualMethodTable \<Rightarrow> Payload option" where
  "most_recent v = (case m_list_inUse (vmt_lists v) of [] \<Rightarrow> None
     | n # _ \<Rightarrow> map_option snd (entry_at (m_tree v) n))"

lemma most_recent_hd:
  assumes "vmt_wf n v" "(hd (m_list_inUse (vmt_lists v)), p) \<in> set (inorder (m_tree v))"
  shows "most_recent v = Some p"
proof -
  have i: "vmt_inv n (vmt_lists v) (mset (map fst (inorder (m_tree v))))"
    using assms(1) by (simp add: vmt_wf_def)
  then have "mset (m_list_inUse (vmt_lists v)) = mset (map fst (inorder (m_tree v)))"
    by (simp add: vmt_inv_def)
  then have d: "distinct (map fst (inorder (m_tree v)))"
    using vmt_inv_distinct [OF i] mset_eq_imp_distinct_iff by fastforce
  have ne: "m_list_inUse (vmt_lists v) \<noteq> []"
    using assms vmt_sizes(1) [OF assms(1)] by auto
  have "hd (m_list_inUse (vmt_lists v)) \<in># mset (map fst (inorder (m_tree v)))"
    using assms(2) by force
  then obtain en where "entry_at (m_tree v) (hd (m_list_inUse (vmt_lists v))) = Some en"
    "en \<in> set (inorder (m_tree v))" "fst en = hd (m_list_inUse (vmt_lists v))"
    by (rule entry_at_Some)
  moreover from this have "en = (hd (m_list_inUse (vmt_lists v)), p)"
    using d assms(2) by (metis eq_key_imp_eq_value prod.collapse set_zip_leftD snd_conv map_of_is_SomeI option.inject)
  ultimately show ?thesis
    using ne by (cases "m_list_inUse (vmt_lists v)") (auto simp: most_recent_def)
qed

lemma vmt_add_ok:
  assumes ok: "cache_ok ts n v" and free: "m_list_freeItems (vmt_lists v) \<noteq> []"
    and new: "vmt_table (m_tree v) (pkey p) = None"
    and p: "FindVirtualMethodDef ts (m_cls p) (m_mdVirtual p) = Some (m_md p)"
  obtains v' where "vmt_add p v = Some v'" "cache_ok ts n v'" "most_recent v' = Some p"
proof -
  obtain t s where v: "v = \<lparr>m_tree = t, vmt_lists = s\<rparr>"
    by (cases v) auto
  have wf: "vmt_wf n \<lparr>m_tree = t, vmt_lists = s\<rparr>"
    using ok v by (simp add: cache_ok_def)
  obtain t' c s' where i: "Insert vmt_owner s t (0, p) = Some (t', c, s')"
    "vmt_wf n \<lparr>m_tree = t', vmt_lists = s'\<rparr>"
    "c = (if vmt_table t (pkey p) \<noteq> None then RES_DUPLICATE
          else if m_list_freeItems s = [] then RES_ERROR
          else if ht t' = ht t then RES_OK else RES_BALANCE)"
    "vmt_table t' = (if c = RES_OK \<or> c = RES_BALANCE then (vmt_table t)(pkey p \<mapsto> p) else vmt_table t)"
    "c = RES_OK \<or> c = RES_BALANCE \<Longrightarrow> (hd (m_list_inUse s'), p) \<in> set (inorder t')"
    by (rule vmt_Insert [OF wf, of "(0, p)"]) (unfold snd_conv, blast)
  have c: "c = RES_OK \<or> c = RES_BALANCE"
    using i(3) free new v by auto
  show thesis
  proof (rule that)
    show "vmt_add p v = Some \<lparr>m_tree = t', vmt_lists = s'\<rparr>"
      using i v by (simp add: vmt_add_def)
    show "cache_ok ts n \<lparr>m_tree = t', vmt_lists = s'\<rparr>"
      using i(4) c v p by (intro cache_ok_step [OF ok i(2)]) (auto split: if_splits)
    show "most_recent \<lparr>m_tree = t', vmt_lists = s'\<rparr> = Some p"
      using most_recent_hd [OF i(2)] i(5) c by simp
  qed
qed

lemma vmt_touch_ok:
  assumes ok: "cache_ok ts n v" and en: "en \<in> set (inorder (m_tree v))"
  shows "cache_ok ts n (v\<lparr>vmt_lists := inUse_LinkAtFront (fst en) (vmt_lists v)\<rparr>)"
    "most_recent (v\<lparr>vmt_lists := inUse_LinkAtFront (fst en) (vmt_lists v)\<rparr>) = Some (snd en)"
proof -
  have i: "vmt_inv n (vmt_lists v) (mset (map fst (inorder (m_tree v))))"
    using ok by (simp add: cache_ok_def vmt_wf_def)
  then have m: "fst en \<in># mset (m_list_inUse (vmt_lists v))"
    using en unfolding vmt_inv_def by auto
  with vmt_inv_distinct [OF i] have f: "fst en \<notin> set (m_list_freeItems (vmt_lists v))"
    by auto
  have s: "mset (m_list_inUse (inUse_LinkAtFront (fst en) (vmt_lists v))) = mset (m_list_inUse (vmt_lists v))"
    "m_list_freeItems (inUse_LinkAtFront (fst en) (vmt_lists v)) = m_list_freeItems (vmt_lists v)"
    using m f by (simp_all add: inUse_LinkAtFront_def RemoveFromList_def Let_def remove1_idem)
  have "vmt_inv n (inUse_LinkAtFront (fst en) (vmt_lists v)) (mset (map fst (inorder (m_tree v))))"
    using i unfolding vmt_inv_def mset_append s .
  with ok show c: "cache_ok ts n (v\<lparr>vmt_lists := inUse_LinkAtFront (fst en) (vmt_lists v)\<rparr>)"
    by (simp add: cache_ok_def vmt_wf_def)
  then have "vmt_wf n (v\<lparr>vmt_lists := inUse_LinkAtFront (fst en) (vmt_lists v)\<rparr>)"
    by (simp add: cache_ok_def)
  then show "most_recent (v\<lparr>vmt_lists := inUse_LinkAtFront (fst en) (vmt_lists v)\<rparr>) = Some (snd en)"
    by (rule most_recent_hd) (use en in \<open>simp add: inUse_LinkAtFront_def Let_def\<close>)
qed

definition resolve :: "TypeSystem \<Rightarrow> u32 \<Rightarrow> u32 \<Rightarrow> u32 option" where
  "resolve ts cls mdVirtual =
     (if cls = class_of_method ts mdVirtual \<and> \<not> is_abstract ts mdVirtual then Some mdVirtual
      else FindVirtualMethodDef ts cls mdVirtual)"

lemma FindVirtualMethod_ok:
  assumes ok: "cache_ok ts n v"
  obtains v' where "FindVirtualMethod ts cls mdVirtual v = Some (resolve ts cls mdVirtual, v')"
    "cache_ok ts n v'"
    "0 < n \<Longrightarrow> cls \<noteq> class_of_method ts mdVirtual \<or> is_abstract ts mdVirtual \<Longrightarrow>
     FindVirtualMethodDef ts cls mdVirtual = Some md \<Longrightarrow>
     most_recent v' = Some \<lparr>m_mdVirtual = mdVirtual, m_cls = cls, m_md = md\<rparr>"
proof -
  define key where "key = \<lparr>m_mdVirtual = mdVirtual, m_cls = cls, m_md = 0\<rparr>"
  obtain t s where v: "v = \<lparr>m_tree = t, vmt_lists = s\<rparr>"
    by (cases v) auto
  have wf: "vmt_wf n \<lparr>m_tree = t, vmt_lists = s\<rparr>"
    using ok v by (simp add: cache_ok_def)
  consider (short) "cls = class_of_method ts mdVirtual \<and> \<not> is_abstract ts mdVirtual"
    | (hit) en where "\<not> (cls = class_of_method ts mdVirtual \<and> \<not> is_abstract ts mdVirtual)"
        "Find vmt_owner s t (0, key) = Some en"
    | (miss) "\<not> (cls = class_of_method ts mdVirtual \<and> \<not> is_abstract ts mdVirtual)"
        "Find vmt_owner s t (0, key) = None"
    by fastforce
  then show thesis
  proof cases
    case short
    with ok that show ?thesis
      by (auto simp: FindVirtualMethod_def resolve_def)
  next
    case hit
    have k: "vmt_table t (mdVirtual, cls) = Some (snd en)"
      using vmt_Find [OF wf, of "(0, key)"] hit by (simp add: key_def pkey_def)
    have p: "pkey (snd en) = (mdVirtual, cls)" and mem: "en \<in> set (inorder (m_tree v))"
      using Find_mem [OF hit(2)] v
      by (simp_all add: vmt_owner_def Callback_Compare_def Compare_sign key_def pkey_def)
    have md: "FindVirtualMethodDef ts cls mdVirtual = Some (m_md (snd en))"
      using ok k p v by (auto simp: cache_ok_def pkey_def)
    show ?thesis
    proof (rule that)
      show "FindVirtualMethod ts cls mdVirtual v = Some (resolve ts cls mdVirtual,
          v\<lparr>vmt_lists := inUse_LinkAtFront (fst en) (vmt_lists v)\<rparr>)"
        using hit md v by (auto simp: FindVirtualMethod_def resolve_def key_def)
    qed (use vmt_touch_ok [OF ok mem] md p in \<open>auto simp: pkey_def\<close>)
  next
    case miss
    have k: "vmt_table t (mdVirtual, cls) = None"
      using vmt_Find [OF wf, of "(0, key)"] miss by (simp add: key_def pkey_def)
    show ?thesis
    proof (cases "FindVirtualMethodDef ts cls mdVirtual")
      case None
      with miss v ok that show ?thesis
        by (auto simp: FindVirtualMethod_def resolve_def key_def)
    next
      case (Some md')
      define p where "p = key\<lparr>m_md := md'\<rparr>"
      have p: "FindVirtualMethodDef ts (m_cls p) (m_mdVirtual p) = Some (m_md p)" "pkey p = (mdVirtual, cls)"
        using Some by (simp_all add: p_def key_def pkey_def)
      show ?thesis
      proof (cases "m_list_freeItems s = [] \<and> m_list_inUse s = []")
        case True
        then have "n = 0"
          using vmt_sizes [OF wf] by simp
        with True miss v ok Some that show ?thesis
          by (auto simp: FindVirtualMethod_def resolve_def key_def)
      next
        case False
        obtain v1 where v1: "(if m_list_freeItems s = [] then vmt_steal v else Some v) = Some v1"
          "cache_ok ts n v1" "m_list_freeItems (vmt_lists v1) \<noteq> []" "vmt_table (m_tree v1) (pkey p) = None"
        proof (cases "m_list_freeItems s = []")
          case True
          then have "m_list_inUse (vmt_lists v) \<noteq> []"
            using False v by simp
          then obtain v1 where "vmt_steal v = Some v1" "cache_ok ts n v1"
            "m_list_freeItems (vmt_lists v1) \<noteq> []"
            "\<And>k. vmt_table (m_tree v) k = None \<Longrightarrow> vmt_table (m_tree v1) k = None"
            using vmt_steal_ok [OF ok] by metis
          with that [of v1] True k p v show ?thesis
            by simp
        qed (use that ok v k p in auto)
        obtain v2 where v2: "vmt_add p v1 = Some v2" "cache_ok ts n v2" "most_recent v2 = Some p"
          by (rule vmt_add_ok [OF v1(2,3,4) p(1)])
        have b: "Option.bind (if m_list_freeItems s = [] then vmt_steal v else Some v) (vmt_add p) = Some v2"
          using v1(1) v2(1) by simp
        show ?thesis
        proof (rule that)
          have "vmt_lists v = s" "m_tree v = t"
            using v by simp_all
          then show "FindVirtualMethod ts cls mdVirtual v = Some (resolve ts cls mdVirtual, v2)"
            using b False miss Some unfolding FindVirtualMethod_def resolve_def key_def [symmetric] Let_def
            by (simp only: p_def if_False simp_thms option.case option.map)
        qed (use v2 Some in \<open>auto simp: p_def key_def\<close>)
      qed
    qed
  qed
qed

lemma Initialize_wf: "vmt_wf n (Initialize n)"
proof -
  have f: "m_list_inUse (fold freeItems_LinkAtBack ns s) = m_list_inUse s \<and>
      m_list_freeItems (fold freeItems_LinkAtBack ns s) = m_list_freeItems s @ ns"
    if "m_list_inUse s = []" "distinct ns" "set ns \<inter> set (m_list_freeItems s) = {}" for ns s
    using that
    by (induction ns arbitrary: s)
       (auto simp: freeItems_LinkAtBack_def RemoveFromList_def Let_def remove1_idem)
  show ?thesis
    using f [of "\<lparr>m_list_freeItems = [], m_list_inUse = []\<rparr>" "[0..<n]"]
    by (simp add: vmt_wf_def vmt_inv_def Initialize_def)
qed

fun vmt_run :: "TypeSystem \<Rightarrow> VirtualMethodTable \<Rightarrow> (u32 \<times> u32) list \<Rightarrow>
    (u32 option list \<times> VirtualMethodTable) option" where
  "vmt_run ts v [] = Some ([], v)"
| "vmt_run ts v ((cls, mdVirtual) # calls) =
     Option.bind (FindVirtualMethod ts cls mdVirtual v)
       (\<lambda>(r, v1). map_option (\<lambda>(rs, v2). (r # rs, v2)) (vmt_run ts v1 calls))"

lemma vmt_run_ok:
  assumes "cache_ok ts n v"
  shows "\<exists>v'. vmt_run ts v calls = Some (map (\<lambda>(cls, m). resolve ts cls m) calls, v') \<and> cache_ok ts n v'"
  using assms
proof (induction calls arbitrary: v)
  case Nil
  then show ?case by simp
next
  case (Cons c calls)
  obtain cls m where c: "c = (cls, m)"
    by force
  obtain v1 where v1: "FindVirtualMethod ts cls m v = Some (resolve ts cls m, v1)" "cache_ok ts n v1"
    using FindVirtualMethod_ok [OF Cons.prems] by metis
  with Cons.IH [OF v1(2)] show ?case
    by (auto simp: c)
qed

lemma Initialize_ok: "cache_ok ts n (Initialize n)"
  using Initialize_wf [of n] by (simp add: cache_ok_def vmt_table_def) (simp add: Initialize_def)

lemma vmt_height:
  assumes "vmt_wf n v"
  shows "2 ^ ht (m_tree v) \<le> (Suc n)\<^sup>2"
proof -
  have "2 ^ ht (m_tree v) \<le> (Suc (length (inorder (m_tree v))))\<^sup>2"
    using assms by (intro avl_height) (simp add: vmt_wf_def)
  also have "\<dots> \<le> (Suc n)\<^sup>2"
    using vmt_sizes(2) [OF assms] by (intro power_mono) simp_all
  finally show ?thesis .
qed

section \<open>Properties\<close>

text \<open>
  C23. The AVL tree of the method cache is a finite map: from any balanced, ordered tree whose
  nodes are the entries in use, \<open>Find\<close>, \<open>Insert\<close> and \<open>Remove\<close> return what the map
  says, leave the tree balanced and ordered with the free and in-use lists a partition of the
  entries, report a duplicate, a missing key or the exhausted free list by the right code, and
  report \<open>RES_BALANCE\<close> exactly when the height of the tree has changed. No null pointer is
  followed.
\<close>

theorem avl_map_refinement:
  assumes "vmt_wf n \<lparr>m_tree = t, vmt_lists = s\<rparr>"
  shows "(map_option snd (Find vmt_owner s t d) = vmt_table t (pkey (snd d))) \<and>
    (\<exists>t' c s'. Insert vmt_owner s t d = Some (t', c, s') \<and>
      vmt_wf n \<lparr>m_tree = t', vmt_lists = s'\<rparr> \<and>
      c = (if vmt_table t (pkey (snd d)) \<noteq> None then RES_DUPLICATE
           else if m_list_freeItems s = [] then RES_ERROR
           else if ht t' = ht t then RES_OK else RES_BALANCE) \<and>
      vmt_table t' = (if c = RES_OK \<or> c = RES_BALANCE
                      then (vmt_table t)(pkey (snd d) \<mapsto> snd d) else vmt_table t)) \<and>
    (\<exists>t' c s'. Remove vmt_owner s t d = Some (t', c, s') \<and>
      vmt_wf n \<lparr>m_tree = t', vmt_lists = s'\<rparr> \<and>
      c = (if vmt_table t (pkey (snd d)) = None then RES_NOTFOUND
           else if ht t' = ht t then RES_OK else RES_BALANCE) \<and>
      vmt_table t' = (vmt_table t)(pkey (snd d) := None)) \<and>
    2 ^ ht t \<le> (Suc n)\<^sup>2"
proof (intro conjI)
  show "map_option snd (Find vmt_owner s t d) = vmt_table t (pkey (snd d))"
    using assms by (rule vmt_Find)
  show "2 ^ ht t \<le> (Suc n)\<^sup>2"
    using vmt_height [OF assms] by simp
qed (rule vmt_Insert [OF assms, of d], blast, rule vmt_Remove [OF assms, of d], blast)

theorem avl_map_refinement_witness:
  "\<exists>t' s'. Insert vmt_owner (vmt_lists (Initialize 2)) Null (0, \<lparr>m_mdVirtual = 7, m_cls = 3, m_md = 9\<rparr>) =
     Some (t', RES_BALANCE, s') \<and> vmt_wf 2 \<lparr>m_tree = t', vmt_lists = s'\<rparr>"
proof -
  have wf: "vmt_wf 2 \<lparr>m_tree = Null, vmt_lists = vmt_lists (Initialize 2)\<rparr>"
    using Initialize_wf [of 2] by (simp add: Initialize_def)
  show ?thesis
    using conjunct1 [OF conjunct2 [OF avl_map_refinement [OF wf, of "(0, \<lparr>m_mdVirtual = 7, m_cls = 3, m_md = 9\<rparr>)"]]]
    by (simp add: Initialize_def vmt_table_def vmt_owner_def Callback_NewNode_def
          freeItems_ExtractFirstNode_def freeItems_LinkAtBack_def RemoveFromList_def
          numeral_2_eq_2 upt_rec split: if_splits)
qed

text \<open>
  C24. The cache is invisible: whatever the number of entries, every sequence of lookups from the
  initial table returns what the type system itself resolves, and the table is again consistent,
  with a search path of at most twice the binary logarithm of the number of entries plus one.
\<close>

theorem method_cache_transparent:
  "\<exists>v. vmt_run ts (Initialize n) calls = Some (map (\<lambda>(cls, m). resolve ts cls m) calls, v) \<and>
     cache_ok ts n v \<and> 2 ^ ht (m_tree v) \<le> (Suc n)\<^sup>2"
  using vmt_run_ok [OF Initialize_ok, of ts n calls] vmt_height unfolding cache_ok_def by blast

text \<open>
  A lookup that reached the type system or the tree leaves its entry the most recently used
  one, evicting the least recently used entry when none is free, as long as there is any entry.
\<close>

theorem method_cache_most_recent:
  assumes "cache_ok ts n v" and "0 < n" and "FindVirtualMethodDef ts cls mdVirtual = Some md"
    and "cls \<noteq> class_of_method ts mdVirtual \<or> is_abstract ts mdVirtual"
  shows "\<exists>v'. FindVirtualMethod ts cls mdVirtual v = Some (Some md, v') \<and> cache_ok ts n v' \<and>
    most_recent v' = Some \<lparr>m_mdVirtual = mdVirtual, m_cls = cls, m_md = md\<rparr>"
proof -
  have "resolve ts cls mdVirtual = Some md"
    using assms by (auto simp: resolve_def)
  with assms FindVirtualMethod_ok [OF assms(1), of cls mdVirtual md] show ?thesis
    by metis
qed

definition sample_types :: TypeSystem where
  "sample_types = \<lparr>class_of_method = (\<lambda>m. m div 2), is_abstract = (\<lambda>m. False),
     FindVirtualMethodDef = (\<lambda>c m. Some (c + m))\<rparr>"

theorem method_cache_most_recent_witness:
  "\<exists>v'. FindVirtualMethod sample_types 9 4 (Initialize 1) = Some (Some 13, v') \<and> cache_ok sample_types 1 v' \<and>
     most_recent v' = Some \<lparr>m_mdVirtual = 4, m_cls = 9, m_md = 13\<rparr>"
  using method_cache_most_recent [OF Initialize_ok, of 1 sample_types 9 4 13]
  by (simp add: sample_types_def)

end
