(* ===== verification/LwipInet.thy ===== *)
theory LwipInet
  imports Prelude
begin

text \<open>
  Internet addresses of the network stack in the tree (\<open>DeviceCode/pal/lwip/lwip_1_3_2/src/core/ipv4\<close>,
  \<open>inet.c\<close>, \<open>ip_addr.c\<close> and their headers): byte order, parsing and printing of dotted addresses,
  broadcast test. The argument \<open>le\<close> says whether the build is little-endian (\<open>BYTE_ORDER\<close>). A C
  string is the list of its bytes before the terminating NUL, so the end of the list reads as 0.
\<close>

section \<open>Byte order\<close>

definition htons :: "bool \<Rightarrow> u16 \<Rightarrow> u16" where
  "htons le n = (if le then push_bit 8 (n AND 0xff) OR drop_bit 8 (n AND 0xff00) else n)"

definition ntohs :: "bool \<Rightarrow> u16 \<Rightarrow> u16" where
  "ntohs le n = htons le n"

definition htonl :: "bool \<Rightarrow> u32 \<Rightarrow> u32" where
  "htonl le n = (if le
     then push_bit 24 (n AND 0xff) OR push_bit 8 (n AND 0xff00) OR
          drop_bit 8 (n AND 0xff0000) OR drop_bit 24 (n AND 0xff000000)
     else n)"

definition ntohl :: "bool \<Rightarrow> u32 \<Rightarrow> u32" where
  "ntohl le n = htonl le n"

section \<open>Parsing\<close>

definition in_range :: "u8 \<Rightarrow> u8 \<Rightarrow> u8 \<Rightarrow> bool" where
  "in_range c lo up \<longleftrightarrow> lo \<le> c \<and> c \<le> up"

definition isdigit :: "u8 \<Rightarrow> bool" where "isdigit c \<longleftrightarrow> in_range c 0x30 0x39"
definition islower :: "u8 \<Rightarrow> bool" where "islower c \<longleftrightarrow> in_range c 0x61 0x7a"
definition isxdigit :: "u8 \<Rightarrow> bool" where
  "isxdigit c \<longleftrightarrow> isdigit c \<or> in_range c 0x61 0x66 \<or> in_range c 0x41 0x46"
definition isspace :: "u8 \<Rightarrow> bool" where
  "isspace c \<longleftrightarrow> c = 0x20 \<or> c = 0x0c \<or> c = 0x0a \<or> c = 0x0d \<or> c = 0x09 \<or> c = 0x0b"

definition cur :: "u8 list \<Rightarrow> u8" where
  "cur cp = (case cp of [] \<Rightarrow> 0 | c # _ \<Rightarrow> c)"

text \<open>The digits of one number.\<close>

fun aton_digits :: "u32 \<Rightarrow> u32 \<Rightarrow> u8 list \<Rightarrow> u32 \<times> u8 list" where
  "aton_digits base val [] = (val, [])"
| "aton_digits base val (c # cp) =
     (if isdigit c then aton_digits base (val * base + ucast (c - 0x30)) cp
      else if base = 16 \<and> isxdigit c
      then aton_digits base (push_bit 4 val OR ucast (c + 10 - (if islower c then 0x61 else 0x41))) cp
      else (val, c # cp))"

text \<open>The prefix that selects the base.\<close>

definition aton_base :: "u8 list \<Rightarrow> u32 \<times> u8 list" where
  "aton_base cp =
     (if cur cp = 0x30
      then (let cp = tl cp in
            if cur cp = 0x78 \<or> cur cp = 0x58 then (16, tl cp) else (8, cp))
      else (10, cp))"

lemma aton_digits_length: "length (snd (aton_digits base val cp)) \<le> length cp"
  by (induction cp arbitrary: val) (auto intro: le_SucI)

lemma aton_base_length: "length (snd (aton_base cp)) \<le> length cp"
  by (cases cp; cases "tl cp") (auto simp: aton_base_def cur_def Let_def split: list.splits)

text \<open>The numbers between the dots: those before the last one, the last one, and the rest.\<close>

function aton_parts :: "u32 list \<Rightarrow> u8 list \<Rightarrow> (u32 list \<times> u32 \<times> u8 list) option" where
  "aton_parts parts cp =
     (if \<not> isdigit (cur cp) then None
      else (let (base, cp1) = aton_base cp; (val, cp2) = aton_digits base 0 cp1
            in if cur cp2 = 0x2e
               then (if length parts \<ge> 3 then None else aton_parts (parts @ [val]) (tl cp2))
               else Some (parts, val, cp2)))"
  by pat_completeness auto
termination
proof (relation "measure (\<lambda>(parts, cp). length cp)"; clarsimp)
  fix cp base cp1 val cp2
  assume "(base, cp1) = aton_base cp" "(val, cp2) = aton_digits base 0 cp1" "cur cp2 = 0x2e"
  then show "length cp2 - Suc 0 < length cp"
    using aton_base_length [of cp] aton_digits_length [of base 0 cp1]
    by (cases cp2) (auto simp: cur_def dest!: sym [of "(_, _)"])
qed

declare aton_parts.simps [simp del]

definition inet_aton :: "bool \<Rightarrow> u8 list \<Rightarrow> u32 option" where
  "inet_aton le cp = (case aton_parts [] cp of
     None \<Rightarrow> None
   | Some (parts, val, cp) \<Rightarrow>
       if cur cp \<noteq> 0 \<and> \<not> isspace (cur cp) then None
       else map_option (htonl le)
         (case parts of
            [] \<Rightarrow> Some val
          | [a] \<Rightarrow> if val > 0xffffff then None else Some (val OR push_bit 24 a)
          | [a, b] \<Rightarrow> if val > 0xffff then None else Some (val OR (push_bit 24 a OR push_bit 16 b))
          | [a, b, c] \<Rightarrow> if val > 0xff then None
                        else Some (val OR (push_bit 24 a OR push_bit 16 b OR push_bit 8 c))
          | _ \<Rightarrow> None))"

definition INADDR_NONE :: u32 where "INADDR_NONE = 0xffffffff"

definition inet_addr :: "bool \<Rightarrow> u8 list \<Rightarrow> u32" where
  "inet_addr le cp = (case inet_aton le cp of Some v \<Rightarrow> v | None \<Rightarrow> INADDR_NONE)"

section \<open>Printing\<close>

text \<open>The bytes of a 32-bit variable in memory.\<close>

definition mem_bytes :: "bool \<Rightarrow> u32 \<Rightarrow> u8 list" where
  "mem_bytes le a = (let bs = [ucast a, ucast (drop_bit 8 a), ucast (drop_bit 16 a), ucast (drop_bit 24 a)]
     in if le then bs else rev bs)"

text \<open>The digits of a byte, the lowest first, as the buffer \<open>inv\<close> collects them.\<close>

function ntoa_inv :: "u8 \<Rightarrow> u8 list" where
  "ntoa_inv b = (0x30 + b mod 10) # (if b div 10 = 0 then [] else ntoa_inv (b div 10))"
  by pat_completeness auto
termination
proof (relation "measure unat")
  fix b :: u8
  assume "b div 10 \<noteq> 0"
  then have "b \<noteq> 0"
    by auto
  then show "(b div 10, b) \<in> measure unat"
    by (simp add: unat_div unat_gt_0 div_less_dividend)
qed simp

declare ntoa_inv.simps [simp del]

definition inet_ntoa :: "bool \<Rightarrow> u32 \<Rightarrow> u8 list" where
  "inet_ntoa le a = butlast (concat (map (\<lambda>b. rev (ntoa_inv b) @ [0x2e]) (mem_bytes le a)))"

section \<open>Addresses\<close>

definition IP4_ADDR :: "bool \<Rightarrow> u8 \<Rightarrow> u8 \<Rightarrow> u8 \<Rightarrow> u8 \<Rightarrow> u32" where
  "IP4_ADDR le a b c d = htonl le (push_bit 24 (ucast a AND 0xff) OR push_bit 16 (ucast b AND 0xff) OR
     push_bit 8 (ucast c AND 0xff) OR (ucast d AND 0xff))"

definition ip4_addr1 :: "bool \<Rightarrow> u32 \<Rightarrow> u16" where
  "ip4_addr1 le a = ucast (drop_bit 24 (ntohl le a)) AND 0xff"
definition ip4_addr2 :: "bool \<Rightarrow> u32 \<Rightarrow> u16" where
  "ip4_addr2 le a = ucast (drop_bit 16 (ntohl le a)) AND 0xff"
definition ip4_addr3 :: "bool \<Rightarrow> u32 \<Rightarrow> u16" where
  "ip4_addr3 le a = ucast (drop_bit 8 (ntohl le a)) AND 0xff"
definition ip4_addr4 :: "bool \<Rightarrow> u32 \<Rightarrow> u16" where
  "ip4_addr4 le a = ucast (ntohl le a) AND 0xff"

definition IN_CLASSA :: "u32 \<Rightarrow> bool" where "IN_CLASSA a \<longleftrightarrow> a AND 0x80000000 = 0"
definition IN_CLASSB :: "u32 \<Rightarrow> bool" where "IN_CLASSB a \<longleftrightarrow> a AND 0xc0000000 = 0x80000000"
definition IN_CLASSC :: "u32 \<Rightarrow> bool" where "IN_CLASSC a \<longleftrightarrow> a AND 0xe0000000 = 0xc0000000"
definition IN_CLASSD :: "u32 \<Rightarrow> bool" where "IN_CLASSD a \<longleftrightarrow> a AND 0xf0000000 = 0xe0000000"
definition IN_EXPERIMENTAL :: "u32 \<Rightarrow> bool" where
  "IN_EXPERIMENTAL a \<longleftrightarrow> a AND 0xf0000000 = 0xf0000000"

definition ip_addr_netcmp :: "u32 \<Rightarrow> u32 \<Rightarrow> u32 \<Rightarrow> bool" where
  "ip_addr_netcmp addr1 addr2 msk \<longleftrightarrow> addr1 AND msk = addr2 AND msk"

definition ip_addr_ismulticast :: "bool \<Rightarrow> u32 \<Rightarrow> bool" where
  "ip_addr_ismulticast le a \<longleftrightarrow> a AND ntohl le 0xf0000000 = ntohl le 0xe0000000"

definition ip_addr_islinklocal :: "bool \<Rightarrow> u32 \<Rightarrow> bool" where
  "ip_addr_islinklocal le a \<longleftrightarrow> a AND ntohl le 0xffff0000 = ntohl le 0xa9fe0000"

definition IP_ADDR_ANY_VALUE :: u32 where "IP_ADDR_ANY_VALUE = 0"
definition IP_ADDR_BROADCAST_VALUE :: u32 where "IP_ADDR_BROADCAST_VALUE = 0xffffffff"

record netif_addr =
  ni_ip_addr :: u32
  ni_netmask :: u32
  ni_flags :: u8

definition NETIF_FLAG_BROADCAST :: u8 where "NETIF_FLAG_BROADCAST = 2"

definition ip_addr_isbroadcast :: "u32 \<Rightarrow> netif_addr \<Rightarrow> bool" where
  "ip_addr_isbroadcast addr netif =
     (if NOT addr = IP_ADDR_ANY_VALUE \<or> addr = IP_ADDR_ANY_VALUE then True
      else if ni_flags netif AND NETIF_FLAG_BROADCAST = 0 then False
      else if addr = ni_ip_addr netif then False
      else if ip_addr_netcmp addr (ni_ip_addr netif) (ni_netmask netif) \<and>
              addr AND NOT (ni_netmask netif) = IP_ADDR_BROADCAST_VALUE AND NOT (ni_netmask netif)
      then True
      else False)"


section \<open>Bytes of a word\<close>

definition byte :: "nat \<Rightarrow> u32 \<Rightarrow> u8" where
  "byte k a = ucast (drop_bit (8 * k) a)"

definition join4 :: "u8 \<Rightarrow> u8 \<Rightarrow> u8 \<Rightarrow> u8 \<Rightarrow> u32" where
  "join4 a b c d = push_bit 24 (ucast a) OR push_bit 16 (ucast b) OR push_bit 8 (ucast c) OR ucast d"

lemma u32_masks:
  "(0xff :: u32) = mask 8" "(0xff00 :: u32) = push_bit 8 (mask 8)"
  "(0xff0000 :: u32) = push_bit 16 (mask 8)" "(0xff000000 :: u32) = push_bit 24 (mask 8)"
  by (simp_all add: mask_eq_exp_minus_1 push_bit_eq_mult)

lemma join4_byte: "join4 (byte 3 a) (byte 2 a) (byte 1 a) (byte 0 a) = a"
proof (rule bit_word_eqI)
  fix n assume "n < LENGTH(32)"
  then consider "n < 8" | "8 \<le> n" "n < 16" | "16 \<le> n" "n < 24" | "24 \<le> n" "n < 32"
    by fastforce
  then show "bit (join4 (byte 3 a) (byte 2 a) (byte 1 a) (byte 0 a)) n = bit a n"
    unfolding join4_def byte_def by cases (auto simp: bit_simps)
qed

lemma byte_join4 [simp]:
  "byte 0 (join4 a b c d) = d" "byte 1 (join4 a b c d) = c" "byte (Suc 0) (join4 a b c d) = c"
  "byte 2 (join4 a b c d) = b" "byte 3 (join4 a b c d) = a"
  unfolding join4_def byte_def
  by (rule bit_word_eqI; auto simp: bit_simps dest: bit_imp_le_length)+

lemma htonl_bytes: "htonl True a = join4 (byte 0 a) (byte 1 a) (byte 2 a) (byte 3 a)"
  unfolding join4_def byte_def htonl_def u32_masks
  by (rule bit_word_eqI) (auto simp: bit_simps)

lemma htonl_htonl [simp]: "htonl le (htonl le a) = a"
  by (cases le) (simp_all add: htonl_bytes join4_byte [of a, simplified] htonl_def [of False])

lemma mem_bytes_byte:
  "mem_bytes le a = (if le then [byte 0 a, byte 1 a, byte 2 a, byte 3 a]
     else [byte 3 a, byte 2 a, byte 1 a, byte 0 a])"
  by (simp add: mem_bytes_def byte_def)

lemma mem_bytes_htonl: "mem_bytes le (htonl le a) = [byte 3 a, byte 2 a, byte 1 a, byte 0 a]"
  by (cases le) (simp_all only: mem_bytes_byte htonl_bytes byte_join4 if_True if_False htonl_def [of False])

lemma ucast_and_mask8: "(ucast (x :: u8) :: u32) AND 0xff = ucast x"
  unfolding u32_masks by (rule bit_word_eqI) (auto simp: bit_simps dest: bit_imp_le_length)

lemma IP4_ADDR_join4: "IP4_ADDR le a b c d = htonl le (join4 a b c d)"
  by (simp add: IP4_ADDR_def join4_def ucast_and_mask8)

lemma ucast_byte: "(ucast (drop_bit (8 * k) a) :: u16) AND 0xff = ucast (byte k a)"
proof -
  have m: "(0xff :: u16) = mask 8"
    by (simp add: mask_eq_exp_minus_1)
  show ?thesis
    unfolding byte_def m by (rule bit_word_eqI) (auto simp: bit_simps)
qed

lemma ip4_addr_IP4_ADDR:
  "ip4_addr1 le (IP4_ADDR le a b c d) = ucast a" "ip4_addr2 le (IP4_ADDR le a b c d) = ucast b"
  "ip4_addr3 le (IP4_ADDR le a b c d) = ucast c" "ip4_addr4 le (IP4_ADDR le a b c d) = ucast d"
  using ucast_byte [of 3 "join4 a b c d"] ucast_byte [of 2 "join4 a b c d"]
    ucast_byte [of 1 "join4 a b c d"] ucast_byte [of 0 "join4 a b c d"]
  by (simp_all add: ip4_addr1_def ip4_addr2_def ip4_addr3_def ip4_addr4_def IP4_ADDR_join4 ntohl_def)

section \<open>Printed numbers\<close>

text \<open>The decimal digits of a number below 256, the highest first.\<close>

definition dec3 :: "nat \<Rightarrow> nat list" where
  "dec3 n = (if n < 10 then [n] else if n < 100 then [n div 10, n mod 10]
     else [n div 100, n div 10 mod 10, n mod 10])"

definition digit_char :: "nat \<Rightarrow> u8" where
  "digit_char d = 0x30 + of_nat d"

lemma unat_of_nat8: "n < 256 \<Longrightarrow> unat (of_nat n :: u8) = n"
  by (simp add: unsigned_of_nat take_bit_nat_eq_self)

lemma ntoa_inv_step:
  assumes "n < 256"
  shows "ntoa_inv (of_nat n) = digit_char (n mod 10) # (if n div 10 = 0 then [] else ntoa_inv (of_nat (n div 10)))"
proof -
  have m: "(of_nat n :: u8) mod 10 = of_nat (n mod 10)" "(of_nat n :: u8) div 10 = of_nat (n div 10)"
    using assms by (simp_all add: word_unat_eq_iff unat_mod unat_div unat_of_nat8)
  have z: "(of_nat (n div 10) :: u8) = 0 \<longleftrightarrow> n div 10 = 0"
    using assms by (simp add: word_unat_eq_iff unat_of_nat8)
  show ?thesis
    by (subst ntoa_inv.simps) (simp only: m z digit_char_def)
qed

lemma ntoa_dec3: "n < 256 \<Longrightarrow> rev (ntoa_inv (of_nat n)) = map digit_char (dec3 n)"
proof -
  assume n: "n < 256"
  consider "n < 10" | "10 \<le> n" "n < 100" | "100 \<le> n"
    by linarith
  then show ?thesis
  proof cases
    case 1
    with n show ?thesis
      by (simp add: ntoa_inv_step dec3_def)
  next
    case 2
    with n show ?thesis
      by (simp add: ntoa_inv_step dec3_def div_eq_0_iff)
  next
    case 3
    with n have "n div 10 < 256" "n div 10 div 10 < 256" "n div 10 \<noteq> 0" "n div 10 div 10 \<noteq> 0" "n div 10 div 10 div 10 = 0"
      "n div 10 div 10 = n div 100" "n div 100 < 10"
      by (simp_all add: div_mult2_eq [symmetric])
    with n 3 show ?thesis
      by (simp add: ntoa_inv_step dec3_def)
  qed
qed

lemma isdigit_digit_char:
  assumes "d < 10"
  shows "isdigit (digit_char d)" "digit_char d - 0x30 = of_nat d" "digit_char d = 0x30 \<longleftrightarrow> d = 0"
    "digit_char d \<noteq> 0x78" "digit_char d \<noteq> 0x58" "digit_char d \<noteq> 0x2e"
proof -
  have u: "unat (digit_char d) = 0x30 + d"
    using assms by (simp add: digit_char_def unat_word_ariths unat_of_nat8)
  show "isdigit (digit_char d)"
    using assms by (simp add: isdigit_def in_range_def word_le_nat_alt u)
  show "digit_char d - 0x30 = of_nat d"
    by (simp add: digit_char_def)
  show "digit_char d = 0x30 \<longleftrightarrow> d = 0" "digit_char d \<noteq> 0x78" "digit_char d \<noteq> 0x58" "digit_char d \<noteq> 0x2e"
    using assms by (auto simp: word_unat_eq_iff u)
qed

lemma ucast_of_nat8: "n < 256 \<Longrightarrow> (ucast (of_nat n :: u8) :: u32) = of_nat n"
  by (simp add: word_unat_eq_iff unsigned_ucast_eq unsigned_of_nat take_bit_nat_eq_self)

lemma aton_digits_char:
  assumes "d < 10"
  shows "aton_digits base val (digit_char d # cp) = aton_digits base (val * base + of_nat d) cp"
  using isdigit_digit_char [OF assms] assms by (simp add: ucast_of_nat8)

lemma aton_digits_stop:
  "rest = [] \<or> cur rest = 0x2e \<Longrightarrow> aton_digits base val rest = (val, rest)"
  by (cases rest) (auto simp: cur_def isdigit_def isxdigit_def in_range_def)

lemma unat8_less: "unat (b :: u8) < 256"
  using unsigned_less [of b, where 'a = nat] by simp

lemma ntoa_parse:
  assumes "n < 256" "rest = [] \<or> cur rest = 0x2e"
  shows "isdigit (cur (rev (ntoa_inv (of_nat n)) @ rest)) \<and>
    (case aton_base (rev (ntoa_inv (of_nat n)) @ rest) of (base, cp) \<Rightarrow> aton_digits base 0 cp) = (of_nat n, rest)"
proof -
  have d: "n div 100 < 10" "n div 10 mod 10 < 10" "n mod 10 < 10"
    using assms(1) by simp_all
  have v3: "of_nat n = (100 * of_nat (n div 100) + of_nat (n div 10 mod 10) * 10 + of_nat (n mod 10) :: u32)"
  proof -
    have "n div 10 = n div 100 * 10 + n div 10 mod 10"
      using div_mult_mod_eq [of "n div 10" 10] by (simp add: div_mult2_eq [symmetric])
    moreover have "k = 100 * h + m * 10 + l" if "q = h * 10 + m" "q * 10 + l = k" for q h m l k :: nat
      using that by simp
    ultimately have "n = 100 * (n div 100) + n div 10 mod 10 * 10 + n mod 10"
      using div_mult_mod_eq [of n 10] by blast
    then have "of_nat n = (of_nat (100 * (n div 100) + n div 10 mod 10 * 10 + n mod 10) :: u32)"
      by (rule arg_cong)
    then show ?thesis
      by (simp only: of_nat_add of_nat_mult of_nat_numeral)
  qed
  have v2: "of_nat n = (of_nat (n div 10) * 10 + of_nat (n mod 10) :: u32)"
  proof -
    have "of_nat n = (of_nat (n div 10 * 10 + n mod 10) :: u32)"
      by (simp only: div_mult_mod_eq)
    then show ?thesis
      by (simp only: of_nat_add of_nat_mult of_nat_numeral)
  qed
  consider "n = 0" | "0 < n" "n < 10" | "10 \<le> n" "n < 100" | "100 \<le> n"
    by linarith
  then show ?thesis
  proof cases
    case 1
    then have "aton_base (digit_char 0 # rest) = (8, rest)"
      using assms(2) by (auto simp: aton_base_def cur_def digit_char_def split: list.splits)
    with 1 assms show ?thesis
      using isdigit_digit_char [of 0] ntoa_dec3 [of 0]
      by (simp add: dec3_def aton_digits_stop cur_def)
  next
    case 2
    with assms ntoa_dec3 [of n] isdigit_digit_char [of n] ucast_of_nat8 [of n] show ?thesis
      by (simp add: dec3_def aton_digits_stop cur_def aton_base_def aton_digits_char del: aton_digits.simps)
  next
    case 3
    then have d: "n div 10 < 10" "n div 10 \<noteq> 0" "n mod 10 < 10"
      by (simp_all add: div_eq_0_iff)
    with 3 assms ntoa_dec3 [of n] isdigit_digit_char [of "n div 10"] show ?thesis
      by (simp add: dec3_def aton_digits_stop cur_def aton_base_def aton_digits_char v2 [symmetric] del: aton_digits.simps)
  next
    case 4
    then have "n div 100 \<noteq> 0"
      by (simp add: div_eq_0_iff)
    with 4 d assms ntoa_dec3 [of n] isdigit_digit_char [of "n div 100"] show ?thesis
      by (simp add: dec3_def aton_digits_stop cur_def aton_base_def aton_digits_char v3 [symmetric] del: aton_digits.simps)
  qed
qed

lemma aton_parts_dot:
  "aton_parts parts (rev (ntoa_inv b) @ 0x2e # cp) =
    (if length parts \<ge> 3 then None else aton_parts (parts @ [ucast b]) cp)"
proof -
  note b = unat8_less [of b]
  from ntoa_parse [OF b, of "0x2e # cp"] ucast_of_nat8 [OF b] show ?thesis
    by (subst aton_parts.simps) (auto simp: cur_def split: prod.splits)
qed

lemma aton_parts_end: "aton_parts parts (rev (ntoa_inv b)) = Some (parts, ucast b, [])"
proof -
  note b = unat8_less [of b]
  from ntoa_parse [OF b, of "[]"] ucast_of_nat8 [OF b] show ?thesis
    by (subst aton_parts.simps) (auto simp: cur_def split: prod.splits)
qed

lemma inet_ntoa_join4:
  "inet_ntoa le (htonl le (join4 a b c d)) =
     rev (ntoa_inv a) @ 0x2e # rev (ntoa_inv b) @ 0x2e # rev (ntoa_inv c) @ 0x2e # rev (ntoa_inv d)"
  by (simp add: inet_ntoa_def mem_bytes_htonl butlast_append)

lemma inet_aton_join4:
  "inet_aton le (rev (ntoa_inv a) @ 0x2e # rev (ntoa_inv b) @ 0x2e # rev (ntoa_inv c) @ 0x2e # rev (ntoa_inv d)) =
     Some (htonl le (join4 a b c d))"
proof -
  have "\<not> ucast d > (0xff :: u32)"
    using unat8_less [of d] by (simp add: word_less_nat_alt unsigned_ucast_eq take_bit_nat_eq_self)
  moreover have "ucast d OR (push_bit 24 (ucast a) OR push_bit 16 (ucast b) OR push_bit 8 (ucast c)) = join4 a b c d"
    by (simp add: join4_def or.commute or.left_commute or.assoc)
  ultimately show ?thesis
    by (simp add: inet_aton_def aton_parts_dot aton_parts_end cur_def)
qed

lemma length_ntoa_inv: "length (ntoa_inv b) \<le> 3"
proof -
  have "length (rev (ntoa_inv b)) = length (map digit_char (dec3 (unat b)))"
    using ntoa_dec3 [OF unat8_less [of b]] by simp
  then show ?thesis
    by (simp add: dec3_def)
qed

section \<open>Properties\<close>

text \<open>
  C26. Printing and parsing of addresses agree in both byte orders: the dotted form of every address is
  read back as that address and fits the 16-byte buffer of \<open>inet_ntoa\<close>, the address built from four
  bytes prints as their decimal digits separated by dots, and \<open>ip4_addr1\<close> to \<open>ip4_addr4\<close> return them.
\<close>

theorem inet_address_roundtrip:
  "inet_aton le (inet_ntoa le x) = Some x \<and> length (inet_ntoa le x) + 1 \<le> 16 \<and>
   inet_ntoa le (IP4_ADDR le a b c d) =
     map digit_char (dec3 (unat a)) @ 0x2e # map digit_char (dec3 (unat b)) @ 0x2e #
     map digit_char (dec3 (unat c)) @ 0x2e # map digit_char (dec3 (unat d)) \<and>
   ip4_addr1 le (IP4_ADDR le a b c d) = ucast a \<and> ip4_addr2 le (IP4_ADDR le a b c d) = ucast b \<and>
   ip4_addr3 le (IP4_ADDR le a b c d) = ucast c \<and> ip4_addr4 le (IP4_ADDR le a b c d) = ucast d"
proof -
  define y where "y = htonl le x"
  have x: "x = htonl le (join4 (byte 3 y) (byte 2 y) (byte 1 y) (byte 0 y))"
    by (simp only: y_def join4_byte htonl_htonl)
  have "inet_aton le (inet_ntoa le x) = Some x"
    unfolding x inet_ntoa_join4 inet_aton_join4 ..
  moreover have "length (inet_ntoa le x) + 1 \<le> 16"
    unfolding x inet_ntoa_join4
    using length_ntoa_inv [of "byte 3 y"] length_ntoa_inv [of "byte 2 y"]
      length_ntoa_inv [of "byte 1 y"] length_ntoa_inv [of "byte 0 y"] by simp
  moreover have "rev (ntoa_inv z) = map digit_char (dec3 (unat z))" for z
    using ntoa_dec3 [of "unat z"] unat8_less [of z] by simp
  then have "inet_ntoa le (IP4_ADDR le a b c d) =
     map digit_char (dec3 (unat a)) @ 0x2e # map digit_char (dec3 (unat b)) @ 0x2e #
     map digit_char (dec3 (unat c)) @ 0x2e # map digit_char (dec3 (unat d))"
    by (simp only: IP4_ADDR_join4 inet_ntoa_join4)
  ultimately show ?thesis
    using ip4_addr_IP4_ADDR by blast
qed

end
