(* ===== verification/LwipChksum.thy ===== *)
theory LwipChksum
  imports LwipInet
begin

text \<open>
  The Internet checksum of the network stack (\<open>core/ipv4/inet_chksum.c\<close> of the lwIP tree): the three
  routines for a block of memory that \<open>LWIP_CHKSUM_ALGORITHM\<close> selects, and the checksums of a
  buffer chain and of a pseudo header over the routine chosen as \<open>LWIP_CHKSUM\<close>. A block is the list of
  its bytes, a buffer chain the list of its payloads (\<open>q->len\<close> is the length of one), \<open>addr\<close> the
  address a block starts at; \<open>le\<close> is the byte order of the build. The locale \<open>chksum_routine\<close> states
  what the callers rely on, and each of the three routines is an instance of it.
\<close>

section \<open>The routines\<close>

definition FOLD_U32T :: "u32 \<Rightarrow> u32" where
  "FOLD_U32T u = drop_bit 16 u + (u AND 0xffff)"

definition SWAP_BYTES_IN_WORD :: "u32 \<Rightarrow> u32" where
  "SWAP_BYTES_IN_WORD w = push_bit 8 (w AND 0xff) OR drop_bit 8 (w AND 0xff00)"

text \<open>A 16-bit and a 32-bit read in host byte order.\<close>

definition rd16 :: "bool \<Rightarrow> u8 \<Rightarrow> u8 \<Rightarrow> u16" where
  "rd16 le a b = (if le then push_bit 8 (ucast b) OR ucast a else push_bit 8 (ucast a) OR ucast b)"

definition rd32 :: "bool \<Rightarrow> u8 \<Rightarrow> u8 \<Rightarrow> u8 \<Rightarrow> u8 \<Rightarrow> u32" where
  "rd32 le a b c d = (if le then join4 d c b a else join4 a b c d)"

fun chksum1_loop :: "u32 \<Rightarrow> u8 list \<Rightarrow> u32" where
  "chksum1_loop acc (a # b # bs) = chksum1_loop (acc + ucast (push_bit 8 (ucast a) OR ucast b :: u16)) bs"
| "chksum1_loop acc [a] = acc + ucast (push_bit 8 (ucast a) :: u16)"
| "chksum1_loop acc [] = acc"

definition lwip_standard_chksum1 :: "bool \<Rightarrow> nat \<Rightarrow> u8 list \<Rightarrow> u16" where
  "lwip_standard_chksum1 le addr bs =
     (let acc = chksum1_loop 0 bs;
          acc = drop_bit 16 acc + (acc AND 0xffff);
          acc = (if acc AND 0xffff0000 \<noteq> 0 then drop_bit 16 acc + (acc AND 0xffff) else acc)
      in htons le (ucast acc))"

text \<open>The bulk of whole 16-bit words, and the byte left over.\<close>

fun chksum_words :: "bool \<Rightarrow> u32 \<Rightarrow> u8 list \<Rightarrow> u32 \<times> u8 list" where
  "chksum_words le sm (a # b # bs) = chksum_words le (sm + ucast (rd16 le a b)) bs"
| "chksum_words le sm bs = (sm, bs)"

text \<open>The two bytes of \<open>t\<close>: the first byte of an odd block is its second, a last byte its first.\<close>

definition chksum_tail :: "u8 list \<Rightarrow> u8" where
  "chksum_tail bs = (case bs of [] \<Rightarrow> 0 | b # _ \<Rightarrow> b)"

definition lwip_standard_chksum2 :: "bool \<Rightarrow> nat \<Rightarrow> u8 list \<Rightarrow> u16" where
  "lwip_standard_chksum2 le addr bs =
     (let odd_addr = odd addr;
          (t1, bs) = (if odd_addr \<and> bs \<noteq> [] then (hd bs, tl bs) else (0, bs));
          (sm, rest) = chksum_words le 0 bs;
          sm = sm + ucast (rd16 le (chksum_tail rest) t1);
          sm = FOLD_U32T (FOLD_U32T sm)
      in ucast (if odd_addr then SWAP_BYTES_IN_WORD sm else sm))"

fun chksum3_long :: "bool \<Rightarrow> u32 \<Rightarrow> u8 list \<Rightarrow> u32 \<times> u8 list" where
  "chksum3_long le sm (a # b # c # d # e # f # g # h # bs) =
     (let tmp = sm + rd32 le a b c d; tmp = (if tmp < sm then tmp + 1 else tmp);
          sm = tmp + rd32 le e f g h; sm = (if sm < tmp then sm + 1 else sm)
      in chksum3_long le sm bs)"
| "chksum3_long le sm bs = (sm, bs)"

definition lwip_standard_chksum3 :: "bool \<Rightarrow> nat \<Rightarrow> u8 list \<Rightarrow> u16" where
  "lwip_standard_chksum3 le addr bs =
     (let odd_addr = odd addr;
          (t1, addr, bs) = (if odd_addr \<and> bs \<noteq> [] then (hd bs, addr + 1, tl bs) else (0, addr, bs));
          (sm, bs) = (if addr mod 4 \<noteq> 0 \<and> length bs > 1
                       then (ucast (rd16 le (bs ! 0) (bs ! 1)), drop 2 bs) else (0, bs));
          (sm, bs) = chksum3_long le sm bs;
          sm = FOLD_U32T sm;
          (sm, rest) = chksum_words le sm bs;
          sm = sm + ucast (rd16 le (chksum_tail rest) t1);
          sm = FOLD_U32T (FOLD_U32T sm)
      in ucast (if odd_addr then SWAP_BYTES_IN_WORD sm else sm))"

section \<open>The callers\<close>

text \<open>\<open>chksum\<close> is \<open>LWIP_CHKSUM\<close>; a payload comes with the address it is at.\<close>

fun chksum_chain :: "(nat \<Rightarrow> u8 list \<Rightarrow> u16) \<Rightarrow> u32 \<times> bool \<Rightarrow> (nat \<times> u8 list) list \<Rightarrow> u32 \<times> bool" where
  "chksum_chain chksum (acc, swapped) [] = (acc, swapped)"
| "chksum_chain chksum (acc, swapped) ((addr, bs) # qs) =
     (let acc = FOLD_U32T (acc + ucast (chksum addr bs))
      in if length bs mod 2 \<noteq> 0
         then chksum_chain chksum (SWAP_BYTES_IN_WORD acc, \<not> swapped) qs
         else chksum_chain chksum (acc, swapped) qs)"

definition inet_chksum_pseudo :: "bool \<Rightarrow> (nat \<Rightarrow> u8 list \<Rightarrow> u16) \<Rightarrow> (nat \<times> u8 list) list \<Rightarrow>
    u32 \<Rightarrow> u32 \<Rightarrow> u8 \<Rightarrow> u16 \<Rightarrow> u16" where
  "inet_chksum_pseudo le chksum p src dest proto proto_len =
     (let (acc, swapped) = chksum_chain chksum (0, False) p;
          acc = (if swapped then SWAP_BYTES_IN_WORD acc else acc);
          acc = acc + (src AND 0xffff);
          acc = acc + (drop_bit 16 src AND 0xffff);
          acc = acc + (dest AND 0xffff);
          acc = acc + (drop_bit 16 dest AND 0xffff);
          acc = acc + ucast (htons le (ucast proto));
          acc = acc + ucast (htons le proto_len);
          acc = FOLD_U32T (FOLD_U32T acc)
      in ucast (NOT (acc AND 0xffff)))"

definition inet_chksum :: "(nat \<Rightarrow> u8 list \<Rightarrow> u16) \<Rightarrow> nat \<Rightarrow> u8 list \<Rightarrow> u16" where
  "inet_chksum chksum addr bs = NOT (chksum addr bs)"

definition inet_chksum_pbuf :: "(nat \<Rightarrow> u8 list \<Rightarrow> u16) \<Rightarrow> (nat \<times> u8 list) list \<Rightarrow> u16" where
  "inet_chksum_pbuf chksum p =
     (let (acc, swapped) = chksum_chain chksum (0, False) p;
          acc = (if swapped then SWAP_BYTES_IN_WORD acc else acc)
      in ucast (NOT (acc AND 0xffff)))"

section \<open>Ones' complement sums\<close>

text \<open>The sum of the bytes with alternating weights, and the representative of a sum in 16 bits.\<close>

fun ksum :: "bool \<Rightarrow> bool \<Rightarrow> u8 list \<Rightarrow> nat" where
  "ksum le p [] = 0"
| "ksum le p (b # bs) = (if le = p then 256 else 1) * unat b + ksum le (\<not> p) bs"

definition oc :: "nat \<Rightarrow> nat" where
  "oc n = (if n = 0 then 0 else (n - 1) mod 65535 + 1)"

lemma ksum_append: "ksum le p (xs @ ys) = ksum le p xs + ksum le (p \<noteq> odd (length xs)) ys"
proof (induction xs arbitrary: p)
  case (Cons x xs)
  show ?case
    by (cases p; cases "odd (length xs)") (simp_all add: Cons)
qed simp

lemma oc_le: "oc n \<le> 65535"
proof -
  have "(n - 1) mod 65535 + 1 \<le> 65535"
    using mod_less_divisor [of 65535 "n - 1"] by (simp only: Suc_eq_plus1 [symmetric] Suc_le_eq)
  then show ?thesis
    by (cases "n = 0") (simp_all only: oc_def if_True if_False le0 simp_thms)
qed

lemma oc_zero [simp]: "oc 0 = 0"
  by (simp add: oc_def)

lemma oc_0 [simp]: "oc n = 0 \<longleftrightarrow> n = 0"
  by (simp add: oc_def)

lemma oc_cong: "oc n mod 65535 = n mod 65535"
  by (cases n) (simp_all add: oc_def mod_Suc_eq)

lemma oc_unique:
  assumes "m \<le> 65535" "m mod 65535 = n mod 65535" "m = 0 \<longleftrightarrow> n = 0"
  shows "m = oc n"
proof (cases "n = 0")
  case False
  have "0 < oc n" "0 < m"
    using assms(3) False by (metis oc_0 gr0I)+
  moreover have "m mod 65535 = oc n mod 65535"
    using assms(2) oc_cong by metis
  moreover have "oc n \<le> 65535"
    by (rule oc_le)
  ultimately show ?thesis
    using assms(1) by (cases "m = 65535"; cases "oc n = 65535") auto
qed (use assms in simp)

lemma oc_eqI: "n mod 65535 = m mod 65535 \<Longrightarrow> (n = 0 \<longleftrightarrow> m = 0) \<Longrightarrow> oc n = oc m"
  using oc_cong oc_le by (intro oc_unique) simp_all

lemma oc_small: "n \<le> 65535 \<Longrightarrow> oc n = n"
  by (rule sym, rule oc_unique) simp_all

lemma oc_add: "oc (oc m + n) = oc (m + n)"
  by (rule oc_eqI) (simp_all add: mod_add_left_eq [of "oc m", symmetric] mod_add_left_eq [of m, symmetric] oc_cong
      del: mod_add_left_eq mod_add_cong)

lemma oc_mult: "oc (256 * oc n) = oc (256 * n)"
  by (rule oc_eqI) (simp_all add: mod_mult_right_eq [of _ "oc n", symmetric] mod_mult_right_eq [of _ n, symmetric] oc_cong
      del: mod_mult_right_eq)

lemma ksum_zero: "ksum le p bs = 0 \<longleftrightarrow> (\<forall>b\<in>set bs. b = 0)"
  by (induction bs arbitrary: p) (auto simp: unat_eq_0)

lemma ksum_256: "256 * ksum le p bs mod 65535 = ksum le (\<not> p) bs mod 65535"
proof (induction bs arbitrary: p)
  case (Cons b bs)
  have "256 * ((if le = p then 256 else 1) * unat b) mod 65535 = (if le = (\<not> p) then 256 else 1) * unat b mod 65535"
  proof (cases "le = p")
    case True
    have "256 * (256 * unat b) = unat b + unat b * 65535"
      by simp
    then have "256 * (256 * unat b) mod 65535 = unat b mod 65535"
      by (simp only: mod_mult_self1)
    with True show ?thesis
      by simp
  qed simp
  from mod_add_cong [OF this Cons.IH [of "\<not> p"]] show ?case
    by (simp only: ksum.simps distrib_left)
qed simp

lemma oc_ksum_256: "oc (256 * ksum le p bs) = oc (ksum le (\<not> p) bs)"
  by (rule oc_eqI) (auto simp: ksum_256 ksum_zero)


section \<open>The word operations over these sums\<close>

lemma unat_FOLD_parts:
  "unat (drop_bit 16 u :: u32) = unat u div 65536" "unat (u AND 0xffff :: u32) = unat u mod 65536"
proof -
  have m: "(0xffff :: u32) = mask 16"
    by (simp add: mask_eq_exp_minus_1)
  show "unat (drop_bit 16 u :: u32) = unat u div 65536"
    by (simp add: unat_drop_bit_eq drop_bit_eq_div [where 'a = nat])
  show "unat (u AND 0xffff :: u32) = unat u mod 65536"
    unfolding m take_bit_eq_mask [symmetric] by (simp add: unsigned_take_bit_eq take_bit_eq_mod [where 'a = nat])
qed

lemma unat_FOLD: "unat (FOLD_U32T u) = unat u div 65536 + unat u mod 65536"
proof -
  have "unat u div 65536 < 65536"
    using unsigned_less [of u, where 'a = nat] by (simp add: less_mult_imp_div_less)
  moreover have "unat u mod 65536 < 65536"
    by simp
  ultimately have "unat u div 65536 + unat u mod 65536 < 2 ^ 32"
    by (simp del: mod_less_divisor)
  then show ?thesis
    unfolding FOLD_U32T_def by (subst unat_plus_if') (simp add: unat_FOLD_parts)
qed

lemma oc_fold: "oc (n div 65536 + n mod 65536) = oc n"
proof (rule oc_eqI)
  have "n = (n div 65536 + n mod 65536) + 65535 * (n div 65536)"
    using mult_div_mod_eq [of 65536 n] by linarith
  then show "(n div 65536 + n mod 65536) mod 65535 = n mod 65535"
    by (metis mod_mult_self2)
  show "n div 65536 + n mod 65536 = 0 \<longleftrightarrow> n = 0"
    by (metis add_is_0 div_0 mod_0 mult_0 mult_div_mod_eq mult_is_0 add_0)
qed

lemma FOLD_oc:
  assumes "unat u \<le> 0x1fffe"
  shows "unat (FOLD_U32T u) = oc (unat u)"
proof -
  have "unat u div 65536 + unat u mod 65536 \<le> 65535"
  proof (cases "unat u < 65536")
    case False
    with assms have "unat u div 65536 = 1" "unat u mod 65536 = unat u - 65536"
      by (simp_all add: div_nat_eqI mod_if)
    with assms show ?thesis
      by simp
  qed simp
  then show ?thesis
    using oc_small [of "unat u div 65536 + unat u mod 65536"] by (simp add: unat_FOLD oc_fold)
qed

lemma FOLD_FOLD_oc: "unat (FOLD_U32T (FOLD_U32T u)) = oc (unat u)"
proof -
  have "unat u div 65536 < 65536"
    using unsigned_less [of u, where 'a = nat] by (simp add: less_mult_imp_div_less)
  moreover have "unat u mod 65536 < 65536"
    by simp
  ultimately have "unat (FOLD_U32T u) \<le> 0x1fffe"
    unfolding unat_FOLD by linarith
  from FOLD_oc [OF this] show ?thesis
    by (simp add: unat_FOLD oc_fold)
qed

lemma or_byte:
  assumes "b < 256"
  shows "256 * a OR b = 256 * a + (b :: nat)"
proof -
  have "256 * a AND b = 0"
  proof (rule bit_eqI)
    fix n
    show "bit (256 * a AND b) n = bit (0 :: nat) n"
      using bit_less_exp [of b 8 n] assms bit_push_bit_iff [of 8 a n]
      by (auto simp: bit_and_iff push_bit_eq_mult mult.commute)
  qed
  from disjunctive_add_eq_or [OF this] show ?thesis ..
qed

lemma unat_push_or:
  "unat (push_bit 8 (ucast (a :: u8)) OR ucast (b :: u8) :: u16) = 256 * unat a + unat b"
  "unat (push_bit 8 (ucast (a :: u8)) OR ucast (b :: u8) :: u32) = 256 * unat a + unat b"
  using unat8_less [of a] unat8_less [of b]
  by (simp_all add: unsigned_or_eq unsigned_push_bit_eq unsigned_ucast_eq push_bit_eq_mult [where 'a = nat]
        take_bit_nat_eq_self or_byte mult.commute [of _ 256])

lemma SWAP_bytes: "SWAP_BYTES_IN_WORD w = push_bit 8 (ucast (byte 0 w)) OR ucast (byte 1 w)"
  unfolding SWAP_BYTES_IN_WORD_def byte_def u32_masks
  by (rule bit_word_eqI) (auto simp: bit_simps)

lemma unat_byte01:
  assumes "unat w \<le> 65535"
  shows "unat (byte 0 w) = unat w mod 256" "unat (byte 1 w) = unat w div 256"
  using assms by (simp_all add: byte_def unsigned_ucast_eq take_bit_eq_mod unat_drop_bit_eq
      drop_bit_eq_div [where 'a = nat])

lemma SWAP_oc:
  assumes "unat w \<le> 65535"
  shows "unat (SWAP_BYTES_IN_WORD w) = oc (256 * unat w)"
proof -
  define h l where "h = unat w div 256" and "l = unat w mod 256"
  have w: "unat w = 256 * h + l" "h < 256" "l < 256"
    using assms by (simp_all add: h_def l_def)
  have "256 * l + h = oc (256 * (256 * h + l))"
  proof (rule oc_unique)
    have "256 * (256 * h + l) = (256 * l + h) + 65535 * h"
      by simp
    then show "(256 * l + h) mod 65535 = 256 * (256 * h + l) mod 65535"
      by (metis mod_mult_self2)
    show "256 * l + h \<le> 65535"
      using w(2,3) by linarith
    show "256 * l + h = 0 \<longleftrightarrow> 256 * (256 * h + l) = 0"
      by auto
  qed
  moreover have "unat (SWAP_BYTES_IN_WORD w) = 256 * l + h"
    using unat_byte01 [OF assms] by (simp add: SWAP_bytes unat_push_or h_def l_def)
  ultimately show ?thesis
    using w(1) by simp
qed

lemma htons_oc: "unat (htons le w) = (if le then oc (256 * unat w) else unat w)"
proof (cases le)
  case True
  have "ucast (htons True w) = SWAP_BYTES_IN_WORD (ucast w)"
  proof -
    have m: "(0xff :: u16) = mask 8" "(0xff00 :: u16) = push_bit 8 (mask 8)"
      by (simp_all add: mask_eq_exp_minus_1 push_bit_eq_mult)
    show ?thesis
      unfolding htons_def SWAP_BYTES_IN_WORD_def u32_masks m if_True
      by (rule bit_word_eqI) (auto simp: bit_simps dest: bit_imp_le_length)
  qed
  moreover have "unat (ucast w :: u32) = unat w" "unat (ucast (htons True w) :: u32) = unat (htons True w)" "unat w \<le> 65535"
    using unsigned_less [of w, where 'a = nat] unsigned_less [of "htons True w", where 'a = nat]
    by (simp_all add: unsigned_ucast_eq take_bit_nat_eq_self)
  ultimately show ?thesis
    using True SWAP_oc [of "ucast w"] by simp
qed (simp add: htons_def)

lemma unat_rd16: "unat (rd16 le a b) = ksum le False [a, b]"
  by (simp add: rd16_def unat_push_or)


section \<open>The three routines compute the same sum\<close>

lemma unat_ucast16 [simp]: "unat (ucast (w :: u16) :: u32) = unat w"
  using unsigned_less [of w, where 'a = nat] by (simp add: unsigned_ucast_eq take_bit_nat_eq_self)

lemma unat16_le: "unat (w :: u16) \<le> 65535"
  using unsigned_less [of w, where 'a = nat] by simp

lemma unat_add_no_wrap: "unat a + unat b < 2 ^ 32 \<Longrightarrow> unat (a + b :: u32) = unat a + unat b"
  by (subst unat_plus_if') simp

lemma ksum_flip: "ksum le p bs = ksum (\<not> le) (\<not> p) bs"
  by (induction bs arbitrary: p) auto

lemma ksum_pair_le: "ksum le p [a, b] \<le> 65535"
  using unat8_less [of a] unat8_less [of b] by (cases le; cases p) auto

lemma chksum1_loop_sum:
  assumes "unat acc + 65535 * length bs < 2 ^ 32"
  shows "unat (chksum1_loop acc bs) = unat acc + ksum False False bs"
  using assms
proof (induction acc bs rule: chksum1_loop.induct)
  case (1 acc a b bs)
  have w: "unat (push_bit 8 (ucast a) OR ucast b :: u16) = ksum False False [a, b]"
    by (simp add: unat_push_or)
  have s: "unat (acc + ucast (push_bit 8 (ucast a) OR ucast b :: u16)) = unat acc + ksum False False [a, b]"
    using 1(2) ksum_pair_le [of False False a b] by (subst unat_add_no_wrap) (simp_all only: unat_ucast16 w, simp)
  show ?case
    using 1 s ksum_pair_le [of False False a b] by simp
next
  case (2 acc a)
  have w: "unat (push_bit 8 (ucast a) :: u16) = ksum False False [a, 0]"
    using unat_push_or(1) [of a 0] by simp
  show ?case
    using 2 ksum_pair_le [of False False a 0] by (subst chksum1_loop.simps, subst unat_add_no_wrap) (simp_all only: unat_ucast16 w, simp_all)
qed simp

text \<open>The sum a routine owes for a block, in host byte order.\<close>

definition host_sum :: "bool \<Rightarrow> u8 list \<Rightarrow> u16" where
  "host_sum le bs = of_nat (oc (ksum le False bs))"

lemma unat_host_sum: "unat (host_sum le bs) = oc (ksum le False bs)"
  using oc_le [of "ksum le False bs"] by (simp add: host_sum_def unsigned_of_nat take_bit_nat_eq_self)

lemma host_sumI: "unat w = oc (ksum le False bs) \<Longrightarrow> w = host_sum le bs"
  by (simp add: word_unat_eq_iff unat_host_sum)

lemma high_half: "(u AND 0xffff0000 \<noteq> 0) = (65535 < unat u)" for u :: u32
proof -
  have m: "(0xffff0000 :: u32) = push_bit 16 (mask 16)"
    by (simp add: mask_eq_exp_minus_1 push_bit_eq_mult)
  have "(u AND 0xffff0000 = 0) = (drop_bit 16 u = 0)"
  proof
    have "drop_bit 16 u = drop_bit 16 (u AND push_bit 16 (mask 16))"
      by (rule bit_word_eqI) (auto simp: bit_simps dest: bit_imp_le_length)
    then show "u AND 0xffff0000 = 0 \<Longrightarrow> drop_bit 16 u = 0"
      unfolding m by simp
    have "u AND push_bit 16 (mask 16) = push_bit 16 (drop_bit 16 u)"
      by (rule bit_word_eqI) (auto simp: bit_simps)
    then show "drop_bit 16 u = 0 \<Longrightarrow> u AND 0xffff0000 = 0"
      unfolding m by simp
  qed
  also have "\<dots> = (unat u div 65536 = 0)"
    by (simp add: word_unat_eq_iff unat_FOLD_parts)
  finally show ?thesis
    by (simp add: div_eq_0_iff not_less) linarith
qed

lemma ucast_oc: "unat w = oc n \<Longrightarrow> unat (ucast (w :: u32) :: u16) = oc n"
  using oc_le [of n] by (simp add: unsigned_ucast_eq take_bit_nat_eq_self)

lemma chksum1_correct:
  assumes "length bs < 65536"
  shows "lwip_standard_chksum1 le addr bs = host_sum le bs"
proof -
  define acc where "acc = chksum1_loop 0 bs"
  have acc: "unat acc = ksum False False bs"
    using assms chksum1_loop_sum [of 0 bs] by (simp add: acc_def)
  define acc2 where "acc2 = (if FOLD_U32T acc AND 0xffff0000 \<noteq> 0 then FOLD_U32T (FOLD_U32T acc) else FOLD_U32T acc)"
  have "unat acc2 = oc (ksum False False bs)"
  proof (cases "65535 < unat (FOLD_U32T acc)")
    case True
    then show ?thesis
      by (simp add: acc2_def high_half FOLD_FOLD_oc acc)
  next
    case False
    then have "unat (FOLD_U32T acc) = oc (unat (FOLD_U32T acc))"
      by (simp add: oc_small)
    also have "\<dots> = oc (unat acc)"
      by (simp add: unat_FOLD oc_fold)
    finally show ?thesis
      using False by (simp add: acc2_def high_half acc)
  qed
  then have "unat (ucast acc2 :: u16) = oc (ksum False False bs)"
    by (rule ucast_oc)
  then have "unat (htons le (ucast acc2)) = oc (ksum le False bs)"
    using oc_ksum_256 [of False False bs] ksum_flip [of True False bs]
    by (simp add: htons_oc oc_mult)
  moreover have "lwip_standard_chksum1 le addr bs = htons le (ucast acc2)"
    by (simp add: lwip_standard_chksum1_def acc2_def acc_def FOLD_U32T_def Let_def)
  ultimately show ?thesis
    by (simp add: host_sumI)
qed

lemma chksum_words_sum:
  assumes "unat sm + 65535 * length bs < 2 ^ 32"
  shows "case chksum_words le sm bs of (sm', rest) \<Rightarrow>
    unat sm' + ksum le False rest = unat sm + ksum le False bs \<and> length rest \<le> 1 \<and>
    unat sm' \<le> unat sm + 65535 * length bs"
  using assms
proof (induction le sm bs rule: chksum_words.induct)
  case (1 le sm a b bs)
  have s: "unat (sm + ucast (rd16 le a b)) = unat sm + ksum le False [a, b]"
    using 1(2) ksum_pair_le [of le False a b]
    by (subst unat_add_no_wrap) (simp_all only: unat_ucast16 unat_rd16, simp)
  show ?case
    using 1 s ksum_pair_le [of le False a b] by (auto split: prod.splits)
qed auto

lemma chksum_finish:
  assumes "length rest \<le> 1" "unat sm + 65535 < 2 ^ 32"
  shows "unat (FOLD_U32T (FOLD_U32T (sm + ucast (rd16 le (chksum_tail rest) t1)))) =
    oc (unat sm + ksum le False rest + ksum le True [t1])"
proof -
  have "unat (sm + ucast (rd16 le (chksum_tail rest) t1)) = unat sm + unat (rd16 le (chksum_tail rest) t1)"
    using assms(2) unat16_le [of "rd16 le (chksum_tail rest) t1"]
    by (subst unat_add_no_wrap) simp_all
  also have "unat (rd16 le (chksum_tail rest) t1) = ksum le False rest + ksum le True [t1]"
    unfolding unat_rd16 using assms(1) by (cases rest) (auto simp: chksum_tail_def)
  finally show ?thesis
    by (simp add: FOLD_FOLD_oc add.assoc)
qed

text \<open>The swap at the end of a block that starts at an odd address.\<close>

lemma odd_finish:
  assumes "unat w = oc (ksum le p bs)"
  shows "ucast (if p then SWAP_BYTES_IN_WORD w else w) = host_sum le bs"
proof (rule host_sumI)
  have "unat (if p then SWAP_BYTES_IN_WORD w else w) = oc (ksum le False bs)"
    using assms oc_le [of "ksum le p bs"] oc_ksum_256 [of le True bs] by (auto simp: SWAP_oc oc_mult)
  then show "unat (ucast (if p then SWAP_BYTES_IN_WORD w else w) :: u16) = oc (ksum le False bs)"
    by (rule ucast_oc)
qed

lemma odd_head:
  "ksum le False (if p \<and> bs \<noteq> [] then tl bs else bs) +
   ksum le True [if p \<and> bs \<noteq> [] then hd bs else 0] = ksum le p bs"
  by (cases bs; cases p) auto

lemma chksum2_correct:
  assumes "length bs < 65536"
  shows "lwip_standard_chksum2 le addr bs = host_sum le bs"
proof -
  define t1 bs1 where "t1 = (if odd addr \<and> bs \<noteq> [] then hd bs else 0)"
    and "bs1 = (if odd addr \<and> bs \<noteq> [] then tl bs else bs)"
  obtain sm rest where w: "chksum_words le 0 bs1 = (sm, rest)"
    by fastforce
  have l: "length bs1 < 65536"
    using assms by (auto simp: bs1_def)
  then have s: "unat sm + ksum le False rest = ksum le False bs1" "length rest \<le> 1" "unat sm + 65535 < 2 ^ 32"
    using chksum_words_sum [of 0 bs1 le] w by auto
  have "unat (FOLD_U32T (FOLD_U32T (sm + ucast (rd16 le (chksum_tail rest) t1)))) = oc (ksum le (odd addr) bs)"
    using chksum_finish [OF s(2,3), of le t1] s(1) odd_head [of le "odd addr" bs]
    by (simp add: t1_def bs1_def)
  from odd_finish [OF this] show ?thesis
    using w by (auto simp: lwip_standard_chksum2_def t1_def bs1_def Let_def split: if_splits)
qed


lemma end_around:
  "oc (unat (if s + p < s then s + p + 1 else s + p :: u32)) = oc (unat s + unat p)"
proof (cases "unat s + unat p < 2 ^ 32")
  case True
  then have "unat (s + p) = unat s + unat p"
    by (rule unat_add_no_wrap)
  then show ?thesis
    by (simp add: word_less_nat_alt)
next
  case False
  then have u: "unat (s + p) = unat s + unat p - 2 ^ 32"
    by (subst unat_plus_if') simp
  have b: "unat s < 2 ^ 32" "unat p < 2 ^ 32"
    using unsigned_less [of s, where 'a = nat] unsigned_less [of p, where 'a = nat] by simp_all
  with False u have "s + p < s"
    by (simp add: word_less_nat_alt)
  moreover have "unat (s + p + 1) = unat s + unat p - 2 ^ 32 + 1"
    using u b by (subst unat_add_no_wrap) simp_all
  moreover have "oc (unat s + unat p - 2 ^ 32 + 1) = oc (unat s + unat p)"
  proof (rule oc_eqI)
    have "unat s + unat p = (unat s + unat p - 2 ^ 32 + 1) + 65535 * 65537"
      using False by simp
    then show "(unat s + unat p - 2 ^ 32 + 1) mod 65535 = (unat s + unat p) mod 65535"
      by (metis mod_mult_self2)
    show "unat s + unat p - 2 ^ 32 + 1 = 0 \<longleftrightarrow> unat s + unat p = 0"
      using False by (cases "unat s = 0") auto
  qed
  ultimately show ?thesis
    by simp
qed

lemma unat_shift_or:
  assumes "unat x < 2 ^ 24"
  shows "unat (push_bit 8 x OR ucast (b :: u8) :: u32) = 256 * unat x + unat b"
  using assms unat8_less [of b]
  by (simp add: unsigned_or_eq unsigned_push_bit_eq unsigned_ucast_eq push_bit_eq_mult [where 'a = nat]
        take_bit_nat_eq_self or_byte mult.commute [of _ 256])

lemma unat_join4: "unat (join4 a b c d) = 16777216 * unat a + 65536 * unat b + 256 * unat c + unat d"
proof -
  have "join4 a b c d = push_bit 8 (push_bit 8 (push_bit 8 (ucast a) OR ucast b) OR ucast c) OR ucast d"
    by (simp add: join4_def push_bit_or or.assoc)
  moreover have l: "unat a < 256" "unat b < 256" "unat c < 256"
    by (rule unat8_less)+
  moreover have u1: "unat (push_bit 8 (ucast a) OR ucast b :: u32) = 256 * unat a + unat b"
    by (rule unat_push_or)
  moreover have u2: "unat (push_bit 8 (push_bit 8 (ucast a) OR ucast b) OR ucast c :: u32) =
      256 * (256 * unat a + unat b) + unat c"
    using l by (subst unat_shift_or) (simp_all only: u1, simp)
  moreover have "unat (push_bit 8 (push_bit 8 (push_bit 8 (ucast a) OR ucast b) OR ucast c) OR ucast d :: u32) =
      256 * (256 * (256 * unat a + unat b) + unat c) + unat d"
    using l by (subst unat_shift_or) (simp_all only: u2, simp)
  ultimately show ?thesis
    by (simp only:) simp
qed

lemma rd32_oc: "oc (unat (rd32 le a b c d)) = oc (ksum le False [a, b, c, d])"
proof (rule oc_eqI)
  have 1: "(16777216 * w + 65536 * x + 256 * y + z) mod 65535 = (256 * w + x + 256 * y + z) mod 65535" for w x y z :: nat
  proof -
    have "16777216 * w + 65536 * x + 256 * y + z = (256 * w + x + 256 * y + z) + 65535 * (256 * w + x)"
      by simp
    then show ?thesis
      by (metis mod_mult_self2)
  qed
  show "unat (rd32 le a b c d) mod 65535 = ksum le False [a, b, c, d] mod 65535"
    using 1 [of "unat a" "unat b" "unat c" "unat d"] 1 [of "unat d" "unat c" "unat b" "unat a"]
    by (cases le) (simp_all add: rd32_def unat_join4 ac_simps)
  show "unat (rd32 le a b c d) = 0 \<longleftrightarrow> ksum le False [a, b, c, d] = 0"
    by (cases le) (auto simp: rd32_def unat_join4)
qed

lemma oc_add2: "oc x = oc y \<Longrightarrow> oc z = oc w \<Longrightarrow> oc (x + z) = oc (y + w)"
  by (metis oc_add add.commute)

lemma chksum3_long_sum:
  "case chksum3_long le sm bs of (sm', rest) \<Rightarrow>
     \<exists>n. oc (unat sm') = oc n \<and> n + ksum le False rest = N + ksum le False bs \<and> length rest < 8"
  if "oc (unat sm) = oc N"
  using that
proof (induction le sm bs arbitrary: N rule: chksum3_long.induct)
  case (1 le sm a b c d e f g h bs)
  define tmp where "tmp = (if sm + rd32 le a b c d < sm then sm + rd32 le a b c d + 1 else sm + rd32 le a b c d)"
  define sm' where "sm' = (if tmp + rd32 le e f g h < tmp then tmp + rd32 le e f g h + 1 else tmp + rd32 le e f g h)"
  have "oc (unat tmp) = oc (N + ksum le False [a, b, c, d])"
    unfolding tmp_def end_around by (rule oc_add2 [OF 1(2) rd32_oc])
  then have "oc (unat sm') = oc (N + ksum le False [a, b, c, d] + ksum le False [e, f, g, h])"
    unfolding sm'_def end_around by (rule oc_add2 [OF _ rd32_oc])
  from 1(1) [OF refl tmp_def refl sm'_def this] show ?case
    unfolding chksum3_long.simps Let_def tmp_def [symmetric] sm'_def [symmetric]
    by (simp add: ac_simps split: prod.splits)
qed auto

lemma chksum3_correct:
  assumes "length bs < 65536"
  shows "lwip_standard_chksum3 le addr bs = host_sum le bs"
proof -
  define t1 addr1 bs1 where "t1 = (if odd addr \<and> bs \<noteq> [] then hd bs else 0)"
    and "addr1 = (if odd addr \<and> bs \<noteq> [] then addr + 1 else addr)"
    and "bs1 = (if odd addr \<and> bs \<noteq> [] then tl bs else bs)"
  define sm2 bs2 where "sm2 = (if addr1 mod 4 \<noteq> 0 \<and> length bs1 > 1 then ucast (rd16 le (bs1 ! 0) (bs1 ! 1)) else 0 :: u32)"
    and "bs2 = (if addr1 mod 4 \<noteq> 0 \<and> length bs1 > 1 then drop 2 bs1 else bs1)"
  have 2: "unat sm2 + ksum le False bs2 = ksum le False bs1"
    unfolding sm2_def bs2_def
    by (cases bs1; cases "tl bs1") (auto simp: unat_rd16)
  obtain sm3 bs3 where 3: "chksum3_long le sm2 bs2 = (sm3, bs3)"
    by fastforce
  then obtain n where n: "oc (unat sm3) = oc n" "n + ksum le False bs3 = unat sm2 + ksum le False bs2" "length bs3 < 8"
    using chksum3_long_sum [OF refl, of le sm2 bs2] by auto
  obtain sm4 rest where 4: "chksum_words le (FOLD_U32T sm3) bs3 = (sm4, rest)"
    by fastforce
  have f: "unat (FOLD_U32T sm3) \<le> 0x1fffe"
  proof -
    have "unat sm3 div 65536 < 65536"
      using unsigned_less [of sm3, where 'a = nat] by (simp add: less_mult_imp_div_less)
    moreover have "unat sm3 mod 65536 < 65536"
      by simp
    ultimately show ?thesis
      unfolding unat_FOLD by linarith
  qed
  have 5: "unat sm4 + ksum le False rest = unat (FOLD_U32T sm3) + ksum le False bs3"
    "length rest \<le> 1" "unat sm4 + 65535 < 2 ^ 32"
    using chksum_words_sum [of "FOLD_U32T sm3" bs3 le] 4 n(3) f by auto
  have "unat (FOLD_U32T (FOLD_U32T (sm4 + ucast (rd16 le (chksum_tail rest) t1)))) =
      oc (unat (FOLD_U32T sm3) + (ksum le False bs3 + ksum le True [t1]))"
    using chksum_finish [OF 5(2,3), of le t1] 5(1) by (simp add: add.assoc)
  also have "\<dots> = oc (n + (ksum le False bs3 + ksum le True [t1]))"
    using n(1) oc_fold [of "unat sm3"] by (intro oc_add2) (simp_all add: unat_FOLD)
  also have "n + (ksum le False bs3 + ksum le True [t1]) = ksum le (odd addr) bs"
    using n(2) 2 odd_head [of le "odd addr" bs] by (simp add: t1_def bs1_def add.assoc [symmetric])
  finally have "unat (FOLD_U32T (FOLD_U32T (sm4 + ucast (rd16 le (chksum_tail rest) t1)))) =
      oc (ksum le (odd addr) bs)" .
  from odd_finish [OF this] show ?thesis
    using 3 4 unfolding lwip_standard_chksum3_def Let_def
    by (auto simp: t1_def addr1_def bs1_def sm2_def bs2_def split: if_splits)
qed


section \<open>What the callers rely on\<close>

definition chain_data :: "(nat \<times> u8 list) list \<Rightarrow> u8 list" where
  "chain_data p = concat (map snd p)"

definition pseudo_header :: "bool \<Rightarrow> u32 \<Rightarrow> u32 \<Rightarrow> u8 \<Rightarrow> u16 \<Rightarrow> u8 list" where
  "pseudo_header le src dest proto len =
     mem_bytes le src @ mem_bytes le dest @ [0, proto] @ [ucast (drop_bit 8 len), ucast len]"

lemma chain_data_simps [simp]: "chain_data [] = []" "chain_data ((a, bs) # p) = bs @ chain_data p"
  by (simp_all add: chain_data_def)

lemma ucast_not_and: "(ucast (NOT (acc AND 0xffff :: u32)) :: u16) = NOT (ucast acc)"
proof -
  have m: "(0xffff :: u32) = mask 16"
    by (simp add: mask_eq_exp_minus_1)
  show ?thesis
    unfolding m by (rule bit_word_eqI) (auto simp: bit_simps)
qed

lemma halves_sum:
  "unat (a AND 0xffff :: u32) + unat (drop_bit 16 a AND 0xffff :: u32) = ksum le False (mem_bytes le a)"
proof -
  define x y where "x = 256 * unat (byte 1 a) + unat (byte 0 a)" and "y = 256 * unat (byte 3 a) + unat (byte 2 a)"
  have a: "unat a = 65536 * y + x"
    using unat_join4 [of "byte 3 a" "byte 2 a" "byte 1 a" "byte 0 a"]
    unfolding join4_byte by (simp add: x_def y_def)
  have l: "x < 65536" "y < 65536"
    using unat8_less [of "byte 0 a"] unat8_less [of "byte 1 a"] unat8_less [of "byte 2 a"] unat8_less [of "byte 3 a"]
    by (simp_all add: x_def y_def)
  have "unat (a AND 0xffff) = x" "unat (drop_bit 16 a AND 0xffff) = y"
    using l by (simp_all add: unat_FOLD_parts a)
  then show ?thesis
    by (cases le) (simp_all add: mem_bytes_byte x_def y_def)
qed

lemma unat_bytes16: "256 * unat (ucast (drop_bit 8 w) :: u8) + unat (ucast w :: u8) = unat (w :: u16)"
proof -
  have "push_bit 8 (ucast (ucast (drop_bit 8 w) :: u8)) OR ucast (ucast w :: u8) = (w :: u16)"
  proof (rule bit_word_eqI)
    fix n assume "n < LENGTH(16)"
    then consider "n < 8" | "8 \<le> n" "n < 16"
      by fastforce
    then show "bit (push_bit 8 (ucast (ucast (drop_bit 8 w) :: u8)) OR ucast (ucast w :: u8) :: u16) n = bit w n"
      by cases (auto simp: bit_simps)
  qed
  then show ?thesis
    using unat_push_or(1) [of "ucast (drop_bit 8 w)" "ucast w"] by simp
qed

lemma htons_sum: "unat (htons le w) = ksum le False [ucast (drop_bit 8 w), ucast w]"
proof (cases le)
  case True
  have "unat (htons le w) = oc (256 * ksum False False [ucast (drop_bit 8 w), ucast w])"
    using True unat_bytes16 [of w] by (simp add: htons_oc)
  also have "\<dots> = oc (ksum True False [ucast (drop_bit 8 w), ucast w])"
    using oc_ksum_256 [of False False "[ucast (drop_bit 8 w), ucast w]"]
      ksum_flip [of True False "[ucast (drop_bit 8 w), ucast w]"]
    by (simp only: not_True_eq_False not_False_eq_True)
  finally show ?thesis
    using True ksum_pair_le by (simp only: oc_small)
next
  case False
  then show ?thesis
    using unat_bytes16 [of w] by (simp add: htons_def)
qed

lemma length_mem_bytes [simp]: "length (mem_bytes le a) = 4"
  by (simp add: mem_bytes_byte)

lemma length_pseudo_header [simp]: "length (pseudo_header le src dest proto len) = 12"
  by (simp add: pseudo_header_def)

locale chksum_routine =
  fixes le :: bool and chksum :: "nat \<Rightarrow> u8 list \<Rightarrow> u16"
  assumes chksum_host_sum: "length bs < 65536 \<Longrightarrow> chksum addr bs = host_sum le bs"
begin

lemma chain_sum:
  assumes "\<forall>q\<in>set p. length (snd q) < 65536"
    and "unat acc = oc (ksum le swapped xs)" "swapped = odd (length xs)"
  shows "case chksum_chain chksum (acc, swapped) p of (acc', swapped') \<Rightarrow>
    unat acc' = oc (ksum le swapped' (xs @ chain_data p)) \<and> swapped' = odd (length (xs @ chain_data p))"
  using assms
proof (induction p arbitrary: acc swapped xs)
  case Nil
  then show ?case by simp
next
  case (Cons q p)
  obtain a bs where q: "q = (a, bs)"
    by fastforce
  define acc1 where "acc1 = FOLD_U32T (acc + ucast (chksum a bs))"
  have c: "unat (chksum a bs) = oc (ksum le False bs)"
    using Cons.prems(1) q by (simp add: chksum_host_sum unat_host_sum)
  have "unat (acc + ucast (chksum a bs)) = oc (ksum le swapped xs) + oc (ksum le False bs)"
    using Cons.prems(2) c oc_le [of "ksum le swapped xs"] oc_le [of "ksum le False bs"]
    by (subst unat_add_no_wrap) (simp_all only: unat_ucast16, simp)
  moreover have "oc (ksum le swapped xs) + oc (ksum le False bs) \<le> 0x1fffe"
    using oc_le [of "ksum le swapped xs"] oc_le [of "ksum le False bs"] by simp
  ultimately have u: "unat acc1 = oc (ksum le swapped xs + ksum le False bs)"
    using FOLD_oc [of "acc + ucast (chksum a bs)"] oc_add2 [of "oc (ksum le swapped xs)" "ksum le swapped xs"
        "oc (ksum le False bs)" "ksum le False bs"] oc_le
    by (simp add: acc1_def oc_small)
  show ?case
  proof (cases "even (length bs)")
    case True
    then have "unat acc1 = oc (ksum le swapped (xs @ bs))" "swapped = odd (length (xs @ bs))"
      using u Cons.prems(3) by (simp_all add: ksum_append)
    from Cons.IH [OF _ this] Cons.prems(1) True show ?thesis
      by (simp add: q acc1_def)
  next
    case False
    have "oc (256 * (ksum le swapped xs + ksum le False bs)) =
        oc (ksum le (\<not> swapped) xs + ksum le True bs)"
      unfolding distrib_left using oc_ksum_256 [of le swapped xs] oc_ksum_256 [of le False bs]
      by (intro oc_add2) simp_all
    moreover have "ksum le (\<not> swapped) (xs @ bs) = ksum le (\<not> swapped) xs + ksum le True bs"
      using Cons.prems(3) by (simp add: ksum_append)
    moreover have "unat acc1 \<le> 65535"
      using u oc_le by simp
    ultimately have "unat (SWAP_BYTES_IN_WORD acc1) = oc (ksum le (\<not> swapped) (xs @ bs))"
      using u by (simp add: SWAP_oc oc_mult)
    moreover have "(\<not> swapped) = odd (length (xs @ bs))" "length bs mod 2 = 1"
      using Cons.prems(3) False by (simp, presburger)
    ultimately show ?thesis
      using Cons.IH [of "SWAP_BYTES_IN_WORD acc1" "\<not> swapped" "xs @ bs"] Cons.prems(1) False
      by (simp add: q acc1_def)
  qed
qed

lemma chain_total:
  assumes "\<forall>q\<in>set p. length (snd q) < 65536" "chksum_chain chksum (0, False) p = (acc, swapped)"
  shows "unat (if swapped then SWAP_BYTES_IN_WORD acc else acc) = oc (ksum le False (chain_data p))"
proof -
  have u: "unat acc = oc (ksum le swapped (chain_data p))"
    using chain_sum [of p 0 False "[]"] assms by simp
  then show ?thesis
    using oc_le [of "ksum le swapped (chain_data p)"] oc_ksum_256 [of le True "chain_data p"]
    by (auto simp: SWAP_oc oc_mult)
qed

lemma chksum_pbuf:
  assumes "\<forall>q\<in>set p. length (snd q) < 65536"
  shows "inet_chksum_pbuf chksum p = NOT (host_sum le (chain_data p))"
proof -
  obtain acc swapped where c: "chksum_chain chksum (0, False) p = (acc, swapped)"
    by fastforce
  have "ucast (if swapped then SWAP_BYTES_IN_WORD acc else acc) = host_sum le (chain_data p)"
    by (rule host_sumI, rule ucast_oc, rule chain_total [OF assms c])
  then show ?thesis
    by (simp only: inet_chksum_pbuf_def c Let_def prod.case ucast_not_and)
qed

lemma chksum_pseudo:
  assumes "\<forall>q\<in>set p. length (snd q) < 65536"
  shows "inet_chksum_pseudo le chksum p src dest proto len =
    NOT (host_sum le (pseudo_header le src dest proto len @ chain_data p))"
proof -
  obtain acc swapped where c: "chksum_chain chksum (0, False) p = (acc, swapped)"
    by fastforce
  define acc0 where "acc0 = (if swapped then SWAP_BYTES_IN_WORD acc else acc)"
  have a0: "unat acc0 = oc (ksum le False (chain_data p))"
    using chain_total [OF assms c] by (simp add: acc0_def)
  define hs where "hs = [src AND 0xffff, drop_bit 16 src AND 0xffff, dest AND 0xffff,
    drop_bit 16 dest AND 0xffff, ucast (htons le (ucast proto)), ucast (htons le len)]"
  have small: "\<forall>h\<in>set hs. unat h \<le> 65535"
    using unat16_le by (auto simp: hs_def unat_FOLD_parts less_Suc_eq_le [symmetric])
  have add: "unat (foldl (+) a ws) = unat a + sum_list (map unat ws)"
    if "unat a + 65535 * length ws < 2 ^ 32" "\<forall>h\<in>set ws. unat h \<le> 65535" for a :: u32 and ws
    using that
  proof (induction ws arbitrary: a)
    case (Cons w ws)
    then have "unat (a + w) = unat a + unat w"
      by (intro unat_add_no_wrap) auto
    with Cons show ?case
      by auto
  qed simp
  have "unat (foldl (+) acc0 hs) = unat acc0 + sum_list (map unat hs)"
    using a0 oc_le [of "ksum le False (chain_data p)"] small by (intro add) (simp_all add: hs_def)
  moreover have "sum_list (map unat hs) = ksum le False (pseudo_header le src dest proto len)"
  proof -
    have "[ucast (drop_bit 8 (ucast proto :: u16)), ucast (ucast proto :: u16)] = [0, proto]"
      by (simp; intro conjI; rule bit_word_eqI; auto simp: bit_simps dest: bit_imp_le_length)
    then have "ksum le False [0, proto] = unat (htons le (ucast proto))"
      using htons_sum [of le "ucast proto"] by simp
    moreover have "ksum le False [0, proto, ucast (drop_bit 8 len), ucast len] =
        ksum le False [0, proto] + ksum le False [ucast (drop_bit 8 len), ucast len]"
      by simp
    ultimately show ?thesis
      by (simp add: hs_def pseudo_header_def ksum_append length_mem_bytes halves_sum [symmetric]
          htons_sum [symmetric] del: ksum.simps)
  qed
  ultimately have "unat (FOLD_U32T (FOLD_U32T (foldl (+) acc0 hs))) =
      oc (ksum le False (pseudo_header le src dest proto len @ chain_data p))"
    using a0 oc_add [of "ksum le False (chain_data p)" "ksum le False (pseudo_header le src dest proto len)"]
    by (simp add: FOLD_FOLD_oc ksum_append add.commute [of _ "ksum le False (chain_data p)"])
  then have "ucast (FOLD_U32T (FOLD_U32T (foldl (+) acc0 hs))) =
      host_sum le (pseudo_header le src dest proto len @ chain_data p)"
    by (intro host_sumI ucast_oc)
  then show ?thesis
    by (simp only: inet_chksum_pseudo_def c Let_def prod.case ucast_not_and acc0_def [symmetric] hs_def foldl.simps)
qed

end


interpretation chksum1: chksum_routine le "lwip_standard_chksum1 le" for le
  by unfold_locales (rule chksum1_correct)

interpretation chksum2: chksum_routine le "lwip_standard_chksum2 le" for le
  by unfold_locales (rule chksum2_correct)

interpretation chksum3: chksum_routine le "lwip_standard_chksum3 le" for le
  by unfold_locales (rule chksum3_correct)

section \<open>Detection\<close>

lemma unat_ones: "unat (- 1 :: u16) = 65535"
  by (simp add: unsigned_minus_1_eq_mask mask_eq_exp_minus_1)

lemma unat_not16: "unat (NOT w :: u16) = 65535 - unat w"
proof -
  have "w + NOT w = - 1"
    by (simp add: not_eq_complement)
  then have "unat (w + NOT w) = 65535"
    by (simp add: unat_ones)
  then show ?thesis
    using unat16_le [of w] unat16_le [of "NOT w"] by (subst (asm) unat_plus_if') (auto split: if_splits)
qed

lemma host_sum_ones: "NOT (host_sum le bs) = 0 \<longleftrightarrow> oc (ksum le False bs) = 65535"
proof -
  have "NOT (host_sum le bs) = 0 \<longleftrightarrow> host_sum le bs = NOT 0"
    by (metis bit.double_compl)
  also have "\<dots> \<longleftrightarrow> unat (host_sum le bs) = 65535"
    by (simp add: word_unat_eq_iff unat_ones)
  finally show ?thesis
    by (simp add: unat_host_sum)
qed

lemma oc_max: "oc n = 65535 \<longleftrightarrow> 0 < n \<and> n mod 65535 = 0"
  using oc_cong [of n] oc_unique [of 65535 n] by (cases "n = 0") auto

text \<open>The two bytes a 16-bit field has in memory.\<close>

definition field16 :: "bool \<Rightarrow> u16 \<Rightarrow> u8 list" where
  "field16 le w = (if le then [ucast w, ucast (drop_bit 8 w)] else [ucast (drop_bit 8 w), ucast w])"

lemma ksum_field16: "ksum le False (field16 le w) = unat w"
  using unat_bytes16 [of w] by (simp add: field16_def)

lemma ksum_update:
  assumes "i < length bs"
  shows "ksum le p (bs[i := y]) + (if le = (p \<noteq> odd i) then 256 else 1) * unat (bs ! i) =
    ksum le p bs + (if le = (p \<noteq> odd i) then 256 else 1) * unat y"
  using assms
proof (induction bs arbitrary: i p)
  case (Cons b bs)
  show ?case
  proof (cases i)
    case (Suc j)
    with Cons.IH [of j "\<not> p"] Cons.prems show ?thesis
      by (cases p; cases "odd j") auto
  qed (auto split: if_splits)
qed simp

lemma seal_verifies:
  assumes "even (length pre)"
  shows "NOT (host_sum le (pre @ field16 le (NOT (host_sum le (pre @ [0, 0] @ post))) @ post)) = 0"
proof -
  define S where "S = ksum le False pre + ksum le False post"
  have S: "ksum le False (pre @ [0, 0] @ post) = S"
    using assms by (simp add: ksum_append S_def)
  have "unat (NOT (host_sum le (pre @ [0, 0] @ post))) = 65535 - oc S"
    unfolding unat_not16 unat_host_sum S ..
  then have T: "ksum le False (pre @ field16 le (NOT (host_sum le (pre @ [0, 0] @ post))) @ post) = S + (65535 - oc S)"
    using assms by (simp add: ksum_append S_def ksum_field16) (simp add: field16_def)
  have "(S + (65535 - oc S)) mod 65535 = (oc S + (65535 - oc S)) mod 65535"
    by (rule mod_add_cong) (simp_all add: oc_cong)
  then have "(S + (65535 - oc S)) mod 65535 = 0"
    using oc_le [of S] by simp
  moreover have "0 < S + (65535 - oc S)"
    using oc_0 [of S] by (cases "S = 0") auto
  ultimately show ?thesis
    unfolding host_sum_ones oc_max T by blast
qed

lemma change_detected:
  assumes "NOT (host_sum le bs) = 0" "i < length bs" "y \<noteq> bs ! i"
  shows "NOT (host_sum le (bs[i := y])) \<noteq> 0"
proof
  define w :: nat where "w = (if le = odd i then 256 else 1)"
  assume "NOT (host_sum le (bs[i := y])) = 0"
  then have "ksum le False (bs[i := y]) mod 65535 = 0" "ksum le False bs mod 65535 = 0"
    using assms(1) by (simp_all add: host_sum_ones oc_max)
  moreover have "ksum le False (bs[i := y]) + w * unat (bs ! i) = ksum le False bs + w * unat y"
    using ksum_update [OF assms(2), of le False y] by (simp add: w_def)
  ultimately have "w * unat (bs ! i) mod 65535 = w * unat y mod 65535"
    by (metis add.left_neutral mod_add_left_eq)
  moreover have "w * unat (bs ! i) < 65535" "w * unat y < 65535"
    using unat8_less [of y] unat8_less [of "bs ! i"] by (simp_all add: w_def)
  ultimately have "unat (bs ! i) = unat y"
    by (simp add: w_def split: if_splits)
  with assms(3) show False
    by (simp add: word_unat_eq_iff)
qed

section \<open>Properties\<close>

text \<open>
  C27. The three routines that \<open>LWIP_CHKSUM_ALGORITHM\<close> chooses between agree on every block of less than
  64 KiB, at every alignment and in both byte orders, and what they return is the ones' complement sum
  of the block's 16-bit words in host byte order.
\<close>

theorem chksum_algorithms_agree:
  assumes "length bs < 65536"
  shows "lwip_standard_chksum1 le addr bs = host_sum le bs \<and>
    lwip_standard_chksum2 le addr bs = lwip_standard_chksum1 le addr bs \<and>
    lwip_standard_chksum3 le addr bs = lwip_standard_chksum1 le addr bs"
  using chksum1_correct [OF assms] chksum2_correct [OF assms] chksum3_correct [OF assms] by simp

theorem chksum_algorithms_agree_witness:
  "lwip_standard_chksum3 True 1 [0x45, 0, 0, 0x1c, 0x12, 0x34, 0, 0, 0x40, 0x11, 0x7f] =
   lwip_standard_chksum1 True 1 [0x45, 0, 0, 0x1c, 0x12, 0x34, 0, 0, 0x40, 0x11, 0x7f]"
  using chksum_algorithms_agree [of "[0x45, 0, 0, 0x1c, 0x12, 0x34, 0, 0, 0x40, 0x11, 0x7f]" True 1] by simp

text \<open>
  The checksum of a buffer chain depends only on the bytes in it, not on how they are split into
  buffers, odd lengths included; with a pseudo header it is the checksum of the pseudo header laid out
  in front of them.
\<close>

theorem chksum_of_chain:
  assumes "\<forall>q\<in>set p. length (snd q) < 65536"
  shows "inet_chksum_pbuf (lwip_standard_chksum1 le) p = NOT (host_sum le (chain_data p)) \<and>
    inet_chksum_pseudo le (lwip_standard_chksum1 le) p src dest proto len =
      NOT (host_sum le (pseudo_header le src dest proto len @ chain_data p))"
  using chksum1.chksum_pbuf [OF assms] chksum1.chksum_pseudo [OF assms] by blast

theorem chksum_of_chain_witness:
  "inet_chksum_pbuf (lwip_standard_chksum1 True) [(0, [1, 2, 3]), (8, [4]), (5, [])] = NOT (host_sum True [1, 2, 3, 4])"
  using chksum_of_chain [of "[(0, [1, 2, 3]), (8, [4]), (5, [])]" True 0 0 0 0] by simp

text \<open>
  C29. A packet whose checksum field was filled with \<open>inet_chksum\<close> computed over the packet with the
  field zero verifies to 0 at the receiver, and any change of a single byte of a packet that verifies
  is detected.
\<close>

theorem chksum_seals:
  assumes "length pre + 2 + length post < 65536" and "even (length pre)"
    and "c = inet_chksum (lwip_standard_chksum1 le) addr (pre @ [0, 0] @ post)"
    and "packet = pre @ field16 le c @ post"
  shows "inet_chksum (lwip_standard_chksum1 le) addr packet = 0 \<and>
    (\<forall>i y. i < length packet \<longrightarrow> y \<noteq> packet ! i \<longrightarrow>
       inet_chksum (lwip_standard_chksum1 le) addr (packet[i := y]) \<noteq> 0)"
proof -
  have l: "length packet < 65536" "length (pre @ [0, 0] @ post) < 65536"
    using assms(1,4) by (simp_all add: field16_def)
  have c: "c = NOT (host_sum le (pre @ [0, 0] @ post))"
    using assms(3) chksum1_correct [OF l(2)] by (simp add: inet_chksum_def)
  have z: "NOT (host_sum le packet) = 0"
    unfolding assms(4) c by (rule seal_verifies [OF assms(2)])
  show ?thesis
    using change_detected [OF z] z l(1) by (simp add: inet_chksum_def chksum1_correct)
qed

theorem chksum_seals_witness:
  "\<exists>c. inet_chksum (lwip_standard_chksum1 True) 0 ([0x45, 0x11] @ field16 True c @ [7]) = 0"
  using chksum_seals [of "[0x45, 0x11]" "[7]" _ True 0, OF _ _ refl refl] by auto

end
