(* ===== verification/LwipTimeouts.thy ===== *)
theory LwipTimeouts
  imports Prelude "HOL-Library.Monad_Syntax"
begin

text \<open>
  The timeout list of the network stack (\<open>core/sys.c\<close> of the lwIP tree) with the changes made for
  this port. A timeout holds the time left after the one before it has expired, so the deadlines are
  the prefix sums; \<open>deadlines\<close> is that view. The list of the thread is the list of its entries (None is
  \<open>sys_arch_timeouts() == NULL\<close>), the pool of entries a count of free ones, a handler the number of
  its address (0 is NULL) whose effect on the state is the argument \<open>call\<close>. The architecture layer is
  the record \<open>arch\<close>: the clock, and waiting on a mailbox or a semaphore. A wait runs handlers until
  something arrives, which may be never: it is a partial function.
\<close>

section \<open>State\<close>

record timeo =
  t_time :: u32
  t_h :: nat
  t_arg :: nat

record 'w sysst =
  timeouts :: "timeo list option"
  memp_free_timeo :: nat
  s_RescheduleTimeoutStart :: u32
  world :: 'w

definition SYS_ARCH_TIMEOUT :: u32 where "SYS_ARCH_TIMEOUT = 0xffffffff"
definition SYS_MBOX_EMPTY :: u32 where "SYS_MBOX_EMPTY = SYS_ARCH_TIMEOUT"

record 'w arch =
  sys_now :: "'w \<Rightarrow> u32"
  sys_arch_mbox_fetch :: "u32 \<Rightarrow> 'w \<Rightarrow> u32 \<times> 'w"
  sys_arch_sem_wait :: "u32 \<Rightarrow> 'w \<Rightarrow> u32 \<times> 'w"

section \<open>Adding and removing\<close>

text \<open>The walk along the list to the place of the new entry.\<close>

fun timeout_walk :: "timeo \<Rightarrow> timeo list \<Rightarrow> timeo list" where
  "timeout_walk timeout [] = []"
| "timeout_walk timeout (t # ts) =
     (let timeout = timeout\<lparr>t_time := t_time timeout - t_time t\<rparr>
      in case ts of
           [] \<Rightarrow> [t, timeout]
         | t' # ts' \<Rightarrow>
             if t_time t' > t_time timeout
             then t # timeout # t'\<lparr>t_time := t_time t' - t_time timeout\<rparr> # ts'
             else t # timeout_walk timeout ts)"

definition timeout_insert :: "timeo \<Rightarrow> timeo list \<Rightarrow> timeo list" where
  "timeout_insert timeout ts = (case ts of
     [] \<Rightarrow> [timeout]
   | t # ts' \<Rightarrow>
       if t_time t > t_time timeout
       then timeout # t\<lparr>t_time := t_time t - t_time timeout\<rparr> # ts'
       else timeout_walk timeout ts)"

definition sys_timeout :: "u32 \<Rightarrow> nat \<Rightarrow> nat \<Rightarrow> 'w sysst \<Rightarrow> 'w sysst" where
  "sys_timeout msecs h arg s =
     (if memp_free_timeo s = 0 then s
      else (let timeout = \<lparr>t_time = msecs, t_h = h, t_arg = arg\<rparr>;
                s = s\<lparr>memp_free_timeo := memp_free_timeo s - 1\<rparr>
            in case timeouts s of
                 None \<Rightarrow> s
               | Some ts \<Rightarrow> s\<lparr>timeouts := Some (timeout_insert timeout ts)\<rparr>))"

text \<open>The first entry with the handler and its argument is taken out, its time goes to the next.\<close>

fun untimeout_walk :: "nat \<Rightarrow> nat \<Rightarrow> timeo list \<Rightarrow> timeo list option" where
  "untimeout_walk h arg [] = None"
| "untimeout_walk h arg (t # ts) =
     (if t_h t = h \<and> t_arg t = arg
      then Some (case ts of [] \<Rightarrow> [] | t' # ts' \<Rightarrow> t'\<lparr>t_time := t_time t' + t_time t\<rparr> # ts')
      else map_option ((#) t) (untimeout_walk h arg ts))"

definition sys_untimeout :: "nat \<Rightarrow> nat \<Rightarrow> 'w sysst \<Rightarrow> 'w sysst" where
  "sys_untimeout h arg s = (case timeouts s of
     None \<Rightarrow> s
   | Some ts \<Rightarrow>
       (case untimeout_walk h arg ts of
          None \<Rightarrow> s
        | Some ts' \<Rightarrow> s\<lparr>timeouts := Some ts', memp_free_timeo := memp_free_timeo s + 1\<rparr>))"

section \<open>Waiting\<close>

text \<open>The head of the list expires: it is taken out and its handler runs.\<close>

definition fire_head :: "(nat \<Rightarrow> nat \<Rightarrow> 'w sysst \<Rightarrow> 'w sysst) \<Rightarrow> timeo \<Rightarrow> timeo list \<Rightarrow> 'w sysst \<Rightarrow> 'w sysst" where
  "fire_head call t ts s =
     (let s = s\<lparr>timeouts := Some ts, memp_free_timeo := memp_free_timeo s + 1\<rparr>
      in if t_h t \<noteq> 0 then call (t_h t) (t_arg t) s else s)"

text \<open>Something arrived after \<open>time_needed\<close>: that much less is left.\<close>

definition consume_time :: "u32 \<Rightarrow> timeo \<Rightarrow> timeo" where
  "consume_time time_needed t =
     t\<lparr>t_time := (if time_needed < t_time t then t_time t - time_needed else 0)\<rparr>"

text \<open>On re-entry, the time since the last fetch that found the mailbox empty is accounted for.\<close>

definition elapsed :: "u32 \<Rightarrow> u32 \<Rightarrow> u32" where
  "elapsed start now = (if now < start then 0xffffffff - start + now else now - start)"

definition reschedule_head :: "u32 \<Rightarrow> u32 \<Rightarrow> timeo \<Rightarrow> timeo" where
  "reschedule_head start now t =
     (if start \<noteq> 0
      then t\<lparr>t_time := (if now \<ge> t_time t then 0 else t_time t - elapsed start now)\<rparr>
      else t)"

partial_function (option) sys_mbox_fetch ::
  "'w arch \<Rightarrow> (nat \<Rightarrow> nat \<Rightarrow> 'w sysst \<Rightarrow> 'w sysst) \<Rightarrow> 'w sysst \<Rightarrow> (u32 \<times> 'w sysst) option" where
  "sys_mbox_fetch arch call s = (case timeouts s of
     Some (t # ts) \<Rightarrow>
       (let t = reschedule_head (s_RescheduleTimeoutStart s) (sys_now arch (world s)) t;
            s = s\<lparr>timeouts := Some (t # ts), s_RescheduleTimeoutStart := 0\<rparr>
        in if t_time t > 0
           then (let (time_needed, w) = sys_arch_mbox_fetch arch (t_time t) (world s);
                     s = s\<lparr>world := w\<rparr>
                 in if time_needed = SYS_MBOX_EMPTY
                    then Some (SYS_MBOX_EMPTY, s\<lparr>s_RescheduleTimeoutStart := sys_now arch w\<rparr>)
                    else if time_needed = SYS_ARCH_TIMEOUT
                    then sys_mbox_fetch arch call (fire_head call t ts s)
                    else Some (0, s\<lparr>timeouts := Some (consume_time time_needed t # ts)\<rparr>))
           else sys_mbox_fetch arch call (fire_head call t ts s))
   | _ \<Rightarrow>
       (let (time_needed, w) = sys_arch_mbox_fetch arch 0 (world s); s = s\<lparr>world := w\<rparr>
        in if time_needed = SYS_MBOX_EMPTY
           then Some (SYS_MBOX_EMPTY, s\<lparr>s_RescheduleTimeoutStart := 0\<rparr>)
           else Some (0, s)))"

partial_function (option) sys_sem_wait ::
  "'w arch \<Rightarrow> (nat \<Rightarrow> nat \<Rightarrow> 'w sysst \<Rightarrow> 'w sysst) \<Rightarrow> 'w sysst \<Rightarrow> 'w sysst option" where
  "sys_sem_wait arch call s = (case timeouts s of
     Some (t # ts) \<Rightarrow>
       (let (time_needed, w) = (if t_time t > 0 then sys_arch_sem_wait arch (t_time t) (world s)
                                else (SYS_ARCH_TIMEOUT, world s));
            s = s\<lparr>world := w\<rparr>
        in if time_needed = SYS_ARCH_TIMEOUT
           then sys_sem_wait arch call (fire_head call t ts s)
           else Some (s\<lparr>timeouts := Some (consume_time time_needed t # ts)\<rparr>))
   | _ \<Rightarrow> Some (s\<lparr>world := snd (sys_arch_sem_wait arch 0 (world s))\<rparr>))"

section \<open>Deadlines\<close>

fun deadlines :: "nat \<Rightarrow> timeo list \<Rightarrow> (nat \<times> nat \<times> nat) list" where
  "deadlines now [] = []"
| "deadlines now (t # ts) = (now + unat (t_time t), t_h t, t_arg t) # deadlines (now + unat (t_time t)) ts"

text \<open>A new deadline goes behind the earlier and the equal ones.\<close>

definition add_deadline :: "nat \<times> nat \<times> nat \<Rightarrow> (nat \<times> nat \<times> nat) list \<Rightarrow> (nat \<times> nat \<times> nat) list" where
  "add_deadline d ds = takeWhile (\<lambda>e. fst e \<le> fst d) ds @ d # dropWhile (\<lambda>e. fst e \<le> fst d) ds"

fun drop_deadline :: "nat \<times> nat \<Rightarrow> (nat \<times> nat \<times> nat) list \<Rightarrow> (nat \<times> nat \<times> nat) list" where
  "drop_deadline k [] = []"
| "drop_deadline k (d # ds) = (if snd d = k then ds else d # drop_deadline k ds)"

definition total :: "timeo list \<Rightarrow> nat" where
  "total ts = sum_list (map (unat \<circ> t_time) ts)"

lemma total_simps [simp]: "total [] = 0" "total (t # ts) = unat (t_time t) + total ts"
  by (simp_all add: total_def)

lemma unat_minus: "b \<le> a \<Longrightarrow> unat (a - b :: u32) = unat a - unat b"
  by (simp add: unat_sub)

lemma deadlines_le: "d \<in> set (deadlines now ts) \<Longrightarrow> now \<le> fst d"
  by (induction ts arbitrary: now) fastforce+

lemma deadlines_sorted: "sorted (map fst (deadlines now ts))"
  by (induction ts arbitrary: now) (auto dest: deadlines_le)

lemma deadlines_shift: "deadlines (now + k) ts = map (\<lambda>(d, x). (d + k, x)) (deadlines now ts)"
proof (induction ts arbitrary: now)
  case (Cons t ts)
  from Cons [of "now + unat (t_time t)"] show ?case
    by (simp add: ac_simps)
qed simp

lemma add_deadline_front: "\<forall>e\<in>set ds. fst d < fst e \<Longrightarrow> add_deadline d ds = d # ds"
  by (cases ds) (auto simp: add_deadline_def)

lemma add_deadline_Cons: "fst e \<le> fst d \<Longrightarrow> add_deadline d (e # ds) = e # add_deadline d ds"
  by (simp add: add_deadline_def)

lemma drop_deadline_absent: "k \<notin> snd ` set ds \<Longrightarrow> drop_deadline k ds = ds"
  by (induction ds) auto

lemma timeout_walk_deadlines:
  assumes "t_time t \<le> t_time timeout"
  shows "deadlines now (timeout_walk timeout (t # ts)) =
      add_deadline (now + unat (t_time timeout), t_h timeout, t_arg timeout) (deadlines now (t # ts)) \<and>
    total (timeout_walk timeout (t # ts)) = max (unat (t_time timeout)) (total (t # ts)) \<and>
    length (timeout_walk timeout (t # ts)) = length (t # ts) + 1"
  using assms
proof (induction ts arbitrary: t timeout now)
  case Nil
  then show ?case
    by (simp add: add_deadline_def unat_minus word_le_nat_alt)
next
  case (Cons t' ts)
  have le: "unat (t_time t) \<le> unat (t_time timeout)"
    using Cons.prems by (simp add: word_le_nat_alt)
  define tm where "tm = timeout\<lparr>t_time := t_time timeout - t_time t\<rparr>"
  have u: "unat (t_time tm) = unat (t_time timeout) - unat (t_time t)" "t_h tm = t_h timeout" "t_arg tm = t_arg timeout"
    using Cons.prems by (simp_all add: tm_def unat_minus)
  show ?case
  proof (cases "t_time t' > t_time tm")
    case True
    then have lt: "unat (t_time tm) < unat (t_time t')"
      by (simp add: word_less_nat_alt)
    then have "unat (t_time t' - t_time tm) = unat (t_time t') - unat (t_time tm)"
      by (intro unat_minus) (simp add: word_le_nat_alt)
    moreover have "\<forall>e\<in>set (deadlines (now + unat (t_time t)) (t' # ts)). now + unat (t_time timeout) < fst e"
      using lt le u(1) by (fastforce dest: deadlines_le)
    ultimately show ?thesis
      using True lt le u
      by (simp add: tm_def [symmetric] Let_def add_deadline_Cons add_deadline_front ac_simps)
  next
    case False
    then have "t_time t' \<le> t_time tm"
      by simp
    from Cons.IH [OF this, of "now + unat (t_time t)"] False le u show ?thesis
      by (simp add: tm_def [symmetric] Let_def add_deadline_Cons del: deadlines.simps(2) timeout_walk.simps)
         (simp add: tm_def [symmetric] Let_def add_deadline_Cons)
  qed
qed

lemma timeout_insert_deadlines:
  "deadlines now (timeout_insert timeout ts) =
      add_deadline (now + unat (t_time timeout), t_h timeout, t_arg timeout) (deadlines now ts) \<and>
    total (timeout_insert timeout ts) = max (unat (t_time timeout)) (total ts) \<and>
    length (timeout_insert timeout ts) = length ts + 1"
proof (cases ts)
  case Nil
  then show ?thesis
    by (simp add: timeout_insert_def add_deadline_def)
next
  case (Cons t ts')
  show ?thesis
  proof (cases "t_time t > t_time timeout")
    case True
    then have lt: "unat (t_time timeout) < unat (t_time t)"
      by (simp add: word_less_nat_alt)
    then have "unat (t_time t - t_time timeout) = unat (t_time t) - unat (t_time timeout)"
      by (intro unat_minus) (simp add: word_le_nat_alt)
    moreover have "\<forall>e\<in>set (deadlines now (t # ts')). now + unat (t_time timeout) < fst e"
      using lt by (fastforce dest: deadlines_le)
    ultimately show ?thesis
      using True lt Cons by (simp add: timeout_insert_def add_deadline_front)
  next
    case False
    with Cons timeout_walk_deadlines [of t timeout now ts'] show ?thesis
      by (simp add: timeout_insert_def)
  qed
qed

lemma untimeout_walk_deadlines:
  assumes "total ts < 2 ^ 32"
  shows "case untimeout_walk h arg ts of
      None \<Rightarrow> (h, arg) \<notin> snd ` set (deadlines now ts)
    | Some ts' \<Rightarrow> (h, arg) \<in> snd ` set (deadlines now ts) \<and>
        deadlines now ts' = drop_deadline (h, arg) (deadlines now ts) \<and>
        total ts' \<le> total ts \<and> length ts = length ts' + 1"
  using assms
proof (induction ts arbitrary: now)
  case (Cons t ts)
  show ?case
  proof (cases "t_h t = h \<and> t_arg t = arg")
    case True
    have "unat (t_time t' + t_time t) = unat (t_time t') + unat (t_time t)" if "ts = t' # ts'" for t' ts'
      using Cons.prems that by (subst unat_plus_if') simp
    with True show ?thesis
      by (cases ts) (auto simp: ac_simps)
  next
    case False
    with Cons.IH [of "now + unat (t_time t)"] Cons.prems show ?thesis
      by (auto split: option.splits)
  qed
qed simp

section \<open>Waiting and the handlers\<close>

lemma deadlines_head:
  assumes "unat k \<le> unat (t_time t)"
  shows "deadlines 0 (t\<lparr>t_time := t_time t - k\<rparr> # ts) = map (\<lambda>(d, x). (d - unat k, x)) (deadlines 0 (t # ts))"
proof -
  have u: "unat (t_time t - k) = unat (t_time t) - unat k"
    using assms by (intro unat_minus) (simp add: word_le_nat_alt)
  have "deadlines (unat (t_time t) - unat k) ts = map (\<lambda>(d, x). (d - unat k, x)) (deadlines (unat (t_time t) - unat k + unat k) ts)"
    unfolding deadlines_shift by (simp add: comp_def case_prod_unfold)
  with assms u show ?thesis
    by simp
qed

text \<open>Handlers that leave the list alone: the wait ends, whatever the architecture layer answers.\<close>

lemma sys_mbox_fetch_returns:
  assumes "\<And>h a s. timeouts (call h a s) = timeouts s"
  shows "\<exists>r s'. sys_mbox_fetch arch call s = Some (r, s') \<and> (r = 0 \<or> r = SYS_MBOX_EMPTY)"
proof (induction "case timeouts s of None \<Rightarrow> 0 | Some ts \<Rightarrow> length ts" arbitrary: s)
  case 0
  then have "timeouts s = None \<or> timeouts s = Some []"
    by (auto split: option.splits)
  then show ?case
    by (subst sys_mbox_fetch.simps) (auto simp: Let_def split: prod.splits)
next
  case (Suc n)
  then obtain t ts where t: "timeouts s = Some (t # ts)" "length ts = n"
    by (auto split: option.splits simp: Suc_length_conv)
  have "timeouts (fire_head call t' ts s1) = Some ts" for t' s1
    by (simp add: fire_head_def Let_def assms)
  then have IH: "\<exists>r s'. sys_mbox_fetch arch call (fire_head call t' ts s1) = Some (r, s') \<and> (r = 0 \<or> r = SYS_MBOX_EMPTY)" for t' s1
    using Suc.hyps(1) t(2) by simp
  show ?case
    by (subst sys_mbox_fetch.simps) (use IH in \<open>auto simp: t Let_def split: prod.splits\<close>)
qed

lemma sys_sem_wait_returns:
  assumes "\<And>h a s. timeouts (call h a s) = timeouts s"
  shows "\<exists>s'. sys_sem_wait arch call s = Some s'"
proof (induction "case timeouts s of None \<Rightarrow> 0 | Some ts \<Rightarrow> length ts" arbitrary: s)
  case 0
  then have "timeouts s = None \<or> timeouts s = Some []"
    by (auto split: option.splits)
  then show ?case
    by (subst sys_sem_wait.simps) auto
next
  case (Suc n)
  then obtain t ts where t: "timeouts s = Some (t # ts)" "length ts = n"
    by (auto split: option.splits simp: Suc_length_conv)
  have "timeouts (fire_head call t' ts s1) = Some ts" for t' s1
    by (simp add: fire_head_def Let_def assms)
  then have IH: "\<exists>s'. sys_sem_wait arch call (fire_head call t' ts s1) = Some s'" for t' s1
    using Suc.hyps(1) t(2) by simp
  show ?case
    by (subst sys_sem_wait.simps) (use IH in \<open>auto simp: t Let_def split: prod.splits\<close>)
qed

section \<open>Properties\<close>

text \<open>
  C30. The delta list is a list of deadlines in order. Adding a timeout puts its deadline behind the
  earlier and the equal ones and moves no other, and does nothing when the pool is empty; removing one
  takes out the first with that handler and argument and moves no other. The deadlines stay below
  $2^{32}$, so no addition of times wraps, and entries are neither lost nor made.
\<close>

theorem timeouts_are_deadlines:
  assumes "timeouts s = Some ts" and "total ts < 2 ^ 32"
  shows "(memp_free_timeo s = 0 \<longrightarrow> sys_timeout msecs h arg s = s) \<and>
    (memp_free_timeo s \<noteq> 0 \<longrightarrow>
      (\<exists>ts'. timeouts (sys_timeout msecs h arg s) = Some ts' \<and> total ts' < 2 ^ 32 \<and>
         deadlines 0 ts' = add_deadline (unat msecs, h, arg) (deadlines 0 ts) \<and>
         memp_free_timeo (sys_timeout msecs h arg s) + length ts' = memp_free_timeo s + length ts)) \<and>
    (\<exists>ts'. timeouts (sys_untimeout h arg s) = Some ts' \<and> total ts' < 2 ^ 32 \<and>
       deadlines 0 ts' = drop_deadline (h, arg) (deadlines 0 ts) \<and>
       memp_free_timeo (sys_untimeout h arg s) + length ts' = memp_free_timeo s + length ts)"
proof (intro conjI impI)
  show "sys_timeout msecs h arg s = s" if "memp_free_timeo s = 0"
    using that by (simp add: sys_timeout_def)
  show "\<exists>ts'. timeouts (sys_timeout msecs h arg s) = Some ts' \<and> total ts' < 2 ^ 32 \<and>
      deadlines 0 ts' = add_deadline (unat msecs, h, arg) (deadlines 0 ts) \<and>
      memp_free_timeo (sys_timeout msecs h arg s) + length ts' = memp_free_timeo s + length ts"
    if "memp_free_timeo s \<noteq> 0"
    using that assms timeout_insert_deadlines [of 0 "\<lparr>t_time = msecs, t_h = h, t_arg = arg\<rparr>" ts]
      unsigned_less [of msecs, where 'a = nat]
    by (simp add: sys_timeout_def Let_def)
  show "\<exists>ts'. timeouts (sys_untimeout h arg s) = Some ts' \<and> total ts' < 2 ^ 32 \<and>
      deadlines 0 ts' = drop_deadline (h, arg) (deadlines 0 ts) \<and>
      memp_free_timeo (sys_untimeout h arg s) + length ts' = memp_free_timeo s + length ts"
    using untimeout_walk_deadlines [OF assms(2), of h arg 0] assms drop_deadline_absent [of "(h, arg)"]
    by (auto simp: sys_untimeout_def split: option.splits)
qed

theorem timeouts_are_deadlines_witness:
  "\<exists>ts'. timeouts (sys_timeout 30 2 0 \<lparr>timeouts = Some [\<lparr>t_time = 20, t_h = 1, t_arg = 0\<rparr>, \<lparr>t_time = 15, t_h = 3, t_arg = 0\<rparr>],
       memp_free_timeo = 4, s_RescheduleTimeoutStart = 0, world = ()\<rparr>) = Some ts' \<and>
     deadlines 0 ts' = [(20, 1, 0), (30, 2, 0), (35, 3, 0)]"
  using timeouts_are_deadlines [of "\<lparr>timeouts = Some [\<lparr>t_time = 20, t_h = 1, t_arg = 0\<rparr>, \<lparr>t_time = 15, t_h = 3, t_arg = 0\<rparr>],
       memp_free_timeo = 4, s_RescheduleTimeoutStart = 0, world = ()\<rparr>"
       "[\<lparr>t_time = 20, t_h = 1, t_arg = 0\<rparr>, \<lparr>t_time = 15, t_h = 3, t_arg = 0\<rparr>]" 30 2 0]
  by (simp add: add_deadline_def) blast

text \<open>
  C31. Re-entering \<open>sys_mbox_fetch\<close> after a fetch that found no message at time \<open>start\<close>: while the
  uptime is below the time left of the first timeout, every deadline moves nearer by exactly the time
  that has passed and the mailbox is asked to wait for the rest; but once the uptime has reached the
  time left, the first timeout fires at once, however little time has passed, because the clock itself
  and not the difference is compared.
\<close>

theorem mbox_fetch_reentry:
  assumes "timeouts s = Some (t # ts)" and "s_RescheduleTimeoutStart s = start" and "start \<noteq> 0"
    and "now = sys_now arch (world s)" and "start \<le> now"
  shows "(now < t_time t \<longrightarrow>
      (\<exists>t'. deadlines 0 (t' # ts) = map (\<lambda>(d, x). (d - (unat now - unat start), x)) (deadlines 0 (t # ts)) \<and>
         sys_mbox_fetch arch call s =
         sys_mbox_fetch arch call (s\<lparr>timeouts := Some (t' # ts), s_RescheduleTimeoutStart := 0\<rparr>))) \<and>
    (t_time t \<le> now \<longrightarrow>
       sys_mbox_fetch arch call s =
       sys_mbox_fetch arch call (fire_head call (t\<lparr>t_time := 0\<rparr>) ts
         (s\<lparr>timeouts := Some (t\<lparr>t_time := 0\<rparr> # ts), s_RescheduleTimeoutStart := 0\<rparr>)))"
proof (intro conjI impI)
  assume lt: "now < t_time t"
  have u: "unat (now - start) = unat now - unat start"
    using assms(5) by (rule unat_minus)
  have le: "unat (now - start) \<le> unat (t_time t)"
    using lt u by (simp add: word_less_nat_alt)
  define t' where "t' = t\<lparr>t_time := t_time t - (now - start)\<rparr>"
  have "reschedule_head start now t = t'"
    using assms(3,5) lt by (simp add: reschedule_head_def elapsed_def t'_def not_le not_less)
  then have "sys_mbox_fetch arch call s =
      sys_mbox_fetch arch call (s\<lparr>timeouts := Some (t' # ts), s_RescheduleTimeoutStart := 0\<rparr>)"
    using assms by (subst (1 2) sys_mbox_fetch.simps) (simp add: Let_def reschedule_head_def)
  then show "\<exists>t'. deadlines 0 (t' # ts) = map (\<lambda>(d, x). (d - (unat now - unat start), x)) (deadlines 0 (t # ts)) \<and>
      sys_mbox_fetch arch call s =
      sys_mbox_fetch arch call (s\<lparr>timeouts := Some (t' # ts), s_RescheduleTimeoutStart := 0\<rparr>)"
    using deadlines_head [OF le, of ts] u t'_def by metis
next
  assume "t_time t \<le> now"
  then have "reschedule_head start now t = t\<lparr>t_time := 0\<rparr>"
    using assms(3) by (simp add: reschedule_head_def)
  then show "sys_mbox_fetch arch call s =
       sys_mbox_fetch arch call (fire_head call (t\<lparr>t_time := 0\<rparr>) ts
         (s\<lparr>timeouts := Some (t\<lparr>t_time := 0\<rparr> # ts), s_RescheduleTimeoutStart := 0\<rparr>))"
    using assms by (subst sys_mbox_fetch.simps) (simp add: Let_def)
qed

text \<open>A timeout of 5 seconds fires 1 ms after the last fetch, on a board that has been up for 60 seconds.\<close>

definition early_arch :: "nat list arch" where
  "early_arch = \<lparr>sys_now = (\<lambda>_. 60001), sys_arch_mbox_fetch = (\<lambda>_ w. (SYS_MBOX_EMPTY, w)),
     sys_arch_sem_wait = (\<lambda>_ w. (0, w))\<rparr>"

definition log_call :: "nat \<Rightarrow> nat \<Rightarrow> nat list sysst \<Rightarrow> nat list sysst" where
  "log_call h arg s = s\<lparr>world := h # world s\<rparr>"

theorem mbox_fetch_reentry_witness:
  "\<exists>s'. sys_mbox_fetch early_arch log_call
      \<lparr>timeouts = Some [\<lparr>t_time = 5000, t_h = 7, t_arg = 0\<rparr>], memp_free_timeo = 0,
       s_RescheduleTimeoutStart = 60000, world = []\<rparr> = Some (SYS_MBOX_EMPTY, s') \<and> world s' = [7]"
proof -
  let ?s = "\<lparr>timeouts = Some [\<lparr>t_time = 5000, t_h = 7, t_arg = 0\<rparr>], memp_free_timeo = 0,
       s_RescheduleTimeoutStart = 60000, world = []\<rparr>"
  have "sys_mbox_fetch early_arch log_call ?s =
      sys_mbox_fetch early_arch log_call (fire_head log_call \<lparr>t_time = 0, t_h = 7, t_arg = 0\<rparr> []
        (?s\<lparr>timeouts := Some [\<lparr>t_time = 0, t_h = 7, t_arg = 0\<rparr>], s_RescheduleTimeoutStart := 0\<rparr>))"
    using mbox_fetch_reentry [of ?s "\<lparr>t_time = 5000, t_h = 7, t_arg = 0\<rparr>" "[]" 60000 60001 early_arch log_call]
    by (simp add: early_arch_def)
  also have "\<dots> = Some (SYS_MBOX_EMPTY, \<lparr>timeouts = Some [], memp_free_timeo = 1, s_RescheduleTimeoutStart = 0, world = [7]\<rparr>)"
    by (subst sys_mbox_fetch.simps) (simp add: fire_head_def log_call_def early_arch_def)
  finally show ?thesis
    by simp
qed

text \<open>
  A fetch returns, with a message or with an empty mailbox, and a wait on a semaphore returns, when
  no handler touches the timeout list: each expiry shortens the list, whatever the clock, the mailbox
  and the semaphore answer.
\<close>

theorem mbox_fetch_returns:
  assumes "\<And>h a s. timeouts (call h a s) = timeouts s"
  shows "(\<exists>r s'. sys_mbox_fetch arch call s = Some (r, s') \<and> (r = 0 \<or> r = SYS_MBOX_EMPTY)) \<and>
    (\<exists>s'. sys_sem_wait arch call s = Some s')"
  by (rule conjI; (rule sys_mbox_fetch_returns | rule sys_sem_wait_returns)) (rule assms)+

theorem mbox_fetch_returns_witness:
  "\<exists>r s'. sys_mbox_fetch early_arch log_call
      \<lparr>timeouts = Some [\<lparr>t_time = 0, t_h = 1, t_arg = 0\<rparr>, \<lparr>t_time = 9, t_h = 2, t_arg = 0\<rparr>], memp_free_timeo = 0,
       s_RescheduleTimeoutStart = 0, world = []\<rparr> = Some (r, s') \<and> (r = 0 \<or> r = SYS_MBOX_EMPTY)"
  by (rule conjunct1 [OF mbox_fetch_returns]) (simp add: log_call_def)

end
