(* ===== verification/WireProtocol.thy ===== *)
theory WireProtocol
  imports Crc
begin

text \<open>
  The wire protocol of the debugger and of the messaging ports
  (\<open>Support/WireProtocol/WireProtocol.cpp\<close>, \<open>Support/Include/WireProtocol.h\<close>): packets and their
  memory layout on a little-endian machine, how requests and replies are sealed, and the receive
  state machine that finds a header in a stream of bytes, checks it, reads the payload under a
  time-out and hands the message to the application.

  The two interfaces of the source, the physical and the application layer, are the functions of
  the record \<open>WP_Layers\<close>, a parameter of every operation. \<open>m_state\<close> is the state behind the opaque
  pointer of the source: whatever the two layers and the clock read or change.
\<close>

section \<open>Packets\<close>

definition MARKER_DEBUGGER_V1 :: "u8 list" where
  "MARKER_DEBUGGER_V1 = [0x4D, 0x53, 0x64, 0x62, 0x67, 0x56, 0x31, 0]"

definition MARKER_PACKET_V1 :: "u8 list" where
  "MARKER_PACKET_V1 = [0x4D, 0x53, 0x70, 0x6B, 0x74, 0x56, 0x31, 0]"

definition c_NonCritical :: u32 where "c_NonCritical = 0x0001"
definition c_Reply :: u32 where "c_Reply = 0x0002"
definition c_BadHeader :: u32 where "c_BadHeader = 0x0004"
definition c_BadPayload :: u32 where "c_BadPayload = 0x0008"
definition c_NoCaching :: u32 where "c_NoCaching = 0x2000"
definition c_NACK :: u32 where "c_NACK = 0x4000"
definition c_ACK :: u32 where "c_ACK = 0x8000"

record WP_Packet =
  m_signature :: "u8 list"
  m_crcHeader :: u32
  m_crcData :: u32
  m_cmd :: u32
  m_seq :: u16
  m_seqReply :: u16
  m_flags :: u32
  m_size :: u32

definition sizeof_WP_Packet :: nat where "sizeof_WP_Packet = 8 * 4"

text \<open>The bytes of a packet in memory (least significant byte first), and the packet that given bytes are.\<close>

definition at16 :: "u8 list \<Rightarrow> nat \<Rightarrow> u16" where
  "at16 buf i = ucast (buf ! i) OR push_bit 8 (ucast (buf ! (i + 1)))"

definition at32 :: "u8 list \<Rightarrow> nat \<Rightarrow> u32" where
  "at32 buf i = ucast (buf ! i) OR push_bit 8 (ucast (buf ! (i + 1))) OR
     push_bit 16 (ucast (buf ! (i + 2))) OR push_bit 24 (ucast (buf ! (i + 3)))"

definition WP_Packet_bytes :: "WP_Packet \<Rightarrow> u8 list" where
  "WP_Packet_bytes h = m_signature h @ bytes32 (m_crcHeader h) @ bytes32 (m_crcData h) @ bytes32 (m_cmd h) @
     bytes16 (m_seq h) @ bytes16 (m_seqReply h) @ bytes32 (m_flags h) @ bytes32 (m_size h)"

definition WP_Packet_at :: "u8 list \<Rightarrow> WP_Packet" where
  "WP_Packet_at buf = \<lparr>m_signature = take 8 buf, m_crcHeader = at32 buf 8, m_crcData = at32 buf 12,
     m_cmd = at32 buf 16, m_seq = at16 buf 20, m_seqReply = at16 buf 22, m_flags = at32 buf 24,
     m_size = at32 buf 28\<rparr>"

section \<open>Messages and the controller\<close>

definition ReceiveState_Idle :: int where "ReceiveState_Idle = 0"
definition ReceiveState_Initialize :: int where "ReceiveState_Initialize = 1"
definition ReceiveState_WaitingForHeader :: int where "ReceiveState_WaitingForHeader = 2"
definition ReceiveState_ReadingHeader :: int where "ReceiveState_ReadingHeader = 3"
definition ReceiveState_CompleteHeader :: int where "ReceiveState_CompleteHeader = 4"
definition ReceiveState_ReadingPayload :: int where "ReceiveState_ReadingPayload = 5"
definition ReceiveState_CompletePayload :: int where "ReceiveState_CompletePayload = 6"

lemmas ReceiveState_defs = ReceiveState_Idle_def ReceiveState_Initialize_def
  ReceiveState_WaitingForHeader_def ReceiveState_ReadingHeader_def ReceiveState_CompleteHeader_def
  ReceiveState_ReadingPayload_def ReceiveState_CompletePayload_def

definition c_PayloadTimeout :: u64 where "c_PayloadTimeout = 60000000"

text \<open>
  A byte pointer into the message: NULL, an offset in the header, or an offset in the block
  \<open>m_payload\<close> points to. That block is the list of its bytes, None the null pointer.
\<close>

datatype WP_Ptr = NullPtr | HeaderPtr nat | PayloadPtr nat

record WP_Message =
  m_header :: WP_Packet
  m_payload :: "u8 list option"
  m_pos :: WP_Ptr
  m_left :: u32
  m_payloadTicks :: u64
  m_rxState :: int

record 's WP_Controller =
  m_szMarker :: "u8 list option"
  m_state :: 's
  m_inboundMessage :: WP_Message
  m_lastOutboundMessage :: u16

record 's WP_Layers =
  ReceiveBytes :: "'s \<Rightarrow> u32 \<Rightarrow> bool \<times> u8 list \<times> 's"
  TransmitMessage :: "'s \<Rightarrow> WP_Message \<Rightarrow> bool \<times> 's"
  ProcessHeader :: "'s WP_Controller \<Rightarrow> bool \<times> 's WP_Controller"
  ProcessPayload :: "'s WP_Controller \<Rightarrow> (bool \<times> 's WP_Controller) option"
  Release :: "'s WP_Controller \<Rightarrow> bool \<times> 's WP_Controller"
  CurrentTicks :: "'s \<Rightarrow> u64"
  TicksToTime :: "u64 \<Rightarrow> u64"

definition zero_header :: WP_Packet where
  "zero_header = WP_Packet_at (replicate sizeof_WP_Packet 0)"

definition WP_Message_Initialize :: WP_Message where
  "WP_Message_Initialize = \<lparr>m_header = zero_header, m_payload = None, m_pos = NullPtr, m_left = 0,
     m_payloadTicks = 0, m_rxState = ReceiveState_Idle\<rparr>"

definition PrepareReception :: "WP_Message \<Rightarrow> WP_Message" where
  "PrepareReception m = m\<lparr>m_rxState := ReceiveState_Initialize\<rparr>"

definition SetPayload :: "u8 list option \<Rightarrow> WP_Message \<Rightarrow> WP_Message" where
  "SetPayload payload m = m\<lparr>m_payload := payload\<rparr>"

text \<open>\<open>payload_bytes\<close> is what can be read at a payload pointer: nothing at NULL.\<close>

definition payload_bytes :: "u8 list option \<Rightarrow> u8 list" where
  "payload_bytes payload = (case payload of None \<Rightarrow> [] | Some bs \<Rightarrow> bs)"

definition copy_marker :: "u8 list option \<Rightarrow> u8 list option" where
  "copy_marker szMarker =
     (let s = (case szMarker of None \<Rightarrow> MARKER_PACKET_V1 | Some s \<Rightarrow> s)
      in if 8 \<le> length s then Some (take 8 s) else None)"

definition header_crc :: "WP_Packet \<Rightarrow> u32 option" where
  "header_crc h = SUPPORT_ComputeCRC (WP_Packet_bytes h) (int sizeof_WP_Packet) 0"

definition PrepareRequest :: "u32 \<Rightarrow> u32 \<Rightarrow> u32 \<Rightarrow> u8 list option \<Rightarrow> WP_Message \<Rightarrow> 's WP_Controller \<Rightarrow>
    (WP_Message \<times> 's WP_Controller) option" where
  "PrepareRequest cmd flags payloadSize payload m c =
     (case copy_marker (m_szMarker c) of None \<Rightarrow> None | Some sig \<Rightarrow>
      case SUPPORT_ComputeCRC (payload_bytes payload) (sint payloadSize) 0 of None \<Rightarrow> None | Some crc \<Rightarrow>
      let h = (m_header m)\<lparr>m_signature := sig, m_crcData := crc, m_cmd := cmd,
            m_seq := m_lastOutboundMessage c, m_seqReply := 0, m_flags := flags,
            m_size := payloadSize, m_crcHeader := 0\<rparr>;
          c' = c\<lparr>m_lastOutboundMessage := m_lastOutboundMessage c + 1\<rparr>
      in case header_crc h of None \<Rightarrow> None | Some crcH \<Rightarrow>
         Some (m\<lparr>m_header := h\<lparr>m_crcHeader := crcH\<rparr>, m_payload := payload\<rparr>, c'))"

definition PrepareReply :: "WP_Packet \<Rightarrow> u32 \<Rightarrow> u32 \<Rightarrow> u8 list option \<Rightarrow> WP_Message \<Rightarrow> 's WP_Controller \<Rightarrow>
    (WP_Message \<times> 's WP_Controller) option" where
  "PrepareReply req flags payloadSize payload m c =
     (case copy_marker (m_szMarker c) of None \<Rightarrow> None | Some sig \<Rightarrow>
      case SUPPORT_ComputeCRC (payload_bytes payload) (sint payloadSize) 0 of None \<Rightarrow> None | Some crc \<Rightarrow>
      let h = (m_header m)\<lparr>m_signature := sig, m_crcData := crc, m_cmd := m_cmd req,
            m_seq := m_lastOutboundMessage c, m_seqReply := m_seq req, m_flags := flags OR c_Reply,
            m_size := payloadSize, m_crcHeader := 0\<rparr>;
          c' = c\<lparr>m_lastOutboundMessage := m_lastOutboundMessage c + 1\<rparr>
      in case header_crc h of None \<Rightarrow> None | Some crcH \<Rightarrow>
         Some (m\<lparr>m_header := h\<lparr>m_crcHeader := crcH\<rparr>, m_payload := payload\<rparr>, c'))"

definition VerifyHeader :: "WP_Message \<Rightarrow> bool option" where
  "VerifyHeader m =
     (let crc = m_crcHeader (m_header m)
      in map_option (\<lambda>x. x = crc) (header_crc ((m_header m)\<lparr>m_crcHeader := 0\<rparr>)))"

definition VerifyPayload :: "WP_Message \<Rightarrow> bool option" where
  "VerifyPayload m =
     (if m_payload m = None \<and> m_size (m_header m) \<noteq> 0 then Some False
      else map_option (\<lambda>x. x = m_crcData (m_header m))
        (SUPPORT_ComputeCRC (payload_bytes (m_payload m)) (sint (m_size (m_header m))) 0))"

definition Message_Release :: "'s WP_Layers \<Rightarrow> 's WP_Controller \<Rightarrow> 's WP_Controller" where
  "Message_Release L c =
     (if m_payload (m_inboundMessage c) \<noteq> None then
        let c' = snd (Release L c)
        in c'\<lparr>m_inboundMessage := SetPayload None (m_inboundMessage c')\<rparr>
      else c)"

definition SendMessage :: "'s WP_Layers \<Rightarrow> WP_Message \<Rightarrow> 's WP_Controller \<Rightarrow> bool \<times> 's WP_Controller" where
  "SendMessage L msg c = (let (b, s) = TransmitMessage L (m_state c) msg in (b, c\<lparr>m_state := s\<rparr>))"

definition SendProtocolMessage :: "'s WP_Layers \<Rightarrow> u32 \<Rightarrow> u32 \<Rightarrow> u32 \<Rightarrow> u8 list option \<Rightarrow>
    's WP_Controller \<Rightarrow> (bool \<times> 's WP_Controller) option" where
  "SendProtocolMessage L cmd flags payloadSize payload c =
     map_option (\<lambda>(msg, c). SendMessage L msg c)
       (PrepareRequest cmd flags payloadSize payload WP_Message_Initialize c)"

definition ReplyBadPacket :: "'s WP_Layers \<Rightarrow> u32 \<Rightarrow> 's WP_Controller \<Rightarrow> 's WP_Controller option" where
  "ReplyBadPacket L flags c =
     map_option (\<lambda>(msg, c). snd (SendMessage L msg c))
       (PrepareRequest 0 (c_NonCritical OR c_NACK OR flags) 0 None WP_Message_Initialize c)"

definition Controller_Initialize :: "u8 list option \<Rightarrow> 's \<Rightarrow> 's WP_Controller" where
  "Controller_Initialize szMarker state =
     \<lparr>m_szMarker = szMarker, m_state = state,
      m_inboundMessage = PrepareReception WP_Message_Initialize, m_lastOutboundMessage = 0\<rparr>"

section \<open>The receive state machine\<close>

text \<open>
  The physical layer stores the bytes it has at \<open>m_pos\<close> and moves \<open>m_pos\<close> and \<open>m_size\<close> past them;
  None is a store outside the header or the payload block.
\<close>

definition patch :: "u8 list \<Rightarrow> nat \<Rightarrow> u8 list \<Rightarrow> u8 list" where
  "patch buf p bs = take p buf @ bs @ drop (p + length bs) buf"

definition store_bytes :: "u8 list \<Rightarrow> WP_Message \<Rightarrow> WP_Message option" where
  "store_bytes bs m =
     (case m_pos m of
        NullPtr \<Rightarrow> if bs = [] then Some m else None
      | HeaderPtr p \<Rightarrow>
          if p + length bs \<le> sizeof_WP_Packet
          then Some (m\<lparr>m_header := WP_Packet_at (patch (WP_Packet_bytes (m_header m)) p bs),
                 m_pos := HeaderPtr (p + length bs), m_left := m_left m - word_of_nat (length bs)\<rparr>)
          else None
      | PayloadPtr p \<Rightarrow>
          (case m_payload m of None \<Rightarrow> None | Some buf \<Rightarrow>
             if p + length bs \<le> length buf
             then Some (m\<lparr>m_payload := Some (patch buf p bs),
                    m_pos := PayloadPtr (p + length bs), m_left := m_left m - word_of_nat (length bs)\<rparr>)
             else None))"

definition Phy_Receive :: "'s WP_Layers \<Rightarrow> 's WP_Controller \<Rightarrow> (bool \<times> 's WP_Controller) option" where
  "Phy_Receive L c =
     (let (ok, bs, s) = ReceiveBytes L (m_state c) (m_left (m_inboundMessage c))
      in map_option (\<lambda>m. (ok, c\<lparr>m_inboundMessage := m, m_state := s\<rparr>)) (store_bytes bs (m_inboundMessage c)))"

text \<open>The inner loop that drops bytes until what is left can be the start of a message.\<close>

fun synch :: "nat \<Rightarrow> u8 list \<Rightarrow> nat \<Rightarrow> u32 \<Rightarrow> u8 list \<times> nat \<times> u32 \<times> nat" where
  "synch 0 buf pos left = (buf, pos, left, 0)"
| "synch (Suc n) buf pos left =
     (let lenCmp = min (Suc n) 8
      in if take lenCmp buf = take lenCmp MARKER_DEBUGGER_V1 then (buf, pos, left, Suc n)
         else if take lenCmp buf = take lenCmp MARKER_PACKET_V1 then (buf, pos, left, Suc n)
         else synch n (take n (drop 1 buf) @ drop n buf) (pos - 1) (left + 1))"

definition hdr_offset :: "WP_Ptr \<Rightarrow> nat" where
  "hdr_offset p = (case p of HeaderPtr i \<Rightarrow> i | _ \<Rightarrow> 0)"

definition synch_header :: "WP_Message \<Rightarrow> WP_Message" where
  "synch_header m =
     (let len = sint (word_of_nat sizeof_WP_Packet - m_left m);
          (buf, pos, left, n) = synch (nat len) (WP_Packet_bytes (m_header m)) (hdr_offset (m_pos m)) (m_left m);
          len = (if len \<le> 0 then len else int n);
          m = m\<lparr>m_header := WP_Packet_at buf, m_pos := HeaderPtr pos, m_left := left\<rparr>
      in if 8 \<le> unat (word_of_int len :: u32) then m\<lparr>m_rxState := ReceiveState_ReadingHeader\<rparr> else m)"

abbreviation set_rx :: "int \<Rightarrow> 's WP_Controller \<Rightarrow> 's WP_Controller" where
  "set_rx st c \<equiv> c\<lparr>m_inboundMessage := (m_inboundMessage c)\<lparr>m_rxState := st\<rparr>\<rparr>"

definition rx_Initialize :: "'s WP_Layers \<Rightarrow> 's WP_Controller \<Rightarrow> 's WP_Controller" where
  "rx_Initialize L c =
     (let c = Message_Release L c
      in c\<lparr>m_inboundMessage := (m_inboundMessage c)\<lparr>m_rxState := ReceiveState_WaitingForHeader,
            m_pos := HeaderPtr 0, m_left := word_of_nat sizeof_WP_Packet\<rparr>\<rparr>)"

definition rx_CompleteHeader :: "'s WP_Layers \<Rightarrow> 's WP_Controller \<Rightarrow> 's WP_Controller option" where
  "rx_CompleteHeader L c =
     (case VerifyHeader (m_inboundMessage c) of None \<Rightarrow> None | Some good \<Rightarrow>
      let (ok, c) = (if good then ProcessHeader L c else (False, c)); m = m_inboundMessage c
      in if ok then
           Some (if m_size (m_header m) \<noteq> 0 then
                   (if m_payload m = None then set_rx ReceiveState_Initialize c
                    else c\<lparr>m_inboundMessage := m\<lparr>m_payloadTicks := CurrentTicks L (m_state c),
                           m_rxState := ReceiveState_ReadingPayload, m_pos := PayloadPtr 0,
                           m_left := m_size (m_header m)\<rparr>\<rparr>)
                 else set_rx ReceiveState_CompletePayload c)
         else map_option (set_rx ReceiveState_Initialize)
           (if m_flags (m_header m) AND c_NonCritical = 0 then ReplyBadPacket L c_BadHeader c else Some c))"

definition rx_CompletePayload :: "'s WP_Layers \<Rightarrow> 's WP_Controller \<Rightarrow> 's WP_Controller option" where
  "rx_CompletePayload L c =
     (case VerifyPayload (m_inboundMessage c) of None \<Rightarrow> None | Some good \<Rightarrow>
      map_option (set_rx ReceiveState_Initialize)
        (if good then map_option snd (ProcessPayload L c) else ReplyBadPacket L c_BadPayload c))"

text \<open>
  One turn of the loop of \<open>Process\<close>: None is a memory fault, otherwise the value the function
  returns, if it returns, and the controller.
\<close>

definition Process_step :: "'s WP_Layers \<Rightarrow> 's WP_Controller \<Rightarrow> (bool option \<times> 's WP_Controller) option" where
  "Process_step L c =
     (let st = m_rxState (m_inboundMessage c) in
      if st = ReceiveState_Idle then Some (Some True, c)
      else if st = ReceiveState_Initialize then Some (None, rx_Initialize L c)
      else if st = ReceiveState_WaitingForHeader then
        (case Phy_Receive L c of None \<Rightarrow> None | Some (ok, c) \<Rightarrow>
           if ok then Some (None, c\<lparr>m_inboundMessage := synch_header (m_inboundMessage c)\<rparr>)
           else Some (Some True, c))
      else if st = ReceiveState_ReadingHeader then
        (case Phy_Receive L c of None \<Rightarrow> None | Some (ok, c) \<Rightarrow>
           if ok then Some (None, if m_left (m_inboundMessage c) = 0 then set_rx ReceiveState_CompleteHeader c else c)
           else Some (Some True, c))
      else if st = ReceiveState_CompleteHeader then map_option (Pair None) (rx_CompleteHeader L c)
      else if st = ReceiveState_ReadingPayload then
        (let cur = CurrentTicks L (m_state c) in
         if TicksToTime L (cur - m_payloadTicks (m_inboundMessage c)) < c_PayloadTimeout then
           (case Phy_Receive L (c\<lparr>m_inboundMessage := (m_inboundMessage c)\<lparr>m_payloadTicks := cur\<rparr>\<rparr>) of
              None \<Rightarrow> None | Some (ok, c) \<Rightarrow>
              if ok then Some (None, if m_left (m_inboundMessage c) = 0 then set_rx ReceiveState_CompletePayload c else c)
              else Some (Some True, c))
         else Some (None, set_rx ReceiveState_Initialize c))
      else if st = ReceiveState_CompletePayload then map_option (Pair None) (rx_CompletePayload L c)
      else Some (Some False, c))"

partial_function (option) Process :: "'s WP_Layers \<Rightarrow> 's WP_Controller \<Rightarrow> (bool \<times> 's WP_Controller) option" where
  "Process L c =
     (case Process_step L c of None \<Rightarrow> None
      | Some (Some b, c) \<Rightarrow> Some (b, c)
      | Some (None, c) \<Rightarrow> Process L c)"

definition AdvanceState :: "'s WP_Layers \<Rightarrow> 's WP_Controller \<Rightarrow> (bool \<times> 's WP_Controller) option" where
  "AdvanceState L c = Process L c"

section \<open>The layout of a packet\<close>

lemma byte_high: "\<not> bit (x :: u8) (8 + n)" "\<not> bit (x :: u8) (16 + n)" "\<not> bit (x :: u8) (24 + n)"
  by (auto dest: bit_imp_le_length)

lemma at16_bytes: "at16 (xs @ bytes16 w @ ys) (length xs) = w"
  unfolding at16_def bytes16_def
  by (rule bit_word_eqI) (auto simp: nth_append bit_simps dest: bit_imp_le_length)

lemma at32_bytes: "at32 (xs @ bytes32 w @ ys) (length xs) = w"
  unfolding at32_def bytes32_def
proof (rule bit_word_eqI)
  fix n assume "n < LENGTH(32)"
  then consider "n < 8" | "8 \<le> n" "n < 16" | "16 \<le> n" "n < 24" | "24 \<le> n" "n < 32"
    by fastforce
  then show "bit (ucast ((xs @ [ucast w, ucast (drop_bit 8 w), ucast (drop_bit 16 w), ucast (drop_bit 24 w)] @ ys) ! length xs :: u8) OR
      push_bit 8 (ucast ((xs @ [ucast w, ucast (drop_bit 8 w), ucast (drop_bit 16 w), ucast (drop_bit 24 w)] @ ys) ! (length xs + 1) :: u8)) OR
      push_bit 16 (ucast ((xs @ [ucast w, ucast (drop_bit 8 w), ucast (drop_bit 16 w), ucast (drop_bit 24 w)] @ ys) ! (length xs + 2) :: u8)) OR
      push_bit 24 (ucast ((xs @ [ucast w, ucast (drop_bit 8 w), ucast (drop_bit 16 w), ucast (drop_bit 24 w)] @ ys) ! (length xs + 3) :: u8)) :: u32) n = bit w n"
    by cases (simp_all add: nth_append bit_simps less_diff_conv2)
qed

lemma at16_cong: "take 2 (drop i xs) = bytes16 w \<Longrightarrow> i + 2 \<le> length xs \<Longrightarrow> at16 xs i = w"
  using at16_bytes [of "take i xs" w "drop (i + 2) xs"]
  by (metis append_assoc append_take_drop_id drop_drop length_take min.absorb2 add.commute add_leD1 take_drop)

lemma at32_cong: "take 4 (drop i xs) = bytes32 w \<Longrightarrow> i + 4 \<le> length xs \<Longrightarrow> at32 xs i = w"
  using at32_bytes [of "take i xs" w "drop (i + 4) xs"]
  by (metis append_assoc append_take_drop_id drop_drop length_take min.absorb2 add.commute add_leD1 take_drop)

lemma WP_Packet_bytes_length [simp]: "length (m_signature h) = 8 \<Longrightarrow> length (WP_Packet_bytes h) = 32"
  by (simp add: WP_Packet_bytes_def)

lemma WP_Packet_at_bytes [simp]: "length (m_signature h) = 8 \<Longrightarrow> WP_Packet_at (WP_Packet_bytes h) = h"
  unfolding WP_Packet_at_def
  by (cases h) (simp add: WP_Packet_bytes_def at32_cong at16_cong)

lemma bytes16_at: "i + 1 < length xs \<Longrightarrow> bytes16 (at16 xs i) = [xs ! i, xs ! (i + 1)]"
  unfolding at16_def bytes16_def
  by (auto intro!: bit_word_eqI simp: bit_simps byte_high)

lemma bytes32_at: "i + 3 < length xs \<Longrightarrow> bytes32 (at32 xs i) = [xs ! i, xs ! (i + 1), xs ! (i + 2), xs ! (i + 3)]"
  unfolding at32_def bytes32_def
  by (auto intro!: bit_word_eqI simp: bit_simps byte_high)

lemma WP_Packet_bytes_at [simp]:
  assumes "length buf = 32"
  shows "WP_Packet_bytes (WP_Packet_at buf) = buf"
proof -
  have "drop 8 buf = map ((!) buf) [8..<32]"
    using assms by (intro nth_equalityI) (simp_all del: upt_rec_numeral)
  also have "\<dots> = bytes32 (at32 buf 8) @ bytes32 (at32 buf 12) @ bytes32 (at32 buf 16) @
      bytes16 (at16 buf 20) @ bytes16 (at16 buf 22) @ bytes32 (at32 buf 24) @ bytes32 (at32 buf 28)"
    using assms by (simp add: bytes32_at bytes16_at upt_rec)
  finally show ?thesis
    using append_take_drop_id [of 8 buf] by (simp add: WP_Packet_bytes_def WP_Packet_at_def)
qed

lemma WP_Packet_at_signature [simp]: "length buf = 32 \<Longrightarrow> length (m_signature (WP_Packet_at buf)) = 8"
  by (simp add: WP_Packet_at_def)

section \<open>Sealing\<close>

lemma header_crc_total [simp]:
  "length (m_signature h) = 8 \<Longrightarrow> header_crc h = Some (foldl crc_step 0 (WP_Packet_bytes h))"
  by (simp add: header_crc_def sizeof_WP_Packet_def ComputeCRC_total)

lemma zero_header_signature [simp]: "length (m_signature zero_header) = 8"
  by (simp add: zero_header_def sizeof_WP_Packet_def)

lemma copy_marker_length: "copy_marker s = Some sig \<Longrightarrow> length sig = 8"
  by (auto simp: copy_marker_def Let_def split: if_splits)

text \<open>A packet whose two checksums are right.\<close>

definition payload_crc :: "u8 list \<Rightarrow> u32 \<Rightarrow> u32" where
  "payload_crc bs n = foldl crc_step 0 (take (nat (sint n)) bs)"

definition sealed :: "WP_Packet \<Rightarrow> u8 list \<Rightarrow> bool" where
  "sealed h bs \<longleftrightarrow> length (m_signature h) = 8 \<and>
     m_crcHeader h = foldl crc_step 0 (WP_Packet_bytes (h\<lparr>m_crcHeader := 0\<rparr>)) \<and>
     m_crcData h = payload_crc bs (m_size h)"

lemma payload_crc_total:
  "sint n \<le> int (length bs) \<Longrightarrow> SUPPORT_ComputeCRC bs (sint n) 0 = Some (payload_crc bs n)"
  by (simp add: payload_crc_def ComputeCRC_total nat_le_iff)

definition request_header :: "u8 list \<Rightarrow> u32 \<Rightarrow> u32 \<Rightarrow> u32 \<Rightarrow> u8 list \<Rightarrow> u16 \<Rightarrow> u16 \<Rightarrow> WP_Packet" where
  "request_header sig cmd flags sz bs seq seqReply =
     (let h = \<lparr>m_signature = sig, m_crcHeader = 0, m_crcData = payload_crc bs sz, m_cmd = cmd,
            m_seq = seq, m_seqReply = seqReply, m_flags = flags, m_size = sz\<rparr>
      in h\<lparr>m_crcHeader := foldl crc_step 0 (WP_Packet_bytes h)\<rparr>)"

lemma request_header_fields [simp]:
  "m_signature (request_header sig cmd flags sz bs seq seqReply) = sig"
  "m_cmd (request_header sig cmd flags sz bs seq seqReply) = cmd"
  "m_seq (request_header sig cmd flags sz bs seq seqReply) = seq"
  "m_seqReply (request_header sig cmd flags sz bs seq seqReply) = seqReply"
  "m_flags (request_header sig cmd flags sz bs seq seqReply) = flags"
  "m_size (request_header sig cmd flags sz bs seq seqReply) = sz"
  by (simp_all add: request_header_def Let_def)

lemma request_header_sealed: "length sig = 8 \<Longrightarrow> sealed (request_header sig cmd flags sz bs seq seqReply) bs"
  by (simp add: sealed_def request_header_def Let_def)

lemma PrepareRequest_eq:
  assumes "copy_marker (m_szMarker c) = Some sig"
    and "sint sz \<le> int (length (payload_bytes payload))"
  shows "PrepareRequest cmd flags sz payload m c =
    Some (m\<lparr>m_header := request_header sig cmd flags sz (payload_bytes payload) (m_lastOutboundMessage c) 0,
      m_payload := payload\<rparr>, c\<lparr>m_lastOutboundMessage := m_lastOutboundMessage c + 1\<rparr>)"
  using assms copy_marker_length [OF assms(1)]
  by (cases "m_header m") (simp add: PrepareRequest_def payload_crc_total request_header_def Let_def)

lemma PrepareReply_eq:
  assumes "copy_marker (m_szMarker c) = Some sig"
    and "sint sz \<le> int (length (payload_bytes payload))"
  shows "PrepareReply req flags sz payload m c =
    Some (m\<lparr>m_header := request_header sig (m_cmd req) (flags OR c_Reply) sz (payload_bytes payload)
        (m_lastOutboundMessage c) (m_seq req), m_payload := payload\<rparr>,
      c\<lparr>m_lastOutboundMessage := m_lastOutboundMessage c + 1\<rparr>)"
  using assms copy_marker_length [OF assms(1)]
  by (cases "m_header m") (simp add: PrepareReply_def payload_crc_total request_header_def Let_def)

lemma VerifyHeader_iff: "length (m_signature (m_header m)) = 8 \<Longrightarrow> VerifyHeader m =
    Some (m_crcHeader (m_header m) = foldl crc_step 0 (WP_Packet_bytes ((m_header m)\<lparr>m_crcHeader := 0\<rparr>)))"
  by (auto simp: VerifyHeader_def Let_def)

lemma VerifyPayload_iff:
  assumes "sint (m_size (m_header m)) \<le> int (length (payload_bytes (m_payload m)))"
    and "m_payload m = None \<longrightarrow> m_size (m_header m) = 0"
  shows "VerifyPayload m = Some (m_crcData (m_header m) = payload_crc (payload_bytes (m_payload m)) (m_size (m_header m)))"
  using assms by (auto simp: VerifyPayload_def payload_crc_total)

lemma sealed_verifies:
  assumes "sealed (m_header m) (payload_bytes (m_payload m))"
    and "sint (m_size (m_header m)) \<le> int (length (payload_bytes (m_payload m)))"
    and "m_payload m = None \<longrightarrow> m_size (m_header m) = 0"
  shows "VerifyHeader m = Some True" "VerifyPayload m = Some True"
  using assms by (simp_all add: VerifyHeader_iff VerifyPayload_iff sealed_def)

text \<open>
  Damage to at most four consecutive bytes of a header outside its checksum field, or of the bytes
  of a payload, changes the checksum.
\<close>

lemma crc_fold_burst:
  assumes "length us = 4" "length vs = 4" "us \<noteq> vs"
  shows "foldl crc_step crc (xs @ us @ ys) \<noteq> foldl crc_step crc (xs @ vs @ ys)"
  using crc_burst [OF assms, of xs ys crc] assms(1,2)
  by (simp add: ComputeCRC_total)

lemma bytes32_0: "bytes32 0 = [0, 0, 0, 0]"
  by (simp add: bytes32_def)

lemma bytes_without_crc:
  assumes "length (m_signature h) = 8"
  shows "WP_Packet_bytes (h\<lparr>m_crcHeader := 0\<rparr>) =
    take 8 (WP_Packet_bytes h) @ [0, 0, 0, 0] @ drop 12 (WP_Packet_bytes h)"
  using assms by (simp add: WP_Packet_bytes_def bytes32_0)

lemma at_crc_cong: "take 4 (drop 8 a) = take 4 (drop 8 b) \<Longrightarrow> 12 \<le> length a \<Longrightarrow> 12 \<le> length b \<Longrightarrow>
    at32 a 8 = at32 b 8"
proof -
  assume a: "take 4 (drop 8 a) = take 4 (drop 8 b)" "12 \<le> length a" "12 \<le> length b"
  have "a ! (8 + i) = b ! (8 + i)" if "i < 4" for i
    using arg_cong [OF a(1), of "\<lambda>xs. xs ! i"] a(2,3) that by simp
  from this [of 0] this [of 1] this [of 2] this [of 3] show ?thesis by (simp add: at32_def)
qed

lemma damaged_header:
  assumes "sealed h bs" "WP_Packet_bytes h = xs @ us @ ys"
    and "length us = 4" "length vs = 4" "us \<noteq> vs" "length xs + 4 \<le> 8 \<or> 12 \<le> length xs"
  shows "VerifyHeader (m\<lparr>m_header := WP_Packet_at (xs @ vs @ ys)\<rparr>) = Some False"
proof -
  let ?h = "WP_Packet_at (xs @ vs @ ys)"
  have sig: "length (m_signature h) = 8" using assms(1) by (simp add: sealed_def)
  have len: "length (xs @ vs @ ys) = 32"
    using WP_Packet_bytes_length [OF sig] assms(2-4) by simp
  have 1: "take 4 (drop 8 (xs @ vs @ ys)) = take 4 (drop 8 (xs @ us @ ys))"
    using assms(3,4,6) len by auto
  have 2: "m_crcHeader ?h = m_crcHeader h"
  proof -
    have "m_crcHeader ?h = at32 (xs @ us @ ys) 8"
      using at_crc_cong [OF 1] assms(3,4) len by (simp add: WP_Packet_at_def)
    also have "\<dots> = m_crcHeader (WP_Packet_at (WP_Packet_bytes h))"
      by (simp add: assms(2) WP_Packet_at_def)
    finally show ?thesis by (simp add: sig)
  qed
  have 3: "WP_Packet_bytes (h\<lparr>m_crcHeader := 0\<rparr>) = take 8 (xs @ us @ ys) @ [0, 0, 0, 0] @ drop 12 (xs @ us @ ys)"
    by (simp only: bytes_without_crc [OF sig] assms(2))
  have 4: "WP_Packet_bytes (?h\<lparr>m_crcHeader := 0\<rparr>) = take 8 (xs @ vs @ ys) @ [0, 0, 0, 0] @ drop 12 (xs @ vs @ ys)"
    using len by (simp only: bytes_without_crc WP_Packet_at_signature WP_Packet_bytes_at)
  obtain as zs where "take 8 (xs @ us @ ys) @ [0, 0, 0, 0] @ drop 12 (xs @ us @ ys) = as @ us @ zs"
    "take 8 (xs @ vs @ ys) @ [0, 0, 0, 0] @ drop 12 (xs @ vs @ ys) = as @ vs @ zs"
  proof (cases "length xs + 4 \<le> 8")
    case True
    then show ?thesis
      using that [of xs "take (4 - length xs) ys @ [0, 0, 0, 0] @ drop (8 - length xs) ys"] assms(3,4) by simp
  next
    case False
    then show ?thesis
      using that [of "take 8 xs @ [0, 0, 0, 0] @ drop 12 xs" ys] assms(3,4,6) by simp
  qed
  then have "foldl crc_step 0 (WP_Packet_bytes (h\<lparr>m_crcHeader := 0\<rparr>)) \<noteq>
      foldl crc_step 0 (WP_Packet_bytes (?h\<lparr>m_crcHeader := 0\<rparr>))"
    unfolding 3 4 using crc_fold_burst [OF assms(3-5)] by simp
  then show ?thesis using assms(1) 2 len by (auto simp: VerifyHeader_iff sealed_def)
qed

section \<open>Finding the start of a message\<close>

definition is_marker :: "u8 list \<Rightarrow> bool" where
  "is_marker w \<longleftrightarrow> w = MARKER_DEBUGGER_V1 \<or> w = MARKER_PACKET_V1"

text \<open>The bytes received so far may be the start of a message.\<close>

definition start_ok :: "u8 list \<Rightarrow> bool" where
  "start_ok w \<longleftrightarrow> take 8 w = take (length w) MARKER_DEBUGGER_V1 \<or> take 8 w = take (length w) MARKER_PACKET_V1"

fun resync :: "u8 list \<Rightarrow> u8 list" where
  "resync [] = []"
| "resync (x # w) = (if start_ok (x # w) then x # w else resync w)"

lemma marker_length [simp]: "length MARKER_DEBUGGER_V1 = 8" "length MARKER_PACKET_V1 = 8"
  by (simp_all add: MARKER_DEBUGGER_V1_def MARKER_PACKET_V1_def)

lemma is_marker_length: "is_marker w \<Longrightarrow> length w = 8"
  by (auto simp: is_marker_def)

lemma start_ok_full: "8 \<le> length w \<Longrightarrow> start_ok w \<longleftrightarrow> is_marker (take 8 w)"
  by (auto simp: start_ok_def is_marker_def)

lemma start_ok_prefix: "is_marker M \<Longrightarrow> w @ v = M @ t \<Longrightarrow> start_ok w"
proof -
  assume M: "is_marker M" and eq: "w @ v = M @ t"
  have "take 8 w = take (length w) M"
    using arg_cong [OF eq, of "take (min 8 (length w))"] is_marker_length [OF M]
    by (cases "8 \<le> length w") (simp_all add: min_def)
  with M show ?thesis by (auto simp: start_ok_def is_marker_def)
qed

lemma resync_suffix: "\<exists>us. w = us @ resync w"
proof (induction w)
  case (Cons x w)
  then show ?case by (metis append.left_neutral append_Cons resync.simps(2))
qed simp

lemma resync_length: "length (resync w) \<le> length w"
  by (induction w) auto

lemma resync_start_ok: "start_ok (resync w)"
  by (induction w) (auto simp: start_ok_def)

lemma take_min_8: "length M = 8 \<Longrightarrow> take (min n 8) M = take n M"
  by (simp add: min_def)

lemma synch_resync:
  assumes "length buf = 32" "n \<le> 32"
  shows "\<exists>buf'. synch n buf pos left = (buf', pos - (n - length (resync (take n buf))),
      left + word_of_nat (n - length (resync (take n buf))), length (resync (take n buf))) \<and>
    length buf' = 32 \<and> take (length (resync (take n buf))) buf' = resync (take n buf)"
  using assms
proof (induction n arbitrary: buf pos left)
  case (Suc n)
  have w: "take (Suc n) buf = hd buf # take n (tl buf)" "length (take (Suc n) buf) = Suc n"
    using Suc.prems by (cases buf; simp)+
  have t: "take (min (Suc n) 8) buf = take 8 (take (Suc n) buf)" by (simp add: min.commute)
  have c: "start_ok (take (Suc n) buf) \<longleftrightarrow>
      take (min (Suc n) 8) buf = take (min (Suc n) 8) MARKER_DEBUGGER_V1 \<or>
      take (min (Suc n) 8) buf = take (min (Suc n) 8) MARKER_PACKET_V1"
    unfolding start_ok_def w(2) t by (simp only: take_min_8 marker_length)
  show ?case
  proof (cases "start_ok (take (Suc n) buf)")
    case True
    have "resync (take (Suc n) buf) = take (Suc n) buf" using True unfolding w(1) by simp
    then show ?thesis using True Suc.prems w(2) by (auto simp: Let_def c)
  next
    case False
    let ?b = "take n (drop 1 buf) @ drop n buf"
    have b: "length ?b = 32" "take n ?b = take n (tl buf)" using Suc.prems by (simp_all add: drop_Suc)
    have r: "resync (take (Suc n) buf) = resync (take n ?b)" using False unfolding b(2) w(1) by simp
    have l: "length (resync (take n ?b)) \<le> n" using resync_length [of "take n ?b"] b(1) Suc.prems(2) by simp
    have "synch (Suc n) buf pos left = synch n ?b (pos - 1) (left + 1)"
      using False by (simp add: Let_def c)
    moreover have k: "Suc n - length (resync (take n ?b)) = Suc (n - length (resync (take n ?b)))"
      using l by (rule Suc_diff_le)
    moreover obtain b' where "synch n ?b (pos - 1) (left + 1) =
        (b', pos - 1 - (n - length (resync (take n ?b))), left + 1 + word_of_nat (n - length (resync (take n ?b))),
         length (resync (take n ?b)))"
      "length b' = 32" "take (length (resync (take n ?b))) b' = resync (take n ?b)"
      using Suc.IH [OF b(1), of "pos - 1" "left + 1"] Suc.prems(2) by (meson Suc_leD)
    ultimately show ?thesis unfolding r k by (simp only: of_nat_Suc) (simp add: add.assoc)
  qed
qed simp

text \<open>
  The first marker of a stream: no eight bytes that start inside \<open>junk\<close> are a marker.
\<close>

definition no_marker :: "u8 list \<Rightarrow> u8 list \<Rightarrow> bool" where
  "no_marker junk M \<longleftrightarrow> (\<forall>i < length junk. \<not> is_marker (take 8 (drop i (junk @ M))))"

lemma no_marker_Nil [simp]: "no_marker [] M"
  by (simp add: no_marker_def)

lemma no_marker_Cons: "no_marker (x # junk) M \<longleftrightarrow> \<not> is_marker (take 8 (x # junk @ M)) \<and> no_marker junk M"
  unfolding no_marker_def by (simp add: All_less_Suc2)

lemma resync_stream:
  assumes "is_marker M" "no_marker junk M" "w @ rest = junk @ M @ t"
  shows "\<exists>junk'. resync w @ rest = junk' @ M @ t \<and> no_marker junk' M \<and>
    (8 \<le> length (resync w) \<longrightarrow> junk' = [])"
  using assms(2,3)
proof (induction w arbitrary: junk)
  case (Cons x w)
  show ?case
  proof (cases "start_ok (x # w)")
    case True
    have "junk = []" if "8 \<le> length (x # w)"
    proof (rule ccontr)
      assume "junk \<noteq> []"
      then obtain y j where j: "junk = y # j" by (cases junk) auto
      have "is_marker (take 8 (x # w))" using True that by (simp only: start_ok_full)
      also have "take 8 (x # w) = take 8 ((x # w) @ rest)" using that by simp
      also have "\<dots> = take 8 (y # j @ M)"
        using is_marker_length [OF assms(1)] unfolding Cons.prems(2) j by simp
      finally show False using Cons.prems(1) unfolding j no_marker_Cons by blast
    qed
    then show ?thesis using True Cons.prems by (intro exI [of _ junk]) simp
  next
    case False
    have "junk \<noteq> []"
    proof
      assume "junk = []"
      then have "start_ok (x # w)" using start_ok_prefix [OF assms(1), of "x # w" rest t] Cons.prems(2) by simp
      with False show False ..
    qed
    then obtain j where "junk = x # j" "w @ rest = j @ M @ t" using Cons.prems(2) by (cases junk) auto
    then show ?thesis using Cons.IH [of j] Cons.prems(1) False by (simp add: no_marker_Cons)
  qed
next
  case Nil
  then show ?case by (intro exI [of _ junk]) simp
qed

section \<open>Receiving from a stream\<close>

text \<open>
  The contract of a physical layer that delivers a stream of bytes in pieces of any size:
  \<open>inp\<close> is what it has still to deliver. It is what \<open>Phy_ReceiveBytes\<close> of the messaging ports
  makes of a serial port: nothing is read for a size of zero, and no bytes is false.
\<close>

definition stream_phy :: "'s WP_Layers \<Rightarrow> ('s \<Rightarrow> u8 list) \<Rightarrow> bool" where
  "stream_phy L inp \<longleftrightarrow>
     (\<forall>s. ReceiveBytes L s 0 = (True, [], s)) \<and>
     (\<forall>s n. n \<noteq> 0 \<longrightarrow> inp s = [] \<longrightarrow> ReceiveBytes L s n = (False, [], s)) \<and>
     (\<forall>s n. n \<noteq> 0 \<longrightarrow> inp s \<noteq> [] \<longrightarrow>
        (\<exists>bs s'. ReceiveBytes L s n = (True, bs, s') \<and> bs \<noteq> [] \<and> length bs \<le> unat n \<and> inp s = bs @ inp s'))"

text \<open>The clock advances by less than the time-out over one call of the physical layer.\<close>

definition timely :: "'s WP_Layers \<Rightarrow> bool" where
  "timely L \<longleftrightarrow> TicksToTime L 0 < c_PayloadTimeout \<and>
     (\<forall>s n. TicksToTime L (CurrentTicks L (snd (snd (ReceiveBytes L s n))) - CurrentTicks L s) < c_PayloadTimeout)"

text \<open>
  The application accepts every header, provides a payload block of the size the header names,
  and does not itself read from the port.
\<close>

definition accepts :: "'s WP_Layers \<Rightarrow> ('s \<Rightarrow> u8 list) \<Rightarrow> bool" where
  "accepts L inp \<longleftrightarrow>
     (\<forall>c. inp (m_state (snd (Release L c))) = inp (m_state c) \<and>
        length (m_signature (m_header (m_inboundMessage (snd (Release L c))))) =
        length (m_signature (m_header (m_inboundMessage c)))) \<and>
     (\<forall>c. \<exists>c1 p. ProcessHeader L c = (True, c1) \<and> inp (m_state c1) = inp (m_state c) \<and>
        m_inboundMessage c1 = (m_inboundMessage c)\<lparr>m_payload := p\<rparr> \<and>
        (if m_size (m_header (m_inboundMessage c)) = 0 then p = m_payload (m_inboundMessage c)
         else \<exists>buf. p = Some buf \<and> length buf = unat (m_size (m_header (m_inboundMessage c)))))"

text \<open>The header buffer holds the bytes \<open>w\<close>, and the rest of it is still to be filled.\<close>

definition hdr_at :: "int \<Rightarrow> u8 list \<Rightarrow> WP_Message \<Rightarrow> bool" where
  "hdr_at st w m \<longleftrightarrow> m_rxState m = st \<and> length w \<le> 32 \<and>
     m_pos m = HeaderPtr (length w) \<and> m_left m = word_of_nat (32 - length w) \<and>
     length (m_signature (m_header m)) = 8 \<and> take (length w) (WP_Packet_bytes (m_header m)) = w"

definition hdr_rx :: "int \<Rightarrow> u8 list \<Rightarrow> WP_Message \<Rightarrow> bool" where
  "hdr_rx st w m \<longleftrightarrow> hdr_at st w m \<and> m_payload m = None"

definition pay_rx :: "WP_Packet \<Rightarrow> u8 list \<Rightarrow> WP_Message \<Rightarrow> bool" where
  "pay_rx h w m \<longleftrightarrow> m_rxState m = ReceiveState_ReadingPayload \<and> m_header m = h \<and>
     (\<exists>buf. m_payload m = Some buf \<and> length buf = unat (m_size h) \<and> length w \<le> length buf \<and>
        m_pos m = PayloadPtr (length w) \<and> m_left m = word_of_nat (length buf - length w) \<and>
        take (length w) buf = w)"

lemma patch_take: "p \<le> length buf \<Longrightarrow> take (p + length bs) (patch buf p bs) = take p buf @ bs"
  by (simp add: patch_def)

lemma patch_length [simp]: "p + length bs \<le> length buf \<Longrightarrow> length (patch buf p bs) = length buf"
  by (simp add: patch_def)

lemma unat_u32: "n < 2 ^ 32 \<Longrightarrow> unat (word_of_nat n :: u32) = n"
  by (simp add: unsigned_of_nat take_bit_nat_eq_self)

lemma word_diff_nat: "b \<le> a \<Longrightarrow> (word_of_nat a :: u32) - word_of_nat b = word_of_nat (a - b)"
  by (simp add: of_nat_diff)

lemma receive_header:
  assumes "stream_phy L inp" "hdr_rx st w (m_inboundMessage c)" "length w < 32" "inp (m_state c) \<noteq> []"
  shows "\<exists>bs c'. Phy_Receive L c = Some (True, c') \<and> bs \<noteq> [] \<and> length (w @ bs) \<le> 32 \<and>
    hdr_rx st (w @ bs) (m_inboundMessage c') \<and> inp (m_state c) = bs @ inp (m_state c')"
proof -
  let ?m = "m_inboundMessage c"
  have n: "unat (m_left ?m) = 32 - length w" "m_left ?m \<noteq> 0"
  proof -
    have "m_left ?m = word_of_nat (32 - length w)" using assms(2) unfolding hdr_rx_def hdr_at_def by blast
    then show "unat (m_left ?m) = 32 - length w" by (simp only:) (rule unat_u32, simp)
    then show "m_left ?m \<noteq> 0" using assms(3) by (metis unat_0 diff_is_0_eq not_le)
  qed
  obtain bs s' where r: "ReceiveBytes L (m_state c) (m_left ?m) = (True, bs, s')" "bs \<noteq> []"
    "length bs \<le> 32 - length w" "inp (m_state c) = bs @ inp s'"
    using assms(1,4) n unfolding stream_phy_def by metis
  let ?buf = "WP_Packet_bytes (m_header ?m)"
  have l: "length ?buf = 32" "length w + length bs \<le> 32" using assms(2) r(3) assms(3) by (auto simp: hdr_rx_def hdr_at_def)
  have t: "take (length w + length bs) (patch ?buf (length w) bs) = w @ bs"
    using assms(2) l by (simp add: patch_take hdr_rx_def hdr_at_def)
  show ?thesis using assms(2) r l t
    by (auto simp: hdr_rx_def hdr_at_def Phy_Receive_def store_bytes_def sizeof_WP_Packet_def word_diff_nat)
qed

lemma receive_payload:
  assumes "stream_phy L inp" "pay_rx h w m" "length w < unat (m_size h)" "inp (m_state c) \<noteq> []"
    "m_inboundMessage c = m"
  shows "\<exists>bs c'. Phy_Receive L c = Some (True, c') \<and> bs \<noteq> [] \<and> length (w @ bs) \<le> unat (m_size h) \<and>
    pay_rx h (w @ bs) (m_inboundMessage c') \<and> inp (m_state c) = bs @ inp (m_state c') \<and>
    m_payloadTicks (m_inboundMessage c') = m_payloadTicks m \<and>
    m_state c' = snd (snd (ReceiveBytes L (m_state c) (m_left m)))"
proof -
  obtain buf where b: "m_payload m = Some buf" "length buf = unat (m_size h)" "length w \<le> length buf"
    "m_pos m = PayloadPtr (length w)" "m_left m = word_of_nat (length buf - length w)"
    "take (length w) buf = w" using assms(2) unfolding pay_rx_def by blast
  have lt: "length buf - length w < 2 ^ 32" using b(2) unsigned_less [of "m_size h", where 'a = nat] by simp
  have n: "unat (m_left m) = length buf - length w" "m_left m \<noteq> 0"
  proof -
    show "unat (m_left m) = length buf - length w" using b(5) lt by (simp add: unat_u32)
    then show "m_left m \<noteq> 0" using assms(3) b(2) by (metis unat_0 diff_is_0_eq not_le)
  qed
  obtain bs s' where r: "ReceiveBytes L (m_state c) (m_left m) = (True, bs, s')" "bs \<noteq> []"
    "length bs \<le> length buf - length w" "inp (m_state c) = bs @ inp s'"
    using assms(1,4) n unfolding stream_phy_def by metis
  have l: "length w + length bs \<le> length buf" using r(3) b(3) by simp
  have t: "take (length w + length bs) (patch buf (length w) bs) = w @ bs"
    using b l by (simp add: patch_take)
  show ?thesis using assms(2,5) b r l t
    by (auto simp: pay_rx_def Phy_Receive_def store_bytes_def word_diff_nat)
qed

lemma Process_continue: "Process_step L c = Some (None, c') \<Longrightarrow> Process L c = Process L c'"
  by (subst Process.simps) simp

lemma Process_return: "Process_step L c = Some (Some b, c') \<Longrightarrow> Process L c = Some (b, c')"
  by (subst Process.simps) simp

lemma word_left: "l \<le> 32 \<Longrightarrow> 32 - (word_of_nat (32 - l) :: u32) = word_of_nat l"
  using word_diff_nat [of "32 - l" 32] by simp

lemma hdr_at_synch:
  assumes "hdr_at ReceiveState_WaitingForHeader v m"
  shows "hdr_at (if 8 \<le> length (resync v) then ReceiveState_ReadingHeader else ReceiveState_WaitingForHeader)
    (resync v) (synch_header m)"
proof -
  let ?r = "resync v" and ?buf = "WP_Packet_bytes (m_header m)"
  have m: "m_rxState m = ReceiveState_WaitingForHeader" "length v \<le> 32"
    "m_pos m = HeaderPtr (length v)" "m_left m = word_of_nat (32 - length v)"
    "length ?buf = 32" "take (length v) ?buf = v"
    using assms unfolding hdr_at_def by simp_all
  have r: "length ?r \<le> length v" by (rule resync_length)
  have len: "sint (word_of_nat sizeof_WP_Packet - m_left m) = int (length v)"
    unfolding m(4) sizeof_WP_Packet_def using m(2)
    by (simp only: mult_numeral_1 numeral_times_numeral semiring_norm of_nat_numeral word_left)
      (simp add: signed_of_nat signed_take_bit_int_eq_self)
  obtain b where b: "synch (length v) ?buf (length v) (m_left m) =
      (b, length v - (length v - length ?r), m_left m + word_of_nat (length v - length ?r), length ?r)"
    "length b = 32" "take (length ?r) b = ?r"
    using synch_resync [OF m(5,2), of "length v" "m_left m"] unfolding m(6) by blast
  have n: "(if int (length v) \<le> 0 then int (length v) else int (length ?r)) = int (length ?r)"
    using r by simp
  have u: "unat (word_of_int (int (length ?r)) :: u32) = length ?r"
    using r m(2) by (simp add: unat_u32)
  have left: "m_left m + word_of_nat (length v - length ?r) = word_of_nat (32 - length ?r)"
  proof -
    have "32 - length v + (length v - length ?r) = 32 - length ?r" using r m(2) by arith
    then show ?thesis unfolding m(4) by (metis of_nat_add)
  qed
  show ?thesis
    unfolding synch_header_def len nat_int hdr_offset_def m(3) WP_Ptr.case b(1) Let_def prod.case n u left
    using m(1,2) r b(2,3) by (simp add: hdr_at_def del: of_nat_diff)
qed

lemma hdr_rx_synch:
  assumes "hdr_rx ReceiveState_WaitingForHeader v m"
  shows "hdr_rx (if 8 \<le> length (resync v) then ReceiveState_ReadingHeader else ReceiveState_WaitingForHeader)
    (resync v) (synch_header m)"
proof -
  have "m_payload (synch_header m) = m_payload m"
    by (simp add: synch_header_def Let_def split: prod.split)
  then show ?thesis using hdr_at_synch [of v m] assms by (simp add: hdr_rx_def)
qed

lemma sint_le_unat: "sint (w :: u32) \<le> int (unat w)"
  by (simp add: sint_uint signed_take_bit_int_less_eq_self_iff) (rule order_trans [of _ 0], simp_all)

lemma hdr_rx_set: "hdr_rx st w m \<Longrightarrow> hdr_rx st' w (m\<lparr>m_rxState := st'\<rparr>)"
  by (simp add: hdr_rx_def hdr_at_def)

lemma wait_phase:
  assumes "stream_phy L inp" "is_marker M"
    and "hdr_rx ReceiveState_WaitingForHeader w (m_inboundMessage c)" "length w < 8"
    and "w @ inp (m_state c) = junk @ M @ t" "no_marker junk M"
  shows "\<exists>c' w'. Process L c = Process L c' \<and> hdr_rx ReceiveState_ReadingHeader w' (m_inboundMessage c') \<and>
    w' @ inp (m_state c') = M @ t"
  using assms(3-6)
proof (induction "length (inp (m_state c))" arbitrary: c w junk rule: less_induct)
  case less
  have "length (junk @ M @ t) \<ge> 8" using is_marker_length [OF assms(2)] by simp
  then have ne: "inp (m_state c) \<noteq> []" using less.prems(2,3) by (metis append_Nil2 not_le)
  have "length w < 32" using less.prems(2) by simp
  from receive_header [OF assms(1) less.prems(1) this ne]
  obtain bs c1 where c1: "Phy_Receive L c = Some (True, c1)" "bs \<noteq> []"
    "hdr_rx ReceiveState_WaitingForHeader (w @ bs) (m_inboundMessage c1)"
    "inp (m_state c) = bs @ inp (m_state c1)" by blast
  let ?r = "resync (w @ bs)" and ?c = "c1\<lparr>m_inboundMessage := synch_header (m_inboundMessage c1)\<rparr>"
  have step: "Process L c = Process L ?c"
    using less.prems(1) c1(1)
    by (intro Process_continue) (simp add: Process_step_def hdr_rx_def hdr_at_def ReceiveState_defs)
  have "(w @ bs) @ inp (m_state c1) = junk @ M @ t" using less.prems(3) c1(4) by simp
  from resync_stream [OF assms(2) less.prems(4) this]
  obtain junk' where j: "?r @ inp (m_state c1) = junk' @ M @ t" "no_marker junk' M"
    "8 \<le> length ?r \<longrightarrow> junk' = []" by blast
  show ?case
  proof (cases "8 \<le> length ?r")
    case True
    then show ?thesis using hdr_rx_synch [OF c1(3)] j step
      by (intro exI [of _ ?c] exI [of _ ?r]) simp
  next
    case False
    have "length (inp (m_state ?c)) < length (inp (m_state c))" using c1(2,4) by simp
    moreover have "hdr_rx ReceiveState_WaitingForHeader ?r (m_inboundMessage ?c)"
      using hdr_rx_synch [OF c1(3)] False by simp
    ultimately show ?thesis using less.hyps [of ?c ?r junk'] False j(1,2) unfolding step by simp
  qed
qed

lemma header_full: "hdr_rx st w m \<Longrightarrow> length w = 32 \<Longrightarrow> m_header m = WP_Packet_at w"
  unfolding hdr_rx_def hdr_at_def by (metis WP_Packet_at_bytes WP_Packet_bytes_length order_refl take_all)

lemma hdr_rx_left: "hdr_rx st w m \<Longrightarrow> m_left m = 0 \<longleftrightarrow> length w = 32"
proof -
  assume h: "hdr_rx st w m"
  have "unat (m_left m) = 32 - length w"
    using h unat_u32 [of "32 - length w"] unfolding hdr_rx_def hdr_at_def by (simp del: of_nat_diff)
  moreover have "length w \<le> 32" using h by (simp add: hdr_rx_def hdr_at_def)
  ultimately show ?thesis by (auto simp: unat_eq_0 [symmetric])
qed

lemma store_bytes_Nil:
  "m_pos m = HeaderPtr p \<Longrightarrow> p \<le> 32 \<Longrightarrow> length (m_signature (m_header m)) = 8 \<Longrightarrow> store_bytes [] m = Some m"
  by (cases m) (simp add: store_bytes_def sizeof_WP_Packet_def patch_def)

lemma read_phase:
  assumes "stream_phy L inp" "length hb = 32"
    and "hdr_rx ReceiveState_ReadingHeader w (m_inboundMessage c)" "w @ inp (m_state c) = hb @ rest"
  shows "\<exists>c'. Process L c = Process L c' \<and> inp (m_state c') = rest \<and>
    hdr_rx ReceiveState_CompleteHeader hb (m_inboundMessage c')"
  using assms(3,4)
proof (induction "length (inp (m_state c))" arbitrary: c w rule: less_induct)
  case less
  have w32: "length w \<le> 32" using less.prems(1) by (simp add: hdr_rx_def hdr_at_def)
  show ?case
  proof (cases "length w = 32")
    case True
    have w: "w = hb" "inp (m_state c) = rest" using less.prems(2) True assms(2) by auto
    have "ReceiveBytes L (m_state c) (m_left (m_inboundMessage c)) = (True, [], m_state c)"
      using assms(1) hdr_rx_left [OF less.prems(1)] True by (simp add: stream_phy_def)
    moreover have "store_bytes [] (m_inboundMessage c) = Some (m_inboundMessage c)"
      using less.prems(1) by (intro store_bytes_Nil) (auto simp: hdr_rx_def hdr_at_def)
    ultimately have "Process_step L c = Some (None, set_rx ReceiveState_CompleteHeader c)"
      using less.prems(1) hdr_rx_left [OF less.prems(1)] True
      by (simp add: Process_step_def Phy_Receive_def hdr_rx_def hdr_at_def ReceiveState_defs)
    then show ?thesis using hdr_rx_set [OF less.prems(1)] w
      by (intro exI [of _ "set_rx ReceiveState_CompleteHeader c"]) (simp add: Process_continue)
  next
    case False
    have lt: "length w < 32" using False w32 by simp
    then have ne: "inp (m_state c) \<noteq> []" using less.prems(2) assms(2) by (metis append_Nil2 length_append not_add_less1)
    from receive_header [OF assms(1) less.prems(1) lt ne]
    obtain bs c1 where c1: "Phy_Receive L c = Some (True, c1)" "bs \<noteq> []"
      "hdr_rx ReceiveState_ReadingHeader (w @ bs) (m_inboundMessage c1)"
      "inp (m_state c) = bs @ inp (m_state c1)" by blast
    have eq: "(w @ bs) @ inp (m_state c1) = hb @ rest" using less.prems(2) c1(4) by simp
    let ?c = "if m_left (m_inboundMessage c1) = 0 then set_rx ReceiveState_CompleteHeader c1 else c1"
    have step: "Process L c = Process L ?c"
      using less.prems(1) c1(1)
      by (intro Process_continue) (simp add: Process_step_def hdr_rx_def hdr_at_def ReceiveState_defs)
    show ?thesis
    proof (cases "length (w @ bs) = 32")
      case True
      then have "w @ bs = hb" "inp (m_state c1) = rest" using eq assms(2) by (metis append_eq_append_conv)+
      then show ?thesis using hdr_rx_set [OF c1(3)] step hdr_rx_left [OF c1(3)] True
        by (intro exI [of _ ?c]) simp
    next
      case 2: False
      have "length (inp (m_state c1)) < length (inp (m_state c))" using c1(2,4) by simp
      from less.hyps [OF this c1(3) eq] show ?thesis using step hdr_rx_left [OF c1(3)] 2 by simp
    qed
  qed
qed

lemma complete_header_phase:
  assumes "accepts L inp" "hdr_rx ReceiveState_CompleteHeader (WP_Packet_bytes h) (m_inboundMessage c)"
    and "length (m_signature h) = 8" "m_crcHeader h = foldl crc_step 0 (WP_Packet_bytes (h\<lparr>m_crcHeader := 0\<rparr>))"
  shows "\<exists>c'. Process L c = Process L c' \<and> inp (m_state c') = inp (m_state c) \<and>
    (if m_size h = 0 then m_rxState (m_inboundMessage c') = ReceiveState_CompletePayload \<and>
        m_header (m_inboundMessage c') = h \<and> m_payload (m_inboundMessage c') = None
     else pay_rx h [] (m_inboundMessage c') \<and>
        m_payloadTicks (m_inboundMessage c') = CurrentTicks L (m_state c'))"
proof -
  let ?m = "m_inboundMessage c"
  have h: "m_header ?m = h" using header_full [OF assms(2)] assms(3) by simp
  have v: "VerifyHeader ?m = Some True" using assms(3,4) h by (simp add: VerifyHeader_iff)
  have m: "m_rxState ?m = ReceiveState_CompleteHeader" "m_payload ?m = None"
    using assms(2) by (simp_all add: hdr_rx_def hdr_at_def)
  obtain c1 p where c1: "ProcessHeader L c = (True, c1)" "inp (m_state c1) = inp (m_state c)"
    "m_inboundMessage c1 = ?m\<lparr>m_payload := p\<rparr>"
    "if m_size h = 0 then p = None else \<exists>buf. p = Some buf \<and> length buf = unat (m_size h)"
    using assms(1) h m(2) unfolding accepts_def by metis
  have step: "Process_step L c = map_option (Pair None) (rx_CompleteHeader L c)"
    using m(1) by (simp add: Process_step_def ReceiveState_defs)
  show ?thesis
  proof (cases "m_size h = 0")
    case True
    have "rx_CompleteHeader L c = Some (set_rx ReceiveState_CompletePayload c1)"
      using True h c1 v by (simp add: rx_CompleteHeader_def)
    then show ?thesis using step True c1 h
      by (intro exI [of _ "set_rx ReceiveState_CompletePayload c1"]) (simp add: Process_continue)
  next
    case False
    then obtain buf where p: "p = Some buf" "length buf = unat (m_size h)" using c1(4) by auto
    let ?c = "c1\<lparr>m_inboundMessage := (m_inboundMessage c1)\<lparr>m_payloadTicks := CurrentTicks L (m_state c1),
      m_rxState := ReceiveState_ReadingPayload, m_pos := PayloadPtr 0, m_left := m_size h\<rparr>\<rparr>"
    have "rx_CompleteHeader L c = Some ?c"
      using False h c1 v p by (simp add: rx_CompleteHeader_def)
    then have "Process L c = Process L ?c" using step by (intro Process_continue) simp
    then show ?thesis using False c1 h p by (intro exI [of _ ?c]) (simp add: pay_rx_def)
  qed
qed

lemma pay_rx_left: "pay_rx h w m \<Longrightarrow> m_left m = 0 \<longleftrightarrow> length w = unat (m_size h)"
proof -
  assume p: "pay_rx h w m"
  have l: "length w \<le> unat (m_size h)" "m_left m = word_of_nat (unat (m_size h) - length w)"
    using p unfolding pay_rx_def by (metis (lifting))+
  have "unat (m_left m) = unat (m_size h) - length w"
    unfolding l(2) by (rule unat_u32) (use unsigned_less [of "m_size h", where 'a = nat] in simp)
  then show ?thesis using l(1) by (auto simp: unat_eq_0 [symmetric])
qed

lemma payload_phase:
  assumes "stream_phy L inp" "timely L" "length pl = unat (m_size h)"
    and "pay_rx h w (m_inboundMessage c)" "w @ inp (m_state c) = pl @ rest" "length w < length pl"
    and "TicksToTime L (CurrentTicks L (m_state c) - m_payloadTicks (m_inboundMessage c)) < c_PayloadTimeout"
  shows "\<exists>c'. Process L c = Process L c' \<and> inp (m_state c') = rest \<and>
    m_rxState (m_inboundMessage c') = ReceiveState_CompletePayload \<and>
    m_header (m_inboundMessage c') = h \<and> m_payload (m_inboundMessage c') = Some pl"
  using assms(4-7)
proof (induction "length (inp (m_state c))" arbitrary: c w rule: less_induct)
  case less
  let ?cur = "CurrentTicks L (m_state c)"
  let ?m = "(m_inboundMessage c)\<lparr>m_payloadTicks := ?cur\<rparr>"
  let ?d = "c\<lparr>m_inboundMessage := ?m\<rparr>"
  have ne: "inp (m_state ?d) \<noteq> []" using less.prems(2,3) by (auto dest: arg_cong [of _ _ length])
  have pr: "pay_rx h w ?m" using less.prems(1) by (simp add: pay_rx_def)
  have lt: "length w < unat (m_size h)" using less.prems(3) assms(3) by simp
  have "m_inboundMessage ?d = ?m" by simp
  from receive_payload [OF assms(1) pr lt ne this]
  obtain bs c1 where c1: "Phy_Receive L ?d = Some (True, c1)" "bs \<noteq> []"
    "length (w @ bs) \<le> unat (m_size h)" "pay_rx h (w @ bs) (m_inboundMessage c1)"
    "inp (m_state c) = bs @ inp (m_state c1)" "m_payloadTicks (m_inboundMessage c1) = ?cur"
    "m_state c1 = snd (snd (ReceiveBytes L (m_state c) (m_left ?m)))" by auto
  have eq: "(w @ bs) @ inp (m_state c1) = pl @ rest" using less.prems(2) c1(5) by simp
  let ?c = "if m_left (m_inboundMessage c1) = 0 then set_rx ReceiveState_CompletePayload c1 else c1"
  have step: "Process L c = Process L ?c"
    using less.prems(1,4) c1(1)
    by (intro Process_continue) (simp add: Process_step_def pay_rx_def ReceiveState_defs)
  show ?case
  proof (cases "length (w @ bs) = unat (m_size h)")
    case True
    then have w: "w @ bs = pl" "inp (m_state c1) = rest" using eq assms(3) by (metis append_eq_append_conv)+
    obtain buf where "m_payload (m_inboundMessage c1) = Some buf" "length buf = unat (m_size h)"
      "take (length (w @ bs)) buf = w @ bs" "m_header (m_inboundMessage c1) = h"
      using c1(4) unfolding pay_rx_def by blast
    then show ?thesis using w step pay_rx_left [OF c1(4)] True assms(3)
      by (intro exI [of _ ?c]) simp
  next
    case False
    have "length (inp (m_state c1)) < length (inp (m_state c))" using c1(2,5) by simp
    moreover have "length (w @ bs) < length pl" using c1(3) False assms(3) by simp
    moreover have "TicksToTime L (CurrentTicks L (m_state c1) - m_payloadTicks (m_inboundMessage c1)) < c_PayloadTimeout"
      using assms(2) unfolding timely_def c1(6,7) by blast
    ultimately show ?thesis using less.hyps [of c1 "w @ bs"] c1(4) eq step pay_rx_left [OF c1(4)] False by simp
  qed
qed

lemma complete_payload_phase:
  assumes "m_rxState (m_inboundMessage c) = ReceiveState_CompletePayload" "VerifyPayload (m_inboundMessage c) = Some True"
  shows "Process L c = (case ProcessPayload L c of None \<Rightarrow> None
    | Some (b, c') \<Rightarrow> Process L (set_rx ReceiveState_Initialize c'))"
  using assms by (subst Process.simps)
    (auto simp: Process_step_def rx_CompletePayload_def ReceiveState_defs split: option.split)

lemma initialize_phase:
  assumes "m_rxState (m_inboundMessage c) = ReceiveState_Initialize" "accepts L inp"
    "length (m_signature (m_header (m_inboundMessage c))) = 8"
  shows "\<exists>c'. Process L c = Process L c' \<and> inp (m_state c') = inp (m_state c) \<and>
    hdr_rx ReceiveState_WaitingForHeader [] (m_inboundMessage c')"
proof -
  have "Process L c = Process L (rx_Initialize L c)"
    using assms(1) by (intro Process_continue) (simp add: Process_step_def ReceiveState_defs)
  moreover have "inp (m_state (snd (Release L c))) = inp (m_state c) \<and>
      length (m_signature (m_header (m_inboundMessage (snd (Release L c))))) =
      length (m_signature (m_header (m_inboundMessage c)))" using assms(2) by (simp add: accepts_def)
  ultimately show ?thesis using assms(3)
    by (intro exI [of _ "rx_Initialize L c"])
      (auto simp: rx_Initialize_def Message_Release_def hdr_rx_def hdr_at_def Let_def SetPayload_def sizeof_WP_Packet_def)
qed

lemma frame_delivery:
  assumes "stream_phy L inp" "timely L" "accepts L inp"
    and "m_rxState (m_inboundMessage c) = ReceiveState_Initialize"
    and "length (m_signature (m_header (m_inboundMessage c))) = 8"
    and "is_marker (m_signature h)" "sealed h pl" "length pl = unat (m_size h)"
    and "no_marker junk (m_signature h)" "inp (m_state c) = junk @ WP_Packet_bytes h @ pl @ rest"
  shows "\<exists>c1. m_header (m_inboundMessage c1) = h \<and> payload_bytes (m_payload (m_inboundMessage c1)) = pl \<and>
    (m_payload (m_inboundMessage c1) = None \<longleftrightarrow> pl = []) \<and>
    inp (m_state c1) = rest \<and>
    Process L c = (case ProcessPayload L c1 of None \<Rightarrow> None
      | Some (b, c') \<Rightarrow> Process L (set_rx ReceiveState_Initialize c'))"
proof -
  have sig: "length (m_signature h) = 8" using assms(7) by (simp add: sealed_def)
  obtain t where t: "WP_Packet_bytes h = m_signature h @ t" by (simp add: WP_Packet_bytes_def)
  obtain c2 where 2: "Process L c = Process L c2" "inp (m_state c2) = inp (m_state c)"
    "hdr_rx ReceiveState_WaitingForHeader [] (m_inboundMessage c2)"
    using initialize_phase [OF assms(4,3,5)] by blast
  have "[] @ inp (m_state c2) = junk @ m_signature h @ t @ pl @ rest" using 2(2) assms(10) t by simp
  from wait_phase [OF assms(1,6) 2(3) _ this assms(9)]
  obtain c3 w where 3: "Process L c2 = Process L c3" "hdr_rx ReceiveState_ReadingHeader w (m_inboundMessage c3)"
    "w @ inp (m_state c3) = m_signature h @ t @ pl @ rest" by auto
  have "w @ inp (m_state c3) = WP_Packet_bytes h @ pl @ rest" using 3(3) t by simp
  from read_phase [OF assms(1) WP_Packet_bytes_length [OF sig] 3(2) this]
  obtain c4 where 4: "Process L c3 = Process L c4" "inp (m_state c4) = pl @ rest"
    "hdr_rx ReceiveState_CompleteHeader (WP_Packet_bytes h) (m_inboundMessage c4)" by blast
  have crc: "m_crcHeader h = foldl crc_step 0 (WP_Packet_bytes (h\<lparr>m_crcHeader := 0\<rparr>))"
    using assms(7) by (simp add: sealed_def)
  obtain c5 where 5: "Process L c4 = Process L c5" "inp (m_state c5) = pl @ rest"
    "if m_size h = 0 then m_rxState (m_inboundMessage c5) = ReceiveState_CompletePayload \<and>
        m_header (m_inboundMessage c5) = h \<and> m_payload (m_inboundMessage c5) = None
     else pay_rx h [] (m_inboundMessage c5) \<and>
        m_payloadTicks (m_inboundMessage c5) = CurrentTicks L (m_state c5)"
    using complete_header_phase [OF assms(3) 4(3) sig crc] 4(2) by metis
  obtain c6 where 6: "Process L c5 = Process L c6" "inp (m_state c6) = rest"
    "m_rxState (m_inboundMessage c6) = ReceiveState_CompletePayload" "m_header (m_inboundMessage c6) = h"
    "payload_bytes (m_payload (m_inboundMessage c6)) = pl"
    "m_payload (m_inboundMessage c6) = None \<longleftrightarrow> pl = []"
  proof (cases "m_size h = 0")
    case True
    then show ?thesis using 5 assms(8) by (intro that [of c5]) (simp_all add: payload_bytes_def)
  next
    case False
    have ne: "pl \<noteq> []" using False assms(8) by (auto simp: unat_eq_0)
    have "\<exists>c'. Process L c5 = Process L c' \<and> inp (m_state c') = rest \<and>
        m_rxState (m_inboundMessage c') = ReceiveState_CompletePayload \<and>
        m_header (m_inboundMessage c') = h \<and> m_payload (m_inboundMessage c') = Some pl"
      using 5(2,3) False ne assms(2)
      by (intro payload_phase [OF assms(1,2,8), of "[]"]) (simp_all add: timely_def)
    then show ?thesis using that ne by (auto simp: payload_bytes_def)
  qed
  have "VerifyPayload (m_inboundMessage c6) = Some True"
  proof (rule sealed_verifies(2))
    show "sealed (m_header (m_inboundMessage c6)) (payload_bytes (m_payload (m_inboundMessage c6)))"
      using assms(7) 6 by simp
    show "sint (m_size (m_header (m_inboundMessage c6))) \<le> int (length (payload_bytes (m_payload (m_inboundMessage c6))))"
      unfolding 6(4,5) assms(8) by (rule sint_le_unat)
    show "m_payload (m_inboundMessage c6) = None \<longrightarrow> m_size (m_header (m_inboundMessage c6)) = 0"
      using 6(4,6) assms(8) by (auto simp: unat_eq_0)
  qed
  from complete_payload_phase [OF 6(3) this]
  show ?thesis using 2(1) 3(1) 4(1) 5(1) 6 by (intro exI [of _ c6]) simp
qed

lemma exhausted:
  assumes "stream_phy L inp" "accepts L inp" "inp (m_state c) = []"
    and "m_rxState (m_inboundMessage c) = ReceiveState_Initialize"
    and "length (m_signature (m_header (m_inboundMessage c))) = 8"
  shows "\<exists>c'. Process L c = Some (True, c') \<and> hdr_rx ReceiveState_WaitingForHeader [] (m_inboundMessage c')"
proof -
  obtain c2 where 2: "Process L c = Process L c2" "inp (m_state c2) = []"
    "hdr_rx ReceiveState_WaitingForHeader [] (m_inboundMessage c2)"
    using initialize_phase [OF assms(4,2,5)] assms(3) by auto
  let ?m = "m_inboundMessage c2"
  have m: "m_left ?m \<noteq> 0" "store_bytes [] ?m = Some ?m" "m_rxState ?m = ReceiveState_WaitingForHeader"
    using hdr_rx_left [OF 2(3)] store_bytes_Nil [of ?m 0] 2(3) by (simp_all add: hdr_rx_def hdr_at_def)
  have "ReceiveBytes L (m_state c2) (m_left ?m) = (False, [], m_state c2)"
    using assms(1) m(1) 2(2) unfolding stream_phy_def by blast
  then have "Process_step L c2 = Some (Some True, c2)"
    using m(2,3) by (simp add: Process_step_def ReceiveState_defs Phy_Receive_def)
  then show ?thesis using 2 Process_return by metis
qed

section \<open>Memory safety of the receiver\<close>

text \<open>The physical layer stores no more bytes than it is asked for.\<close>

definition phy_bounded :: "'s WP_Layers \<Rightarrow> bool" where
  "phy_bounded L \<longleftrightarrow> (\<forall>s n. length (fst (snd (ReceiveBytes L s n))) \<le> unat n)"

text \<open>
  The application leaves the private receive state alone; when it accepts a header it has
  provided no payload block or one that is large enough.
\<close>

definition app_ok :: "'s WP_Layers \<Rightarrow> bool" where
  "app_ok L \<longleftrightarrow>
     (\<forall>c. m_szMarker (snd (Release L c)) = m_szMarker c \<and>
        length (m_signature (m_header (m_inboundMessage (snd (Release L c))))) =
        length (m_signature (m_header (m_inboundMessage c)))) \<and>
     (\<forall>c. copy_marker (m_szMarker c) \<noteq> None \<and> length (m_signature (m_header (m_inboundMessage c))) = 8 \<longrightarrow>
        (\<exists>b c1. ProcessPayload L c = Some (b, c1) \<and> m_szMarker c1 = m_szMarker c \<and>
           length (m_signature (m_header (m_inboundMessage c1))) = 8)) \<and>
     (\<forall>c ok c1. ProcessHeader L c = (ok, c1) \<longrightarrow> m_szMarker c1 = m_szMarker c \<and>
        (\<exists>p. m_inboundMessage c1 = (m_inboundMessage c)\<lparr>m_payload := p\<rparr> \<and>
           (\<forall>buf. ok \<longrightarrow> p = Some buf \<longrightarrow> unat (m_size (m_header (m_inboundMessage c))) \<le> length buf)))"

definition rx_ok :: "WP_Message \<Rightarrow> bool" where
  "rx_ok m \<longleftrightarrow> length (m_signature (m_header m)) = 8 \<and>
     m_rxState m \<in> {ReceiveState_Idle..ReceiveState_CompletePayload} \<and>
     (m_rxState m = ReceiveState_WaitingForHeader \<longrightarrow>
        (\<exists>w. hdr_at ReceiveState_WaitingForHeader w m)) \<and>
     (m_rxState m = ReceiveState_ReadingHeader \<longrightarrow>
        (\<exists>w. 8 \<le> length w \<and> hdr_at ReceiveState_ReadingHeader w m \<and> is_marker (take 8 w))) \<and>
     (m_rxState m = ReceiveState_CompleteHeader \<longrightarrow> is_marker (m_signature (m_header m))) \<and>
     (m_rxState m = ReceiveState_ReadingPayload \<longrightarrow>
        (\<exists>p buf. m_payload m = Some buf \<and> m_pos m = PayloadPtr p \<and>
           p + unat (m_left m) = unat (m_size (m_header m)) \<and> unat (m_size (m_header m)) \<le> length buf)) \<and>
     (m_rxState m = ReceiveState_CompletePayload \<longrightarrow>
        m_size (m_header m) = 0 \<or>
        (\<exists>buf. m_payload m = Some buf \<and> unat (m_size (m_header m)) \<le> length buf))"

lemma receive_header_at:
  assumes "phy_bounded L" "hdr_at st w (m_inboundMessage c)"
  shows "\<exists>ok bs c'. Phy_Receive L c = Some (ok, c') \<and> hdr_at st (w @ bs) (m_inboundMessage c') \<and>
    m_szMarker c' = m_szMarker c"
proof -
  let ?m = "m_inboundMessage c" and ?buf = "WP_Packet_bytes (m_header (m_inboundMessage c))"
  obtain ok bs s' where r: "ReceiveBytes L (m_state c) (m_left ?m) = (ok, bs, s')" by (metis prod_cases3)
  have h: "length w \<le> 32" "m_left ?m = word_of_nat (32 - length w)" "length ?buf = 32"
    "take (length w) ?buf = w" "m_pos ?m = HeaderPtr (length w)" "m_rxState ?m = st"
    using assms(2) unfolding hdr_at_def by simp_all
  have "length bs \<le> unat (m_left ?m)" using assms(1) r unfolding phy_bounded_def by (metis fst_conv snd_conv)
  also have "unat (m_left ?m) = 32 - length w" unfolding h(2) by (rule unat_u32) simp
  finally have l: "length bs \<le> 32 - length w" "length w + length bs \<le> 32" using h(1) by simp_all
  have t: "take (length w + length bs) (patch ?buf (length w) bs) = w @ bs"
    using h l by (simp add: patch_take)
  show ?thesis using h r l t
    by (auto simp: hdr_at_def Phy_Receive_def store_bytes_def sizeof_WP_Packet_def word_diff_nat)
qed

lemma unat_minus_nat: "k \<le> unat (w :: u32) \<Longrightarrow> unat (w - word_of_nat k) = unat w - k"
proof -
  assume "k \<le> unat w"
  then have "w - word_of_nat k = word_of_nat (unat w - k)"
    using word_diff_nat [of k "unat w"] by simp
  then show ?thesis
    using unat_u32 [of "unat w - k"] unsigned_less [of w, where 'a = nat] by simp
qed

definition pay_at :: "WP_Message \<Rightarrow> bool" where
  "pay_at m \<longleftrightarrow> m_rxState m = ReceiveState_ReadingPayload \<and> length (m_signature (m_header m)) = 8 \<and>
     (\<exists>p buf. m_payload m = Some buf \<and> m_pos m = PayloadPtr p \<and>
        p + unat (m_left m) = unat (m_size (m_header m)) \<and> unat (m_size (m_header m)) \<le> length buf)"

lemma receive_payload_at:
  assumes "phy_bounded L" "pay_at (m_inboundMessage c)"
  shows "\<exists>ok c'. Phy_Receive L c = Some (ok, c') \<and> pay_at (m_inboundMessage c') \<and> m_szMarker c' = m_szMarker c"
proof -
  let ?m = "m_inboundMessage c"
  obtain ok bs s' where r: "ReceiveBytes L (m_state c) (m_left ?m) = (ok, bs, s')" by (metis prod_cases3)
  obtain p buf where b: "m_payload ?m = Some buf" "m_pos ?m = PayloadPtr p"
    "p + unat (m_left ?m) = unat (m_size (m_header ?m))" "unat (m_size (m_header ?m)) \<le> length buf"
    using assms(2) unfolding pay_at_def by blast
  have l: "length bs \<le> unat (m_left ?m)" using assms(1) r unfolding phy_bounded_def by (metis fst_conv snd_conv)
  have u: "unat (m_left ?m - word_of_nat (length bs)) = unat (m_left ?m) - length bs"
    using l by (rule unat_minus_nat)
  have "p + length bs \<le> length buf" "p + length bs + (unat (m_left ?m) - length bs) = unat (m_size (m_header ?m))"
    using b(3,4) l by arith+
  then show ?thesis using b r u assms(2)
    by (simp add: pay_at_def Phy_Receive_def store_bytes_def)
qed

lemma rx_ok_simple:
  assumes "length (m_signature (m_header m)) = 8" "m_rxState m = ReceiveState_Idle \<or> m_rxState m = ReceiveState_Initialize"
  shows "rx_ok m"
  using assms by (auto simp: rx_ok_def ReceiveState_defs)

lemma rx_ok_header:
  assumes "hdr_at st w m"
    and "st = ReceiveState_WaitingForHeader \<or>
      (st = ReceiveState_ReadingHeader \<or> st = ReceiveState_CompleteHeader) \<and> 8 \<le> length w \<and> is_marker (take 8 w)"
  shows "rx_ok m"
proof -
  have sig: "length (m_signature (m_header m)) = 8" "m_rxState m = st" "take (length w) (WP_Packet_bytes (m_header m)) = w"
    using assms(1) unfolding hdr_at_def by blast+
  have "take 8 w = m_signature (m_header m)" if "8 \<le> length w"
  proof -
    have "take 8 w = take 8 (take (length w) (WP_Packet_bytes (m_header m)))" by (simp only: sig(3))
    also have "\<dots> = take 8 (WP_Packet_bytes (m_header m))" using that by (simp add: min_def)
    also have "\<dots> = m_signature (m_header m)" using sig(1) by (simp add: WP_Packet_bytes_def)
    finally show ?thesis .
  qed
  with assms sig show ?thesis by (auto simp: rx_ok_def ReceiveState_defs)
qed

lemma rx_ok_payload: "pay_at m \<Longrightarrow> rx_ok m"
  unfolding pay_at_def rx_ok_def by (auto simp: ReceiveState_defs)

lemma pay_at_done:
  assumes "pay_at m" shows "rx_ok (m\<lparr>m_rxState := ReceiveState_CompletePayload\<rparr>)"
  using assms unfolding pay_at_def rx_ok_def by (auto simp: ReceiveState_defs)

lemma ReplyBadPacket_eq:
  assumes "copy_marker (m_szMarker c) = Some sig"
  shows "ReplyBadPacket L flags c =
    (let msg = WP_Message_Initialize\<lparr>m_header := request_header sig 0 (c_NonCritical OR c_NACK OR flags) 0 []
           (m_lastOutboundMessage c) 0\<rparr>
     in Some (c\<lparr>m_lastOutboundMessage := m_lastOutboundMessage c + 1,
            m_state := snd (TransmitMessage L (m_state c) msg)\<rparr>))"
proof -
  have "payload_bytes None = []" by (simp add: payload_bytes_def)
  moreover have "WP_Message_Initialize\<lparr>m_header := h, m_payload := None\<rparr> = WP_Message_Initialize\<lparr>m_header := h\<rparr>" for h
    by (simp add: WP_Message_Initialize_def)
  ultimately show ?thesis
    by (simp add: ReplyBadPacket_def PrepareRequest_eq [OF assms] SendMessage_def Let_def split: prod.split)
qed

lemma rx_CompleteHeader_ok:
  assumes "app_ok L" "copy_marker (m_szMarker c) = Some sig" "length (m_signature (m_header (m_inboundMessage c))) = 8"
  shows "\<exists>c'. rx_CompleteHeader L c = Some c' \<and> rx_ok (m_inboundMessage c') \<and> m_szMarker c' = m_szMarker c"
proof -
  obtain good where v: "VerifyHeader (m_inboundMessage c) = Some good" using assms(3) by (auto simp: VerifyHeader_iff)
  obtain ok c1 where c1: "(if good then ProcessHeader L c else (False, c)) = (ok, c1)" by (meson surj_pair)
  have "\<exists>p. m_szMarker c1 = m_szMarker c \<and> m_inboundMessage c1 = (m_inboundMessage c)\<lparr>m_payload := p\<rparr> \<and>
      (\<forall>buf. ok \<longrightarrow> p = Some buf \<longrightarrow> unat (m_size (m_header (m_inboundMessage c))) \<le> length buf)"
  proof (cases good)
    case True
    then show ?thesis using assms(1) c1 unfolding app_ok_def by auto
  next
    case False
    then show ?thesis using c1 by (intro exI [of _ "m_payload (m_inboundMessage c)"]) auto
  qed
  then obtain p where p: "m_szMarker c1 = m_szMarker c" "m_inboundMessage c1 = (m_inboundMessage c)\<lparr>m_payload := p\<rparr>"
    "\<And>buf. ok \<Longrightarrow> p = Some buf \<Longrightarrow> unat (m_size (m_header (m_inboundMessage c))) \<le> length buf" by blast
  show ?thesis
  proof (cases ok)
    case True
    then show ?thesis using v c1 p assms(3)
      by (cases p) (auto simp: rx_CompleteHeader_def rx_ok_def ReceiveState_defs Let_def)
  next
    case False
    have "copy_marker (m_szMarker c1) = Some sig" using assms(2) p(1) by simp
    then show ?thesis using v c1 p assms(3) False
      by (auto simp: rx_CompleteHeader_def ReplyBadPacket_eq Let_def intro!: rx_ok_simple)
  qed
qed

lemma rx_CompletePayload_ok:
  assumes "app_ok L" "copy_marker (m_szMarker c) = Some sig"
    and "rx_ok (m_inboundMessage c)" "m_rxState (m_inboundMessage c) = ReceiveState_CompletePayload"
  shows "\<exists>c'. rx_CompletePayload L c = Some c' \<and> rx_ok (m_inboundMessage c') \<and> m_szMarker c' = m_szMarker c"
proof -
  let ?m = "m_inboundMessage c"
  have pl: "m_size (m_header ?m) = 0 \<or> (\<exists>buf. m_payload ?m = Some buf \<and> unat (m_size (m_header ?m)) \<le> length buf)"
    using assms(3,4) by (simp add: rx_ok_def)
  have sig: "length (m_signature (m_header ?m)) = 8" using assms(3) by (simp add: rx_ok_def)
  have "unat (m_size (m_header ?m)) \<le> length (payload_bytes (m_payload ?m))"
    using pl by (auto simp: payload_bytes_def)
  then have "sint (m_size (m_header ?m)) \<le> int (length (payload_bytes (m_payload ?m)))"
    using sint_le_unat [of "m_size (m_header ?m)"] by (meson of_nat_mono order_trans)
  moreover have "m_payload ?m = None \<longrightarrow> m_size (m_header ?m) = 0" using pl by auto
  ultimately obtain good where v: "VerifyPayload ?m = Some good" by (simp add: VerifyPayload_iff)
  have "copy_marker (m_szMarker c) \<noteq> None" using assms(2) by simp
  then have "\<exists>b c1. ProcessPayload L c = Some (b, c1) \<and> m_szMarker c1 = m_szMarker c \<and>
      length (m_signature (m_header (m_inboundMessage c1))) = 8"
    using assms(1) sig unfolding app_ok_def by blast
  then show ?thesis using v assms(2) sig
    by (cases good) (auto simp: rx_CompletePayload_def ReplyBadPacket_eq Let_def intro!: rx_ok_simple)
qed

lemma rx_Initialize_ok:
  assumes "app_ok L" "length (m_signature (m_header (m_inboundMessage c))) = 8"
  shows "rx_ok (m_inboundMessage (rx_Initialize L c)) \<and> m_szMarker (rx_Initialize L c) = m_szMarker c"
proof -
  have "m_szMarker (snd (Release L c)) = m_szMarker c"
    "length (m_signature (m_header (m_inboundMessage (snd (Release L c))))) = 8"
    using assms by (simp_all add: app_ok_def)
  then show ?thesis using assms(2)
    by (intro conjI rx_ok_header [of ReceiveState_WaitingForHeader "[]"])
      (auto simp: rx_Initialize_def Message_Release_def hdr_at_def Let_def SetPayload_def sizeof_WP_Packet_def)
qed

definition may_wait :: "int \<Rightarrow> bool" where
  "may_wait st \<longleftrightarrow> st = ReceiveState_Idle \<or> st = ReceiveState_WaitingForHeader \<or>
     st = ReceiveState_ReadingHeader \<or> st = ReceiveState_ReadingPayload"

lemma Process_step_ok:
  assumes "phy_bounded L" "app_ok L" "copy_marker (m_szMarker c) \<noteq> None" "rx_ok (m_inboundMessage c)"
  shows "\<exists>r c'. Process_step L c = Some (r, c') \<and> rx_ok (m_inboundMessage c') \<and> m_szMarker c' = m_szMarker c \<and>
    (\<forall>b. r = Some b \<longrightarrow> b \<and> may_wait (m_rxState (m_inboundMessage c')))"
proof -
  let ?m = "m_inboundMessage c"
  have sig: "length (m_signature (m_header ?m)) = 8" using assms(4) by (simp add: rx_ok_def)
  obtain s where s: "copy_marker (m_szMarker c) = Some s" using assms(3) by auto
  have "m_rxState ?m \<in> {0..6}" using assms(4) by (simp add: rx_ok_def ReceiveState_defs)
  then consider "m_rxState ?m = 0" | "m_rxState ?m = 1" | "m_rxState ?m = 2" | "m_rxState ?m = 3" |
    "m_rxState ?m = 4" | "m_rxState ?m = 5" | "m_rxState ?m = 6" by fastforce
  then show ?thesis
  proof cases
    case 1
    then show ?thesis using assms(4) by (simp add: Process_step_def ReceiveState_defs may_wait_def)
  next
    case 2
    then show ?thesis using rx_Initialize_ok [OF assms(2) sig] by (simp add: Process_step_def ReceiveState_defs)
  next
    case 3
    then obtain w where "hdr_at ReceiveState_WaitingForHeader w ?m"
      using assms(4) by (auto simp: rx_ok_def ReceiveState_defs)
    from receive_header_at [OF assms(1) this]
    obtain ok bs c' where c': "Phy_Receive L c = Some (ok, c')"
      "hdr_at ReceiveState_WaitingForHeader (w @ bs) (m_inboundMessage c')" "m_szMarker c' = m_szMarker c" by blast
    have "rx_ok (synch_header (m_inboundMessage c'))"
      using hdr_at_synch [OF c'(2)] resync_start_ok [of "w @ bs"]
      by (intro rx_ok_header [OF hdr_at_synch [OF c'(2)]]) (auto simp: start_ok_full)
    moreover have "rx_ok (m_inboundMessage c')" using rx_ok_header [OF c'(2)] by simp
    ultimately show ?thesis using 3 c' by (cases ok) (auto simp: Process_step_def ReceiveState_defs may_wait_def hdr_at_def)
  next
    case 4
    then obtain w where w: "8 \<le> length w" "hdr_at ReceiveState_ReadingHeader w ?m" "is_marker (take 8 w)"
      using assms(4) by (auto simp: rx_ok_def ReceiveState_defs)
    from receive_header_at [OF assms(1) w(2)]
    obtain ok bs c' where c': "Phy_Receive L c = Some (ok, c')"
      "hdr_at ReceiveState_ReadingHeader (w @ bs) (m_inboundMessage c')" "m_szMarker c' = m_szMarker c" by blast
    have d: "hdr_at ReceiveState_CompleteHeader (w @ bs) ((m_inboundMessage c')\<lparr>m_rxState := ReceiveState_CompleteHeader\<rparr>)"
      using c'(2) by (simp add: hdr_at_def)
    have "rx_ok ((m_inboundMessage c')\<lparr>m_rxState := ReceiveState_CompleteHeader\<rparr>)"
      using w(1,3) by (intro rx_ok_header [OF d]) simp
    moreover have "rx_ok (m_inboundMessage c')" using w(1,3) by (intro rx_ok_header [OF c'(2)]) simp
    ultimately show ?thesis using 4 c' by (cases ok) (auto simp: Process_step_def ReceiveState_defs may_wait_def hdr_at_def)
  next
    case 5
    then show ?thesis using rx_CompleteHeader_ok [OF assms(2) s sig] by (auto simp: Process_step_def ReceiveState_defs)
  next
    case 6
    let ?c = "c\<lparr>m_inboundMessage := ?m\<lparr>m_payloadTicks := CurrentTicks L (m_state c)\<rparr>\<rparr>"
    have "pay_at (m_inboundMessage ?c)"
      using 6 assms(4) by (simp add: rx_ok_def pay_at_def ReceiveState_defs)
    from receive_payload_at [OF assms(1) this]
    obtain ok c' where c': "Phy_Receive L ?c = Some (ok, c')" "pay_at (m_inboundMessage c')"
      "m_szMarker c' = m_szMarker c" by auto
    have "rx_ok ((m_inboundMessage c')\<lparr>m_rxState := ReceiveState_CompletePayload\<rparr>)" "rx_ok (m_inboundMessage c')"
      using pay_at_done rx_ok_payload c'(2) by blast+
    moreover have "rx_ok (?m\<lparr>m_rxState := ReceiveState_Initialize\<rparr>)" using sig by (intro rx_ok_simple) simp_all
    moreover have "may_wait (m_rxState (m_inboundMessage c'))" using c'(2) by (simp add: pay_at_def may_wait_def)
    ultimately show ?thesis using 6 c' by (cases ok) (auto simp: Process_step_def ReceiveState_defs Let_def)
  next
    case 7
    then show ?thesis using rx_CompletePayload_ok [OF assms(2) s assms(4)]
      by (auto simp: Process_step_def ReceiveState_defs)
  qed
qed

lemma Process_ok:
  assumes "phy_bounded L" "app_ok L" "Process L c = Some (b, c')"
    and "copy_marker (m_szMarker c) \<noteq> None" "rx_ok (m_inboundMessage c)"
  shows "b \<and> rx_ok (m_inboundMessage c') \<and> may_wait (m_rxState (m_inboundMessage c'))"
proof -
  have "phy_bounded K \<longrightarrow> app_ok K \<longrightarrow> copy_marker (m_szMarker d) \<noteq> None \<longrightarrow>
      rx_ok (m_inboundMessage d) \<longrightarrow> fst y \<and> rx_ok (m_inboundMessage (snd y)) \<and>
      may_wait (m_rxState (m_inboundMessage (snd y)))"
    if "Process K d = Some y" for K and d :: "'a WP_Controller" and y
    using that
  proof (induction rule: Process.raw_induct [rotated, consumes 1])
    case (1 F L c y)
    show ?case
    proof (intro impI)
      assume a: "phy_bounded L" "app_ok L" "copy_marker (m_szMarker c) \<noteq> None" "rx_ok (m_inboundMessage c)"
      from Process_step_ok [OF a] obtain r c1 where s: "Process_step L c = Some (r, c1)" "rx_ok (m_inboundMessage c1)"
        "m_szMarker c1 = m_szMarker c" "\<And>b. r = Some b \<Longrightarrow> b \<and> may_wait (m_rxState (m_inboundMessage c1))" by blast
      show "fst y \<and> rx_ok (m_inboundMessage (snd y)) \<and> may_wait (m_rxState (m_inboundMessage (snd y)))"
      proof (cases r)
        case None
        then have "F L c1 = Some y" using 1(2) s(1) by simp
        from 1(1) [OF this] show ?thesis using a s(2,3) by simp
      next
        case (Some b)
        then show ?thesis using 1(2) s by auto
      qed
    qed
  qed
  from this [OF assms(3)] show ?thesis using assms by simp
qed

section \<open>Properties\<close>

definition tamper_evident :: "WP_Message \<Rightarrow> bool" where
  "tamper_evident m \<longleftrightarrow>
     (\<forall>xs us vs ys. WP_Packet_bytes (m_header m) = xs @ us @ ys \<and> length us = 4 \<and> length vs = 4 \<and> us \<noteq> vs \<and>
        (length xs + 4 \<le> 8 \<or> 12 \<le> length xs) \<longrightarrow>
        VerifyHeader (m\<lparr>m_header := WP_Packet_at (xs @ vs @ ys)\<rparr>) = Some False) \<and>
     (\<forall>xs us vs ys. m_payload m = Some (xs @ us @ ys) \<and> length us = 4 \<and> length vs = 4 \<and> us \<noteq> vs \<and>
        length xs + 4 \<le> nat (sint (m_size (m_header m))) \<longrightarrow>
        VerifyPayload (m\<lparr>m_payload := Some (xs @ vs @ ys)\<rparr>) = Some False)"

lemma damaged_payload:
  assumes "sealed (m_header m) (xs @ us @ ys)" "length us = 4" "length vs = 4" "us \<noteq> vs"
    and "sint (m_size (m_header m)) \<le> int (length (xs @ us @ ys))"
    and "length xs + 4 \<le> nat (sint (m_size (m_header m)))" "m_payload m = Some (xs @ vs @ ys)"
  shows "VerifyPayload m = Some False"
proof -
  let ?n = "nat (sint (m_size (m_header m)))"
  have t: "take ?n (xs @ ws @ ys) = xs @ ws @ take (?n - length xs - 4) ys" if "length ws = 4" for ws
    using assms(6) that by simp
  have "payload_crc (xs @ us @ ys) (m_size (m_header m)) \<noteq> payload_crc (xs @ vs @ ys) (m_size (m_header m))"
    unfolding payload_crc_def t [OF assms(2)] t [OF assms(3)] by (rule crc_fold_burst [OF assms(2-4)])
  moreover have "VerifyPayload m = Some (m_crcData (m_header m) = payload_crc (xs @ vs @ ys) (m_size (m_header m)))"
    using assms(2,3,5,7) VerifyPayload_iff [of m] by (simp add: payload_bytes_def)
  ultimately show ?thesis using assms(1) by (simp add: sealed_def)
qed

lemma sealed_tamper_evident:
  assumes "sealed (m_header m) (payload_bytes (m_payload m))"
    and "sint (m_size (m_header m)) \<le> int (length (payload_bytes (m_payload m)))"
  shows "tamper_evident m"
  unfolding tamper_evident_def
proof (intro conjI allI impI; elim conjE)
  fix xs us vs ys :: "u8 list"
  assume "WP_Packet_bytes (m_header m) = xs @ us @ ys" "length us = 4" "length vs = 4" "us \<noteq> vs"
    "length xs + 4 \<le> 8 \<or> 12 \<le> length xs"
  then show "VerifyHeader (m\<lparr>m_header := WP_Packet_at (xs @ vs @ ys)\<rparr>) = Some False"
    by (rule damaged_header [OF assms(1)])
next
  fix xs us vs ys :: "u8 list"
  assume "m_payload m = Some (xs @ us @ ys)" "length us = 4" "length vs = 4" "us \<noteq> vs"
    "length xs + 4 \<le> nat (sint (m_size (m_header m)))"
  then show "VerifyPayload (m\<lparr>m_payload := Some (xs @ vs @ ys)\<rparr>) = Some False"
    using assms damaged_payload [of "m\<lparr>m_payload := Some (xs @ vs @ ys)\<rparr>" xs us ys vs]
    by (simp add: payload_bytes_def)
qed

text \<open>
  C33. What \<open>PrepareRequest\<close> and \<open>PrepareReply\<close> prepare passes both checks of the receiver, has the
  fields asked for (a reply the sequence number it answers), survives the trip through its 32 bytes
  of memory, and takes the next sequence number. Any change within four consecutive bytes of the
  header outside its checksum field, or of the payload, fails the check.
\<close>

theorem prepared_message_verifies:
  assumes "copy_marker (m_szMarker c) = Some sig"
    and "sint sz \<le> int (length (payload_bytes payload))" "payload = None \<longrightarrow> sz = 0"
  shows "(\<exists>m1. PrepareRequest cmd flags sz payload m c =
        Some (m1, c\<lparr>m_lastOutboundMessage := m_lastOutboundMessage c + 1\<rparr>) \<and>
      VerifyHeader m1 = Some True \<and> VerifyPayload m1 = Some True \<and> tamper_evident m1 \<and>
      WP_Packet_at (WP_Packet_bytes (m_header m1)) = m_header m1 \<and> m_signature (m_header m1) = sig \<and>
      m_cmd (m_header m1) = cmd \<and> m_flags (m_header m1) = flags \<and> m_size (m_header m1) = sz \<and>
      m_seq (m_header m1) = m_lastOutboundMessage c \<and> m_seqReply (m_header m1) = 0) \<and>
    (\<exists>m1. PrepareReply req flags sz payload m c =
        Some (m1, c\<lparr>m_lastOutboundMessage := m_lastOutboundMessage c + 1\<rparr>) \<and>
      VerifyHeader m1 = Some True \<and> VerifyPayload m1 = Some True \<and> tamper_evident m1 \<and>
      WP_Packet_at (WP_Packet_bytes (m_header m1)) = m_header m1 \<and> m_signature (m_header m1) = sig \<and>
      m_cmd (m_header m1) = m_cmd req \<and> m_flags (m_header m1) = flags OR c_Reply \<and> m_size (m_header m1) = sz \<and>
      m_seq (m_header m1) = m_lastOutboundMessage c \<and> m_seqReply (m_header m1) = m_seq req)"
proof -
  have sig: "length sig = 8" using assms(1) by (rule copy_marker_length)
  have "VerifyHeader m1 = Some True \<and> VerifyPayload m1 = Some True \<and> tamper_evident m1 \<and>
      WP_Packet_at (WP_Packet_bytes (m_header m1)) = m_header m1"
    if "m1 = m\<lparr>m_header := request_header sig cm fl sz (payload_bytes payload) sq sr, m_payload := payload\<rparr>"
    for m1 cm fl sq sr
    using sealed_verifies [of m1] sealed_tamper_evident [of m1] request_header_sealed [OF sig] assms(2,3) sig
    unfolding that by simp
  then show ?thesis
    unfolding PrepareRequest_eq [OF assms(1,2)] PrepareReply_eq [OF assms(1,2)] by simp
qed

text \<open>
  A link used in the examples: a stream that hands out at most five bytes at a time, an
  application that accepts everything, and a clock that stands still.
\<close>

definition example_layers :: "u8 list WP_Layers" where
  "example_layers = \<lparr>
     ReceiveBytes = (\<lambda>s n. if n = 0 then (True, [], s) else if s = [] then (False, [], s)
       else (True, take (min 5 (unat n)) s, drop (min 5 (unat n)) s)),
     TransmitMessage = (\<lambda>s msg. (True, s)),
     ProcessHeader = (\<lambda>c. (True, if m_size (m_header (m_inboundMessage c)) = 0 then c
       else c\<lparr>m_inboundMessage := SetPayload (Some (replicate (unat (m_size (m_header (m_inboundMessage c)))) 0))
         (m_inboundMessage c)\<rparr>)),
     ProcessPayload = (\<lambda>c. Some (True, c)), Release = (\<lambda>c. (True, c)),
     CurrentTicks = (\<lambda>s. 0), TicksToTime = (\<lambda>t. t)\<rparr>"

definition example_controller :: "u8 list \<Rightarrow> u8 list WP_Controller" where
  "example_controller s = Controller_Initialize (Some MARKER_PACKET_V1) s"

lemma copy_marker_packet [simp]: "copy_marker (Some MARKER_PACKET_V1) = Some MARKER_PACKET_V1"
  by (simp add: copy_marker_def)

theorem prepared_message_verifies_witness:
  "\<exists>m1. PrepareReply zero_header c_ACK 3 (Some [1, 2, 3]) WP_Message_Initialize (example_controller []) =
      Some (m1, (example_controller [])\<lparr>m_lastOutboundMessage := 1\<rparr>) \<and>
    VerifyHeader m1 = Some True \<and> VerifyPayload m1 = Some True \<and> tamper_evident m1"
  using prepared_message_verifies [of "example_controller []" MARKER_PACKET_V1 3 "Some [1, 2, 3]"
      0 c_ACK WP_Message_Initialize zero_header]
  by (fastforce simp: example_controller_def Controller_Initialize_def payload_bytes_def)

text \<open>
  C34. A message arrives as it was sent: when a receiver at the start of its state machine is given
  a stream in which the bytes of a prepared request follow any bytes that contain no marker, in
  pieces of any size, with pauses that stay under the time-out (\<open>timely\<close>), and the application accepts
  every header and has a buffer for its payload (\<open>accepts\<close>), the application is handed exactly the header and the payload of the request,
  and the receiver goes on with what follows in the stream. If nothing is left to read after the
  application's handler, \<open>Process\<close> returns true and waits for the next header.
\<close>

theorem frame_delivered:
  assumes "stream_phy L inp" "timely L" "accepts L inp"
    and "m_rxState (m_inboundMessage c) = ReceiveState_Initialize"
    and "length (m_signature (m_header (m_inboundMessage c))) = 8"
    and "copy_marker (m_szMarker sender) = Some M" "is_marker M"
    and "PrepareRequest cmd flags sz payload msg0 sender = Some (msg, sender')"
    and "length (payload_bytes payload) = unat sz"
    and "no_marker junk M" "inp (m_state c) = junk @ WP_Packet_bytes (m_header msg) @ payload_bytes payload @ rest"
  shows "\<exists>c1. m_header (m_inboundMessage c1) = m_header msg \<and>
    m_cmd (m_header msg) = cmd \<and> m_flags (m_header msg) = flags \<and>
    payload_bytes (m_payload (m_inboundMessage c1)) = payload_bytes payload \<and> inp (m_state c1) = rest \<and>
    Process L c = (case ProcessPayload L c1 of None \<Rightarrow> None
      | Some (b, c') \<Rightarrow> Process L (set_rx ReceiveState_Initialize c')) \<and>
    (\<forall>b c'. ProcessPayload L c1 = Some (b, c') \<and> inp (m_state c') = [] \<and>
       length (m_signature (m_header (m_inboundMessage c'))) = 8 \<longrightarrow>
       (\<exists>c3. Process L c = Some (True, c3) \<and> m_rxState (m_inboundMessage c3) = ReceiveState_WaitingForHeader))"
proof -
  have sint: "sint sz \<le> int (length (payload_bytes payload))" unfolding assms(9) by (rule sint_le_unat)
  have h: "m_header msg = request_header M cmd flags sz (payload_bytes payload) (m_lastOutboundMessage sender) 0"
    using assms(8) unfolding PrepareRequest_eq [OF assms(6) sint] by auto
  have sealed: "sealed (m_header msg) (payload_bytes payload)"
    unfolding h by (rule request_header_sealed [OF copy_marker_length [OF assms(6)]])
  have "is_marker (m_signature (m_header msg))" "length (payload_bytes payload) = unat (m_size (m_header msg))"
    "no_marker junk (m_signature (m_header msg))"
    using assms(7,9,10) h by simp_all
  from frame_delivery [OF assms(1-5) this(1) sealed this(2,3) assms(11)]
  obtain c1 where c1: "m_header (m_inboundMessage c1) = m_header msg"
    "payload_bytes (m_payload (m_inboundMessage c1)) = payload_bytes payload" "inp (m_state c1) = rest"
    "Process L c = (case ProcessPayload L c1 of None \<Rightarrow> None
      | Some (b, c') \<Rightarrow> Process L (set_rx ReceiveState_Initialize c'))" by blast
  have "\<exists>c3. Process L c = Some (True, c3) \<and> m_rxState (m_inboundMessage c3) = ReceiveState_WaitingForHeader"
    if "ProcessPayload L c1 = Some (b, c')" "inp (m_state c') = []"
      "length (m_signature (m_header (m_inboundMessage c'))) = 8" for b c'
    using exhausted [OF assms(1,3), of "set_rx ReceiveState_Initialize c'"] that c1(4)
    by (auto simp: hdr_rx_def hdr_at_def)
  then show ?thesis using c1 h by (intro exI [of _ c1]) auto
qed

lemma example_stream: "stream_phy example_layers id"
proof -
  have "\<exists>bs s'. ReceiveBytes example_layers s n = (True, bs, s') \<and> bs \<noteq> [] \<and> length bs \<le> unat n \<and> id s = bs @ id s'"
    if "n \<noteq> 0" "s \<noteq> []" for s n
    using that by (auto simp: example_layers_def unat_gt_0)
  then show ?thesis by (auto simp: stream_phy_def) (auto simp: example_layers_def)
qed

lemma example_timely: "timely example_layers"
  by (simp add: timely_def example_layers_def c_PayloadTimeout_def)

lemma example_accepts: "accepts example_layers id"
proof -
  have "\<exists>c1 p. ProcessHeader example_layers c = (True, c1) \<and> id (m_state c1) = id (m_state c) \<and>
        m_inboundMessage c1 = (m_inboundMessage c)\<lparr>m_payload := p\<rparr> \<and>
        (if m_size (m_header (m_inboundMessage c)) = 0 then p = m_payload (m_inboundMessage c)
         else \<exists>buf. p = Some buf \<and> length buf = unat (m_size (m_header (m_inboundMessage c))))" for c
    by (cases "m_size (m_header (m_inboundMessage c)) = 0"; cases "m_inboundMessage c"; cases c)
      (auto simp: example_layers_def SetPayload_def)
  then show ?thesis unfolding accepts_def by (simp add: example_layers_def)
qed

text \<open>The request [7, 8, 9] behind the bytes ``MS'': it is handed over, and \<open>Process\<close> then waits for more.\<close>

theorem frame_delivered_witness:
  "\<exists>c1 c3. Process example_layers
      (example_controller ([0x4D, 0x53] @ WP_Packet_bytes (request_header MARKER_PACKET_V1 5 0 3 [7, 8, 9] 0 0) @ [7, 8, 9])) =
        (case ProcessPayload example_layers c1 of None \<Rightarrow> None
         | Some (b, c') \<Rightarrow> Process example_layers (set_rx ReceiveState_Initialize c')) \<and>
    m_header (m_inboundMessage c1) = request_header MARKER_PACKET_V1 5 0 3 [7, 8, 9] 0 0 \<and>
    payload_bytes (m_payload (m_inboundMessage c1)) = [7, 8, 9] \<and> m_state c1 = [] \<and>
    Process example_layers
      (example_controller ([0x4D, 0x53] @ WP_Packet_bytes (request_header MARKER_PACKET_V1 5 0 3 [7, 8, 9] 0 0) @ [7, 8, 9])) =
        Some (True, c3) \<and> m_rxState (m_inboundMessage c3) = ReceiveState_WaitingForHeader"
proof -
  let ?h = "request_header MARKER_PACKET_V1 5 0 3 [7, 8, 9] 0 0"
  let ?c = "example_controller ([0x4D, 0x53] @ WP_Packet_bytes ?h @ [7, 8, 9])"
  let ?msg = "WP_Message_Initialize\<lparr>m_header := ?h, m_payload := Some [7, 8, 9]\<rparr>"
  have p: "payload_bytes (Some [7, 8, 9]) = [7, 8, 9]" by (simp add: payload_bytes_def)
  have 1: "PrepareRequest 5 0 3 (Some [7, 8, 9]) WP_Message_Initialize (example_controller []) =
      Some (?msg, (example_controller [])\<lparr>m_lastOutboundMessage := 1\<rparr>)"
    by (subst PrepareRequest_eq) (simp_all add: example_controller_def Controller_Initialize_def p)
  have 2: "m_rxState (m_inboundMessage ?c) = ReceiveState_Initialize"
    "length (m_signature (m_header (m_inboundMessage ?c))) = 8"
    "copy_marker (m_szMarker (example_controller [])) = Some MARKER_PACKET_V1" "is_marker MARKER_PACKET_V1"
    by (simp_all add: example_controller_def Controller_Initialize_def PrepareReception_def
        WP_Message_Initialize_def is_marker_def)
  have 3: "length (payload_bytes (Some [7, 8, 9])) = unat (3 :: u32)" by (simp add: p)
  have 4: "no_marker [0x4D, 0x53] MARKER_PACKET_V1"
    by (simp add: no_marker_Cons is_marker_def MARKER_PACKET_V1_def MARKER_DEBUGGER_V1_def)
  have 5: "id (m_state ?c) = [0x4D, 0x53] @ WP_Packet_bytes (m_header ?msg) @ payload_bytes (Some [7, 8, 9]) @ []"
    by (simp add: example_controller_def Controller_Initialize_def p)
  have h: "m_header ?msg = ?h" by simp
  from frame_delivered [OF example_stream example_timely example_accepts 2 1 3 4 5]
  obtain c1 where c1: "m_header (m_inboundMessage c1) = ?h"
    "payload_bytes (m_payload (m_inboundMessage c1)) = [7, 8, 9]" "m_state c1 = []"
    "Process example_layers ?c = (case ProcessPayload example_layers c1 of None \<Rightarrow> None
       | Some (b, c') \<Rightarrow> Process example_layers (set_rx ReceiveState_Initialize c'))"
    "\<forall>b c'. ProcessPayload example_layers c1 = Some (b, c') \<and> m_state c' = [] \<and>
       length (m_signature (m_header (m_inboundMessage c'))) = 8 \<longrightarrow>
       (\<exists>c3. Process example_layers ?c = Some (True, c3) \<and> m_rxState (m_inboundMessage c3) = ReceiveState_WaitingForHeader)"
    unfolding p h id_apply by blast
  have "ProcessPayload example_layers c1 = Some (True, c1)" by (simp add: example_layers_def)
  moreover have "length (m_signature (m_header (m_inboundMessage c1))) = 8" unfolding c1(1) by simp
  ultimately obtain c3 where "Process example_layers ?c = Some (True, c3)"
    "m_rxState (m_inboundMessage c3) = ReceiveState_WaitingForHeader"
    using c1(3,5) by blast
  with c1(1-4) show ?thesis by blast
qed

definition bad_packet_reply :: "u8 list \<Rightarrow> u16 \<Rightarrow> u32 \<Rightarrow> WP_Message" where
  "bad_packet_reply sig seq flags =
     WP_Message_Initialize\<lparr>m_header := request_header sig 0 (c_NonCritical OR c_NACK OR flags) 0 [] seq 0\<rparr>"

definition transmitted :: "'s WP_Layers \<Rightarrow> WP_Message \<Rightarrow> 's WP_Controller \<Rightarrow> 's WP_Controller" where
  "transmitted L msg c = c\<lparr>m_lastOutboundMessage := m_lastOutboundMessage c + 1,
     m_state := snd (TransmitMessage L (m_state c) msg)\<rparr>"

lemma ReplyBadPacket_transmits:
  "copy_marker (m_szMarker c) = Some sig \<Longrightarrow>
    ReplyBadPacket L flags c = Some (transmitted L (bad_packet_reply sig (m_lastOutboundMessage c) flags) c)"
  by (simp add: ReplyBadPacket_eq transmitted_def bad_packet_reply_def Let_def)

lemma refused_header:
  assumes "copy_marker (m_szMarker c1) = Some sig"
    and "m_rxState (m_inboundMessage c) = ReceiveState_CompleteHeader"
    and "VerifyHeader (m_inboundMessage c) = Some good" "(if good then ProcessHeader L c else (False, c)) = (False, c1)"
  shows "Process_step L c = Some (None, set_rx ReceiveState_Initialize
    (if m_flags (m_header (m_inboundMessage c1)) AND c_NonCritical = 0
     then transmitted L (bad_packet_reply sig (m_lastOutboundMessage c1) c_BadHeader) c1 else c1))"
  using assms
  by (simp add: Process_step_def ReceiveState_defs rx_CompleteHeader_def ReplyBadPacket_transmits transmitted_def)

text \<open>
  C35. What the receiver does with what it cannot use. A header damaged within four consecutive
  bytes, or one the application refuses, is answered by one negative acknowledgement, itself a
  message that verifies, unless the header as received is marked non-critical; a damaged payload
  is always answered by one; a header without a payload block and a payload that stalls for the
  time-out are dropped without an answer. In every case the receiver starts over and nothing is
  handed to \<open>ProcessPayload\<close>.
\<close>

theorem bad_packets:
  assumes "copy_marker (m_szMarker c) = Some sig"
  shows "let m = m_inboundMessage c; st = m_rxState m;
      restart = (\<lambda>c. Some (None, set_rx ReceiveState_Initialize c));
      nack = (\<lambda>flags c. transmitted L (bad_packet_reply sig (m_lastOutboundMessage c) flags) c);
      unless_noncritical = (\<lambda>c. if m_flags (m_header (m_inboundMessage c)) AND c_NonCritical = 0
        then nack c_BadHeader c else c)
    in (\<forall>h bs xs us vs ys. st = ReceiveState_CompleteHeader \<and> sealed h bs \<and>
          WP_Packet_bytes h = xs @ us @ ys \<and> length us = 4 \<and> length vs = 4 \<and> us \<noteq> vs \<and>
          (length xs + 4 \<le> 8 \<or> 12 \<le> length xs) \<and> m_header m = WP_Packet_at (xs @ vs @ ys) \<longrightarrow>
          Process_step L c = restart (unless_noncritical c)) \<and>
       (\<forall>c1. st = ReceiveState_CompleteHeader \<and> VerifyHeader m = Some True \<and>
          ProcessHeader L c = (False, c1) \<and> m_szMarker c1 = m_szMarker c \<longrightarrow>
          Process_step L c = restart (unless_noncritical c1)) \<and>
       (\<forall>c1. st = ReceiveState_CompleteHeader \<and> VerifyHeader m = Some True \<and>
          ProcessHeader L c = (True, c1) \<and> m_size (m_header (m_inboundMessage c1)) \<noteq> 0 \<and>
          m_payload (m_inboundMessage c1) = None \<longrightarrow> Process_step L c = restart c1) \<and>
       (st = ReceiveState_ReadingPayload \<and>
          c_PayloadTimeout \<le> TicksToTime L (CurrentTicks L (m_state c) - m_payloadTicks m) \<longrightarrow>
          Process_step L c = restart c) \<and>
       (\<forall>xs us vs ys. st = ReceiveState_CompletePayload \<and> sealed (m_header m) (xs @ us @ ys) \<and>
          length us = 4 \<and> length vs = 4 \<and> us \<noteq> vs \<and> m_payload m = Some (xs @ vs @ ys) \<and>
          sint (m_size (m_header m)) \<le> int (length (xs @ us @ ys)) \<and>
          length xs + 4 \<le> nat (sint (m_size (m_header m))) \<longrightarrow>
          Process_step L c = restart (nack c_BadPayload c)) \<and>
       VerifyHeader (bad_packet_reply sig seq flags) = Some True \<and>
       VerifyPayload (bad_packet_reply sig seq flags) = Some True"
proof -
  let ?m = "m_inboundMessage c"
  let ?re = "\<lambda>c. Some (None, set_rx ReceiveState_Initialize c)"
  let ?nack = "\<lambda>flags c. transmitted L (bad_packet_reply sig (m_lastOutboundMessage c) flags) c"
  let ?un = "\<lambda>c. if m_flags (m_header (m_inboundMessage c)) AND c_NonCritical = 0 then ?nack c_BadHeader c else c"
  have 1: "Process_step L c = ?re (?un c)"
    if "m_rxState ?m = ReceiveState_CompleteHeader" "sealed h bs" "WP_Packet_bytes h = xs @ us @ ys"
      "length us = 4" "length vs = 4" "us \<noteq> vs" "length xs + 4 \<le> 8 \<or> 12 \<le> length xs"
      "m_header ?m = WP_Packet_at (xs @ vs @ ys)" for h bs xs us vs ys
  proof -
    have "?m\<lparr>m_header := WP_Packet_at (xs @ vs @ ys)\<rparr> = ?m" using that(8) by simp
    then have "VerifyHeader ?m = Some False" using damaged_header [OF that(2-7), of ?m] by simp
    then show ?thesis using refused_header [OF assms that(1), of False L] by simp
  qed
  have 2: "Process_step L c = ?re (?un c1)"
    if "m_rxState ?m = ReceiveState_CompleteHeader" "VerifyHeader ?m = Some True"
      "ProcessHeader L c = (False, c1)" "m_szMarker c1 = m_szMarker c" for c1
    using refused_header [of c1 sig c True L] assms that by simp
  have 3: "Process_step L c = ?re c1"
    if "m_rxState ?m = ReceiveState_CompleteHeader" "VerifyHeader ?m = Some True"
      "ProcessHeader L c = (True, c1)" "m_size (m_header (m_inboundMessage c1)) \<noteq> 0"
      "m_payload (m_inboundMessage c1) = None" for c1
    using that by (simp add: Process_step_def ReceiveState_defs rx_CompleteHeader_def)
  have 4: "Process_step L c = ?re c"
    if "m_rxState ?m = ReceiveState_ReadingPayload"
      "c_PayloadTimeout \<le> TicksToTime L (CurrentTicks L (m_state c) - m_payloadTicks ?m)"
    using that by (simp add: Process_step_def ReceiveState_defs not_less [symmetric])
  have 5: "Process_step L c = ?re (?nack c_BadPayload c)"
    if "m_rxState ?m = ReceiveState_CompletePayload" "sealed (m_header ?m) (xs @ us @ ys)"
      "length us = 4" "length vs = 4" "us \<noteq> vs" "m_payload ?m = Some (xs @ vs @ ys)"
      "sint (m_size (m_header ?m)) \<le> int (length (xs @ us @ ys))"
      "length xs + 4 \<le> nat (sint (m_size (m_header ?m)))" for xs us vs ys
    using damaged_payload [OF that(2-5,7,8,6)] assms that(1)
    by (simp add: Process_step_def ReceiveState_defs rx_CompletePayload_def ReplyBadPacket_transmits)
  have 6: "VerifyHeader (bad_packet_reply sig seq flags) = Some True"
    "VerifyPayload (bad_packet_reply sig seq flags) = Some True"
    using sealed_verifies [of "bad_packet_reply sig seq flags"]
      request_header_sealed [OF copy_marker_length [OF assms]]
    by (simp_all add: bad_packet_reply_def WP_Message_Initialize_def payload_bytes_def)
  show ?thesis unfolding Let_def using 1 2 3 4 5 6 by blast
qed

theorem bad_packets_witness:
  "Process_step example_layers ((example_controller [])\<lparr>m_inboundMessage :=
      (m_inboundMessage (example_controller []))\<lparr>m_rxState := ReceiveState_CompletePayload,
        m_header := request_header MARKER_PACKET_V1 5 0 4 [1, 2, 3, 4] 0 0, m_payload := Some [1, 2, 3, 5]\<rparr>\<rparr>) =
    Some (None, (example_controller [])\<lparr>m_inboundMessage :=
      (m_inboundMessage (example_controller []))\<lparr>m_rxState := ReceiveState_Initialize,
        m_header := request_header MARKER_PACKET_V1 5 0 4 [1, 2, 3, 4] 0 0, m_payload := Some [1, 2, 3, 5]\<rparr>,
      m_lastOutboundMessage := 1\<rparr>)"
proof -
  let ?h = "request_header MARKER_PACKET_V1 5 0 4 [1, 2, 3, 4] 0 0"
  let ?c = "(example_controller [])\<lparr>m_inboundMessage :=
      (m_inboundMessage (example_controller []))\<lparr>m_rxState := ReceiveState_CompletePayload,
        m_header := ?h, m_payload := Some [1, 2, 3, 5]\<rparr>\<rparr>"
  have "copy_marker (m_szMarker ?c) = Some MARKER_PACKET_V1"
    by (simp add: example_controller_def Controller_Initialize_def)
  note p = bad_packets [OF this, of example_layers, unfolded Let_def, THEN conjunct2, THEN conjunct2, THEN conjunct2,
      THEN conjunct2, THEN conjunct1, rule_format, of "[]" "[1, 2, 3, 4]" "[]" "[1, 2, 3, 5]"]
  have "sealed ?h [1, 2, 3, 4]" by (rule request_header_sealed) simp
  then show ?thesis
    using p by (simp add: example_controller_def Controller_Initialize_def transmitted_def example_layers_def)
qed

text \<open>
  C36. The receiver is memory safe and keeps its state well-formed: from the state
  \<open>Controller_Initialize\<close> sets up, with a physical layer that stores no more than it is asked for and
  an application that provides payload blocks of the size it accepts, no step reads or writes
  outside the header or the payload block, the positions and sizes of every state fit, a header is
  read to its end only after a marker, and \<open>Process\<close> never takes the default branch: whenever it
  returns, it returns true in a state that waits for input.
\<close>

theorem receiver_is_safe:
  assumes "phy_bounded L" "app_ok L"
  shows "rx_ok (m_inboundMessage (Controller_Initialize szMarker s)) \<and>
    (copy_marker (m_szMarker c) \<noteq> None \<and> rx_ok (m_inboundMessage c) \<longrightarrow>
      (\<exists>r c'. Process_step L c = Some (r, c') \<and> rx_ok (m_inboundMessage c') \<and> m_szMarker c' = m_szMarker c \<and>
         r \<noteq> Some False) \<and>
      (\<forall>b c'. AdvanceState L c = Some (b, c') \<longrightarrow> b \<and> rx_ok (m_inboundMessage c') \<and>
         m_rxState (m_inboundMessage c') \<in> {ReceiveState_Idle, ReceiveState_WaitingForHeader,
           ReceiveState_ReadingHeader, ReceiveState_ReadingPayload}))"
proof (intro conjI impI)
  show "rx_ok (m_inboundMessage (Controller_Initialize szMarker s))"
    by (rule rx_ok_simple) (simp_all add: Controller_Initialize_def PrepareReception_def WP_Message_Initialize_def)
  assume c: "copy_marker (m_szMarker c) \<noteq> None \<and> rx_ok (m_inboundMessage c)"
  then show "\<exists>r c'. Process_step L c = Some (r, c') \<and> rx_ok (m_inboundMessage c') \<and>
      m_szMarker c' = m_szMarker c \<and> r \<noteq> Some False"
    using Process_step_ok [OF assms, of c] by blast
  show "\<forall>b c'. AdvanceState L c = Some (b, c') \<longrightarrow> b \<and> rx_ok (m_inboundMessage c') \<and>
      m_rxState (m_inboundMessage c') \<in> {ReceiveState_Idle, ReceiveState_WaitingForHeader,
        ReceiveState_ReadingHeader, ReceiveState_ReadingPayload}"
    using Process_ok [OF assms] c by (auto simp: AdvanceState_def may_wait_def)
qed

theorem receiver_is_safe_witness:
  "\<exists>r c'. Process_step example_layers (example_controller [1, 2, 3]) = Some (r, c') \<and>
    rx_ok (m_inboundMessage c') \<and> r \<noteq> Some False"
proof -
  have p: "phy_bounded example_layers" by (auto simp: phy_bounded_def example_layers_def)
  have a: "app_ok example_layers"
    unfolding app_ok_def
  proof (intro conjI allI impI)
    fix c ok c1 assume "ProcessHeader example_layers c = (ok, c1)"
    then have c1: "c1 = (if m_size (m_header (m_inboundMessage c)) = 0 then c
        else c\<lparr>m_inboundMessage := SetPayload (Some (replicate (unat (m_size (m_header (m_inboundMessage c)))) 0))
          (m_inboundMessage c)\<rparr>)" by (simp add: example_layers_def)
    show "\<exists>p. m_inboundMessage c1 = (m_inboundMessage c)\<lparr>m_payload := p\<rparr> \<and>
        (\<forall>buf. ok \<longrightarrow> p = Some buf \<longrightarrow> unat (m_size (m_header (m_inboundMessage c))) \<le> length buf)"
    proof (cases "m_size (m_header (m_inboundMessage c)) = 0")
      case True
      then show ?thesis using c1 by (intro exI [of _ "m_payload (m_inboundMessage c)"]) simp
    next
      case False
      then show ?thesis using c1
        by (intro exI [of _ "Some (replicate (unat (m_size (m_header (m_inboundMessage c)))) 0)"])
          (simp add: SetPayload_def)
    qed
  qed (auto simp: example_layers_def SetPayload_def split: if_splits)
  have 1: "copy_marker (m_szMarker (example_controller [1, 2, 3])) \<noteq> None"
    by (simp add: example_controller_def Controller_Initialize_def)
  have 2: "rx_ok (m_inboundMessage (example_controller [1, 2, 3]))"
    unfolding example_controller_def by (rule receiver_is_safe [OF p a, THEN conjunct1])
  from receiver_is_safe [OF p a, THEN conjunct2, THEN mp, THEN conjunct1, OF conjI, OF 1 2]
  show ?thesis by (elim exE conjE) (intro exI conjI)
qed

end
