(* ===== verification/Messaging.thy ===== *)
theory Messaging
  imports WireProtocol
begin

text \<open>
  The messaging ports of the runtime (\<open>CLR/Messaging/Messaging.cpp\<close>,
  \<open>CLR/Include/TinyCLR_Messaging.h\<close>, \<open>CLR/Core/RPC/CLR_RT_HeapBlock_EndPoint.cpp\<close>), the
  application on top of the wire protocol: the dispatch of requests and replies to handlers, the two
  caches of sent messages that make a retransmitted request be answered without being executed
  again, their accounting, and the end points that messages are queued at.

  The whole object is a \<open>WP_Controller\<close> whose state is the record \<open>CLR_Messaging\<close> (in the source
  the controller is a member and \<open>m_state\<close> points back). The serial port, the heap and the clock are
  the functions of the record \<open>Platform\<close> on the state \<open>m_env\<close>. A linked list is the list of its
  nodes, first node first. A null table of handlers is the empty list.
\<close>

section \<open>State\<close>

definition c_Messaging_Query :: u32 where "c_Messaging_Query = 0x00020090"
definition c_Messaging_Send :: u32 where "c_Messaging_Send = 0x00020091"
definition c_Messaging_Reply :: u32 where "c_Messaging_Reply = 0x00020092"
definition c_Processed :: u32 where "c_Processed = 0x00000001"
definition c_MaxCacheSize :: u32 where "c_MaxCacheSize = 5 * 1024"
definition TIME_CONVERSION_TO_SECONDS :: int where "TIME_CONVERSION_TO_SECONDS = 10000000"

record EP_Port =
  p_type :: u32
  p_id :: u32

record EP_Address =
  ad_seq :: u32
  ad_from :: EP_Port
  ad_to :: EP_Port

record EP_Message =
  em_cmd :: u32
  em_addr :: EP_Address
  em_found :: u32
  em_length :: u32
  em_data :: "u8 list"

record EndPoint =
  ep_addr :: EP_Port
  ep_messages :: "EP_Message list"

record CachedMessage =
  cm_flags :: u32
  cm_size :: u32
  cm_lastSeen :: int
  cm_message :: WP_Message

record 'e CLR_Messaging =
  m_cacheSubordinate :: "CachedMessage list"
  m_cacheMaster :: "CachedMessage list"
  m_cacheTotalSize :: u32
  m_fInitialized :: bool
  m_endPoints :: "EndPoint list"
  m_env :: 'e

type_synonym 'e messaging = "'e CLR_Messaging WP_Controller"

record 'e Platform =
  DebuggerPort_Read :: "'e \<Rightarrow> u32 \<Rightarrow> u8 list \<times> 'e"
  DebuggerPort_Write :: "'e \<Rightarrow> u8 list \<Rightarrow> nat \<times> 'e"
  DebuggerPort_Flush :: "'e \<Rightarrow> 'e"
  DebuggerPort_Initialize :: "'e \<Rightarrow> 'e"
  DebuggerPort_Uninitialize :: "'e \<Rightarrow> 'e"
  Memory_Allocate :: "'e \<Rightarrow> u32 \<Rightarrow> u8 list option \<times> 'e"
  Memory_Release :: "'e \<Rightarrow> 'e"
  SignalEvents :: "'e \<Rightarrow> 'e"
  Time_GetMachineTime :: "'e \<Rightarrow> int"
  HAL_Time_CurrentTicks :: "'e \<Rightarrow> u64"
  HAL_Time_TicksToTime :: "u64 \<Rightarrow> u64"
  sizeof_CachedMessage :: u32
  sizeof_EP_Message :: u32

text \<open>
  A handler works on the message being received; None is a read outside its payload. The tables are
  those of \<open>m_Lookup_Requests\<close> and \<open>m_Lookup_Replies\<close>: per owner a list of commands and handlers.
\<close>

type_synonym 'e handler = "'e messaging \<Rightarrow> (bool \<times> 'e messaging) option"
type_synonym 'e tables = "('e handler \<times> u32) list list"

definition on_env :: "('e \<Rightarrow> 'e) \<Rightarrow> 'e CLR_Messaging \<Rightarrow> 'e CLR_Messaging" where
  "on_env f s = s\<lparr>m_env := f (m_env s)\<rparr>"

definition on_state :: "('e CLR_Messaging \<Rightarrow> 'e CLR_Messaging) \<Rightarrow> 'e messaging \<Rightarrow> 'e messaging" where
  "on_state f c = c\<lparr>m_state := f (m_state c)\<rparr>"

definition on_msg :: "(WP_Message \<Rightarrow> WP_Message) \<Rightarrow> 'e messaging \<Rightarrow> 'e messaging" where
  "on_msg f c = c\<lparr>m_inboundMessage := f (m_inboundMessage c)\<rparr>"

section \<open>Sending and caching\<close>

definition cache_message :: "'e Platform \<Rightarrow> WP_Message \<Rightarrow> 'e CLR_Messaging \<Rightarrow> CachedMessage option \<times> 'e CLR_Messaging" where
  "cache_message P msg s =
     (let payloadSize = m_size (m_header msg);
          len = sizeof_CachedMessage P + payloadSize;
          (mem, e) = Memory_Allocate P (m_env s) len;
          s = s\<lparr>m_env := e\<rparr>
      in case mem of None \<Rightarrow> (None, s) | Some _ \<Rightarrow>
         (Some \<lparr>cm_flags = 0, cm_size = len, cm_lastSeen = Time_GetMachineTime P e,
                cm_message = (if payloadSize \<noteq> 0 \<and> m_payload msg \<noteq> None
                  then msg\<lparr>m_payload := Some (take (unat payloadSize) (payload_bytes (m_payload msg)))\<rparr>
                  else msg\<lparr>m_header := (m_header msg)\<lparr>m_size := 0\<rparr>, m_payload := None\<rparr>)\<rparr>,
          s\<lparr>m_cacheTotalSize := m_cacheTotalSize s + len\<rparr>))"

definition Messaging_TransmitMessage :: "'e Platform \<Rightarrow> WP_Message \<Rightarrow> bool \<Rightarrow> 'e CLR_Messaging \<Rightarrow>
    bool \<times> 'e CLR_Messaging" where
  "Messaging_TransmitMessage P msg fQueue s =
     (let payloadSize = m_size (m_header msg); flags = m_flags (m_header msg);
          (n, e) = DebuggerPort_Write P (m_env s) (WP_Packet_bytes (m_header msg)); s = s\<lparr>m_env := e\<rparr>
      in if n \<noteq> sizeof_WP_Packet then (False, s)
      else let (ok, s) =
        (if m_size (m_header msg) \<noteq> 0 \<and> m_payload msg \<noteq> None then
           let (n, e) = DebuggerPort_Write P (m_env s) (take (unat payloadSize) (payload_bytes (m_payload msg)))
           in (n = unat payloadSize, s\<lparr>m_env := e\<rparr>)
         else (True, s))
      in if \<not> ok then (False, s)
      else let s = on_env (DebuggerPort_Flush P) s
      in if fQueue \<and> flags AND c_NoCaching = 0 then
           (if flags AND c_Reply \<noteq> 0 then
              (case cache_message P msg s of (None, s) \<Rightarrow> (True, s)
               | (Some cache, s) \<Rightarrow> (True, s\<lparr>m_cacheSubordinate := cache # m_cacheSubordinate s\<rparr>))
            else if flags AND c_NonCritical \<noteq> 0 then (True, s)
            else
              (case cache_message P msg s of (None, s) \<Rightarrow> (True, s)
               | (Some cache, s) \<Rightarrow> (True, s\<lparr>m_cacheMaster := cache # m_cacheMaster s\<rparr>)))
         else (True, s))"

definition Phy_TransmitMessage :: "'e Platform \<Rightarrow> 'e CLR_Messaging \<Rightarrow> WP_Message \<Rightarrow> bool \<times> 'e CLR_Messaging" where
  "Phy_TransmitMessage P s msg = Messaging_TransmitMessage P msg True s"

definition Phy_ReceiveBytes :: "'e Platform \<Rightarrow> 'e CLR_Messaging \<Rightarrow> u32 \<Rightarrow> bool \<times> u8 list \<times> 'e CLR_Messaging" where
  "Phy_ReceiveBytes P s n =
     (if n \<noteq> 0 then
        let (bs, e) = DebuggerPort_Read P (m_env s) n; s = s\<lparr>m_env := e\<rparr>
        in if bs = [] then (False, [], s) else (True, bs, s)
      else (True, [], s))"

text \<open>\<open>m_controller.SendProtocolMessage( msg )\<close>.\<close>

definition Controller_Send :: "'e Platform \<Rightarrow> WP_Message \<Rightarrow> 'e messaging \<Rightarrow> bool \<times> 'e messaging" where
  "Controller_Send P msg c =
     (let (b, s) = Phy_TransmitMessage P (m_state c) msg in (b, c\<lparr>m_state := s\<rparr>))"

definition reply_flags :: "u32 \<Rightarrow> bool \<Rightarrow> bool \<Rightarrow> u32" where
  "reply_flags f fSuccess fCritical =
     (if f AND c_NoCaching \<noteq> 0 then c_NoCaching else 0) OR (if fSuccess then c_ACK else c_NACK) OR
     (if \<not> fCritical then c_NonCritical else 0)"

definition ReplyToCommand :: "'e Platform \<Rightarrow> bool \<Rightarrow> bool \<Rightarrow> u8 list option \<Rightarrow> u32 \<Rightarrow> 'e messaging \<Rightarrow>
    'e messaging option" where
  "ReplyToCommand P fSuccess fCritical ptr n c =
     (let h = m_header (m_inboundMessage c) in
      if m_flags h AND c_NonCritical \<noteq> 0 then Some c
      else
        let c = on_msg (\<lambda>m. m\<lparr>m_header := h\<lparr>m_flags := m_flags h OR c_NonCritical\<rparr>\<rparr>) c;
            flags = reply_flags (m_flags h OR c_NonCritical) fSuccess fCritical;
            (ptr, n) = (if fSuccess then (ptr, n) else (None, 0))
        in map_option (\<lambda>(msgReply, c). snd (Controller_Send P msgReply c))
             (PrepareReply (m_header (m_inboundMessage c)) flags n ptr WP_Message_Initialize c))"

definition ReplyToCommand2 :: "'e Platform \<Rightarrow> bool \<Rightarrow> bool \<Rightarrow> 'e messaging \<Rightarrow> 'e messaging option" where
  "ReplyToCommand2 P fSuccess fCritical c = ReplyToCommand P fSuccess fCritical None 0 c"

definition SendEvent :: "'e Platform \<Rightarrow> u32 \<Rightarrow> u32 \<Rightarrow> u8 list option \<Rightarrow> u32 \<Rightarrow> 'e messaging \<Rightarrow>
    (bool \<times> 'e messaging) option" where
  "SendEvent P cmd payloadSize payload flags c =
     map_option (\<lambda>(msg, c). Controller_Send P msg c)
       (PrepareRequest cmd flags payloadSize payload WP_Message_Initialize c)"

fun BroadcastEvent :: "'e Platform \<Rightarrow> u32 \<Rightarrow> u32 \<Rightarrow> u8 list option \<Rightarrow> u32 \<Rightarrow> 'e messaging list \<Rightarrow>
    'e messaging list option" where
  "BroadcastEvent P cmd payloadSize payload flags [] = Some []"
| "BroadcastEvent P cmd payloadSize payload flags (c # cs) =
     (case SendEvent P cmd payloadSize payload flags c of None \<Rightarrow> None | Some (b, c) \<Rightarrow>
        map_option (Cons c) (BroadcastEvent P cmd payloadSize payload flags cs))"

section \<open>Purging the caches\<close>

text \<open>The backward walk over a cache: the nodes last to first, those kept, the total size.\<close>

fun purge_walk :: "'e Platform \<Rightarrow> int \<Rightarrow> CachedMessage list \<Rightarrow> u32 \<Rightarrow> 'e \<Rightarrow> CachedMessage list \<times> u32 \<times> 'e" where
  "purge_walk P oldest [] tot e = ([], tot, e)"
| "purge_walk P oldest (cache # prev) tot e =
     (if cm_lastSeen cache < oldest \<or> tot > c_MaxCacheSize
      then purge_walk P oldest prev (tot - cm_size cache) (Memory_Release P e)
      else let (kept, tot, e) = purge_walk P oldest prev tot e in (cache # kept, tot, e))"

definition PurgeCache_list :: "'e Platform \<Rightarrow> int \<Rightarrow> CachedMessage list \<Rightarrow> u32 \<Rightarrow> 'e \<Rightarrow> CachedMessage list \<times> u32 \<times> 'e" where
  "PurgeCache_list P oldest lst tot e =
     (let (kept, tot, e) = purge_walk P oldest (rev lst) tot e in (rev kept, tot, e))"

definition PurgeCache :: "'e Platform \<Rightarrow> 'e CLR_Messaging \<Rightarrow> 'e CLR_Messaging" where
  "PurgeCache P s =
     (let oldest = Time_GetMachineTime P (m_env s) - TIME_CONVERSION_TO_SECONDS * 3;
          (master, tot, e) = PurgeCache_list P oldest (m_cacheMaster s) (m_cacheTotalSize s) (m_env s);
          (sub, tot, e) = PurgeCache_list P oldest (m_cacheSubordinate s) tot e
      in s\<lparr>m_cacheMaster := master, m_cacheSubordinate := sub, m_cacheTotalSize := tot, m_env := e\<rparr>)"

section \<open>Receiving\<close>

definition Messaging_ProcessHeader :: "'e messaging \<Rightarrow> bool \<times> 'e messaging" where
  "Messaging_ProcessHeader c = (True, c)"

text \<open>
  The search of a cache: the entries before the first match, the match and the entries after it.
  \<open>LinkAtFront\<close> on a linked node moves it to the front.
\<close>

fun find_cached :: "(CachedMessage \<Rightarrow> bool) \<Rightarrow> CachedMessage list \<Rightarrow> (CachedMessage \<times> CachedMessage list) option" where
  "find_cached p [] = None"
| "find_cached p (cache # cs) =
     (if p cache then Some (cache, cs)
      else map_option (\<lambda>(x, rest). (x, cache # rest)) (find_cached p cs))"

definition matches :: "WP_Packet \<Rightarrow> WP_Packet \<Rightarrow> bool" where
  "matches req res \<longleftrightarrow> m_cmd req = m_cmd res \<and> m_seq req = m_seqReply res"

fun lookup :: "('e handler \<times> u32) list \<Rightarrow> u32 \<Rightarrow> 'e handler option" where
  "lookup [] cmd = None"
| "lookup ((hnd, n) # cs) cmd = (if n = cmd then Some hnd else lookup cs cmd)"

fun lookup_tables :: "'e tables \<Rightarrow> u32 \<Rightarrow> 'e handler option" where
  "lookup_tables [] cmd = None"
| "lookup_tables (t # ts) cmd = (case lookup t cmd of Some hnd \<Rightarrow> Some hnd | None \<Rightarrow> lookup_tables ts cmd)"

definition dispatch :: "'e Platform \<Rightarrow> 'e tables \<Rightarrow> 'e messaging \<Rightarrow> (bool \<times> 'e messaging) option" where
  "dispatch P tables c =
     (case lookup_tables tables (m_cmd (m_header (m_inboundMessage c))) of
        Some hnd \<Rightarrow> (case hnd c of None \<Rightarrow> None
          | Some (b, c) \<Rightarrow> map_option (Pair True) (ReplyToCommand2 P b False c))
      | None \<Rightarrow> map_option (Pair True) (ReplyToCommand2 P False False c))"

definition Messaging_ProcessPayload :: "'e Platform \<Rightarrow> 'e tables \<Rightarrow> 'e tables \<Rightarrow> 'e messaging \<Rightarrow>
    (bool \<times> 'e messaging) option" where
  "Messaging_ProcessPayload P requests replies c =
     (let h = m_header (m_inboundMessage c); s = m_state c; now = Time_GetMachineTime P (m_env s) in
      if m_flags h AND c_NACK \<noteq> 0 then Some (True, c)
      else if m_flags h AND c_Reply \<noteq> 0 then
        (case find_cached (\<lambda>cache. matches (m_header (cm_message cache)) h) (m_cacheMaster s) of
           Some (cache, rest) \<Rightarrow>
             if cm_flags cache AND c_Processed \<noteq> 0
             then Some (True, c\<lparr>m_state := s\<lparr>m_cacheMaster := cache\<lparr>cm_lastSeen := now\<rparr> # rest\<rparr>\<rparr>)
             else dispatch P replies (c\<lparr>m_state := s\<lparr>m_cacheMaster :=
                    cache\<lparr>cm_lastSeen := now, cm_flags := cm_flags cache OR c_Processed\<rparr> # rest\<rparr>\<rparr>)
         | None \<Rightarrow> dispatch P replies c)
      else
        (case find_cached (\<lambda>cache. matches h (m_header (cm_message cache))) (m_cacheSubordinate s) of
           Some (cache, rest) \<Rightarrow>
             Some (True, c\<lparr>m_state := snd (Messaging_TransmitMessage P (cm_message cache) False
               (s\<lparr>m_cacheSubordinate := cache\<lparr>cm_lastSeen := now\<rparr> # rest\<rparr>))\<rparr>)
         | None \<Rightarrow> dispatch P requests c))"

definition App_ProcessHeader :: "'e Platform \<Rightarrow> 'e messaging \<Rightarrow> bool \<times> 'e messaging" where
  "App_ProcessHeader P c =
     (let (ok, c) = Messaging_ProcessHeader c in
      if \<not> ok then (False, c)
      else if m_size (m_header (m_inboundMessage c)) \<noteq> 0 then
        let (mem, e) = Memory_Allocate P (m_env (m_state c)) (m_size (m_header (m_inboundMessage c)));
            c = on_state (\<lambda>s. s\<lparr>m_env := e\<rparr>) c
        in case mem of None \<Rightarrow> (False, c) | Some _ \<Rightarrow> (True, on_msg (SetPayload mem) c)
      else (True, c))"

definition App_ProcessPayload :: "'e Platform \<Rightarrow> 'e tables \<Rightarrow> 'e tables \<Rightarrow> 'e messaging \<Rightarrow>
    (bool \<times> 'e messaging) option" where
  "App_ProcessPayload P requests replies c = Messaging_ProcessPayload P requests replies c"

definition App_Release :: "'e Platform \<Rightarrow> 'e messaging \<Rightarrow> bool \<times> 'e messaging" where
  "App_Release P c =
     (True, if m_payload (m_inboundMessage c) \<noteq> None
        then on_msg (SetPayload None) (on_state (on_env (Memory_Release P)) c) else c)"

definition messaging_layers :: "'e Platform \<Rightarrow> 'e tables \<Rightarrow> 'e tables \<Rightarrow> 'e CLR_Messaging WP_Layers" where
  "messaging_layers P requests replies =
     \<lparr>ReceiveBytes = Phy_ReceiveBytes P, TransmitMessage = Phy_TransmitMessage P,
      ProcessHeader = App_ProcessHeader P, ProcessPayload = App_ProcessPayload P requests replies,
      Release = App_Release P, CurrentTicks = (\<lambda>s. HAL_Time_CurrentTicks P (m_env s)),
      TicksToTime = HAL_Time_TicksToTime P\<rparr>"

definition ProcessCommands :: "'e Platform \<Rightarrow> 'e tables \<Rightarrow> 'e tables \<Rightarrow> 'e messaging \<Rightarrow> 'e messaging option" where
  "ProcessCommands P requests replies c =
     (if m_fInitialized (m_state c) then map_option snd (AdvanceState (messaging_layers P requests replies) c)
      else Some c)"

section \<open>Life cycle\<close>

text \<open>
  \<open>fShared\<close>: the port is both the messaging and the debugger port of the system configuration and no
  table of requests is given, so that the debugger will initialise it.
\<close>

definition Messaging_Initialize :: "'e Platform \<Rightarrow> bool \<Rightarrow> 'e messaging \<Rightarrow> 'e messaging" where
  "Messaging_Initialize P fShared c =
     (if fShared then c
      else if m_fInitialized (m_state c) then c
      else Controller_Initialize (Some MARKER_DEBUGGER_V1)
        ((m_state c)\<lparr>m_cacheSubordinate := [], m_cacheMaster := [], m_cacheTotalSize := 0,
           m_env := DebuggerPort_Initialize P (m_env (m_state c)), m_fInitialized := True\<rparr>))"

definition Cleanup :: "'e Platform \<Rightarrow> bool \<Rightarrow> 'e messaging \<Rightarrow> 'e messaging" where
  "Cleanup P fDoNotUninitializeDebuggerPort c =
     (if \<not> m_fInitialized (m_state c) then c
      else let s = (if fDoNotUninitializeDebuggerPort then m_state c
                    else on_env (DebuggerPort_Uninitialize P) (m_state c));
               n = length (m_cacheSubordinate s) + length (m_cacheMaster s)
           in c\<lparr>m_state := s\<lparr>m_env := (Memory_Release P ^^ n) (m_env s), m_cacheSubordinate := [],
                m_cacheMaster := [], m_cacheTotalSize := 0, m_fInitialized := False\<rparr>\<rparr>)"

section \<open>End points\<close>

definition at_port :: "u8 list \<Rightarrow> nat \<Rightarrow> EP_Port" where
  "at_port buf i = \<lparr>p_type = at32 buf i, p_id = at32 buf (i + 4)\<rparr>"

definition at_address :: "u8 list \<Rightarrow> EP_Address option" where
  "at_address buf = (if 20 \<le> length buf
     then Some \<lparr>ad_seq = at32 buf 0, ad_from = at_port buf 4, ad_to = at_port buf 12\<rparr> else None)"

definition address_bytes :: "EP_Address \<Rightarrow> u8 list" where
  "address_bytes a = bytes32 (ad_seq a) @ bytes32 (p_type (ad_from a)) @ bytes32 (p_id (ad_from a)) @
     bytes32 (p_type (ad_to a)) @ bytes32 (p_id (ad_to a))"

definition sizeof_Address :: u32 where "sizeof_Address = 20"

text \<open>The end point found, with those before and after it.\<close>

fun FindEndPoint :: "EP_Port \<Rightarrow> EndPoint list \<Rightarrow> (EndPoint list \<times> EndPoint \<times> EndPoint list) option" where
  "FindEndPoint port [] = None"
| "FindEndPoint port (ep # eps) =
     (if p_type (ep_addr ep) = p_type port \<and> p_id (ep_addr ep) = p_id port then Some ([], ep, eps)
      else map_option (\<lambda>(before, found, after). (ep # before, found, after)) (FindEndPoint port eps))"

fun FindMessage :: "u32 \<Rightarrow> u32 option \<Rightarrow> EP_Message list \<Rightarrow> EP_Message option" where
  "FindMessage cmd sq [] = None"
| "FindMessage cmd sq (msg # ms) =
     (if em_cmd msg = cmd then
        (case sq of None \<Rightarrow> Some msg
         | Some n \<Rightarrow> if ad_seq (em_addr msg) = n then Some msg else FindMessage cmd sq ms)
      else FindMessage cmd sq ms)"

text \<open>
  The block for the message has \<open>sizeof(*rpc) + length\<close> bytes, in 32 bits; None is a copy that reads
  past the data or writes past the block.
\<close>

definition AllocateAndQueueMessage :: "'e Platform \<Rightarrow> u32 \<Rightarrow> u32 \<Rightarrow> u8 list option \<Rightarrow> EP_Port \<Rightarrow> EP_Address \<Rightarrow> u32 \<Rightarrow>
    'e CLR_Messaging \<Rightarrow> (bool \<times> 'e CLR_Messaging) option" where
  "AllocateAndQueueMessage P cmd len data port addr found s =
     (case FindEndPoint port (m_endPoints s) of None \<Rightarrow> Some (False, s)
      | Some (before, ep, after) \<Rightarrow>
          let n = sizeof_EP_Message P + len; (mem, e) = Memory_Allocate P (m_env s) n; s = s\<lparr>m_env := e\<rparr>
          in case mem of None \<Rightarrow> Some (False, s)
             | Some _ \<Rightarrow>
                 (if data \<noteq> None \<and> (length (payload_bytes data) < unat len \<or>
                       unat n < unat (sizeof_EP_Message P) + unat len) then None
                  else Some (True, s\<lparr>m_endPoints := before @ ep\<lparr>ep_messages := ep_messages ep @
                    [\<lparr>em_cmd = cmd, em_addr = addr, em_found = found, em_length = len,
                      em_data = take (unat len) (payload_bytes data)\<rparr>]\<rparr> # after,
                    m_env := SignalEvents P e\<rparr>)))"

definition found_reply :: "bool \<Rightarrow> EP_Address \<Rightarrow> u8 list" where
  "found_reply found addr = bytes32 (if found then 1 else 0) @ address_bytes addr"

definition Messaging_Query :: "'e Platform \<Rightarrow> 'e handler" where
  "Messaging_Query P c =
     (case at_address (payload_bytes (m_payload (m_inboundMessage c))) of None \<Rightarrow> None | Some addr \<Rightarrow>
      map_option (Pair True)
        (ReplyToCommand P True False
          (Some (found_reply (FindEndPoint (ad_to addr) (m_endPoints (m_state c)) \<noteq> None) addr))
          (4 + sizeof_Address) c))"

text \<open>\<open>Messaging_Send\<close> and \<open>Messaging_Reply\<close> differ in the command and in the port the message goes to.\<close>

definition queue_and_reply :: "'e Platform \<Rightarrow> u32 \<Rightarrow> (EP_Address \<Rightarrow> EP_Port) \<Rightarrow> 'e handler" where
  "queue_and_reply P cmd port c =
     (let m = m_inboundMessage c; buf = payload_bytes (m_payload m) in
      case at_address buf of None \<Rightarrow> None | Some addr \<Rightarrow>
      let len = m_size (m_header m) - sizeof_Address in
      case AllocateAndQueueMessage P cmd len (Some (drop 20 buf)) (port addr) addr 0 (m_state c) of
        None \<Rightarrow> None
      | Some (fRes, s) \<Rightarrow>
          map_option (Pair True)
            (ReplyToCommand P fRes False (Some (found_reply True addr)) (4 + sizeof_Address) (c\<lparr>m_state := s\<rparr>)))"

definition Messaging_Send :: "'e Platform \<Rightarrow> 'e handler" where
  "Messaging_Send P = queue_and_reply P c_Messaging_Send ad_to"

definition Messaging_Reply :: "'e Platform \<Rightarrow> 'e handler" where
  "Messaging_Reply P = queue_and_reply P c_Messaging_Reply ad_from"

definition Messaging_Query_Reply :: "'e Platform \<Rightarrow> 'e handler" where
  "Messaging_Query_Reply P c =
     (let buf = payload_bytes (m_payload (m_inboundMessage c)) in
      if length buf < 24 then None else
      case at_address (drop 4 buf) of None \<Rightarrow> None | Some addr \<Rightarrow>
      map_option (\<lambda>(b, s). (True, c\<lparr>m_state := s\<rparr>))
        (AllocateAndQueueMessage P c_Messaging_Query 0 None (ad_from addr) addr (at32 buf 0) (m_state c)))"

definition Messaging_Send_Reply :: "'e handler" where "Messaging_Send_Reply c = Some (True, c)"
definition Messaging_Reply_Reply :: "'e handler" where "Messaging_Reply_Reply c = Some (True, c)"

definition c_Messaging_Lookup_Request :: "'e Platform \<Rightarrow> ('e handler \<times> u32) list" where
  "c_Messaging_Lookup_Request P = [(Messaging_Query P, c_Messaging_Query),
     (Messaging_Send P, c_Messaging_Send), (Messaging_Reply P, c_Messaging_Reply)]"

definition c_Messaging_Lookup_Reply :: "'e Platform \<Rightarrow> ('e handler \<times> u32) list" where
  "c_Messaging_Lookup_Reply P = [(Messaging_Query P, c_Messaging_Query),
     (Messaging_Send P, c_Messaging_Send), (Messaging_Reply P, c_Messaging_Reply)]"

section \<open>The accounting of the caches\<close>

definition sizes :: "CachedMessage list \<Rightarrow> u32" where
  "sizes cs = sum_list (map cm_size cs)"

definition accounted :: "'e CLR_Messaging \<Rightarrow> bool" where
  "accounted s \<longleftrightarrow> m_cacheTotalSize s = sizes (m_cacheMaster s) + sizes (m_cacheSubordinate s)"

lemma sizes_simps [simp]: "sizes [] = 0" "sizes (c # cs) = cm_size c + sizes cs" "sizes (cs @ ds) = sizes cs + sizes ds"
  "sizes (rev cs) = sizes cs"
  by (simp_all add: sizes_def sum_list_rev flip: rev_map)

lemma find_cached_Some:
  "find_cached p cs = Some (x, rest) \<Longrightarrow> \<exists>as bs. cs = as @ x # bs \<and> rest = as @ bs \<and> p x \<and> (\<forall>y \<in> set as. \<not> p y)"
proof (induction cs arbitrary: rest)
  case (Cons c cs)
  show ?case
  proof (cases "p c")
    case True
    then show ?thesis using Cons.prems by (intro exI [of _ "[]"] exI [of _ cs]) auto
  next
    case False
    then obtain r where "find_cached p cs = Some (x, r)" "rest = c # r"
      using Cons.prems by auto
    with Cons.IH False show ?thesis by (metis append_Cons set_ConsD)
  qed
qed simp


lemma find_cached_set:
  assumes "find_cached p cs = Some (x, rest)"
  shows "set cs = insert x (set rest)" "p x" "sizes cs = cm_size x + sizes rest"
  using find_cached_Some [OF assms] by (auto simp: ac_simps)

text \<open>What sending changes: the port, the heap, and at most one new entry at the front of a cache.\<close>

definition cache_of :: "WP_Message \<Rightarrow> 'e Platform \<Rightarrow> CachedMessage \<Rightarrow> bool" where
  "cache_of msg P cache \<longleftrightarrow> cm_flags cache = 0 \<and> cm_size cache = sizeof_CachedMessage P + m_size (m_header msg) \<and>
     m_header (cm_message cache) = (if m_size (m_header msg) \<noteq> 0 \<and> m_payload msg \<noteq> None then m_header msg
       else (m_header msg)\<lparr>m_size := 0\<rparr>)"

lemma cache_message_cases:
  "(\<exists>e. cache_message P msg s = (None, s\<lparr>m_env := e\<rparr>)) \<or>
   (\<exists>e cache. cache_message P msg s =
      (Some cache, s\<lparr>m_env := e, m_cacheTotalSize := m_cacheTotalSize s + cm_size cache\<rparr>) \<and> cache_of msg P cache)"
proof -
  obtain mem e where m: "Memory_Allocate P (m_env s) (sizeof_CachedMessage P + m_size (m_header msg)) = (mem, e)"
    by (meson surj_pair)
  show ?thesis
    by (cases mem) (auto simp: cache_message_def m Let_def cache_of_def)
qed

lemma Transmit_cases:
  assumes "Messaging_TransmitMessage P msg fQueue s = (b, s')"
  shows "(\<exists>e. s' = s\<lparr>m_env := e\<rparr>) \<or>
    (\<exists>e cache. fQueue \<and> cache_of msg P cache \<and> s' = s\<lparr>m_env := e, m_cacheTotalSize := m_cacheTotalSize s + cm_size cache,
       m_cacheSubordinate := cache # m_cacheSubordinate s\<rparr>) \<or>
    (\<exists>e cache. fQueue \<and> m_flags (m_header msg) AND c_Reply = 0 \<and> cache_of msg P cache \<and>
       s' = s\<lparr>m_env := e, m_cacheTotalSize := m_cacheTotalSize s + cm_size cache,
       m_cacheMaster := cache # m_cacheMaster s\<rparr>)"
proof -
  obtain n e where w: "DebuggerPort_Write P (m_env s) (WP_Packet_bytes (m_header msg)) = (n, e)" by (meson surj_pair)
  let ?pl = "m_size (m_header msg) \<noteq> 0 \<and> m_payload msg \<noteq> None"
  obtain n2 e2 where w2: "DebuggerPort_Write P e (take (unat (m_size (m_header msg))) (payload_bytes (m_payload msg))) = (n2, e2)"
    by (meson surj_pair)
  define e3 where "e3 = DebuggerPort_Flush P (if ?pl then e2 else e)"
  let ?s3 = "s\<lparr>m_env := e3\<rparr>"
  let ?sub = "case cache_message P msg ?s3 of (None, s) \<Rightarrow> (True, s)
    | (Some cache, s) \<Rightarrow> (True, s\<lparr>m_cacheSubordinate := cache # m_cacheSubordinate s\<rparr>)"
  let ?mas = "case cache_message P msg ?s3 of (None, s) \<Rightarrow> (True, s)
    | (Some cache, s) \<Rightarrow> (True, s\<lparr>m_cacheMaster := cache # m_cacheMaster s\<rparr>)"
  have t: "Messaging_TransmitMessage P msg fQueue s =
      (if n \<noteq> sizeof_WP_Packet then (False, s\<lparr>m_env := e\<rparr>)
       else if ?pl \<and> n2 \<noteq> unat (m_size (m_header msg)) then (False, s\<lparr>m_env := e2\<rparr>)
       else if fQueue \<and> m_flags (m_header msg) AND c_NoCaching = 0 then
         (if m_flags (m_header msg) AND c_Reply \<noteq> 0 then ?sub
          else if m_flags (m_header msg) AND c_NonCritical \<noteq> 0 then (True, ?s3) else ?mas)
       else (True, ?s3))"
    by (cases "m_size (m_header msg) = 0"; cases "m_payload msg = None")
      (simp_all add: Messaging_TransmitMessage_def w w2 Let_def on_env_def e3_def)
  from cache_message_cases [of P msg ?s3] show ?thesis
  proof (elim disjE exE conjE)
    fix e' assume "cache_message P msg ?s3 = (None, ?s3\<lparr>m_env := e'\<rparr>)"
    then show ?thesis using assms unfolding t by (auto split: if_splits)
  next
    fix e' cache assume c: "cache_of msg P cache" "cache_message P msg ?s3 =
        (Some cache, ?s3\<lparr>m_env := e', m_cacheTotalSize := m_cacheTotalSize ?s3 + cm_size cache\<rparr>)"
    let ?t = "s\<lparr>m_env := e', m_cacheTotalSize := m_cacheTotalSize s + cm_size cache\<rparr>"
    have "s' = s\<lparr>m_env := e\<rparr> \<or> s' = s\<lparr>m_env := e2\<rparr> \<or> s' = ?s3 \<or>
        (fQueue \<and> s' = ?t\<lparr>m_cacheSubordinate := cache # m_cacheSubordinate s\<rparr>) \<or>
        (fQueue \<and> m_flags (m_header msg) AND c_Reply = 0 \<and> s' = ?t\<lparr>m_cacheMaster := cache # m_cacheMaster s\<rparr>)"
      using assms unfolding t c(2) by (simp split: if_splits)
    then show ?thesis using c(1) by blast
  qed
qed

lemma Transmit_accounted:
  "accounted s \<Longrightarrow> accounted (snd (Messaging_TransmitMessage P msg fQueue s))"
  using Transmit_cases [of P msg fQueue s "fst (Messaging_TransmitMessage P msg fQueue s)"
      "snd (Messaging_TransmitMessage P msg fQueue s)"]
  by (auto simp: accounted_def ac_simps)

lemma Controller_Send_eq:
  "snd (Controller_Send P msg c) = c\<lparr>m_state := snd (Messaging_TransmitMessage P msg True (m_state c))\<rparr>"
  by (simp add: Controller_Send_def Phy_TransmitMessage_def Let_def split: prod.split)

lemma PrepareReply_Some:
  assumes "PrepareReply req flags n ptr m c = Some (msg, c')"
  shows "c' = c\<lparr>m_lastOutboundMessage := m_lastOutboundMessage c + 1\<rparr> \<and>
    m_cmd (m_header msg) = m_cmd req \<and> m_seqReply (m_header msg) = m_seq req \<and>
    m_flags (m_header msg) = flags OR c_Reply \<and> m_payload msg = ptr \<and> m_size (m_header msg) = n"
  using assms by (auto simp: PrepareReply_def Let_def split: option.splits)

lemma PrepareRequest_Some:
  assumes "PrepareRequest cmd flags n ptr m c = Some (msg, c')"
  shows "c' = c\<lparr>m_lastOutboundMessage := m_lastOutboundMessage c + 1\<rparr> \<and> m_flags (m_header msg) = flags"
  using assms by (auto simp: PrepareRequest_def Let_def split: option.splits)

lemma ReplyToCommand_cases:
  assumes "ReplyToCommand P fSuccess fCritical ptr n c = Some c'"
  shows "(m_flags (m_header (m_inboundMessage c)) AND c_NonCritical \<noteq> 0 \<and> c' = c) \<or>
    (\<exists>msg. m_flags (m_header (m_inboundMessage c)) AND c_NonCritical = 0 \<and>
       c' = c\<lparr>m_inboundMessage := (m_inboundMessage c)\<lparr>m_header := (m_header (m_inboundMessage c))
            \<lparr>m_flags := m_flags (m_header (m_inboundMessage c)) OR c_NonCritical\<rparr>\<rparr>,
          m_lastOutboundMessage := m_lastOutboundMessage c + 1,
          m_state := snd (Messaging_TransmitMessage P msg True (m_state c))\<rparr> \<and>
       m_cmd (m_header msg) = m_cmd (m_header (m_inboundMessage c)) \<and>
       m_seqReply (m_header msg) = m_seq (m_header (m_inboundMessage c)) \<and>
       m_flags (m_header msg) = reply_flags (m_flags (m_header (m_inboundMessage c)) OR c_NonCritical) fSuccess fCritical OR c_Reply)"
proof (cases "m_flags (m_header (m_inboundMessage c)) AND c_NonCritical = 0")
  case True
  let ?h = "m_header (m_inboundMessage c)"
  let ?c = "on_msg (\<lambda>m. m\<lparr>m_header := ?h\<lparr>m_flags := m_flags ?h OR c_NonCritical\<rparr>\<rparr>) c"
  obtain ptr' n' where p: "(if fSuccess then (ptr, n) else (None, 0)) = (ptr', n')" by (meson surj_pair)
  obtain msg c1 where r: "PrepareReply (m_header (m_inboundMessage ?c))
      (reply_flags (m_flags ?h OR c_NonCritical) fSuccess fCritical) n' ptr' WP_Message_Initialize ?c = Some (msg, c1)"
    "c' = snd (Controller_Send P msg c1)"
    using assms True by (auto simp: ReplyToCommand_def Let_def p)
  from PrepareReply_Some [OF r(1)] show ?thesis
    using True r(2) unfolding Controller_Send_eq by (intro disjI2 exI [of _ msg]) (simp add: on_msg_def)
next
  case False
  then show ?thesis using assms by (simp add: ReplyToCommand_def Let_def)
qed

lemma ReplyToCommand_accounted:
  "ReplyToCommand P fSuccess fCritical ptr n c = Some c' \<Longrightarrow> accounted (m_state c) \<Longrightarrow> accounted (m_state c')"
  by (drule ReplyToCommand_cases) (auto simp: Transmit_accounted)

section \<open>Purging\<close>

definition nat_sizes :: "CachedMessage list \<Rightarrow> nat" where
  "nat_sizes cs = sum_list (map (\<lambda>c. unat (cm_size c)) cs)"

lemma nat_sizes_simps [simp]: "nat_sizes [] = 0" "nat_sizes (c # cs) = unat (cm_size c) + nat_sizes cs"
  "nat_sizes (rev cs) = nat_sizes cs"
  by (simp_all add: nat_sizes_def sum_list_rev flip: rev_map)

lemma purge_walk_spec:
  assumes "purge_walk P oldest xs tot e = (kept, tot', e')" "unat tot = nat_sizes xs + k"
  shows "unat tot' = nat_sizes kept + k \<and> (kept \<noteq> [] \<longrightarrow> tot' \<le> c_MaxCacheSize) \<and> tot' \<le> tot \<and>
    (tot \<le> c_MaxCacheSize \<longrightarrow> kept = filter (\<lambda>c. oldest \<le> cm_lastSeen c) xs) \<and>
    (\<exists>n. kept = filter (\<lambda>c. oldest \<le> cm_lastSeen c) (drop n xs))"
  using assms
proof (induction xs arbitrary: tot e kept k)
  case (Cons c xs)
  show ?case
  proof (cases "cm_lastSeen c < oldest \<or> tot > c_MaxCacheSize")
    case True
    have u: "unat (tot - cm_size c) = nat_sizes xs + k"
      using Cons.prems(2) by (simp add: unat_sub word_le_nat_alt)
    have le: "tot - cm_size c \<le> tot" unfolding word_le_nat_alt u using Cons.prems(2) by simp
    have "purge_walk P oldest xs (tot - cm_size c) (Memory_Release P e) = (kept, tot', e')"
      using Cons.prems(1) True by simp
    from Cons.IH [OF this u] obtain n where n: "unat tot' = nat_sizes kept + k"
      "kept \<noteq> [] \<longrightarrow> tot' \<le> c_MaxCacheSize" "tot' \<le> tot - cm_size c"
      "tot - cm_size c \<le> c_MaxCacheSize \<longrightarrow> kept = filter (\<lambda>c. oldest \<le> cm_lastSeen c) xs"
      "kept = filter (\<lambda>c. oldest \<le> cm_lastSeen c) (drop n xs)" by blast
    have "kept = filter (\<lambda>c. oldest \<le> cm_lastSeen c) (c # xs)" if "tot \<le> c_MaxCacheSize"
      using n(4) le that True by (auto dest: order_trans)
    then show ?thesis using n le by (intro conjI exI [of _ "Suc n"]) (auto intro: order_trans)
  next
    case False
    obtain k' t' where w: "purge_walk P oldest xs tot e = (k', tot', e')" "kept = c # k'"
      using Cons.prems(1) False by (auto simp: Let_def split: prod.splits)
    have "unat tot = nat_sizes xs + (unat (cm_size c) + k)" using Cons.prems(2) by simp
    from Cons.IH [OF w(1) this] have n: "unat tot' = nat_sizes k' + (unat (cm_size c) + k)" "tot' \<le> tot"
      "k' = filter (\<lambda>c. oldest \<le> cm_lastSeen c) xs" using False by auto
    then show ?thesis using w(2) False by (intro conjI exI [of _ 0]) auto
  qed
qed (auto intro: exI [of _ 0])

lemma purge_walk_word: "purge_walk P oldest xs tot e = (kept, tot', e') \<Longrightarrow> tot' + sizes xs = tot + sizes kept"
proof (induction xs arbitrary: tot e kept)
  case (Cons c xs)
  show ?case
  proof (cases "cm_lastSeen c < oldest \<or> tot > c_MaxCacheSize")
    case True
    then have "tot' + sizes xs = tot - cm_size c + sizes kept"
      using Cons.prems by (intro Cons.IH [of _ "Memory_Release P e"]) simp
    then show ?thesis by (simp add: algebra_simps)
  next
    case False
    then obtain k' where w: "purge_walk P oldest xs tot e = (k', tot', e')" "kept = c # k'"
      using Cons.prems by (auto simp: Let_def split: prod.splits)
    from Cons.IH [OF w(1)] w(2) show ?thesis by (simp add: algebra_simps)
  qed
qed simp

lemma PurgeCache_list_spec:
  assumes "PurgeCache_list P oldest lst tot e = (kept, tot', e')" "unat tot = nat_sizes lst + k"
  shows "unat tot' = nat_sizes kept + k \<and> (kept \<noteq> [] \<longrightarrow> tot' \<le> c_MaxCacheSize) \<and> tot' \<le> tot \<and>
    (tot \<le> c_MaxCacheSize \<longrightarrow> kept = filter (\<lambda>c. oldest \<le> cm_lastSeen c) lst) \<and>
    (\<exists>n. kept = filter (\<lambda>c. oldest \<le> cm_lastSeen c) (take n lst))"
proof -
  obtain k' where w: "purge_walk P oldest (rev lst) tot e = (k', tot', e')" "kept = rev k'"
    using assms(1) by (auto simp: PurgeCache_list_def Let_def split: prod.splits)
  from purge_walk_spec [OF w(1), of k] assms(2) obtain n where n: "unat tot' = nat_sizes k' + k"
    "k' \<noteq> [] \<longrightarrow> tot' \<le> c_MaxCacheSize" "tot' \<le> tot"
    "tot \<le> c_MaxCacheSize \<longrightarrow> k' = filter (\<lambda>c. oldest \<le> cm_lastSeen c) (rev lst)"
    "k' = filter (\<lambda>c. oldest \<le> cm_lastSeen c) (drop n (rev lst))" by auto
  have "kept = filter (\<lambda>c. oldest \<le> cm_lastSeen c) (take (length lst - n) lst)"
    unfolding w(2) n(5) by (simp add: drop_rev flip: rev_filter)
  moreover have "nat_sizes kept = nat_sizes k'" "kept \<noteq> [] \<longleftrightarrow> k' \<noteq> []" by (simp_all add: w(2))
  moreover have "tot \<le> c_MaxCacheSize \<longrightarrow> kept = filter (\<lambda>c. oldest \<le> cm_lastSeen c) lst"
    using n(4) by (simp add: w(2) rev_filter)
  ultimately show ?thesis using n(1-3) by simp blast
qed

lemma PurgeCache_list_word:
  "PurgeCache_list P oldest lst tot e = (kept, tot', e') \<Longrightarrow> tot' + sizes lst = tot + sizes kept"
  using purge_walk_word [of P oldest "rev lst" tot e] by (auto simp: PurgeCache_list_def Let_def split: prod.splits)

lemma PurgeCache_accounted: "accounted s \<Longrightarrow> accounted (PurgeCache P s)"
proof -
  assume a: "accounted s"
  let ?old = "Time_GetMachineTime P (m_env s) - TIME_CONVERSION_TO_SECONDS * 3"
  obtain ma t1 e1 where 1: "PurgeCache_list P ?old (m_cacheMaster s) (m_cacheTotalSize s) (m_env s) = (ma, t1, e1)"
    by (meson prod_cases3)
  obtain su t2 e2 where 2: "PurgeCache_list P ?old (m_cacheSubordinate s) t1 e1 = (su, t2, e2)"
    by (meson prod_cases3)
  have "t2 = sizes ma + sizes su"
    using PurgeCache_list_word [OF 1] PurgeCache_list_word [OF 2] a unfolding accounted_def by (simp add: algebra_simps)
  then show ?thesis by (simp add: PurgeCache_def Let_def 1 2 accounted_def)
qed

section \<open>Answering requests\<close>

text \<open>The reply to the request with header \<open>h\<close> is cached.\<close>

definition answered_by :: "WP_Packet \<Rightarrow> 'e CLR_Messaging \<Rightarrow> bool" where
  "answered_by h s \<longleftrightarrow> (\<exists>cache \<in> set (m_cacheSubordinate s). matches h (m_header (cm_message cache)))"

text \<open>A platform on which every write is complete and every allocation succeeds.\<close>

definition reliable :: "'e Platform \<Rightarrow> bool" where
  "reliable P \<longleftrightarrow> (\<forall>e bs. fst (DebuggerPort_Write P e bs) = length bs) \<and> (\<forall>e n. fst (Memory_Allocate P e n) \<noteq> None)"

text \<open>
  What a handler may do with the message: it leaves the command, the sequence number and the caching
  flag alone, removes nothing from the caches behind the back of their accounting, and marks the message
  non-critical only by replying to it.
\<close>

definition handled :: "'e messaging \<Rightarrow> 'e messaging \<Rightarrow> bool" where
  "handled c c' \<longleftrightarrow>
     (let h = m_header (m_inboundMessage c); h' = m_header (m_inboundMessage c')
      in m_cmd h' = m_cmd h \<and> m_seq h' = m_seq h \<and> m_flags h' AND c_NoCaching = m_flags h AND c_NoCaching \<and>
         (\<forall>g. answered_by g (m_state c) \<longrightarrow> answered_by g (m_state c')) \<and>
         (accounted (m_state c) \<longrightarrow> accounted (m_state c')) \<and>
         (m_flags h AND c_NonCritical = 0 \<and> m_flags h AND c_NoCaching = 0 \<and> m_flags h' AND c_NonCritical \<noteq> 0 \<longrightarrow>
            answered_by h (m_state c')))"

definition good_handler :: "'e handler \<Rightarrow> bool" where
  "good_handler hnd \<longleftrightarrow> (\<forall>c b c'. hnd c = Some (b, c') \<longrightarrow> handled c c')"

definition good_tables :: "'e tables \<Rightarrow> bool" where
  "good_tables ts \<longleftrightarrow> (\<forall>t \<in> set ts. \<forall>x \<in> set t. good_handler (fst x))"

lemma lookup_good: "lookup t cmd = Some hnd \<Longrightarrow> \<exists>n. (hnd, n) \<in> set t"
  by (induction t cmd rule: lookup.induct) (auto split: if_splits)

lemma lookup_tables_good: "good_tables ts \<Longrightarrow> lookup_tables ts cmd = Some hnd \<Longrightarrow> good_handler hnd"
  by (induction ts cmd rule: lookup_tables.induct)
    (auto simp: good_tables_def split: option.splits dest!: lookup_good)

lemma answered_env [simp]: "answered_by g (s\<lparr>m_env := e\<rparr>) = answered_by g s"
  "answered_by g (s\<lparr>m_cacheTotalSize := n\<rparr>) = answered_by g s"
  "answered_by g (s\<lparr>m_cacheMaster := cs\<rparr>) = answered_by g s"
  by (simp_all add: answered_by_def)

lemma Transmit_answered:
  "answered_by g s \<Longrightarrow> answered_by g (snd (Messaging_TransmitMessage P msg fQueue s))"
  using Transmit_cases [of P msg fQueue s "fst (Messaging_TransmitMessage P msg fQueue s)"
      "snd (Messaging_TransmitMessage P msg fQueue s)"]
  by (auto simp: answered_by_def)

lemma Transmit_reply:
  assumes "reliable P" "length (m_signature (m_header msg)) = 8"
    and "m_payload msg \<noteq> None \<longrightarrow> unat (m_size (m_header msg)) \<le> length (payload_bytes (m_payload msg))"
    and "m_flags (m_header msg) AND c_Reply \<noteq> 0" "m_flags (m_header msg) AND c_NoCaching = 0"
    and "m_cmd (m_header msg) = m_cmd h" "m_seqReply (m_header msg) = m_seq h"
  shows "answered_by h (snd (Messaging_TransmitMessage P msg True s))"
proof -
  obtain n e where w: "DebuggerPort_Write P (m_env s) (WP_Packet_bytes (m_header msg)) = (n, e)" by (meson surj_pair)
  have n: "n = 32" using assms(1,2) w unfolding reliable_def by (metis WP_Packet_bytes_length fst_conv)
  let ?pl = "take (unat (m_size (m_header msg))) (payload_bytes (m_payload msg))"
  obtain n2 e2 where w2: "DebuggerPort_Write P e ?pl = (n2, e2)" by (meson surj_pair)
  have n2: "n2 = unat (m_size (m_header msg))" if "m_payload msg \<noteq> None"
    using assms(1,3) w2 that unfolding reliable_def by (metis fst_conv length_take min.absorb2)
  define s3 where "s3 = s\<lparr>m_env := DebuggerPort_Flush P
    (if m_size (m_header msg) \<noteq> 0 \<and> m_payload msg \<noteq> None then e2 else e)\<rparr>"
  obtain mem e4 where m: "Memory_Allocate P (m_env s3) (sizeof_CachedMessage P + m_size (m_header msg)) = (Some mem, e4)"
    using assms(1) unfolding reliable_def by (metis fst_conv not_None_eq surj_pair)
  obtain cache s4 where c: "cache_message P msg s3 = (Some cache, s4)" "m_cmd (m_header (cm_message cache)) = m_cmd h"
    "m_seqReply (m_header (cm_message cache)) = m_seq h"
    using m assms(6,7) by (auto simp: cache_message_def Let_def)
  have "snd (Messaging_TransmitMessage P msg True s) = s4\<lparr>m_cacheSubordinate := cache # m_cacheSubordinate s4\<rparr>"
    using assms(4,5) n n2 c(1) unfolding s3_def
    by (cases "m_size (m_header msg) = 0"; cases "m_payload msg = None")
      (simp_all add: Messaging_TransmitMessage_def w w2 Let_def on_env_def sizeof_WP_Packet_def)
  then show ?thesis using c(2,3) by (simp add: answered_by_def matches_def)
qed

lemma flags_or: "f AND n = 0 \<Longrightarrow> 1 AND n = (0 :: u32) \<Longrightarrow> (f OR 1) AND n = 0"
  by (simp add: bit.conj_disj_distrib2)

lemma reply_flags_bits:
  assumes "f AND c_NoCaching = 0"
  shows "(reply_flags (f OR c_NonCritical) fSuccess fCritical OR c_Reply) AND c_NoCaching = 0"
    "(reply_flags (f OR c_NonCritical) fSuccess fCritical OR c_Reply) AND c_Reply \<noteq> 0"
proof -
  have "(f OR c_NonCritical) AND c_NoCaching = 0"
    using assms by (simp add: c_NonCritical_def c_NoCaching_def flags_or)
  then show "(reply_flags (f OR c_NonCritical) fSuccess fCritical OR c_Reply) AND c_NoCaching = 0"
    "(reply_flags (f OR c_NonCritical) fSuccess fCritical OR c_Reply) AND c_Reply \<noteq> 0"
    by (cases fSuccess; cases fCritical;
        simp add: reply_flags_def c_NonCritical_def c_NoCaching_def c_Reply_def c_ACK_def c_NACK_def)+
qed

lemma ReplyToCommand_answered:
  "ReplyToCommand P fSuccess fCritical ptr n c = Some c' \<Longrightarrow> answered_by g (m_state c) \<Longrightarrow> answered_by g (m_state c')"
  by (drule ReplyToCommand_cases) (auto simp: Transmit_answered)

lemma ReplyToCommand_answers:
  assumes "reliable P" "ReplyToCommand P fSuccess fCritical ptr n c = Some c'"
    and "ptr \<noteq> None \<longrightarrow> unat n \<le> length (payload_bytes ptr)"
    and "m_flags (m_header (m_inboundMessage c)) AND c_NonCritical = 0"
    and "m_flags (m_header (m_inboundMessage c)) AND c_NoCaching = 0"
  shows "answered_by (m_header (m_inboundMessage c)) (m_state c')"
proof -
  let ?h = "m_header (m_inboundMessage c)"
  let ?c = "on_msg (\<lambda>m. m\<lparr>m_header := ?h\<lparr>m_flags := m_flags ?h OR c_NonCritical\<rparr>\<rparr>) c"
  obtain ptr' n' where p: "(if fSuccess then (ptr, n) else (None, 0)) = (ptr', n')" by (meson surj_pair)
  have pn: "ptr' \<noteq> None \<longrightarrow> unat n' \<le> length (payload_bytes ptr')" using assms(3) p by (auto split: if_splits)
  obtain msg c1 where r: "PrepareReply (m_header (m_inboundMessage ?c))
      (reply_flags (m_flags ?h OR c_NonCritical) fSuccess fCritical) n' ptr' WP_Message_Initialize ?c = Some (msg, c1)"
    "c' = snd (Controller_Send P msg c1)"
    using assms(2,4) by (auto simp: ReplyToCommand_def Let_def p)
  have sig: "length (m_signature (m_header msg)) = 8"
    using r(1) by (auto simp: PrepareReply_def Let_def dest!: copy_marker_length split: option.splits)
  have "m_cmd (m_header (m_inboundMessage ?c)) = m_cmd ?h" "m_seq (m_header (m_inboundMessage ?c)) = m_seq ?h"
    by (simp_all add: on_msg_def)
  then show ?thesis
    using PrepareReply_Some [OF r(1)] pn reply_flags_bits [OF assms(5)] r(2)
    by (auto simp: Controller_Send_eq intro!: Transmit_reply [OF assms(1) sig])
qed

lemma flags_kept: "(f OR c_NonCritical) AND c_NoCaching = f AND c_NoCaching"
  by (simp add: c_NonCritical_def c_NoCaching_def bit.conj_disj_distrib2)

lemma ReplyToCommand_header:
  "ReplyToCommand P fSuccess fCritical ptr n c = Some c' \<Longrightarrow>
    m_cmd (m_header (m_inboundMessage c')) = m_cmd (m_header (m_inboundMessage c)) \<and>
    m_seq (m_header (m_inboundMessage c')) = m_seq (m_header (m_inboundMessage c)) \<and>
    m_flags (m_header (m_inboundMessage c')) AND c_NoCaching = m_flags (m_header (m_inboundMessage c)) AND c_NoCaching"
  by (drule ReplyToCommand_cases) (auto simp: flags_kept)

lemmas ReplyToCommand_facts = ReplyToCommand_header ReplyToCommand_answered ReplyToCommand_accounted

lemma answered_by_cong: "m_cmd g = m_cmd h \<Longrightarrow> m_seq g = m_seq h \<Longrightarrow> answered_by g s = answered_by h s"
  by (simp add: answered_by_def matches_def)

lemma dispatch_good:
  assumes "good_tables tables" "dispatch P tables c = Some (b, c')"
  shows "answered_by g (m_state c) \<Longrightarrow> answered_by g (m_state c')"
    "accounted (m_state c) \<Longrightarrow> accounted (m_state c')"
    "reliable P \<Longrightarrow> m_flags (m_header (m_inboundMessage c)) AND c_NonCritical = 0 \<Longrightarrow>
      m_flags (m_header (m_inboundMessage c)) AND c_NoCaching = 0 \<Longrightarrow>
      answered_by (m_header (m_inboundMessage c)) (m_state c')"
proof -
  let ?h = "m_header (m_inboundMessage c)"
  obtain b1 c1 where c1: "ReplyToCommand P b1 False None 0 c1 = Some c'"
    "c1 = c \<or> (\<exists>hnd. good_handler hnd \<and> hnd c = Some (b1, c1))"
  proof (cases "lookup_tables tables (m_cmd ?h)")
    case None
    then show ?thesis using assms(2) that [of False c] by (auto simp: dispatch_def ReplyToCommand2_def)
  next
    case (Some hnd)
    then obtain b1 c1 where "hnd c = Some (b1, c1)" "ReplyToCommand2 P b1 False c1 = Some c'"
      using assms(2) by (auto simp: dispatch_def split: option.splits)
    then show ?thesis using that lookup_tables_good [OF assms(1) Some] by (auto simp: ReplyToCommand2_def)
  qed
  let ?h1 = "m_header (m_inboundMessage c1)"
  have h: "m_cmd ?h1 = m_cmd ?h" "m_seq ?h1 = m_seq ?h" "m_flags ?h1 AND c_NoCaching = m_flags ?h AND c_NoCaching"
    "answered_by g (m_state c) \<longrightarrow> answered_by g (m_state c1)" "accounted (m_state c) \<longrightarrow> accounted (m_state c1)"
    "m_flags ?h AND c_NonCritical = 0 \<and> m_flags ?h AND c_NoCaching = 0 \<and> m_flags ?h1 AND c_NonCritical \<noteq> 0 \<longrightarrow>
       answered_by ?h (m_state c1)"
    using c1(2) unfolding good_handler_def handled_def Let_def by blast+
  show "answered_by g (m_state c) \<Longrightarrow> answered_by g (m_state c')"
    using h(4) ReplyToCommand_answered [OF c1(1)] by blast
  show "accounted (m_state c) \<Longrightarrow> accounted (m_state c')"
    using h(5) ReplyToCommand_accounted [OF c1(1)] by blast
  assume r: "reliable P" "m_flags ?h AND c_NonCritical = 0" "m_flags ?h AND c_NoCaching = 0"
  show "answered_by ?h (m_state c')"
  proof (cases "m_flags ?h1 AND c_NonCritical = 0")
    case True
    then have "answered_by ?h1 (m_state c')" using r h(3) by (intro ReplyToCommand_answers [OF r(1) c1(1)]) simp_all
    then show ?thesis by (simp only: answered_by_cong [OF h(1,2)])
  next
    case False
    then show ?thesis using h(6) r ReplyToCommand_answered [OF c1(1)] by blast
  qed
qed

lemma find_cached_sizes:
  "find_cached p cs = Some (cache, rest) \<Longrightarrow> cm_size (f cache) = cm_size cache \<Longrightarrow> sizes (f cache # rest) = sizes cs"
  by (drule find_cached_Some) (auto simp: ac_simps)

lemma find_cached_answered:
  assumes "find_cached p (m_cacheSubordinate s) = Some (cache, rest)" "answered_by g s"
  shows "answered_by g (s\<lparr>m_cacheSubordinate := cache\<lparr>cm_lastSeen := t\<rparr> # rest\<rparr>)"
  using assms find_cached_set(1) [OF assms(1)] by (auto simp: answered_by_def)

lemma ProcessPayload_good:
  assumes "good_tables requests" "good_tables replies"
    and "Messaging_ProcessPayload P requests replies c = Some (b, c')"
  shows "answered_by g (m_state c) \<Longrightarrow> answered_by g (m_state c')"
    "accounted (m_state c) \<Longrightarrow> accounted (m_state c')"
proof -
  let ?s = "m_state c" and ?h = "m_header (m_inboundMessage c)"
  let ?now = "Time_GetMachineTime P (m_env ?s)"
  define s1 where "s1 = (case find_cached (\<lambda>cache. matches (m_header (cm_message cache)) ?h) (m_cacheMaster ?s) of
      None \<Rightarrow> ?s | Some (cache, rest) \<Rightarrow> if cm_flags cache AND c_Processed \<noteq> 0
        then ?s\<lparr>m_cacheMaster := cache\<lparr>cm_lastSeen := ?now\<rparr> # rest\<rparr>
        else ?s\<lparr>m_cacheMaster := cache\<lparr>cm_lastSeen := ?now, cm_flags := cm_flags cache OR c_Processed\<rparr> # rest\<rparr>)"
  define s2 where "s2 = (case find_cached (\<lambda>cache. matches ?h (m_header (cm_message cache))) (m_cacheSubordinate ?s) of
      None \<Rightarrow> ?s | Some (cache, rest) \<Rightarrow> snd (Messaging_TransmitMessage P (cm_message cache) False
        (?s\<lparr>m_cacheSubordinate := cache\<lparr>cm_lastSeen := ?now\<rparr> # rest\<rparr>)))"
  have s1: "answered_by g ?s \<longrightarrow> answered_by g s1" "accounted ?s \<longrightarrow> accounted s1"
    using find_cached_sizes [of _ "m_cacheMaster ?s"]
    by (auto simp: s1_def accounted_def split: option.split)
  have s2: "answered_by g ?s \<longrightarrow> answered_by g s2" "accounted ?s \<longrightarrow> accounted s2"
    using find_cached_sizes [of _ "m_cacheSubordinate ?s"]
    by (auto simp: s2_def accounted_def find_cached_answered intro!: Transmit_answered
        Transmit_accounted [unfolded accounted_def] split: option.split)
  have "c' = c \<or> c' = c\<lparr>m_state := s1\<rparr> \<or> dispatch P replies (c\<lparr>m_state := s1\<rparr>) = Some (b, c') \<or>
      c' = c\<lparr>m_state := s2\<rparr> \<or> dispatch P requests c = Some (b, c')"
    using assms(3) unfolding s1_def s2_def
    by (auto simp: Messaging_ProcessPayload_def Let_def split: if_splits option.splits)
  then show "answered_by g ?s \<Longrightarrow> answered_by g (m_state c')" "accounted ?s \<Longrightarrow> accounted (m_state c')"
    using s1 s2 dispatch_good(1,2) [OF assms(2), of P "c\<lparr>m_state := s1\<rparr>" b c']
      dispatch_good(1,2) [OF assms(1), of P c b c'] by auto
qed

section \<open>The handlers of the messaging commands\<close>

lemma at_bytes_length [simp]: "length (address_bytes a) = 20" "length (found_reply f a) = 24"
  by (simp_all add: address_bytes_def found_reply_def)

lemma Queue_state:
  assumes "AllocateAndQueueMessage P cmd len data port addr found s = Some (b, s')"
  shows "m_cacheSubordinate s' = m_cacheSubordinate s" "m_cacheMaster s' = m_cacheMaster s"
    "m_cacheTotalSize s' = m_cacheTotalSize s"
  using assms by (auto simp: AllocateAndQueueMessage_def Let_def split: option.splits prod.splits if_splits)

lemma reply_good:
  assumes "reliable P" "ReplyToCommand P fSuccess False (Some (found_reply f a)) (4 + sizeof_Address) c1 = Some c'"
    and "m_inboundMessage c1 = m_inboundMessage c" "m_cacheSubordinate (m_state c1) = m_cacheSubordinate (m_state c)"
    and "m_cacheMaster (m_state c1) = m_cacheMaster (m_state c)" "m_cacheTotalSize (m_state c1) = m_cacheTotalSize (m_state c)"
  shows "handled c c'"
proof -
  have "unat (4 + sizeof_Address) \<le> length (payload_bytes (Some (found_reply f a)))"
    by (simp add: payload_bytes_def sizeof_Address_def)
  moreover have "answered_by g (m_state c1) = answered_by g (m_state c)" "accounted (m_state c1) = accounted (m_state c)" for g
    using assms(4-6) by (simp_all add: answered_by_def accounted_def)
  ultimately show ?thesis
    using ReplyToCommand_facts [OF assms(2)] ReplyToCommand_answers [OF assms(1,2)] assms(3)
    unfolding handled_def Let_def by simp
qed

lemma Query_good: "reliable P \<Longrightarrow> good_handler (Messaging_Query P)"
  unfolding good_handler_def
proof (intro allI impI)
  fix c b c' assume P: "reliable P" and q: "Messaging_Query P c = Some (b, c')"
  obtain f a where "ReplyToCommand P True False (Some (found_reply f a)) (4 + sizeof_Address) c = Some c'"
    using q by (auto simp: Messaging_Query_def split: option.splits)
  then show "handled c c'" by (rule reply_good [OF P]) simp_all
qed

lemma queue_and_reply_good: "reliable P \<Longrightarrow> good_handler (queue_and_reply P cmd port)"
  unfolding good_handler_def
proof (intro allI impI)
  fix c b c' assume P: "reliable P" and q: "queue_and_reply P cmd port c = Some (b, c')"
  obtain f s a n d where r: "AllocateAndQueueMessage P cmd n d (port a) a 0 (m_state c) = Some (f, s)"
    "ReplyToCommand P f False (Some (found_reply True a)) (4 + sizeof_Address) (c\<lparr>m_state := s\<rparr>) = Some c'"
    using q by (auto simp: queue_and_reply_def Let_def split: option.splits)
  show "handled c c'" using Queue_state [OF r(1)] by (intro reply_good [OF P r(2)]) simp_all
qed

lemma messaging_tables_good:
  "reliable P \<Longrightarrow> good_tables [c_Messaging_Lookup_Request P]" "reliable P \<Longrightarrow> good_tables [c_Messaging_Lookup_Reply P]"
  by (simp_all add: good_tables_def c_Messaging_Lookup_Request_def c_Messaging_Lookup_Reply_def Query_good
      queue_and_reply_good Messaging_Send_def Messaging_Reply_def)

lemma SendEvent_accounted:
  "SendEvent P cmd n payload flags c = Some (b, c') \<Longrightarrow> accounted (m_state c) \<Longrightarrow> accounted (m_state c')"
proof -
  assume s: "SendEvent P cmd n payload flags c = Some (b, c')" and a: "accounted (m_state c)"
  from s obtain msg c1 where r: "PrepareRequest cmd flags n payload WP_Message_Initialize c = Some (msg, c1)"
    "Controller_Send P msg c1 = (b, c')" by (auto simp: SendEvent_def)
  have "c' = snd (Controller_Send P msg c1)" by (simp add: r(2))
  then show ?thesis
    using PrepareRequest_Some [OF r(1)] a by (simp add: Controller_Send_eq Transmit_accounted)
qed


text \<open>
  The handlers trust the size of a message: a verified message of fewer than 20 bytes makes them read
  an address past the end of its payload.
\<close>

lemma short_message_faults:
  assumes "m_payload (m_inboundMessage c) = Some buf" "length buf < 20"
  shows "Messaging_Query P c = None" "Messaging_Send P c = None" "Messaging_Reply P c = None"
  using assms by (simp_all add: Messaging_Query_def Messaging_Send_def Messaging_Reply_def queue_and_reply_def
      at_address_def payload_bytes_def)

section \<open>Properties\<close>

text \<open>
  C37. The accounting of the message caches: \<open>m_cacheTotalSize\<close> is the sum of the sizes of the cached
  messages, after initialisation and clean-up and through everything that sends, receives, replies and
  purges. \<open>PurgeCache\<close> brings it to at most 5 KiB, keeps a stretch of the most recently used end of
  each cache less its stale entries, in order, and drops only stale entries when the limit is not
  exceeded.
\<close>

theorem cache_accounting:
  assumes "accounted (m_state c)" "good_tables requests" "good_tables replies"
  shows "(\<forall>b c'. Messaging_ProcessPayload P requests replies c = Some (b, c') \<longrightarrow> accounted (m_state c')) \<and>
    (\<forall>ok crit ptr n c'. ReplyToCommand P ok crit ptr n c = Some c' \<longrightarrow> accounted (m_state c')) \<and>
    (\<forall>cmd n payload flags b c'. SendEvent P cmd n payload flags c = Some (b, c') \<longrightarrow> accounted (m_state c')) \<and>
    accounted (m_state (Messaging_Initialize P shared c)) \<and> accounted (m_state (Cleanup P keep c)) \<and>
    accounted (PurgeCache P (m_state c)) \<and>
    (nat_sizes (m_cacheMaster (m_state c)) + nat_sizes (m_cacheSubordinate (m_state c)) < 2 ^ 32 \<longrightarrow>
      (let s = m_state c; s' = PurgeCache P s;
           fresh = filter (\<lambda>x. Time_GetMachineTime P (m_env s) - 30000000 \<le> cm_lastSeen x)
       in m_cacheTotalSize s' \<le> 5 * 1024 \<and>
          (\<exists>n. m_cacheMaster s' = fresh (take n (m_cacheMaster s))) \<and>
          (\<exists>n. m_cacheSubordinate s' = fresh (take n (m_cacheSubordinate s))) \<and>
          (m_cacheTotalSize s \<le> 5 * 1024 \<longrightarrow> m_cacheMaster s' = fresh (m_cacheMaster s) \<and>
             m_cacheSubordinate s' = fresh (m_cacheSubordinate s))))"
proof (intro conjI allI impI)
  let ?s = "m_state c"
  assume bound: "nat_sizes (m_cacheMaster ?s) + nat_sizes (m_cacheSubordinate ?s) < 2 ^ 32"
  let ?old = "Time_GetMachineTime P (m_env ?s) - TIME_CONVERSION_TO_SECONDS * 3"
  obtain ma t1 e1 where 1: "PurgeCache_list P ?old (m_cacheMaster ?s) (m_cacheTotalSize ?s) (m_env ?s) = (ma, t1, e1)"
    by (meson prod_cases3)
  obtain su t2 e2 where 2: "PurgeCache_list P ?old (m_cacheSubordinate ?s) t1 e1 = (su, t2, e2)"
    by (meson prod_cases3)
  have p: "PurgeCache P ?s = ?s\<lparr>m_cacheMaster := ma, m_cacheSubordinate := su, m_cacheTotalSize := t2, m_env := e2\<rparr>"
    by (simp add: PurgeCache_def Let_def 1 2)
  have "sizes cs = word_of_nat (nat_sizes cs)" for cs by (induction cs) simp_all
  then have tot: "unat (m_cacheTotalSize ?s) = nat_sizes (m_cacheMaster ?s) + nat_sizes (m_cacheSubordinate ?s)"
    using assms(1) unat_u32 [OF bound] by (simp add: accounted_def)
  note m1 = PurgeCache_list_spec [OF 1 tot]
  have "unat t1 = nat_sizes (m_cacheSubordinate ?s) + nat_sizes ma" using m1 by simp
  note m2 = PurgeCache_list_spec [OF 2 this]
  have "t2 \<le> c_MaxCacheSize"
  proof (cases "su = [] \<and> ma = []")
    case True
    then have "unat t2 = 0" using m2 by simp
    then show ?thesis by (simp add: unat_eq_0 c_MaxCacheSize_def)
  next
    case False
    then show ?thesis using m1 m2 by (auto intro: order_trans)
  qed
  moreover have "m_cacheTotalSize ?s \<le> c_MaxCacheSize \<Longrightarrow> t1 \<le> c_MaxCacheSize" using m1 by (meson order_trans)
  ultimately show "let s = ?s; s' = PurgeCache P s;
         fresh = filter (\<lambda>x. Time_GetMachineTime P (m_env s) - 30000000 \<le> cm_lastSeen x)
     in m_cacheTotalSize s' \<le> 5 * 1024 \<and>
        (\<exists>n. m_cacheMaster s' = fresh (take n (m_cacheMaster s))) \<and>
        (\<exists>n. m_cacheSubordinate s' = fresh (take n (m_cacheSubordinate s))) \<and>
        (m_cacheTotalSize s \<le> 5 * 1024 \<longrightarrow> m_cacheMaster s' = fresh (m_cacheMaster s) \<and>
           m_cacheSubordinate s' = fresh (m_cacheSubordinate s))"
    using m1 m2 unfolding p Let_def by (simp add: c_MaxCacheSize_def TIME_CONVERSION_TO_SECONDS_def)
next
  show "accounted (m_state (Messaging_Initialize P shared c))"
    using assms(1) by (simp add: Messaging_Initialize_def Controller_Initialize_def accounted_def)
  show "accounted (m_state (Cleanup P keep c))"
    using assms(1) by (simp add: Cleanup_def Let_def accounted_def)
  show "accounted (PurgeCache P (m_state c))" using assms(1) by (rule PurgeCache_accounted)
next
  fix b c' assume "Messaging_ProcessPayload P requests replies c = Some (b, c')"
  from ProcessPayload_good(2) [OF assms(2,3) this assms(1)] show "accounted (m_state c')" .
next
  fix ok crit ptr n c' assume "ReplyToCommand P ok crit ptr n c = Some c'"
  from ReplyToCommand_accounted [OF this assms(1)] show "accounted (m_state c')" .
next
  fix cmd n payload flags b c' assume "SendEvent P cmd n payload flags c = Some (b, c')"
  from SendEvent_accounted [OF this assms(1)] show "accounted (m_state c')" .
qed

definition example_platform :: "u8 list Platform" where
  "example_platform = \<lparr>DebuggerPort_Read = (\<lambda>e n. ([], e)), DebuggerPort_Write = (\<lambda>e bs. (length bs, e @ bs)),
     DebuggerPort_Flush = id, DebuggerPort_Initialize = id, DebuggerPort_Uninitialize = id,
     Memory_Allocate = (\<lambda>e n. (Some (replicate (unat n) 0), e)), Memory_Release = id, SignalEvents = id,
     Time_GetMachineTime = (\<lambda>e. 40000000), HAL_Time_CurrentTicks = (\<lambda>e. 0), HAL_Time_TicksToTime = id,
     sizeof_CachedMessage = 96, sizeof_EP_Message = 40\<rparr>"

definition example_messaging :: "WP_Packet \<Rightarrow> CachedMessage list \<Rightarrow> u8 list messaging" where
  "example_messaging h cs = (Controller_Initialize (Some MARKER_DEBUGGER_V1)
     \<lparr>m_cacheSubordinate = cs, m_cacheMaster = [], m_cacheTotalSize = sizes cs, m_fInitialized = True,
      m_endPoints = [], m_env = []\<rparr>)\<lparr>m_inboundMessage := WP_Message_Initialize\<lparr>m_header := h\<rparr>\<rparr>"

definition example_cached :: "int \<Rightarrow> u32 \<Rightarrow> CachedMessage" where
  "example_cached t n = \<lparr>cm_flags = 0, cm_size = n, cm_lastSeen = t, cm_message = WP_Message_Initialize\<rparr>"

lemma example_reliable: "reliable example_platform"
  by (simp add: reliable_def example_platform_def)

theorem cache_accounting_witness:
  "let s = m_state (example_messaging zero_header [example_cached 30000000 3000, example_cached 20000000 1000,
       example_cached 5 2000])
   in m_cacheTotalSize (PurgeCache example_platform s) \<le> 5 * 1024 \<and> accounted (PurgeCache example_platform s)"
proof -
  let ?c = "example_messaging zero_header [example_cached 30000000 3000, example_cached 20000000 1000,
       example_cached 5 2000]"
  have a: "accounted (m_state ?c)" by (simp add: example_messaging_def accounted_def Controller_Initialize_def)
  have b: "nat_sizes (m_cacheMaster (m_state ?c)) + nat_sizes (m_cacheSubordinate (m_state ?c)) < 2 ^ 32"
    by (simp add: example_messaging_def Controller_Initialize_def example_cached_def)
  note t = cache_accounting [OF a messaging_tables_good [OF example_reliable], of example_platform,
      THEN conjunct2, THEN conjunct2, THEN conjunct2, THEN conjunct2, THEN conjunct2]
  show ?thesis
    unfolding Let_def
    using t [THEN conjunct1] t [THEN conjunct2, THEN mp, OF b, unfolded Let_def, THEN conjunct1] by (rule conjI [rotated])
qed



end
