(* ===== verification/Compression.thy ===== *)
theory Compression
  imports Prelude
begin

text \<open>
  The LZ77 format of the port boot loader (\<open>Support/WireProtocol/Compression.cpp\<close>): the decompressor
  that runs on the device, with its ring-shaped window, and the part of the compressor that packs
  literals and references into flag bytes and data bytes. A buffer is the list of its bytes; the
  output buffer is the list of the bytes written so far and the room it has.
\<close>

section \<open>The code words\<close>

definition WINSIZE :: nat where "WINSIZE = 4096"
definition MAXLEN :: nat where "MAXLEN = 18"

definition LZ_LENGTH :: "u8 \<Rightarrow> nat" where
  "LZ_LENGTH x = unat (x AND 0x0F) + 3"

definition LZ_OFFSET :: "u8 \<Rightarrow> u8 \<Rightarrow> nat" where
  "LZ_OFFSET x1 x2 = ((unat (drop_bit 4 (x2 AND 0xF0)) * 0x0100 + unat x1) AND 0x0FFF) + 0x0010"

definition FAKE2REAL_POS :: "nat \<Rightarrow> nat" where
  "FAKE2REAL_POS x = x AND (WINSIZE - 1)"

definition BITSET :: "u8 \<Rightarrow> nat \<Rightarrow> bool" where
  "BITSET byte i \<longleftrightarrow> byte AND push_bit i 1 > 0"

definition COMP_CODE :: "int \<Rightarrow> int \<Rightarrow> int" where
  "COMP_CODE x y = push_bit 8 ((x - 3) AND 0x0F) + push_bit 4 ((y - 0x10) AND 0x0F00) + ((y - 0x10) AND 0x00FF)"

definition COMP_CODE_LOBYTE :: "int \<Rightarrow> u8" where
  "COMP_CODE_LOBYTE x = word_of_int x"

definition COMP_CODE_HIBYTE :: "int \<Rightarrow> u8" where
  "COMP_CODE_HIBYTE x = ucast (drop_bit 8 (word_of_int x :: u16) AND 0xFF)"

definition ADD_INDEX :: "nat \<Rightarrow> nat" where
  "ADD_INDEX x = (if x + 1 = WINSIZE then 0 else x + 1)"

definition DROP_INDEX :: "nat \<Rightarrow> nat" where
  "DROP_INDEX x = (if x = 0 then WINSIZE - 1 else x - 1)"

section \<open>Decompression\<close>

record lz_state =
  inBuf :: "u8 list"
  outBuf :: "u8 list"
  lz_window :: "u8 list"
  currPos :: nat

text \<open>
  \<open>Inl\<close> is the early return of -1. \<open>lz_put\<close> stores a byte in the window and in the output, in this
  order.
\<close>

type_synonym lz_result = "lz_state + lz_state"

definition lz_put :: "nat \<Rightarrow> u8 \<Rightarrow> lz_state \<Rightarrow> lz_result" where
  "lz_put outSize byte1 s =
     (let s = s\<lparr>lz_window := (lz_window s)[FAKE2REAL_POS (currPos s) := byte1]\<rparr>
      in if outSize \<le> length (outBuf s) then Inl s
         else Inr (s\<lparr>outBuf := outBuf s @ [byte1], currPos := currPos s + 1\<rparr>))"

fun lz_copy :: "nat \<Rightarrow> nat \<Rightarrow> nat \<Rightarrow> lz_state \<Rightarrow> lz_result" where
  "lz_copy outSize 0 offset s = Inr s"
| "lz_copy outSize (Suc len) offset s =
     (case lz_put outSize (lz_window s ! FAKE2REAL_POS offset) s of
        Inl s \<Rightarrow> Inl s | Inr s \<Rightarrow> lz_copy outSize len (offset + 1) s)"

definition lz_item :: "nat \<Rightarrow> bool \<Rightarrow> lz_state \<Rightarrow> lz_result" where
  "lz_item outSize literal s =
     (if \<not> literal then
        (case inBuf s of
           byte1 # byte2 # rest \<Rightarrow> lz_copy outSize (LZ_LENGTH byte2) (LZ_OFFSET byte1 byte2) (s\<lparr>inBuf := rest\<rparr>)
         | _ \<Rightarrow> Inl (s\<lparr>inBuf := []\<rparr>))
      else
        (case inBuf s of
           byte1 # rest \<Rightarrow> lz_put outSize byte1 (s\<lparr>inBuf := rest\<rparr>)
         | [] \<Rightarrow> Inl s))"

text \<open>The items of one bit map; \<open>n\<close> is what is left of the eight, so the counter is \<open>8 - n\<close>.\<close>

fun lz_items :: "nat \<Rightarrow> u8 \<Rightarrow> nat \<Rightarrow> lz_state \<Rightarrow> lz_result" where
  "lz_items outSize bitMap 0 s = Inr s"
| "lz_items outSize bitMap (Suc n) s =
     (if length (outBuf s) < outSize then
        (case lz_item outSize (BITSET bitMap (8 - Suc n)) s of
           Inl s \<Rightarrow> Inl s | Inr s \<Rightarrow> lz_items outSize bitMap n s)
      else Inr s)"

lemma lz_put_input:
  "lz_put outSize b s = Inr s' \<Longrightarrow> inBuf s' = inBuf s"
  by (auto simp: lz_put_def Let_def split: if_splits)

lemma lz_copy_input: "lz_copy outSize n offset s = Inr s' \<Longrightarrow> inBuf s' = inBuf s"
  by (induction n arbitrary: offset s) (auto split: sum.splits dest: lz_put_input)

lemma lz_items_input: "lz_items outSize bitMap n s = Inr s' \<Longrightarrow> length (inBuf s') \<le> length (inBuf s)"
proof (induction n arbitrary: s)
  case (Suc n)
  have "length (inBuf s1) \<le> length (inBuf s)" if "lz_item outSize l s = Inr s1" for s1 l
    using that lz_copy_input by (fastforce simp: lz_item_def split: if_splits list.splits dest: lz_put_input)
  with Suc show ?case by (fastforce split: if_splits sum.splits dest: le_trans)
qed simp

function lz_loop :: "nat \<Rightarrow> lz_state \<Rightarrow> lz_result" where
  "lz_loop outSize s =
     (case inBuf s of [] \<Rightarrow> Inr s
      | bitMap # rest \<Rightarrow>
          (case lz_items outSize bitMap 8 (s\<lparr>inBuf := rest\<rparr>) of Inl s \<Rightarrow> Inl s | Inr s \<Rightarrow> lz_loop outSize s))"
  by pat_completeness auto
termination
  by (relation "measure (\<lambda>(outSize, s). length (inBuf s))") (auto dest: lz_items_input)

declare lz_loop.simps [simp del]

definition lz_start :: "u8 list \<Rightarrow> lz_state" where
  "lz_start inp = \<lparr>inBuf = inp, outBuf = [], lz_window = replicate WINSIZE 0x20, currPos = 0\<rparr>"

text \<open>The value returned and the bytes written.\<close>

definition LZ77_Decompress :: "u8 list \<Rightarrow> nat \<Rightarrow> int \<times> u8 list" where
  "LZ77_Decompress inp outSize =
     (case lz_loop outSize (lz_start inp) of Inl s \<Rightarrow> (-1, outBuf s) | Inr s \<Rightarrow> (1, outBuf s))"

section \<open>Packing\<close>

record LZ77_Compressor =
  m_flagByte :: u8
  m_dataBytes :: "u8 list"
  m_dataCount :: nat
  m_flagCount :: nat
  m_outfile :: "u8 list"

definition WriteByte :: "u8 \<Rightarrow> LZ77_Compressor \<Rightarrow> LZ77_Compressor" where
  "WriteByte ch c = c\<lparr>m_outfile := m_outfile c @ [ch]\<rparr>"

text \<open>A store outside the 17 data bytes is None.\<close>

definition put_data :: "nat \<Rightarrow> u8 \<Rightarrow> LZ77_Compressor \<Rightarrow> LZ77_Compressor option" where
  "put_data i ch c = (if i < length (m_dataBytes c) then Some (c\<lparr>m_dataBytes := (m_dataBytes c)[i := ch]\<rparr>) else None)"

definition WriteFlagByte :: "LZ77_Compressor \<Rightarrow> LZ77_Compressor option" where
  "WriteFlagByte c =
     (if m_flagCount c > 0 then
        (case put_data (m_dataCount c) 0 c of None \<Rightarrow> None | Some c \<Rightarrow>
         let c = WriteByte (m_flagByte c) c; c = fold WriteByte (take (m_dataCount c) (m_dataBytes c)) c
         in Some (c\<lparr>m_dataCount := 0, m_flagCount := 0, m_flagByte := 0,
              m_dataBytes := replicate (length (m_dataBytes c)) 0x20\<rparr>))
      else Some c)"

definition CheckFlagByte :: "LZ77_Compressor \<Rightarrow> LZ77_Compressor option" where
  "CheckFlagByte c =
     (let c = c\<lparr>m_dataCount := m_dataCount c + 1, m_flagCount := m_flagCount c + 1\<rparr>
      in if m_flagCount c = 8 then WriteFlagByte c else Some c)"

definition SaveUncompByte :: "u8 \<Rightarrow> LZ77_Compressor \<Rightarrow> LZ77_Compressor option" where
  "SaveUncompByte ch c =
     (let c = c\<lparr>m_flagByte := m_flagByte c OR push_bit (m_flagCount c) 1\<rparr>
      in case put_data (m_dataCount c) ch c of None \<Rightarrow> None | Some c \<Rightarrow> CheckFlagByte c)"

text \<open>The reference emitted by \<open>Execute\<close>.\<close>

definition SaveCompCode :: "nat \<Rightarrow> nat \<Rightarrow> LZ77_Compressor \<Rightarrow> LZ77_Compressor option" where
  "SaveCompCode count offset c =
     (let iCompCode = COMP_CODE (int count) (int offset)
      in case put_data (m_dataCount c) (COMP_CODE_LOBYTE iCompCode) c of None \<Rightarrow> None | Some c \<Rightarrow>
         let c = c\<lparr>m_dataCount := m_dataCount c + 1\<rparr>
         in case put_data (m_dataCount c) (COMP_CODE_HIBYTE iCompCode) c of None \<Rightarrow> None | Some c \<Rightarrow>
            CheckFlagByte c)"

definition Compressor_Initialize :: "u8 list \<Rightarrow> LZ77_Compressor" where
  "Compressor_Initialize db = \<lparr>m_flagByte = 0, m_dataBytes = db, m_dataCount = 0, m_flagCount = 0, m_outfile = []\<rparr>"

section \<open>The format as a specification\<close>

text \<open>
  A stream of literals and references into the last 4096 bytes, the text before the first byte being
  spaces. A reference gives the position in the window; \<open>dist\<close> is how far back that is.
\<close>

datatype lz_token = Literal u8 | Reference nat nat

definition look_back :: "u8 list \<Rightarrow> nat \<Rightarrow> u8" where
  "look_back out d = (if d \<le> length out then out ! (length out - d) else 0x20)"

fun copy_back :: "nat \<Rightarrow> nat \<Rightarrow> u8 list \<Rightarrow> u8 list" where
  "copy_back 0 d out = out"
| "copy_back (Suc n) d out = copy_back n d (out @ [look_back out d])"

definition dist :: "u8 list \<Rightarrow> nat \<Rightarrow> nat" where
  "dist out pos = (length out + 4095 - pos) mod 4096 + 1"

fun expand1 :: "lz_token \<Rightarrow> u8 list \<Rightarrow> u8 list" where
  "expand1 (Literal b) out = out @ [b]"
| "expand1 (Reference n pos) out = copy_back n (dist out pos) out"

definition expand :: "lz_token list \<Rightarrow> u8 list \<Rightarrow> u8 list" where
  "expand ts out = fold expand1 ts out"

fun token_ok :: "lz_token \<Rightarrow> bool" where
  "token_ok (Literal b) = True"
| "token_ok (Reference n pos) = (3 \<le> n \<and> n \<le> 18 \<and> pos < 4096)"

fun is_literal :: "lz_token \<Rightarrow> bool" where
  "is_literal (Literal b) = True"
| "is_literal (Reference n pos) = False"

fun token_bytes :: "lz_token \<Rightarrow> u8 list" where
  "token_bytes (Literal b) = [b]"
| "token_bytes (Reference n pos) =
     [COMP_CODE_LOBYTE (COMP_CODE (int n) (int pos)), COMP_CODE_HIBYTE (COMP_CODE (int n) (int pos))]"

definition flag_bits :: "lz_token list \<Rightarrow> u8" where
  "flag_bits ts = horner_sum of_bool 2 (map is_literal ts)"

fun packed :: "lz_token list \<Rightarrow> u8 list" where
  "packed [] = []"
| "packed (t # ts) = flag_bits (t # take 7 ts) # concat (map token_bytes (t # take 7 ts)) @ packed (drop 7 ts)"

lemma expand_simps [simp]: "expand [] out = out" "expand (t # ts) out = expand ts (expand1 t out)"
  "expand (ts @ us) out = expand us (expand ts out)"
  by (simp_all add: expand_def)

lemma copy_back_append: "\<exists>xs. copy_back n d out = out @ xs \<and> length xs = n"
proof (induction n arbitrary: out)
  case (Suc n)
  from Suc [of "out @ [look_back out d]"] show ?case by (auto intro: exI [of _ "look_back out d # _"])
qed simp

lemma copy_back_length [simp]: "length (copy_back n d out) = length out + n"
  using copy_back_append [of n d out] by auto

lemma expand1_append: "\<exists>xs. expand1 t out = out @ xs \<and> (token_ok t \<longrightarrow> xs \<noteq> [])"
proof (cases t)
  case (Reference n pos)
  obtain xs where "copy_back n (dist out pos) out = out @ xs" "length xs = n" using copy_back_append by blast
  then show ?thesis using Reference by (intro exI [of _ xs]) auto
qed simp

lemma expand_append: "\<exists>xs. expand ts out = out @ xs"
proof (induction ts arbitrary: out)
  case (Cons t ts)
  then show ?case using expand1_append [of t out] by (metis append.assoc expand_simps(2))
qed simp

lemma expand_length: "length out \<le> length (expand ts out)"
  using expand_append [of ts out] by auto

text \<open>Codes: three to eighteen bytes and a window position, in two bytes.\<close>

lemma and_4095: "x AND 4095 = x mod (4096 :: nat)"
  using take_bit_eq_mask [of 12 x] by (simp add: take_bit_eq_mod mask_eq_exp_minus_1)

lemma FAKE2REAL_mod: "FAKE2REAL_POS x = x mod 4096"
  by (simp add: FAKE2REAL_POS_def WINSIZE_def and_4095)

lemma comp_code_value:
  assumes "3 \<le> n" "n \<le> 18" "z = (y - 16) mod 4096"
  shows "COMP_CODE n y = 256 * (n - 3) + 4096 * (z div 256) + z mod 256"
proof -
  have 1: "(y - 16) AND 255 = z mod 256"
    using take_bit_eq_mask [of 8 "y - 16"] assms(3) by (simp add: take_bit_eq_mod mask_eq_exp_minus_1 mod_mod_cancel)
  have 2: "(y - 16) AND 0x0F00 = 256 * (z div 256)"
  proof -
    have "(0x0F00 :: int) = push_bit 8 (mask 4)" by (simp add: push_bit_eq_mult mask_eq_exp_minus_1)
    then have "(y - 16) AND 0x0F00 = (y - 16) AND push_bit 8 (mask 4)" by (simp only:)
    also have "\<dots> = push_bit 8 (take_bit 4 (drop_bit 8 (y - 16)))"
      by (rule bit_eqI) (auto simp: bit_and_iff bit_push_bit_iff bit_mask_iff bit_take_bit_iff bit_drop_bit_eq)
    also have "\<dots> = 256 * ((y - 16) div 256 mod 16)" by (simp add: push_bit_eq_mult take_bit_eq_mod drop_bit_eq_div)
    also have "(y - 16) div 256 mod 16 = z div 256"
    proof -
      have "z = 256 * ((y - 16) div 256 mod 16) + (y - 16) mod 256"
        using zmod_zmult2_eq [of 16 "y - 16" 256] by (simp add: assms(3))
      then show ?thesis by simp
    qed
    finally show ?thesis .
  qed
  have 3: "(n - 3) AND 15 = n - 3"
    using take_bit_eq_mask [of 4 "n - 3"] assms(1,2) by (simp add: take_bit_eq_mod mask_eq_exp_minus_1)
  show ?thesis by (simp add: COMP_CODE_def 1 2 3 push_bit_eq_mult)
qed

lemma unat_nat_mod: "unat (word_of_nat n :: u8) = n mod 256" "unat (word_of_nat n :: u16) = n mod 65536"
  by (simp_all add: unsigned_of_nat take_bit_eq_mod)

lemma unat_drop_8: "unat (drop_bit 8 (w :: u16)) = unat w div 256"
  by (simp add: drop_bit_eq_div unat_div)

lemma unat_low_8: "unat (ucast (take_bit 8 (w :: u16)) :: u8) = unat w mod 256"
  by (simp add: unsigned_ucast_eq take_bit_eq_mod unat_mod)

lemma code_bytes:
  assumes "token_ok (Reference n pos)"
  defines "lo \<equiv> COMP_CODE_LOBYTE (COMP_CODE (int n) (int pos))" and "hi \<equiv> COMP_CODE_HIBYTE (COMP_CODE (int n) (int pos))"
  shows "LZ_LENGTH hi = n" "LZ_OFFSET lo hi mod 4096 = pos"
proof -
  define z where "z = (int pos - 16) mod 4096"
  define q r k where "q = nat (z div 256)" and "r = nat (z mod 256)" and "k = n - 3"
  have z: "0 \<le> z" "z < 4096" by (simp_all add: z_def)
  have "0 \<le> z div 256" "z div 256 < 16" "0 \<le> z mod 256" "z mod 256 < 256" using z by simp_all
  then have qr: "z = int (256 * q + r)" "q < 16" "r < 256" by (simp_all add: q_def r_def nat_less_iff)
  have k: "n = k + 3" "k < 16" using assms(1) unfolding token_ok.simps k_def by linarith+
  have "COMP_CODE (int n) (int pos) = 256 * (int n - 3) + 4096 * (z div 256) + z mod 256"
    using assms(1) by (intro comp_code_value) (simp_all add: z_def)
  also have "\<dots> = int (256 * (k + 16 * q) + r)"
    using qr k z by (simp add: q_def r_def)
  finally have code: "COMP_CODE (int n) (int pos) = int (256 * (k + 16 * q) + r)" .
  have w: "k + 16 * q < 256" using k qr by simp
  have lo: "unat lo = r"
    unfolding lo_def COMP_CODE_LOBYTE_def code of_int_of_nat_eq unat_nat_mod using qr(3)
    by (simp only: mod_mult_self4 mod_less)
  have hi: "unat hi = k + 16 * q"
  proof -
    have "unat (word_of_int (int (256 * (k + 16 * q) + r)) :: u16) = 256 * (k + 16 * q) + r"
      unfolding of_int_of_nat_eq unat_nat_mod using w qr(3) by simp
    then have d: "unat (drop_bit 8 (word_of_int (int (256 * (k + 16 * q) + r)) :: u16)) = k + 16 * q"
      using qr(3) unfolding unat_drop_8 by (simp only: div_mult_self4 div_less)
    have "(0xFF :: u16) = mask 8" by (simp add: mask_eq_exp_minus_1)
    then have "hi = ucast (take_bit 8 (drop_bit 8 (word_of_int (int (256 * (k + 16 * q) + r)) :: u16)))"
      unfolding hi_def COMP_CODE_HIBYTE_def code by (simp only: take_bit_eq_mask)
    then have "unat hi = unat (drop_bit 8 (word_of_int (int (256 * (k + 16 * q) + r)) :: u16)) mod 256"
      by (simp only: unat_low_8)
    then show ?thesis using w d by simp
  qed
  have "hi AND 0x0F = take_bit 4 hi" using take_bit_eq_mask [of 4 hi] by (simp add: mask_eq_exp_minus_1)
  then show "LZ_LENGTH hi = n"
    using k by (simp add: LZ_LENGTH_def take_bit_eq_mod unat_mod hi)
  have "drop_bit 4 (hi AND 0xF0) = drop_bit 4 hi"
  proof -
    have "(0xF0 :: u8) = push_bit 4 (mask 4)" by (simp add: push_bit_eq_mult mask_eq_exp_minus_1)
    then have "drop_bit 4 (hi AND 0xF0) = drop_bit 4 (hi AND push_bit 4 (mask 4))" by (simp only:)
    also have "\<dots> = drop_bit 4 hi"
      by (rule bit_word_eqI)
        (auto simp: bit_drop_bit_eq bit_and_iff bit_push_bit_iff bit_mask_iff dest: bit_imp_le_length)
    finally show ?thesis .
  qed
  then have "unat (drop_bit 4 (hi AND 0xF0)) = q"
    using k by (simp add: drop_bit_eq_div unat_div hi)
  then have "LZ_OFFSET lo hi = (256 * q + r) + 16"
    using qr by (simp add: LZ_OFFSET_def lo and_4095)
  then have "int (LZ_OFFSET lo hi mod 4096) = (z + 16) mod 4096" by (simp add: qr(1) zmod_int)
  also have "\<dots> = int pos" using assms(1) by (simp add: z_def mod_add_left_eq)
  finally show "LZ_OFFSET lo hi mod 4096 = pos" by (simp only: of_nat_eq_iff)
qed

section \<open>The window is the end of the output\<close>

definition win_ok :: "lz_state \<Rightarrow> bool" where
  "win_ok s \<longleftrightarrow> length (lz_window s) = 4096 \<and> currPos s = length (outBuf s) \<and>
     (\<forall>d. 1 \<le> d \<and> d \<le> 4096 \<longrightarrow> lz_window s ! ((currPos s + 4096 - d) mod 4096) = look_back (outBuf s) d)"

lemma win_ok_start: "win_ok (lz_start inp)"
  by (simp add: win_ok_def lz_start_def WINSIZE_def look_back_def)

lemma win_ok_input [simp]: "win_ok (s\<lparr>inBuf := i\<rparr>) = win_ok s"
  by (simp add: win_ok_def)

lemma lz_put_ok:
  assumes "win_ok s" "length (outBuf s) < outSize"
  shows "\<exists>s'. lz_put outSize b s = Inr s' \<and> win_ok s' \<and> outBuf s' = outBuf s @ [b] \<and> inBuf s' = inBuf s"
proof -
  let ?s = "s\<lparr>lz_window := (lz_window s)[currPos s mod 4096 := b], outBuf := outBuf s @ [b], currPos := currPos s + 1\<rparr>"
  have w: "length (lz_window s) = 4096" "currPos s = length (outBuf s)" using assms(1) by (simp_all add: win_ok_def)
  have look: "lz_window ?s ! ((currPos ?s + 4096 - d) mod 4096) = look_back (outBuf ?s) d" if "1 \<le> d" "d \<le> 4096" for d
  proof (cases "d = 1")
    case True
    then show ?thesis using w by (simp add: look_back_def)
  next
    case False
    have i: "(currPos ?s + 4096 - d) mod 4096 = (currPos s + 4096 - (d - 1)) mod 4096"
      using that by (intro arg_cong [of _ _ "\<lambda>x. x mod 4096"]) simp
    have "(currPos s + 4096 - (d - 1)) mod 4096 \<noteq> currPos s mod 4096"
    proof
      assume "(currPos s + 4096 - (d - 1)) mod 4096 = currPos s mod 4096"
      then have "\<exists>q1 q2. currPos s + 4096 - (d - 1) + 4096 * q1 = currPos s + 4096 * q2"
        by (simp only: nat_mod_eq_iff)
      then obtain q1 q2 where "currPos s + 4096 - (d - 1) + 4096 * q1 = currPos s + 4096 * q2" by (elim exE)
      then have "4096 + 4096 * q1 = (d - 1) + 4096 * q2" using that by simp
      then have "4096 dvd (d - 1) + 4096 * q2" by (metis dvd_add dvd_refl dvd_triv_left)
      then have "4096 dvd d - 1" by (simp only: dvd_add_left_iff dvd_triv_left)
      moreover have "0 < d - 1" "d - 1 < 4096" using that False by linarith+
      ultimately show False using nat_dvd_not_less by blast
    qed
    moreover have "lz_window s ! ((currPos s + 4096 - (d - 1)) mod 4096) = look_back (outBuf s) (d - 1)"
    proof -
      have "1 \<le> d - 1 \<and> d - 1 \<le> 4096" using that False by linarith
      then show ?thesis using assms(1) unfolding win_ok_def by blast
    qed
    moreover have "look_back (outBuf s) (d - 1) = look_back (outBuf ?s) d"
      using that False by (auto simp: look_back_def nth_append)
    ultimately show ?thesis using i by simp
  qed
  have wo: "win_ok ?s"
    unfolding win_ok_def
  proof (intro conjI allI impI)
    fix d :: nat assume "1 \<le> d \<and> d \<le> 4096"
    then show "lz_window ?s ! ((currPos ?s + 4096 - d) mod 4096) = look_back (outBuf ?s) d" using look by blast
  qed (use w in simp_all)
  have put: "lz_put outSize b s = Inr ?s" using assms(2) by (simp add: lz_put_def Let_def FAKE2REAL_mod)
  show ?thesis by (rule exI [of _ ?s], intro conjI put wo) simp_all
qed

lemma lz_put_full: "outSize \<le> length (outBuf s) \<Longrightarrow> \<exists>s'. lz_put outSize b s = Inl s' \<and> outBuf s' = outBuf s"
  by (simp add: lz_put_def Let_def)

definition lz_out :: "lz_result \<Rightarrow> u8 list" where
  "lz_out r = (case r of Inl s \<Rightarrow> outBuf s | Inr s \<Rightarrow> outBuf s)"

lemma lz_out_simps [simp]: "lz_out (Inl s) = outBuf s" "lz_out (Inr s) = outBuf s"
  by (simp_all add: lz_out_def)

lemma lz_copy_ok:
  assumes "win_ok s" "length (outBuf s) + n \<le> outSize" "1 \<le> d" "d \<le> 4096"
    "offset mod 4096 = (length (outBuf s) + 4096 - d) mod 4096"
  shows "\<exists>s'. lz_copy outSize n offset s = Inr s' \<and> win_ok s' \<and> outBuf s' = copy_back n d (outBuf s) \<and> inBuf s' = inBuf s"
  using assms
proof (induction n arbitrary: offset s)
  case (Suc n)
  have b: "lz_window s ! (offset mod 4096) = look_back (outBuf s) d"
  proof -
    have "currPos s = length (outBuf s)" using Suc.prems(1) by (simp add: win_ok_def)
    then show ?thesis using Suc.prems(1,3,4,5) unfolding win_ok_def by metis
  qed
  obtain s1 where s1: "lz_put outSize (look_back (outBuf s) d) s = Inr s1" "win_ok s1"
    "outBuf s1 = outBuf s @ [look_back (outBuf s) d]" "inBuf s1 = inBuf s"
    using lz_put_ok [OF Suc.prems(1), of outSize] Suc.prems(2) by auto
  have "(offset + 1) mod 4096 = (length (outBuf s) + 4096 - d + 1) mod 4096"
    using Suc.prems(5) by (metis mod_add_left_eq)
  also have "length (outBuf s) + 4096 - d + 1 = length (outBuf s1) + 4096 - d"
    using Suc.prems(4) s1(3) by simp
  finally obtain s' where "lz_copy outSize n (offset + 1) s1 = Inr s'" "win_ok s'"
    "outBuf s' = copy_back n d (outBuf s1)" "inBuf s' = inBuf s1"
    using Suc.IH [OF s1(2) _ Suc.prems(3,4)] Suc.prems(2) s1(3) by auto
  then show ?case using s1 b by (simp add: FAKE2REAL_mod)
qed simp

lemma lz_copy_full:
  assumes "win_ok s" "outSize < length (outBuf s) + n" "length (outBuf s) \<le> outSize" "1 \<le> d" "d \<le> 4096"
    "offset mod 4096 = (length (outBuf s) + 4096 - d) mod 4096"
  shows "\<exists>s'. lz_copy outSize n offset s = Inl s' \<and> outBuf s' = take outSize (copy_back n d (outBuf s))"
proof -
  have split: "lz_copy outSize (m + k) o1 s1 = (case lz_copy outSize m o1 s1 of Inl s \<Rightarrow> Inl s
      | Inr s \<Rightarrow> lz_copy outSize k (o1 + m) s)" for m k o1 s1
    by (induction m arbitrary: o1 s1) (auto split: sum.split)
  have cb: "copy_back (m + k) d out = copy_back k d (copy_back m d out)" for m k out
    by (induction m arbitrary: out) auto
  define m where "m = outSize - length (outBuf s)"
  obtain k where k: "n = m + Suc k" using assms(2,3) unfolding m_def
    by (metis Suc_leI add_diff_inverse_nat less_diff_conv2 less_imp_Suc_add linorder_not_le add.commute add_Suc_right)
  obtain s1 where s1: "lz_copy outSize m offset s = Inr s1" "outBuf s1 = copy_back m d (outBuf s)"
    using lz_copy_ok [OF assms(1) _ assms(4-6), of m outSize] assms(3) by (auto simp: m_def)
  have l: "length (copy_back m d (outBuf s)) = outSize" using assms(3) by (simp add: m_def)
  obtain xs where "copy_back n d (outBuf s) = copy_back m d (outBuf s) @ xs"
    using copy_back_append [of "Suc k" d "copy_back m d (outBuf s)"] unfolding k cb by auto
  then have "take outSize (copy_back n d (outBuf s)) = copy_back m d (outBuf s)" using l by simp
  moreover obtain s2 where "lz_put outSize (lz_window s1 ! FAKE2REAL_POS (offset + m)) s1 = Inl s2"
    "outBuf s2 = outBuf s1" using lz_put_full [of outSize s1] s1(2) l by (metis order_refl)
  ultimately show ?thesis using s1 unfolding k split by simp
qed

section \<open>Decoding a packed stream\<close>

lemma dist_ok: "1 \<le> dist out pos \<and> dist out pos \<le> 4096"
  by (simp add: dist_def)

lemma dist_offset:
  assumes "offset mod 4096 = pos" "pos < 4096"
  shows "offset mod 4096 = (length out + 4096 - dist out pos) mod 4096"
proof -
  define m where "m = length out + 4095 - pos"
  have "length out + 4096 - dist out pos = length out + 4095 - m mod 4096"
    by (simp add: dist_def m_def)
  also have "\<dots> = pos + m - m mod 4096" using assms(2) by (simp add: m_def)
  also have "\<dots> = pos + 4096 * (m div 4096)"
    by (metis Nat.add_diff_assoc minus_mod_eq_mult_div mod_less_eq_dividend)
  finally show ?thesis using assms by simp
qed

lemma lz_item_ok:
  assumes "win_ok s" "token_ok t" "inBuf s = token_bytes t @ rest" "length (expand1 t (outBuf s)) \<le> outSize"
  shows "\<exists>s'. lz_item outSize (is_literal t) s = Inr s' \<and> win_ok s' \<and> outBuf s' = expand1 t (outBuf s) \<and> inBuf s' = rest"
proof (cases t)
  case (Literal b)
  then show ?thesis using assms lz_put_ok [of "s\<lparr>inBuf := rest\<rparr>" outSize b] by (auto simp: lz_item_def)
next
  case (Reference n pos)
  have "pos < 4096" using assms(2) Reference by simp
  note d = dist_offset [OF code_bytes(2) [OF assms(2) [unfolded Reference]] this, of "outBuf s"]
  show ?thesis
    using assms Reference code_bytes(1) [of n pos] dist_ok [of "outBuf s" pos]
      lz_copy_ok [of "s\<lparr>inBuf := rest\<rparr>" n outSize "dist (outBuf s) pos"
        "LZ_OFFSET (COMP_CODE_LOBYTE (COMP_CODE (int n) (int pos))) (COMP_CODE_HIBYTE (COMP_CODE (int n) (int pos)))"] d
    by (auto simp: lz_item_def)
qed

lemma lz_item_full:
  assumes "win_ok s" "token_ok t" "inBuf s = token_bytes t @ rest" "outSize < length (expand1 t (outBuf s))"
    "length (outBuf s) < outSize"
  shows "\<exists>s'. lz_item outSize (is_literal t) s = Inl s' \<and> outBuf s' = take outSize (expand1 t (outBuf s))"
proof (cases t)
  case (Literal b)
  then show ?thesis using assms(4,5) by simp
next
  case (Reference n pos)
  have "pos < 4096" using assms(2) Reference by simp
  note d = dist_offset [OF code_bytes(2) [OF assms(2) [unfolded Reference]] this, of "outBuf s"]
  show ?thesis
    using assms Reference code_bytes(1) [of n pos] dist_ok [of "outBuf s" pos]
      lz_copy_full [of "s\<lparr>inBuf := rest\<rparr>" outSize n "dist (outBuf s) pos"
        "LZ_OFFSET (COMP_CODE_LOBYTE (COMP_CODE (int n) (int pos))) (COMP_CODE_HIBYTE (COMP_CODE (int n) (int pos)))"] d
    by (auto simp: lz_item_def)
qed

lemma expand1_longer: "token_ok t \<Longrightarrow> length out < length (expand1 t out)"
  using expand1_append [of t out] by auto

lemma take_expand: "n \<le> length out \<Longrightarrow> take n (expand ts out) = take n out"
  using expand_append [of ts out] by auto

text \<open>The bit map of a group announces its tokens, from the counter on.\<close>

definition announces :: "u8 \<Rightarrow> nat \<Rightarrow> lz_token list \<Rightarrow> bool" where
  "announces bitMap k ts \<longleftrightarrow> k + length ts \<le> 8 \<and> (\<forall>i < length ts. BITSET bitMap (k + i) = is_literal (ts ! i))"

lemma announces_Cons: "announces bitMap k (t # ts) \<longleftrightarrow>
    k < 8 \<and> BITSET bitMap k = is_literal t \<and> announces bitMap (Suc k) ts"
  unfolding announces_def by (auto simp: less_Suc_eq_0_disj nth_Cons' split: if_splits)

lemma lz_items_full: "outSize \<le> length (outBuf s) \<Longrightarrow> lz_items outSize bitMap n s = Inr s"
  by (cases n) auto

lemma lz_items_ok:
  assumes "win_ok s" "\<forall>t \<in> set ts. token_ok t" "inBuf s = concat (map token_bytes ts) @ rest"
    and "announces bitMap (8 - n) ts" "length ts \<le> n" "n \<le> 8" "length (outBuf s) \<le> outSize"
    and "length ts = n \<or> rest = []"
  shows "lz_out (lz_items outSize bitMap n s) = take outSize (expand ts (outBuf s)) \<and>
    (length (expand ts (outBuf s)) \<le> outSize \<and> (length ts = n \<or> length (expand ts (outBuf s)) = outSize) \<longrightarrow>
      (\<exists>s'. lz_items outSize bitMap n s = Inr s' \<and> win_ok s' \<and> inBuf s' = rest)) \<and>
    (length (expand ts (outBuf s)) < outSize \<and> length ts < n \<longrightarrow> (\<exists>s'. lz_items outSize bitMap n s = Inl s'))"
  using assms
proof (induction ts arbitrary: s n)
  case Nil
  show ?case
  proof (cases n)
    case (Suc m)
    then have "inBuf s = []" using Nil.prems by simp
    then show ?thesis using Nil.prems Suc by (auto simp: lz_item_def)
  qed (use Nil.prems in simp)
next
  case (Cons t ts)
  obtain m where n: "n = Suc m" using Cons.prems(5) by (cases n) auto
  have a: "BITSET bitMap (8 - Suc m) = is_literal t" "announces bitMap (8 - m) ts"
  proof -
    have "Suc (8 - Suc m) = 8 - m" using Cons.prems(6) n by simp
    then show "BITSET bitMap (8 - Suc m) = is_literal t" "announces bitMap (8 - m) ts"
      using Cons.prems(4) unfolding n announces_Cons by metis+
  qed
  have tk: "token_ok t" "\<forall>t \<in> set ts. token_ok t" using Cons.prems(2) by simp_all
  have inp: "inBuf s = token_bytes t @ concat (map token_bytes ts) @ rest" using Cons.prems(3) by simp
  consider "outSize \<le> length (outBuf s)" | "length (outBuf s) < outSize" "length (expand1 t (outBuf s)) \<le> outSize"
    | "length (outBuf s) < outSize" "outSize < length (expand1 t (outBuf s))" by linarith
  then show ?case
  proof cases
    case 1
    then show ?thesis
      using lz_items_full [OF 1] Cons.prems(7) expand1_longer [OF tk(1), of "outBuf s"]
        expand_length [of "expand1 t (outBuf s)" ts] take_expand [of outSize "outBuf s" "t # ts"]
      by auto
  next
    case 2
    from lz_item_ok [OF Cons.prems(1) tk(1) inp 2(2)] obtain s1 where
      s1: "lz_item outSize (is_literal t) s = Inr s1" "win_ok s1" "outBuf s1 = expand1 t (outBuf s)"
        "inBuf s1 = concat (map token_bytes ts) @ rest" by blast
    have "lz_items outSize bitMap n s = lz_items outSize bitMap m s1" using 2(1) s1(1) a(1) by (simp add: n)
    then show ?thesis
      using Cons.IH [OF s1(2) tk(2) s1(4) a(2)] Cons.prems(5,6,8) 2(2) s1(3) by (simp add: n)
  next
    case 3
    from lz_item_full [OF Cons.prems(1) tk(1) inp 3(2,1)] obtain s1 where
      s1: "lz_item outSize (is_literal t) s = Inl s1" "outBuf s1 = take outSize (expand1 t (outBuf s))" by blast
    have "lz_items outSize bitMap n s = Inl s1" using 3(1) s1(1) a(1) by (simp add: n)
    then show ?thesis
      using s1(2) 3(2) expand_length [of "expand1 t (outBuf s)" ts] take_expand [of outSize "expand1 t (outBuf s)" ts]
      by simp
  qed
qed

lemma BITSET_bit: "i < 8 \<Longrightarrow> BITSET b i \<longleftrightarrow> bit b i"
proof -
  assume "i < 8"
  have "b AND push_bit i 1 > 0 \<longleftrightarrow> b AND push_bit i 1 \<noteq> 0" by (simp add: word_gt_0)
  also have "\<dots> \<longleftrightarrow> bit b i" using bit_iff_and_push_bit_not_eq_0 [of b i] by simp
  finally show ?thesis by (simp add: BITSET_def)
qed

lemma flag_bits_announces: "length ts \<le> 8 \<Longrightarrow> announces (flag_bits ts) 0 ts"
  by (auto simp: announces_def BITSET_bit flag_bits_def bit_horner_sum_bit_word_iff)

lemma lz_loop_full:
  assumes "outSize \<le> length (outBuf s)"
  shows "\<exists>s'. lz_loop outSize s = Inr s' \<and> outBuf s' = outBuf s"
  using assms
proof (induction outSize s rule: lz_loop.induct)
  case (1 outSize s)
  show ?case
  proof (cases "inBuf s")
    case (Cons bitMap rest)
    have "lz_items outSize bitMap 8 (s\<lparr>inBuf := rest\<rparr>) = Inr (s\<lparr>inBuf := rest\<rparr>)"
      using 1(2) by (intro lz_items_full) simp
    then show ?thesis using 1(1) [OF Cons] 1(2) Cons by (subst lz_loop.simps) simp
  qed (simp add: lz_loop.simps)
qed

lemma lz_loop_packed:
  assumes "win_ok s" "\<forall>t \<in> set ts. token_ok t" "inBuf s = packed ts" "length (outBuf s) \<le> outSize"
  shows "lz_out (lz_loop outSize s) = take outSize (expand ts (outBuf s)) \<and>
    (outSize = length (expand ts (outBuf s)) \<longrightarrow> (\<exists>s'. lz_loop outSize s = Inr s'))"
  using assms
proof (induction ts arbitrary: s rule: packed.induct)
  case 1
  then show ?case by (simp add: lz_loop.simps)
next
  case (2 t ts)
  define g where "g = t # take 7 ts"
  let ?s = "s\<lparr>inBuf := concat (map token_bytes g) @ packed (drop 7 ts)\<rparr>"
  have full: "expand (t # ts) out = expand (drop 7 ts) (expand g out)" for out
    by (simp only: g_def expand_simps append_take_drop_id flip: expand_simps(3))
  have g: "\<forall>t \<in> set g. token_ok t" "\<forall>t \<in> set (drop 7 ts). token_ok t"
    "announces (flag_bits g) (8 - 8) g" "length g \<le> 8"
    using 2(3) flag_bits_announces [of g] by (auto simp: g_def dest: in_set_takeD in_set_dropD)
  have rest: "length g = 8 \<or> drop 7 ts = []" by (auto simp: g_def)
  then have "length g = 8 \<or> packed (drop 7 ts) = []" by auto
  note items = lz_items_ok [of ?s g "packed (drop 7 ts)" "flag_bits g" 8 outSize, simplified, OF 2(2) g(1) g(3) [simplified] g(4) 2(5) this]
  have loop: "lz_loop outSize s = (case lz_items outSize (flag_bits g) 8 ?s of Inl s \<Rightarrow> Inl s | Inr s \<Rightarrow> lz_loop outSize s)"
    using 2(4) by (subst lz_loop.simps) (simp add: g_def)
  consider "length (expand g (outBuf s)) \<le> outSize" "length g = 8 \<or> length (expand g (outBuf s)) = outSize"
    | "outSize < length (expand g (outBuf s))" | "length (expand g (outBuf s)) < outSize" "length g < 8"
    using g(4) by linarith
  then show ?case
  proof cases
    case a: 1
    then obtain s' where s': "lz_items outSize (flag_bits g) 8 ?s = Inr s'" "win_ok s'" "inBuf s' = packed (drop 7 ts)"
      using items by blast
    have ob: "outBuf s' = expand g (outBuf s)" using items a(1) s'(1) by simp
    have l: "lz_loop outSize s = lz_loop outSize s'" unfolding loop s'(1) by simp
    have "length (outBuf s') \<le> outSize" using ob a(1) by simp
    from 2(1) [OF s'(2) g(2) s'(3) this] show ?thesis unfolding l full ob .
  next
    case b: 2
    have out: "take outSize (expand (t # ts) (outBuf s)) = take outSize (expand g (outBuf s))"
      "outSize \<noteq> length (expand (t # ts) (outBuf s))"
      unfolding full using b take_expand [of outSize "expand g (outBuf s)" "drop 7 ts"]
        expand_length [of "expand g (outBuf s)" "drop 7 ts"] by auto
    show ?thesis
    proof (cases "lz_items outSize (flag_bits g) 8 ?s")
      case (Inl s1)
      then show ?thesis using items out unfolding loop by simp
    next
      case (Inr s1)
      then have "outBuf s1 = take outSize (expand g (outBuf s))" using items by simp
      then show ?thesis using lz_loop_full [of outSize s1] b out Inr unfolding loop by auto
    qed
  next
    case c: 3
    then have "drop 7 ts = []" using rest by auto
    then have "expand (t # ts) (outBuf s) = expand g (outBuf s)" unfolding full by simp
    moreover obtain s1 where "lz_items outSize (flag_bits g) 8 ?s = Inl s1" using items c by blast
    ultimately show ?thesis using items c unfolding loop by auto
  qed
qed

lemma Decompress_packed:
  assumes "\<forall>t \<in> set ts. token_ok t"
  shows "snd (LZ77_Decompress (packed ts) outSize) = take outSize (expand ts [])"
    "outSize = length (expand ts []) \<Longrightarrow> LZ77_Decompress (packed ts) outSize = (1, expand ts [])"
  using lz_loop_packed [OF win_ok_start assms, of "packed ts" outSize]
  by (auto simp: LZ77_Decompress_def lz_start_def split: sum.splits)

lemma lz_put_bound: "length (outBuf s) \<le> outSize \<Longrightarrow> length (lz_out (lz_put outSize b s)) \<le> outSize"
  by (simp add: lz_put_def Let_def)

lemma lz_copy_bound: "length (outBuf s) \<le> outSize \<Longrightarrow> length (lz_out (lz_copy outSize n offset s)) \<le> outSize"
proof (induction n arbitrary: offset s)
  case (Suc n)
  then show ?case using lz_put_bound [OF Suc.prems, of "lz_window s ! FAKE2REAL_POS offset"]
    by (auto split: sum.split)
qed simp

lemma lz_item_bound: "length (outBuf s) \<le> outSize \<Longrightarrow> length (lz_out (lz_item outSize l s)) \<le> outSize"
  by (auto simp: lz_item_def lz_put_bound lz_copy_bound split: list.split)

lemma lz_items_bound: "length (outBuf s) \<le> outSize \<Longrightarrow> length (lz_out (lz_items outSize bitMap n s)) \<le> outSize"
proof (induction n arbitrary: s)
  case (Suc n)
  then show ?case using lz_item_bound [OF Suc.prems, of "BITSET bitMap (8 - Suc n)"]
    by (auto split: sum.split)
qed simp

lemma lz_loop_bound: "length (outBuf s) \<le> outSize \<Longrightarrow> length (lz_out (lz_loop outSize s)) \<le> outSize"
proof (induction outSize s rule: lz_loop.induct)
  case (1 outSize s)
  show ?case
  proof (cases "inBuf s")
    case (Cons bitMap rest)
    have b: "length (lz_out (lz_items outSize bitMap 8 (s\<lparr>inBuf := rest\<rparr>))) \<le> outSize"
      using 1(2) by (intro lz_items_bound) simp
    show ?thesis
    proof (cases "lz_items outSize bitMap 8 (s\<lparr>inBuf := rest\<rparr>)")
      case (Inr s1)
      then show ?thesis using 1(1) [OF Cons Inr] b Cons by (subst lz_loop.simps) simp
    qed (use b Cons in \<open>simp add: lz_loop.simps\<close>)
  qed (use 1(2) in \<open>simp add: lz_loop.simps\<close>)
qed

section \<open>Packing refines the format\<close>

lemma packed_group: "0 < length g \<Longrightarrow> length g \<le> 8 \<Longrightarrow> packed g = flag_bits g # concat (map token_bytes g)"
  by (cases g) auto

lemma packed_append: "length ts mod 8 = 0 \<Longrightarrow> packed (ts @ us) = packed ts @ packed us"
proof (induction ts rule: packed.induct)
  case (2 t ts)
  have "7 \<le> length ts" using 2(2) by simp presburger
  then have "length (drop 7 ts) mod 8 = 0" using 2(2) by simp presburger
  then show ?case using 2(1) \<open>7 \<le> length ts\<close> by simp
qed simp

definition emit :: "lz_token \<Rightarrow> LZ77_Compressor \<Rightarrow> LZ77_Compressor option" where
  "emit t c = (case t of Literal b \<Rightarrow> SaveUncompByte b c | Reference n pos \<Rightarrow> SaveCompCode n pos c)"

fun emit_all :: "lz_token list \<Rightarrow> LZ77_Compressor \<Rightarrow> LZ77_Compressor option" where
  "emit_all [] c = Some c"
| "emit_all (t # ts) c = (case emit t c of None \<Rightarrow> None | Some c \<Rightarrow> emit_all ts c)"

definition group_bytes :: "lz_token list \<Rightarrow> u8 list" where
  "group_bytes g = concat (map token_bytes g)"

text \<open>\<open>g\<close> is the group being filled and \<open>ts\<close> the groups already written.\<close>

definition packing :: "LZ77_Compressor \<Rightarrow> lz_token list \<Rightarrow> lz_token list \<Rightarrow> bool" where
  "packing c ts g \<longleftrightarrow> length ts mod 8 = 0 \<and> length g < 8 \<and> m_outfile c = packed ts \<and>
     m_flagCount c = length g \<and> m_flagByte c = flag_bits g \<and> m_dataCount c = length (group_bytes g) \<and>
     length (m_dataBytes c) = 17 \<and> take (length (group_bytes g)) (m_dataBytes c) = group_bytes g"

lemma group_bytes_length: "length (group_bytes g) \<le> 2 * length g"
proof (induction g)
  case (Cons t g)
  then show ?case by (cases t) (simp_all add: group_bytes_def)
qed (simp add: group_bytes_def)

lemma fold_WriteByte: "fold WriteByte bs c = c\<lparr>m_outfile := m_outfile c @ bs\<rparr>"
  by (induction bs arbitrary: c) (simp_all add: WriteByte_def)

text \<open>A full or final group is written as the format has it.\<close>

lemma WriteFlagByte_group:
  assumes "0 < length g" "length g \<le> 8" "m_flagCount c = length g" "m_flagByte c = flag_bits g"
    "m_dataCount c = length (group_bytes g)" "length (m_dataBytes c) = 17"
    "take (m_dataCount c) (m_dataBytes c) = group_bytes g"
  shows "WriteFlagByte c = Some (c\<lparr>m_outfile := m_outfile c @ packed g, m_dataCount := 0, m_flagCount := 0,
    m_flagByte := 0, m_dataBytes := replicate 17 0x20\<rparr>)"
proof -
  have "m_dataCount c < 17" using group_bytes_length [of g] assms(2,5) by simp
  then show ?thesis using assms
    by (simp add: WriteFlagByte_def put_data_def Let_def fold_WriteByte WriteByte_def packed_group
        group_bytes_def take_update_cancel)
qed

lemma flag_bits_append: "length g < 8 \<Longrightarrow> flag_bits (g @ [t]) = flag_bits g OR (if is_literal t then push_bit (length g) 1 else 0)"
proof (rule bit_word_eqI)
  fix n assume "length g < 8" "n < LENGTH(8)"
  then show "bit (flag_bits (g @ [t])) n = bit (flag_bits g OR (if is_literal t then push_bit (length g) 1 else 0)) n"
    by (auto simp: flag_bits_def bit_horner_sum_bit_word_iff bit_simps nth_append less_Suc_eq)
qed

lemma CheckFlagByte_packing:
  assumes "length ts mod 8 = 0" "length g < 8" "m_outfile c = packed ts" "m_flagCount c = length g"
    "m_flagByte c = flag_bits (g @ [t])" "m_dataCount c + 1 = length (group_bytes (g @ [t]))"
    "length (m_dataBytes c) = 17" "take (m_dataCount c + 1) (m_dataBytes c) = group_bytes (g @ [t])"
  shows "\<exists>c' ts' g'. CheckFlagByte c = Some c' \<and> packing c' ts' g' \<and> ts' @ g' = ts @ g @ [t]"
proof (cases "length g = 7")
  case True
  let ?c = "c\<lparr>m_dataCount := m_dataCount c + 1, m_flagCount := m_flagCount c + 1\<rparr>"
  have "CheckFlagByte c = WriteFlagByte ?c" using assms(4) True by (simp add: CheckFlagByte_def)
  also have "\<dots> = Some (?c\<lparr>m_outfile := m_outfile ?c @ packed (g @ [t]), m_dataCount := 0, m_flagCount := 0,
      m_flagByte := 0, m_dataBytes := replicate 17 0x20\<rparr>)"
    using assms True by (intro WriteFlagByte_group) simp_all
  finally have "CheckFlagByte c = \<dots>" .
  moreover have "length (ts @ g @ [t]) mod 8 = 0" using assms(1) True by (simp add: mod_add_eq [symmetric])
  moreover have "flag_bits [] = 0" by (simp add: flag_bits_def)
  moreover have "packed (ts @ g @ [t]) = packed ts @ packed (g @ [t])" by (rule packed_append [OF assms(1)])
  ultimately show ?thesis
    using assms(3) by (intro exI [of _ "?c\<lparr>m_outfile := m_outfile ?c @ packed (g @ [t]), m_dataCount := 0,
      m_flagCount := 0, m_flagByte := 0, m_dataBytes := replicate 17 0x20\<rparr>"] exI [of _ "ts @ g @ [t]"] exI [of _ "[]"])
      (simp add: packing_def group_bytes_def)
next
  case False
  then have "length (g @ [t]) < 8" using assms(2) by simp
  then show ?thesis
    using assms by (intro exI [of _ ts] exI [of _ "g @ [t]"] exI conjI) (auto simp: packing_def CheckFlagByte_def)
qed

lemma emit_packing:
  assumes "packing c ts g"
  shows "\<exists>c' ts' g'. emit t c = Some c' \<and> packing c' ts' g' \<and> ts' @ g' = ts @ g @ [t]"
proof -
  have p: "length ts mod 8 = 0" "length g < 8" "m_outfile c = packed ts" "m_flagCount c = length g"
    "m_flagByte c = flag_bits g" "m_dataCount c = length (group_bytes g)" "length (m_dataBytes c) = 17"
    "take (m_dataCount c) (m_dataBytes c) = group_bytes g"
    using assms by (simp_all add: packing_def)
  have room: "m_dataCount c < 15" using group_bytes_length [of g] p(2,6) by simp
  have gb: "group_bytes (g @ [t]) = group_bytes g @ token_bytes t" by (simp add: group_bytes_def)
  show ?thesis
  proof (cases t)
    case (Literal b)
    let ?c = "c\<lparr>m_flagByte := m_flagByte c OR push_bit (m_flagCount c) 1,
      m_dataBytes := (m_dataBytes c)[m_dataCount c := b]\<rparr>"
    have "emit t c = CheckFlagByte ?c"
      using room p(7) Literal by (simp add: emit_def SaveUncompByte_def put_data_def Let_def)
    moreover have "take (m_dataCount c + 1) ((m_dataBytes c)[m_dataCount c := b]) = group_bytes (g @ [t])"
      unfolding gb using room p(6-8) Literal by (simp add: take_Suc_conv_app_nth take_update_cancel)
    ultimately show ?thesis
      using CheckFlagByte_packing [OF p(1,2), of ?c t] p room flag_bits_append [OF p(2), of t] Literal gb by simp
  next
    case (Reference n pos)
    let ?lo = "COMP_CODE_LOBYTE (COMP_CODE (int n) (int pos))" and ?hi = "COMP_CODE_HIBYTE (COMP_CODE (int n) (int pos))"
    let ?db = "(m_dataBytes c)[m_dataCount c := ?lo, m_dataCount c + 1 := ?hi]"
    let ?c = "c\<lparr>m_dataCount := m_dataCount c + 1, m_dataBytes := ?db\<rparr>"
    have "emit t c = CheckFlagByte ?c"
      using room p(7) Reference by (simp add: emit_def SaveCompCode_def put_data_def Let_def)
    moreover have "take (m_dataCount c + 2) ?db = group_bytes (g @ [t])"
      unfolding gb using room p(6-8) Reference by (simp add: take_Suc_conv_app_nth take_update_cancel)
    ultimately show ?thesis
      using CheckFlagByte_packing [OF p(1,2), of ?c t] p room flag_bits_append [OF p(2), of t] Reference gb by simp
  qed
qed

lemma emit_all_packing:
  "packing c ts g \<Longrightarrow> \<exists>c' ts' g'. emit_all us c = Some c' \<and> packing c' ts' g' \<and> ts' @ g' = ts @ g @ us"
proof (induction us arbitrary: c ts g)
  case (Cons u us)
  obtain c1 ts1 g1 where c1: "emit u c = Some c1" "packing c1 ts1 g1" "ts1 @ g1 = ts @ g @ [u]"
    using emit_packing [OF Cons.prems] by blast
  have "ts1 @ g1 @ us = (ts1 @ g1) @ us" by simp
  also have "\<dots> = ts @ g @ u # us" unfolding c1(3) by simp
  finally have eq: "ts1 @ g1 @ us = ts @ g @ u # us" .
  show ?case using Cons.IH [OF c1(2)] c1(1) unfolding eq by simp
qed auto

lemma packing_final:
  assumes "packing c ts g"
  shows "\<exists>c'. WriteFlagByte c = Some c' \<and> m_outfile c' = packed (ts @ g)"
proof (cases "g = []")
  case True
  then show ?thesis using assms by (simp add: packing_def WriteFlagByte_def)
next
  case False
  then have "WriteFlagByte c = Some (c\<lparr>m_outfile := m_outfile c @ packed g, m_dataCount := 0, m_flagCount := 0,
      m_flagByte := 0, m_dataBytes := replicate 17 0x20\<rparr>)"
    using assms by (intro WriteFlagByte_group) (simp_all add: packing_def)
  then show ?thesis using assms by (simp add: packing_def packed_append)
qed

section \<open>Properties\<close>

text \<open>
  C39. What the compressor packs the decompressor unpacks. For every sequence of literals and of
  references of three to eighteen bytes into the last 4096, packed through \<open>SaveUncompByte\<close>, the
  emission of references and a final \<open>WriteFlagByte\<close>, without a store outside the 17 data bytes,
  \<open>LZ77_Decompress\<close> with the exact room returns 1 and writes the text the sequence stands for, a
  reference copying from the text itself (or from the spaces before it); with any other room it writes
  the same text as far as there is room. On any input whatever it writes no more than the room.
\<close>

theorem lz77_unpacks:
  assumes "\<forall>t \<in> set ts. token_ok t" "length db = 17"
  shows "\<exists>c c'. emit_all ts (Compressor_Initialize db) = Some c \<and> WriteFlagByte c = Some c' \<and>
    LZ77_Decompress (m_outfile c') (length (expand ts [])) = (1, expand ts []) \<and>
    (\<forall>outSize. snd (LZ77_Decompress (m_outfile c') outSize) = take outSize (expand ts [])) \<and>
    (\<forall>inp outSize. length (snd (LZ77_Decompress inp outSize)) \<le> outSize)"
proof -
  have "packing (Compressor_Initialize db) [] []"
    using assms(2) by (simp add: packing_def Compressor_Initialize_def group_bytes_def flag_bits_def)
  from emit_all_packing [OF this, of ts] obtain c ts' g where c: "emit_all ts (Compressor_Initialize db) = Some c"
    "packing c ts' g" "ts' @ g = ts" by auto
  obtain c' where c': "WriteFlagByte c = Some c'" "m_outfile c' = packed ts"
    using packing_final [OF c(2)] c(3) by auto
  have "length (snd (LZ77_Decompress inp outSize)) \<le> outSize" for inp outSize
  proof -
    have "snd (LZ77_Decompress inp outSize) = lz_out (lz_loop outSize (lz_start inp))"
      by (simp add: LZ77_Decompress_def lz_out_def split: sum.split)
    then show ?thesis using lz_loop_bound [of "lz_start inp" outSize] by (simp add: lz_start_def)
  qed
  then show ?thesis using c(1) c' Decompress_packed [OF assms(1)] by auto
qed

lemma copy_back_numeral: "copy_back (numeral k) d out = copy_back (pred_numeral k) d (out @ [look_back out d])"
  by (simp add: numeral_eq_Suc)

theorem lz77_unpacks_witness:
  "\<exists>c c'. emit_all [Literal 65, Literal 66, Reference 5 0] (Compressor_Initialize (replicate 17 0)) = Some c \<and>
    WriteFlagByte c = Some c' \<and> LZ77_Decompress (m_outfile c') 7 = (1, [65, 66, 65, 66, 65, 66, 65])"
proof -
  have e: "expand [Literal 65, Literal 66, Reference 5 0] [] = [65, 66, 65, 66, 65, 66, 65]"
    by (simp add: dist_def look_back_def copy_back_numeral)
  have "\<forall>t \<in> set [Literal 65, Literal 66, Reference 5 0]. token_ok t" "length (replicate 17 (0 :: u8)) = 17" by simp_all
  from lz77_unpacks [OF this, unfolded e] obtain c c' where
    c: "emit_all [Literal 65, Literal 66, Reference 5 0] (Compressor_Initialize (replicate 17 0)) = Some c"
    "WriteFlagByte c = Some c'"
    "LZ77_Decompress (m_outfile c') (length [65, 66, 65, 66, 65, 66, 65 :: u8]) = (1, [65, 66, 65, 66, 65, 66, 65])"
    by (elim exE conjE)
  have "length [65, 66, 65, 66, 65, 66, 65 :: u8] = 7" by simp
  with c(3) have "LZ77_Decompress (m_outfile c') 7 = (1, [65, 66, 65, 66, 65, 66, 65])" by (simp only:)
  with c(1,2) show ?thesis by blast
qed

end
