(* ===== verification/SimpleHeap.thy ===== *)
theory SimpleHeap
  imports Prelude
begin

text \<open>
  The custom heap of the platform layer (\<open>DeviceCode/pal/SimpleHeap/SimpleHeap.cpp\<close>): a buffer cut
  into blocks, each with a header and, at its end, a guard word. The headers live in the same
  memory as the data of the clients, so the state is the byte memory itself and the theorems
  include that no operation writes into a block in use.

  An address is a \<open>nat\<close> (0 is NULL) and a header field a little-endian 32-bit word at its offset,
  as the compiler lays the structure out with \<open>SIMPLE_HEAP_GUARDWORD\<close> (defined at the top of the
  file). The sums of the source are taken modulo \<open>2 ^ 32\<close>. The model is the build in which
  \<open>HARD_BREAKPOINT\<close> stops (every build but the RTM one); the checks of a debug build
  (\<open>SIMPLEHEAD_DEBUG\<close>) are the argument \<open>dbg\<close>. Output through \<open>hal_printf\<close> is left out.
\<close>

section \<open>The interface: an allocator\<close>

text \<open>
  What the clients of a heap rely on: each allocation is an array of its own, which only they
  change. The abstract heap maps the address of an array to its bytes. A client allocates (with
  the size it asks for), resizes, frees and writes; it frees or resizes only what it holds (or
  NULL) and writes only inside an array, all other calls are skipped.
\<close>

datatype heap_op = Alloc nat | Free nat | Resize nat nat | Write nat nat u8

fun op_size :: "heap_op \<Rightarrow> nat" where
  "op_size (Alloc n) = n"
| "op_size (Resize p n) = n"
| "op_size (Free p) = 0"
| "op_size (Write p i b) = 0"

type_synonym arrays = "nat \<Rightarrow> u8 list option"

fun heap_step :: "(nat \<Rightarrow> 'h \<Rightarrow> ('h \<times> nat) option) \<Rightarrow> (nat \<Rightarrow> 'h \<Rightarrow> 'h option) \<Rightarrow>
    (nat \<Rightarrow> nat \<Rightarrow> 'h \<Rightarrow> ('h \<times> nat) option) \<Rightarrow> ('h \<Rightarrow> nat \<Rightarrow> u8) \<Rightarrow> (nat \<Rightarrow> u8 \<Rightarrow> 'h \<Rightarrow> 'h) \<Rightarrow>
    heap_op \<Rightarrow> 'h \<times> arrays \<Rightarrow> ('h \<times> arrays) option" where
  "heap_step alloc free resize peek poke (Alloc n) (h, live) =
     (case alloc n h of
        None \<Rightarrow> None
      | Some (h, p) \<Rightarrow> Some (h, if p = 0 then live else live(p \<mapsto> map (peek h) [p..<p + n])))"
| "heap_step alloc free resize peek poke (Free p) (h, live) =
     (if p = 0 \<or> live p \<noteq> None then
        (case free p h of None \<Rightarrow> None | Some h \<Rightarrow> Some (h, live(p := None)))
      else Some (h, live))"
| "heap_step alloc free resize peek poke (Resize p n) (h, live) =
     (case live p of
        None \<Rightarrow> Some (h, live)
      | Some bs \<Rightarrow>
          (case resize p n h of
             None \<Rightarrow> None
           | Some (h, q) \<Rightarrow> Some (h,
               if q = 0 then live
               else (live(p := None))(q \<mapsto> take n bs @ map (peek h) [q + length bs..<q + n]))))"
| "heap_step alloc free resize peek poke (Write p i b) (h, live) =
     (case live p of
        None \<Rightarrow> Some (h, live)
      | Some bs \<Rightarrow>
          if i < length bs then Some (poke (p + i) b h, live(p \<mapsto> bs[i := b])) else Some (h, live))"

fun heap_run :: "(nat \<Rightarrow> 'h \<Rightarrow> ('h \<times> nat) option) \<Rightarrow> (nat \<Rightarrow> 'h \<Rightarrow> 'h option) \<Rightarrow>
    (nat \<Rightarrow> nat \<Rightarrow> 'h \<Rightarrow> ('h \<times> nat) option) \<Rightarrow> ('h \<Rightarrow> nat \<Rightarrow> u8) \<Rightarrow> (nat \<Rightarrow> u8 \<Rightarrow> 'h \<Rightarrow> 'h) \<Rightarrow>
    heap_op list \<Rightarrow> 'h \<times> arrays \<Rightarrow> ('h \<times> arrays) option" where
  "heap_run alloc free resize peek poke [] s = Some s"
| "heap_run alloc free resize peek poke (x # xs) s =
     (case heap_step alloc free resize peek poke x s of
        None \<Rightarrow> None
      | Some s \<Rightarrow> heap_run alloc free resize peek poke xs s)"

locale allocator =
  fixes alloc :: "nat \<Rightarrow> 'h \<Rightarrow> ('h \<times> nat) option"
    and free :: "nat \<Rightarrow> 'h \<Rightarrow> 'h option"
    and resize :: "nat \<Rightarrow> nat \<Rightarrow> 'h \<Rightarrow> ('h \<times> nat) option"
    and peek :: "'h \<Rightarrow> nat \<Rightarrow> u8"
    and poke :: "nat \<Rightarrow> u8 \<Rightarrow> 'h \<Rightarrow> 'h"
    and rel :: "'h \<Rightarrow> arrays \<Rightarrow> bool"
    and limit :: nat
  assumes alloc_law: "rel h live \<Longrightarrow> n < limit \<Longrightarrow> \<exists>h' p. alloc n h = Some (h', p) \<and>
      (p = 0 \<and> rel h' live \<or>
       p \<noteq> 0 \<and> live p = None \<and> rel h' (live(p \<mapsto> map (peek h') [p..<p + n])))"
    and free_law: "rel h live \<Longrightarrow> p = 0 \<or> live p \<noteq> None \<Longrightarrow>
      \<exists>h'. free p h = Some h' \<and> rel h' (live(p := None))"
    and resize_law: "rel h live \<Longrightarrow> live p = Some bs \<Longrightarrow> n < limit \<Longrightarrow>
      \<exists>h' q. resize p n h = Some (h', q) \<and>
      (q = 0 \<and> rel h' live \<or>
       q \<noteq> 0 \<and> live q = None \<and>
       rel h' ((live(p := None))(q \<mapsto> take n bs @ map (peek h') [q + length bs..<q + n])))"
    and poke_law: "rel h live \<Longrightarrow> live p = Some bs \<Longrightarrow> i < length bs \<Longrightarrow>
      rel (poke (p + i) b h) (live(p \<mapsto> bs[i := b]))"
begin

lemma step_rel:
  assumes "rel h live" "op_size x < limit"
  shows "\<exists>h' live'. heap_step alloc free resize peek poke x (h, live) = Some (h', live') \<and> rel h' live'"
proof (cases x)
  case (Alloc n)
  with alloc_law [OF assms(1), of n] assms(2) show ?thesis by (auto split: if_splits)
next
  case (Free p)
  with free_law [OF assms(1), of p] assms(1) show ?thesis by auto
next
  case (Resize p n)
  with resize_law [OF assms(1), of p _ n] assms show ?thesis by (cases "live p") auto
next
  case (Write p i b)
  with poke_law [OF assms(1), of p _ i b] assms(1) show ?thesis by (cases "live p") auto
qed

text \<open>Every history returns, and the arrays are where and what the client left.\<close>

lemma run_rel:
  "rel (fst s) (snd s) \<Longrightarrow> \<forall>x \<in> set xs. op_size x < limit \<Longrightarrow>
    \<exists>h' live'. heap_run alloc free resize peek poke xs s = Some (h', live') \<and> rel h' live'"
proof (induction xs arbitrary: s)
  case Nil
  then show ?case by (cases s) simp
next
  case (Cons x xs)
  obtain h live where s: "s = (h, live)" by (cases s)
  with Cons.prems step_rel [of h live x] obtain h1 l1
    where "heap_step alloc free resize peek poke x s = Some (h1, l1)" "rel h1 l1" by auto
  with Cons.IH [of "(h1, l1)"] Cons.prems(2) show ?case by simp
qed

end

section \<open>Memory\<close>

type_synonym memory = "nat \<Rightarrow> u8"

definition rd32 :: "memory \<Rightarrow> nat \<Rightarrow> nat" where
  "rd32 m a = unat (m a) + 256 * unat (m (a + 1)) + 65536 * unat (m (a + 2)) + 16777216 * unat (m (a + 3))"

definition wr32 :: "memory \<Rightarrow> nat \<Rightarrow> nat \<Rightarrow> memory" where
  "wr32 m a v = m(a := of_nat v, a + 1 := of_nat (v div 256), a + 2 := of_nat (v div 65536),
     a + 3 := of_nat (v div 16777216))"

definition memcpy :: "memory \<Rightarrow> nat \<Rightarrow> nat \<Rightarrow> nat \<Rightarrow> memory" where
  "memcpy m dst src n = (\<lambda>x. if dst \<le> x \<and> x < dst + n then m (src + (x - dst)) else m x)"

lemma rd32_wr32_mod: "rd32 (wr32 m a v) a = v mod 4294967296"
proof -
  have e: "(4294967296 :: nat) = 256 * (256 * (256 * 256))" by simp
  show ?thesis
    by (simp only: rd32_def wr32_def e mod_mult2_eq)
      (simp add: unat_of_nat div_mult2_eq [symmetric])
qed

lemma rd32_wr32_same [simp]: "v < 4294967296 \<Longrightarrow> rd32 (wr32 m a v) a = v"
  by (simp add: rd32_wr32_mod)

lemma wr32_other: "x < a \<or> a + 4 \<le> x \<Longrightarrow> wr32 m a v x = m x"
  by (auto simp: wr32_def)

lemma rd32_wr32_other [simp]: "a + 4 \<le> b \<or> b + 4 \<le> a \<Longrightarrow> rd32 (wr32 m a v) b = rd32 m b"
  by (auto simp: rd32_def wr32_other)

lemma rd32_cong: "(\<And>x. a \<le> x \<Longrightarrow> x < a + 4 \<Longrightarrow> m' x = m x) \<Longrightarrow> rd32 m' a = rd32 m a"
  by (simp add: rd32_def)

section \<open>The state and the operations\<close>

text \<open>\<open>struct BlockHeader\<close>: the offsets of its fields and its size.\<close>

definition bh_next :: "nat \<Rightarrow> nat" where "bh_next b = b"
definition bh_prev :: "nat \<Rightarrow> nat" where "bh_prev b = b + 4"
definition bh_length :: "nat \<Rightarrow> nat" where "bh_length b = b + 8"
definition bh_signature :: "nat \<Rightarrow> nat" where "bh_signature b = b + 12"
definition bh_head_guard :: "nat \<Rightarrow> nat" where "bh_head_guard b = b + 16"
definition sizeof_BlockHeader :: nat where "sizeof_BlockHeader = 20"

lemmas bh_defs = bh_next_def bh_prev_def bh_length_def bh_signature_def bh_head_guard_def
  sizeof_BlockHeader_def

definition c_Free :: nat where "c_Free = 0xDEADBEEF"
definition c_Busy :: nat where "c_Busy = 0xDEADBE5E"
definition c_Guard :: nat where "c_Guard = 0xbab1f00d"

record simple_heap =
  sh_mem :: memory
  g_s_FirstCluster :: nat

datatype sh_break = ReleaseCorruption | ReleaseTwice | HeadCorruption | TailCorruption

definition SimpleHeap_Initialize :: "nat \<Rightarrow> nat \<Rightarrow> simple_heap \<Rightarrow> simple_heap" where
  "SimpleHeap_Initialize buffer len h =
     (let m = sh_mem h;
          m = wr32 m (bh_length buffer) len;
          m = wr32 m (bh_next buffer) 0;
          m = wr32 m (bh_prev buffer) 0;
          m = wr32 m (bh_signature buffer) c_Free;
          m = wr32 m (bh_head_guard buffer) c_Guard
      in h\<lparr>sh_mem := m, g_s_FirstCluster := buffer\<rparr>)"

text \<open>The last branch of the source stops in a debug build (\<open>ASSERT\<close>); it is \<open>None\<close> here.\<close>

definition SimpleHeap_IsAllocated :: "nat \<Rightarrow> simple_heap \<Rightarrow> bool option" where
  "SimpleHeap_IsAllocated ptr h =
     (if ptr \<noteq> 0 then
        let blk = ptr - sizeof_BlockHeader in
        if rd32 (sh_mem h) (bh_signature blk) = c_Busy then Some True
        else if rd32 (sh_mem h) (bh_signature blk) = c_Free then Some False
        else None
      else Some False)"

text \<open>
  The two merges of \<open>SimpleHeap_Release\<close> do the same to a block and the one that follows it:
  the lengths are added, the second block leaves the list.
\<close>

definition sh_merge :: "memory \<Rightarrow> nat \<Rightarrow> nat \<Rightarrow> memory" where
  "sh_merge m blk next =
     (let m = wr32 m (bh_length blk) (rd32 m (bh_length blk) + rd32 m (bh_length next));
          nextnext = rd32 m (bh_next next);
          m = wr32 m (bh_next blk) nextnext
      in if nextnext \<noteq> 0 then wr32 m (bh_prev nextnext) blk else m)"

definition SimpleHeap_Release :: "bool \<Rightarrow> nat \<Rightarrow> simple_heap \<Rightarrow> sh_break + simple_heap" where
  "SimpleHeap_Release dbg ptr h =
     (if ptr \<noteq> 0 then
        let blk = ptr - sizeof_BlockHeader; m = sh_mem h in
        if dbg \<and> rd32 m (bh_signature blk) \<noteq> c_Busy then
          Inl (if rd32 m (bh_signature blk) \<noteq> c_Free then ReleaseCorruption else ReleaseTwice)
        else if rd32 m (bh_head_guard blk) \<noteq> c_Guard then Inl HeadCorruption
        else if rd32 m ((blk + rd32 m (bh_length blk) - 4) mod 2 ^ 32) \<noteq> c_Guard then Inl TailCorruption
        else
          let m = wr32 m (bh_signature blk) c_Free;
              next = rd32 m (bh_next blk);
              m = (if next \<noteq> 0 \<and> rd32 m (bh_signature next) = c_Free then sh_merge m blk next else m);
              prev = rd32 m (bh_prev blk);
              m = (if prev \<noteq> 0 \<and> rd32 m (bh_signature prev) = c_Free then sh_merge m prev blk else m)
          in Inr (h\<lparr>sh_mem := m\<rparr>)
      else Inr h)"

text \<open>
  \<open>SimpleHeap_Allocate\<close>: the length of the block (the header and the guard are added, the sum is
  rounded up to a multiple of four), the split of a block that is much longer, and the walk
  along the list. On a list that was overwritten the walk may not end.
\<close>

definition sh_block_len :: "nat \<Rightarrow> nat" where
  "sh_block_len len =
     (let len = (len + sizeof_BlockHeader) mod 2 ^ 32;
          len = (len + 4) mod 2 ^ 32;
          n = (len + 3) mod 2 ^ 32
      in n - n mod 4)"

definition sh_split :: "memory \<Rightarrow> nat \<Rightarrow> nat \<Rightarrow> memory \<times> nat" where
  "sh_split m len prev =
     (let ptr = (prev + rd32 m (bh_length prev) - len) mod 2 ^ 32;
          next = rd32 m (bh_next prev);
          m = wr32 m (bh_next ptr) next;
          m = wr32 m (bh_prev ptr) prev;
          m = wr32 m (bh_next prev) ptr;
          m = (if next \<noteq> 0 then wr32 m (bh_prev next) ptr else m);
          m = wr32 m (bh_length ptr) len;
          m = wr32 m (bh_length prev) (rd32 m (bh_length prev) - len)
      in (m, ptr))"

partial_function (option) sh_fit :: "memory \<Rightarrow> nat \<Rightarrow> nat \<Rightarrow> (memory \<times> nat) option" where
  "sh_fit m len ptr =
     (if ptr = 0 then Some (m, 0)
      else if rd32 m (bh_signature ptr) = c_Free \<and> len \<le> rd32 m (bh_length ptr) then
        Some (if rd32 m (bh_length ptr) \<le> (len + sizeof_BlockHeader * 2) mod 2 ^ 32 then (m, ptr)
              else sh_split m len ptr)
      else sh_fit m len (rd32 m (bh_next ptr)))"

declare sh_fit.simps [code]

definition SimpleHeap_Allocate :: "nat \<Rightarrow> simple_heap \<Rightarrow> (simple_heap \<times> nat) option" where
  "SimpleHeap_Allocate len h =
     (case sh_fit (sh_mem h) (sh_block_len len) (g_s_FirstCluster h) of
        None \<Rightarrow> None
      | Some (m, ptr) \<Rightarrow>
          if ptr \<noteq> 0 then
            let m = wr32 m (bh_signature ptr) c_Busy;
                m = wr32 m (bh_head_guard ptr) c_Guard;
                m = wr32 m ((ptr + rd32 m (bh_length ptr) - 4) mod 2 ^ 32) c_Guard
            in Some (h\<lparr>sh_mem := m\<rparr>, ptr + sizeof_BlockHeader)
          else Some (h\<lparr>sh_mem := m\<rparr>, 0))"

text \<open>\<open>None\<close> also stands for a breakpoint in the \<open>SimpleHeap_Release\<close> of the old block.\<close>

definition SimpleHeap_ReAllocate :: "bool \<Rightarrow> nat \<Rightarrow> nat \<Rightarrow> simple_heap \<Rightarrow> (simple_heap \<times> nat) option" where
  "SimpleHeap_ReAllocate dbg ptr len h =
     (case SimpleHeap_Allocate len h of
        None \<Rightarrow> None
      | Some (h, p) \<Rightarrow>
          if p = 0 then Some (h, 0)
          else if ptr \<noteq> 0 then
            let blk = ptr - sizeof_BlockHeader;
                n = rd32 (sh_mem h) (bh_length blk);
                h = h\<lparr>sh_mem := memcpy (sh_mem h) p ptr (if n < len then n else len)\<rparr>
            in (case SimpleHeap_Release dbg ptr h of Inl _ \<Rightarrow> None | Inr h \<Rightarrow> Some (h, p))
          else Some (h, p))"

section \<open>The blocks of a buffer\<close>

text \<open>
  What the headers describe: a list of blocks, each starting where the one before ends. \<open>lk m pv nx a
  bs\<close> says that the memory holds the headers of \<open>bs\<close> from address \<open>a\<close> on, linked to \<open>pv\<close> before
  the first and \<open>nx\<close> after the last, and the guards of the blocks in use.
\<close>

datatype sh_blk = Blk (b_at: nat) (b_len: nat) (b_busy: bool)

definition blk_ok :: "memory \<Rightarrow> nat \<Rightarrow> nat \<Rightarrow> sh_blk \<Rightarrow> bool" where
  "blk_ok m pv nx b \<longleftrightarrow>
     rd32 m (b_at b) = nx \<and> rd32 m (b_at b + 4) = pv \<and> rd32 m (b_at b + 8) = b_len b \<and>
     rd32 m (b_at b + 12) = (if b_busy b then c_Busy else c_Free) \<and> 24 \<le> b_len b \<and> 4 dvd b_len b \<and>
     (b_busy b \<longrightarrow> rd32 m (b_at b + 16) = c_Guard \<and> rd32 m (b_at b + b_len b - 4) = c_Guard)"

primrec lk :: "memory \<Rightarrow> nat \<Rightarrow> nat \<Rightarrow> nat \<Rightarrow> sh_blk list \<Rightarrow> bool" where
  "lk m pv nx a [] = True"
| "lk m pv nx a (b # bs) = (b_at b = a \<and> blk_ok m pv (if bs = [] then nx else a + b_len b) b \<and>
     lk m a nx (a + b_len b) bs)"

primrec tot :: "sh_blk list \<Rightarrow> nat" where
  "tot [] = 0"
| "tot (b # bs) = b_len b + tot bs"

definition last_at :: "nat \<Rightarrow> sh_blk list \<Rightarrow> nat" where
  "last_at pv bs = (if bs = [] then pv else b_at (last bs))"

lemma tot_append [simp]: "tot (xs @ ys) = tot xs + tot ys"
  by (induction xs) auto

lemma lk_append:
  "lk m pv nx a (xs @ ys) \<longleftrightarrow> lk m pv (if ys = [] then nx else a + tot xs) a xs \<and>
    lk m (last_at pv xs) nx (a + tot xs) ys"
  by (induction xs arbitrary: pv a) (auto simp: last_at_def add.assoc)

lemma lk_len: "lk m pv nx a bs \<Longrightarrow> b \<in> set bs \<Longrightarrow> 24 \<le> b_len b \<and> 4 dvd b_len b"
  by (induction bs arbitrary: pv a) (auto simp: blk_ok_def)

lemma lk_range: "lk m pv nx a bs \<Longrightarrow> b \<in> set bs \<Longrightarrow> a \<le> b_at b \<and> b_at b + b_len b \<le> a + tot bs"
  by (induction bs arbitrary: pv a) fastforce+

lemma lk_frame:
  assumes "lk m pv nx a bs" "\<And>x. a \<le> x \<Longrightarrow> x < a + tot bs \<Longrightarrow> m' x = m x"
  shows "lk m' pv nx a bs"
  using assms
proof (induction bs arbitrary: pv a)
  case (Cons b bs)
  have rd: "rd32 m' x = rd32 m x" if "a \<le> x" "x + 4 \<le> a + b_len b" for x
    using that by (intro rd32_cong) (auto intro!: Cons.prems(2))
  have "blk_ok m' pv (if bs = [] then nx else a + b_len b) b"
    using Cons.prems(1) by (auto simp: blk_ok_def rd)
  moreover have "lk m' a nx (a + b_len b) bs"
    using Cons.prems(1) by (intro Cons.IH) (auto intro: Cons.prems(2))
  ultimately show ?case using Cons.prems(1) by simp
qed simp

lemma lk_wr32: "lk m pv nx a bs \<Longrightarrow> w + 4 \<le> a \<or> a + tot bs \<le> w \<Longrightarrow> lk (wr32 m w v) pv nx a bs"
  by (erule lk_frame) (auto intro: wr32_other)

lemma lk_set_prev:
  assumes "lk m pv nx a (y # ys)" "v < 4294967296"
  shows "lk (wr32 m (a + 4) v) v nx a (y # ys)"
  using assms by (auto simp: blk_ok_def intro!: lk_wr32)

lemma lk_prev_eq: "lk m pv nx a (y # ys) \<Longrightarrow> rd32 m (a + 4) = pv"
  by (auto simp: blk_ok_def)

text \<open>The header fields of a block, from a decomposition of the list around it.\<close>

lemma lk_fields:
  assumes "lk m pv nx a (xs @ b # ys)"
  shows "b_at b = a + tot xs" "rd32 m (b_at b + 8) = b_len b"
    "rd32 m (b_at b) = (if ys = [] then nx else a + tot xs + b_len b)"
    "rd32 m (b_at b + 4) = last_at pv xs"
    "rd32 m (b_at b + 12) = (if b_busy b then c_Busy else c_Free)"
    "24 \<le> b_len b" "4 dvd b_len b"
    "b_busy b \<Longrightarrow> rd32 m (b_at b + 16) = c_Guard"
    "b_busy b \<Longrightarrow> rd32 m (b_at b + b_len b - 4) = c_Guard"
  using assms by (auto simp: lk_append blk_ok_def)

lemma lk_merge:
  assumes lk: "lk m pv 0 a (xs @ b # c # ys)" and free: "\<not> b_busy b"
    and sz: "a + tot (xs @ b # c # ys) \<le> 4294967296" "0 < a"
  shows "lk (sh_merge m (b_at b) (b_at c)) pv 0 a (xs @ Blk (b_at b) (b_len b + b_len c) False # ys)"
proof -
  from lk have xs: "lk m pv (a + tot xs) a xs" and b: "b_at b = a + tot xs"
    and bo: "blk_ok m (last_at pv xs) (a + tot xs + b_len b) b"
    and c: "b_at c = a + tot xs + b_len b"
    and co: "blk_ok m (b_at b) (if ys = [] then 0 else b_at c + b_len c) c"
    and ys: "lk m (b_at c) 0 (b_at c + b_len c) ys"
    by (auto simp: lk_append)
  define n where "n = (if ys = [] then 0 else b_at c + b_len c)"
  have le: "24 \<le> b_len b" "24 \<le> b_len c" "4 dvd b_len b" "4 dvd b_len c"
    using bo co by (auto simp: blk_ok_def)
  have n: "n < 4294967296"
  proof (cases ys)
    case (Cons y zs)
    with ys have "24 \<le> b_len y" by (simp add: blk_ok_def)
    with sz b c Cons show ?thesis by (simp add: n_def)
  qed (simp add: n_def)
  define m1 where "m1 = wr32 (wr32 m (b_at b + 8) (b_len b + b_len c)) (b_at b) n"
  have r: "rd32 m (b_at b + 8) = b_len b" "rd32 m (b_at c + 8) = b_len c" "rd32 m (b_at c) = n"
    using bo co by (auto simp: blk_ok_def n_def)
  have mm: "sh_merge m (b_at b) (b_at c) = (if n \<noteq> 0 then wr32 m1 (n + 4) (b_at b) else m1)"
    using le by (simp add: sh_merge_def bh_defs r [unfolded b c] m1_def Let_def c b)
  have l1: "lk m1 pv (a + tot xs) a xs"
    using xs b unfolding m1_def by (intro lk_wr32) auto
  have b1: "blk_ok m1 (last_at pv xs) n (Blk (b_at b) (b_len b + b_len c) False)"
    using bo free le n sz b c by (auto simp: blk_ok_def m1_def)
  have y1: "lk m1 (b_at c) 0 (b_at c + b_len c) ys"
    using ys le c b unfolding m1_def by (intro lk_wr32) auto
  show ?thesis
  proof (cases ys)
    case Nil
    with mm l1 b1 b show ?thesis by (simp add: lk_append n_def)
  next
    case (Cons y zs)
    let ?m = "wr32 m1 (n + 4) (b_at b)"
    have nn: "n = b_at c + b_len c" "n \<noteq> 0" using Cons le by (auto simp: n_def)
    have "b_at b < 4294967296" using sz le b by simp
    with y1 have "lk ?m (b_at b) 0 n ys" unfolding Cons nn(1) by (rule lk_set_prev)
    moreover have "lk ?m pv (a + tot xs) a xs"
      using l1 le c nn by (intro lk_wr32) auto
    moreover have "blk_ok ?m (last_at pv xs) n (Blk (b_at b) (b_len b + b_len c) False)"
      using b1 le nn c b by (auto simp: blk_ok_def)
    ultimately show ?thesis using mm nn b c Cons by (simp add: lk_append add.assoc)
  qed
qed

text \<open>What a client has written into a block in use stays there.\<close>

definition keeps :: "memory \<Rightarrow> memory \<Rightarrow> sh_blk list \<Rightarrow> bool" where
  "keeps m m' bs \<longleftrightarrow> (\<forall>c \<in> set bs. b_busy c \<longrightarrow>
     (\<forall>x. b_at c + 20 \<le> x \<and> x < b_at c + b_len c - 4 \<longrightarrow> m' x = m x))"

lemma keeps_refl [simp]: "keeps m m bs"
  by (simp add: keeps_def)

lemma keeps_trans: "keeps m m1 bs \<Longrightarrow> keeps m1 m2 bs \<Longrightarrow> keeps m m2 bs"
  by (simp add: keeps_def)

lemma keeps_subset: "keeps m m' bs \<Longrightarrow> (\<And>c. c \<in> set cs \<Longrightarrow> b_busy c \<Longrightarrow> c \<in> set bs) \<Longrightarrow> keeps m m' cs"
  unfolding keeps_def by blast

lemma lk_disjoint:
  "lk m pv nx a bs \<Longrightarrow> c \<in> set bs \<Longrightarrow> d \<in> set bs \<Longrightarrow>
    c = d \<or> b_at c + b_len c \<le> b_at d \<or> b_at d + b_len d \<le> b_at c"
proof (induction bs arbitrary: pv a)
  case (Cons b bs)
  from Cons.prems(1) have r: "lk m a nx (a + b_len b) bs" and b: "b_at b = a" by auto
  show ?case using Cons.prems(2,3) Cons.IH [OF r] lk_range [OF r, of c] lk_range [OF r, of d] b
    by auto
qed simp

lemma keeps_header:
  assumes "lk m pv nx a bs" "c \<in> set bs" "i \<le> 16"
  shows "keeps m' (wr32 m' (b_at c + i) v) bs"
  unfolding keeps_def
proof (intro ballI impI allI)
  fix d x
  assume d: "d \<in> set bs" and x: "b_at d + 20 \<le> x \<and> x < b_at d + b_len d - 4"
  show "wr32 m' (b_at c + i) v x = m' x"
    using lk_disjoint [OF assms(1,2) d] lk_len [OF assms(1,2)] x assms(3)
    by (intro wr32_other) auto
qed

lemma keeps_next:
  assumes "lk m pv 0 a (xs @ b # ys)"
  shows "keeps m' (if rd32 m (b_at b) \<noteq> 0 then wr32 m' (rd32 m (b_at b) + 4) v else m') (xs @ b # ys)"
proof (cases ys)
  case (Cons y zs)
  have "b_at y = rd32 m (b_at b)"
    using assms by (auto simp: Cons lk_append blk_ok_def)
  with keeps_header [OF assms, of y 4 m' v] Cons show ?thesis by simp
next
  case Nil
  with lk_fields(3) [OF assms] show ?thesis by simp
qed

lemma keeps_merge:
  assumes lk: "lk m pv 0 a (xs @ b # c # ys)"
  shows "keeps m (sh_merge m (b_at b) (b_at c)) (xs @ b # c # ys)"
proof -
  let ?m1 = "wr32 m (b_at b + 8) (b_len b + b_len c)"
  let ?n = "rd32 m (b_at c)"
  have f: "rd32 m (b_at b + 8) = b_len b" "rd32 m (b_at c + 8) = b_len c" "b_at c = b_at b + b_len b"
    "24 \<le> b_len b" "24 \<le> b_len c"
    using lk by (auto simp: lk_append blk_ok_def)
  have eq: "sh_merge m (b_at b) (b_at c) =
    (if ?n \<noteq> 0 then wr32 (wr32 ?m1 (b_at b) ?n) (?n + 4) (b_at b) else wr32 ?m1 (b_at b) ?n)"
    using f by (simp add: sh_merge_def bh_defs Let_def)
  have k1: "keeps m ?m1 (xs @ b # c # ys)" using lk by (rule keeps_header) simp_all
  have k2: "keeps ?m1 (wr32 ?m1 (b_at b) ?n) (xs @ b # c # ys)"
    using keeps_header [OF lk, of b 0] by simp
  from lk have lk': "lk m pv 0 a ((xs @ [b]) @ c # ys)" by simp
  have k3: "keeps (wr32 ?m1 (b_at b) ?n)
      (if ?n \<noteq> 0 then wr32 (wr32 ?m1 (b_at b) ?n) (?n + 4) (b_at b) else wr32 ?m1 (b_at b) ?n)
      (xs @ b # c # ys)"
    using keeps_next [OF lk'] by simp
  from keeps_trans [OF keeps_trans [OF k1 k2] k3] show ?thesis by (simp only: eq)
qed

section \<open>Releasing\<close>

text \<open>
  The state of a heap on the buffer \<open>buf\<close> of \<open>sz\<close> bytes: the blocks tile the buffer, and two
  neighbours are never both free.
\<close>

definition heap_ok :: "nat \<Rightarrow> nat \<Rightarrow> sh_blk list \<Rightarrow> simple_heap \<Rightarrow> bool" where
  "heap_ok buf sz bs h \<longleftrightarrow>
     g_s_FirstCluster h = buf \<and> 0 < buf \<and> 4 dvd buf \<and> buf + sz \<le> 4294967296 \<and>
     sz + 40 < 4294967296 \<and> bs \<noteq> [] \<and>
     tot bs = sz \<and> lk (sh_mem h) 0 0 buf bs \<and> successively (\<lambda>b c. b_busy b \<or> b_busy c) bs"

fun merge_next :: "sh_blk list \<Rightarrow> sh_blk list" where
  "merge_next (b # c # ys) =
     (if b_busy c then b # c # ys else Blk (b_at b) (b_len b + b_len c) False # ys)"
| "merge_next ys = ys"

definition merge_prev :: "sh_blk list \<Rightarrow> sh_blk list \<Rightarrow> sh_blk list" where
  "merge_prev xs bs =
     (if xs = [] \<or> b_busy (last xs) then xs @ bs else butlast xs @ merge_next (last xs # bs))"

definition release_blk :: "sh_blk list \<Rightarrow> sh_blk \<Rightarrow> sh_blk list \<Rightarrow> sh_blk list" where
  "release_blk xs b ys = merge_prev xs (merge_next (Blk (b_at b) (b_len b) False # ys))"

lemma lk_sig:
  assumes "lk m pv 0 a (xs @ b # ys)" "b_busy b"
  shows "lk (wr32 m (b_at b + 12) c_Free) pv 0 a (xs @ Blk (b_at b) (b_len b) False # ys)"
proof -
  from lk_fields(6) [OF assms(1)] have "24 \<le> b_len b" .
  with assms show ?thesis
    by (auto simp: lk_append blk_ok_def c_Free_def intro!: lk_wr32)
qed

lemma merge_next_step:
  assumes lk: "lk m 0 0 a (xs @ b # ys)" and free: "\<not> b_busy b"
    and sz: "a + tot (xs @ b # ys) \<le> 4294967296" "0 < a"
  defines "m' \<equiv> (if rd32 m (b_at b) \<noteq> 0 \<and> rd32 m (rd32 m (b_at b) + 12) = c_Free
    then sh_merge m (b_at b) (rd32 m (b_at b)) else m)"
  shows "lk m' 0 0 a (xs @ merge_next (b # ys)) \<and> keeps m m' (xs @ b # ys) \<and>
    tot (xs @ merge_next (b # ys)) = tot (xs @ b # ys)"
proof (cases ys)
  case Nil
  with lk_fields(3) [OF lk] lk show ?thesis by (simp add: m'_def)
next
  case (Cons c zs)
  from lk have lk': "lk m 0 0 a ((xs @ [b]) @ c # zs)" by (simp add: Cons)
  have c: "rd32 m (b_at b) = b_at c" "0 < b_at c" "rd32 m (b_at c + 12) = (if b_busy c then c_Busy else c_Free)"
    using lk_fields(3) [OF lk] lk_fields(1,5) [OF lk'] lk_fields(1) [OF lk] sz Cons by auto
  show ?thesis
  proof (cases "b_busy c")
    case True
    with c lk Cons show ?thesis by (simp add: m'_def c_Busy_def c_Free_def)
  next
    case False
    with c have m': "m' = sh_merge m (b_at b) (b_at c)" by (simp add: m'_def)
    from lk_merge [OF lk [unfolded Cons] free sz(1) [unfolded Cons] sz(2)]
      keeps_merge [OF lk [unfolded Cons]] False Cons
    show ?thesis by (simp add: m')
  qed
qed

lemma merge_next_head: "\<exists>b' zs. merge_next (b # ys) = b' # zs \<and> b_at b' = b_at b \<and> b_busy b' = (if ys \<noteq> [] \<and> \<not> b_busy (hd ys) then False else b_busy b)"
  by (cases ys) auto

lemma merge_next_busy: "c \<in> set ys \<Longrightarrow> b_busy c \<Longrightarrow> c \<in> set (merge_next (b # ys))"
  by (cases ys) auto

lemma merge_prev_step:
  assumes lk: "lk m 0 0 a (xs @ b # ys)" and free: "\<not> b_busy b"
    and sz: "a + tot (xs @ b # ys) \<le> 4294967296" "0 < a"
  defines "m' \<equiv> (if rd32 m (b_at b + 4) \<noteq> 0 \<and> rd32 m (rd32 m (b_at b + 4) + 12) = c_Free
    then sh_merge m (rd32 m (b_at b + 4)) (b_at b) else m)"
  shows "lk m' 0 0 a (merge_prev xs (b # ys)) \<and> keeps m m' (xs @ b # ys) \<and>
    tot (merge_prev xs (b # ys)) = tot (xs @ b # ys)"
proof (cases xs rule: rev_cases)
  case Nil
  with lk_fields(4) [OF lk] lk show ?thesis by (simp add: m'_def last_at_def merge_prev_def)
next
  case (snoc zs p)
  from lk have lk': "lk m 0 0 a (zs @ p # b # ys)" by (simp add: snoc)
  have p: "rd32 m (b_at b + 4) = b_at p" "0 < b_at p"
    "rd32 m (b_at p + 12) = (if b_busy p then c_Busy else c_Free)" "rd32 m (b_at p) = b_at b"
    using lk_fields(4,1) [OF lk] lk_fields(1,3,5) [OF lk'] sz snoc by (auto simp: last_at_def)
  show ?thesis
  proof (cases "b_busy p")
    case True
    with p lk snoc show ?thesis by (simp add: m'_def c_Busy_def c_Free_def merge_prev_def)
  next
    case False
    with p have m': "m' = sh_merge m (b_at p) (b_at b)" by (simp add: m'_def)
    have sz': "a + tot (zs @ p # b # ys) \<le> 4294967296" using sz(1) snoc by simp
    from lk_merge [OF lk' False sz' sz(2)] keeps_merge [OF lk'] False snoc free
    show ?thesis by (simp add: m' merge_prev_def)
  qed
qed

lemma release_busy:
  "b_busy c \<Longrightarrow> c \<in> set (release_blk xs b ys) \<longleftrightarrow> c \<in> set xs \<or> c \<in> set ys"
proof (cases xs rule: rev_cases)
  case (snoc zs p)
  then show "b_busy c \<Longrightarrow> ?thesis"
    by (cases ys) (auto simp: release_blk_def merge_prev_def)
qed (cases ys; auto simp: release_blk_def merge_prev_def)

lemma release_successively:
  assumes "successively (\<lambda>b c. b_busy b \<or> b_busy c) (xs @ b # ys)"
  shows "successively (\<lambda>b c. b_busy b \<or> b_busy c) (release_blk xs b ys)"
proof -
  let ?P = "\<lambda>b c. b_busy b \<or> b_busy c"
  obtain b' zs where m: "merge_next (Blk (b_at b) (b_len b) False # ys) = b' # zs" "\<not> b_busy b'"
    "zs \<noteq> [] \<longrightarrow> b_busy (hd zs)" "successively ?P zs"
  proof (cases ys)
    case (Cons c zs)
    with assms show ?thesis
      by (cases "b_busy c") (auto simp: successively_append_iff successively_Cons intro!: that)
  qed (auto intro!: that)
  show ?thesis
  proof (cases xs rule: rev_cases)
    case Nil
    with m show ?thesis by (auto simp: release_blk_def merge_prev_def successively_Cons)
  next
    case (snoc ws p)
    with assms m show ?thesis
      by (auto simp: release_blk_def merge_prev_def successively_append_iff successively_Cons)
  qed
qed

lemma SimpleHeap_Release_ok:
  assumes ok: "heap_ok buf sz (xs @ b # ys) h" and busy: "b_busy b"
  shows "\<exists>h'. SimpleHeap_Release dbg (b_at b + 20) h = Inr h' \<and> heap_ok buf sz (release_blk xs b ys) h' \<and>
    keeps (sh_mem h) (sh_mem h') (xs @ ys)"
proof -
  let ?m = "sh_mem h"
  from ok have lk: "lk ?m 0 0 buf (xs @ b # ys)" and sz: "buf + tot (xs @ b # ys) \<le> 4294967296" "0 < buf"
    by (auto simp: heap_ok_def)
  define m1 where "m1 = wr32 ?m (b_at b + 12) c_Free"
  define b1 where "b1 = Blk (b_at b) (b_len b) False"
  have l1: "lk m1 0 0 buf (xs @ b1 # ys)" and k1: "keeps ?m m1 (xs @ b # ys)"
    using lk_sig [OF lk busy] keeps_header [OF lk, of b 12] by (simp_all add: m1_def b1_def)
  from sz have sz1: "buf + tot (xs @ b1 # ys) \<le> 4294967296" by (simp add: b1_def)
  define m2 where "m2 = (if rd32 m1 (b_at b) \<noteq> 0 \<and> rd32 m1 (rd32 m1 (b_at b) + 12) = c_Free
    then sh_merge m1 (b_at b) (rd32 m1 (b_at b)) else m1)"
  have b1: "b_at b1 = b_at b" "\<not> b_busy b1" "b_len b1 = b_len b" by (simp_all add: b1_def)
  from merge_next_step [OF l1 b1(2) sz1 sz(2), unfolded b1(1), folded m2_def]
  have l2: "lk m2 0 0 buf (xs @ merge_next (b1 # ys))" and k2: "keeps m1 m2 (xs @ b1 # ys)"
    and t2: "tot (xs @ merge_next (b1 # ys)) = tot (xs @ b # ys)"
    by (simp_all add: b1)
  obtain b2 zs where mn: "merge_next (b1 # ys) = b2 # zs" "b_at b2 = b_at b" "\<not> b_busy b2"
    using merge_next_head [of b1 ys] by (auto simp: b1 split: if_splits)
  define m3 where "m3 = (if rd32 m2 (b_at b + 4) \<noteq> 0 \<and> rd32 m2 (rd32 m2 (b_at b + 4) + 12) = c_Free
    then sh_merge m2 (rd32 m2 (b_at b + 4)) (b_at b) else m2)"
  from t2 sz have sz2: "buf + tot (xs @ b2 # zs) \<le> 4294967296" by (simp add: mn)
  from merge_prev_step [OF l2 [unfolded mn(1)] mn(3) sz2 sz(2), unfolded mn(2), folded m3_def] t2
  have l3: "lk m3 0 0 buf (release_blk xs b ys)" and k3: "keeps m2 m3 (xs @ b2 # zs)"
    and t3: "tot (release_blk xs b ys) = tot (xs @ b # ys)"
    by (simp_all add: release_blk_def b1_def [symmetric] mn)
  have f: "rd32 ?m (b_at b + 12) = c_Busy" "rd32 ?m (b_at b + 16) = c_Guard"
    "rd32 ?m (b_at b + b_len b - 4) = c_Guard" "rd32 ?m (b_at b + 8) = b_len b" "24 \<le> b_len b"
    "b_at b + b_len b \<le> 4294967296"
    using lk_fields [OF lk] busy sz by auto
  then have "SimpleHeap_Release dbg (b_at b + 20) h = Inr (h\<lparr>sh_mem := m3\<rparr>)"
    by (simp add: SimpleHeap_Release_def bh_defs m1_def m2_def m3_def Let_def c_Busy_def)
  moreover have "heap_ok buf sz (release_blk xs b ys) (h\<lparr>sh_mem := m3\<rparr>)"
    using ok l3 t3 release_successively [of xs b ys] lk_len [OF lk, of b] by (auto simp: heap_ok_def)
  moreover have "keeps ?m m3 (xs @ ys)"
  proof -
    have "keeps m2 m3 (xs @ ys)"
      using k3 merge_next_busy [of _ ys b1] mn(1) by (fastforce intro: keeps_subset)
    moreover have "keeps m1 m2 (xs @ ys)" "keeps ?m m1 (xs @ ys)"
      using k1 k2 by (auto intro: keeps_subset)
    ultimately show ?thesis by (blast intro: keeps_trans)
  qed
  ultimately show ?thesis by auto
qed

section \<open>Allocating\<close>

definition fits :: "nat \<Rightarrow> sh_blk \<Rightarrow> bool" where
  "fits len b \<longleftrightarrow> \<not> b_busy b \<and> len \<le> b_len b"

text \<open>The blocks that take the place of the one that fits.\<close>

definition alloc_blk :: "nat \<Rightarrow> sh_blk \<Rightarrow> sh_blk list" where
  "alloc_blk len b =
     (if b_len b \<le> len + 40 then [Blk (b_at b) (b_len b) True]
      else [Blk (b_at b) (b_len b - len) False, Blk (b_at b + b_len b - len) len True])"

lemma sh_block_len_ok:
  assumes "n + 27 < 4294967296"
  shows "n + 24 \<le> sh_block_len n" "sh_block_len n \<le> n + 27" "4 dvd sh_block_len n"
proof -
  have "sh_block_len n = n + 27 - (n + 27) mod 4"
    using assms by (simp add: sh_block_len_def bh_defs Let_def add.commute)
  then show "n + 24 \<le> sh_block_len n" "sh_block_len n \<le> n + 27" "4 dvd sh_block_len n"
    using dvd_minus_mod [of 4 "n + 27"] by presburger+
qed

lemma sh_fit_walk:
  assumes "lk m pv 0 a bs" "0 < a"
  shows "sh_fit m len (if bs = [] then 0 else a) =
    (case dropWhile (\<lambda>b. \<not> fits len b) bs of
       [] \<Rightarrow> Some (m, 0)
     | b # ys \<Rightarrow> Some (if b_len b \<le> (len + 40) mod 2 ^ 32 then (m, b_at b) else sh_split m len (b_at b)))"
  using assms
proof (induction bs arbitrary: pv a)
  case Nil
  show ?case by (simp add: sh_fit.simps)
next
  case (Cons b bs)
  from Cons.prems have r: "lk m a 0 (a + b_len b) bs" "0 < a + b_len b" by auto
  have f: "b_at b = a" "rd32 m (a + 12) = (if b_busy b then c_Busy else c_Free)" "rd32 m (a + 8) = b_len b"
    "rd32 m a = (if bs = [] then 0 else a + b_len b)"
    using Cons.prems by (auto simp: blk_ok_def)
  show ?case
  proof (cases "fits len b")
    case True
    with f Cons.prems(2) show ?thesis by (simp add: sh_fit.simps [of m len a] bh_defs fits_def)
  next
    case False
    with f Cons.prems(2) have "sh_fit m len a = sh_fit m len (if bs = [] then 0 else a + b_len b)"
      by (auto simp: sh_fit.simps [of m len a] bh_defs fits_def c_Busy_def c_Free_def)
    with Cons.IH [OF r] False show ?thesis by simp
  qed
qed

lemma lk_apart:
  assumes "lk m pv nx a (xs @ b # ys)" "c \<in> set (xs @ ys)"
  shows "b_at c + b_len c \<le> b_at b \<or> b_at b + b_len b \<le> b_at c"
proof -
  from assms(1) have xs: "lk m pv (a + tot xs) a xs" and ys: "lk m (b_at b) nx (b_at b + b_len b) ys"
    and b: "b_at b = a + tot xs"
    by (auto simp: lk_append)
  show ?thesis using assms(2) lk_range [OF xs, of c] lk_range [OF ys, of c] b by auto
qed

lemma keeps_inside:
  assumes "lk m pv nx a (xs @ b # ys)" "b_at b \<le> w" "w + 4 \<le> b_at b + b_len b"
  shows "keeps m' (wr32 m' w v) (xs @ ys)"
  unfolding keeps_def
proof (intro ballI impI allI)
  fix c x
  assume c: "c \<in> set (xs @ ys)" and x: "b_at c + 20 \<le> x \<and> x < b_at c + b_len c - 4"
  show "wr32 m' w v x = m' x"
    using assms(2,3) x lk_apart [OF assms(1) c] by (intro wr32_other) auto
qed

lemma keeps_write:
  assumes "lk m0 pv nx a (xs @ b # ys)" "keeps m m' (xs @ ys)" "b_at b \<le> w" "w + 4 \<le> b_at b + b_len b"
  shows "keeps m (wr32 m' w v) (xs @ ys)"
  using assms(2) keeps_inside [OF assms(1,3,4)] by (rule keeps_trans)

lemma lk_mark:
  assumes lk: "lk m pv 0 a (xs @ b # ys)"
  defines "m' \<equiv> wr32 (wr32 (wr32 m (b_at b + 12) c_Busy) (b_at b + 16) c_Guard) (b_at b + b_len b - 4) c_Guard"
  shows "lk m' pv 0 a (xs @ Blk (b_at b) (b_len b) True # ys) \<and> keeps m m' (xs @ ys)"
proof
  from lk_fields(6) [OF lk] have le: "24 \<le> b_len b" .
  with lk show "lk m' pv 0 a (xs @ Blk (b_at b) (b_len b) True # ys)"
    by (auto simp: m'_def lk_append blk_ok_def c_Busy_def c_Guard_def intro!: lk_wr32)
  show "keeps m m' (xs @ ys)"
    unfolding m'_def using le by (intro keeps_write [OF lk] keeps_refl) auto
qed

lemma lk_split:
  assumes lk: "lk m pv 0 a (xs @ b # ys)" and free: "\<not> b_busy b"
    and L: "24 \<le> L" "4 dvd L" "L + 40 < b_len b" and sz: "a + tot (xs @ b # ys) \<le> 4294967296" "0 < a"
  defines "p \<equiv> b_at b + b_len b - L"
  shows "\<exists>m'. sh_split m L (b_at b) = (m', p) \<and> rd32 m' (p + 8) = L \<and>
    lk (wr32 (wr32 (wr32 m' (p + 12) c_Busy) (p + 16) c_Guard) (p + L - 4) c_Guard) pv 0 a
      (xs @ [Blk (b_at b) (b_len b - L) False, Blk p L True] @ ys) \<and> keeps m m' (xs @ ys)"
proof -
  from lk have xs: "lk m pv (a + tot xs) a xs" and b: "b_at b = a + tot xs"
    and bo: "blk_ok m (last_at pv xs) (if ys = [] then 0 else a + tot xs + b_len b) b"
    and ys: "lk m (b_at b) 0 (b_at b + b_len b) ys"
    by (auto simp: lk_append)
  define n where "n = (if ys = [] then 0 else b_at b + b_len b)"
  have n: "n < 4294967296"
  proof (cases ys)
    case (Cons y zs)
    with ys have "24 \<le> b_len y" by (simp add: blk_ok_def)
    with sz b Cons show ?thesis by (simp add: n_def)
  qed (simp add: n_def)
  have f: "rd32 m (b_at b) = n" "rd32 m (b_at b + 8) = b_len b" "4 dvd b_len b"
    "b_len b < 4294967296" "b_at b + b_len b \<le> 4294967296"
    using bo b sz by (auto simp: blk_ok_def n_def)
  have p: "b_at b + 40 < p" "p + L = b_at b + b_len b" "p < 4294967296" "n = 0 \<or> n = p + L"
    using L f(5) by (auto simp: p_def n_def)
  define m1 where "m1 = wr32 (wr32 (wr32 m p n) (p + 4) (b_at b)) (b_at b) p"
  define m2 where "m2 = (if n \<noteq> 0 then wr32 m1 (n + 4) p else m1)"
  define m3 where "m3 = wr32 (wr32 m2 (p + 8) L) (b_at b + 8) (b_len b - L)"
  define m4 where "m4 = wr32 (wr32 (wr32 m3 (p + 12) c_Busy) (p + 16) c_Guard) (p + L - 4) c_Guard"
  have r: "rd32 m1 (b_at b + 8) = b_len b" "rd32 m2 (b_at b + 8) = b_len b"
    using p f L by (auto simp: m1_def m2_def)
  have "sh_split m L (b_at b) = (m3, p)"
    using f p L
    by (cases "n = 0") (auto simp: sh_split_def bh_defs Let_def p_def [symmetric] m1_def m2_def m3_def)
  moreover have "rd32 m3 (p + 8) = L"
    using p f L by (simp add: m3_def)
  moreover have "lk m4 pv 0 a (xs @ [Blk (b_at b) (b_len b - L) False, Blk p L True] @ ys)"
  proof -
    have lx: "lk m4 pv (a + tot xs) a xs"
      using xs b p L unfolding m4_def m3_def m2_def m1_def by (auto intro!: lk_wr32)
    have y1: "lk m1 (b_at b) 0 (b_at b + b_len b) ys"
      using ys p L unfolding m1_def by (auto intro!: lk_wr32)
    have y2: "lk m2 p 0 (b_at b + b_len b) ys"
    proof (cases ys)
      case (Cons y zs)
      from lk_set_prev [OF y1 [unfolded Cons] p(3)] L show ?thesis by (simp add: m2_def n_def Cons)
    qed simp
    have ly: "lk m4 p 0 (b_at b + b_len b) ys"
      using y2 p L unfolding m4_def m3_def by (auto intro!: lk_wr32)
    have b1: "blk_ok m4 (last_at pv xs) p (Blk (b_at b) (b_len b - L) False)"
      using bo free p L f by (auto simp: m4_def m3_def m2_def m1_def blk_ok_def)
    have b2: "blk_ok m4 (b_at b) n (Blk p L True)"
      using p L f n by (auto simp: m4_def m3_def m2_def m1_def blk_ok_def c_Guard_def c_Busy_def)
    have "a + (tot xs + b_len b) - L = p" using p b L by simp
    then show ?thesis
      using lx ly b1 b2 p b L by (simp add: lk_append n_def add.assoc split: if_splits)
  qed
  moreover have "keeps m m3 (xs @ ys)"
  proof -
    have k1: "keeps m m1 (xs @ ys)"
      unfolding m1_def using p L by (intro keeps_write [OF lk] keeps_refl) auto
    have "keeps m m2 (xs @ ys)"
      using keeps_trans [OF k1 keeps_subset [OF keeps_next [OF lk, of m1 p]]] f(1) by (auto simp: m2_def)
    then show ?thesis
      unfolding m3_def using p L by (intro keeps_write [OF lk]) auto
  qed
  ultimately show ?thesis unfolding m4_def by blast
qed

lemma alloc_blk_busy:
  "c \<in> set (alloc_blk len b) \<Longrightarrow> b_busy c \<Longrightarrow> c = last (alloc_blk len b)"
  by (auto simp: alloc_blk_def split: if_splits)

lemma alloc_blk_last: "b_busy (last (alloc_blk len b))" "last (alloc_blk len b) \<in> set (alloc_blk len b)"
  by (auto simp: alloc_blk_def)

lemma alloc_blk_tot: "len \<le> b_len b \<Longrightarrow> tot (alloc_blk len b) = b_len b"
  by (simp add: alloc_blk_def)

lemma alloc_successively:
  assumes "successively (\<lambda>b c. b_busy b \<or> b_busy c) (xs @ b # ys)" "\<not> b_busy b"
  shows "successively (\<lambda>b c. b_busy b \<or> b_busy c) (xs @ alloc_blk len b @ ys)"
  using assms by (auto simp: alloc_blk_def successively_append_iff successively_Cons)

text \<open>First fit: nothing before the block that is taken is free and long enough.\<close>

lemma SimpleHeap_Allocate_ok:
  assumes ok: "heap_ok buf sz bs h" and n: "n + 27 < 4294967296"
  shows "(\<forall>b \<in> set bs. \<not> fits (sh_block_len n) b) \<and> SimpleHeap_Allocate n h = Some (h, 0) \<or>
    (\<exists>xs b ys h'. bs = xs @ b # ys \<and> fits (sh_block_len n) b \<and> (\<forall>x \<in> set xs. \<not> fits (sh_block_len n) x) \<and>
       SimpleHeap_Allocate n h = Some (h', b_at (last (alloc_blk (sh_block_len n) b)) + 20) \<and>
       heap_ok buf sz (xs @ alloc_blk (sh_block_len n) b @ ys) h' \<and>
       keeps (sh_mem h) (sh_mem h') (xs @ ys))"
proof -
  let ?m = "sh_mem h" and ?L = "sh_block_len n" and ?P = "\<lambda>b. \<not> fits (sh_block_len n) b"
  from ok have lk: "lk ?m 0 0 buf bs" and a: "0 < buf" "g_s_FirstCluster h = buf" "bs \<noteq> []"
    and sz: "buf + tot bs \<le> 4294967296" "tot bs + 40 < 4294967296"
    by (auto simp: heap_ok_def)
  note L = sh_block_len_ok [OF n]
  from sh_fit_walk [OF lk a(1), of ?L] a
  have walk: "sh_fit ?m ?L buf = (case dropWhile ?P bs of [] \<Rightarrow> Some (?m, 0)
     | b # ys \<Rightarrow> Some (if b_len b \<le> (?L + 40) mod 2 ^ 32 then (?m, b_at b) else sh_split ?m ?L (b_at b)))"
    by simp
  show ?thesis
  proof (cases "dropWhile ?P bs")
    case Nil
    with walk a have "SimpleHeap_Allocate n h = Some (h, 0)" by (simp add: SimpleHeap_Allocate_def)
    with Nil show ?thesis by (simp add: dropWhile_eq_Nil_conv)
  next
    case (Cons b ys)
    define xs where "xs = takeWhile ?P bs"
    have bs: "bs = xs @ b # ys" using takeWhile_dropWhile_id [of ?P bs] Cons by (simp add: xs_def)
    have fit: "fits ?L b" using Cons by (metis dropWhile_eq_Cons_conv)
    have pre: "\<forall>x \<in> set xs. \<not> fits ?L x" by (auto simp: xs_def dest: set_takeWhileD)
    have free: "\<not> b_busy b" and le: "?L \<le> b_len b" using fit by (auto simp: fits_def)
    from lk_fields [OF lk [unfolded bs]] have f: "rd32 ?m (b_at b + 8) = b_len b" "b_at b = buf + tot xs" "24 \<le> b_len b"
      by auto
    have bl: "b_len b + 40 < 4294967296" "b_at b + b_len b \<le> 4294967296" using sz f by (simp_all add: bs)
    have L40: "(?L + 40) mod 2 ^ 32 = ?L + 40" using bl le by simp
    have goal: "\<exists>h'. SimpleHeap_Allocate n h = Some (h', b_at (last (alloc_blk ?L b)) + 20) \<and>
       heap_ok buf sz (xs @ alloc_blk ?L b @ ys) h' \<and> keeps ?m (sh_mem h') (xs @ ys)"
    proof (cases "b_len b \<le> ?L + 40")
      case True
      let ?m' = "wr32 (wr32 (wr32 ?m (b_at b + 12) c_Busy) (b_at b + 16) c_Guard) (b_at b + b_len b - 4) c_Guard"
      have "SimpleHeap_Allocate n h = Some (h\<lparr>sh_mem := ?m'\<rparr>, b_at b + 20)"
        using walk Cons L40 True f a bl by (auto simp: SimpleHeap_Allocate_def bh_defs Let_def)
      moreover have "heap_ok buf sz (xs @ alloc_blk ?L b @ ys) (h\<lparr>sh_mem := ?m'\<rparr>)"
        using ok lk_mark [OF lk [unfolded bs]] alloc_successively [of xs b ys ?L] free True
        by (auto simp: heap_ok_def bs alloc_blk_def)
      ultimately show ?thesis
        using lk_mark [OF lk [unfolded bs]] True by (simp add: alloc_blk_def)
    next
      case False
      define p where "p = b_at b + b_len b - ?L"
      have sz': "buf + tot (xs @ b # ys) \<le> 4294967296" using sz by (simp add: bs)
      from lk_split [OF lk [unfolded bs] free _ L(3) _ sz' a(1)] False L(1)
      obtain m' where m': "sh_split ?m ?L (b_at b) = (m', p)" "rd32 m' (p + 8) = ?L"
        "lk (wr32 (wr32 (wr32 m' (p + 12) c_Busy) (p + 16) c_Guard) (p + ?L - 4) c_Guard) 0 0 buf
          (xs @ [Blk (b_at b) (b_len b - ?L) False, Blk p ?L True] @ ys)" "keeps ?m m' (xs @ ys)"
        by (auto simp: p_def)
      let ?m' = "wr32 (wr32 (wr32 m' (p + 12) c_Busy) (p + 16) c_Guard) (p + ?L - 4) c_Guard"
      have p: "b_at b < p" "p + ?L = b_at b + b_len b" using False by (auto simp: p_def)
      have "SimpleHeap_Allocate n h = Some (h\<lparr>sh_mem := ?m'\<rparr>, p + 20)"
        using walk Cons L40 False a bl m' p L(1) by (auto simp: SimpleHeap_Allocate_def bh_defs Let_def)
      moreover have "heap_ok buf sz (xs @ alloc_blk ?L b @ ys) (h\<lparr>sh_mem := ?m'\<rparr>)"
        using ok m'(3) alloc_successively [of xs b ys ?L] free False le
        by (auto simp: heap_ok_def bs alloc_blk_def p_def)
      moreover have "keeps ?m ?m' (xs @ ys)"
        using p L(1) m'(4) by (intro keeps_write [OF lk [unfolded bs]]) auto
      ultimately show ?thesis
        using False by (simp add: alloc_blk_def p_def [symmetric])
    qed
    with bs fit pre show ?thesis by blast
  qed
qed

section \<open>The heap as a map of arrays\<close>

definition live_ok :: "sh_blk list \<Rightarrow> memory \<Rightarrow> arrays \<Rightarrow> bool" where
  "live_ok bs m live \<longleftrightarrow>
     (\<forall>p xs. live p = Some xs \<longrightarrow> (\<exists>b \<in> set bs. b_busy b \<and> p = b_at b + 20 \<and>
        length xs + 24 \<le> b_len b \<and> (\<forall>i < length xs. m (p + i) = xs ! i))) \<and>
     (\<forall>b \<in> set bs. b_busy b \<longrightarrow> live (b_at b + 20) \<noteq> None)"

definition sh_rel :: "nat \<Rightarrow> nat \<Rightarrow> simple_heap \<Rightarrow> arrays \<Rightarrow> bool" where
  "sh_rel buf sz h live \<longleftrightarrow> (\<exists>bs. heap_ok buf sz bs h \<and> live_ok bs (sh_mem h) live)"

definition sh_free :: "bool \<Rightarrow> nat \<Rightarrow> simple_heap \<Rightarrow> simple_heap option" where
  "sh_free dbg p h = (case SimpleHeap_Release dbg p h of Inl _ \<Rightarrow> None | Inr h \<Rightarrow> Some h)"

definition sh_poke :: "nat \<Rightarrow> u8 \<Rightarrow> simple_heap \<Rightarrow> simple_heap" where
  "sh_poke a b h = h\<lparr>sh_mem := (sh_mem h)(a := b)\<rparr>"

lemma blk_at_inj:
  assumes "heap_ok buf sz bs h" "b \<in> set bs" "c \<in> set bs" "b_at b = b_at c"
  shows "b = c"
proof -
  from assms(1) have lk: "lk (sh_mem h) 0 0 buf bs" by (simp add: heap_ok_def)
  from lk_disjoint [OF lk assms(2,3)] lk_len [OF lk assms(2)] lk_len [OF lk assms(3)] assms(4)
  show ?thesis by auto
qed

lemma live_blk:
  assumes "live_ok bs m live" "live p = Some xs"
  obtains b where "b \<in> set bs" "b_busy b" "p = b_at b + 20" "length xs + 24 \<le> b_len b"
    "\<forall>i < length xs. m (p + i) = xs ! i"
  using assms unfolding live_ok_def by blast

lemma live_busy: "live_ok bs m live \<Longrightarrow> b \<in> set bs \<Longrightarrow> b_busy b \<Longrightarrow> live (b_at b + 20) \<noteq> None"
  by (simp add: live_ok_def)

lemma live_keeps:
  assumes l: "live_ok bs m live" and k: "keeps m m' cs"
    and sub: "\<And>b. b \<in> set bs \<Longrightarrow> b_busy b \<Longrightarrow> live' (b_at b + 20) \<noteq> None \<Longrightarrow> b \<in> set cs"
    and le: "\<And>p. live' p = None \<or> live' p = live p"
    and all: "\<And>b. b \<in> set cs \<Longrightarrow> b_busy b \<Longrightarrow> live' (b_at b + 20) \<noteq> None"
  shows "live_ok cs m' live'"
  unfolding live_ok_def
proof (intro conjI allI impI ballI)
  fix p xs
  assume p: "live' p = Some xs"
  with le [of p] have "live p = Some xs" by simp
  with l obtain b where b: "b \<in> set bs" "b_busy b" "p = b_at b + 20" "length xs + 24 \<le> b_len b"
    "\<forall>i < length xs. m (p + i) = xs ! i" by (rule live_blk)
  with sub p have c: "b \<in> set cs" by auto
  have "m' (p + i) = xs ! i" if "i < length xs" for i
  proof -
    have "b_at b + 20 \<le> p + i \<and> p + i < b_at b + b_len b - 4" using that b(3,4) by auto
    with k c b(2) have "m' (p + i) = m (p + i)" unfolding keeps_def by blast
    with b(5) that show ?thesis by simp
  qed
  with b c show "\<exists>b \<in> set cs. b_busy b \<and> p = b_at b + 20 \<and> length xs + 24 \<le> b_len b \<and>
    (\<forall>i < length xs. m' (p + i) = xs ! i)" by auto
qed (use all in auto)

lemma live_add:
  assumes l: "live_ok cs m live" and c: "c \<in> set bs" "b_busy c" "length vs + 24 \<le> b_len c"
    and v: "\<forall>i < length vs. m (b_at c + 20 + i) = vs ! i"
    and sub: "\<And>b. b \<in> set bs \<Longrightarrow> b_busy b \<Longrightarrow> b \<in> set cs \<or> b = c" "set cs \<subseteq> set bs"
  shows "live_ok bs m (live(b_at c + 20 \<mapsto> vs))"
  unfolding live_ok_def
proof (intro conjI allI impI ballI)
  fix p xs
  assume p: "(live(b_at c + 20 \<mapsto> vs)) p = Some xs"
  show "\<exists>b \<in> set bs. b_busy b \<and> p = b_at b + 20 \<and> length xs + 24 \<le> b_len b \<and>
    (\<forall>i < length xs. m (p + i) = xs ! i)"
  proof (cases "p = b_at c + 20")
    case True
    with p c v show ?thesis by auto
  next
    case False
    with p have "live p = Some xs" by simp
    with l obtain b where "b \<in> set cs" "b_busy b" "p = b_at b + 20" "length xs + 24 \<le> b_len b"
      "\<forall>i < length xs. m (p + i) = xs ! i" by (rule live_blk)
    with sub(2) show ?thesis by blast
  qed
next
  fix b
  assume "b \<in> set bs" "b_busy b"
  with sub(1) live_busy [OF l, of b] show "(live(b_at c + 20 \<mapsto> vs)) (b_at b + 20) \<noteq> None" by auto
qed

lemma sh_alloc_law:
  assumes rel: "sh_rel buf sz h live" and n: "n + 27 < 4294967296"
  shows "\<exists>h' p. SimpleHeap_Allocate n h = Some (h', p) \<and>
    (p = 0 \<and> h' = h \<or>
     p \<noteq> 0 \<and> live p = None \<and>
     (\<forall>xs. length xs = n \<longrightarrow> (\<forall>i < n. sh_mem h' (p + i) = xs ! i) \<longrightarrow> sh_rel buf sz h' (live(p \<mapsto> xs))))"
proof -
  from rel obtain bs where ok: "heap_ok buf sz bs h" and l: "live_ok bs (sh_mem h) live"
    by (auto simp: sh_rel_def)
  let ?L = "sh_block_len n"
  from SimpleHeap_Allocate_ok [OF ok n] show ?thesis
  proof (elim disjE exE conjE)
    fix xs b ys h'
    assume bs: "bs = xs @ b # ys" and fit: "fits ?L b"
      and al: "SimpleHeap_Allocate n h = Some (h', b_at (last (alloc_blk ?L b)) + 20)"
      and ok': "heap_ok buf sz (xs @ alloc_blk ?L b @ ys) h'" and k: "keeps (sh_mem h) (sh_mem h') (xs @ ys)"
    define c where "c = last (alloc_blk ?L b)"
    define p where "p = b_at c + 20"
    have c: "b_busy c" "c \<in> set (alloc_blk ?L b)" and len: "n + 24 \<le> b_len c"
      using fit sh_block_len_ok(1) [OF n] by (auto simp: c_def alloc_blk_last alloc_blk_def fits_def)
    from ok have lk: "lk (sh_mem h) 0 0 buf (xs @ b # ys)" by (simp add: heap_ok_def bs)
    from ok' have lk': "lk (sh_mem h') 0 0 buf (xs @ alloc_blk ?L b @ ys)" by (simp add: heap_ok_def)
    have other: "b_at d \<noteq> b_at c" if "d \<in> set (xs @ ys)" for d
    proof
      assume eq: "b_at d = b_at c"
      have "b_at b \<le> b_at c" "b_at c < b_at b + b_len b"
        using fit c len by (auto simp: alloc_blk_def fits_def split: if_splits)
      with eq lk_apart [OF lk that] lk_len [OF lk, of d] that show False by auto
    qed
    have free: "live p = None"
    proof (rule ccontr)
      assume "live p \<noteq> None"
      then obtain zs where "live p = Some zs" by blast
      with l obtain d where d: "d \<in> set bs" "b_busy d" "p = b_at d + 20" by (rule live_blk)
      with fit have "d \<in> set (xs @ ys)" by (auto simp: bs fits_def)
      with other d(3) show False by (auto simp: p_def)
    qed
    have "sh_rel buf sz h' (live(p \<mapsto> vs))"
      if v: "length vs = n" "\<forall>i < n. sh_mem h' (p + i) = vs ! i" for vs
    proof -
      have "live_ok (xs @ ys) (sh_mem h') live"
        using fit live_busy [OF l] by (intro live_keeps [OF l k]) (auto simp: bs fits_def)
      then have "live_ok (xs @ alloc_blk ?L b @ ys) (sh_mem h') (live(p \<mapsto> vs))"
        unfolding p_def
      proof (rule live_add)
        show "b' \<in> set (xs @ ys) \<or> b' = c" if "b' \<in> set (xs @ alloc_blk ?L b @ ys)" "b_busy b'" for b'
          using that alloc_blk_busy [of b' ?L b] by (auto simp: c_def)
      qed (use c len v in \<open>auto simp: p_def\<close>)
      with ok' show ?thesis unfolding sh_rel_def by blast
    qed
    with al free show ?thesis by (auto simp: p_def c_def)
  qed auto
qed

lemma sh_null: "sh_rel buf sz h live \<Longrightarrow> live 0 = None"
proof (rule ccontr)
  assume "sh_rel buf sz h live" "live 0 \<noteq> None"
  then obtain bs xs where "live_ok bs (sh_mem h) live" "live 0 = Some xs" by (auto simp: sh_rel_def)
  then obtain b where "0 = b_at b + 20" by (rule live_blk)
  then show False by simp
qed

lemma sh_free_law:
  assumes rel: "sh_rel buf sz h live" and p: "p = 0 \<or> live p \<noteq> None"
  shows "\<exists>h'. SimpleHeap_Release dbg p h = Inr h' \<and> sh_rel buf sz h' (live(p := None))"
proof (cases "p = 0")
  case True
  with rel sh_null [OF rel] show ?thesis by (auto simp: SimpleHeap_Release_def fun_upd_idem)
next
  case False
  from rel obtain bs where ok: "heap_ok buf sz bs h" and l: "live_ok bs (sh_mem h) live"
    by (auto simp: sh_rel_def)
  from False p obtain zs where "live p = Some zs" by blast
  with l obtain b where b: "b \<in> set bs" "b_busy b" "p = b_at b + 20" by (rule live_blk)
  from b(1) obtain xs ys where bs: "bs = xs @ b # ys" by (meson split_list)
  from SimpleHeap_Release_ok [OF ok [unfolded bs] b(2), of dbg] obtain h' where
    h': "SimpleHeap_Release dbg (b_at b + 20) h = Inr h'" "heap_ok buf sz (release_blk xs b ys) h'"
    "keeps (sh_mem h) (sh_mem h') (xs @ ys)" by blast
  from ok have lk: "lk (sh_mem h) 0 0 buf (xs @ b # ys)" by (simp add: heap_ok_def bs)
  have ne: "b_at c \<noteq> b_at b" if "c \<in> set (xs @ ys)" for c
    using lk_apart [OF lk that] lk_len [OF lk, of b] lk_len [OF lk, of c] that by auto
  have "keeps (sh_mem h) (sh_mem h') (release_blk xs b ys)"
    using h'(3) release_busy [of _ xs b ys] by (auto intro: keeps_subset)
  then have "live_ok (release_blk xs b ys) (sh_mem h') (live(p := None))"
    using live_busy [OF l] b ne release_busy [of _ xs b ys]
    by (intro live_keeps [OF l]) (auto simp: bs split: if_splits)
  with h' b show ?thesis unfolding sh_rel_def by blast
qed

text \<open>A client writes inside one of its arrays.\<close>

lemma sh_store_law:
  assumes rel: "sh_rel buf sz h live" and p: "live p = Some bs" "length vs = length bs"
    and m: "\<And>x. x < p \<or> p + length bs \<le> x \<Longrightarrow> m x = sh_mem h x" "\<And>i. i < length bs \<Longrightarrow> m (p + i) = vs ! i"
  shows "sh_rel buf sz (h\<lparr>sh_mem := m\<rparr>) (live(p \<mapsto> vs))"
proof -
  from rel obtain cs where ok: "heap_ok buf sz cs h" and l: "live_ok cs (sh_mem h) live"
    by (auto simp: sh_rel_def)
  from l p(1) obtain b where b: "b \<in> set cs" "b_busy b" "p = b_at b + 20" "length bs + 24 \<le> b_len b"
    by (rule live_blk)
  from b(1) obtain xs ys where cs: "cs = xs @ b # ys" by (meson split_list)
  from ok have lk: "lk (sh_mem h) 0 0 buf (xs @ b # ys)" by (simp add: heap_ok_def cs)
  have rd: "rd32 m x = rd32 (sh_mem h) x" if "x + 4 \<le> p \<or> b_at b + b_len b - 4 \<le> x" for x
    using that b(3,4) by (intro rd32_cong m(1)) auto
  have lk': "lk m 0 0 buf (xs @ b # ys)"
  proof -
    from lk have "lk m 0 (buf + tot xs) buf xs" "lk m (b_at b) 0 (b_at b + b_len b) ys"
      and bo: "blk_ok (sh_mem h) (last_at 0 xs) (if ys = [] then 0 else b_at b + b_len b) b"
      and at: "b_at b = buf + tot xs"
      using b(3,4) m(1) by (auto simp: lk_append intro!: lk_frame [where m = "sh_mem h"])
    moreover from bo have "blk_ok m (last_at 0 xs) (if ys = [] then 0 else b_at b + b_len b) b"
      using rd [unfolded b(3)] by (simp add: blk_ok_def)
    ultimately show ?thesis by (auto simp: lk_append split: if_splits)
  qed
  have k: "keeps (sh_mem h) m (xs @ ys)"
    unfolding keeps_def
  proof (intro ballI impI allI)
    fix c x
    assume c: "c \<in> set (xs @ ys)" and x: "b_at c + 20 \<le> x \<and> x < b_at c + b_len c - 4"
    from lk_apart [OF lk c] b(3,4) x show "m x = sh_mem h x" by (intro m(1)) auto
  qed
  have ne: "b_at c \<noteq> b_at b" if "c \<in> set (xs @ ys)" for c
    using lk_apart [OF lk that] lk_len [OF lk, of b] lk_len [OF lk, of c] that by auto
  have "live_ok (xs @ ys) m (live(p := None))"
    using ne b live_busy [OF l] by (intro live_keeps [OF l k]) (auto simp: cs split: if_splits)
  then have "live_ok (xs @ b # ys) m ((live(p := None))(b_at b + 20 \<mapsto> vs))"
    by (rule live_add) (use b(2-) p(2) m(2) in auto)
  with ok lk' b(3) show ?thesis
    by (auto simp: sh_rel_def heap_ok_def cs intro!: exI [of _ "xs @ b # ys"])
qed

lemma sh_poke_law:
  assumes "sh_rel buf sz h live" "live p = Some bs" "i < length bs"
  shows "sh_rel buf sz (sh_poke (p + i) v h) (live(p \<mapsto> bs[i := v]))"
proof -
  from assms(1) obtain cs where l: "live_ok cs (sh_mem h) live" by (auto simp: sh_rel_def)
  from l assms(2) have "\<forall>j < length bs. sh_mem h (p + j) = bs ! j" by (rule live_blk)
  with assms(3) show ?thesis
    unfolding sh_poke_def by (intro sh_store_law [OF assms(1,2)]) (auto simp: nth_list_update)
qed

text \<open>What the memory holds for an array.\<close>

lemma sh_array:
  assumes rel: "sh_rel buf sz h live" and p: "live p = Some xs"
  shows "buf + 20 \<le> p" "p + length xs + 4 \<le> buf + sz" "4 dvd p"
    "rd32 (sh_mem h) (p - 20 + 12) = c_Busy" "length xs + 24 \<le> rd32 (sh_mem h) (p - 20 + 8)"
    "i < length xs \<Longrightarrow> sh_mem h (p + i) = xs ! i"
proof -
  from rel obtain bs where ok: "heap_ok buf sz bs h" and l: "live_ok bs (sh_mem h) live"
    by (auto simp: sh_rel_def)
  from l p obtain b where b: "b \<in> set bs" "b_busy b" "p = b_at b + 20" "length xs + 24 \<le> b_len b"
    "\<forall>i < length xs. sh_mem h (p + i) = xs ! i" by (rule live_blk)
  from b(1) obtain ys zs where bs: "bs = ys @ b # zs" by (meson split_list)
  from ok have lk: "lk (sh_mem h) 0 0 buf (ys @ b # zs)" and sz: "tot bs = sz" "4 dvd buf"
    by (simp_all add: heap_ok_def bs)
  have "4 dvd tot ys" using lk_len [OF lk] by (induction ys) auto
  with sz lk_fields [OF lk] b show "buf + 20 \<le> p" "p + length xs + 4 \<le> buf + sz" "4 dvd p"
    "rd32 (sh_mem h) (p - 20 + 12) = c_Busy" "length xs + 24 \<le> rd32 (sh_mem h) (p - 20 + 8)"
    "i < length xs \<Longrightarrow> sh_mem h (p + i) = xs ! i"
    by (auto simp: bs)
qed

lemma sh_resize_law:
  assumes rel: "sh_rel buf sz h live" and p: "live p = Some bs" and n: "n + 27 < 4294967296"
  shows "\<exists>h' q. SimpleHeap_ReAllocate dbg p n h = Some (h', q) \<and>
    (q = 0 \<and> sh_rel buf sz h' live \<or>
     q \<noteq> 0 \<and> live q = None \<and>
     sh_rel buf sz h' ((live(p := None))(q \<mapsto> take n bs @ map (sh_mem h') [q + length bs..<q + n])))"
proof -
  from sh_alloc_law [OF rel n] obtain h1 q where al: "SimpleHeap_Allocate n h = Some (h1, q)"
    and cases: "q = 0 \<and> h1 = h \<or> q \<noteq> 0 \<and> live q = None \<and>
      (\<forall>xs. length xs = n \<longrightarrow> (\<forall>i < n. sh_mem h1 (q + i) = xs ! i) \<longrightarrow> sh_rel buf sz h1 (live(q \<mapsto> xs)))"
    by blast
  show ?thesis
  proof (cases "q = 0")
    case True
    with al cases rel show ?thesis by (simp add: SimpleHeap_ReAllocate_def)
  next
    case False
    define vs where "vs = map (sh_mem h1) [q..<q + n]"
    have vs: "length vs = n" "\<forall>i < n. sh_mem h1 (q + i) = vs ! i" by (simp_all add: vs_def)
    with False cases have r1: "sh_rel buf sz h1 (live(q \<mapsto> vs))" and q: "live q = None" by blast+
    from p q have pq: "p \<noteq> q" by auto
    with p have p1: "(live(q \<mapsto> vs)) p = Some bs" by simp
    note a1 = sh_array [OF r1 p1]
    define k where "k = (if rd32 (sh_mem h1) (p - 20 + 8) < n then rd32 (sh_mem h1) (p - 20 + 8) else n)"
    have k: "k \<le> n" "i < n \<Longrightarrow> i < length bs \<Longrightarrow> i < k" for i using a1(5) by (auto simp: k_def)
    define m2 where "m2 = memcpy (sh_mem h1) q p k"
    define ws where "ws = map m2 [q..<q + n]"
    have r2: "sh_rel buf sz (h1\<lparr>sh_mem := m2\<rparr>) ((live(q \<mapsto> vs))(q \<mapsto> ws))"
      by (rule sh_store_law [OF r1, of q vs]) (use k vs in \<open>auto simp: ws_def m2_def memcpy_def\<close>)
    then have r2': "sh_rel buf sz (h1\<lparr>sh_mem := m2\<rparr>) (live(q \<mapsto> ws))" by simp
    have p2: "p = 0 \<or> (live(q \<mapsto> ws)) p \<noteq> None" using p pq by simp
    from sh_free_law [OF r2' p2, of dbg] obtain h3
      where h3: "SimpleHeap_Release dbg p (h1\<lparr>sh_mem := m2\<rparr>) = Inr h3"
        "sh_rel buf sz h3 ((live(q \<mapsto> ws))(p := None))" by blast
    have l3: "(live(q \<mapsto> ws))(p := None) = (live(p := None))(q \<mapsto> ws)" using pq by (simp add: fun_upd_twist)
    have "ws = take n bs @ map (sh_mem h3) [q + length bs..<q + n]"
    proof (rule nth_equalityI)
      fix i
      assume "i < length ws"
      then have i: "i < n" by (simp add: ws_def)
      show "ws ! i = (take n bs @ map (sh_mem h3) [q + length bs..<q + n]) ! i"
      proof (cases "i < length bs")
        case True
        have "ws ! i = sh_mem h1 (p + i)" using i k(2) [OF i True] by (simp add: ws_def m2_def memcpy_def)
        with a1(6) [OF True] True i show ?thesis by (simp add: nth_append)
      next
        case False
        have "sh_mem h3 (q + i) = ws ! i"
          using sh_array(6) [OF h3(2), of q ws i] i pq by (simp add: ws_def)
        with False i show ?thesis by (simp add: nth_append)
      qed
    qed (simp add: ws_def)
    moreover have "SimpleHeap_ReAllocate dbg p n h = Some (h3, q)"
      using al False a1(1) h3(1)
      by (simp add: SimpleHeap_ReAllocate_def Let_def bh_defs m2_def k_def)
    ultimately show ?thesis using False q h3(2) l3 by auto
  qed
qed

interpretation sh: allocator SimpleHeap_Allocate "sh_free dbg" "SimpleHeap_ReAllocate dbg" sh_mem sh_poke
    "sh_rel buf sz" "4294967296 - 27" for dbg buf sz
proof
  show "\<exists>h' p. SimpleHeap_Allocate n h = Some (h', p) \<and> (p = 0 \<and> sh_rel buf sz h' live \<or>
      p \<noteq> 0 \<and> live p = None \<and> sh_rel buf sz h' (live(p \<mapsto> map (sh_mem h') [p..<p + n])))"
    if rel: "sh_rel buf sz h live" and n: "n < 4294967296 - 27" for h live n
  proof -
    from n have "n + 27 < 4294967296" by simp
    from sh_alloc_law [OF rel this] obtain h' p where h': "SimpleHeap_Allocate n h = Some (h', p)"
      "p = 0 \<and> h' = h \<or> p \<noteq> 0 \<and> live p = None \<and>
       (\<forall>xs. length xs = n \<longrightarrow> (\<forall>i < n. sh_mem h' (p + i) = xs ! i) \<longrightarrow> sh_rel buf sz h' (live(p \<mapsto> xs)))"
      by blast
    from h'(2) rel have "p = 0 \<and> sh_rel buf sz h' live \<or>
      p \<noteq> 0 \<and> live p = None \<and> sh_rel buf sz h' (live(p \<mapsto> map (sh_mem h') [p..<p + n]))"
      by (elim disjE) simp_all
    with h'(1) show ?thesis by blast
  qed
  show "\<exists>h'. sh_free dbg p h = Some h' \<and> sh_rel buf sz h' (live(p := None))"
    if "sh_rel buf sz h live" "p = 0 \<or> live p \<noteq> None" for h live p
    using sh_free_law [OF that, of dbg] by (auto simp: sh_free_def)
  show "\<exists>h' q. SimpleHeap_ReAllocate dbg p n h = Some (h', q) \<and> (q = 0 \<and> sh_rel buf sz h' live \<or>
      q \<noteq> 0 \<and> live q = None \<and>
      sh_rel buf sz h' ((live(p := None))(q \<mapsto> take n bs @ map (sh_mem h') [q + length bs..<q + n])))"
    if "sh_rel buf sz h live" "live p = Some bs" "n < 4294967296 - 27" for h live p bs n
    using that by (intro sh_resize_law) simp_all
qed (rule sh_poke_law)

lemma sh_Initialize_rel:
  assumes "0 < buf" "4 dvd buf" "4 dvd sz" "24 \<le> sz" "buf + sz \<le> 4294967296" "sz + 40 < 4294967296"
  shows "sh_rel buf sz (SimpleHeap_Initialize buf sz h) Map.empty"
proof -
  have "heap_ok buf sz [Blk buf sz False] (SimpleHeap_Initialize buf sz h)"
    using assms by (simp add: heap_ok_def blk_ok_def SimpleHeap_Initialize_def bh_defs Let_def c_Free_def)
  then show ?thesis by (auto simp: sh_rel_def live_ok_def)
qed

text \<open>Two arrays are apart by at least a guard word and a header.\<close>

lemma sh_apart:
  assumes rel: "sh_rel buf sz h live" and p: "live p = Some xs" and q: "live q = Some ys" and "p < q"
  shows "p + length xs + 24 \<le> q"
proof -
  from rel obtain bs where ok: "heap_ok buf sz bs h" and l: "live_ok bs (sh_mem h) live"
    by (auto simp: sh_rel_def)
  from l p obtain b where b: "b \<in> set bs" "p = b_at b + 20" "length xs + 24 \<le> b_len b" by (rule live_blk)
  from l q obtain c where c: "c \<in> set bs" "q = b_at c + 20" "length ys + 24 \<le> b_len c" by (rule live_blk)
  from ok have "lk (sh_mem h) 0 0 buf bs" by (simp add: heap_ok_def)
  from lk_disjoint [OF this b(1) c(1)] b c \<open>p < q\<close> show ?thesis by auto
qed

text \<open>When everything was released, the buffer is one free block again.\<close>

lemma sh_all_free:
  assumes rel: "sh_rel buf sz h Map.empty" and n: "n + 27 \<le> sz"
  shows "\<exists>h' p. SimpleHeap_Allocate n h = Some (h', p) \<and> p \<noteq> 0"
proof -
  from rel obtain bs where ok: "heap_ok buf sz bs h" and l: "live_ok bs (sh_mem h) Map.empty"
    by (auto simp: sh_rel_def)
  have free: "\<not> b_busy b" if "b \<in> set bs" for b using live_busy [OF l that] by auto
  obtain b where bs: "bs = [b]"
    using ok free by (cases bs; cases "tl bs") (auto simp: heap_ok_def successively_Cons)
  have n': "n + 27 < 4294967296" using n ok by (simp add: heap_ok_def)
  have "fits (sh_block_len n) b"
    using ok free sh_block_len_ok [OF n'] n by (simp add: bs fits_def heap_ok_def)
  with SimpleHeap_Allocate_ok [OF ok n'] show ?thesis by (auto simp: bs)
qed

text \<open>
  C40. The custom heap never gives out a byte twice. From \<open>SimpleHeap_Initialize\<close> on an aligned
  buffer, every history of allocations, reallocations, releases of what was allocated (or of
  NULL) and writes inside the arrays returns, without a breakpoint in a debug build or not. Then
  every array that was allocated and not released lies in the buffer, is aligned, counts as
  allocated and holds exactly what its owner wrote (a reallocated one also what the old one
  held); two of them are apart by at least a guard word and a header; and once all are released
  the free blocks have been merged into one again, so that a request of nearly the whole
  buffer succeeds. The sizes asked for stay 28 below \<open>2 ^ 32\<close>, above that the sum wraps
  (\<open>SimpleHeap_Allocate_wraps\<close>).
\<close>

theorem simple_heap_is_safe:
  assumes buf: "0 < buf" "4 dvd buf" "4 dvd sz" "24 \<le> sz" "buf + sz \<le> 2 ^ 32" "sz + 40 < 2 ^ 32"
    and sizes: "\<forall>x \<in> set ops. op_size x < 2 ^ 32 - 27"
  shows "\<exists>h live.
    heap_run SimpleHeap_Allocate (sh_free dbg) (SimpleHeap_ReAllocate dbg) sh_mem sh_poke ops
      (SimpleHeap_Initialize buf sz h0, Map.empty) = Some (h, live) \<and>
    (\<forall>p xs. live p = Some xs \<longrightarrow>
       buf + 20 \<le> p \<and> p + length xs + 4 \<le> buf + sz \<and> 4 dvd p \<and> SimpleHeap_IsAllocated p h = Some True \<and>
       (\<forall>i < length xs. sh_mem h (p + i) = xs ! i)) \<and>
    (\<forall>p q xs ys. live p = Some xs \<and> live q = Some ys \<and> p < q \<longrightarrow> p + length xs + 24 \<le> q) \<and>
    (live = Map.empty \<longrightarrow>
       (\<forall>n. n + 27 \<le> sz \<longrightarrow> (\<exists>h' p. SimpleHeap_Allocate n h = Some (h', p) \<and> p \<noteq> 0)))"
proof -
  have "sh_rel buf sz (SimpleHeap_Initialize buf sz h0) Map.empty"
    using buf by (intro sh_Initialize_rel) simp_all
  with sh.run_rel [of buf sz "(SimpleHeap_Initialize buf sz h0, Map.empty)" ops dbg] sizes
  obtain h live where run: "heap_run SimpleHeap_Allocate (sh_free dbg) (SimpleHeap_ReAllocate dbg) sh_mem
      sh_poke ops (SimpleHeap_Initialize buf sz h0, Map.empty) = Some (h, live)"
    and rel: "sh_rel buf sz h live" by auto
  have "SimpleHeap_IsAllocated p h = Some True" if "live p = Some xs" for p xs
    using sh_array(1,4) [OF rel that] by (simp add: SimpleHeap_IsAllocated_def bh_defs Let_def)
  then have arr: "\<forall>p xs. live p = Some xs \<longrightarrow>
       buf + 20 \<le> p \<and> p + length xs + 4 \<le> buf + sz \<and> 4 dvd p \<and> SimpleHeap_IsAllocated p h = Some True \<and>
       (\<forall>i < length xs. sh_mem h (p + i) = xs ! i)"
    using sh_array [OF rel] by blast
  have apart: "\<forall>p q xs ys. live p = Some xs \<and> live q = Some ys \<and> p < q \<longrightarrow> p + length xs + 24 \<le> q"
    using sh_apart [OF rel] by blast
  have "\<forall>n. n + 27 \<le> sz \<longrightarrow> (\<exists>h' p. SimpleHeap_Allocate n h = Some (h', p) \<and> p \<noteq> 0)" if "live = Map.empty"
    using sh_all_free [OF rel [unfolded that]] by blast
  with run arr apart show ?thesis by (intro exI conjI) blast+
qed

lemma simple_heap_is_safe_witness:
  "\<exists>h live. heap_run SimpleHeap_Allocate (sh_free True) (SimpleHeap_ReAllocate True) sh_mem sh_poke
      [Alloc 5, Alloc 8, Write 1212 0 7, Free 1180, Resize 1212 30]
      (SimpleHeap_Initialize 1024 200 \<lparr>sh_mem = (\<lambda>_. 0), g_s_FirstCluster = 0\<rparr>, Map.empty) = Some (h, live) \<and>
    (\<forall>p xs. live p = Some xs \<longrightarrow> SimpleHeap_IsAllocated p h = Some True)"
  using simple_heap_is_safe [of 1024 200 "[Alloc 5, Alloc 8, Write 1212 0 7, Free 1180, Resize 1212 30]" True
      "\<lparr>sh_mem = (\<lambda>_. 0), g_s_FirstCluster = 0\<rparr>"]
  by fastforce

text \<open>The sum of \<open>SimpleHeap_Allocate\<close> wraps: for 4 GiB less one byte it takes a block of 24 bytes.\<close>

lemma SimpleHeap_Allocate_wraps: "sh_block_len 4294967295 = 24"
  by (simp add: sh_block_len_def bh_defs)

end
