(* ===== verification/Utf8.thy ===== *)
theory Utf8
  imports Prelude
begin

text \<open>
  The conversions between UTF-8 and UTF-16 of the runtime
  (\<open>CLR/Core/CLR_RT_UnicodeHelper.cpp\<close>, \<open>CLR/Include/TinyCLR_Runtime.h\<close>) and their user
  \<open>UnicodeString\<close>, against the definition of the two encodings. A string that ends with a zero
  is a list, an input pointer the rest of the list from it on; reading past the end of the list is
  \<open>None\<close>. An output pointer is the list of the units written before it, with a flag for the zero
  that the conversions write behind the last unit. Sizes and counters are \<open>int\<close>, the one product
  is cut to 32 bits.
\<close>

section \<open>The helper\<close>

definition SURROGATE_HALFSHIFT :: nat where "SURROGATE_HALFSHIFT = 10"
definition SURROGATE_HALFBASE :: u32 where "SURROGATE_HALFBASE = 0x00010000"
definition SURROGATE_HALFMASK :: u32 where "SURROGATE_HALFMASK = 0x000003FF"
definition HIGH_SURROGATE_START :: u16 where "HIGH_SURROGATE_START = 0xD800"
definition HIGH_SURROGATE_END :: u16 where "HIGH_SURROGATE_END = 0xDBFF"
definition LOW_SURROGATE_START :: u16 where "LOW_SURROGATE_START = 0xDC00"
definition LOW_SURROGATE_END :: u16 where "LOW_SURROGATE_END = 0xDFFF"

lemmas surrogate_defs = SURROGATE_HALFSHIFT_def SURROGATE_HALFBASE_def SURROGATE_HALFMASK_def
  HIGH_SURROGATE_START_def HIGH_SURROGATE_END_def LOW_SURROGATE_START_def LOW_SURROGATE_END_def

record CLR_RT_UnicodeHelper =
  m_inputUTF8 :: "u8 list"
  m_inputUTF16 :: "u16 list"
  m_outputUTF8 :: "u8 list"
  m_outputUTF8_size :: int
  m_outputUTF16 :: "u16 list"
  m_outputUTF16_size :: int
  m_terminated :: bool

definition SetInputUTF8 :: "u8 list \<Rightarrow> CLR_RT_UnicodeHelper \<Rightarrow> CLR_RT_UnicodeHelper" where
  "SetInputUTF8 src u = u\<lparr>m_inputUTF8 := src\<rparr>"

definition SetInputUTF16 :: "u16 list \<Rightarrow> CLR_RT_UnicodeHelper \<Rightarrow> CLR_RT_UnicodeHelper" where
  "SetInputUTF16 src u = u\<lparr>m_inputUTF16 := src\<rparr>"

definition UTF8_BAD_LOWPART :: "u32 \<Rightarrow> bool" where
  "UTF8_BAD_LOWPART ch \<longleftrightarrow> ch < 0x80 \<or> ch > 0xBF"

text \<open>\<open>UTF8_CHECK_LOWPART\<close> and \<open>UTF8_LOAD_LOWPART\<close>, used \<open>n\<close> times in a row.\<close>

fun UTF8_CHECK_LOWPART :: "nat \<Rightarrow> u8 list \<Rightarrow> (bool \<times> u8 list) option" where
  "UTF8_CHECK_LOWPART 0 src = Some (True, src)"
| "UTF8_CHECK_LOWPART (Suc n) [] = None"
| "UTF8_CHECK_LOWPART (Suc n) (b # src) =
     (if UTF8_BAD_LOWPART (ucast b) then Some (False, src) else UTF8_CHECK_LOWPART n src)"

fun UTF8_LOAD_LOWPART :: "nat \<Rightarrow> u32 \<Rightarrow> u8 list \<Rightarrow> (u32 \<times> u8 list) option" where
  "UTF8_LOAD_LOWPART 0 ch2 src = Some (ch2, src)"
| "UTF8_LOAD_LOWPART (Suc n) ch2 [] = None"
| "UTF8_LOAD_LOWPART (Suc n) ch2 (b # src) =
     UTF8_LOAD_LOWPART n (push_bit 6 ch2 OR (ucast b AND 0x3F)) src"

lemma CHECK_LOWPART_length: "UTF8_CHECK_LOWPART n src = Some (ok, src') \<Longrightarrow> length src' \<le> length src"
  by (induction n src rule: UTF8_CHECK_LOWPART.induct) (auto split: if_splits)

subsection \<open>Counting\<close>

function count_chars :: "u8 list \<Rightarrow> int \<Rightarrow> int \<Rightarrow> int option" where
  "count_chars [] mx num = None"
| "count_chars (b # src) mx num =
     (let ch = ucast b :: u32 in
      if ch = 0 then Some num
      else if mx = 0 then Some num
      else
        let mx = mx - 1; hi = ch AND 0xF0 in
        if hi < 0x80 then count_chars src mx (num + 1)
        else if hi < 0xC0 then Some (-1)
        else
          let (n, inc) = (if hi < 0xE0 then (1, 1) else if hi = 0xE0 then (2, 1) else (3, 2))
          in case UTF8_CHECK_LOWPART n src of
               None \<Rightarrow> None
             | Some (ok, src') \<Rightarrow> if ok then count_chars src' mx (num + inc) else Some (-1))"
  by pat_completeness auto
termination
  by (relation "measure (\<lambda>(src, _, _). length src)") (auto dest: CHECK_LOWPART_length)

definition CountNumberOfCharacters :: "int \<Rightarrow> CLR_RT_UnicodeHelper \<Rightarrow> int option" where
  "CountNumberOfCharacters mx u = count_chars (m_inputUTF8 u) mx 0"

fun count_bytes :: "u16 list \<Rightarrow> int \<Rightarrow> int \<Rightarrow> int option" where
  "count_bytes [] mx num = None"
| "count_bytes (ch # src) mx num =
     (if ch = 0 then Some num
      else if mx = 0 then Some num
      else if ch < 0x0080 then count_bytes src (mx - 1) (num + 1)
      else if ch < 0x0800 then count_bytes src (mx - 1) (num + 2)
      else if LOW_SURROGATE_START \<le> ch \<and> ch \<le> LOW_SURROGATE_END then Some (-1)
      else if HIGH_SURROGATE_START \<le> ch \<and> ch \<le> HIGH_SURROGATE_END then
        (case src of
           [] \<Rightarrow> None
         | ch2 # src \<Rightarrow>
             if LOW_SURROGATE_START \<le> ch2 \<and> ch2 \<le> LOW_SURROGATE_END
             then count_bytes src (mx - 1) (num + 4) else Some (-1))
      else count_bytes src (mx - 1) (num + 3))"

definition CountNumberOfBytes :: "int \<Rightarrow> CLR_RT_UnicodeHelper \<Rightarrow> int option" where
  "CountNumberOfBytes mx u = count_bytes (m_inputUTF16 u) mx 0"

subsection \<open>From UTF-8\<close>

text \<open>
  The three cases of \<open>ConvertFromUTF8\<close> with more than one byte: \<open>n\<close> further bytes are needed and
  \<open>units\<close> units of output. \<open>Some None\<close> is the exit after the lead byte was put back.
\<close>

definition from_multi :: "bool \<Rightarrow> nat \<Rightarrow> int \<Rightarrow> u32 \<Rightarrow> int \<Rightarrow> u8 list \<Rightarrow> u16 list \<Rightarrow> int \<Rightarrow>
    (u8 list \<times> u16 list \<times> int) option option" where
  "from_multi fJustMove n units lead iMaxBytes src out sz =
     (if iMaxBytes \<ge> int n + 1 then
        if fJustMove then (if n \<le> length src then Some (Some (drop n src, out, sz)) else None)
        else if sz < units then Some None
        else
          case UTF8_LOAD_LOWPART n lead src of
            None \<Rightarrow> None
          | Some (ch2, src) \<Rightarrow>
              Some (Some (src,
                out @ (if units = 2
                  then [ucast (drop_bit SURROGATE_HALFSHIFT ch2 + ucast HIGH_SURROGATE_START),
                        ucast ((ch2 AND SURROGATE_HALFMASK) + ucast LOW_SURROGATE_START)]
                  else [ucast ch2]), sz - units))
      else Some None)"

function from_utf8 :: "bool \<Rightarrow> int \<Rightarrow> int \<Rightarrow> u8 list \<Rightarrow> u16 list \<Rightarrow> int \<Rightarrow>
    (bool \<times> u8 list \<times> u16 list \<times> int) option" where
  "from_utf8 fJustMove iMaxChars iMaxBytes inp out sz =
     (if iMaxChars > 0 \<and> iMaxBytes > 0 then
        case inp of
          [] \<Rightarrow> None
        | b # src \<Rightarrow>
            let ch = ucast b :: u32; hi = ch AND 0xF0 in
            if hi < 0x80 then
              if ch = 0 then Some (False, inp, out, sz)
              else if fJustMove then from_utf8 fJustMove (iMaxChars - 1) (iMaxBytes - 1) src out sz
              else if sz < 1 then Some (False, inp, out, sz)
              else from_utf8 fJustMove (iMaxChars - 1) (iMaxBytes - 1) src (out @ [ucast ch]) (sz - 1)
            else if hi < 0xC0 then Some (False, src, out, sz)
            else if hi < 0xE0 then
              if ch AND 0xFF < 0xC2 then Some (False, inp, out, sz)
              else (case from_multi fJustMove 1 1 (ch AND 0x1F) iMaxBytes src out sz of
                      None \<Rightarrow> None
                    | Some None \<Rightarrow> Some (False, inp, out, sz)
                    | Some (Some (src, out, sz)) \<Rightarrow>
                        from_utf8 fJustMove (iMaxChars - 1) (iMaxBytes - 2) src out sz)
            else if hi = 0xE0 then
              (case from_multi fJustMove 2 1 (ch AND 0x0F) iMaxBytes src out sz of
                 None \<Rightarrow> None
               | Some None \<Rightarrow> Some (False, inp, out, sz)
               | Some (Some (src, out, sz)) \<Rightarrow>
                   from_utf8 fJustMove (iMaxChars - 1) (iMaxBytes - 3) src out sz)
            else if ch AND 0xFF \<ge> 0xF5 then Some (False, inp, out, sz)
            else
              (case from_multi fJustMove 3 2 (ch AND 0x07) iMaxBytes src out sz of
                 None \<Rightarrow> None
               | Some None \<Rightarrow> Some (False, inp, out, sz)
               | Some (Some (src, out, sz)) \<Rightarrow>
                   from_utf8 fJustMove (iMaxChars - 2) (iMaxBytes - 4) src out sz)
      else Some (True, inp, out, sz))"
  by pat_completeness auto
termination
  by (relation "measure (\<lambda>(_, n, _). nat n)") auto

definition ConvertFromUTF8 :: "int \<Rightarrow> bool \<Rightarrow> int \<Rightarrow> CLR_RT_UnicodeHelper \<Rightarrow>
    (bool \<times> CLR_RT_UnicodeHelper) option" where
  "ConvertFromUTF8 iMaxChars fJustMove iMaxBytes u =
     (let iMaxBytes = (if iMaxBytes = -1 then s32 (iMaxChars * 3) else iMaxBytes) in
      case from_utf8 fJustMove iMaxChars iMaxBytes (m_inputUTF8 u) (m_outputUTF16 u) (m_outputUTF16_size u) of
        None \<Rightarrow> None
      | Some (ok, inp, out, sz) \<Rightarrow>
          let u = u\<lparr>m_inputUTF8 := inp, m_outputUTF16 := out, m_outputUTF16_size := sz, m_terminated := False\<rparr>
          in if ok \<and> \<not> fJustMove then
               Some (if sz < 1 then (False, u) else (True, u\<lparr>m_terminated := True\<rparr>))
             else Some (ok, u))"

subsection \<open>To UTF-8\<close>

text \<open>
  The bytes of one character, last first as the source stores them, and the room they need;
  the loop ends at a zero. A pair of surrogates does not count for \<open>iMaxChars\<close>.
\<close>

definition to_put :: "bool \<Rightarrow> u8 list \<Rightarrow> u8 list \<Rightarrow> int \<Rightarrow> (u8 list \<times> int) option" where
  "to_put fJustMove bs out sz =
     (if fJustMove then Some (out, sz)
      else if sz < int (length bs) then None
      else Some (out @ bs, sz - int (length bs)))"

function to_utf8 :: "bool \<Rightarrow> int \<Rightarrow> u16 list \<Rightarrow> u8 list \<Rightarrow> int \<Rightarrow>
    (bool \<times> u16 list \<times> u8 list \<times> int) option" where
  "to_utf8 fJustMove iMaxChars inp out sz =
     (if iMaxChars > 0 then
        case inp of
          [] \<Rightarrow> None
        | c # src \<Rightarrow>
            let ch = ucast c :: u32 in
            if ch < 0x0080 then
              if ch = 0 then Some (True, src, out, sz)
              else (case to_put fJustMove [ucast ch] out sz of
                      None \<Rightarrow> Some (False, src, out, sz)
                    | Some (out, sz) \<Rightarrow> to_utf8 fJustMove (iMaxChars - 1) src out sz)
            else if ch < 0x0800 then
              (case to_put fJustMove [ucast (0xC0 OR (drop_bit 6 ch AND 0x1F)), ucast (0x80 OR (ch AND 0x3F))]
                      out sz of
                 None \<Rightarrow> Some (False, src, out, sz)
               | Some (out, sz) \<Rightarrow> to_utf8 fJustMove (iMaxChars - 1) src out sz)
            else if ucast HIGH_SURROGATE_START \<le> ch \<and> ch \<le> ucast HIGH_SURROGATE_END then
              (case src of
                 [] \<Rightarrow> None
               | c2 # src \<Rightarrow>
                   let ch = SURROGATE_HALFBASE +
                         push_bit SURROGATE_HALFSHIFT (ch - ucast HIGH_SURROGATE_START) +
                         (ucast c2 - ucast LOW_SURROGATE_START)
                   in case to_put fJustMove
                          [ucast (0xF0 OR (drop_bit 18 ch AND 0x07)), ucast (0x80 OR (drop_bit 12 ch AND 0x3F)),
                           ucast (0x80 OR (drop_bit 6 ch AND 0x3F)), ucast (0x80 OR (ch AND 0x3F))] out sz of
                        None \<Rightarrow> Some (False, src, out, sz)
                      | Some (out, sz) \<Rightarrow> to_utf8 fJustMove iMaxChars src out sz)
            else
              (case to_put fJustMove
                  [ucast (0xE0 OR (drop_bit 12 ch AND 0x0F)), ucast (0x80 OR (drop_bit 6 ch AND 0x3F)),
                   ucast (0x80 OR (ch AND 0x3F))] out sz of
                 None \<Rightarrow> Some (False, src, out, sz)
               | Some (out, sz) \<Rightarrow> to_utf8 fJustMove (iMaxChars - 1) src out sz)
      else Some (True, inp, out, sz))"
  by pat_completeness auto
termination
  by (relation "measure (\<lambda>(_, _, inp, _). length inp)") auto

definition ConvertToUTF8 :: "int \<Rightarrow> bool \<Rightarrow> CLR_RT_UnicodeHelper \<Rightarrow> (bool \<times> CLR_RT_UnicodeHelper) option" where
  "ConvertToUTF8 iMaxChars fJustMove u =
     (case to_utf8 fJustMove iMaxChars (m_inputUTF16 u) (m_outputUTF8 u) (m_outputUTF8_size u) of
        None \<Rightarrow> None
      | Some (ok, inp, out, sz) \<Rightarrow>
          let u = u\<lparr>m_inputUTF16 := inp, m_outputUTF8 := out, m_outputUTF8_size := sz, m_terminated := False\<rparr>
          in if ok \<and> \<not> fJustMove then
               Some (if sz < 1 then (False, u) else (True, u\<lparr>m_terminated := True\<rparr>))
             else Some (ok, u))"

section \<open>\<open>UnicodeString\<close>\<close>

text \<open>
  The memory of \<open>CLR_RT_Memory::Allocate\<close> is a list of units, \<open>None\<close> where nothing was
  written; whether there is any left is the argument \<open>room\<close> on the number of bytes. \<open>Assign\<close> is
  \<open>None\<close> when it reads or writes outside its arrays.
\<close>

datatype hresult = S_OK | CLR_E_INVALID_PARAMETER | CLR_E_OUT_OF_MEMORY

record UnicodeString =
  m_wCharArray :: "u16 option list option"
  m_length :: int

definition UnicodeString_Release :: "UnicodeString \<Rightarrow> UnicodeString" where
  "UnicodeString_Release s = s\<lparr>m_wCharArray := None\<rparr>"

definition helper_zero :: CLR_RT_UnicodeHelper where
  "helper_zero = \<lparr>m_inputUTF8 = [], m_inputUTF16 = [], m_outputUTF8 = [], m_outputUTF8_size = 0,
     m_outputUTF16 = [], m_outputUTF16_size = 0, m_terminated = False\<rparr>"

definition written_units :: "CLR_RT_UnicodeHelper \<Rightarrow> u16 option list" where
  "written_units u = map Some (m_outputUTF16 u) @ (if m_terminated u then [Some 0] else [])"

definition Assign :: "(int \<Rightarrow> bool) \<Rightarrow> u8 list \<Rightarrow> UnicodeString \<Rightarrow> (hresult \<times> UnicodeString) option" where
  "Assign room string s =
     (let s = UnicodeString_Release s; u = SetInputUTF8 string helper_zero in
      case CountNumberOfCharacters (-1) u of
        None \<Rightarrow> None
      | Some n \<Rightarrow>
          let s = s\<lparr>m_length := n\<rparr> in
          if n < 0 then Some (CLR_E_INVALID_PARAMETER, s)
          else if \<not> room ((n + 1) * 2) then Some (CLR_E_OUT_OF_MEMORY, s)
          else
            let u = u\<lparr>m_outputUTF16 := [], m_outputUTF16_size := n + 1\<rparr> in
            case ConvertFromUTF8 n False (-1) u of
              None \<Rightarrow> None
            | Some (_, u) \<Rightarrow>
                let cells = written_units u; size = nat (n + 1) in
                if length cells \<le> size then
                  Some (S_OK, s\<lparr>m_wCharArray :=
                    Some ((cells @ replicate (size - length cells) None)[nat n := Some 0])\<rparr>)
                else None)"

section \<open>Words and bytes\<close>

lemma and_mask_u32:
  "(of_nat c AND 0x3F :: u32) = of_nat (c mod 64)" "(of_nat c AND 0x1F :: u32) = of_nat (c mod 32)"
  "(of_nat c AND 0x0F :: u32) = of_nat (c mod 16)" "(of_nat c AND 0x07 :: u32) = of_nat (c mod 8)"
  "(of_nat c AND 0xFF :: u32) = of_nat (c mod 256)" "(of_nat c AND 0x3FF :: u32) = of_nat (c mod 1024)"
proof -
  have m: "(of_nat c AND mask k :: u32) = of_nat (c mod 2 ^ k)" for k
    by (simp flip: take_bit_eq_mask take_bit_eq_mod add: take_bit_of_nat)
  show "(of_nat c AND 0x3F :: u32) = of_nat (c mod 64)" "(of_nat c AND 0x1F :: u32) = of_nat (c mod 32)"
  "(of_nat c AND 0x0F :: u32) = of_nat (c mod 16)" "(of_nat c AND 0x07 :: u32) = of_nat (c mod 8)"
  "(of_nat c AND 0xFF :: u32) = of_nat (c mod 256)" "(of_nat c AND 0x3FF :: u32) = of_nat (c mod 1024)"
    using m [of 6] m [of 5] m [of 4] m [of 3] m [of 8] m [of 10] by (simp_all add: mask_eq_exp_minus_1)
qed

lemma drop_u32: "c < 4294967296 \<Longrightarrow> drop_bit k (of_nat c :: u32) = of_nat (c div 2 ^ k)"
proof -
  assume c: "c < 4294967296"
  have "c div 2 ^ k < 4294967296" using c div_le_dividend [of c "2 ^ k"] by linarith
  moreover have "unat (drop_bit k (of_nat c :: u32)) = c div 2 ^ k"
    using c by (simp only: unat_drop_bit_eq unat_of_nat drop_bit_eq_div [where 'a = nat]) simp
  ultimately show ?thesis by (simp only: word_unat_eq_iff unat_of_nat) simp
qed

lemma or_low: 
  assumes "x < 2 ^ k" shows "(push_bit k a OR of_nat x :: u32) = push_bit k a + of_nat x"
proof -
  have "of_nat x = take_bit k (of_nat x :: u32)" using assms by (simp add: take_bit_of_nat take_bit_nat_eq_self)
  then have "\<not> bit (of_nat x :: u32) n" if "k \<le> n" for n using that by (metis bit_take_bit_iff not_le)
  then show ?thesis by (subst disjunctive_add_eq_or) (auto simp: bit_eq_iff bit_simps)
qed

lemma high_nibble: 
  assumes n: "n < 256" shows "(of_nat n AND 0xF0 :: u32) = of_nat (16 * (n div 16))"
proof -
  let ?q = "of_nat (n div 16) :: u32" and ?r = "of_nat (n mod 16) :: u32"
  have sp: "of_nat n = push_bit 4 ?q OR ?r"
  proof -
    have "(of_nat (n div 16 * 16 + n mod 16) :: u32) = ?q * 16 + ?r"
      by (simp only: of_nat_add of_nat_mult of_nat_numeral)
    then show ?thesis using or_low [of "n mod 16" 4 ?q] by (simp add: push_bit_eq_mult)
  qed
  have q: "?q = take_bit 4 ?q" and r: "?r = take_bit 4 ?r"
    using n by (simp_all add: take_bit_of_nat take_bit_nat_eq_self)
  have m: "(0xF0 :: u32) = push_bit 4 (mask 4)" by (simp add: mask_eq_exp_minus_1 push_bit_eq_mult)
  have "(push_bit 4 (take_bit 4 ?q) OR take_bit 4 ?r) AND push_bit 4 (mask 4) = push_bit 4 (take_bit 4 ?q)"
    by (rule bit_word_eqI) (auto simp: bit_simps)
  then have "of_nat n AND 0xF0 = push_bit 4 ?q" using sp q r m by simp
  then show ?thesis by (simp add: push_bit_eq_mult)
qed

lemma utf8_ucast_byte: "(ucast (of_nat n :: u8) :: u32) = of_nat (n mod 256)"
  by (simp add: word_unat_eq_iff unsigned_ucast_eq unsigned_of_nat take_bit_eq_mod)

lemma ucast_unit: "(ucast (of_nat n :: u16) :: u32) = of_nat (n mod 65536)"
  by (simp add: word_unat_eq_iff unsigned_ucast_eq unsigned_of_nat take_bit_eq_mod)

lemma ucast_down: "(ucast (of_nat n :: u32) :: u8) = of_nat n" "(ucast (of_nat n :: u32) :: u16) = of_nat n"
  by (simp_all add: word_unat_eq_iff unsigned_ucast_eq unsigned_of_nat take_bit_eq_mod mod_mod_cancel)

lemma tail_byte:  "x < 64 \<Longrightarrow> (0x80 OR of_nat x :: u32) = of_nat (0x80 + x)" 
  "x < 32 \<Longrightarrow> (0xC0 OR of_nat x :: u32) = of_nat (0xC0 + x)" 
  "x < 16 \<Longrightarrow> (0xE0 OR of_nat x :: u32) = of_nat (0xE0 + x)" 
  "x < 8 \<Longrightarrow> (0xF0 OR of_nat x :: u32) = of_nat (0xF0 + x)" 
  using or_low [of x 6 2] or_low [of x 5 6] or_low [of x 4 14] or_low [of x 3 30] by (simp_all add: push_bit_eq_mult)

lemma load_byte: "m < 64 \<Longrightarrow> UTF8_LOAD_LOWPART (Suc n) (of_nat a) (of_nat (0x80 + m) # src) = UTF8_LOAD_LOWPART n (of_nat (64 * a + m)) src"
proof -
  assume m: "m < 64"
  have "ucast (of_nat (0x80 + m) :: u8) AND 0x3F = (of_nat m :: u32)"
    using m by (simp only: utf8_ucast_byte and_mask_u32) (simp add: mod_if)
  then show ?thesis using or_low [of m 6 "of_nat a"] m by (simp add: push_bit_eq_mult mult.commute)
qed

declare from_utf8.simps [simp del] to_utf8.simps [simp del]

lemma byte_u32: "n < 256 \<Longrightarrow> ucast (of_nat n :: u8) = (of_nat n :: u32)"
  by (simp add: utf8_ucast_byte)

lemma lead_byte:
  assumes n: "n < 256"
  defines "ch \<equiv> of_nat n :: u32"
  shows "ch = 0 \<longleftrightarrow> n = 0" "ch AND 0xF0 < 0x80 \<longleftrightarrow> n < 128" "ch AND 0xF0 < 0xC0 \<longleftrightarrow> n < 192"
    "ch AND 0xF0 < 0xE0 \<longleftrightarrow> n < 224" "ch AND 0xF0 = 0xE0 \<longleftrightarrow> 224 \<le> n \<and> n < 240"
    "ch AND 0xFF < 0xC2 \<longleftrightarrow> n < 194" "0xF5 \<le> ch AND 0xFF \<longleftrightarrow> 245 \<le> n"
    "ch < 0xC2 \<longleftrightarrow> n < 194" "0xF5 \<le> ch \<longleftrightarrow> 245 \<le> n" "UTF8_BAD_LOWPART ch \<longleftrightarrow> n < 128 \<or> 191 < n"
proof -
  note ch = ch_def
  have h: "ch AND 0xF0 = of_nat (16 * (n div 16))" using high_nibble [OF n] by (simp add: ch)
  have m: "ch AND 0xFF = of_nat n" using n by (simp add: ch and_mask_u32)
  define q where "q = n div 16"
  have u: "unat (ch AND 0xF0) = 16 * q" using n by (simp only: h unat_of_nat) (simp add: q_def)
  have q: "16 * q \<le> n" "n < 16 * q + 16"
    using div_mult_mod_eq [of n 16] mod_less_divisor [of 16 n] unfolding q_def by linarith+
  have lits: "unat (0x80 :: u32) = 128" "unat (0xC0 :: u32) = 192" "unat (0xE0 :: u32) = 224" by simp_all
  show "ch = 0 \<longleftrightarrow> n = 0" using n by (simp add: ch word_unat_eq_iff unat_of_nat)
  show "ch AND 0xF0 < 0x80 \<longleftrightarrow> n < 128" "ch AND 0xF0 < 0xC0 \<longleftrightarrow> n < 192"
    "ch AND 0xF0 < 0xE0 \<longleftrightarrow> n < 224"
  proof -
    have "q < 8 \<longleftrightarrow> n < 128" "q < 12 \<longleftrightarrow> n < 192" "q < 14 \<longleftrightarrow> n < 224" using q by auto
    then show "ch AND 0xF0 < 0x80 \<longleftrightarrow> n < 128" "ch AND 0xF0 < 0xC0 \<longleftrightarrow> n < 192"
      "ch AND 0xF0 < 0xE0 \<longleftrightarrow> n < 224"
      unfolding word_less_nat_alt u lits by auto
  qed
  show "ch AND 0xF0 = 0xE0 \<longleftrightarrow> 224 \<le> n \<and> n < 240"
  proof -
    have "q = 14" if "224 \<le> n" "n < 240"
    proof -
      have "13 < q" "q < 15" using q that by linarith+
      then show ?thesis by simp
    qed
    then show ?thesis unfolding word_unat_eq_iff u lits using q by auto
  qed
  show "ch AND 0xFF < 0xC2 \<longleftrightarrow> n < 194" "0xF5 \<le> ch AND 0xFF \<longleftrightarrow> 245 \<le> n"
    unfolding m using n by (simp_all add: word_less_nat_alt word_le_nat_alt unat_of_nat)
  show "ch < 0xC2 \<longleftrightarrow> n < 194" "0xF5 \<le> ch \<longleftrightarrow> 245 \<le> n"
    using n by (simp_all add: ch word_less_nat_alt word_le_nat_alt unat_of_nat)
  show "UTF8_BAD_LOWPART ch \<longleftrightarrow> n < 128 \<or> 191 < n"
    using n by (simp add: UTF8_BAD_LOWPART_def ch word_less_nat_alt unat_of_nat)
qed

lemma byte_of_nat: obtains n where "n < 256" "(b :: u8) = of_nat n"
proof (rule that [of "unat b"])
  show "unat b < 256" using unsigned_less [of b] by simp
qed simp

lemma check_lowpart:
  "n < 256 \<Longrightarrow> UTF8_CHECK_LOWPART (Suc k) (of_nat n # src) =
     (if n < 128 \<or> 191 < n then Some (False, src) else UTF8_CHECK_LOWPART k src)"
  by (simp add: byte_u32 lead_byte)

lemma count_chars_step:
  "n < 256 \<Longrightarrow> count_chars (of_nat n # src) mx num =
     (if n = 0 \<or> mx = 0 then Some num
      else if n < 128 then count_chars src (mx - 1) (num + 1)
      else if n < 192 then Some (-1)
      else let (k, inc) = (if n < 224 then (1, 1) else if n < 240 then (2, 1) else (3, 2))
           in case UTF8_CHECK_LOWPART k src of
                None \<Rightarrow> None
              | Some (ok, src') \<Rightarrow> if ok then count_chars src' (mx - 1) (num + inc) else Some (-1))"
  by (simp add: byte_u32 lead_byte Let_def)

lemma from_utf8_step:
  assumes "n < 256" "0 < iMaxChars" "0 < iMaxBytes"
  shows "from_utf8 mv iMaxChars iMaxBytes (of_nat n # src) out sz =
     (if n = 0 then Some (False, of_nat n # src, out, sz)
      else if n < 128 then
        if mv then from_utf8 mv (iMaxChars - 1) (iMaxBytes - 1) src out sz
        else if sz < 1 then Some (False, of_nat n # src, out, sz)
        else from_utf8 mv (iMaxChars - 1) (iMaxBytes - 1) src (out @ [of_nat n]) (sz - 1)
      else if n < 192 then Some (False, src, out, sz)
      else if n < 194 \<or> 245 \<le> n then Some (False, of_nat n # src, out, sz)
      else
        let (k, units, used, lead) = (if n < 224 then (1, 1, 2, n mod 32)
            else if n < 240 then (2, 1, 3, n mod 16) else (3, 2, 4, n mod 8))
        in case from_multi mv k units (of_nat lead) iMaxBytes src out sz of
             None \<Rightarrow> None
           | Some None \<Rightarrow> Some (False, of_nat n # src, out, sz)
           | Some (Some (src, out, sz)) \<Rightarrow>
               from_utf8 mv (iMaxChars - units) (iMaxBytes - used) src out sz)"
proof -
  note f = from_utf8.simps [of mv iMaxChars iMaxBytes "of_nat n # src"] and l = lead_byte [OF assms(1)]
  consider "n < 128" | "128 \<le> n" "n < 192" | "192 \<le> n" "n < 224" | "224 \<le> n" "n < 240" | "240 \<le> n" by linarith
  then show ?thesis
  proof cases
    case 1
    with assms(2,3) show ?thesis by (simp add: f l byte_u32 Let_def ucast_down)
  next
    case 2
    with assms show ?thesis by (simp add: f l byte_u32 Let_def)
  next
    case 3
    with assms show ?thesis by (simp add: f l byte_u32 Let_def and_mask_u32)
  next
    case 4
    with assms show ?thesis by (simp add: f l byte_u32 Let_def and_mask_u32)
  next
    case 5
    with assms show ?thesis by (simp add: f l byte_u32 Let_def and_mask_u32)
  qed
qed
section \<open>A string that was counted can be converted\<close>

lemma byte_0: "n < 256 \<Longrightarrow> (of_nat n :: u8) = 0 \<longleftrightarrow> n = 0"
  by (simp add: word_unat_eq_iff unat_of_nat)

lemma check_lowpart_split:
  "UTF8_CHECK_LOWPART k src = Some (True, src') \<Longrightarrow> \<exists>bs. src = bs @ src' \<and> length bs = k \<and> 0 \<notin> set bs"
proof (induction k src rule: UTF8_CHECK_LOWPART.induct)
  case (3 n b src)
  then obtain bs where "src = bs @ src'" "length bs = n" "0 \<notin> set bs" "\<not> UTF8_BAD_LOWPART (ucast b)"
    by (auto split: if_splits)
  then show ?case by (intro exI [of _ "b # bs"]) (auto simp: UTF8_BAD_LOWPART_def)
qed simp_all

lemma check_lowpart_zero:
  "0 \<in> set src \<Longrightarrow> \<exists>ok src'. UTF8_CHECK_LOWPART k src = Some (ok, src') \<and> (ok \<longrightarrow> 0 \<in> set src')"
  by (induction k src rule: UTF8_CHECK_LOWPART.induct) (auto simp: UTF8_BAD_LOWPART_def)

lemma load_lowpart: "k \<le> length src \<Longrightarrow> \<exists>ch2. UTF8_LOAD_LOWPART k a src = Some (ch2, drop k src)"
  by (induction k a src rule: UTF8_LOAD_LOWPART.induct) auto

lemma count_chars_total:
  "0 \<in> set src \<Longrightarrow> \<exists>r. count_chars src mx num = Some r \<and>
    (r = -1 \<or> num \<le> r \<and> r \<le> num + int (length src))"
proof (induction "length src" arbitrary: src mx num rule: less_induct)
  case less
  obtain b rest where src: "src = b # rest" using less.prems by (cases src) auto
  obtain n where n: "n < 256" "b = of_nat n" by (rule byte_of_nat)
  note step = count_chars_step [OF n(1), of rest mx num, folded n(2)]
  show ?case
  proof (cases "n = 0 \<or> mx = 0 \<or> 128 \<le> n \<and> n < 192")
    case True
    with step show ?thesis by (auto simp: src)
  next
    case False
    with less.prems have z: "0 \<in> set rest" using byte_0 [OF n(1)] by (auto simp: src n)
    have rec: "\<exists>r. count_chars src' (mx - 1) (num + inc) = Some r \<and>
        (r = -1 \<or> num \<le> r \<and> r \<le> num + int (length src))"
      if "int (length src') + inc \<le> int (length rest) + 1" "0 \<in> set src'" "1 \<le> inc" for src' inc
    proof -
      have "length src' < length src" using that(1,3) by (simp add: src)
      from less.hyps [OF this that(2), of "mx - 1" "num + inc"] that(1,3) show ?thesis by (force simp: src)
    qed
    show ?thesis
    proof (cases "n < 128")
      case True
      with False step rec [of rest 1] z show ?thesis by (simp add: src)
    next
      case big: False
      obtain k inc where k: "(if n < 224 then (1 :: nat, 1) else if n < 240 then (2, 1) else (3, 2 :: int)) = (k, inc)"
        "1 \<le> inc" "inc \<le> int k + 1" by (cases "n < 224"; cases "n < 240") auto
      from check_lowpart_zero [OF z, of k] obtain ok src'
        where c: "UTF8_CHECK_LOWPART k rest = Some (ok, src')" "ok \<longrightarrow> 0 \<in> set src'" by blast
      show ?thesis
      proof (cases ok)
        case True
        with c(1) check_lowpart_split [of k rest src'] have "length rest = k + length src'" by auto
        with True step False big k c rec [of src' inc] show ?thesis by (simp add: src)
      next
        case False
        with step \<open>\<not> (n = 0 \<or> mx = 0 \<or> 128 \<le> n \<and> n < 192)\<close> big k c show ?thesis by (simp add: src)
      qed
    qed
  qed
qed

lemma from_multi_ok:
  assumes "k \<le> length src"
  shows "from_multi False k units lead b src out sz = Some None \<or>
    (\<exists>out'. from_multi False k units lead b src out sz = Some (Some (drop k src, out', sz - units)) \<and>
       int (length out') = int (length out) + (if units = 2 then 2 else 1) \<and> units \<le> sz)"
    "int k + 1 \<le> b \<Longrightarrow> units \<le> sz \<Longrightarrow> from_multi False k units lead b src out sz \<noteq> Some None"
  using load_lowpart [OF assms, of lead] by (auto simp: from_multi_def)


text \<open>Bytes that no string in UTF-8 holds.\<close>

definition never_utf8 :: "u8 \<Rightarrow> bool" where
  "never_utf8 b \<longleftrightarrow> b = 0xC0 \<or> b = 0xC1 \<or> 0xF5 \<le> b"

lemma never_utf8_nat: "n < 256 \<Longrightarrow> never_utf8 (of_nat n) \<longleftrightarrow> n = 192 \<or> n = 193 \<or> 245 \<le> n"
  by (simp add: never_utf8_def word_unat_eq_iff word_le_nat_alt unat_of_nat)

lemma from_utf8_counted:
  assumes "count_chars src mx num = Some r" "r \<noteq> -1" "mx < 0" "0 \<in> set src"
  shows "from_utf8 False c b src out sz \<noteq> None \<and>
    ((\<forall>x \<in> set src. \<not> never_utf8 x) \<longrightarrow> 0 \<le> c \<longrightarrow> c = r - num \<longrightarrow> 3 * c \<le> b \<longrightarrow> c \<le> sz \<longrightarrow>
      (\<exists>inp' out'. from_utf8 False c b src out sz = Some (True, inp', out', sz - c) \<and>
        int (length out') = int (length out) + c))"
  using assms
proof (induction "length src" arbitrary: src mx num c b out sz rule: less_induct)
  case less
  have stop: ?case if "\<not> (0 < c \<and> 0 < b)"
    using that by (subst (1 2) from_utf8.simps) auto
  obtain x rest where src: "src = x # rest" using less.prems by (cases src) auto
  obtain n where n: "n < 256" "x = of_nat n" by (rule byte_of_nat)
  note cstep = count_chars_step [OF n(1), of rest mx num, folded n(2)]
  note bad = never_utf8_nat [OF n(1), folded n(2)]
  show ?case
  proof (cases "0 < c \<and> 0 < b")
    case True
    note fstep = from_utf8_step [OF n(1) conjunct1 [OF True] conjunct2 [OF True], of False rest out sz, folded n(2)]
    show ?thesis
    proof (cases "n = 0 \<or> 128 \<le> n \<and> n < 192")
      case T: True
      with cstep less.prems have "r = num" by (auto simp: src)
      with T True fstep show ?thesis by (auto simp: src)
    next
      case False
      with less.prems byte_0 [OF n(1)] have z: "0 \<in> set rest" by (auto simp: src n)
      show ?thesis
      proof (cases "n < 128")
        case small: True
        with cstep False less.prems have "count_chars rest (mx - 1) (num + 1) = Some r" by (simp add: src)
        with less.hyps [of rest "mx - 1" "num + 1" "c - 1" "b - 1" "out @ [of_nat n]" "sz - 1"] less.prems z
        show ?thesis using fstep small False True by (auto simp: src)
      next
        case big: False
        obtain k units used lead where k: "(if n < 224 then (1 :: nat, 1, 2, n mod 32)
            else if n < 240 then (2, 1, 3, n mod 16) else (3, 2 :: int, 4 :: int, n mod 8)) = (k, units, used, lead)"
          by (metis prod_cases4)
        from k have ku: "used = int k + 1" "used \<le> 3 * units" "1 \<le> units" "units \<le> 2"
          "(if n < 224 then (1, 1) else if n < 240 then (2, 1) else (3, 2 :: int)) = (k, units)"
          by (auto split: if_splits)
        from check_lowpart_zero [OF z, of k] obtain ok src'
          where c: "UTF8_CHECK_LOWPART k rest = Some (ok, src')" "ok \<longrightarrow> 0 \<in> set src'" by blast
        have ok: "ok" "count_chars src' (mx - 1) (num + units) = Some r"
          using cstep False big less.prems(1,2,3) ku(5) c by (auto simp: src split: if_splits)
        from ok(1) c have "UTF8_CHECK_LOWPART k rest = Some (True, src')" by simp
        from check_lowpart_split [OF this] obtain bs where bs: "rest = bs @ src'" "length bs = k" by blast
        then have d: "drop k rest = src'" "k \<le> length rest" "length src' < length src" by (auto simp: src)
        have IH: "from_utf8 False (c - units) (b - used) src' out' sz' \<noteq> None \<and>
            ((\<forall>x \<in> set src'. \<not> never_utf8 x) \<longrightarrow> 0 \<le> c - units \<longrightarrow> c - units = r - (num + units) \<longrightarrow>
              3 * (c - units) \<le> b - used \<longrightarrow> c - units \<le> sz' \<longrightarrow>
              (\<exists>inp' out''. from_utf8 False (c - units) (b - used) src' out' sz' = Some (True, inp', out'', sz' - (c - units)) \<and>
                int (length out'') = int (length out') + (c - units)))" for out' sz'
          by (rule less.hyps [OF d(3) ok(2) less.prems(2)]) (use less.prems(3) c(2) ok(1) in auto)
        have ge: "num + units \<le> r" using count_chars_total [of src' "mx - 1" "num + units"] ok less.prems(2) c(2) by auto
        have fs: "from_utf8 False c b src out sz =
          (if n < 194 \<or> 245 \<le> n then Some (False, x # rest, out, sz)
           else case from_multi False k units (of_nat lead) b rest out sz of
             None \<Rightarrow> None
           | Some None \<Rightarrow> Some (False, x # rest, out, sz)
           | Some (Some (src, out, sz)) \<Rightarrow> from_utf8 False (c - units) (b - used) src out sz)"
          using fstep False big k by (simp add: src)
        note fm = from_multi_ok [OF d(2), where units = units and lead = "of_nat lead" and b = b and out = out and sz = sz]
        show ?thesis
        proof (cases "n < 194 \<or> 245 \<le> n")
          case True
          with big False have "never_utf8 x" by (simp add: bad) linarith
          with fs True show ?thesis by (simp add: src)
        next
          case ok_lead: False
          show ?thesis
          proof (cases "from_multi False k units (of_nat lead) b rest out sz = Some None")
            case True
            with fm(2) have "\<not> (int k + 1 \<le> b \<and> units \<le> sz)" by blast
            with fs True ok_lead ku ge show ?thesis by auto
          next
            case multi: False
            with fm(1) obtain out' where o: "from_multi False k units (of_nat lead) b rest out sz =
                Some (Some (src', out', sz - units))"
              "int (length out') = int (length out) + (if units = 2 then 2 else 1)" unfolding d(1) by blast
            then have fs': "from_utf8 False c b src out sz = from_utf8 False (c - units) (b - used) src' out' (sz - units)"
              using fs ok_lead by simp
            have len: "int (length out') = int (length out) + units" using o(2) ku(3,4) by (simp split: if_splits)
            show ?thesis
              unfolding fs'
            proof (intro conjI impI)
              show "from_utf8 False (c - units) (b - used) src' out' (sz - units) \<noteq> None" using IH by blast
              assume "\<forall>x\<in>set src. \<not> never_utf8 x" "0 \<le> c" "c = r - num" "3 * c \<le> b" "c \<le> sz"
              then have "\<forall>x\<in>set src'. \<not> never_utf8 x" "0 \<le> c - units" "c - units = r - (num + units)"
                "3 * (c - units) \<le> b - used" "c - units \<le> sz - units"
                using bs(1) ge ku(1,2) by (auto simp: src)
              then obtain inp' out'' where "from_utf8 False (c - units) (b - used) src' out' (sz - units) =
                  Some (True, inp', out'', sz - units - (c - units))" "int (length out'') = int (length out') + (c - units)"
                using IH [of out' "sz - units"] by blast
              then show "\<exists>inp' out''. from_utf8 False (c - units) (b - used) src' out' (sz - units) =
                  Some (True, inp', out'', sz - c) \<and> int (length out'') = int (length out) + c"
                using len by simp
            qed
          qed
        qed
      qed
    qed
  qed (use stop in blast)
qed

lemma from_multi_room:
  assumes "from_multi False k units lead b src out sz = Some (Some (src', out', sz'))" "units = 1 \<or> units = 2"
  shows "int (length out') + sz' = int (length out) + sz" "0 \<le> sz'"
  using assms by (auto simp: from_multi_def split: if_splits option.splits)

text \<open>The conversion never writes more units than the size it was given.\<close>

lemma from_utf8_room:
  "from_utf8 False c b src out sz = Some (ok, src', out', sz') \<Longrightarrow> 0 \<le> sz \<Longrightarrow>
    0 \<le> sz' \<and> int (length out') + sz' = int (length out) + sz"
proof (induction "nat c" arbitrary: c b src out sz rule: less_induct)
  case less
  show ?case
  proof (cases "0 < c \<and> 0 < b")
    case False
    with less.prems show ?thesis by (subst (asm) from_utf8.simps) auto
  next
    case True
    show ?thesis
    proof (cases src)
      case Nil
      with less.prems True show ?thesis by (subst (asm) from_utf8.simps) auto
    next
      case (Cons x rest)
      obtain n where n: "n < 256" "x = of_nat n" by (rule byte_of_nat)
      note fstep = from_utf8_step [OF n(1) conjunct1 [OF True] conjunct2 [OF True], of False rest out sz, folded n(2)]
      obtain k units used lead where k: "(if n < 224 then (1 :: nat, 1, 2, n mod 32)
          else if n < 240 then (2, 1, 3, n mod 16) else (3, 2 :: int, 4 :: int, n mod 8)) = (k, units, used, lead)"
        by (metis prod_cases4)
      then have u: "units = 1 \<or> units = 2" by (auto split: if_splits)
      consider "(ok, src', out', sz') = (False, src, out, sz)" | "(ok, src', out', sz') = (False, rest, out, sz)"
        | "from_utf8 False (c - 1) (b - 1) rest (out @ [of_nat n]) (sz - 1) = Some (ok, src', out', sz')" "1 \<le> sz"
        | src2 out2 sz2 where "from_multi False k units (of_nat lead) b rest out sz = Some (Some (src2, out2, sz2))"
          "from_utf8 False (c - units) (b - used) src2 out2 sz2 = Some (ok, src', out', sz')"
      proof (cases "n = 0 \<or> n < 194 \<and> 128 \<le> n \<or> 245 \<le> n \<or> n < 128 \<and> sz < 1")
        case True
        with less.prems fstep that(1,2) show ?thesis unfolding Cons by (cases "n < 192") (auto split: if_splits)
      next
        case False
        show ?thesis
        proof (cases "n < 128")
          case True
          with less.prems fstep False that(3) show ?thesis unfolding Cons by simp
        next
          case big: False
          with fstep False k have f: "from_utf8 False c b (x # rest) out sz =
              (case from_multi False k units (of_nat lead) b rest out sz of
                 None \<Rightarrow> None
               | Some None \<Rightarrow> Some (False, x # rest, out, sz)
               | Some (Some (src, out, sz)) \<Rightarrow> from_utf8 False (c - units) (b - used) src out sz)"
            by simp
          show ?thesis
            using less.prems(1) that(1,4) unfolding Cons f by (simp split: option.splits prod.splits)
        qed
      qed
      then show ?thesis
      proof cases
        case 3
        with less.hyps [OF _ 3(1)] True show ?thesis by simp
      next
        case 4
        note room = from_multi_room [OF 4(1) u]
        have "nat (c - units) < nat c" using u True by auto
        from less.hyps [OF this 4(2) room(2)] room show ?thesis by simp
      qed (use less.prems in auto)
    qed
  qed
qed

text \<open>
  C20. \<open>UnicodeString::Assign\<close> stays inside its arrays on every C string, well-formed or not: it
  never reads behind the terminating zero, and what it allocates (the count of characters and
  one) is never overrun. An error code is returned exactly when the count fails or there is no
  memory, and then nothing is held. Otherwise the array ends with a zero, and when the string has
  none of the bytes that UTF-8 never uses, every other cell was written, too.
\<close>

theorem UnicodeString_Assign_safe:
  assumes str: "0 \<in> set string" and short: "length string < 2 ^ 28"
  shows "\<exists>r s'. Assign room string s = Some (r, s') \<and>
    CountNumberOfCharacters (-1) (SetInputUTF8 string helper_zero) = Some (m_length s') \<and>
    (r = S_OK \<longleftrightarrow> m_length s' \<noteq> -1 \<and> room ((m_length s' + 1) * 2)) \<and>
    (r = CLR_E_INVALID_PARAMETER \<longleftrightarrow> m_length s' = -1) \<and>
    (r \<noteq> S_OK \<longrightarrow> m_wCharArray s' = None) \<and>
    (r = S_OK \<longrightarrow> 0 \<le> m_length s' \<and> (\<exists>ws. m_wCharArray s' = Some ws \<and> length ws = nat (m_length s') + 1 \<and>
       last ws = Some 0 \<and> ((\<forall>b \<in> set string. \<not> never_utf8 b) \<longrightarrow> None \<notin> set ws)))"
proof -
  let ?u = "SetInputUTF8 string helper_zero"
  obtain n where n: "CountNumberOfCharacters (-1) ?u = Some n" "n = -1 \<or> 0 \<le> n \<and> n \<le> int (length string)"
    using count_chars_total [OF str, of "-1" 0] by (auto simp: CountNumberOfCharacters_def SetInputUTF8_def helper_zero_def)
  note A = Assign_def Let_def UnicodeString_Release_def
  show ?thesis
  proof (cases "n = -1 \<or> \<not> room ((n + 1) * 2)")
    case True
    with n show ?thesis by (cases "n = -1") (simp_all add: A)
  next
    case False
    with n have pos: "0 \<le> n" "n \<le> int (length string)" by auto
    have three: "s32 (n * 3) = n * 3" using pos short by simp
    have cnt: "count_chars string (-1) 0 = Some n"
      using n(1) by (simp add: CountNumberOfCharacters_def SetInputUTF8_def)
    note conv = from_utf8_counted [OF cnt _ _ str, of n "n * 3" "[]" "n + 1"]
    obtain ok inp out sz where f: "from_utf8 False n (n * 3) string [] (n + 1) = Some (ok, inp, out, sz)"
      using conv pos by fastforce
    have room: "0 \<le> sz" "int (length out) + sz = n + 1" using from_utf8_room [OF f] pos by auto
    have full: "ok \<and> int (length out) = n" if "\<forall>b \<in> set string. \<not> never_utf8 b"
      using conv pos that f by auto
    define cells where "cells = map Some out @ (if ok \<and> 1 \<le> sz then [Some (0 :: u16)] else [])"
    have len: "length cells \<le> nat (n + 1)" using room by (auto simp: cells_def)
    define ws where "ws = (cells @ replicate (nat (n + 1) - length cells) None)[nat n := Some 0]"
    have "Assign room string s = Some (S_OK, s\<lparr>m_wCharArray := Some ws, m_length := n\<rparr>)"
      using n(1) False pos three f len
      by (auto simp: A ConvertFromUTF8_def SetInputUTF8_def helper_zero_def written_units_def cells_def ws_def)
    moreover have lw: "length ws = nat n + 1" using len pos by (simp add: ws_def nat_add_distrib)
    moreover have "last ws = Some 0"
    proof -
      from lw have "last ws = ws ! nat n" by (subst last_conv_nth) auto
      also have "\<dots> = Some 0" using lw unfolding ws_def by (subst nth_list_update_eq) simp_all
      finally show ?thesis .
    qed
    moreover have "None \<notin> set ws" if "\<forall>b \<in> set string. \<not> never_utf8 b"
    proof -
      from full [OF that] room pos have "length cells = nat (n + 1)" by (auto simp: cells_def)
      then show ?thesis using set_update_subset_insert [of cells "nat n" "Some 0"] by (auto simp: ws_def cells_def)
    qed
    ultimately show ?thesis using False n pos by auto
  qed
qed

text \<open>The overlong form of a zero is counted as a character, but not converted.\<close>

lemma UnicodeString_Assign_safe_witness:
  "\<exists>r s'. Assign (\<lambda>_. True) [0x61, 0xC0, 0x80, 0x63, 0] \<lparr>m_wCharArray = None, m_length = 0\<rparr> = Some (r, s') \<and>
    (r = S_OK \<longrightarrow> (\<exists>ws. m_wCharArray s' = Some ws \<and> length ws = nat (m_length s') + 1))"
  using UnicodeString_Assign_safe [of "[0x61, 0xC0, 0x80, 0x63, 0]" "\<lambda>_. True" "\<lparr>m_wCharArray = None, m_length = 0\<rparr>"]
  by fastforce

lemma Assign_leaves_holes:
  "Assign (\<lambda>_. True) [0x61, 0xC0, 0x80, 0x63, 0] s =
    Some (S_OK, s\<lparr>m_wCharArray := Some [Some 0x61, None, None, Some 0], m_length := 3\<rparr>)"
  by (simp add: Assign_def Let_def CountNumberOfCharacters_def ConvertFromUTF8_def SetInputUTF8_def
      helper_zero_def UnicodeString_Release_def written_units_def UTF8_BAD_LOWPART_def from_utf8.simps)
    (simp add: numeral_3_eq_3 numeral_2_eq_2)

section \<open>The encodings\<close>

text \<open>
  A character of Unicode is a number; zero ends a string. \<open>utf8_enc\<close> and \<open>utf16_enc\<close> are the
  definitions of the standard (RFC 3629, RFC 2781).
\<close>

definition scalar :: "nat \<Rightarrow> bool" where
  "scalar c \<longleftrightarrow> 0 < c \<and> c < 0x110000 \<and> \<not> (0xD800 \<le> c \<and> c < 0xE000)"

definition utf8_nat :: "nat \<Rightarrow> nat list" where
  "utf8_nat c =
     (if c < 0x80 then [c]
      else if c < 0x800 then [0xC0 + c div 64, 0x80 + c mod 64]
      else if c < 0x10000 then [0xE0 + c div 4096, 0x80 + c div 64 mod 64, 0x80 + c mod 64]
      else [0xF0 + c div 262144, 0x80 + c div 4096 mod 64, 0x80 + c div 64 mod 64, 0x80 + c mod 64])"

definition surrogates :: "nat \<Rightarrow> u16 list" where
  "surrogates d = [of_nat (0xD800 + d div 1024), of_nat (0xDC00 + d mod 1024)]"

definition utf8_enc :: "nat \<Rightarrow> u8 list" where
  "utf8_enc c = map of_nat (utf8_nat c)"

definition utf16_enc :: "nat \<Rightarrow> u16 list" where
  "utf16_enc c = (if c < 0x10000 then [of_nat c] else surrogates (c - 0x10000))"

text \<open>What \<open>ConvertFromUTF8\<close> makes of a character: the offset of the surrogates is missing.\<close>

definition utf16_read :: "nat \<Rightarrow> u16 list" where
  "utf16_read c = (if c < 0x10000 then [of_nat c] else surrogates c)"

lemma utf16_length: "length (utf16_enc c) = (if c < 0x10000 then 1 else 2)" "length (utf16_read c) = length (utf16_enc c)"
  by (simp_all add: utf16_enc_def utf16_read_def surrogates_def)

lemma check_byte: "m < 64 \<Longrightarrow> UTF8_CHECK_LOWPART (Suc k) (of_nat (0x80 + m) # src) = UTF8_CHECK_LOWPART k src"
  using check_lowpart [of "0x80 + m" k src] by simp

lemma count_chars_enc:
  assumes "scalar c" "mx < 0"
  shows "count_chars (utf8_enc c @ rest) mx num = count_chars rest (mx - 1) (num + int (length (utf16_enc c)))"
proof -
  have b: "c mod 64 < 64" "c div 64 mod 64 < 64" "c div 4096 mod 64 < 64" by simp_all
  note cb = check_byte [OF b(1)] check_byte [OF b(2)] check_byte [OF b(3)]
  consider "c < 128" | "128 \<le> c" "c < 2048" | "2048 \<le> c" "c < 65536" | "65536 \<le> c" by linarith
  then show ?thesis
  proof cases
    case 1
    with assms count_chars_step [of c rest mx num] show ?thesis
      by (simp add: scalar_def utf8_enc_def utf8_nat_def utf16_length)
  next
    case 2
    have "2 \<le> c div 64" "c div 64 < 32" using 2 by (simp_all add: le_div_geq div_less_iff_less_mult less_eq_div_iff_mult_less_eq)
    with 2 assms count_chars_step [of "0xC0 + c div 64" "of_nat (0x80 + c mod 64) # rest" mx num] cb show ?thesis
      by (simp add: utf8_enc_def utf8_nat_def utf16_length del: of_nat_add)
  next
    case 3
    have "c div 4096 < 16" using 3 by (simp add: div_less_iff_less_mult)
    with 3 assms count_chars_step [of "0xE0 + c div 4096" "of_nat (0x80 + c div 64 mod 64) # of_nat (0x80 + c mod 64) # rest" mx num] cb show ?thesis
      by (simp add: utf8_enc_def utf8_nat_def utf16_length numeral_2_eq_2 del: of_nat_add)
  next
    case 4
    have "c div 262144 < 8" using assms by (simp add: scalar_def div_less_iff_less_mult)
    with 4 assms count_chars_step [of "0xF0 + c div 262144" "of_nat (0x80 + c div 4096 mod 64) # of_nat (0x80 + c div 64 mod 64) # of_nat (0x80 + c mod 64) # rest" mx num] cb show ?thesis
      by (simp add: utf8_enc_def utf8_nat_def utf16_length numeral_3_eq_3 del: of_nat_add)
  qed
qed
lemma enc_bytes:
  assumes "c < 4294967296"
  shows "ucast (0x80 OR ((of_nat c :: u32) AND 0x3F)) = (of_nat (0x80 + c mod 64) :: u8)"
    "ucast (0x80 OR (drop_bit k (of_nat c :: u32) AND 0x3F)) = (of_nat (0x80 + c div 2 ^ k mod 64) :: u8)"
    "ucast (0xC0 OR (drop_bit k (of_nat c :: u32) AND 0x1F)) = (of_nat (0xC0 + c div 2 ^ k mod 32) :: u8)"
    "ucast (0xE0 OR (drop_bit k (of_nat c :: u32) AND 0x0F)) = (of_nat (0xE0 + c div 2 ^ k mod 16) :: u8)"
    "ucast (0xF0 OR (drop_bit k (of_nat c :: u32) AND 0x07)) = (of_nat (0xF0 + c div 2 ^ k mod 8) :: u8)"
proof -
  have "c mod 64 < 64" "c div 2 ^ k mod 64 < 64" "c div 2 ^ k mod 32 < 32" "c div 2 ^ k mod 16 < 16"
    "c div 2 ^ k mod 8 < 8" by simp_all
  then show "ucast (0x80 OR ((of_nat c :: u32) AND 0x3F)) = (of_nat (0x80 + c mod 64) :: u8)"
    "ucast (0x80 OR (drop_bit k (of_nat c :: u32) AND 0x3F)) = (of_nat (0x80 + c div 2 ^ k mod 64) :: u8)"
    "ucast (0xC0 OR (drop_bit k (of_nat c :: u32) AND 0x1F)) = (of_nat (0xC0 + c div 2 ^ k mod 32) :: u8)"
    "ucast (0xE0 OR (drop_bit k (of_nat c :: u32) AND 0x0F)) = (of_nat (0xE0 + c div 2 ^ k mod 16) :: u8)"
    "ucast (0xF0 OR (drop_bit k (of_nat c :: u32) AND 0x07)) = (of_nat (0xF0 + c div 2 ^ k mod 8) :: u8)"
    by (simp_all only: drop_u32 [OF assms] and_mask_u32 tail_byte ucast_down)
qed

lemma unit_compare:
  assumes "c < 65536"
  shows "(of_nat c :: u16) = 0 \<longleftrightarrow> c = 0" "(of_nat c :: u16) < 0x0080 \<longleftrightarrow> c < 128" "(of_nat c :: u16) < 0x0800 \<longleftrightarrow> c < 2048"
    "LOW_SURROGATE_START \<le> of_nat c \<longleftrightarrow> 0xDC00 \<le> c" "of_nat c \<le> LOW_SURROGATE_END \<longleftrightarrow> c < 0xE000"
    "HIGH_SURROGATE_START \<le> of_nat c \<longleftrightarrow> 0xD800 \<le> c" "of_nat c \<le> HIGH_SURROGATE_END \<longleftrightarrow> c < 0xDC00"
  using assms by (simp_all add: surrogate_defs word_less_nat_alt word_le_nat_alt word_unat_eq_iff unat_of_nat less_Suc_eq_le [symmetric])

lemma unit_compare_32:
  assumes "c < 65536"
  shows "ucast (of_nat c :: u16) = (of_nat c :: u32)" 
    "(of_nat c :: u32) = 0 \<longleftrightarrow> c = 0" "(of_nat c :: u32) < 0x0080 \<longleftrightarrow> c < 128" "(of_nat c :: u32) < 0x0800 \<longleftrightarrow> c < 2048"
    "ucast HIGH_SURROGATE_START \<le> (of_nat c :: u32) \<longleftrightarrow> 0xD800 \<le> c" "(of_nat c :: u32) \<le> ucast HIGH_SURROGATE_END \<longleftrightarrow> c < 0xDC00"
proof -
  show "ucast (of_nat c :: u16) = (of_nat c :: u32)" using assms by (simp add: ucast_unit)
  have "unat (of_nat c :: u32) = c" using assms by (simp add: unat_of_nat)
  then show "(of_nat c :: u32) = 0 \<longleftrightarrow> c = 0" "(of_nat c :: u32) < 0x0080 \<longleftrightarrow> c < 128" "(of_nat c :: u32) < 0x0800 \<longleftrightarrow> c < 2048"
    "ucast HIGH_SURROGATE_START \<le> (of_nat c :: u32) \<longleftrightarrow> 0xD800 \<le> c" "(of_nat c :: u32) \<le> ucast HIGH_SURROGATE_END \<longleftrightarrow> c < 0xDC00"
    by (auto simp: surrogate_defs word_less_nat_alt word_le_nat_alt word_unat_eq_iff)
qed

lemma surrogate_bounds: "65536 \<le> c \<Longrightarrow> c < 0x110000 \<Longrightarrow> (c - 65536) div 1024 < (1024 :: nat)"
  by (simp add: div_less_iff_less_mult)

lemma count_bytes_enc:
  assumes "scalar c" "mx < 0"
  shows "count_bytes (utf16_enc c @ rest) mx num = count_bytes rest (mx - 1) (num + int (length (utf8_enc c)))"
proof (cases "c < 65536")
  case True
  with assms show ?thesis
    by (auto simp: utf16_enc_def scalar_def unit_compare utf8_enc_def utf8_nat_def)
next
  case False
  define h l where "h = 0xD800 + (c - 65536) div 1024" and "l = 0xDC00 + (c - 65536) mod 1024"
  have "(c - 65536) div 1024 < 1024" using False assms by (intro surrogate_bounds) (auto simp: scalar_def)
  then have hl: "55296 \<le> h" "h < 56320" "56320 \<le> l" "l < 57344" by (auto simp: h_def l_def)
  have "utf16_enc c = [of_nat h, of_nat l]" using False by (simp add: utf16_enc_def surrogates_def h_def l_def)
  then show ?thesis
    using hl assms False by (simp add: unit_compare utf8_enc_def utf8_nat_def)
qed

lemma to_put_room: "int (length bs) \<le> sz \<Longrightarrow> to_put False bs out sz = Some (out @ bs, sz - int (length bs))"
  by (simp add: to_put_def)

lemma to_utf8_enc:
  assumes "scalar c" "0 < mx" "int (length (utf8_enc c)) \<le> sz"
  shows "to_utf8 False mx (utf16_enc c @ rest) out sz =
    to_utf8 False (if c < 0x10000 then mx - 1 else mx) rest (out @ utf8_enc c) (sz - int (length (utf8_enc c)))"
proof (cases "c < 65536")
  case True
  then have c: "c < 4294967296" by simp
  have u: "utf16_enc c = [of_nat c]" using True by (simp add: utf16_enc_def)
  note t = to_utf8.simps [of False mx "of_nat c # rest"] unit_compare_32 [OF True]
  consider "c < 128" | "128 \<le> c" "c < 2048" | "2048 \<le> c" by linarith
  then show ?thesis
  proof cases
    case 1
    with True assms show ?thesis by (simp add: u t Let_def scalar_def utf8_enc_def utf8_nat_def to_put_room ucast_down)
  next
    case 2
    then have "c div 64 mod 32 = c div 64" by (simp add: div_less_iff_less_mult)
    with 2 True assms enc_bytes(1) [OF c] enc_bytes(2-) [OF c, of 6] show ?thesis
      by (simp add: u t Let_def scalar_def utf8_enc_def utf8_nat_def to_put_room del: of_nat_add)
  next
    case 3
    have "c div 4096 mod 16 = c div 4096" using True by (simp add: div_less_iff_less_mult)
    moreover have "\<not> (0xD800 \<le> c \<and> c < 0xDC00)" using assms(1) by (auto simp: scalar_def)
    ultimately show ?thesis using 3 True assms enc_bytes(1) [OF c] enc_bytes(2-) [OF c, of 6] enc_bytes(2-) [OF c, of 12]
      by (auto simp add: u t Let_def scalar_def utf8_enc_def utf8_nat_def to_put_room del: of_nat_add)
  qed
next
  case False
  define d where "d = c - 65536"
  define h l where "h = d div 1024" and "l = d mod 1024"
  have hl: "h < 1024" "l < 1024" using surrogate_bounds [of c] False assms(1) by (auto simp: h_def l_def d_def scalar_def)
  have c: "c < 4294967296" "c = 65536 + 1024 * h + l" "c div 262144 mod 8 = c div 262144"
    using False assms(1) by (auto simp: h_def l_def d_def scalar_def div_less_iff_less_mult)
  have u: "utf16_enc c = [of_nat (0xD800 + h), of_nat (0xDC00 + l)]"
    using False by (simp add: utf16_enc_def surrogates_def h_def l_def d_def)
  have bounds: "0xD800 + h < 65536" "0xDC00 + l < 65536" using hl by simp_all
  have ch: "SURROGATE_HALFBASE + push_bit SURROGATE_HALFSHIFT (of_nat (0xD800 + h) - ucast HIGH_SURROGATE_START) +
      (of_nat (0xDC00 + l) - ucast LOW_SURROGATE_START) = (of_nat c :: u32)"
    by (simp add: surrogate_defs c(2) push_bit_eq_mult)
  note t = to_utf8.simps [of False mx "of_nat (0xD800 + h) # of_nat (0xDC00 + l) # rest"]
    unit_compare_32 [OF bounds(1)] unit_compare_32(1) [OF bounds(2)]
  show ?thesis
    using False hl assms enc_bytes(1) [OF c(1)] enc_bytes(2-) [OF c(1), of 6] enc_bytes(2-) [OF c(1), of 12]
      enc_bytes(2-) [OF c(1), of 18] c(3)
    by (simp add: u t Let_def ch utf8_enc_def utf8_nat_def to_put_room del: of_nat_add)
qed


lemma from_utf8_enc:
  assumes "scalar c" "int (length (utf16_enc c)) \<le> mx" "3 * mx \<le> b" "int (length (utf16_enc c)) \<le> sz"
  shows "\<exists>b'. from_utf8 False mx b (utf8_enc c @ rest) out sz =
    from_utf8 False (mx - int (length (utf16_enc c))) b' rest (out @ utf16_read c) (sz - int (length (utf16_enc c))) \<and>
    3 * (mx - int (length (utf16_enc c))) \<le> b'"
proof -
  have m: "c mod 64 < 64" "c div 64 mod 64 < 64" "c div 4096 mod 64 < 64" by simp_all
  note lb = load_byte [OF m(1)] load_byte [OF m(2)] load_byte [OF m(3)]
  have joins: "64 * (c div 64) + c mod 64 = c" "64 * (c div 4096) + c div 64 mod 64 = c div 64"
    "64 * (c div 262144) + c div 4096 mod 64 = c div 4096"
    using mult_div_mod_eq [of 64 c] mult_div_mod_eq [of 64 "c div 64"] mult_div_mod_eq [of 64 "c div 4096"]
    by (simp_all add: div_mult2_eq [symmetric])
  have pos: "0 < mx" "0 < b" using assms(2,3) by (auto simp: utf16_length split: if_splits)
  note st = from_utf8_step [OF _ pos]
  consider "c < 128" | "128 \<le> c" "c < 2048" | "2048 \<le> c" "c < 65536" | "65536 \<le> c" by linarith
  then show ?thesis
  proof cases
    case 1
    then have "utf8_enc c = [of_nat c]" "utf16_read c = [of_nat c]" "length (utf16_enc c) = 1"
      by (simp_all add: utf8_enc_def utf8_nat_def utf16_read_def utf16_length)
    with 1 assms st [of c] show ?thesis by (intro exI [of _ "b - 1"]) (auto simp: scalar_def)
  next
    case 2
    let ?b1 = "0xC0 + c div 64"
    have d: "2 \<le> c div 64" "c div 64 < 32" using 2 by (simp_all add: div_less_iff_less_mult less_eq_div_iff_mult_less_eq)
    have e: "utf8_enc c = [of_nat ?b1, of_nat (0x80 + c mod 64)]" "utf16_read c = [of_nat c]" "length (utf16_enc c) = 1"
      using 2 by (simp_all add: utf8_enc_def utf8_nat_def utf16_read_def utf16_length)
    have "(0xC0 + c div 64) mod 32 = c div 64" using d(2) by (simp add: mod_add_left_eq [of 192, symmetric])
    then have "from_multi False 1 1 (of_nat (?b1 mod 32)) b (of_nat (0x80 + c mod 64) # rest) out sz =
        Some (Some (rest, out @ [of_nat c], sz - 1))"
      using assms(2-4) e(3) by (simp add: from_multi_def lb joins ucast_down del: of_nat_add UTF8_LOAD_LOWPART.simps(3))
    with d e st [of ?b1 False] show ?thesis using assms(3)
      by (intro exI [of _ "b - 2"]) (simp del: of_nat_add)
  next
    case 3
    let ?b1 = "0xE0 + c div 4096"
    have d: "c div 4096 < 16" using 3 by (simp_all add: div_less_iff_less_mult)
    have e: "utf8_enc c = [of_nat ?b1, of_nat (0x80 + c div 64 mod 64), of_nat (0x80 + c mod 64)]"
      "utf16_read c = [of_nat c]" "length (utf16_enc c) = 1"
      using 3 by (simp_all add: utf8_enc_def utf8_nat_def utf16_read_def utf16_length)
    have "(0xE0 + c div 4096) mod 16 = c div 4096" using d by (simp add: mod_add_left_eq [of 224, symmetric])
    then have "from_multi False 2 1 (of_nat (?b1 mod 16)) b (of_nat (0x80 + c div 64 mod 64) # of_nat (0x80 + c mod 64) # rest) out sz =
        Some (Some (rest, out @ [of_nat c], sz - 1))"
      using assms(2-4) e(3) by (simp add: from_multi_def numeral_2_eq_2 lb joins ucast_down del: of_nat_add UTF8_LOAD_LOWPART.simps(3))
    with d e st [of ?b1 False] show ?thesis using assms(3)
      by (intro exI [of _ "b - 3"]) (simp del: of_nat_add)
  next
    case 4
    let ?b1 = "0xF0 + c div 262144"
    have d: "c div 262144 < 5" using assms(1) by (simp_all add: scalar_def div_less_iff_less_mult)
    have e: "utf8_enc c = [of_nat ?b1, of_nat (0x80 + c div 4096 mod 64), of_nat (0x80 + c div 64 mod 64), of_nat (0x80 + c mod 64)]"
      "utf16_read c = surrogates c" "length (utf16_enc c) = 2"
      using 4 by (simp_all add: utf8_enc_def utf8_nat_def utf16_read_def utf16_length)
    have "(0xF0 + c div 262144) mod 8 = c div 262144" using d by (simp add: mod_add_left_eq [of 240, symmetric])
    moreover have "c < 4294967296" using assms(1) by (simp add: scalar_def)
    moreover have "ucast (of_nat x + 0xD800 :: u32) = (of_nat (0xD800 + x) :: u16)"
      "ucast (of_nat x + 0xDC00 :: u32) = (of_nat (0xDC00 + x) :: u16)" for x
      using ucast_down(2) [of "0xD800 + x"] ucast_down(2) [of "0xDC00 + x"] by (simp_all add: add.commute)
    ultimately have "from_multi False 3 2 (of_nat (?b1 mod 8)) b (of_nat (0x80 + c div 4096 mod 64) #
          of_nat (0x80 + c div 64 mod 64) # of_nat (0x80 + c mod 64) # rest) out sz =
        Some (Some (rest, out @ surrogates c, sz - 2))"
      using assms(2-4) e(3)
      by (simp add: from_multi_def numeral_3_eq_3 lb joins surrogate_defs drop_u32 and_mask_u32 ucast_down surrogates_def
          del: of_nat_add UTF8_LOAD_LOWPART.simps(3))
    with d e st [of ?b1 False] show ?thesis using assms(3)
      by (intro exI [of _ "b - 4"]) (simp del: of_nat_add)
  qed
qed

lemma surrogates_inj: "65536 \<le> c \<Longrightarrow> c < 0x110000 \<Longrightarrow> surrogates c \<noteq> surrogates (c - 65536)"
proof
  assume c: "65536 \<le> c" "c < 0x110000" and eq: "surrogates c = surrogates (c - 65536)"
  define q where "q = (c - 65536) div 1024"
  have "c div 1024 = q + 64" using c le_div_geq [of 65536 c] by (simp add: q_def) 
  moreover have "q < 1024" using surrogate_bounds [OF c] by (simp add: q_def)
  ultimately have "(of_nat (0xD800 + (q + 64)) :: u16) = of_nat (0xD800 + q)"
    using eq by (simp add: surrogates_def q_def)
  then have "unat (of_nat (0xD800 + (q + 64)) :: u16) = unat (of_nat (0xD800 + q) :: u16)" by simp
  then show False using \<open>q < 1024\<close> by (simp add: unat_of_nat del: of_nat_add)
qed

text \<open>The four routines on a whole text.\<close>

abbreviation utf8_text :: "nat list \<Rightarrow> u8 list" where "utf8_text cs \<equiv> concat (map utf8_enc cs)"
abbreviation utf16_text :: "nat list \<Rightarrow> u16 list" where "utf16_text cs \<equiv> concat (map utf16_enc cs)"

lemma count_chars_text:
  "\<forall>c \<in> set cs. scalar c \<Longrightarrow> mx < 0 \<Longrightarrow>
    count_chars (utf8_text cs @ 0 # rest) mx num = Some (num + int (length (utf16_text cs)))"
  by (induction cs arbitrary: mx num) (simp_all add: count_chars_enc)

lemma count_bytes_text:
  "\<forall>c \<in> set cs. scalar c \<Longrightarrow> mx < 0 \<Longrightarrow>
    count_bytes (utf16_text cs @ 0 # rest) mx num = Some (num + int (length (utf8_text cs)))"
  by (induction cs arbitrary: mx num) (simp_all add: count_bytes_enc)

lemma to_utf8_text:
  "\<forall>c \<in> set cs. scalar c \<Longrightarrow> int (length (utf16_text cs)) \<le> mx \<Longrightarrow> int (length (utf8_text cs)) \<le> sz \<Longrightarrow>
    \<exists>inp. to_utf8 False mx (utf16_text cs @ 0 # rest) out sz =
      Some (True, inp, out @ utf8_text cs, sz - int (length (utf8_text cs)))"
proof (induction cs arbitrary: mx out sz)
  case Nil
  then show ?case by (simp add: to_utf8.simps)
next
  case (Cons c cs)
  then have "0 < mx" "int (length (utf8_enc c)) \<le> sz" by (auto simp: utf16_length split: if_splits)
  with to_utf8_enc [of c mx sz "utf16_text cs @ 0 # rest" out] Cons.prems
    Cons.IH [of "if c < 0x10000 then mx - 1 else mx" "sz - int (length (utf8_enc c))" "out @ utf8_enc c"]
  show ?case by (simp add: utf16_length diff_diff_eq split: if_splits)
qed

lemma from_utf8_text:
  "\<forall>c \<in> set cs. scalar c \<Longrightarrow> mx = int (length (utf16_text cs)) \<Longrightarrow> 3 * mx \<le> b \<Longrightarrow> mx \<le> sz \<Longrightarrow>
    \<exists>inp. from_utf8 False mx b (utf8_text cs @ rest) out sz =
      Some (True, inp, out @ concat (map utf16_read cs), sz - mx)"
proof (induction cs arbitrary: mx b out sz)
  case Nil
  then show ?case by (simp add: from_utf8.simps)
next
  case (Cons c cs)
  let ?k = "int (length (utf16_enc c))"
  from from_utf8_enc [of c mx b sz "utf8_text cs @ rest" out] Cons.prems
  obtain b' where b': "from_utf8 False mx b (utf8_enc c @ utf8_text cs @ rest) out sz =
      from_utf8 False (mx - ?k) b' (utf8_text cs @ rest) (out @ utf16_read c) (sz - ?k)" "3 * (mx - ?k) \<le> b'" by auto
  from Cons.IH [of "mx - ?k" b' "sz - ?k" "out @ utf16_read c"] b' Cons.prems show ?case
    by (simp add: diff_diff_eq)
qed

text \<open>
  C13. The conversions agree with the definition of the two encodings: for a text of Unicode
  characters in UTF-16, \<open>CountNumberOfBytes\<close> is the length of its UTF-8 form and
  \<open>ConvertToUTF8\<close> into a buffer of that size and one writes exactly that form and the zero;
  \<open>CountNumberOfCharacters\<close> of it is the length of the UTF-16 form again, and
  \<open>ConvertFromUTF8\<close> into a buffer of that size and one gives back the text when all characters
  are below \<open>2 ^ 16\<close>. A character above is read back wrongly: \<open>ConvertFromUTF8\<close> does not take off
  the \<open>SURROGATE_HALFBASE\<close> that \<open>ConvertToUTF8\<close> adds.
\<close>

theorem utf8_conversions:
  fixes cs :: "nat list"
  assumes cs: "\<forall>c \<in> set cs. scalar c" and short: "3 * length (concat (map utf16_enc cs)) < 2 ^ 31"
  defines "t \<equiv> concat (map utf16_enc cs)" and "e \<equiv> concat (map utf8_enc cs)"
  shows "CountNumberOfBytes (-1) (SetInputUTF16 (t @ [0]) u) = Some (int (length e)) \<and>
    (\<exists>u'. ConvertToUTF8 (int (length t)) False
        (u\<lparr>m_inputUTF16 := t @ [0], m_outputUTF8 := [], m_outputUTF8_size := int (length e) + 1\<rparr>) = Some (True, u') \<and>
      m_outputUTF8 u' = e \<and> m_terminated u') \<and>
    CountNumberOfCharacters (-1) (SetInputUTF8 (e @ [0]) u) = Some (int (length t)) \<and>
    (\<exists>u'. ConvertFromUTF8 (int (length t)) False (-1)
        (u\<lparr>m_inputUTF8 := e @ [0], m_outputUTF16 := [], m_outputUTF16_size := int (length t) + 1\<rparr>) = Some (True, u') \<and>
      m_outputUTF16 u' = concat (map utf16_read cs) \<and> m_terminated u' \<and>
      (m_outputUTF16 u' = t \<longleftrightarrow> (\<forall>c \<in> set cs. c < 0x10000)))"
proof -
  have s: "s32 (int (length t) * 3) = int (length t) * 3" using short by (simp add: t_def)
  obtain inp where to: "to_utf8 False (int (length t)) (t @ [0]) [] (int (length e) + 1) = Some (True, inp, e, 1)"
    using to_utf8_text [OF cs, of "int (length t)" "int (length e) + 1" "[]" "[]"] by (auto simp: t_def e_def)
  obtain inp' where fr: "from_utf8 False (int (length t)) (int (length t) * 3) (e @ [0]) [] (int (length t) + 1) =
      Some (True, inp', concat (map utf16_read cs), 1)"
    using from_utf8_text [OF cs, of "int (length t)" "int (length t) * 3" "int (length t) + 1" "[0]" "[]"]
    by (auto simp: t_def e_def)
  have eq: "concat (map utf16_read cs) = t \<longleftrightarrow> (\<forall>c \<in> set cs. c < 0x10000)"
    unfolding t_def using cs
  proof (induction cs)
    case (Cons c cs)
    have "utf16_read c = utf16_enc c \<longleftrightarrow> c < 0x10000"
      using Cons.prems surrogates_inj [of c] by (auto simp: utf16_read_def utf16_enc_def scalar_def)
    with Cons show ?case by (simp add: utf16_length append_eq_append_conv)
  qed simp
  show ?thesis
    using count_bytes_text [OF cs, of "-1" "[]" 0] count_chars_text [OF cs, of "-1" "[]" 0] to fr s eq
    by (simp add: CountNumberOfBytes_def CountNumberOfCharacters_def SetInputUTF8_def SetInputUTF16_def
        ConvertToUTF8_def ConvertFromUTF8_def t_def e_def)
qed

theorem utf8_conversions_witness:
  "CountNumberOfBytes (-1) (SetInputUTF16 [0x41, 0xD83D, 0xDE00, 0] helper_zero) = Some 5 \<and>
   utf16_enc 0x41 @ utf16_enc 0x1F600 = [0x41, 0xD83D, 0xDE00] \<and>
   utf16_read 0x41 @ utf16_read 0x1F600 = [0x41, 0xD87D, 0xDE00]"
  using utf8_conversions [of "[0x41, 0x1F600]" helper_zero]
  by (simp add: scalar_def utf16_enc_def utf16_read_def surrogates_def utf8_enc_def utf8_nat_def)
end
