(* ===== verification/HeapCluster.thy ===== *)
theory HeapCluster
  imports DataTypes
begin

text \<open>
  The managed heap of the runtime: heap blocks (\<open>CLR/Include/TinyCLR_Runtime__HeapBlock.h\<close>) and heap
  clusters (\<open>CLR/Core/CLR_RT_HeapCluster.cpp\<close>).

  The memory maps word addresses to 32-bit words: every field these parts of the runtime read or
  write is a whole aligned word or lies in the header word of a block. Addresses and pointers count
  words, a pointer in memory is the word that holds it. \<open>sizeof(CLR_RT_HeapBlock)\<close> is 3 words: the
  header \<open>m_id\<close> (data type in bits 0 to 7, flags in 8 to 15, size in blocks in 16 to 31, the
  little-endian layout of the union) and the two words of \<open>m_data\<close>, which the links of a node, a
  reference and every other view of the union share. A \<open>CLR_RT_DblLinkedList\<close> is three words; its
  head and tail nodes overlap in \<open>m_null\<close>.
\<close>

section \<open>Heap blocks\<close>

type_synonym heap_mem = "nat \<Rightarrow> u32"

definition HB_Alive :: u8 where "HB_Alive = 0x01"
definition HB_Event :: u8 where "HB_Event = 0x04"
definition HB_Pinned :: u8 where "HB_Pinned = 0x08"
definition HB_InitializeToZero :: u32 where "HB_InitializeToZero = 0x00100"

text \<open>\<open>CLR_RT_HEAPBLOCK_RAW_ID\<close> and the accessors of \<open>m_id\<close>.\<close>

definition RAW_ID :: "u32 \<Rightarrow> u32 \<Rightarrow> u32 \<Rightarrow> u32" where
  "RAW_ID dataType flags sz =
     (dataType AND 0xFF) OR push_bit 8 (flags AND 0xFF) OR push_bit 16 (sz AND 0xFFFF)"

definition id_type :: "u32 \<Rightarrow> u8" where
  "id_type w = ucast w"

definition id_flags :: "u32 \<Rightarrow> u8" where
  "id_flags w = ucast (drop_bit 8 w)"

definition id_size :: "u32 \<Rightarrow> u16" where
  "id_size w = ucast (drop_bit 16 w)"

definition hb_DataType :: "heap_mem \<Rightarrow> nat \<Rightarrow> u8" where
  "hb_DataType m a = id_type (m a)"

definition hb_DataFlags :: "heap_mem \<Rightarrow> nat \<Rightarrow> u8" where
  "hb_DataFlags m a = id_flags (m a)"

definition hb_DataSize :: "heap_mem \<Rightarrow> nat \<Rightarrow> u16" where
  "hb_DataSize m a = id_size (m a)"

definition hb_SetDataId :: "heap_mem \<Rightarrow> nat \<Rightarrow> u32 \<Rightarrow> heap_mem" where
  "hb_SetDataId m a raw = m(a := raw)"

definition hb_SetFlags :: "heap_mem \<Rightarrow> nat \<Rightarrow> u8 \<Rightarrow> heap_mem" where
  "hb_SetFlags m a flags = m(a := m a OR push_bit 8 (ucast flags))"

definition hb_ResetFlags :: "heap_mem \<Rightarrow> nat \<Rightarrow> u8 \<Rightarrow> heap_mem" where
  "hb_ResetFlags m a flags = m(a := m a AND NOT (push_bit 8 (ucast flags)))"

definition hb_IsFlagSet :: "heap_mem \<Rightarrow> nat \<Rightarrow> u8 \<Rightarrow> bool" where
  "hb_IsFlagSet m a flags \<longleftrightarrow> hb_DataFlags m a AND flags \<noteq> 0"

definition hb_IsAlive :: "heap_mem \<Rightarrow> nat \<Rightarrow> bool" where
  "hb_IsAlive m a = hb_IsFlagSet m a HB_Alive"

definition hb_IsEvent :: "heap_mem \<Rightarrow> nat \<Rightarrow> bool" where
  "hb_IsEvent m a = hb_IsFlagSet m a HB_Event"

definition hb_MarkDead :: "heap_mem \<Rightarrow> nat \<Rightarrow> heap_mem" where
  "hb_MarkDead m a = hb_ResetFlags m a HB_Alive"

definition hb_MarkAlive :: "heap_mem \<Rightarrow> nat \<Rightarrow> heap_mem" where
  "hb_MarkAlive m a = hb_SetFlags m a HB_Alive"

text \<open>\<open>ZeroFill\<close> of everything behind the header word.\<close>

definition hb_InitializeToZero :: "heap_mem \<Rightarrow> nat \<Rightarrow> heap_mem" where
  "hb_InitializeToZero m a =
     (\<lambda>k. if a < k \<and> k < a + 3 * unat (hb_DataSize m a) then 0 else m k)"

section \<open>Nodes and lists\<close>

definition hb_Next :: "heap_mem \<Rightarrow> nat \<Rightarrow> nat" where
  "hb_Next m a = unat (m (a + 1))"

definition hb_Prev :: "heap_mem \<Rightarrow> nat \<Rightarrow> nat" where
  "hb_Prev m a = unat (m (a + 2))"

definition hb_SetNext :: "heap_mem \<Rightarrow> nat \<Rightarrow> nat \<Rightarrow> heap_mem" where
  "hb_SetNext m a next = m(a + 1 := of_nat next)"

definition hb_SetPrev :: "heap_mem \<Rightarrow> nat \<Rightarrow> nat \<Rightarrow> heap_mem" where
  "hb_SetPrev m a prev = m(a + 2 := of_nat prev)"

definition hb_ClearData :: "heap_mem \<Rightarrow> nat \<Rightarrow> heap_mem" where
  "hb_ClearData m a = hb_SetPrev (hb_SetNext m a 0) a 0"

definition hb_RemoveFromList :: "heap_mem \<Rightarrow> nat \<Rightarrow> heap_mem" where
  "hb_RemoveFromList m a =
     (let prev = hb_Prev m a; next = hb_Next m a;
          m1 = (if prev \<noteq> 0 then hb_SetNext m prev next else m)
      in if next \<noteq> 0 then hb_SetPrev m1 next prev else m1)"

definition hb_Unlink :: "heap_mem \<Rightarrow> nat \<Rightarrow> heap_mem" where
  "hb_Unlink m a = hb_SetNext (hb_SetPrev (hb_RemoveFromList m a) a 0) a 0"

text \<open>The head and tail nodes of the list whose three words start at \<open>l\<close>.\<close>

definition list_Head :: "nat \<Rightarrow> nat" where
  "list_Head l = l - 1"

definition list_Tail :: "nat \<Rightarrow> nat" where
  "list_Tail l = l"

definition DblLinkedList_Initialize :: "heap_mem \<Rightarrow> nat \<Rightarrow> heap_mem" where
  "DblLinkedList_Initialize m l =
     m(l := of_nat (list_Tail l), l + 1 := 0, l + 2 := of_nat (list_Head l))"

definition list_FirstNode :: "heap_mem \<Rightarrow> nat \<Rightarrow> nat" where
  "list_FirstNode m l = unat (m l)"

definition list_LastNode :: "heap_mem \<Rightarrow> nat \<Rightarrow> nat" where
  "list_LastNode m l = unat (m (l + 2))"

definition list_Insert :: "heap_mem \<Rightarrow> nat \<Rightarrow> nat \<Rightarrow> nat \<Rightarrow> heap_mem" where
  "list_Insert m prev next node =
     (let m1 = hb_SetNext m node next;
          m2 = hb_SetPrev m1 node prev;
          m3 = hb_SetPrev m2 next node
      in hb_SetNext m3 prev node)"

definition list_InsertBeforeNode :: "heap_mem \<Rightarrow> nat \<Rightarrow> nat \<Rightarrow> heap_mem" where
  "list_InsertBeforeNode m node nodeNew =
     (if node \<noteq> 0 \<and> nodeNew \<noteq> 0 \<and> node \<noteq> nodeNew then
        (let m1 = hb_RemoveFromList m nodeNew
         in list_Insert m1 (hb_Prev m1 node) node nodeNew)
      else m)"

definition list_LinkAtBack :: "heap_mem \<Rightarrow> nat \<Rightarrow> nat \<Rightarrow> heap_mem" where
  "list_LinkAtBack m l node = list_InsertBeforeNode m (list_Tail l) node"

section \<open>Clusters\<close>

text \<open>
  A cluster at address \<open>hc\<close> is a node, its free list and the two ends of its payload:
  \<open>sizeof(CLR_RT_HeapCluster)\<close> is 8 words, 32 bytes.
\<close>

definition hc_freeList :: "nat \<Rightarrow> nat" where
  "hc_freeList hc = hc + 3"

definition hc_payloadStart :: "heap_mem \<Rightarrow> nat \<Rightarrow> nat" where
  "hc_payloadStart m hc = unat (m (hc + 6))"

definition hc_payloadEnd :: "heap_mem \<Rightarrow> nat \<Rightarrow> nat" where
  "hc_payloadEnd m hc = unat (m (hc + 7))"

definition FREE_ID :: "u32 \<Rightarrow> u32" where
  "FREE_ID sz = RAW_ID (ucast DATATYPE_FREEBLOCK) (ucast HB_Pinned) sz"

subsection \<open>\<open>RecoverFromGC\<close>\<close>

text \<open>
  The inner loop: the blocks from \<open>next\<close> on while they are not alive; it returns the address behind
  them and their total length. The loops over a cluster step by the sizes in the headers: a block of
  size 0 would hold them forever, which is the value \<open>None\<close>.
\<close>

partial_function (option) hc_dead_run :: "heap_mem \<Rightarrow> nat \<Rightarrow> nat \<Rightarrow> u32 \<Rightarrow> (nat \<times> u32) option" where
  "hc_dead_run m end next lenTot =
     (let len = hb_DataSize m next;
          next' = next + 3 * unat len;
          lenTot' = lenTot + ucast len
      in if next' < end \<and> \<not> hb_IsAlive m next' then hc_dead_run m end next' lenTot'
         else Some (next', lenTot'))"

partial_function (option) hc_recover_loop :: "heap_mem \<Rightarrow> nat \<Rightarrow> nat \<Rightarrow> nat \<Rightarrow> (heap_mem \<times> nat) option" where
  "hc_recover_loop m end ptr lst =
     (if ptr < end then
        if \<not> hb_IsAlive m ptr then
          (case hc_dead_run m end ptr 0 of
             None \<Rightarrow> None
           | Some (next, lenTot) \<Rightarrow>
               (let m1 = hb_SetDataId m ptr (FREE_ID lenTot);
                    m2 = hb_SetNext m1 lst ptr;
                    m3 = hb_SetPrev m2 ptr lst
                in hc_recover_loop m3 end next ptr))
        else
          (let m1 = (if \<not> hb_IsEvent m ptr then hb_MarkDead m ptr else m)
           in hc_recover_loop m1 end (ptr + 3 * unat (hb_DataSize m1 ptr)) lst)
      else Some (m, lst))"

definition RecoverFromGC :: "heap_mem \<Rightarrow> nat \<Rightarrow> heap_mem option" where
  "RecoverFromGC m hc =
     (let end = hc_payloadEnd m hc;
          lst = list_Head (hc_freeList hc);
          tail = list_Tail (hc_freeList hc)
      in case hc_recover_loop (hb_SetPrev m lst 0) end (hc_payloadStart m hc) lst of
           None \<Rightarrow> None
         | Some (m1, lst) \<Rightarrow>
             Some (hb_SetNext (hb_SetPrev (hb_SetNext m1 lst tail) tail lst) tail 0))"

subsection \<open>\<open>HeapCluster_Initialize\<close>\<close>

text \<open>
  \<open>PrepareForRecovery\<close> is the one of \<open>HeapPersistence/Heap_Persistence_stub.cpp\<close>, which salvages
  nothing and returns false.
\<close>

partial_function (option) hc_fill :: "heap_mem \<Rightarrow> nat \<Rightarrow> nat \<Rightarrow> u32 \<Rightarrow> heap_mem option" where
  "hc_fill m end ptr blockSize =
     (if ptr < end then
        (let blockSize' = (if ptr + 3 * unat blockSize > end then of_nat ((end - ptr) div 3) else blockSize)
         in hc_fill (hb_SetDataId m ptr (RAW_ID (ucast DATATYPE_FREEBLOCK) 0 blockSize'))
              end (ptr + 3 * unat blockSize') blockSize')
      else Some m)"

definition HeapCluster_Initialize :: "heap_mem \<Rightarrow> nat \<Rightarrow> u32 \<Rightarrow> u32 \<Rightarrow> heap_mem option" where
  "HeapCluster_Initialize m hc sz blockSize =
     (let m1 = hb_ClearData m hc;
          size' = (sz - 32) div 12;
          m2 = DblLinkedList_Initialize m1 (hc_freeList hc);
          m3 = m2(hc + 6 := of_nat (hc + 8), hc + 7 := of_nat (hc + 8 + 3 * unat size'))
      in case hc_fill m3 (hc_payloadEnd m3 hc) (hc_payloadStart m3 hc) blockSize of
           None \<Rightarrow> None
         | Some m4 \<Rightarrow> RecoverFromGC m4 hc)"

subsection \<open>\<open>ExtractBlocks\<close>\<close>

text \<open>The two searches; the result is the block, 0 when there is none.\<close>

partial_function (option) hc_find_first :: "heap_mem \<Rightarrow> nat \<Rightarrow> u32 \<Rightarrow> nat option" where
  "hc_find_first m ptr len =
     (let ptrNext = hb_Next m ptr
      in if ptrNext = 0 then Some 0
         else if len \<le> ucast (hb_DataSize m ptr) then Some ptr
         else hc_find_first m ptrNext len)"

partial_function (option) hc_find_last :: "heap_mem \<Rightarrow> nat \<Rightarrow> u32 \<Rightarrow> nat option" where
  "hc_find_last m ptr len =
     (let ptrPrev = hb_Prev m ptr
      in if ptrPrev = 0 then Some 0
         else if len \<le> ucast (hb_DataSize m ptr) then Some ptr
         else hc_find_last m ptrPrev len)"

definition is_event_request :: "u32 \<Rightarrow> bool" where
  "is_event_request flags \<longleftrightarrow> flags AND ucast HB_Event \<noteq> 0"

definition ExtractBlocks :: "heap_mem \<Rightarrow> nat \<Rightarrow> u32 \<Rightarrow> u32 \<Rightarrow> u32 \<Rightarrow> (heap_mem \<times> nat) option" where
  "ExtractBlocks m hc dataType flags len =
     (let found = (if is_event_request flags
                   then hc_find_last m (list_LastNode m (hc_freeList hc)) len
                   else hc_find_first m (list_FirstNode m (hc_freeList hc)) len)
      in case found of
           None \<Rightarrow> None
         | Some res \<Rightarrow>
             if res = 0 then Some (m, 0)
             else
               (let next = hb_Next m res; prev = hb_Prev m res;
                    available = ucast (hb_DataSize m res) - len;
                    (m1, res') =
                      (if available \<noteq> 0 then
                         if is_event_request flags
                         then (hb_SetDataId m res (FREE_ID available), res + 3 * unat available)
                         else
                           (let ptr = res + 3 * unat len;
                                n1 = hb_SetDataId m ptr (FREE_ID available);
                                n2 = hb_SetPrev (hb_SetNext n1 ptr next) ptr prev
                            in (hb_SetPrev (hb_SetNext n2 prev ptr) next ptr, res))
                       else (hb_SetPrev (hb_SetNext m prev next) next prev, res));
                    m2 = hb_SetDataId m1 res' (RAW_ID dataType flags len)
                in Some (if flags AND HB_InitializeToZero \<noteq> 0 then hb_InitializeToZero m2 res' else m2, res')))"

subsection \<open>\<open>InsertInOrder\<close>\<close>

partial_function (option) hc_find_above :: "heap_mem \<Rightarrow> nat \<Rightarrow> nat \<Rightarrow> nat option" where
  "hc_find_above m ptr node =
     (let ptrNext = hb_Next m ptr
      in if ptrNext = 0 \<or> node < ptr then Some ptr else hc_find_above m ptrNext node)"

definition InsertInOrder :: "heap_mem \<Rightarrow> nat \<Rightarrow> nat \<Rightarrow> u32 \<Rightarrow> (heap_mem \<times> nat) option" where
  "InsertInOrder m hc node sz =
     (case hc_find_above m (list_FirstNode m (hc_freeList hc)) node of
        None \<Rightarrow> None
      | Some up \<Rightarrow>
          (let m1 = list_InsertBeforeNode (hb_ClearData m node) up node;
               next = hb_Next m1 node;
               (m2, size2) =
                 (if hb_Next m1 next \<noteq> 0 \<and> node + 3 * unat sz = next
                  then (hb_Unlink m1 next, sz + ucast (hb_DataSize m1 next)) else (m1, sz));
               prev = hb_Prev m2 node;
               (m3, size3, node3) =
                 (if hb_Prev m2 prev \<noteq> 0 \<and> prev + 3 * unat (hb_DataSize m2 prev) = node
                  then (hb_Unlink m2 node, size2 + ucast (hb_DataSize m2 prev), prev)
                  else (m2, size2, node))
           in Some (hb_SetDataId m3 node3 (FREE_ID size3), node3)))"

section \<open>The header word\<close>

lemma bit_255: "bit (0xFF :: u32) k \<longleftrightarrow> k < 8" "bit (0xFF :: u8) k \<longleftrightarrow> k < 8"
proof -
  have "(0xFF :: u32) = mask 8" "(0xFF :: u8) = mask 8" by (simp_all add: mask_eq_exp_minus_1)
  then show "bit (0xFF :: u32) k \<longleftrightarrow> k < 8" "bit (0xFF :: u8) k \<longleftrightarrow> k < 8"
    by (simp_all only: bit_mask_iff possible_bit_word) auto
qed

lemma bit_65535: "bit (0xFFFF :: u32) k \<longleftrightarrow> k < 16" "bit (0xFFFF :: u16) k \<longleftrightarrow> k < 16"
proof -
  have "(0xFFFF :: u32) = mask 16" "(0xFFFF :: u16) = mask 16" by (simp_all add: mask_eq_exp_minus_1)
  then show "bit (0xFFFF :: u32) k \<longleftrightarrow> k < 16" "bit (0xFFFF :: u16) k \<longleftrightarrow> k < 16"
    by (simp_all only: bit_mask_iff possible_bit_word) auto
qed

lemma and_flag_bit: "(x :: u8) AND 1 \<noteq> 0 \<longleftrightarrow> bit x 0" "(x :: u8) AND 4 \<noteq> 0 \<longleftrightarrow> bit x 2"
proof -
  have "(1 :: u8) = 2 ^ 0" "(4 :: u8) = 2 ^ 2" by simp_all
  then show "(x :: u8) AND 1 \<noteq> 0 \<longleftrightarrow> bit x 0" "(x :: u8) AND 4 \<noteq> 0 \<longleftrightarrow> bit x 2"
    by (metis and_exp_eq_0_iff_not_bit)+
qed

lemma hb_IsAlive_bit: "hb_IsAlive m a \<longleftrightarrow> bit (m a) 8"
  by (simp add: hb_IsAlive_def hb_IsFlagSet_def hb_DataFlags_def HB_Alive_def and_flag_bit id_flags_def
      bit_ucast_iff bit_drop_bit_eq)

lemma hb_IsEvent_bit: "hb_IsEvent m a \<longleftrightarrow> bit (m a) 10"
  by (simp add: hb_IsEvent_def hb_IsFlagSet_def hb_DataFlags_def HB_Event_def and_flag_bit id_flags_def
      bit_ucast_iff bit_drop_bit_eq)

lemma alive_mask: "push_bit 8 (ucast HB_Alive) = (2 ^ 8 :: u32)"
  by (simp add: HB_Alive_def push_bit_eq_mult)

lemma set_alive_bits: "bit (w OR push_bit 8 (ucast HB_Alive) :: u32) k \<longleftrightarrow> bit w k \<or> k = 8"
  unfolding alive_mask by (cases "k = 8") (simp_all add: bit_or_iff bit_exp_iff del: power_numeral)

lemma reset_alive_bits: "bit (w AND NOT (push_bit 8 (ucast HB_Alive)) :: u32) k \<longleftrightarrow> bit w k \<and> k \<noteq> 8"
  unfolding alive_mask
  by (auto simp only: bit_and_iff bit_not_iff bit_exp_iff possible_bit_word dest: bit_imp_le_length)

lemma id_type_eqI: "(\<And>k. k < 8 \<Longrightarrow> bit v k = bit w k) \<Longrightarrow> id_type v = id_type w"
  by (auto simp: id_type_def bit_ucast_iff intro!: bit_word_eqI)

lemma id_size_eqI: "(\<And>k. 16 \<le> k \<Longrightarrow> bit v k = bit w k) \<Longrightarrow> id_size v = id_size w"
  by (auto simp: id_size_def bit_ucast_iff bit_drop_bit_eq intro!: bit_word_eqI)

lemmas raw_bits = RAW_ID_def bit_unsigned_iff bit_or_iff bit_and_iff bit_push_bit_iff bit_drop_bit_eq
  bit_255 bit_65535 possible_bit_word o_apply

lemma id_type_RAW: "id_type (RAW_ID t f s) = ucast t"
  by (rule bit_word_eqI) (simp only: id_type_def raw_bits, auto)

lemma id_flags_RAW: "id_flags (RAW_ID t f s) = ucast f"
  by (rule bit_word_eqI) (simp only: id_flags_def raw_bits, auto)

lemma id_size_RAW: "id_size (RAW_ID t f s) = ucast s"
  by (rule bit_word_eqI) (simp only: id_size_def raw_bits, auto)

lemma alive_RAW: "bit (RAW_ID t f s) 8 \<longleftrightarrow> bit f 0"
  by (simp add: RAW_ID_def bit_or_iff bit_and_iff bit_push_bit_iff bit_255 bit_65535)

lemma event_RAW: "bit (RAW_ID t f s) 10 \<longleftrightarrow> bit f 2"
  by (simp add: RAW_ID_def bit_or_iff bit_and_iff bit_push_bit_iff bit_255 bit_65535)

lemma FREE_ID_fields:
  "id_type (FREE_ID s) = DATATYPE_FREEBLOCK" "id_size (FREE_ID s) = ucast s"
  "\<not> bit (FREE_ID s) 8" "\<not> bit (FREE_ID s) 10"
  by (simp_all add: FREE_ID_def id_type_RAW id_size_RAW alive_RAW event_RAW DATATYPE_FREEBLOCK_def
      HB_Pinned_def)

definition clear_alive :: "u32 \<Rightarrow> u32" where
  "clear_alive w = w AND NOT (push_bit 8 (ucast HB_Alive))"

lemma clear_alive_fields:
  "id_type (clear_alive w) = id_type w" "id_size (clear_alive w) = id_size w" "\<not> bit (clear_alive w) 8"
  "bit (clear_alive w) 10 = bit w 10"
  by (auto simp: clear_alive_def reset_alive_bits intro: id_type_eqI id_size_eqI)

section \<open>Blocks and free lists\<close>

text \<open>The blocks between two addresses, each with its header word.\<close>

fun heap_blocks :: "heap_mem \<Rightarrow> nat \<Rightarrow> (nat \<times> u32) list \<Rightarrow> nat \<Rightarrow> bool" where
  "heap_blocks m p [] e \<longleftrightarrow> p = e"
| "heap_blocks m p ((a, w) # bs) e \<longleftrightarrow>
     a = p \<and> m a = w \<and> id_size w \<noteq> 0 \<and> heap_blocks m (p + 3 * unat (id_size w)) bs e"

text \<open>Neighbouring nodes of a chain point at each other.\<close>

fun node_chain :: "heap_mem \<Rightarrow> nat list \<Rightarrow> bool" where
  "node_chain m (x # y # zs) \<longleftrightarrow> hb_Next m x = y \<and> hb_Prev m y = x \<and> node_chain m (y # zs)"
| "node_chain m _ \<longleftrightarrow> True"

definition blocks_total :: "(nat \<times> u32) list \<Rightarrow> nat" where
  "blocks_total bs = sum_list (map (\<lambda>(a, w). unat (id_size w)) bs)"

abbreviation dead :: "nat \<times> u32 \<Rightarrow> bool" where
  "dead b \<equiv> \<not> bit (snd b) 8"

function recover_list :: "(nat \<times> u32) list \<Rightarrow> (nat \<times> u32) list" where
  "recover_list [] = []"
| "recover_list (b # bs) =
     (if dead b then
        (fst b, FREE_ID (of_nat (blocks_total (b # takeWhile dead bs)))) # recover_list (dropWhile dead bs)
      else (fst b, if bit (snd b) 10 then snd b else clear_alive (snd b)) # recover_list bs)"
  by pat_completeness auto
termination by (relation "measure length") (auto simp: le_imp_less_Suc length_dropWhile_le)

definition free_list :: "(nat \<times> u32) list \<Rightarrow> nat list" where
  "free_list bs = map fst (filter (\<lambda>(a, w). id_type w = DATATYPE_FREEBLOCK) bs)"

function freed :: "(nat \<times> u32) list \<Rightarrow> nat list" where
  "freed [] = []"
| "freed (b # bs) = (if dead b then fst b # freed (dropWhile dead bs) else freed bs)"
  by pat_completeness auto
termination by (relation "measure length") (auto simp: le_imp_less_Suc length_dropWhile_le)

lemma heap_blocks_end: "heap_blocks m p bs e \<Longrightarrow> e = p + 3 * blocks_total bs"
  by (induction m p bs e rule: heap_blocks.induct) (auto simp: blocks_total_def)

lemma heap_blocks_cong:
  "heap_blocks m p bs e \<Longrightarrow> (\<And>k. p \<le> k \<Longrightarrow> k < e \<Longrightarrow> m' k = m k) \<Longrightarrow> heap_blocks m' p bs e"
proof (induction bs arbitrary: p)
  case (Cons b bs)
  obtain a w where b: "b = (a, w)" by (cases b)
  have "a < e" using Cons.prems(1) heap_blocks_end [OF Cons.prems(1)]
    by (auto simp: b blocks_total_def unat_gt_0)
  then show ?case using Cons by (auto simp: b)
qed simp

lemma heap_blocks_append:
  "heap_blocks m p (bs @ cs) e \<longleftrightarrow>
     heap_blocks m p bs (p + 3 * blocks_total bs) \<and> heap_blocks m (p + 3 * blocks_total bs) cs e"
  by (induction m p bs e rule: heap_blocks.induct) (auto simp: blocks_total_def algebra_simps)

lemma blocks_total_append: "blocks_total (bs @ cs) = blocks_total bs + blocks_total cs"
  by (simp add: blocks_total_def)

lemma dead_run:
  assumes "heap_blocks m p ((p, w) # bs) e" "of_nat t = lenTot" 
  shows "hc_dead_run m e p lenTot =
    Some (p + 3 * blocks_total ((p, w) # takeWhile dead bs), of_nat (t + blocks_total ((p, w) # takeWhile dead bs)))"
  using assms
proof (induction bs arbitrary: p w lenTot t)
  case Nil
  then show ?case
    by (subst hc_dead_run.simps) (simp add: blocks_total_def hb_DataSize_def Let_def)
next
  case (Cons b bs)
  obtain v where b: "b = (p + 3 * unat (id_size w), v)" using Cons.prems(1) by (cases b) auto
  let ?q = "p + 3 * unat (id_size w)"
  have m: "m p = w" "m ?q = v" "id_size w \<noteq> 0" "heap_blocks m ?q ((?q, v) # bs) e"
    using Cons.prems(1) by (auto simp: b)
  have lt: "?q < e" using heap_blocks_end [OF m(4)] m(4) by (auto simp: blocks_total_def unat_gt_0)
  have len: "lenTot + ucast (id_size w) = of_nat (t + unat (id_size w))"
    using Cons.prems(2) by (simp add:)
  show ?case
  proof (cases "dead b")
    case True
    then have "hc_dead_run m e p lenTot = hc_dead_run m e ?q (lenTot + ucast (id_size w))"
      using lt m by (subst hc_dead_run.simps) (simp add: Let_def hb_DataSize_def b hb_IsAlive_bit)
    then show ?thesis using Cons.IH [OF m(4) len [symmetric]] True
      by (simp add: b blocks_total_def add.assoc)
  next
    case False
    then show ?thesis using lt m len
      by (subst hc_dead_run.simps)
        (simp add: Let_def hb_DataSize_def b hb_IsAlive_bit blocks_total_def)
  qed
qed

lemma ucast_blocks: "(ucast (of_nat n :: u32) :: u16) = of_nat n"
  by transfer (simp add: take_bit_of_nat)

lemma size_pos: "id_size w \<noteq> 0 \<Longrightarrow> 0 < unat (id_size w)"
  by (simp add: unat_gt_0)

definition link_words :: "nat list \<Rightarrow> nat set" where
  "link_words fs = (\<Union>f\<in>set fs. {f + 1, f + 2})"

lemma link_words_simps [simp]:
  "link_words [] = {}" "link_words (f # fs) = {f + 1, f + 2} \<union> link_words fs"
  by (auto simp: link_words_def)

lemma node_chain_cong:
  "node_chain m (x # xs) \<Longrightarrow> m' (x + 1) = m (x + 1) \<or> xs = [] \<Longrightarrow>
   (\<And>k. k \<in> link_words xs \<Longrightarrow> m' k = m k) \<Longrightarrow> node_chain m' (x # xs)"
proof (induction xs arbitrary: x)
  case (Cons y ys)
  have "node_chain m' (y # ys)" by (rule Cons.IH) (use Cons.prems in auto)
  moreover have "m' (y + 2) = m (y + 2)" "m' (x + 1) = m (x + 1)"
    using Cons.prems(2) Cons.prems(3) [of "y + 2"] by auto
  ultimately show ?case using Cons.prems(1) by (simp add: hb_Next_def hb_Prev_def)
qed simp

lemma heap_blocks_range:
  "heap_blocks m p bs e \<Longrightarrow> (a, w) \<in> set bs \<Longrightarrow> p \<le> a \<and> a + 3 * unat (id_size w) \<le> e \<and> a < e \<and> m a = w"
proof (induction bs arbitrary: p)
  case (Cons b bs)
  obtain v where b: "b = (p, v)" using Cons.prems(1) by (cases b) auto
  have m: "m p = v" "id_size v \<noteq> 0" "heap_blocks m (p + 3 * unat (id_size v)) bs e"
    using Cons.prems(1) by (auto simp: b)
  have "p + 3 * unat (id_size v) \<le> e" using heap_blocks_end [OF m(3)] by simp
  moreover have "p < p + 3 * unat (id_size v)" using size_pos [OF m(2)] by simp
  ultimately have "p < e" "p + 3 * unat (id_size v) \<le> e" by simp_all
  then show ?case using m(1) Cons.IH [OF m(3)] Cons.prems(2) by (auto simp: b)
qed simp

lemma freed_range: "f \<in> set (freed bs) \<Longrightarrow> f \<in> fst ` set bs"
  by (induction bs rule: freed.induct) (auto split: if_splits dest: set_dropWhileD)

lemma hb_ptr: "x < 2 ^ 32 \<Longrightarrow> unat (of_nat x :: u32) = x"
  by (simp add: unsigned_of_nat take_bit_nat_eq_self)

lemma takeWhile_total:
  "blocks_total (takeWhile P bs) + blocks_total (dropWhile P bs) = blocks_total bs"
  by (metis blocks_total_append takeWhile_dropWhile_id)

lemma recover_loop:
  assumes "heap_blocks m p bs e" "l + 2 < p" "e < 2 ^ 32" "blocks_total bs < 2 ^ 16"
  shows "\<exists>m'. hc_recover_loop m e p l = Some (m', last (l # freed bs)) \<and>
      heap_blocks m' p (recover_list bs) e \<and> node_chain m' (l # freed bs) \<and>
      (\<forall>k. k \<notin> fst ` set (recover_list bs) \<longrightarrow> k \<noteq> l + 1 \<longrightarrow> k \<notin> link_words (freed bs) \<longrightarrow> m' k = m k) \<and>
      (freed bs = [] \<longrightarrow> m' (l + 1) = m (l + 1))"
  using assms
proof (induction bs arbitrary: m p l rule: recover_list.induct)
  case 1
  then show ?case by (subst hc_recover_loop.simps) simp
next
  case (2 b bs)
  obtain w where b: "b = (p, w)" using "2.prems"(1) by (cases b) auto
  have w: "m p = w" "id_size w \<noteq> 0" "heap_blocks m (p + 3 * unat (id_size w)) bs e"
    using "2.prems"(1) by (auto simp: b)
  have pe: "p < e" using heap_blocks_end [OF w(3)] w(2) by (simp add: unat_gt_0)
  show ?case
  proof (cases "dead b")
    case True
    let ?run = "b # takeWhile dead bs" and ?rest = "dropWhile dead bs"
    let ?q = "p + 3 * blocks_total ?run" and ?t = "of_nat (blocks_total ?run) :: u32"
    define m3 where "m3 = hb_SetPrev (hb_SetNext (hb_SetDataId m p (FREE_ID ?t)) l p) p l"
    have run: "hc_dead_run m e p 0 = Some (?q, ?t)"
      using dead_run [of m p w bs e 0 0] "2.prems"(1) by (simp add: b)
    have rest: "heap_blocks m ?q ?rest e"
      using "2.prems"(1) heap_blocks_append [of m p ?run ?rest e] by simp
    have q: "p + 3 \<le> ?q" using size_pos [OF w(2)] by (simp add: b blocks_total_def)
    have qe: "?q \<le> e" using heap_blocks_end [OF rest] by simp
    have tot: "blocks_total ?run + blocks_total ?rest < 2 ^ 16"
      using "2.prems"(4) takeWhile_total [of dead bs] by (simp add: blocks_total_def)
    have upd: "m3 = m(p := FREE_ID ?t, l + 1 := of_nat p, p + 2 := of_nat l)"
      by (simp add: m3_def hb_SetDataId_def hb_SetNext_def hb_SetPrev_def)
    have rest3: "heap_blocks m3 ?q ?rest e"
      by (rule heap_blocks_cong [OF rest]) (use q "2.prems"(2) in \<open>auto simp: upd\<close>)
    have pq: "p + 2 < ?q" and tot2: "blocks_total ?rest < 2 ^ 16" using q tot by simp_all
    obtain m' where m': "hc_recover_loop m3 e ?q p = Some (m', last (p # freed ?rest))"
        "heap_blocks m' ?q (recover_list ?rest) e" "node_chain m' (p # freed ?rest)"
        "\<And>k. k \<notin> fst ` set (recover_list ?rest) \<Longrightarrow> k \<noteq> p + 1 \<Longrightarrow> k \<notin> link_words (freed ?rest) \<Longrightarrow> m' k = m3 k"
      using "2.IH"(1) [OF True rest3 pq "2.prems"(3) tot2] by blast
    have above: "?q \<le> f" if "f \<in> set (freed ?rest)" for f
      using heap_blocks_range [OF rest] freed_range [OF that] by force
    have above2: "?q \<le> f" if "f \<in> fst ` set (recover_list ?rest)" for f
      using heap_blocks_range [OF m'(2)] that by force
    have low: "m' k = m3 k" if "k < ?q" "k \<noteq> p + 1" for k
      using that above above2 by (intro m'(4)) (force simp: link_words_def)+
    have sz: "id_size (FREE_ID ?t) = of_nat (blocks_total ?run)"
      by (simp only: FREE_ID_fields ucast_blocks)
    have szn: "unat (id_size (FREE_ID ?t)) = blocks_total ?run" using tot by (simp add: sz unsigned_of_nat take_bit_nat_eq_self)
    have nz: "id_size (FREE_ID ?t) \<noteq> 0" using szn q by auto
    have "hc_recover_loop m e p l = hc_recover_loop m3 e ?q p"
      using pe run True w(1) unfolding m3_def
      by (subst hc_recover_loop.simps) (simp add: hb_IsAlive_bit b Let_def del: unsigned_of_nat)
    moreover have "heap_blocks m' p (recover_list (b # bs)) e"
      using True low [of p] q m'(2) szn nz "2.prems"(2) by (simp add: b upd)
    moreover have "node_chain m' (l # freed (b # bs))"
      using True m'(3) low [of "l + 1"] low [of "p + 2"] q "2.prems" pe
      by (simp add: b upd hb_Next_def hb_Prev_def hb_ptr)
    moreover have "m' k = m k" if "k \<notin> fst ` set (recover_list (b # bs))" "k \<noteq> l + 1"
        "k \<notin> link_words (freed (b # bs))" for k
      using that True m'(4) [of k] by (simp add: b upd)
    ultimately show ?thesis using True m'(1) by (simp add: b)
  next
    case False
    define v where "v = (if bit w 10 then w else clear_alive w)"
    have "(if \<not> hb_IsEvent m p then hb_MarkDead m p else m) = m(p := v)"
      by (auto simp: v_def hb_IsEvent_bit w(1) hb_MarkDead_def hb_ResetFlags_def clear_alive_def)
    moreover have sv: "id_size v = id_size w" by (simp add: v_def clear_alive_fields)
    ultimately have step: "hc_recover_loop m e p l = hc_recover_loop (m(p := v)) e (p + 3 * unat (id_size w)) l"
      using pe False w by (subst hc_recover_loop.simps) (simp add: hb_IsAlive_bit b Let_def hb_DataSize_def)
    have rest: "heap_blocks (m(p := v)) (p + 3 * unat (id_size w)) bs e"
      by (rule heap_blocks_cong [OF w(3)]) (use size_pos [OF w(2)] in auto)
    have tot: "blocks_total bs < 2 ^ 16" using "2.prems"(4) by (simp add: blocks_total_def)
    have low: "l + 2 < p + 3 * unat (id_size w)" using "2.prems"(2) by simp
    obtain m' where m': "hc_recover_loop (m(p := v)) e (p + 3 * unat (id_size w)) l = Some (m', last (l # freed bs))"
        "heap_blocks m' (p + 3 * unat (id_size w)) (recover_list bs) e" "node_chain m' (l # freed bs)"
        "\<And>k. k \<notin> fst ` set (recover_list bs) \<Longrightarrow> k \<noteq> l + 1 \<Longrightarrow> k \<notin> link_words (freed bs) \<Longrightarrow> m' k = (m(p := v)) k"
        "freed bs = [] \<Longrightarrow> m' (l + 1) = (m(p := v)) (l + 1)"
      using "2.IH"(2) [OF False rest low "2.prems"(3) tot] by blast
    have above: "p < f" if "f \<in> set (freed bs)" for f
      using heap_blocks_range [OF w(3)] freed_range [OF that] size_pos [OF w(2)] by force
    have above2: "p < f" if "f \<in> fst ` set (recover_list bs)" for f
      using heap_blocks_range [OF m'(2)] that size_pos [OF w(2)] by force
    have "m' p = v"
      using m'(4) [of p] "2.prems"(2) above above2 by (force simp: link_words_def)
    then show ?thesis using step m' False "2.prems"(2) w(2) sv
      by (auto simp: b v_def)
  qed
qed

section \<open>A cluster and its free list\<close>

text \<open>What holds of the header words and the ends of a cluster, before and after a collection.\<close>

definition cluster_mem :: "heap_mem \<Rightarrow> nat \<Rightarrow> (nat \<times> u32) list \<Rightarrow> bool" where
  "cluster_mem m hc bs \<longleftrightarrow>
     hc + 8 \<le> hc_payloadStart m hc \<and> heap_blocks m (hc_payloadStart m hc) bs (hc_payloadEnd m hc) \<and>
     blocks_total bs < 2 ^ 16 \<and> (\<forall>(a, w)\<in>set bs. id_type w = DATATYPE_FREEBLOCK \<longrightarrow> \<not> bit w 8)"

text \<open>The free list links the free blocks in the order of their addresses.\<close>

definition cluster_ok :: "heap_mem \<Rightarrow> nat \<Rightarrow> (nat \<times> u32) list \<Rightarrow> bool" where
  "cluster_ok m hc bs \<longleftrightarrow> cluster_mem m hc bs \<and> m (hc + 4) = 0 \<and>
     node_chain m (list_Head (hc_freeList hc) # free_list bs @ [list_Tail (hc_freeList hc)])"

lemma node_chain_append:
  "node_chain m (xs @ x # y # ys) \<longleftrightarrow>
     node_chain m (xs @ [x]) \<and> hb_Next m x = y \<and> hb_Prev m y = x \<and> node_chain m (y # ys)"
  by (induction m xs rule: node_chain.induct) (auto simp: neq_Nil_conv)

lemma node_chain_snoc:
  "node_chain m (xs @ [x, y]) \<longleftrightarrow> node_chain m (xs @ [x]) \<and> hb_Next m x = y \<and> hb_Prev m y = x"
  using node_chain_append [of m xs x y "[]"] by simp

lemma free_list_recover:
  "(\<forall>(a, w)\<in>set bs. id_type w = DATATYPE_FREEBLOCK \<longrightarrow> \<not> bit w 8) \<Longrightarrow> free_list (recover_list bs) = freed bs"
proof (induction bs rule: recover_list.induct)
  case (2 b bs)
  then show ?case
    by (auto simp: free_list_def FREE_ID_fields clear_alive_fields dest: set_dropWhileD split: prod.splits)
qed (simp add: free_list_def)

lemma recover_total:
  assumes "blocks_total bs < 2 ^ 16"
  shows "blocks_total (recover_list bs) = blocks_total bs"
  using assms
proof (induction bs rule: recover_list.induct)
  case (2 b bs)
  let ?run = "b # takeWhile dead bs"
  have tot: "blocks_total (b # bs) = blocks_total ?run + blocks_total (dropWhile dead bs)"
    using takeWhile_total [of dead bs] by (simp add: blocks_total_def)
  have "unat (id_size (FREE_ID (of_nat (blocks_total ?run)))) = blocks_total ?run"
    using 2(3) tot
    by (simp only: FREE_ID_fields ucast_blocks) (simp add: unsigned_of_nat take_bit_nat_eq_self)
  then show ?case using 2 tot by (simp add: blocks_total_def clear_alive_fields split: prod.splits)
qed (simp add: blocks_total_def)

lemma recover_block_ok:
  "(a, w) \<in> set (recover_list bs) \<Longrightarrow> (\<forall>(a, w)\<in>set bs. id_type w = DATATYPE_FREEBLOCK \<longrightarrow> \<not> bit w 8) \<Longrightarrow>
     id_type w = DATATYPE_FREEBLOCK \<Longrightarrow> \<not> bit w 8"
proof (induction bs rule: recover_list.induct)
  case (2 b bs)
  then show ?case
    by (auto simp: FREE_ID_fields clear_alive_fields split: if_splits dest: set_dropWhileD)
qed simp

lemma freed_bounds:
  assumes "heap_blocks m p bs e" "f \<in> set (freed bs)"
  shows "p \<le> f \<and> f + 3 \<le> e"
proof -
  obtain w where "(f, w) \<in> set bs" using freed_range [OF assms(2)] by auto
  moreover have "id_size w \<noteq> 0" if "(f, w) \<in> set bs" "heap_blocks m p bs e" for w p
    using that by (induction bs arbitrary: p) auto
  ultimately show ?thesis using heap_blocks_range [OF assms(1)] assms(1) size_pos [of w] by force
qed

lemma heap_blocks_disjoint:
  "heap_blocks m p bs e \<Longrightarrow> (a, w) \<in> set bs \<Longrightarrow> (b, v) \<in> set bs \<Longrightarrow> a < b \<Longrightarrow>
     a + 3 * unat (id_size w) \<le> b"
proof (induction bs arbitrary: p)
  case (Cons c bs)
  obtain x where c: "c = (p, x)" "m p = x" "heap_blocks m (p + 3 * unat (id_size x)) bs e"
    using Cons.prems(1) by (cases c) auto
  have "p + 3 * unat (id_size x) \<le> a'" if "(a', w') \<in> set bs" for a' w'
    using heap_blocks_range [OF c(3) that] by simp
  then show ?case using Cons.IH [OF c(3)] Cons.prems(2-) c(1) by fastforce
qed simp

lemma heap_blocks_size: "heap_blocks m p bs e \<Longrightarrow> (a, w) \<in> set bs \<Longrightarrow> 0 < unat (id_size w)"
  by (induction bs arbitrary: p) (auto dest: size_pos)

lemma inside_no_header:
  assumes "heap_blocks m p bs e" "(a, w) \<in> set bs" "0 < i" "i < 3 * unat (id_size w)"
  shows "a + i \<notin> fst ` set bs"
proof
  assume "a + i \<in> fst ` set bs"
  then obtain v where "(a + i, v) \<in> set bs" by auto
  then show False using heap_blocks_disjoint [OF assms(1,2)] assms(3,4) by fastforce
qed

lemma link_words_no_header:
  assumes "heap_blocks m p bs e" "set fs \<subseteq> fst ` set bs" "k \<in> link_words fs"
  shows "k \<notin> fst ` set bs"
proof -
  obtain f w where f: "(f, w) \<in> set bs" "k = f + 1 \<or> k = f + 2" 
    using assms(2,3) by (force simp: link_words_def)
  show ?thesis
    using inside_no_header [OF assms(1) f(1), of 1] inside_no_header [OF assms(1) f(1), of 2]
      heap_blocks_size [OF assms(1) f(1)] f(2) by (cases "k = f + 1") simp_all
qed

lemma node_chain_frame:
  "node_chain m xs \<Longrightarrow> (\<And>x. x \<in> set (butlast xs) \<Longrightarrow> m' (x + 1) = m (x + 1)) \<Longrightarrow>
   (\<And>x. x \<in> set (tl xs) \<Longrightarrow> m' (x + 2) = m (x + 2)) \<Longrightarrow> node_chain m' xs"
proof (induction m xs rule: node_chain.induct)
  case (1 m x y zs)
  have "node_chain m' (y # zs)" using 1 by (intro 1(1)) auto
  then show ?case using 1(2) 1(3) [of x] 1(4) [of y] by (simp add: hb_Next_def hb_Prev_def)
qed simp_all

lemma heap_blocks_sorted: "heap_blocks m p bs e \<Longrightarrow> sorted_wrt (<) (map fst bs)"
proof (induction bs arbitrary: p)
  case (Cons c bs)
  obtain x where c: "c = (p, x)" "id_size x \<noteq> 0" "heap_blocks m (p + 3 * unat (id_size x)) bs e"
    using Cons.prems by (cases c) auto
  have "p < a" if "(a, w) \<in> set bs" for a w
    using heap_blocks_range [OF c(3) that] size_pos [OF c(2)] by simp
  then show ?case using Cons.IH [OF c(3)] by (auto simp: c(1))
qed simp

lemma free_list_sorted:
  assumes "heap_blocks m p bs e"
  shows "sorted_wrt (<) (free_list bs)"
proof -
  have "sorted_wrt (<) (map fst (filter P bs))" for P
    using heap_blocks_sorted [OF assms] by (induction bs) auto
  then show ?thesis by (simp add: free_list_def)
qed

lemma sorted_less_butlast:
  fixes xs :: "nat list"
  shows "sorted_wrt (<) xs \<Longrightarrow> x \<in> set (butlast xs) \<Longrightarrow> x < last xs"
  by (induction xs) (auto split: if_splits)

lemma free_list_subset: "set (free_list bs) \<subseteq> fst ` set bs"
  by (auto simp: free_list_def)

text \<open>
  \<open>RecoverFromGC\<close>: whatever the free list was before, the blocks that are alive stay with their
  data, the others are merged and linked in order of address.
\<close>

lemma RecoverFromGC_ok:
  assumes "cluster_mem m hc bs"
  shows "\<exists>m'. RecoverFromGC m hc = Some m' \<and> cluster_ok m' hc (recover_list bs) \<and>
    (\<forall>k. k \<notin> {hc + 3, hc + 4, hc + 5} \<longrightarrow> k \<notin> fst ` set (recover_list bs) \<longrightarrow> k \<notin> link_words (freed bs) \<longrightarrow> m' k = m k)"
proof -
  let ?s = "hc_payloadStart m hc" and ?e = "hc_payloadEnd m hc" and ?H = "hc + 2" and ?T = "hc + 3"
  let ?m0 = "m(hc + 4 := 0)"
  have s: "hc + 8 \<le> ?s" "heap_blocks m ?s bs ?e" "blocks_total bs < 2 ^ 16"
    and free: "\<forall>(a, w)\<in>set bs. id_type w = DATATYPE_FREEBLOCK \<longrightarrow> \<not> bit w 8"
    using assms by (auto simp: cluster_mem_def)
  have e32: "?e < 2 ^ 32" unfolding hc_payloadEnd_def using unsigned_less [of "m (hc + 7)"] by simp
  have se: "?s \<le> ?e" using heap_blocks_end [OF s(2)] by simp
  have b0: "heap_blocks ?m0 ?s bs ?e" by (rule heap_blocks_cong [OF s(2)]) (use s(1) in auto)
  obtain m1 where m1: "hc_recover_loop ?m0 ?e ?s ?H = Some (m1, last (?H # freed bs))"
      "heap_blocks m1 ?s (recover_list bs) ?e" "node_chain m1 (?H # freed bs)"
      "\<And>k. k \<notin> fst ` set (recover_list bs) \<Longrightarrow> k \<noteq> ?H + 1 \<Longrightarrow> k \<notin> link_words (freed bs) \<Longrightarrow> m1 k = ?m0 k"
    using recover_loop [OF b0, of ?H] s e32 by (auto simp del: last.simps)
  let ?l = "last (?H # freed bs)"
  define m2 where "m2 = m1(?l + 1 := of_nat ?T, hc + 5 := of_nat ?l, hc + 4 := 0)"
  have lrange: "?l = ?H \<or> ?s \<le> ?l \<and> ?l + 3 \<le> ?e"
    using freed_bounds [OF s(2)] last_in_set [of "freed bs"] by auto
  have res: "RecoverFromGC m hc = Some m2"
    using m1(1) by (simp add: RecoverFromGC_def list_Head_def list_Tail_def hc_freeList_def
        hb_SetPrev_def hb_SetNext_def m2_def Let_def numeral_eq_Suc del: last.simps)
  have ids: "hc + 8 \<le> k" if "k \<in> fst ` set (recover_list bs)" for k
    using heap_blocks_range [OF m1(2)] that s(1) by force
  have lw: "hc + 8 < k" if "k \<in> link_words (freed bs)" for k
    using freed_bounds [OF s(2)] that s(1) by (force simp: link_words_def)
  have low: "m1 k = ?m0 k" if "k < hc + 8" "k \<noteq> hc + 3" for k
    using that ids lw by (intro m1(4)) force+
  have ends: "hc_payloadStart m2 hc = ?s" "hc_payloadEnd m2 hc = ?e"
    using low [of "hc + 6"] low [of "hc + 7"] lrange s(1)
    by (auto simp: hc_payloadStart_def hc_payloadEnd_def m2_def)
  have frees: "free_list (recover_list bs) = freed bs" by (rule free_list_recover [OF free])
  have lhead: "?l + 1 = hc + 3 \<or> ?l + 1 \<in> link_words (freed bs)"
    using last_in_set [of "freed bs"] by (auto simp: link_words_def)
  have notid: "k \<notin> fst ` set (recover_list bs)" if "k \<in> link_words (freed bs)" for k
    using link_words_no_header [OF m1(2) _ that] free_list_subset frees by metis
  have blocks: "heap_blocks m2 ?s (recover_list bs) ?e"
  proof -
    have "m2 a = w" if "(a, w) \<in> set (recover_list bs)" for a w
      using that heap_blocks_range [OF m1(2) that] ids [of a] notid lhead s(1) by (force simp: m2_def)
    moreover have "heap_blocks m' p bs' e'" if "heap_blocks m p bs' e'" "\<And>a w. (a, w) \<in> set bs' \<Longrightarrow> m' a = w"
      for m m' p bs' e' using that by (induction m p bs' e' rule: heap_blocks.induct) auto
    ultimately show ?thesis using m1(2) by blast
  qed
  have chain: "node_chain m2 (?H # freed bs @ [?T])"
  proof -
    have l: "?H # freed bs = butlast (?H # freed bs) @ [?l]" by (simp del: last.simps butlast.simps)
    have below: "x < ?l" if "x \<in> set (butlast (?H # freed bs))" for x
    proof (rule sorted_less_butlast [OF _ that])
      show "sorted_wrt (<) (?H # freed bs)"
        using free_list_sorted [OF m1(2)] frees freed_bounds [OF s(2)] s(1) by fastforce
    qed
    have "node_chain m2 (?H # freed bs)"
    proof (rule node_chain_frame [OF m1(3)])
      fix x assume x: "x \<in> set (butlast (?H # freed bs))"
      then have "x = ?H \<or> hc + 8 \<le> x"
        using freed_bounds [OF s(2)] s(1) in_set_butlastD by (fastforce split: if_splits)
      then show "m2 (x + 1) = m1 (x + 1)" using below [OF x] by (auto simp: m2_def simp del: last.simps)
    next
      fix x assume x: "x \<in> set (tl (?H # freed bs))"
      then have xw: "x + 1 \<in> link_words (freed bs)" "hc + 8 \<le> x"
        using freed_bounds [OF s(2)] s(1) by (force simp: link_words_def)+
      have "freed bs \<noteq> []" using x by auto
      then have "?l \<in> fst ` set (recover_list bs)"
        using last_in_set [of "freed bs"] free_list_subset [of "recover_list bs"] frees by auto
      then have "?l \<noteq> x + 1" using notid [OF xw(1)] by metis
      then show "m2 (x + 2) = m1 (x + 2)" using xw(2) by (auto simp: m2_def simp del: last.simps)
    qed
    then have "node_chain m2 (butlast (?H # freed bs) @ [?l])" using l by metis
    moreover have "hb_Next m2 ?l = ?T" "hb_Prev m2 ?T = ?l"
    proof -
      have "m2 (?l + 1) = of_nat ?T" "m2 (?T + 2) = of_nat ?l"
        using lrange s(1) by (auto simp: m2_def simp del: last.simps)
      moreover have "?T < 2 ^ 32" "?l < 2 ^ 32" using lrange s(1) e32 se by auto
      ultimately show "hb_Next m2 ?l = ?T" "hb_Prev m2 ?T = ?l" unfolding hb_Next_def hb_Prev_def by (metis hb_ptr)+
    qed
    ultimately show ?thesis using node_chain_snoc [of m2 "butlast (?H # freed bs)" ?l ?T] l
      by (metis append.assoc append_Cons append_Nil)
  qed
  have "cluster_ok m2 hc (recover_list bs)"
  proof -
    have "cluster_mem m2 hc (recover_list bs)"
      unfolding cluster_mem_def ends recover_total [OF s(3)] using s(1,3) blocks recover_block_ok [OF _ free] by blast
    moreover have "m2 (hc + 4) = 0" using lrange s(1) by (simp add: m2_def del: last.simps)
    ultimately show ?thesis using chain
      by (simp add: cluster_ok_def frees list_Head_def list_Tail_def hc_freeList_def numeral_eq_Suc)
  qed
  moreover have "m2 k = m k" if "k \<notin> {hc + 3, hc + 4, hc + 5}" "k \<notin> fst ` set (recover_list bs)"
      "k \<notin> link_words (freed bs)" for k
    using that m1(4) [of k] lhead by (auto simp: m2_def)
  ultimately show ?thesis using res by blast
qed

section \<open>Allocation\<close>

definition fits :: "heap_mem \<Rightarrow> u32 \<Rightarrow> nat \<Rightarrow> bool" where
  "fits m len f \<longleftrightarrow> len \<le> ucast (hb_DataSize m f)"

definition found :: "nat option \<Rightarrow> nat" where
  "found r = (case r of None \<Rightarrow> 0 | Some f \<Rightarrow> f)"

lemma find_first:
  "node_chain m (fs @ [t]) \<Longrightarrow> hb_Next m t = 0 \<Longrightarrow> t \<noteq> 0 \<Longrightarrow> 0 \<notin> set fs \<Longrightarrow>
     hc_find_first m (hd (fs @ [t])) len = Some (found (List.find (fits m len) fs))"
proof (induction fs)
  case Nil
  then show ?case by (subst hc_find_first.simps) (simp add: found_def)
next
  case (Cons f fs)
  have "hb_Next m f = hd (fs @ [t])" "node_chain m (fs @ [t])"
    using Cons.prems(1) by (cases fs; simp)+
  moreover have "hd (fs @ [t]) \<noteq> 0" using Cons.prems(3,4) by (cases fs) auto
  ultimately show ?case
    using Cons by (subst hc_find_first.simps) (simp add: found_def fits_def [of m len f] Let_def)
qed

lemma find_last:
  "node_chain m (h # fs) \<Longrightarrow> hb_Prev m h = 0 \<Longrightarrow> h \<noteq> 0 \<Longrightarrow> 0 \<notin> set fs \<Longrightarrow>
     hc_find_last m (last (h # fs)) len = Some (found (List.find (fits m len) (rev fs)))"
proof (induction fs rule: rev_induct)
  case Nil
  then show ?case by (subst hc_find_last.simps) (simp add: found_def)
next
  case (snoc f fs)
  have l: "h # fs = butlast (h # fs) @ [last (h # fs)]" by (simp del: last.simps butlast.simps)
  then have "hb_Prev m f = last (h # fs)" "node_chain m (h # fs)"
    using snoc.prems(1) node_chain_snoc [of m "butlast (h # fs)" "last (h # fs)" f]
    by (metis append.assoc append_Cons append_Nil)+
  moreover have last_f: "last (h # fs @ [f]) = f" by simp
  moreover have "last (h # fs) \<noteq> 0" using snoc.prems(3,4) by (cases fs rule: rev_cases) auto
  ultimately show ?case
    using snoc by (subst hc_find_last.simps) (simp add: found_def fits_def [of m len f] Let_def last_f del: last.simps)
qed

lemma node_chain_split:
  assumes "xs \<noteq> []" "ys \<noteq> []"
  shows "node_chain m (xs @ ys) \<longleftrightarrow>
    node_chain m xs \<and> hb_Next m (last xs) = hd ys \<and> hb_Prev m (hd ys) = last xs \<and> node_chain m ys"
  using node_chain_append [of m "butlast xs" "last xs" "hd ys" "tl ys"] append_butlast_last_id [OF assms(1)] assms(2)
  by (metis append.assoc append_Cons append_Nil list.collapse)

text \<open>Putting a node in the place of another, and taking one out.\<close>

lemma node_chain_replace:
  assumes "node_chain m (xs @ b # ys)" "xs \<noteq> []" "ys \<noteq> []"
    and "\<And>x. x \<in> set (butlast xs) \<union> set (butlast ys) \<Longrightarrow> m' (x + 1) = m (x + 1)"
    and "\<And>x. x \<in> set (tl xs) \<union> set (tl ys) \<Longrightarrow> m' (x + 2) = m (x + 2)"
    and "hb_Next m' (last xs) = c" "hb_Prev m' c = last xs" "hb_Next m' c = hd ys" "hb_Prev m' (hd ys) = c"
  shows "node_chain m' (xs @ c # ys)"
proof -
  have "node_chain m xs" "node_chain m ys"
    using assms(1) node_chain_split [OF assms(2), of "b # ys" m] node_chain_split [of "[b]" ys m] assms(3) by auto
  then have "node_chain m' xs" "node_chain m' ys" using node_chain_frame assms(4,5) by auto
  then show ?thesis
    using node_chain_split [OF assms(2), of "c # ys" m'] node_chain_split [of "[c]" ys m'] assms(3,6-) by simp
qed

lemma node_chain_drop:
  assumes "node_chain m (xs @ b # ys)" "xs \<noteq> []" "ys \<noteq> []"
    and "\<And>x. x \<in> set (butlast xs) \<union> set (butlast ys) \<Longrightarrow> m' (x + 1) = m (x + 1)"
    and "\<And>x. x \<in> set (tl xs) \<union> set (tl ys) \<Longrightarrow> m' (x + 2) = m (x + 2)"
    and "hb_Next m' (last xs) = hd ys" "hb_Prev m' (hd ys) = last xs"
  shows "node_chain m' (xs @ ys)"
proof -
  have "node_chain m xs" "node_chain m ys"
    using assms(1) node_chain_split [OF assms(2), of "b # ys" m] node_chain_split [of "[b]" ys m] assms(3) by auto
  then have "node_chain m' xs" "node_chain m' ys" using node_chain_frame assms(4,5) by auto
  then show ?thesis using node_chain_split [OF assms(2,3), of m'] assms(6-) by simp
qed

lemma free_list_append: "free_list (bs @ cs) = free_list bs @ free_list cs"
  by (simp add: free_list_def)

lemma heap_blocks_at: "heap_blocks m p bs e \<Longrightarrow> (a, w) \<in> set bs \<Longrightarrow> m a = w"
  using heap_blocks_range by blast

text \<open>A block of a well-formed cluster, seen from its free list.\<close>

lemma cluster_node:
  assumes "cluster_ok m hc bs" "(b, w) \<in> set bs"
  shows "hc + 8 \<le> b" "b + 3 * unat (id_size w) < 2 ^ 32"
    "x \<in> set (free_list bs) \<Longrightarrow> hc + 8 \<le> x \<and> x < 2 ^ 32 \<and> (x = b \<or> x + 3 \<le> b \<or> b + 3 * unat (id_size w) \<le> x)"
proof -
  have bl: "heap_blocks m (hc_payloadStart m hc) bs (hc_payloadEnd m hc)" "hc + 8 \<le> hc_payloadStart m hc"
    using assms(1) by (auto simp: cluster_ok_def cluster_mem_def)
  have e: "hc_payloadEnd m hc < 2 ^ 32" unfolding hc_payloadEnd_def using unsigned_less [of "m (hc + 7)"] by simp
  show "hc + 8 \<le> b" "b + 3 * unat (id_size w) < 2 ^ 32"
    using heap_blocks_range [OF bl(1) assms(2)] bl(2) e by auto
  assume "x \<in> set (free_list bs)"
  then obtain v where v: "(x, v) \<in> set bs" using free_list_subset by fastforce
  have "x < b \<Longrightarrow> x + 3 * unat (id_size v) \<le> b" "b < x \<Longrightarrow> b + 3 * unat (id_size w) \<le> x"
    using heap_blocks_disjoint [OF bl(1) v assms(2)] heap_blocks_disjoint [OF bl(1) assms(2) v] by simp_all
  then show "hc + 8 \<le> x \<and> x < 2 ^ 32 \<and> (x = b \<or> x + 3 \<le> b \<or> b + 3 * unat (id_size w) \<le> x)"
    using heap_blocks_range [OF bl(1) v] heap_blocks_size [OF bl(1) v] bl(2) e by (cases x b rule: linorder_cases) auto
qed

text \<open>
  What an allocation makes of the free block \<open>(b, w)\<close> it takes: event blocks are cut from its end, the
  others from its start.
\<close>

definition placed :: "bool \<Rightarrow> nat \<Rightarrow> u32 \<Rightarrow> u32 \<Rightarrow> nat \<Rightarrow> (nat \<times> u32) list" where
  "placed ev b w raw len =
     (let avail = unat (id_size w) - len
      in if avail = 0 then [(b, raw)]
         else if ev then [(b, FREE_ID (of_nat avail)), (b + 3 * avail, raw)]
         else [(b, raw), (b + 3 * len, FREE_ID (of_nat avail))])"

definition placed_at :: "bool \<Rightarrow> nat \<Rightarrow> u32 \<Rightarrow> nat \<Rightarrow> nat" where
  "placed_at ev b w len = (if ev then b + 3 * (unat (id_size w) - len) else b)"

definition fitting :: "u32 \<Rightarrow> nat \<times> u32 \<Rightarrow> bool" where
  "fitting len = (\<lambda>(a, w). id_type w = DATATYPE_FREEBLOCK \<and> unat len \<le> unat (id_size w))"

text \<open>First fit from the front for objects, from the back for event blocks.\<close>

definition pick_block :: "bool \<Rightarrow> u32 \<Rightarrow> (nat \<times> u32) list \<Rightarrow> (nat \<times> u32) option" where
  "pick_block ev len bs = List.find (fitting len) (if ev then rev bs else bs)"

lemma size_bound: "unat (id_size w) < 2 ^ 16"
proof -
  have "unat (id_size w) < 2 ^ LENGTH(16)" by (rule unsigned_less)
  then show ?thesis by simp
qed

lemma find_free_list:
  "(\<And>a w. (a, w) \<in> set bs \<Longrightarrow> m a = w) \<Longrightarrow>
     List.find (fits m len) (free_list bs) = map_option fst (List.find (fitting len) bs)"
proof (induction bs)
  case (Cons b bs)
  obtain a w where b: "b = (a, w)" by (cases b)
  have "m a = w" using Cons.prems by (simp add: b)
  moreover have "len \<le> ucast (id_size w) \<longleftrightarrow> unat len \<le> unat (id_size w)"
  proof -
    have "unat (ucast (id_size w) :: u32) = unat (id_size w)"
      using size_bound [of w] by (simp add: unsigned_ucast_eq take_bit_nat_eq_self)
    then show ?thesis by (simp add: word_le_nat_alt)
  qed
  ultimately show ?case using Cons
    by (auto simp: b free_list_def fits_def fitting_def hb_DataSize_def)
qed (simp add: free_list_def)

lemma free_list_rev: "rev (free_list bs) = free_list (rev bs)"
  by (simp add: free_list_def rev_map rev_filter)

lemma extract_search:
  assumes "cluster_ok m hc bs"
  shows "(if is_event_request flags then hc_find_last m (list_LastNode m (hc_freeList hc)) len
          else hc_find_first m (list_FirstNode m (hc_freeList hc)) len) =
    Some (found (map_option fst (pick_block (is_event_request flags) len bs)))"
proof -
  let ?H = "hc + 2" and ?T = "hc + 3" and ?fs = "free_list bs"
  have ch: "node_chain m (?H # ?fs @ [?T])" and null: "m (hc + 4) = 0"
    using assms by (auto simp: cluster_ok_def list_Head_def list_Tail_def hc_freeList_def numeral_eq_Suc)
  have bl: "heap_blocks m (hc_payloadStart m hc) bs (hc_payloadEnd m hc)" "hc + 8 \<le> hc_payloadStart m hc"
    using assms by (auto simp: cluster_ok_def cluster_mem_def)
  have at: "m a = w" if "(a, w) \<in> set bs" for a w using heap_blocks_at [OF bl(1) that] .
  have nz: "0 \<notin> set ?fs" using free_list_subset [of bs] heap_blocks_range [OF bl(1)] bl(2) by fastforce
  have links: "hb_Next m ?T = 0" "hb_Prev m ?H = 0" using null by (simp_all add: hb_Next_def hb_Prev_def numeral_eq_Suc)
  have "node_chain m (?fs @ [?T])" "node_chain m (?H # ?fs)"
    "hb_Next m ?H = hd (?fs @ [?T])" "hb_Prev m ?T = last (?H # ?fs)"
    using ch node_chain_split [of "[?H]" "?fs @ [?T]" m] node_chain_split [of "?H # ?fs" "[?T]" m]
    by (simp_all del: last.simps add: last_ConsL)
  moreover have "list_FirstNode m (hc_freeList hc) = hb_Next m ?H" "list_LastNode m (hc_freeList hc) = hb_Prev m ?T"
    by (simp_all add: list_FirstNode_def list_LastNode_def hc_freeList_def hb_Next_def hb_Prev_def numeral_eq_Suc)
  ultimately have "hc_find_first m (list_FirstNode m (hc_freeList hc)) len = Some (found (List.find (fits m len) ?fs))"
    "hc_find_last m (list_LastNode m (hc_freeList hc)) len = Some (found (List.find (fits m len) (rev ?fs)))"
    using find_first [of m ?fs ?T len] find_last [of m ?H ?fs len] links nz by simp_all
  then show ?thesis
    using find_free_list [of bs m len] find_free_list [of "rev bs" m len] at
    by (simp add: pick_block_def free_list_rev)
qed

lemma zero_outside:
  "k \<le> a \<or> a + 3 * n \<le> k \<Longrightarrow> unat (hb_DataSize m a) = n \<Longrightarrow>
     (if z then hb_InitializeToZero m a else m) k = m k"
  by (auto simp: hb_InitializeToZero_def)

text \<open>A free block between its neighbours in the list.\<close>

lemma extract_facts:
  assumes ok: "cluster_ok m hc (bs1 @ (b, w) # bs2)" and free: "id_type w = DATATYPE_FREEBLOCK"
  defines "xs \<equiv> (hc + 2) # free_list bs1" and "ys \<equiv> free_list bs2 @ [hc + 3]"
  shows "node_chain m (xs @ b # ys)" "hb_Prev m b = last xs" "hb_Next m b = hd ys"
    "x \<in> set (free_list bs1 @ free_list bs2) \<Longrightarrow>
       hc + 8 \<le> x \<and> x < 2 ^ 32 \<and> (x + 3 \<le> b \<or> b + 3 * unat (id_size w) \<le> x)"
    "x \<in> set (free_list bs1 @ free_list bs2) \<Longrightarrow> y \<in> set (free_list bs1 @ free_list bs2) \<Longrightarrow>
       x = y \<or> x + 3 \<le> y \<or> y + 3 \<le> x"
    "distinct (free_list bs1 @ b # free_list bs2)"
proof -
  let ?fs1 = "free_list bs1" and ?fs2 = "free_list bs2"
  let ?bs = "bs1 @ (b, w) # bs2"
  have fl: "free_list ?bs = ?fs1 @ b # ?fs2" using free by (simp add: free_list_def)
  show chain: "node_chain m (xs @ b # ys)"
    using ok fl by (simp add: cluster_ok_def list_Head_def list_Tail_def hc_freeList_def numeral_eq_Suc xs_def ys_def)
  show "hb_Prev m b = last xs" "hb_Next m b = hd ys"
    using chain node_chain_split [of xs "b # ys" m] node_chain_split [of "[b]" ys m]
    by (simp_all add: xs_def ys_def del: last.simps add: last_ConsL)
  have bl: "heap_blocks m (hc_payloadStart m hc) ?bs (hc_payloadEnd m hc)"
    using ok by (simp add: cluster_ok_def cluster_mem_def)
  have srt: "sorted_wrt (<) (?fs1 @ b # ?fs2)" using free_list_sorted [OF bl] fl by simp
  then show dist: "distinct (?fs1 @ b # ?fs2)" by (simp add: strict_sorted_iff)
  show "hc + 8 \<le> x \<and> x < 2 ^ 32 \<and> (x + 3 \<le> b \<or> b + 3 * unat (id_size w) \<le> x)"
    if "x \<in> set (?fs1 @ ?fs2)" for x
    using cluster_node(3) [OF ok, of b w x] that fl dist by auto
  show "x = y \<or> x + 3 \<le> y \<or> y + 3 \<le> x" if xy: "x \<in> set (?fs1 @ ?fs2)" "y \<in> set (?fs1 @ ?fs2)" for x y
  proof -
    obtain v where "(y, v) \<in> set ?bs" using xy(2) free_list_subset [of bs1] free_list_subset [of bs2] by fastforce
    then show ?thesis
      using cluster_node(3) [OF ok, of y v x] heap_blocks_size [OF bl, of y v] xy(1) fl by fastforce
  qed
qed

lemma ends_in:
  fixes hc :: nat
  shows "last ((hc + 2) # fs) = hc + 2 \<or> last ((hc + 2) # fs) \<in> set fs"
    "hd (fs @ [hc + 3]) = hc + 3 \<or> hd (fs @ [hc + 3]) \<in> set fs"
  by (cases fs; simp)+

lemma distinct_ends:
  "distinct xs \<Longrightarrow> x \<in> set (butlast xs) \<Longrightarrow> x \<noteq> last xs" "distinct ys \<Longrightarrow> y \<in> set (tl ys) \<Longrightarrow> y \<noteq> hd ys"
  by (induction xs) (auto, cases ys, auto)

text \<open>No two nodes of the list share a word, but for the head and the tail.\<close>

lemma node_apart:
  assumes "cluster_ok m hc (bs1 @ (b, w) # bs2)" "id_type w = DATATYPE_FREEBLOCK"
    "x \<in> {hc + 2, hc + 3} \<union> set (free_list bs1 @ free_list bs2)"
    "y \<in> {hc + 2, hc + 3} \<union> set (free_list bs1 @ free_list bs2)" "x = y + 1"
  shows "x = hc + 3 \<and> y = hc + 2"
  using assms(3-) extract_facts(4) [OF assms(1,2), of x] extract_facts(4) [OF assms(1,2), of y]
    extract_facts(5) [OF assms(1,2), of x y] by auto

lemma extract_frame:
  assumes ok: "cluster_ok m hc (bs1 @ (b, w) # bs2)" and free: "id_type w = DATATYPE_FREEBLOCK"
  defines "xs \<equiv> (hc + 2) # free_list bs1" and "ys \<equiv> free_list bs2 @ [hc + 3]"
  assumes same: "\<And>k. k \<noteq> last xs + 1 \<Longrightarrow> k \<noteq> hd ys + 2 \<Longrightarrow> k < b \<or> b + 3 * unat (id_size w) \<le> k \<Longrightarrow> m' k = m k"
  shows "x \<in> set (butlast xs) \<union> set (butlast ys) \<Longrightarrow> m' (x + 1) = m (x + 1)"
    "x \<in> set (tl xs) \<union> set (tl ys) \<Longrightarrow> m' (x + 2) = m (x + 2)"
    "b \<noteq> 0 \<and> xs \<noteq> [] \<and> ys \<noteq> []" "last xs < 2 ^ 32" "hd ys < 2 ^ 32"
    "last xs + 1 < b \<or> b + 3 * unat (id_size w) \<le> last xs + 1" "last xs + 1 \<noteq> hd ys + 2"
    "hd ys + 2 < b \<or> b + 3 * unat (id_size w) \<le> hd ys + 2"
proof -
  let ?fs = "free_list bs1 @ free_list bs2"
  note F = extract_facts [OF ok free] and A = node_apart [OF ok free]
  have lin: "last xs = hc + 2 \<or> last xs \<in> set (free_list bs1)" "hd ys = hc + 3 \<or> hd ys \<in> set (free_list bs2)"
    using ends_in [where hc = hc] by (simp_all add: xs_def ys_def del: last.simps)
  have pos: "hc + 8 \<le> b" "b < 2 ^ 32" using cluster_node(1,2) [OF ok, of b w] by simp_all
  have dist: "distinct xs" "distinct ys" "set xs \<inter> set ys = {}"
    using F(6) F(4) [of "hc + 2"] F(4) [of "hc + 3"] by (auto simp: xs_def ys_def)
  have ne: "xs \<noteq> []" "ys \<noteq> []" by (simp_all add: xs_def ys_def)
  have bl: "x \<in> insert (hc + 2) (set ?fs)" if "x \<in> set (butlast xs) \<union> set (butlast ys)"
  proof -
    have "set (butlast xs) \<subseteq> set xs" "set (butlast ys) = set (free_list bs2)"
      by (auto simp: ys_def dest: in_set_butlastD)
    then show ?thesis using that by (auto simp: xs_def simp del: butlast.simps)
  qed
  have tl: "x \<in> insert (hc + 3) (set ?fs)" if "x \<in> set (tl xs) \<union> set (tl ys)"
  proof -
    have "set (tl ys) \<subseteq> set ys" by (cases ys) auto
    then show ?thesis using that by (auto simp: xs_def ys_def)
  qed
  have out: "x + i < b \<or> b + 3 * unat (id_size w) \<le> x + i" if "x \<in> {hc + 2, hc + 3} \<union> set ?fs" "i < 3" for x i
    using that F(4) [of x] pos by auto
  show "b \<noteq> 0 \<and> xs \<noteq> [] \<and> ys \<noteq> []" "last xs < 2 ^ 32" "hd ys < 2 ^ 32"
    "last xs + 1 < b \<or> b + 3 * unat (id_size w) \<le> last xs + 1"
    "hd ys + 2 < b \<or> b + 3 * unat (id_size w) \<le> hd ys + 2"
    using lin pos F(4) [of "last xs"] F(4) [of "hd ys"] out [of "last xs" 1] out [of "hd ys" 2]
    by (auto simp: xs_def ys_def simp del: last.simps)
  show "last xs + 1 \<noteq> hd ys + 2"
    using A [of "last xs" "hd ys"] lin F(4) [of "last xs"] by auto
  show "m' (x + 1) = m (x + 1)" if x: "x \<in> set (butlast xs) \<union> set (butlast ys)"
  proof (rule same)
    have "x \<noteq> last xs"
      using x distinct_ends(1) [OF dist(1), of x] dist(3) last_in_set [OF ne(1)] in_set_butlastD [of x ys] by blast
    then show "x + 1 \<noteq> last xs + 1" by simp
    show "x + 1 \<noteq> hd ys + 2" using A [of x "hd ys"] bl [OF x] lin F(4) [of "hd ys"] by auto
    show "x + 1 < b \<or> b + 3 * unat (id_size w) \<le> x + 1" using out [of x 1] bl [OF x] by auto
  qed
  show "m' (x + 2) = m (x + 2)" if x: "x \<in> set (tl xs) \<union> set (tl ys)"
  proof (rule same)
    have "x \<noteq> hd ys"
      using x distinct_ends(2) [OF dist(2), of x] dist(3) hd_in_set [OF ne(2)] list.set_sel(2) [OF ne(1), of x]
      by (metis IntI UnE empty_iff)
    then show "x + 2 \<noteq> hd ys + 2" by simp
    show "x + 2 \<noteq> last xs + 1"
    proof
      assume "x + 2 = last xs + 1"
      then have "last xs = x + 1" by simp
      moreover have "last xs \<in> {hc + 2, hc + 3} \<union> set ?fs" "x \<in> {hc + 2, hc + 3} \<union> set ?fs"
        using lin(1) tl [OF x] by auto
      ultimately have "last xs = hc + 3" using A by blast
      then show False using lin(1) F(4) [of "hc + 3"] by auto
    qed
    show "x + 2 < b \<or> b + 3 * unat (id_size w) \<le> x + 2" using out [of x 2] tl [OF x] by auto
  qed
qed

lemma u16_u32: "unat (ucast (id_size w) :: u32) = unat (id_size w)"
  using size_bound [of w] by (simp add: unsigned_ucast_eq take_bit_nat_eq_self)

lemma size_minus:
  assumes "unat len \<le> unat (id_size w)"
  shows "ucast (id_size w) - len = (of_nat (unat (id_size w) - unat len) :: u32)"
    "(of_nat (unat (id_size w) - unat len) :: u32) = 0 \<longleftrightarrow> unat (id_size w) = unat len"
    "unat (of_nat (unat (id_size w) - unat len) :: u32) = unat (id_size w) - unat len"
proof -
  have le: "len \<le> ucast (id_size w)" using assms by (simp add: word_le_nat_alt u16_u32)
  show *: "ucast (id_size w) - len = (of_nat (unat (id_size w) - unat len) :: u32)"
    by (rule word_unat_eq_iff [THEN iffD2])
      (use le size_bound [of w] in \<open>simp add: unat_sub u16_u32 unsigned_of_nat take_bit_nat_eq_self\<close>)
  show **: "unat (of_nat (unat (id_size w) - unat len) :: u32) = unat (id_size w) - unat len"
    using size_bound [of w] by (simp add: unsigned_of_nat take_bit_nat_eq_self)
  show "(of_nat (unat (id_size w) - unat len) :: u32) = 0 \<longleftrightarrow> unat (id_size w) = unat len"
    unfolding word_unat_eq_iff ** using assms by auto
qed

lemma pick_block_Some:
  assumes "pick_block ev len bs = Some (b, w)"
  shows "(b, w) \<in> set bs" "id_type w = DATATYPE_FREEBLOCK" "unat len \<le> unat (id_size w)"
proof -
  have "fitting len (b, w) \<and> (b, w) \<in> set bs"
    using assms unfolding pick_block_def find_Some_iff by (auto split: if_splits) (metis nth_mem set_rev length_rev)+
  then show "(b, w) \<in> set bs" "id_type w = DATATYPE_FREEBLOCK" "unat len \<le> unat (id_size w)"
    by (simp_all add: fitting_def)
qed

text \<open>The memory an allocation returns.\<close>

definition extract_mem :: "heap_mem \<Rightarrow> nat \<Rightarrow> u32 \<Rightarrow> bool \<Rightarrow> bool \<Rightarrow> u32 \<Rightarrow> nat \<Rightarrow> heap_mem" where
  "extract_mem m b w ev zero raw n =
     (let next = hb_Next m b; prev = hb_Prev m b; avail = unat (id_size w) - n;
          m1 = (if avail = 0 then m(prev + 1 := of_nat next, next + 2 := of_nat prev)
                else if ev then m(b := FREE_ID (of_nat avail))
                else m(b + 3 * n := FREE_ID (of_nat avail), b + 3 * n + 1 := of_nat next,
                       b + 3 * n + 2 := of_nat prev, prev + 1 := of_nat (b + 3 * n), next + 2 := of_nat (b + 3 * n)));
          m2 = m1(placed_at ev b w n := raw)
      in if zero then hb_InitializeToZero m2 (placed_at ev b w n) else m2)"

lemma ExtractBlocks_mem:
  assumes ok: "cluster_ok m hc bs" and pick: "pick_block (is_event_request flags) len bs = Some (b, w)"
  shows "ExtractBlocks m hc dataType flags len =
     Some (extract_mem m b w (is_event_request flags) (flags AND HB_InitializeToZero \<noteq> 0) (RAW_ID dataType flags len) (unat len),
           placed_at (is_event_request flags) b w (unat len))"
proof -
  note P = pick_block_Some [OF pick]
  have b: "b \<noteq> 0" using cluster_node(1) [OF ok P(1)] by simp
  have mb: "m b = w"
    using ok P(1) heap_blocks_at unfolding cluster_ok_def cluster_mem_def by blast
  have found: "found (map_option fst (pick_block (is_event_request flags) len bs)) = b"
    by (simp add: pick found_def)
  note S = size_minus [OF P(3)]
  show ?thesis
    using P(3) unfolding ExtractBlocks_def extract_search [OF ok] Let_def found extract_mem_def placed_at_def
    by (simp add: b hb_DataSize_def mb S hb_SetDataId_def hb_SetNext_def hb_SetPrev_def del: of_nat_diff of_nat_add unsigned_of_nat)
qed

lemma heap_blocks_placed:
  assumes "id_size raw = of_nat n" "0 < n" "n \<le> unat (id_size w)"
    and "\<And>a v. (a, v) \<in> set (placed ev b w raw n) \<Longrightarrow> m a = v"
  shows "heap_blocks m b (placed ev b w raw n) (b + 3 * unat (id_size w))"
    "blocks_total (placed ev b w raw n) = unat (id_size w)"
proof -
  have bound: "n < 2 ^ 16" using assms(3) size_bound [of w] by simp
  have raw: "unat (id_size raw) = n" using bound by (simp add: assms(1) unsigned_of_nat take_bit_nat_eq_self)
  have free: "unat (id_size (FREE_ID (of_nat (unat (id_size w) - n)))) = unat (id_size w) - n"
    using size_bound [of w] by (simp only: FREE_ID_fields ucast_blocks) (simp add: unsigned_of_nat take_bit_nat_eq_self)
  have nz: "id_size v \<noteq> 0" if "0 < unat (id_size v)" for v using that by auto
  show "heap_blocks m b (placed ev b w raw n) (b + 3 * unat (id_size w))"
    "blocks_total (placed ev b w raw n) = unat (id_size w)"
    using assms(2-) raw free nz [of raw] nz [of "FREE_ID (of_nat (unat (id_size w) - n))"]
    by (auto simp: placed_def Let_def blocks_total_def algebra_simps)
qed

lemma placed_range: "0 < n \<Longrightarrow> n \<le> unat (id_size w) \<Longrightarrow> (a, v) \<in> set (placed ev b w raw n) \<Longrightarrow> b \<le> a \<and> a < b + 3 * unat (id_size w)"
  by (auto simp: placed_def Let_def split: if_splits)

lemma extract_mem_at:
  fixes ev zero :: bool
  assumes ok: "cluster_ok m hc (bs1 @ (b, w) # bs2)" and free: "id_type w = DATATYPE_FREEBLOCK"
    and raw: "id_size raw = of_nat n" and n: "n \<le> unat (id_size w)"
  defines "res \<equiv> placed_at ev b w n"
    and "xs \<equiv> (hc + 2) # free_list bs1" and "ys \<equiv> free_list bs2 @ [hc + 3]"
  assumes k: "k \<le> res \<or> res + 3 * n \<le> k"
  shows "extract_mem m b w ev zero raw n k = (if k = res then raw else
      (if unat (id_size w) - n = 0 then m(last xs + 1 := of_nat (hd ys), hd ys + 2 := of_nat (last xs))
       else if ev then m(b := FREE_ID (of_nat (unat (id_size w) - n)))
       else m(b + 3 * n := FREE_ID (of_nat (unat (id_size w) - n)), b + 3 * n + 1 := of_nat (hd ys),
              b + 3 * n + 2 := of_nat (last xs), last xs + 1 := of_nat (b + 3 * n), hd ys + 2 := of_nat (b + 3 * n))) k)"
proof -
  note F = extract_facts [OF ok free, folded xs_def ys_def]
  have "n < 2 ^ 16" using n size_bound [of w] by simp
  then have "unat (id_size raw) = n" by (simp add: raw unsigned_of_nat take_bit_nat_eq_self)
  then have "(if zero then hb_InitializeToZero m0 res else m0) k = m0 k" if "m0 res = raw" for m0
    using that k by (auto simp: hb_InitializeToZero_def hb_DataSize_def)
  then show ?thesis
    unfolding extract_mem_def Let_def F(2,3) res_def [symmetric] by simp
qed

lemma extract_mem_words:
  fixes ev zero :: bool
  assumes ok: "cluster_ok m hc (bs1 @ (b, w) # bs2)" and free: "id_type w = DATATYPE_FREEBLOCK"
    and raw: "id_size raw = of_nat n" and n: "0 < n" "n \<le> unat (id_size w)"
  defines "m' \<equiv> extract_mem m b w ev zero raw n" and "res \<equiv> placed_at ev b w n"
    and "xs \<equiv> (hc + 2) # free_list bs1" and "ys \<equiv> free_list bs2 @ [hc + 3]"
  shows "k \<noteq> last xs + 1 \<Longrightarrow> k \<noteq> hd ys + 2 \<Longrightarrow> k < b \<or> b + 3 * unat (id_size w) \<le> k \<Longrightarrow> m' k = m k"
    "(a, v) \<in> set (placed ev b w raw n) \<Longrightarrow> m' a = v"
    "zero \<Longrightarrow> res < k \<Longrightarrow> k < res + 3 * n \<Longrightarrow> m' k = 0"
proof -
  note F = extract_facts [OF ok free, folded xs_def ys_def]
  note X = extract_frame [OF ok free, folded xs_def ys_def, where m' = m]
  have out: "last xs + 1 < b \<or> b + 3 * unat (id_size w) \<le> last xs + 1" "hd ys + 2 < b \<or> b + 3 * unat (id_size w) \<le> hd ys + 2"
    using X(6,8) by simp_all
  have bound: "n < 2 ^ 16" using n size_bound [of w] by simp
  have "unat (id_size raw) = n" using bound by (simp add: raw unsigned_of_nat take_bit_nat_eq_self)
  then have sz: "unat (hb_DataSize m0 res) = n" if "m0 res = raw" for m0 using that by (simp add: hb_DataSize_def)
  have at: "b \<le> res" "res + 3 * n \<le> b + 3 * unat (id_size w)" using n by (auto simp: res_def placed_at_def)
  note z = extract_mem_at [OF ok free raw n(2), where ev = ev and zero = zero, folded m'_def res_def xs_def ys_def]
  consider (whole) "unat (id_size w) - n = 0" | (rear) "unat (id_size w) - n \<noteq> 0" "ev"
    | (front) "unat (id_size w) - n \<noteq> 0" "\<not> ev" by blast
  note split = this
  show "m' k = m k" if k: "k \<noteq> last xs + 1" "k \<noteq> hd ys + 2" "k < b \<or> b + 3 * unat (id_size w) \<le> k"
  proof -
    have out: "k \<le> res \<or> res + 3 * n \<le> k" and ne: "k \<noteq> res" "k \<noteq> b" using k(3) at n by auto
    have mid: "k \<noteq> b + 3 * n" "k \<noteq> b + 3 * n + 1" "k \<noteq> b + 3 * n + 2" if "unat (id_size w) - n \<noteq> 0"
      using that k(3) n by auto
    show ?thesis unfolding z [OF out]
      by (cases rule: split) (use k(1,2) ne mid in simp_all)
  qed
  show "m' a = v" if av: "(a, v) \<in> set (placed ev b w raw n)"
  proof -
    have "a \<le> res \<or> res + 3 * n \<le> a" using av n
      by (auto simp: placed_def res_def placed_at_def Let_def split: if_splits)
    note z = z [OF this]
    show ?thesis
    proof (cases rule: split)
      case whole
      then show ?thesis using av unfolding z by (simp add: placed_def res_def placed_at_def)
    next
      case rear
      then show ?thesis using av unfolding z by (auto simp: placed_def res_def placed_at_def Let_def)
    next
      case front
      then have "a = b \<and> v = raw \<or> a = b + 3 * n \<and> v = FREE_ID (of_nat (unat (id_size w) - n))"
        using av by (simp add: placed_def Let_def)
      moreover have "b + 3 * n \<noteq> last xs + 1" "b + 3 * n \<noteq> hd ys + 2" using out front by auto
      ultimately show ?thesis using front n unfolding z res_def placed_at_def by (elim disjE) simp_all
    qed
  qed
  show "m' k = 0" if "zero" "res < k" "k < res + 3 * n"
    using that n sz
    by (auto simp: m'_def extract_mem_def Let_def hb_InitializeToZero_def res_def [symmetric])
qed

lemma extract_chain:
  assumes ok: "cluster_ok m hc (bs1 @ (b, w) # bs2)" and free: "id_type w = DATATYPE_FREEBLOCK"
    and raw: "id_size raw = of_nat n" "id_type raw \<noteq> DATATYPE_FREEBLOCK" and n: "0 < n" "n \<le> unat (id_size w)"
  shows "node_chain (extract_mem m b w ev zero raw n)
    ((hc + 2) # free_list (bs1 @ placed ev b w raw n @ bs2) @ [hc + 3])"
proof -
  let ?m' = "extract_mem m b w ev zero raw n"
  define xs ys where "xs = (hc + 2) # free_list bs1" and "ys = free_list bs2 @ [hc + 3]"
  note W = extract_mem_words [OF ok free raw(1) n, where ev = ev and zero = zero, folded xs_def ys_def]
  note F = extract_facts [OF ok free, folded xs_def ys_def]
  note X = extract_frame [OF ok free, folded xs_def ys_def, OF W(1)]
  have ne: "xs \<noteq> []" "ys \<noteq> []" by (simp_all add: xs_def ys_def)
  have b: "b + 3 * unat (id_size w) < 2 ^ 32" using cluster_node(2) [OF ok, of b w] by simp
  let ?avail = "unat (id_size w) - n"
  have mid: "free_list (placed ev b w raw n) = (if ?avail = 0 then [] else [if ev then b else b + 3 * n])"
    using raw(2) by (simp add: placed_def free_list_def Let_def FREE_ID_fields)
  have ptr: "unat (of_nat x :: u32) = x" if "x < b + 3 * unat (id_size w) \<or> x = last xs \<or> x = hd ys" for x
    using that b X(4,5) by (intro hb_ptr) auto
  note z = extract_mem_at [OF ok free raw(1) n(2), where ev = ev and zero = zero, folded xs_def ys_def]
  have out: "last xs + 1 < b \<or> b + 3 * unat (id_size w) \<le> last xs + 1"
      "hd ys + 2 < b \<or> b + 3 * unat (id_size w) \<le> hd ys + 2" "last xs + 1 \<noteq> hd ys + 2"
    using extract_frame(6-8) [OF ok free, folded xs_def ys_def, where m' = m] by simp_all
  have far: "last xs + 1 \<le> placed_at ev b w n \<or> placed_at ev b w n + 3 * n \<le> last xs + 1"
      "hd ys + 2 \<le> placed_at ev b w n \<or> placed_at ev b w n + 3 * n \<le> hd ys + 2"
    using out n by (auto simp: placed_at_def)
  have ne1: "last xs + 1 \<noteq> placed_at ev b w n" "hd ys + 2 \<noteq> placed_at ev b w n"
    using out(1,2) n by (auto simp: placed_at_def)
  have ne2: "last xs + 1 \<noteq> b" "hd ys + 2 \<noteq> b" using out(1,2) n by auto
  have links: "m (last xs + 1) = of_nat b" "m (hd ys + 2) = of_nat b" "m (b + 1) = of_nat (hd ys)" "m (b + 2) = of_nat (last xs)"
  proof -
    have "hb_Next m (last xs) = b" "hb_Prev m (hd ys) = b" "hb_Next m b = hd ys" "hb_Prev m b = last xs"
      using F(1) node_chain_split [OF ne(1), of "b # ys" m] node_chain_split [of "[b]" ys m] ne(2) by simp_all
    moreover have "m (x + 1) = of_nat (hb_Next m x)" "m (x + 2) = of_nat (hb_Prev m x)" for x
      by (simp_all add: hb_Next_def hb_Prev_def)
    ultimately show "m (last xs + 1) = of_nat b" "m (hd ys + 2) = of_nat b" "m (b + 1) = of_nat (hd ys)"
      "m (b + 2) = of_nat (last xs)" by metis+
  qed
  show ?thesis
  proof (cases "?avail = 0")
    case True
    have "node_chain ?m' (xs @ ys)"
    proof (rule node_chain_drop [OF F(1) ne X(1,2)])
      have "?m' (last xs + 1) = of_nat (hd ys)" "?m' (hd ys + 2) = of_nat (last xs)"
        unfolding z [OF far(1)] z [OF far(2)] using ne1 ne2 out(3) True by simp_all
      then show "hb_Next ?m' (last xs) = hd ys" "hb_Prev ?m' (hd ys) = last xs"
        unfolding hb_Next_def hb_Prev_def by (metis ptr)+
    qed
    then show ?thesis by (simp add: free_list_append mid True xs_def ys_def)
  next
    case False
    define c where "c = (if ev then b else b + 3 * n)"
    have cfar: "c + 2 < placed_at ev b w n \<or> placed_at ev b w n + 3 * n \<le> c"
      using False n by (auto simp: c_def placed_at_def)
    have c12: "c + 1 \<le> placed_at ev b w n \<or> placed_at ev b w n + 3 * n \<le> c + 1"
        "c + 2 \<le> placed_at ev b w n \<or> placed_at ev b w n + 3 * n \<le> c + 2"
        "c + 1 \<noteq> placed_at ev b w n" "c + 2 \<noteq> placed_at ev b w n"
        "c + 1 \<noteq> last xs + 1" "c + 2 \<noteq> last xs + 1" "c + 1 \<noteq> hd ys + 2" "c + 2 \<noteq> hd ys + 2"
      using cfar out False n by (auto simp: c_def)
    have cb: "c < b + 3 * unat (id_size w)" using False n by (auto simp: c_def)
    have "node_chain ?m' (xs @ c # ys)"
    proof (rule node_chain_replace [OF F(1) ne X(1,2)])
      have "?m' (last xs + 1) = of_nat c" "?m' (hd ys + 2) = of_nat c"
          "?m' (c + 1) = of_nat (hd ys)" "?m' (c + 2) = of_nat (last xs)"
        unfolding z [OF far(1)] z [OF far(2)] z [OF c12(1)] z [OF c12(2)] 
        using ne1 ne2 out(3) c12(3-) False links
        by (cases ev; simp add: c_def del: of_nat_add of_nat_mult)+
      then show "hb_Next ?m' (last xs) = c" "hb_Prev ?m' c = last xs" "hb_Next ?m' c = hd ys" "hb_Prev ?m' (hd ys) = c"
        unfolding hb_Next_def hb_Prev_def using ptr cb by metis+
    qed
    moreover have "free_list (bs1 @ placed ev b w raw n @ bs2) = free_list bs1 @ c # free_list bs2"
      unfolding free_list_append mid c_def using False by simp
    ultimately show ?thesis by (simp add: xs_def ys_def)
  qed
qed

lemma ExtractBlocks_ok:
  assumes ok: "cluster_ok m hc bs" and len: "len \<noteq> 0" and dt: "ucast dataType \<noteq> DATATYPE_FREEBLOCK"
    and pick: "pick_block (is_event_request flags) len bs = Some (b, w)"
  obtains m' bs1 bs2 where "bs = bs1 @ (b, w) # bs2"
    "ExtractBlocks m hc dataType flags len = Some (m', placed_at (is_event_request flags) b w (unat len))"
    "cluster_ok m' hc (bs1 @ placed (is_event_request flags) b w (RAW_ID dataType flags len) (unat len) @ bs2)"
    "\<And>k. k \<notin> {hc + 3, hc + 5} \<Longrightarrow> k \<notin> link_words (free_list (bs1 @ bs2)) \<Longrightarrow>
       k < b \<or> b + 3 * unat (id_size w) \<le> k \<Longrightarrow> m' k = m k"
    "\<And>k. flags AND HB_InitializeToZero \<noteq> 0 \<Longrightarrow> placed_at (is_event_request flags) b w (unat len) < k \<Longrightarrow>
       k < placed_at (is_event_request flags) b w (unat len) + 3 * unat len \<Longrightarrow> m' k = 0"
proof -
  let ?ev = "is_event_request flags" and ?zero = "flags AND HB_InitializeToZero \<noteq> 0"
    and ?raw = "RAW_ID dataType flags len" and ?n = "unat len"
  let ?m' = "extract_mem m b w ?ev ?zero ?raw ?n" and ?place = "placed ?ev b w ?raw ?n"
  note P = pick_block_Some [OF pick]
  obtain bs1 bs2 where bs: "bs = bs1 @ (b, w) # bs2" using split_list [OF P(1)] by blast
  note ok' = ok [unfolded bs]
  have n: "0 < ?n" using len by (simp add: unat_gt_0)
  have raw: "id_size ?raw = of_nat ?n" "id_type ?raw \<noteq> DATATYPE_FREEBLOCK"
    using dt by (simp_all add: id_size_RAW id_type_RAW)
  define xs ys where "xs = (hc + 2) # free_list bs1" and "ys = free_list bs2 @ [hc + 3]"
  note W = extract_mem_words [OF ok' P(2) raw(1) n P(3), where ev = ?ev and zero = ?zero, folded xs_def ys_def]
  have lin: "last xs = hc + 2 \<or> last xs \<in> set (free_list bs1)" "hd ys = hc + 3 \<or> hd ys \<in> set (free_list bs2)"
    using ends_in [where hc = hc] by (simp_all add: xs_def ys_def del: last.simps)
  have frame: "?m' k = m k" if "k \<notin> {hc + 3, hc + 5}" "k \<notin> link_words (free_list (bs1 @ bs2))"
      "k < b \<or> b + 3 * unat (id_size w) \<le> k" for k
    using that lin by (intro W(1)) (auto simp: link_words_def free_list_append)
  have st: "hc + 8 \<le> hc_payloadStart m hc" and tot: "blocks_total bs < 2 ^ 16"
    and bl: "heap_blocks m (hc_payloadStart m hc) (bs1 @ (b, w) # bs2) (hc_payloadEnd m hc)"
    and fr: "\<forall>(a, w)\<in>set bs. id_type w = DATATYPE_FREEBLOCK \<longrightarrow> \<not> bit w 8"
    using ok by (auto simp: cluster_ok_def cluster_mem_def bs)
  let ?s = "hc_payloadStart m hc" and ?e = "hc_payloadEnd m hc"
  have bpos: "hc + 8 \<le> b" using cluster_node(1) [OF ok P(1)] .
  have lw: "hc + 8 < k" if "k \<in> link_words (free_list (bs1 @ bs2))" for k
  proof -
    obtain x where x: "x \<in> set (free_list (bs1 @ bs2))" "k = x + 1 \<or> k = x + 2"
      using \<open>k \<in> link_words _\<close> by (auto simp: link_words_def)
    have "x \<in> set (free_list bs)" using x(1) by (auto simp: bs free_list_def)
    from cluster_node(3) [OF ok P(1) this] x(2) show ?thesis by auto
  qed
  have low: "?m' k = m k" if "k < hc + 8" "k \<notin> {hc + 3, hc + 5}" for k
    using that lw [of k] bpos by (intro frame) auto
  have ends: "hc_payloadStart ?m' hc = ?s" "hc_payloadEnd ?m' hc = ?e" "?m' (hc + 4) = 0"
    using low [of "hc + 6"] low [of "hc + 7"] low [of "hc + 4"] ok
    by (simp_all add: hc_payloadStart_def hc_payloadEnd_def cluster_ok_def)
  have bl12: "heap_blocks m ?s bs1 b" "heap_blocks m (b + 3 * unat (id_size w)) bs2 ?e"
    using bl heap_blocks_append [of m ?s bs1 "(b, w) # bs2" ?e] by auto
  have keep: "?m' a = v" if "(a, v) \<in> set bs1 \<union> set bs2" for a v
  proof -
    have av: "(a, v) \<in> set bs" using that by (auto simp: bs)
    have "?m' a = m a"
    proof (rule frame)
      show "a \<notin> {hc + 3, hc + 5}" using heap_blocks_range [OF bl, of a v] av [unfolded bs] st by auto
      show "a < b \<or> b + 3 * unat (id_size w) \<le> a"
        using that heap_blocks_range [OF bl12(1)] heap_blocks_range [OF bl12(2)] by blast
      have "set (free_list (bs1 @ bs2)) \<subseteq> fst ` set bs" by (auto simp: bs free_list_def)
      then show "a \<notin> link_words (free_list (bs1 @ bs2))"
        using link_words_no_header [OF bl, of "free_list (bs1 @ bs2)" a] imageI [OF av, of fst] unfolding bs by auto
    qed
    then show ?thesis using heap_blocks_at [OF bl] av bs by auto
  qed
  have blocks_keep: "heap_blocks m2 p cs e" if "heap_blocks m1 p cs e" "\<And>a v. (a, v) \<in> set cs \<Longrightarrow> m2 a = v" for m1 m2 p cs e
    using that by (induction m1 p cs e rule: heap_blocks.induct) auto
  have place: "heap_blocks ?m' b ?place (b + 3 * unat (id_size w))" "blocks_total ?place = unat (id_size w)"
    using heap_blocks_placed [OF raw(1) n P(3), of ?ev b ?m'] W(2) by blast+
  have "heap_blocks ?m' ?s bs1 b" "heap_blocks ?m' (b + 3 * unat (id_size w)) bs2 ?e"
    using blocks_keep [OF bl12(1)] blocks_keep [OF bl12(2)] keep by blast+
  then have "heap_blocks ?m' ?s (bs1 @ ?place @ bs2) ?e"
    using place heap_blocks_end [OF bl12(1)] by (simp add: heap_blocks_append)
  moreover have "blocks_total (bs1 @ ?place @ bs2) < 2 ^ 16"
    using tot place(2) by (simp add: bs blocks_total_append) (simp add: blocks_total_def)
  moreover have "\<forall>(a, v)\<in>set (bs1 @ ?place @ bs2). id_type v = DATATYPE_FREEBLOCK \<longrightarrow> \<not> bit v 8"
    using fr raw(2) by (auto simp: bs placed_def Let_def FREE_ID_fields)
  moreover have "node_chain ?m' (list_Head (hc_freeList hc) # free_list (bs1 @ ?place @ bs2) @ [list_Tail (hc_freeList hc)])"
    using extract_chain [OF ok' P(2) raw n P(3), of ?ev ?zero]
    by (simp add: list_Head_def list_Tail_def hc_freeList_def numeral_eq_Suc)
  ultimately have "cluster_ok ?m' hc (bs1 @ ?place @ bs2)"
    using ends st by (simp add: cluster_ok_def cluster_mem_def)
  then show thesis
    using that [OF bs ExtractBlocks_mem [OF ok pick] _ frame] W(3) by blast
qed

lemma ExtractBlocks_none:
  assumes "cluster_ok m hc bs" "pick_block (is_event_request flags) len bs = None"
  shows "ExtractBlocks m hc dataType flags len = Some (m, 0)"
  using assms(2) unfolding ExtractBlocks_def Let_def extract_search [OF assms(1)] by (simp add: found_def)

section \<open>A fresh cluster\<close>

lemma hc_fill_ok:
  assumes "e = p + 3 * r" "0 < unat bs" "unat bs < 2 ^ 16" "e < 2 ^ 32"
  shows "\<exists>m' ids. hc_fill m e p bs = Some m' \<and> heap_blocks m' p ids e \<and> (\<forall>b\<in>set ids. dead b) \<and>
     (\<forall>k. k < p \<or> e \<le> k \<longrightarrow> m' k = m k)"
  using assms
proof (induction r arbitrary: m p bs rule: less_induct)
  case (less r)
  show ?case
  proof (cases "r = 0")
    case True
    then show ?thesis using less.prems(1) by (subst hc_fill.simps) (auto intro: exI [of _ "[]"])
  next
    case False
    define n where "n = min r (unat bs)"
    define bs' where "bs' = (if p + 3 * unat bs > e then of_nat ((e - p) div 3) else bs)"
    have n: "0 < n" "n \<le> r" "n < 2 ^ 16" using False less.prems by (auto simp: n_def)
    have bs': "unat bs' = n"
      using less.prems by (auto simp: bs'_def n_def unsigned_of_nat take_bit_nat_eq_self)
    let ?id = "RAW_ID (ucast DATATYPE_FREEBLOCK) 0 bs'"
    have id: "unat (id_size ?id) = n" "\<not> bit ?id 8"
      using n(3) bs' by (simp_all add: id_size_RAW alive_RAW unsigned_ucast_eq take_bit_nat_eq_self)
    let ?m = "m(p := ?id)"
    have rn: "r - n < r" and eq: "e = p + 3 * n + 3 * (r - n)" and bs2: "0 < unat bs'" "unat bs' < 2 ^ 16"
      using n less.prems(1) bs' by simp_all
    obtain m' ids where IH: "hc_fill ?m e (p + 3 * n) bs' = Some m'" "heap_blocks m' (p + 3 * n) ids e"
        "\<forall>b\<in>set ids. dead b" "\<And>k. k < p + 3 * n \<or> e \<le> k \<Longrightarrow> m' k = ?m k"
      using less.IH [OF rn eq bs2 less.prems(4), of ?m] by blast
    have pe: "p < e" using False less.prems(1) by simp
    have "hc_fill m e p bs = hc_fill ?m e (p + 3 * n) bs'"
      using pe bs' by (subst hc_fill.simps) (simp add: Let_def bs'_def hb_SetDataId_def)
    moreover have "m' p = ?id" using IH(4) [of p] n(1) by simp
    moreover have "id_size ?id \<noteq> 0" using id(1) n(1) by auto
    ultimately have "heap_blocks m' p ((p, ?id) # ids) e" using IH(2) id(1) by simp
    moreover have "m' k = m k" if "k < p \<or> e \<le> k" for k using IH(4) [of k] that pe by auto
    ultimately show ?thesis
      using IH(1,3) id(2) \<open>hc_fill m e p bs = _\<close> by (intro exI [of _ m'] exI [of _ "(p, ?id) # ids"]) auto
  qed
qed

lemma recover_all_dead:
  assumes "\<forall>b\<in>set bs. dead b" "heap_blocks m p bs e"
  shows "recover_list bs = (if p = e then [] else [(p, FREE_ID (of_nat (blocks_total bs)))])"
proof (cases bs)
  case Nil
  then show ?thesis using assms(2) by simp
next
  case (Cons b cs)
  have all: "\<And>x. x \<in> set cs \<Longrightarrow> dead x" using assms(1) by (simp add: Cons)
  then have "takeWhile dead cs = cs" "dropWhile dead cs = []" "dead b"
    using assms(1) unfolding takeWhile_eq_all_conv dropWhile_eq_Nil_conv by (simp_all add: Cons)
  moreover have "fst b = p" "p \<noteq> e"
    using assms(2) heap_blocks_range [OF assms(2), of "fst b" "snd b"] by (cases b; auto simp: Cons)+
  ultimately show ?thesis by (simp add: Cons del: takeWhile_eq_all_conv dropWhile_eq_Nil_conv)
qed

lemma HeapCluster_Initialize_ok:
  assumes "unat ((sz - 32) div 12) = n" "n < 2 ^ 16" "0 < unat bs" "unat bs < 2 ^ 16" "hc + 8 + 3 * n < 2 ^ 32"
  shows "\<exists>m'. HeapCluster_Initialize m hc sz bs = Some m' \<and>
    cluster_ok m' hc (if n = 0 then [] else [(hc + 8, FREE_ID (of_nat n))]) \<and>
    hc_payloadStart m' hc = hc + 8 \<and> hc_payloadEnd m' hc = hc + 8 + 3 * n \<and>
    (\<forall>k. k < hc \<or> hc + 8 + 3 * n \<le> k \<longrightarrow> m' k = m k)"
proof -
  define m3 where "m3 = (DblLinkedList_Initialize (hb_ClearData m hc) (hc_freeList hc))
    (hc + 6 := of_nat (hc + 8), hc + 7 := of_nat (hc + 8 + 3 * n))"
  have ends: "hc_payloadStart m3 hc = hc + 8" "hc_payloadEnd m3 hc = hc + 8 + 3 * n"
    using assms(5) hb_ptr [of "hc + 8"] hb_ptr [of "hc + 8 + 3 * n"]
    by (simp_all add: m3_def hc_payloadStart_def hc_payloadEnd_def del: of_nat_add of_nat_mult)
  obtain m4 ids where F: "hc_fill m3 (hc + 8 + 3 * n) (hc + 8) bs = Some m4"
      "heap_blocks m4 (hc + 8) ids (hc + 8 + 3 * n)" "\<forall>b\<in>set ids. dead b"
      "\<And>k. k < hc + 8 \<or> hc + 8 + 3 * n \<le> k \<Longrightarrow> m4 k = m3 k"
    using hc_fill_ok [of "hc + 8 + 3 * n" "hc + 8" n bs m3] assms(3-5) by auto
  have ends4: "hc_payloadStart m4 hc = hc + 8" "hc_payloadEnd m4 hc = hc + 8 + 3 * n"
    using F(4) [of "hc + 6"] F(4) [of "hc + 7"] ends by (simp_all add: hc_payloadStart_def hc_payloadEnd_def)
  have tot: "blocks_total ids = n" using heap_blocks_end [OF F(2)] by simp
  have cm: "cluster_mem m4 hc ids"
    using F(2,3) tot assms(2) by (auto simp: cluster_mem_def ends4)
  obtain m5 where R: "RecoverFromGC m4 hc = Some m5" "cluster_ok m5 hc (recover_list ids)"
      "\<And>k. k \<notin> {hc + 3, hc + 4, hc + 5} \<Longrightarrow> k \<notin> fst ` set (recover_list ids) \<Longrightarrow> k \<notin> link_words (freed ids) \<Longrightarrow> m5 k = m4 k"
    using RecoverFromGC_ok [OF cm] by blast
  have rl: "recover_list ids = (if n = 0 then [] else [(hc + 8, FREE_ID (of_nat n))])"
    using recover_all_dead [OF F(3,2)] by (simp add: tot)
  have fl: "freed ids = free_list (recover_list ids)"
    using free_list_recover [of ids] F(3) by fastforce
  have lw: "link_words (freed ids) \<subseteq> {hc + 9, hc + 10}" "n = 0 \<longrightarrow> link_words (freed ids) = {}"
    unfolding fl rl by (auto simp: free_list_def link_words_def FREE_ID_fields)
  have ids: "fst ` set (recover_list ids) \<subseteq> {hc + 8}" "n = 0 \<longrightarrow> fst ` set (recover_list ids) = {}" unfolding rl by auto
  have low: "m5 k = m4 k" if "k < hc + 8 \<or> hc + 8 + 3 * n \<le> k" "k \<notin> {hc + 3, hc + 4, hc + 5}" for k
    using that ids lw by (intro R(3)) (cases "n = 0"; force)+
  have "HeapCluster_Initialize m hc sz bs = Some m5"
    unfolding HeapCluster_Initialize_def Let_def assms(1) m3_def [symmetric] ends F(1)
    by (simp add: R(1))
  moreover have "hc_payloadStart m5 hc = hc + 8" "hc_payloadEnd m5 hc = hc + 8 + 3 * n"
    using low [of "hc + 6"] low [of "hc + 7"] ends4 by (simp_all add: hc_payloadStart_def hc_payloadEnd_def)
  moreover have "m5 k = m k" if "k < hc \<or> hc + 8 + 3 * n \<le> k" for k
  proof -
    have "m5 k = m4 k" "m4 k = m3 k" using that low [of k] F(4) [of k] by auto
    moreover have "m3 k = m k" using that
      by (auto simp: m3_def DblLinkedList_Initialize_def hb_ClearData_def hb_SetPrev_def hb_SetNext_def hc_freeList_def)
    ultimately show ?thesis by simp
  qed
  ultimately show ?thesis using R(2) unfolding rl by blast
qed

end
