(* ===== verification/GcMark.thy ===== *)
theory GcMark
  imports HeapCluster
begin

text \<open>
  The marking phase of the garbage collector
  (\<open>CLR/Core/GarbageCollector_ComputeReachabilityGraph.cpp\<close>, and \<open>Mark\<close>, \<open>MarkSlow\<close> of
  \<open>CLR/Core/GarbageCollector.cpp\<close>) over the memory of \<open>HeapCluster\<close>.

  The marker keeps the blocks it still has to visit in stacks of \<open>(pointer, count)\<close> elements. The
  first stack is a local array; when it is full the collector asks for another one, and when it gets
  none it drops the list, sets \<open>m_fOutOfStackSpaceForGC\<close> and leaves the rest to \<open>MarkSlow\<close>. Whether
  a request is granted is a parameter, \<open>alloc n e\<close> for the \<open>n\<close>-th request, for \<open>e\<close> elements; the
  memory of a granted stack is kept outside of the heap memory. A push that writes behind the array
  of its stack is the result \<open>Mark_Overrun\<close>. Application domains are compiled in
  (\<open>TINYCLR_APPDOMAINS\<close>), the validation of their isolation and the preserved stacks of delegates
  are not.
\<close>

text \<open>The fields of the block types the marker looks into, by their offset in words.\<close>

definition hb_Dereference :: "heap_mem \<Rightarrow> nat \<Rightarrow> nat" where
  "hb_Dereference m a = unat (m (a + 1))"

definition proxy_AppDomain :: "heap_mem \<Rightarrow> nat \<Rightarrow> nat" where
  "proxy_AppDomain m a = unat (m (a + 2))"

definition appdomain_IsLoaded :: "heap_mem \<Rightarrow> nat \<Rightarrow> bool" where
  "appdomain_IsLoaded m d \<longleftrightarrow> m (d + 6) = 0"

definition array_numOfElements :: "heap_mem \<Rightarrow> nat \<Rightarrow> u32" where
  "array_numOfElements m a = m (a + 3)"

definition array_fReference :: "heap_mem \<Rightarrow> nat \<Rightarrow> bool" where
  "array_fReference m a \<longleftrightarrow> (ucast (drop_bit 16 (m (a + 4))) :: u8) \<noteq> 0"

definition array_FirstElement :: "nat \<Rightarrow> nat" where
  "array_FirstElement a = a + 5"

definition delegate_object :: "nat \<Rightarrow> nat" where
  "delegate_object a = a + 5"

definition dlist_length :: "heap_mem \<Rightarrow> nat \<Rightarrow> u32" where
  "dlist_length m a = m (a + 4)"

definition dlist_weak :: "heap_mem \<Rightarrow> nat \<Rightarrow> bool" where
  "dlist_weak m a \<longleftrightarrow> m (a + 5) AND 1 \<noteq> 0"

definition dlist_Delegates :: "nat \<Rightarrow> nat" where
  "dlist_Delegates a = a + 6"

section \<open>The state of the marker\<close>

record mark_stack =
  ms_buf :: "(nat \<times> u32) list"
  ms_last :: nat
  ms_top :: nat

record gc_state =
  gc_mem :: heap_mem
  gc_stacks :: "mark_stack list"
  gc_cur :: nat
  gc_out :: bool
  gc_calls :: nat
  gc_weakList :: nat

text \<open>The locals of \<open>ComputeReachabilityGraphForMultipleBlocks\<close>.\<close>

record gc_locals =
  lc_lst :: nat
  lc_num :: u32
  lc_list :: nat
  lc_stack :: nat
  lc_last :: nat

datatype mark_result = Mark_Next gc_state gc_locals | Mark_Done gc_state | Mark_Overrun

text \<open>\<open>MarkStack::Initialize\<close>; the elements above the sentinel are not initialised, zeros stand for them.\<close>

definition MarkStack_Initialize :: "nat \<Rightarrow> mark_stack" where
  "MarkStack_Initialize num =
     \<lparr>ms_buf = (0, 0) # replicate (num - 1) (0, 0), ms_last = num - 1, ms_top = 0\<rparr>"

definition c_minimumSpaceForGC :: nat where
  "c_minimumSpaceForGC = 128"

section \<open>Visiting a block\<close>

text \<open>
  The body of the loop from \<open>MarkAlive\<close> on: the memory, the list to go on with, and \<open>sub\<close>, the
  block it refers to.
\<close>

definition gc_switch :: "heap_mem \<Rightarrow> nat \<Rightarrow> nat \<Rightarrow> heap_mem \<times> nat \<times> u32 \<times> nat" where
  "gc_switch m wl ptr =
     (let dt = hb_DataType m ptr
      in if dt = DATATYPE_OBJECT \<or> dt = DATATYPE_BYREF then (m, 0, 0, hb_Dereference m ptr)
         else if dt = DATATYPE_TRANSPARENT_PROXY then
           (let appDomain = proxy_AppDomain m ptr
            in if appDomain \<noteq> 0 then
                 if \<not> appdomain_IsLoaded m appDomain then (m(ptr + 2 := 0, ptr + 1 := 0), 0, 0, 0)
                 else (m, 0, 0, hb_Dereference m ptr)
               else (m, 0, 0, 0))
         else if dt = DATATYPE_ARRAY_BYREF then (m, 0, 0, hb_Dereference m ptr)
         else if dt = DATATYPE_CLASS \<or> dt = DATATYPE_VALUETYPE then
           (m, ptr + 3, ucast (hb_DataSize m ptr) - 1, 0)
         else if dt = DATATYPE_SZARRAY then
           if array_fReference m ptr then (m, array_FirstElement ptr, array_numOfElements m ptr, 0)
           else (m, 0, 0, 0)
         else if dt = DATATYPE_DELEGATE_HEAD then (m, delegate_object ptr, 1, 0)
         else if dt = DATATYPE_DELEGATELIST_HEAD then
           if dlist_weak m ptr then (list_LinkAtBack (hb_ClearData m ptr) wl ptr, 0, 0, 0)
           else (m, dlist_Delegates ptr, dlist_length m ptr, 0)
         else (m, 0, 0, 0))"

definition gc_visit :: "gc_state \<Rightarrow> nat \<Rightarrow> gc_state \<times> nat \<times> u32" where
  "gc_visit s ptr =
     (case gc_switch (hb_MarkAlive (gc_mem s) ptr) (gc_weakList s) ptr of
        (m, lst, num, sub) \<Rightarrow>
          (s\<lparr>gc_mem := m\<rparr>,
           if sub \<noteq> 0 \<and> \<not> hb_IsAlive m sub then (sub, 1) else (lst, num)))"

section \<open>One round of the loop\<close>

definition SAVESTATE :: "gc_state \<Rightarrow> gc_locals \<Rightarrow> gc_state" where
  "SAVESTATE s l =
     s\<lparr>gc_stacks := (gc_stacks s)[gc_cur s := (gc_stacks s ! gc_cur s)\<lparr>ms_last := lc_last l, ms_top := lc_stack l\<rparr>],
       gc_cur := lc_list l\<rparr>"

definition LOADSTATE :: "gc_state \<Rightarrow> gc_locals \<Rightarrow> gc_locals" where
  "LOADSTATE s l =
     l\<lparr>lc_last := ms_last (gc_stacks s ! gc_cur s), lc_stack := ms_top (gc_stacks s ! gc_cur s), lc_list := gc_cur s\<rparr>"

text \<open>The element \<open>stack\<close> points at.\<close>

definition stack_elem :: "gc_state \<Rightarrow> gc_locals \<Rightarrow> nat \<times> u32" where
  "stack_elem s l = ms_buf (gc_stacks s ! lc_list l) ! lc_stack l"

definition set_elem :: "gc_state \<Rightarrow> gc_locals \<Rightarrow> nat \<times> u32 \<Rightarrow> gc_state" where
  "set_elem s l e =
     (let ms = gc_stacks s ! lc_list l
      in s\<lparr>gc_stacks := (gc_stacks s)[lc_list l := ms\<lparr>ms_buf := (ms_buf ms)[lc_stack l := e]\<rparr>]\<rparr>)"

definition gc_enter :: "gc_state \<Rightarrow> gc_locals \<Rightarrow> nat \<Rightarrow> mark_result" where
  "gc_enter s l ptr =
     (case gc_visit s ptr of (s', lst, num) \<Rightarrow> Mark_Next s' (l\<lparr>lc_lst := lst, lc_num := num\<rparr>))"

definition gc_pop :: "gc_state \<Rightarrow> gc_locals \<Rightarrow> mark_result" where
  "gc_pop s l =
     (case stack_elem s l of
        (ptr, num) \<Rightarrow>
          (let s1 = set_elem s l (ptr + 3, num - 1)
           in if num - 1 = 0 then
                if lc_stack l = 0 then Mark_Overrun else gc_enter s1 (l\<lparr>lc_stack := lc_stack l - 1\<rparr>) ptr
              else gc_enter s1 l ptr))"

definition gc_push :: "gc_state \<Rightarrow> gc_locals \<Rightarrow> mark_result" where
  "gc_push s l =
     (let l1 = l\<lparr>lc_stack := lc_stack l + 1\<rparr>
      in if length (ms_buf (gc_stacks s ! lc_list l1)) \<le> lc_stack l1 then Mark_Overrun
         else gc_enter (set_elem s l1 (lc_lst l + 3, lc_num l - 1)) l1 (lc_lst l))"

text \<open>The requests for another stack, from \<open>c_minimumSpaceForGC\<close> elements down to one.\<close>

function gc_try :: "(nat \<Rightarrow> nat \<Rightarrow> bool) \<Rightarrow> nat \<Rightarrow> nat \<Rightarrow> nat \<times> nat option" where
  "gc_try alloc n e =
     (if e = 0 then (n, None)
      else if alloc n e then (n + 1, Some e)
      else gc_try alloc (n + 1) (e div 2))"
  by pat_completeness auto
termination by (relation "measure (\<lambda>(_, _, e). e)") auto

declare gc_try.simps [simp del]

definition gc_full :: "(nat \<Rightarrow> nat \<Rightarrow> bool) \<Rightarrow> gc_state \<Rightarrow> gc_locals \<Rightarrow> mark_result" where
  "gc_full alloc s l =
     (if lc_list l + 1 < length (gc_stacks s) then
        (let s1 = SAVESTATE s l; l1 = l\<lparr>lc_list := lc_list l + 1\<rparr>
         in gc_push s1 (LOADSTATE s1 l1))
      else
        (case (if gc_out s then (gc_calls s, None) else gc_try alloc (gc_calls s) c_minimumSpaceForGC) of
           (n, Some cElement) \<Rightarrow>
             (let s1 = (SAVESTATE s l)\<lparr>gc_calls := n\<rparr>;
                  s2 = s1\<lparr>gc_stacks := gc_stacks s1 @ [MarkStack_Initialize cElement],
                          gc_cur := length (gc_stacks s1)\<rparr>
              in gc_push s2 (LOADSTATE s2 l))
         | (n, None) \<Rightarrow> Mark_Next (s\<lparr>gc_calls := n, gc_out := True\<rparr>) (l\<lparr>lc_lst := 0, lc_num := 0\<rparr>)))"

definition gc_step :: "(nat \<Rightarrow> nat \<Rightarrow> bool) \<Rightarrow> gc_state \<Rightarrow> gc_locals \<Rightarrow> mark_result" where
  "gc_step alloc s l =
     (if lc_num l = 0 then
        if snd (stack_elem s l) = 0 then
          if lc_list l = 0 then Mark_Done (SAVESTATE s l)
          else
            (let s1 = (SAVESTATE s l)\<lparr>gc_cur := lc_list l - 1\<rparr>
             in gc_pop s1 (LOADSTATE s1 l))
        else gc_pop s l
      else if 1 < lc_num l then
        if lc_stack l = lc_last l then gc_full alloc s l else gc_push s l
      else gc_enter s l (lc_lst l))"

datatype gc_result = GC_Ok gc_state | GC_Overrun

partial_function (option) gc_loop :: "(nat \<Rightarrow> nat \<Rightarrow> bool) \<Rightarrow> gc_state \<Rightarrow> gc_locals \<Rightarrow> gc_result option" where
  "gc_loop alloc s l =
     (case gc_step alloc s l of
        Mark_Next s' l' \<Rightarrow> gc_loop alloc s' l'
      | Mark_Done s' \<Rightarrow> Some (GC_Ok s')
      | Mark_Overrun \<Rightarrow> Some GC_Overrun)"

definition ReachabilityForMultipleBlocks :: "(nat \<Rightarrow> nat \<Rightarrow> bool) \<Rightarrow> gc_state \<Rightarrow> nat \<Rightarrow> u32 \<Rightarrow> gc_result option" where
  "ReachabilityForMultipleBlocks alloc s lst num =
     gc_loop alloc s (LOADSTATE s \<lparr>lc_lst = lst, lc_num = num, lc_list = 0, lc_stack = 0, lc_last = 0\<rparr>)"

definition ReachabilityForSingleBlock :: "(nat \<Rightarrow> nat \<Rightarrow> bool) \<Rightarrow> gc_state \<Rightarrow> nat \<Rightarrow> gc_result option" where
  "ReachabilityForSingleBlock alloc s obj =
     (if obj = 0 \<or> hb_IsAlive (gc_mem s) obj then Some (GC_Ok s)
      else ReachabilityForMultipleBlocks alloc s obj 1)"

section \<open>The roots\<close>

text \<open>The three calls by which the markers of the runtime hand over what they hold.\<close>

datatype gc_check = CheckSingleBlock nat | CheckSingleBlock_Force nat | CheckMultipleBlocks nat u32

definition gc_check1 :: "(nat \<Rightarrow> nat \<Rightarrow> bool) \<Rightarrow> gc_state \<Rightarrow> gc_check \<Rightarrow> gc_result option" where
  "gc_check1 alloc s c =
     (case c of
        CheckSingleBlock obj \<Rightarrow> ReachabilityForSingleBlock alloc s obj
      | CheckSingleBlock_Force ptr \<Rightarrow> if ptr = 0 then Some (GC_Ok s) else ReachabilityForMultipleBlocks alloc s ptr 1
      | CheckMultipleBlocks lst num \<Rightarrow> if lst = 0 then Some (GC_Ok s) else ReachabilityForMultipleBlocks alloc s lst num)"

fun gc_checks :: "(nat \<Rightarrow> nat \<Rightarrow> bool) \<Rightarrow> gc_state \<Rightarrow> gc_check list \<Rightarrow> gc_result option" where
  "gc_checks alloc s [] = Some (GC_Ok s)"
| "gc_checks alloc s (c # cs) =
     (case gc_check1 alloc s c of
        Some (GC_Ok s') \<Rightarrow> gc_checks alloc s' cs
      | r \<Rightarrow> r)"

section \<open>\<open>MarkSlow\<close>\<close>

text \<open>The walk over one cluster and over the list of clusters.\<close>

partial_function (option) gc_slow_cluster ::
  "(nat \<Rightarrow> nat \<Rightarrow> bool) \<Rightarrow> gc_state \<Rightarrow> nat \<Rightarrow> nat \<Rightarrow> gc_result option" where
  "gc_slow_cluster alloc s ptr end =
     (if ptr < end then
        (case (if hb_IsAlive (gc_mem s) ptr \<and> \<not> hb_IsEvent (gc_mem s) ptr
               then gc_check1 alloc s (CheckSingleBlock_Force ptr) else Some (GC_Ok s)) of
           Some (GC_Ok s') \<Rightarrow> gc_slow_cluster alloc s' (ptr + 3 * unat (hb_DataSize (gc_mem s') ptr)) end
         | r \<Rightarrow> r)
      else Some (GC_Ok s))"

fun gc_slow_pass :: "(nat \<Rightarrow> nat \<Rightarrow> bool) \<Rightarrow> gc_state \<Rightarrow> nat list \<Rightarrow> gc_result option" where
  "gc_slow_pass alloc s [] = Some (GC_Ok s)"
| "gc_slow_pass alloc s (hc # hcs) =
     (case gc_slow_cluster alloc s (hc_payloadStart (gc_mem s) hc) (hc_payloadEnd (gc_mem s) hc) of
        Some (GC_Ok s') \<Rightarrow> gc_slow_pass alloc s' hcs
      | r \<Rightarrow> r)"

partial_function (option) MarkSlow :: "(nat \<Rightarrow> nat \<Rightarrow> bool) \<Rightarrow> gc_state \<Rightarrow> nat list \<Rightarrow> gc_result option" where
  "MarkSlow alloc s heap =
     (if gc_out s then
        (case gc_slow_pass alloc (s\<lparr>gc_out := False\<rparr>) heap of
           Some (GC_Ok s') \<Rightarrow> MarkSlow alloc s' heap
         | r \<Rightarrow> r)
      else Some (GC_Ok s))"

section \<open>What a block refers to\<close>

text \<open>
  The list of cells the marker goes on with, and the block a reference cell refers to, as functions
  of the memory.
\<close>

definition gc_list :: "heap_mem \<Rightarrow> nat \<Rightarrow> nat \<times> u32" where
  "gc_list m a =
     (let dt = hb_DataType m a
      in if dt = DATATYPE_CLASS \<or> dt = DATATYPE_VALUETYPE then (a + 3, ucast (hb_DataSize m a) - 1)
         else if dt = DATATYPE_SZARRAY \<and> array_fReference m a then (array_FirstElement a, array_numOfElements m a)
         else if dt = DATATYPE_DELEGATE_HEAD then (delegate_object a, 1)
         else if dt = DATATYPE_DELEGATELIST_HEAD \<and> \<not> dlist_weak m a then (dlist_Delegates a, dlist_length m a)
         else (0, 0))"

definition gc_sub :: "heap_mem \<Rightarrow> nat \<Rightarrow> nat" where
  "gc_sub m a =
     (let dt = hb_DataType m a
      in if dt = DATATYPE_OBJECT \<or> dt = DATATYPE_BYREF \<or> dt = DATATYPE_ARRAY_BYREF then hb_Dereference m a
         else if dt = DATATYPE_TRANSPARENT_PROXY \<and> proxy_AppDomain m a \<noteq> 0 \<and> appdomain_IsLoaded m (proxy_AppDomain m a)
         then hb_Dereference m a else 0)"

definition gc_unloaded :: "heap_mem \<Rightarrow> nat \<Rightarrow> bool" where
  "gc_unloaded m a \<longleftrightarrow> hb_DataType m a = DATATYPE_TRANSPARENT_PROXY \<and> proxy_AppDomain m a \<noteq> 0 \<and>
     \<not> appdomain_IsLoaded m (proxy_AppDomain m a)"

definition gc_weak :: "heap_mem \<Rightarrow> nat \<Rightarrow> bool" where
  "gc_weak m a \<longleftrightarrow> hb_DataType m a = DATATYPE_DELEGATELIST_HEAD \<and> dlist_weak m a"

lemma gc_switch_eq:
  "gc_switch m wl a =
     (if gc_unloaded m a then m(a + 2 := 0, a + 1 := 0)
      else if gc_weak m a then list_LinkAtBack (hb_ClearData m a) wl a else m,
      fst (gc_list m a), snd (gc_list m a), gc_sub m a)"
  by (simp add: gc_switch_def gc_list_def gc_sub_def gc_unloaded_def gc_weak_def gc_types Let_def)

text \<open>A block that is alive when the marking starts, an event, is not followed.\<close>

definition gc_ref :: "heap_mem \<Rightarrow> nat \<Rightarrow> nat" where
  "gc_ref m a = (if gc_sub m a \<noteq> 0 \<and> \<not> hb_IsAlive m (gc_sub m a) then gc_sub m a else 0)"

text \<open>The cells of a list, and the cells reachable from given ones.\<close>

definition cells :: "nat \<times> u32 \<Rightarrow> nat set" where
  "cells e = (\<lambda>i. fst e + 3 * i) ` {..<unat (snd e)}"

inductive_set gc_reach :: "heap_mem \<Rightarrow> nat set \<Rightarrow> nat set" for m R where
  root: "a \<in> R \<Longrightarrow> a \<in> gc_reach m R"
| field: "a \<in> gc_reach m R \<Longrightarrow> c \<in> cells (gc_list m a) \<Longrightarrow> c \<in> gc_reach m R"
| ref: "a \<in> gc_reach m R \<Longrightarrow> gc_ref m a \<noteq> 0 \<Longrightarrow> gc_ref m a \<in> gc_reach m R"

text \<open>
  The words the marker reads of a block besides its header, and the words it writes: the links of a
  weak delegate list, and the references of a proxy whose domain is going away.
\<close>

definition gc_reads :: "heap_mem \<Rightarrow> nat \<Rightarrow> nat set" where
  "gc_reads m a =
     (let dt = hb_DataType m a
      in if dt = DATATYPE_OBJECT \<or> dt = DATATYPE_BYREF \<or> dt = DATATYPE_ARRAY_BYREF then {a + 1}
         else if dt = DATATYPE_TRANSPARENT_PROXY then
           {a + 1, a + 2} \<union> (if proxy_AppDomain m a \<noteq> 0 then {proxy_AppDomain m a + 6} else {})
         else if dt = DATATYPE_SZARRAY then {a + 3, a + 4}
         else if dt = DATATYPE_DELEGATELIST_HEAD then {a + 4, a + 5} else {})"

definition gc_writes :: "heap_mem \<Rightarrow> nat \<Rightarrow> nat set" where
  "gc_writes m a = (if gc_unloaded m a \<or> gc_weak m a then {a + 1, a + 2} else {})"

definition list_words :: "nat \<Rightarrow> nat set" where
  "list_words wl = {wl, wl + 1, wl + 2}"

text \<open>
  The layout the marker relies on: no header word is read as another block's data, and what it
  writes is neither a header nor read through another block.
\<close>

definition gc_layout :: "heap_mem \<Rightarrow> nat \<Rightarrow> nat set \<Rightarrow> bool" where
  "gc_layout m wl C \<longleftrightarrow>
     C \<subseteq> {..<2 ^ 32} \<and> 0 < wl \<and> wl < 2 ^ 32 \<and>
     (\<forall>a\<in>C. \<forall>b\<in>C. a \<notin> gc_reads m b \<and> b \<notin> gc_writes m a \<and> (a \<noteq> b \<longrightarrow> gc_writes m a \<inter> gc_reads m b = {})) \<and>
     (\<forall>a\<in>C. gc_unloaded m a \<longrightarrow> proxy_AppDomain m a + 6 \<notin> {a + 1, a + 2}) \<and>
     (\<forall>b\<in>C. list_words wl \<inter> insert b (gc_reads m b \<union> gc_writes m b) = {})"

definition alive_bit :: u32 where "alive_bit = push_bit 8 (ucast HB_Alive)"

text \<open>How the memory differs from the one at the start when the blocks of \<open>V\<close> have been visited.\<close>

definition gc_same :: "heap_mem \<Rightarrow> nat \<Rightarrow> nat set \<Rightarrow> nat set \<Rightarrow> heap_mem \<Rightarrow> bool" where
  "gc_same m0 wl C V m \<longleftrightarrow>
     (\<forall>b\<in>C. m b = (if b \<in> V then m0 b OR alive_bit else m0 b)) \<and>
     (\<forall>b\<in>C. \<forall>k\<in>gc_reads m0 b. m k = m0 k \<or>
        gc_unloaded m0 b \<and> k \<in> {b + 1, b + 2} - {proxy_AppDomain m0 b + 6} \<and> m k = 0) \<and>
     unat (m (wl + 2)) \<in> insert (wl - 1) {b \<in> C. gc_weak m0 b} \<and>
     (\<forall>k. k \<notin> C \<union> list_words wl \<union> \<Union> (gc_writes m0 ` C) \<longrightarrow> m k = m0 k)"

lemma alive_bit_or: "bit (w OR alive_bit) k \<longleftrightarrow> bit w k \<or> k = 8"
  by (simp add: alive_bit_def set_alive_bits)

lemma id_or_alive: "id_type (w OR alive_bit) = id_type w" "id_size (w OR alive_bit) = id_size w"
  by (auto intro!: id_type_eqI id_size_eqI simp: alive_bit_or)

text \<open>The marker sees the same graph in such a memory.\<close>

lemma gc_same_view:
  assumes "gc_same m0 wl C V m" "b \<in> C"
  shows "hb_DataType m b = hb_DataType m0 b" "gc_list m b = gc_list m0 b" "gc_sub m b = gc_sub m0 b"
    "gc_weak m b = gc_weak m0 b" "gc_unloaded m b \<Longrightarrow> gc_unloaded m0 b"
    "hb_IsAlive m b \<longleftrightarrow> hb_IsAlive m0 b \<or> b \<in> V"
proof -
  have id: "m b = (if b \<in> V then m0 b OR alive_bit else m0 b)" using assms by (simp add: gc_same_def)
  show t: "hb_DataType m b = hb_DataType m0 b" by (simp add: hb_DataType_def id id_or_alive)
  have sz: "hb_DataSize m b = hb_DataSize m0 b" by (simp add: hb_DataSize_def id id_or_alive)
  have w: "m k = m0 k \<or> gc_unloaded m0 b \<and> k \<in> {b + 1, b + 2} - {proxy_AppDomain m0 b + 6} \<and> m k = 0" if "k \<in> gc_reads m0 b" for k
    using that assms by (auto simp: gc_same_def)
  show "gc_list m b = gc_list m0 b" "gc_weak m b = gc_weak m0 b"
    using w [of "b + 3"] w [of "b + 4"] w [of "b + 5"]
    by (auto simp: gc_list_def gc_weak_def t sz Let_def array_fReference_def array_numOfElements_def dlist_weak_def
        dlist_length_def gc_reads_def gc_unloaded_def gc_types split: if_splits)
  show "hb_IsAlive m b \<longleftrightarrow> hb_IsAlive m0 b \<or> b \<in> V" by (simp add: hb_IsAlive_bit id alive_bit_or)
  show "gc_sub m b = gc_sub m0 b" "gc_unloaded m b \<Longrightarrow> gc_unloaded m0 b"
  proof -
    consider "hb_DataType m0 b \<noteq> DATATYPE_TRANSPARENT_PROXY"
      | "hb_DataType m0 b = DATATYPE_TRANSPARENT_PROXY" by blast
    then have "gc_sub m b = gc_sub m0 b \<and> (gc_unloaded m b \<longrightarrow> gc_unloaded m0 b)"
    proof cases
      case 1
      then show ?thesis using w [of "b + 1"]
        by (auto simp: gc_sub_def t Let_def hb_Dereference_def gc_reads_def gc_unloaded_def)
    next
      case 2
      then have k: "{b + 1, b + 2} \<subseteq> gc_reads m0 b"
          "proxy_AppDomain m0 b \<noteq> 0 \<Longrightarrow> proxy_AppDomain m0 b + 6 \<in> gc_reads m0 b"
        by (auto simp: gc_reads_def gc_types)
      show ?thesis
      proof (cases "gc_unloaded m0 b")
        case True
        then have "m (proxy_AppDomain m0 b + 6) = m0 (proxy_AppDomain m0 b + 6)" "m (b + 2) = m0 (b + 2) \<or> m (b + 2) = 0"
          using k w by (auto simp: gc_unloaded_def)
        then show ?thesis using 2 True
          by (auto simp: gc_sub_def t Let_def hb_Dereference_def gc_unloaded_def proxy_AppDomain_def appdomain_IsLoaded_def gc_types)
      next
        case False
        then have "m (b + 1) = m0 (b + 1)" "m (b + 2) = m0 (b + 2)"
            "proxy_AppDomain m0 b \<noteq> 0 \<Longrightarrow> m (proxy_AppDomain m0 b + 6) = m0 (proxy_AppDomain m0 b + 6)"
          using k w by auto
        then show ?thesis using 2 False
          by (auto simp: gc_sub_def t Let_def hb_Dereference_def gc_unloaded_def proxy_AppDomain_def appdomain_IsLoaded_def gc_types)
      qed
    qed
    then show "gc_sub m b = gc_sub m0 b" "gc_unloaded m b \<Longrightarrow> gc_unloaded m0 b" by blast+
  qed
qed

lemma gc_layoutD:
  assumes "gc_layout m wl C" "a \<in> C" "b \<in> C"
  shows "a \<notin> gc_reads m b" "b \<notin> gc_writes m a" "a \<noteq> b \<Longrightarrow> gc_writes m a \<inter> gc_reads m b = {}"
    "list_words wl \<inter> insert b (gc_reads m b \<union> gc_writes m b) = {}" "a < 2 ^ 32" "0 < wl" "wl < 2 ^ 32"
    "gc_unloaded m a \<Longrightarrow> proxy_AppDomain m a + 6 \<notin> {a + 1, a + 2}"
  using assms by (auto simp: gc_layout_def)

lemma gc_sameD:
  assumes "gc_same m0 wl C V m"
  shows "b \<in> C \<Longrightarrow> m b = (if b \<in> V then m0 b OR alive_bit else m0 b)"
    "b \<in> C \<Longrightarrow> k \<in> gc_reads m0 b \<Longrightarrow> m k \<noteq> m0 k \<Longrightarrow>
       gc_unloaded m0 b \<and> k \<in> {b + 1, b + 2} - {proxy_AppDomain m0 b + 6} \<and> m k = 0"
    "unat (m (wl + 2)) \<in> insert (wl - 1) {b \<in> C. gc_weak m0 b}"
    "k \<notin> C \<Longrightarrow> k \<notin> list_words wl \<Longrightarrow> (\<And>b. b \<in> C \<Longrightarrow> k \<notin> gc_writes m0 b) \<Longrightarrow> m k = m0 k"
  using assms unfolding gc_same_def by blast+

text \<open>A write that touches no header and no data of other blocks.\<close>

lemma gc_same_write:
  assumes lay: "gc_layout m0 wl C" and same: "gc_same m0 wl C V m" and a: "a \<in> C"
    and out: "\<And>k. k \<notin> list_words wl \<Longrightarrow> (\<And>b. b \<in> C \<Longrightarrow> k \<notin> gc_writes m0 b) \<Longrightarrow> m' k = m k"
    and own: "\<And>b k. b \<in> C \<Longrightarrow> k \<in> gc_reads m0 b \<Longrightarrow> k \<in> gc_writes m0 b \<Longrightarrow> m' k = m k \<or>
       gc_unloaded m0 b \<and> k \<in> {b + 1, b + 2} \<and> m' k = 0"
    and tail: "unat (m' (wl + 2)) \<in> insert (wl - 1) {b \<in> C. gc_weak m0 b}"
  shows "gc_same m0 wl C V m'"
proof -
  have lists: "k \<notin> list_words wl" if "b \<in> C" "k \<in> insert b (gc_reads m0 b)" for b k
    using gc_layoutD(4) [OF lay that(1) that(1)] that(2) by auto
  have head: "m' b = m b" if "b \<in> C" for b
    using lists [OF that, of b] gc_layoutD(2) [OF lay _ that] by (intro out) auto
  have reads: "m' k = m0 k \<or> gc_unloaded m0 b \<and> k \<in> {b + 1, b + 2} - {proxy_AppDomain m0 b + 6} \<and> m' k = 0"
    if bk: "b \<in> C" "k \<in> gc_reads m0 b" for b k
  proof (cases "k \<in> gc_writes m0 b")
    case True
    then have "k \<noteq> proxy_AppDomain m0 b + 6 \<or> \<not> gc_unloaded m0 b"
      using gc_layoutD(8) [OF lay bk(1) bk(1)] by (auto simp: gc_writes_def)
    then show ?thesis using own [OF bk True] gc_sameD(2) [OF same bk] by (cases "m k = m0 k") auto
  next
    case False
    have "k \<notin> gc_writes m0 c" if "c \<in> C" for c
      using gc_layoutD(3) [OF lay that bk(1)] False bk(2) by (cases "c = b") auto
    then have "m' k = m k" using lists [OF bk(1), of k] bk(2) by (intro out) auto
    then show ?thesis using gc_sameD(2) [OF same bk] by auto
  qed
  have "m' k = m0 k" if "k \<notin> C \<union> list_words wl \<union> \<Union> (gc_writes m0 ` C)" for k
  proof -
    have "m' k = m k" using that by (intro out) auto
    also have "m k = m0 k" using that by (intro gc_sameD(4) [OF same]) auto
    finally show ?thesis .
  qed
  then show ?thesis using head gc_sameD(1) [OF same] reads tail unfolding gc_same_def by simp
qed

lemma gc_same_mark:
  assumes lay: "gc_layout m0 wl C" and same: "gc_same m0 wl C V m" and a: "a \<in> C"
  shows "gc_same m0 wl C (insert a V) (hb_MarkAlive m a)"
proof -
  have m': "hb_MarkAlive m a = m(a := m a OR alive_bit)"
    by (simp add: hb_MarkAlive_def hb_SetFlags_def alive_bit_def)
  have "a \<notin> list_words wl" using gc_layoutD(4) [OF lay a a] by auto
  then have "wl + 2 \<noteq> a" by (auto simp: list_words_def)
  moreover have "k \<noteq> a" if "b \<in> C" "k \<in> gc_reads m0 b" for b k using gc_layoutD(1) [OF lay a that(1)] that(2) by auto
  ultimately show ?thesis using same a unfolding gc_same_def m'
    by (auto simp: or.assoc)
qed

lemma gc_same_unload:
  assumes lay: "gc_layout m0 wl C" and same: "gc_same m0 wl C V m" and a: "a \<in> C" and un: "gc_unloaded m0 a"
  shows "gc_same m0 wl C V (m(a + 2 := 0, a + 1 := 0))"
proof (rule gc_same_write [OF lay same a])
  have w: "gc_writes m0 a = {a + 1, a + 2}" using un by (simp add: gc_writes_def)
  show "(m(a + 2 := 0, a + 1 := 0)) k = m k" if "\<And>b. b \<in> C \<Longrightarrow> k \<notin> gc_writes m0 b" for k
    using that [OF a] w by auto
  show "(m(a + 2 := 0, a + 1 := 0)) k = m k \<or> gc_unloaded m0 b \<and> k \<in> {b + 1, b + 2} \<and> (m(a + 2 := 0, a + 1 := 0)) k = 0"
    if "b \<in> C" "k \<in> gc_reads m0 b" for b k
    using gc_layoutD(3) [OF lay a that(1)] that(2) w un by (cases "b = a") auto
  have "wl + 2 \<notin> gc_writes m0 a" using gc_layoutD(4) [OF lay a a] by (auto simp: list_words_def)
  then show "unat ((m(a + 2 := 0, a + 1 := 0)) (wl + 2)) \<in> insert (wl - 1) {b \<in> C. gc_weak m0 b}"
    using gc_sameD(3) [OF same] w by auto
qed

lemma gc_same_link:
  assumes lay: "gc_layout m0 wl C" and same: "gc_same m0 wl C V m" and a: "a \<in> C" and wk: "gc_weak m0 a"
  shows "gc_same m0 wl C V (list_LinkAtBack (hb_ClearData m a) wl a)"
proof -
  let ?p = "unat (m (wl + 2))" and ?m' = "list_LinkAtBack (hb_ClearData m a) wl a"
  have w: "gc_writes m0 b = {b + 1, b + 2}" if "gc_weak m0 b" for b using that by (simp add: gc_writes_def)
  have al: "insert a (gc_writes m0 a) \<inter> list_words wl = {}" using gc_layoutD(4) [OF lay a a] by auto
  have a0: "a \<noteq> wl" "wl + 2 \<notin> {a + 1, a + 2}" "wl \<notin> {a + 1, a + 2}" 
    using al w [OF wk] by (auto simp: list_words_def)
  have bounds: "a < 2 ^ 32" "0 < wl" using gc_layoutD(5,6) [OF lay a a] by auto
  have p: "?p = wl - 1 \<or> ?p \<in> C \<and> gc_weak m0 ?p" using gc_sameD(3) [OF same] by auto
  have clear: "hb_ClearData m a = m(a + 1 := 0, a + 2 := 0)"
    by (simp add: hb_ClearData_def hb_SetNext_def hb_SetPrev_def)
  have "hb_RemoveFromList (hb_ClearData m a) a = hb_ClearData m a"
    by (simp add: hb_RemoveFromList_def clear hb_Next_def hb_Prev_def)
  then have eq: "?m' = (if a \<noteq> 0 then m(a + 1 := of_nat wl, a + 2 := of_nat ?p, wl + 2 := of_nat a, ?p + 1 := of_nat a)
      else m(a + 1 := 0, a + 2 := 0))"
    using a0 bounds unfolding list_LinkAtBack_def list_InsertBeforeNode_def list_Tail_def list_Insert_def Let_def clear
    by (simp add: hb_Prev_def hb_SetNext_def hb_SetPrev_def fun_upd_twist)
  have pw: "?p + 1 = wl \<or> ?p + 1 \<in> gc_writes m0 ?p \<and> ?p \<in> C" using p w bounds by auto
  show ?thesis
  proof (rule gc_same_write [OF lay same a])
    show "?m' k = m k" if "k \<notin> list_words wl" "\<And>b. b \<in> C \<Longrightarrow> k \<notin> gc_writes m0 b" for k
    proof -
      have "k \<notin> {a + 1, a + 2, wl + 2, ?p + 1}"
        using that(1) that(2) [OF a] that(2) [of ?p] pw w [OF wk] by (auto simp: list_words_def)
      then show ?thesis unfolding eq by simp
    qed
    show "?m' k = m k \<or> gc_unloaded m0 b \<and> k \<in> {b + 1, b + 2} \<and> ?m' k = 0"
      if bk: "b \<in> C" "k \<in> gc_reads m0 b" "k \<in> gc_writes m0 b" for b k
    proof -
      have nw: "\<not> gc_weak m0 b"
        using bk(2,3) by (auto simp: gc_weak_def gc_reads_def gc_writes_def gc_unloaded_def gc_types)
      have "k \<notin> gc_writes m0 c" if "c \<in> C" "gc_weak m0 c" for c
        using gc_layoutD(3) [OF lay that(1) bk(1)] bk(2) nw that(2) by blast
      moreover have "k \<notin> list_words wl" using gc_layoutD(4) [OF lay bk(1) bk(1)] bk(2) by auto
      ultimately have "k \<noteq> a + 1" "k \<noteq> a + 2" "k \<noteq> wl + 2" "k \<noteq> wl" "?p \<in> C \<and> gc_weak m0 ?p \<longrightarrow> k \<noteq> ?p + 1"
        using a wk w by (auto simp: list_words_def)
      moreover have "?p = wl - 1 \<longrightarrow> ?p + 1 = wl" using bounds by simp
      ultimately have "k \<notin> {a + 1, a + 2, wl + 2, ?p + 1}" using p by auto
      then show ?thesis unfolding eq by simp
    qed
    have "?p + 1 \<noteq> wl + 2"
    proof -
      have "wl + 2 \<notin> gc_writes m0 ?p" if "?p \<in> C" using gc_layoutD(4) [OF lay that that] by (auto simp: list_words_def)
      then show ?thesis using pw bounds by auto
    qed
    then show "unat (?m' (wl + 2)) \<in> insert (wl - 1) {b \<in> C. gc_weak m0 b}"
      using gc_sameD(3) [OF same] a0 a wk hb_ptr [OF bounds(1)] unfolding eq by auto
  qed
qed

text \<open>What is left to do after a visit.\<close>

definition gc_next :: "heap_mem \<Rightarrow> nat set \<Rightarrow> nat \<Rightarrow> nat \<times> u32" where
  "gc_next m0 V a = (if gc_ref m0 a \<noteq> 0 \<and> gc_ref m0 a \<notin> V then (gc_ref m0 a, 1) else gc_list m0 a)"

lemma gc_visit_ok:
  assumes lay: "gc_layout m0 (gc_weakList s) C" and same: "gc_same m0 (gc_weakList s) C V (gc_mem s)"
    and a: "a \<in> C" and cl: "gc_sub m0 a \<noteq> 0 \<Longrightarrow> gc_sub m0 a \<in> C"
  shows "\<exists>m'. gc_visit s a = (s\<lparr>gc_mem := m'\<rparr>, gc_next m0 (insert a V) a) \<and>
    gc_same m0 (gc_weakList s) C (insert a V) m'"
proof -
  let ?m1 = "hb_MarkAlive (gc_mem s) a" and ?wl = "gc_weakList s"
  define m' where "m' = (if gc_unloaded ?m1 a then ?m1(a + 2 := 0, a + 1 := 0)
      else if gc_weak ?m1 a then list_LinkAtBack (hb_ClearData ?m1 a) ?wl a else ?m1)"
  have s1: "gc_same m0 ?wl C (insert a V) ?m1" by (rule gc_same_mark [OF lay same a])
  note view = gc_same_view [OF s1 a]
  have s2: "gc_same m0 ?wl C (insert a V) m'"
    unfolding m'_def using gc_same_unload [OF lay s1 a view(5)] gc_same_link [OF lay s1 a] s1 view(4) by simp
  have sw: "gc_switch ?m1 ?wl a = (m', fst (gc_list m0 a), snd (gc_list m0 a), gc_sub m0 a)"
    unfolding gc_switch_eq m'_def view(2,3) by simp
  have "gc_sub m0 a \<noteq> 0 \<Longrightarrow> hb_IsAlive m' (gc_sub m0 a) \<longleftrightarrow> hb_IsAlive m0 (gc_sub m0 a) \<or> gc_sub m0 a \<in> insert a V"
    using gc_same_view(6) [OF s2 cl] .
  then have "gc_visit s a = (s\<lparr>gc_mem := m'\<rparr>, gc_next m0 (insert a V) a)"
    unfolding gc_visit_def sw gc_next_def gc_ref_def by auto
  then show ?thesis using s2 by blast
qed

section \<open>Pending elements\<close>

definition ms_elems :: "mark_stack \<Rightarrow> (nat \<times> u32) list" where
  "ms_elems ms = take (ms_top ms) (drop 1 (ms_buf ms))"

text \<open>
  The stacks before the current one hold elements, those behind it are empty; every stack has room
  for its sentinel and one more element, and \<open>m_last\<close> is the last element of its array.
\<close>

definition stacks_wf :: "mark_stack list \<Rightarrow> nat \<Rightarrow> bool" where
  "stacks_wf sts cur \<longleftrightarrow> cur < length sts \<and>
     (\<forall>i<length sts. 0 < ms_last (sts ! i) \<and> ms_last (sts ! i) + 1 = length (ms_buf (sts ! i)) \<and>
        ms_top (sts ! i) \<le> ms_last (sts ! i) \<and> snd (ms_buf (sts ! i) ! 0) = 0 \<and>
        (i < cur \<longrightarrow> 0 < ms_top (sts ! i)) \<and> (cur < i \<longrightarrow> ms_top (sts ! i) = 0)) \<and>
     (\<forall>ms\<in>set sts. \<forall>e\<in>set (ms_elems ms). snd e \<noteq> 0)"

definition elems :: "mark_stack list \<Rightarrow> (nat \<times> u32) list" where
  "elems sts = concat (map ms_elems sts)"

text \<open>The state and the locals belong together: the locals are those of the current stack.\<close>

definition in_sync :: "gc_state \<Rightarrow> gc_locals \<Rightarrow> bool" where
  "in_sync s l \<longleftrightarrow> lc_list l = gc_cur s \<and> lc_last l = ms_last (gc_stacks s ! gc_cur s) \<and>
     stacks_wf (gc_stacks (SAVESTATE s l)) (gc_cur s)"

abbreviation pend :: "gc_state \<Rightarrow> gc_locals \<Rightarrow> (nat \<times> u32) list" where
  "pend s l \<equiv> elems (gc_stacks (SAVESTATE s l))"

lemma elems_cur:
  assumes "stacks_wf sts cur"
  shows "elems sts = elems (take cur sts) @ ms_elems (sts ! cur)"
proof -
  have cur: "cur < length sts" using assms by (simp add: stacks_wf_def)
  have "ms_elems ms = []" if ms: "ms \<in> set (drop (Suc cur) sts)" for ms
  proof -
    obtain j where "j < length (drop (Suc cur) sts)" "drop (Suc cur) sts ! j = ms"
      using ms unfolding in_set_conv_nth by blast
    then have "Suc cur + j < length sts" "ms = sts ! (Suc cur + j)" by auto
    then show ?thesis using assms unfolding stacks_wf_def ms_elems_def by simp
  qed
  then have "elems (drop (Suc cur) sts) = []" by (simp add: elems_def)
  moreover have "elems sts = elems (take cur sts) @ ms_elems (sts ! cur) @ elems (drop (Suc cur) sts)"
    using id_take_nth_drop [OF cur] unfolding elems_def by (metis concat.simps(2) concat_append list.simps(9) map_append)
  ultimately show ?thesis by simp
qed

lemma stacks_wf_update:
  assumes wf: "stacks_wf sts cur"
    and ms: "0 < ms_last ms" "ms_last ms + 1 = length (ms_buf ms)" "ms_top ms \<le> ms_last ms" "snd (ms_buf ms ! 0) = 0"
      "\<And>e. e \<in> set (ms_elems ms) \<Longrightarrow> snd e \<noteq> 0"
  shows "stacks_wf (sts[cur := ms]) cur" "elems (sts[cur := ms]) = elems (take cur sts) @ ms_elems ms"
proof -
  have cur: "cur < length sts" using wf by (simp add: stacks_wf_def)
  show *: "stacks_wf (sts[cur := ms]) cur"
    using wf ms unfolding stacks_wf_def by (auto simp: nth_list_update dest!: subsetD [OF set_update_subset_insert])
  show "elems (sts[cur := ms]) = elems (take cur sts) @ ms_elems ms"
    using elems_cur [OF *] cur by simp
qed

lemma ms_elems_push:
  assumes "ms_top ms + 1 < length (ms_buf ms)"
  shows "ms_elems (ms\<lparr>ms_buf := (ms_buf ms)[ms_top ms + 1 := e], ms_top := ms_top ms + 1\<rparr>) = ms_elems ms @ [e]"
proof -
  obtain x xs where b: "ms_buf ms = x # xs" using assms by (cases "ms_buf ms") auto
  have "take (Suc n) (xs[n := e]) = take n xs @ [e]" if "n < length xs" for n
    using that by (simp add: take_Suc_conv_app_nth)
  then show ?thesis using assms by (simp add: ms_elems_def b)
qed

lemma ms_elems_top:
  assumes "0 < ms_top ms" "ms_top ms < length (ms_buf ms)"
  shows "ms_elems ms = ms_elems (ms\<lparr>ms_top := ms_top ms - 1\<rparr>) @ [ms_buf ms ! ms_top ms]"
    "ms_elems (ms\<lparr>ms_buf := (ms_buf ms)[ms_top ms := e]\<rparr>) = ms_elems (ms\<lparr>ms_top := ms_top ms - 1\<rparr>) @ [e]"
    "ms_elems (ms\<lparr>ms_buf := (ms_buf ms)[ms_top ms := e], ms_top := ms_top ms - 1\<rparr>) = ms_elems (ms\<lparr>ms_top := ms_top ms - 1\<rparr>)"
proof -
  obtain x xs where b: "ms_buf ms = x # xs" using assms by (cases "ms_buf ms") auto
  obtain n where n: "ms_top ms = Suc n" "n < length xs" using assms by (cases "ms_top ms") (auto simp: b)
  show "ms_elems ms = ms_elems (ms\<lparr>ms_top := ms_top ms - 1\<rparr>) @ [ms_buf ms ! ms_top ms]"
    "ms_elems (ms\<lparr>ms_buf := (ms_buf ms)[ms_top ms := e]\<rparr>) = ms_elems (ms\<lparr>ms_top := ms_top ms - 1\<rparr>) @ [e]"
    "ms_elems (ms\<lparr>ms_buf := (ms_buf ms)[ms_top ms := e], ms_top := ms_top ms - 1\<rparr>) = ms_elems (ms\<lparr>ms_top := ms_top ms - 1\<rparr>)"
    using n by (simp_all add: ms_elems_def b take_Suc_conv_app_nth)
qed

text \<open>The saved stacks, and what the locals see of them.\<close>

lemma sync_view:
  assumes "in_sync s l"
  defines "sts \<equiv> gc_stacks (SAVESTATE s l)"
  shows "stacks_wf sts (gc_cur s)" "gc_cur s < length sts" "length (gc_stacks s) = length sts"
    "sts ! gc_cur s = (gc_stacks s ! gc_cur s)\<lparr>ms_top := lc_stack l\<rparr>"
    "sts = (gc_stacks s)[gc_cur s := (gc_stacks s ! gc_cur s)\<lparr>ms_top := lc_stack l\<rparr>]"
    "lc_last l + 1 = length (ms_buf (gc_stacks s ! gc_cur s))" "lc_stack l \<le> lc_last l"
    "snd (ms_buf (gc_stacks s ! gc_cur s) ! 0) = 0"
proof -
  have eq: "(gc_stacks s ! gc_cur s)\<lparr>ms_last := lc_last l, ms_top := lc_stack l\<rparr> = (gc_stacks s ! gc_cur s)\<lparr>ms_top := lc_stack l\<rparr>"
    using assms(1) by (simp add: in_sync_def)
  then show sts: "sts = (gc_stacks s)[gc_cur s := (gc_stacks s ! gc_cur s)\<lparr>ms_top := lc_stack l\<rparr>]"
    by (simp add: sts_def SAVESTATE_def)
  show wf: "stacks_wf sts (gc_cur s)" using assms by (simp add: in_sync_def sts_def)
  then show cur: "gc_cur s < length sts" by (simp add: stacks_wf_def)
  show len: "length (gc_stacks s) = length sts" by (simp add: sts)
  show at: "sts ! gc_cur s = (gc_stacks s ! gc_cur s)\<lparr>ms_top := lc_stack l\<rparr>" using cur by (simp add: sts)
  have "ms_last (sts ! gc_cur s) + 1 = length (ms_buf (sts ! gc_cur s))" "ms_top (sts ! gc_cur s) \<le> ms_last (sts ! gc_cur s)"
    "snd (ms_buf (sts ! gc_cur s) ! 0) = 0" using wf cur by (auto simp: stacks_wf_def)
  then show "lc_last l + 1 = length (ms_buf (gc_stacks s ! gc_cur s))" "lc_stack l \<le> lc_last l"
    "snd (ms_buf (gc_stacks s ! gc_cur s) ! 0) = 0"
    using assms(1) by (simp_all add: at in_sync_def)
qed

lemma sync_push:
  assumes sync: "in_sync s l" and room: "lc_stack l + 1 < length (ms_buf (gc_stacks s ! lc_list l))" and e: "snd e \<noteq> 0"
  defines "l1 \<equiv> l\<lparr>lc_stack := lc_stack l + 1\<rparr>"
  shows "in_sync (set_elem s l1 e) l1" "pend (set_elem s l1 e) l1 = pend s l @ [e]"
proof -
  let ?sts = "gc_stacks (SAVESTATE s l)" and ?cur = "gc_cur s"
  note v = sync_view [OF sync]
  have l: "lc_list l = ?cur" "lc_last l = ms_last (gc_stacks s ! ?cur)" using sync by (simp_all add: in_sync_def)
  let ?ms = "?sts ! ?cur"
  let ?ms' = "?ms\<lparr>ms_buf := (ms_buf ?ms)[ms_top ?ms + 1 := e], ms_top := ms_top ?ms + 1\<rparr>"
  have len: "?cur < length (gc_stacks s)" using v(2) unfolding v(3) [symmetric] .
  have new: "gc_stacks (SAVESTATE (set_elem s l1 e) l1) = ?sts[?cur := ?ms']" "gc_cur (set_elem s l1 e) = ?cur"
    using len l by (simp_all add: SAVESTATE_def set_elem_def l1_def Let_def)
  have room': "ms_top ?ms + 1 < length (ms_buf ?ms)" using room l by (simp add: v(4))
  have wf: "0 < ms_last ?ms" "ms_last ?ms + 1 = length (ms_buf ?ms)" "snd (ms_buf ?ms ! 0) = 0"
      "\<And>e. e \<in> set (ms_elems ?ms) \<Longrightarrow> snd e \<noteq> 0"
    using v(1,2) by (auto simp: stacks_wf_def)
  have up: "stacks_wf (?sts[?cur := ?ms']) ?cur" "elems (?sts[?cur := ?ms']) = elems (take ?cur ?sts) @ ms_elems ?ms'"
    using stacks_wf_update [OF v(1), of ?ms'] wf room' e ms_elems_push [OF room', of e] by auto
  then show "pend (set_elem s l1 e) l1 = pend s l @ [e]"
    unfolding new elems_cur [OF v(1)] ms_elems_push [OF room'] by simp
  show "in_sync (set_elem s l1 e) l1" using up(1) l len
    unfolding in_sync_def new by (simp add: l1_def set_elem_def Let_def)
qed

lemma ms_commute: "ms\<lparr>ms_top := t, ms_buf := b\<rparr> = ms\<lparr>ms_buf := b, ms_top := t\<rparr>"
  by (cases ms) simp

lemma sync_pop:
  assumes sync: "in_sync s l" and e: "stack_elem s l = (p, n)" "n \<noteq> 0"
  obtains E where "pend s l = E @ [(p, n)]" "0 < lc_stack l"
    "n - 1 \<noteq> 0 \<Longrightarrow> in_sync (set_elem s l (p + 3, n - 1)) l \<and> pend (set_elem s l (p + 3, n - 1)) l = E @ [(p + 3, n - 1)]"
    "in_sync (set_elem s l e') (l\<lparr>lc_stack := lc_stack l - 1\<rparr>)" "pend (set_elem s l e') (l\<lparr>lc_stack := lc_stack l - 1\<rparr>) = E"
proof -
  let ?sts = "gc_stacks (SAVESTATE s l)" and ?cur = "gc_cur s"
  note v = sync_view [OF sync]
  have l: "lc_list l = ?cur" "lc_last l = ms_last (gc_stacks s ! ?cur)" using sync by (simp_all add: in_sync_def)
  have len: "?cur < length (gc_stacks s)" using v(2) unfolding v(3) [symmetric] .
  let ?ms = "?sts ! ?cur"
  let ?ms1 = "\<lambda>e. ?ms\<lparr>ms_buf := (ms_buf ?ms)[ms_top ?ms := e]\<rparr>"
  let ?ms2 = "\<lambda>e. ?ms\<lparr>ms_buf := (ms_buf ?ms)[ms_top ?ms := e], ms_top := ms_top ?ms - 1\<rparr>"
  let ?E = "elems (take ?cur ?sts) @ ms_elems (?ms\<lparr>ms_top := ms_top ?ms - 1\<rparr>)"
  have top: "ms_top ?ms = lc_stack l" "ms_buf ?ms = ms_buf (gc_stacks s ! ?cur)" by (simp_all add: v(4))
  have at: "ms_buf ?ms ! ms_top ?ms = (p, n)" using e(1) l by (simp add: stack_elem_def top)
  have pos: "0 < lc_stack l" using v(8) at e(2) unfolding top by (cases "lc_stack l") auto
  have range: "0 < ms_top ?ms" "ms_top ?ms < length (ms_buf ?ms)" using pos v(6,7) by (simp_all add: top)
  note T = ms_elems_top [OF range]
  have wf: "0 < ms_last ?ms" "ms_last ?ms + 1 = length (ms_buf ?ms)" "snd (ms_buf ?ms ! 0) = 0" "ms_top ?ms \<le> ms_last ?ms"
      "\<And>e. e \<in> set (ms_elems ?ms) \<Longrightarrow> snd e \<noteq> 0"
    using v(1,2) by (auto simp: stacks_wf_def)
  have new1: "gc_stacks (SAVESTATE (set_elem s l e) l) = ?sts[?cur := ?ms1 e]" "gc_cur (set_elem s l e) = ?cur" for e
    using len l by (simp_all add: SAVESTATE_def set_elem_def Let_def v(4) ms_commute)
  have new2: "gc_stacks (SAVESTATE (set_elem s l e) (l\<lparr>lc_stack := lc_stack l - 1\<rparr>)) = ?sts[?cur := ?ms2 e]" for e
    using len l by (simp_all add: SAVESTATE_def set_elem_def Let_def v(4) ms_commute)
  show thesis
  proof (rule that [of ?E])
    show "pend s l = ?E @ [(p, n)]" using elems_cur [OF v(1)] T(1) at by simp
    show "0 < lc_stack l" by (rule pos)
    have elem: "snd e \<noteq> 0" if "e \<in> set (ms_elems (?ms\<lparr>ms_top := ms_top ?ms - 1\<rparr>))" for e
      using that wf(5) [of e] T(1) by (metis UnI1 set_append)
    show "in_sync (set_elem s l (p + 3, n - 1)) l \<and> pend (set_elem s l (p + 3, n - 1)) l = ?E @ [(p + 3, n - 1)]" if "n - 1 \<noteq> 0"
    proof -
      have "snd e \<noteq> 0" if "e \<in> set (ms_elems (?ms1 (p + 3, n - 1)))" for e
        using that elem [of e] \<open>n - 1 \<noteq> 0\<close> unfolding T(2) by auto
      note up = stacks_wf_update [OF v(1), of "?ms1 (p + 3, n - 1)", OF _ _ _ _ this]
      have up: "stacks_wf (?sts[?cur := ?ms1 (p + 3, n - 1)]) ?cur"
          "elems (?sts[?cur := ?ms1 (p + 3, n - 1)]) = elems (take ?cur ?sts) @ ms_elems (?ms1 (p + 3, n - 1))"
        by (rule up; use wf(1-4) range in simp)+
      then show ?thesis using l len T(2) [of "(p + 3, n - 1)"]
        unfolding in_sync_def new1 by (simp add: set_elem_def Let_def)
    qed
    have "snd e \<noteq> 0" if "e \<in> set (ms_elems (?ms2 e'))" for e
      using that elem [of e] unfolding T(3) by auto
    note up = stacks_wf_update [OF v(1), of "?ms2 e'", OF _ _ _ _ this]
    have up: "stacks_wf (?sts[?cur := ?ms2 e']) ?cur" "elems (?sts[?cur := ?ms2 e']) = elems (take ?cur ?sts) @ ms_elems (?ms2 e')"
      by (rule up; use wf(1-4) range in simp)+
    note up = this [unfolded T(3)]
    then show "in_sync (set_elem s l e') (l\<lparr>lc_stack := lc_stack l - 1\<rparr>)" "pend (set_elem s l e') (l\<lparr>lc_stack := lc_stack l - 1\<rparr>) = ?E"
      using l len unfolding in_sync_def new2 by (simp_all add: set_elem_def Let_def)
  qed
qed

text \<open>Going back to the stack before, and on to a new one.\<close>

lemma sync_back:
  assumes sync: "in_sync s l" and e: "snd (stack_elem s l) = 0" and c: "lc_list l \<noteq> 0"
  defines "s1 \<equiv> (SAVESTATE s l)\<lparr>gc_cur := lc_list l - 1\<rparr>"
  defines "l1 \<equiv> LOADSTATE s1 l"
  shows "in_sync s1 l1" "pend s1 l1 = pend s l" "snd (stack_elem s1 l1) \<noteq> 0"
proof -
  let ?sts = "gc_stacks (SAVESTATE s l)" and ?cur = "gc_cur s"
  note v = sync_view [OF sync]
  have l: "lc_list l = ?cur" using sync by (simp add: in_sync_def)
  have wf: "0 < ms_last (?sts ! i)" "ms_last (?sts ! i) + 1 = length (ms_buf (?sts ! i))" "ms_top (?sts ! i) \<le> ms_last (?sts ! i)"
      "i < ?cur \<Longrightarrow> 0 < ms_top (?sts ! i)" "?cur < i \<Longrightarrow> ms_top (?sts ! i) = 0" if "i < length ?sts" for i
    using v(1) that by (auto simp: stacks_wf_def)
  have elem: "snd e \<noteq> 0" if "ms \<in> set ?sts" "e \<in> set (ms_elems ms)" for ms e
    using v(1) that by (auto simp: stacks_wf_def)
  have at: "ms_buf (?sts ! i) ! ms_top (?sts ! i) \<in> set (ms_elems (?sts ! i))" if "i < length ?sts" "0 < ms_top (?sts ! i)" for i
    using ms_elems_top(1) [of "?sts ! i"] wf(2,3) [OF that(1)] that(2) by (metis in_set_conv_decomp less_Suc_eq_le Suc_eq_plus1)
  have top0: "lc_stack l = 0"
  proof (rule ccontr)
    assume "lc_stack l \<noteq> 0"
    then have "snd (ms_buf (?sts ! ?cur) ! ms_top (?sts ! ?cur)) \<noteq> 0"
      using elem [OF nth_mem [OF v(2)] at [OF v(2)]] by (simp add: v(4))
    then show False using e by (simp add: stack_elem_def l v(4))
  qed
  have s1: "gc_cur s1 = ?cur - 1" "gc_stacks s1 = ?sts" by (simp_all add: s1_def l)
  have l1: "lc_list l1 = ?cur - 1" "lc_last l1 = ms_last (?sts ! (?cur - 1))" "lc_stack l1 = ms_top (?sts ! (?cur - 1))"
    by (simp_all add: l1_def LOADSTATE_def s1)
  have save: "gc_stacks (SAVESTATE s1 l1) = ?sts" by (simp add: SAVESTATE_def [of s1 l1] s1 l1)
  have cur: "?cur - 1 < length ?sts" "0 < ?cur" using v(2) c l by simp_all
  have "ms_top (?sts ! ?cur) = 0" by (simp add: v(4) top0)
  then have "ms_top (?sts ! i) = 0" if "?cur - 1 < i" "i < length ?sts" for i
    using wf(5) [OF that(2)] that(1) cur(2) by (cases "i = ?cur") auto
  then have "stacks_wf ?sts (?cur - 1)"
    using v(1) cur unfolding stacks_wf_def by auto
  then show "in_sync s1 l1" unfolding in_sync_def save by (simp add: l1 s1)
  show "pend s1 l1 = pend s l" by (simp add: save)
  show "snd (stack_elem s1 l1) \<noteq> 0"
    using elem [OF nth_mem [OF cur(1)] at [OF cur(1)]] wf(4) [OF cur(1)] cur(2) by (simp add: stack_elem_def l1 s1)
qed

lemma sync_grow:
  fixes k n :: nat
  assumes sync: "in_sync s l" and full: "lc_stack l = lc_last l" "lc_list l + 1 = length (gc_stacks s)" and n: "1 < n"
  defines "s1 \<equiv> (SAVESTATE s l)\<lparr>gc_calls := k, gc_stacks := gc_stacks (SAVESTATE s l) @ [MarkStack_Initialize n],
     gc_cur := length (gc_stacks (SAVESTATE s l))\<rparr>"
  defines "l1 \<equiv> LOADSTATE s1 l"
  shows "in_sync s1 l1" "pend s1 l1 = pend s l" "lc_stack l1 + 1 < length (ms_buf (gc_stacks s1 ! lc_list l1))"
proof -
  let ?sts = "gc_stacks (SAVESTATE s l)" and ?cur = "gc_cur s" and ?new = "MarkStack_Initialize n"
  note v = sync_view [OF sync]
  have l: "lc_list l = ?cur" using sync by (simp add: in_sync_def)
  have len: "length ?sts = ?cur + 1" using full(2) l v(3) by simp
  have s1: "gc_cur s1 = ?cur + 1" "gc_stacks s1 = ?sts @ [?new]" by (simp_all add: s1_def len)
  have new: "(?sts @ [?new]) ! (?cur + 1) = ?new" using len by (metis nth_append_length)
  have l1: "lc_list l1 = ?cur + 1" "lc_last l1 = n - 1" "lc_stack l1 = 0"
    unfolding l1_def LOADSTATE_def s1 new by (simp_all add: MarkStack_Initialize_def)
  have save: "gc_stacks (SAVESTATE s1 l1) = ?sts @ [?new]"
    unfolding SAVESTATE_def [of s1 l1] s1 l1 new using len by (simp add: list_update_append MarkStack_Initialize_def)
  have wf: "0 < ms_last (?sts ! i) \<and> ms_last (?sts ! i) + 1 = length (ms_buf (?sts ! i)) \<and>
      ms_top (?sts ! i) \<le> ms_last (?sts ! i) \<and> snd (ms_buf (?sts ! i) ! 0) = 0 \<and> 0 < ms_top (?sts ! i)" if "i < ?cur + 1" for i
  proof -
    have "ms_top (?sts ! ?cur) = lc_last l" "0 < lc_last l"
      using v(1,2,4) full(1) sync by (auto simp: stacks_wf_def in_sync_def)
    then show ?thesis using v(1) that len unfolding stacks_wf_def by (cases "i = ?cur") auto
  qed
  have "ms_elems ?new = []" by (simp add: ms_elems_def MarkStack_Initialize_def)
  then have "stacks_wf (?sts @ [?new]) (?cur + 1)" "elems (?sts @ [?new]) = elems ?sts"
    using wf v(1) n len unfolding stacks_wf_def elems_def
    by (auto simp: nth_append MarkStack_Initialize_def less_Suc_eq)
  then show "in_sync s1 l1" "pend s1 l1 = pend s l"
    unfolding in_sync_def save s1 l1 new by (simp_all add: MarkStack_Initialize_def)
  show "lc_stack l1 + 1 < length (ms_buf (gc_stacks s1 ! lc_list l1))"
    unfolding s1 l1 new using n by (simp add: MarkStack_Initialize_def)
qed

end
