(* ===== verification/GcWalk.thy ===== *)
theory GcWalk
  imports GcMark
begin

text \<open>
  The marking loop of \<open>GcMark\<close> as a walk over the graph of blocks: the stacks are gone, what is left
  is the set of cells seen, the lists pending, the list at hand and the flag of a dropped list. The
  loop refines this walk (\<open>gc_step_sim\<close>); its invariant says that every block seen leads to blocks
  seen or pending, its progress that a list is dropped only after a block was seen for the first
  time, and its measure that it ends. \<open>MarkSlow\<close> therefore ends with nothing pending and nothing
  dropped (\<open>MarkSlow_post\<close>).
\<close>

section \<open>The marking as a walk over the graph\<close>

text \<open>
  What the loop does, without the stacks: the cells seen, the lists still to do, the list at hand,
  and whether one was dropped.
\<close>

record walk =
  wk_seen :: "nat set"
  wk_pend :: "(nat \<times> u32) list"
  wk_cur :: "nat \<times> u32"
  wk_out :: bool

definition walk_visit :: "heap_mem \<Rightarrow> walk \<Rightarrow> nat \<Rightarrow> walk" where
  "walk_visit m0 w p = w\<lparr>wk_seen := insert p (wk_seen w), wk_cur := gc_next m0 (insert p (wk_seen w)) p\<rparr>"

inductive walk_step :: "heap_mem \<Rightarrow> walk \<Rightarrow> walk \<Rightarrow> bool" for m0 where
  walk_pop: "snd (wk_cur w) = 0 \<Longrightarrow> wk_pend w = E @ [(p, n)] \<Longrightarrow> n \<noteq> 0 \<Longrightarrow>
    walk_step m0 w (walk_visit m0 (w\<lparr>wk_pend := E @ (if n - 1 = 0 then [] else [(p + 3, n - 1)])\<rparr>) p)"
| walk_push: "1 < n \<Longrightarrow> wk_cur w = (p, n) \<Longrightarrow>
    walk_step m0 w (walk_visit m0 (w\<lparr>wk_pend := wk_pend w @ [(p + 3, n - 1)]\<rparr>) p)"
| walk_drop: "1 < snd (wk_cur w) \<Longrightarrow> wk_pend w \<noteq> [] \<Longrightarrow>
    walk_step m0 w (w\<lparr>wk_cur := (0, 0), wk_out := True\<rparr>)"
| walk_enter: "wk_cur w = (p, 1) \<Longrightarrow> walk_step m0 w (walk_visit m0 w p)"

definition gc_rel :: "heap_mem \<Rightarrow> nat set \<Rightarrow> gc_state \<Rightarrow> gc_locals \<Rightarrow> walk \<Rightarrow> bool" where
  "gc_rel m0 C s l w \<longleftrightarrow> in_sync s l \<and> pend s l = wk_pend w \<and> (lc_lst l, lc_num l) = wk_cur w \<and>
     gc_out s = wk_out w \<and> gc_same m0 (gc_weakList s) C (wk_seen w) (gc_mem s)"

lemma sync_other [simp]:
  "in_sync (s\<lparr>gc_mem := m\<rparr>) l = in_sync s l" "pend (s\<lparr>gc_mem := m\<rparr>) l = pend s l"
  "in_sync s (l\<lparr>lc_lst := a, lc_num := n\<rparr>) = in_sync s l" "pend s (l\<lparr>lc_lst := a, lc_num := n\<rparr>) = pend s l"
  "in_sync (s\<lparr>gc_calls := k, gc_out := b\<rparr>) l = in_sync s l" "pend (s\<lparr>gc_calls := k, gc_out := b\<rparr>) l = pend s l"
  by (simp_all add: in_sync_def SAVESTATE_def)

lemma set_elem_other [simp]:
  "gc_mem (set_elem s l e) = gc_mem s" "gc_weakList (set_elem s l e) = gc_weakList s" "gc_out (set_elem s l e) = gc_out s"
  "length (gc_stacks (set_elem s l e)) = length (gc_stacks s)" "gc_cur (set_elem s l e) = gc_cur s"
  by (simp_all add: set_elem_def Let_def)

lemma SAVESTATE_other [simp]:
  "gc_mem (SAVESTATE s l) = gc_mem s" "gc_weakList (SAVESTATE s l) = gc_weakList s" "gc_out (SAVESTATE s l) = gc_out s"
  "length (gc_stacks (SAVESTATE s l)) = length (gc_stacks s)" "gc_cur (SAVESTATE s l) = lc_list l"
  by (simp_all add: SAVESTATE_def)

lemma LOADSTATE_other [simp]: "lc_lst (LOADSTATE s l) = lc_lst l" "lc_num (LOADSTATE s l) = lc_num l"
  by (simp_all add: LOADSTATE_def)

text \<open>A visit in the model is a visit of the walk.\<close>

lemma gc_enter_sim:
  assumes lay: "gc_layout m0 (gc_weakList s) C" and same: "gc_same m0 (gc_weakList s) C (wk_seen w) (gc_mem s)"
    and sync: "in_sync s l" "pend s l = wk_pend w" "gc_out s = wk_out w"
    and a: "a \<in> C" "gc_sub m0 a \<noteq> 0 \<Longrightarrow> gc_sub m0 a \<in> C"
  shows "\<exists>s' l'. gc_enter s l a = Mark_Next s' l' \<and> gc_rel m0 C s' l' (walk_visit m0 w a) \<and>
    gc_weakList s' = gc_weakList s \<and> length (gc_stacks s') = length (gc_stacks s)"
proof -
  obtain m' where m': "gc_visit s a = (s\<lparr>gc_mem := m'\<rparr>, gc_next m0 (insert a (wk_seen w)) a)"
      "gc_same m0 (gc_weakList s) C (insert a (wk_seen w)) m'"
    using gc_visit_ok [OF lay same a] by blast
  obtain lst num where n: "gc_next m0 (insert a (wk_seen w)) a = (lst, num)" by fastforce
  show ?thesis
    using m' n sync unfolding gc_enter_def gc_rel_def walk_visit_def by simp
qed


lemma cells_iff: "c \<in> cells e \<longleftrightarrow> (\<exists>i<unat (snd e). c = fst e + 3 * i)"
  by (auto simp: cells_def)

lemma cells_head: "n \<noteq> 0 \<Longrightarrow> p \<in> cells (p, n)"
  by (auto simp: cells_iff intro!: exI [of _ 0]) (simp add: unat_gt_0)

lemma gc_try_granted: "gc_try alloc n e = (k, Some c) \<Longrightarrow> \<exists>n e. alloc n e"
  by (induction alloc n e rule: gc_try.induct) (subst (asm) (2) gc_try.simps, auto split: if_splits)

text \<open>One stack that is never extended never overruns; whether it is can be read off the requests.\<close>

definition gc_extended :: "(nat \<Rightarrow> nat \<Rightarrow> bool) \<Rightarrow> gc_state \<Rightarrow> bool" where
  "gc_extended alloc s \<longleftrightarrow> 1 < length (gc_stacks s) \<or> (\<exists>n e. alloc n e)"

lemma gc_pop_sim:
  assumes lay: "gc_layout m0 (gc_weakList s) C" and rel: "gc_rel m0 C s l w" and num: "snd (wk_cur w) = 0"
    and top: "snd (stack_elem s l) \<noteq> 0"
    and C: "\<And>a. a \<in> C \<Longrightarrow> gc_sub m0 a \<noteq> 0 \<Longrightarrow> gc_sub m0 a \<in> C" "\<And>e. e \<in> set (wk_pend w) \<Longrightarrow> cells e \<subseteq> C"
  shows "\<exists>s' l' w'. gc_pop s l = Mark_Next s' l' \<and> walk_step m0 w w' \<and> gc_rel m0 C s' l' w' \<and>
    gc_weakList s' = gc_weakList s \<and> length (gc_stacks s') = length (gc_stacks s)"
proof -
  obtain p n where e: "stack_elem s l = (p, n)" "n \<noteq> 0" using top by (cases "stack_elem s l") auto
  let ?e = "(p + 3, n - 1)"
  have sync: "in_sync s l" and same: "gc_same m0 (gc_weakList s) C (wk_seen w) (gc_mem s)" and pd: "pend s l = wk_pend w"
    and out: "gc_out s = wk_out w"
    using rel by (simp_all add: gc_rel_def)
  obtain E where E: "pend s l = E @ [(p, n)]" "0 < lc_stack l"
    "n - 1 \<noteq> 0 \<Longrightarrow> in_sync (set_elem s l ?e) l \<and> pend (set_elem s l ?e) l = E @ [?e]"
    "in_sync (set_elem s l ?e) (l\<lparr>lc_stack := lc_stack l - 1\<rparr>)" "pend (set_elem s l ?e) (l\<lparr>lc_stack := lc_stack l - 1\<rparr>) = E"
    by (rule sync_pop [OF sync e, of ?e]) blast
  have p: "p \<in> C" using C(2) [of "(p, n)"] cells_head [OF e(2), of p] E(1) pd by auto
  define l1 where "l1 = (if n - 1 = 0 then l\<lparr>lc_stack := lc_stack l - 1\<rparr> else l)"
  let ?w = "w\<lparr>wk_pend := E @ (if n - 1 = 0 then [] else [?e])\<rparr>"
  have "gc_pop s l = gc_enter (set_elem s l ?e) l1 p"
    using E(2) by (simp add: gc_pop_def e l1_def Let_def)
  moreover have "\<exists>s' l'. gc_enter (set_elem s l ?e) l1 p = Mark_Next s' l' \<and> gc_rel m0 C s' l' (walk_visit m0 ?w p) \<and>
    gc_weakList s' = gc_weakList (set_elem s l ?e) \<and> length (gc_stacks s') = length (gc_stacks (set_elem s l ?e))"
    using lay same out E(3-5) p C(1) by (intro gc_enter_sim) (auto simp: l1_def)
  moreover have "walk_step m0 w (walk_visit m0 ?w p)"
    using num E(1) e(2) unfolding pd by (rule walk_pop)
  ultimately show ?thesis by auto
qed

lemma gc_push_sim:
  assumes lay: "gc_layout m0 (gc_weakList s) C" and same: "gc_same m0 (gc_weakList s) C (wk_seen w) (gc_mem s)"
    and sync: "in_sync s l" "pend s l = wk_pend w" "gc_out s = wk_out w" and cur: "(lc_lst l, lc_num l) = wk_cur w" "1 < lc_num l"
    and C: "\<And>a. a \<in> C \<Longrightarrow> gc_sub m0 a \<noteq> 0 \<Longrightarrow> gc_sub m0 a \<in> C" "cells (wk_cur w) \<subseteq> C"
    and room: "lc_stack l + 1 < length (ms_buf (gc_stacks s ! lc_list l))"
  shows "\<exists>s' l' w'. gc_push s l = Mark_Next s' l' \<and> walk_step m0 w w' \<and> gc_rel m0 C s' l' w' \<and>
    gc_weakList s' = gc_weakList s \<and> length (gc_stacks s') = length (gc_stacks s)"
proof -
  let ?e = "(lc_lst l + 3, lc_num l - 1)" and ?l1 = "l\<lparr>lc_stack := lc_stack l + 1\<rparr>" and ?p = "lc_lst l"
  have n: "lc_num l \<noteq> 0" "snd ?e \<noteq> 0" using cur(2) by auto
  note push = sync_push [OF sync(1) room n(2)]
  have p: "?p \<in> C" using C(2) cells_head [OF n(1), of ?p] unfolding cur(1) [symmetric] by auto
  let ?w = "w\<lparr>wk_pend := wk_pend w @ [?e]\<rparr>"
  have "gc_push s l = gc_enter (set_elem s ?l1 ?e) ?l1 ?p"
    using room by (simp add: gc_push_def Let_def)
  moreover have "\<exists>s' l'. gc_enter (set_elem s ?l1 ?e) ?l1 ?p = Mark_Next s' l' \<and> gc_rel m0 C s' l' (walk_visit m0 ?w ?p) \<and>
    gc_weakList s' = gc_weakList (set_elem s ?l1 ?e) \<and> length (gc_stacks s') = length (gc_stacks (set_elem s ?l1 ?e))"
    using lay same push sync p C(1) by (intro gc_enter_sim) auto
  moreover have "walk_step m0 w (walk_visit m0 ?w ?p)"
    by (rule walk_push [OF cur(2) cur(1) [symmetric]])
  ultimately show ?thesis by auto
qed

text \<open>
  With another stack already linked behind a full one, the saved state is loaded again and the push
  writes behind the array of the full stack.
\<close>

lemma gc_step_later:
  assumes sync: "in_sync s l" and full: "lc_stack l = lc_last l" and num: "1 < lc_num l"
    and later: "lc_list l + 1 < length (gc_stacks s)"
  shows "gc_step alloc s l = Mark_Overrun"
proof -
  note v = sync_view [OF sync]
  have l: "lc_list l = gc_cur s" using sync by (simp add: in_sync_def)
  let ?s1 = "SAVESTATE s l"
  let ?l1 = "LOADSTATE ?s1 (l\<lparr>lc_list := lc_list l + 1\<rparr>)"
  have "gc_step alloc s l = gc_push ?s1 ?l1"
    using num full later unfolding gc_step_def gc_full_def by (auto simp: Let_def)
  also have "gc_push ?s1 ?l1 = Mark_Overrun"
    using v(4,6) full by (simp add: gc_push_def LOADSTATE_def l Let_def)
  finally show ?thesis .
qed

lemma gc_step_sim:
  assumes lay: "gc_layout m0 (gc_weakList s) C" and rel: "gc_rel m0 C s l w"
    and C: "\<And>a. a \<in> C \<Longrightarrow> gc_sub m0 a \<noteq> 0 \<Longrightarrow> gc_sub m0 a \<in> C" "\<And>e. e \<in> set (wk_pend w) \<Longrightarrow> cells e \<subseteq> C"
      "cells (wk_cur w) \<subseteq> C"
  shows "(\<exists>s' l' w'. gc_step alloc s l = Mark_Next s' l' \<and> walk_step m0 w w' \<and> gc_rel m0 C s' l' w' \<and>
      gc_weakList s' = gc_weakList s \<and> (gc_extended alloc s' \<longrightarrow> gc_extended alloc s)) \<or>
    gc_step alloc s l = Mark_Done (SAVESTATE s l) \<and> snd (wk_cur w) = 0 \<and> wk_pend w = [] \<and> gc_cur s = 0 \<or>
    gc_step alloc s l = Mark_Overrun \<and> gc_extended alloc s" (is "?next \<or> ?done \<or> ?over")
proof -
  have sync: "in_sync s l" and same: "gc_same m0 (gc_weakList s) C (wk_seen w) (gc_mem s)" and pd: "pend s l = wk_pend w"
    and cur: "(lc_lst l, lc_num l) = wk_cur w" and out: "gc_out s = wk_out w"
    using rel by (simp_all add: gc_rel_def)
  have num: "snd (wk_cur w) = lc_num l" unfolding cur [symmetric] by simp
  note v = sync_view [OF sync]
  have l: "lc_list l = gc_cur s" using sync by (simp add: in_sync_def)
  consider (pop) "lc_num l = 0" "snd (stack_elem s l) \<noteq> 0" | (finished) "lc_num l = 0" "snd (stack_elem s l) = 0" "lc_list l = 0"
    | (prev) "lc_num l = 0" "snd (stack_elem s l) = 0" "lc_list l \<noteq> 0" | (push) "1 < lc_num l" "lc_stack l \<noteq> lc_last l"
    | (full) "1 < lc_num l" "lc_stack l = lc_last l" | (enter) "lc_num l = 1"
  proof -
    have "lc_num l = 0 \<or> lc_num l = 1 \<or> 1 < lc_num l"
      by unat_arith
    then show ?thesis using that by blast
  qed
  then show ?thesis
  proof cases
    case pop
    then have "gc_step alloc s l = gc_pop s l" by (simp add: gc_step_def)
    then show ?thesis using gc_pop_sim [OF lay rel _ pop(2) C(1,2)] pop(1) num by (fastforce simp: gc_extended_def)
  next
    case finished
    have "lc_stack l = 0"
    proof (rule ccontr)
      let ?ms = "gc_stacks (SAVESTATE s l) ! gc_cur s"
      assume "lc_stack l \<noteq> 0"
      then have "0 < ms_top ?ms" "ms_top ?ms < length (ms_buf ?ms)" using v(4,6,7) by simp_all
      then have "ms_buf ?ms ! ms_top ?ms \<in> set (ms_elems ?ms)" by (metis ms_elems_top(1) in_set_conv_decomp)
      then have "snd (ms_buf ?ms ! ms_top ?ms) \<noteq> 0" using v(1,2) unfolding stacks_wf_def by (meson nth_mem)
      then show False using finished(2) by (simp add: v(4) stack_elem_def l)
    qed
    then have "pend s l = []"
      using elems_cur [OF v(1)] finished(3) l by (simp add: v(4) ms_elems_def elems_def)
    then show ?thesis using finished l num pd by (simp add: gc_step_def)
  next
    case prev
    let ?s1 = "(SAVESTATE s l)\<lparr>gc_cur := lc_list l - 1\<rparr>"
    let ?l1 = "LOADSTATE ?s1 l"
    note b = sync_back [OF sync prev(2,3)]
    have "gc_step alloc s l = gc_pop ?s1 ?l1" using prev by (simp add: gc_step_def Let_def)
    moreover have "gc_rel m0 C ?s1 ?l1 w" using b pd cur out same unfolding gc_rel_def by simp
    ultimately show ?thesis using gc_pop_sim [of m0 ?s1 C ?l1 w, OF _ _ _ b(3) C(1,2)] lay prev(1) num
      by (fastforce simp: gc_extended_def)
  next
    case push
    have "lc_stack l + 1 < length (ms_buf (gc_stacks s ! lc_list l))" using push(2) v(6,7) l by simp
    note p = gc_push_sim [OF lay same sync pd out cur push(1) C(1,3) this]
    have "gc_step alloc s l = gc_push s l" using push by (auto simp: gc_step_def)
    then show ?thesis using p by (fastforce simp: gc_extended_def)
  next
    case enter
    have "wk_cur w = (lc_lst l, 1)" using cur enter by simp
    moreover have "lc_lst l \<in> C" using C(3) cells_head [of "1 :: u32" "lc_lst l"] calculation by auto
    ultimately show ?thesis using gc_enter_sim [OF lay same sync pd out, of "lc_lst l"] C(1) walk_enter [of w "lc_lst l" m0] enter
      by (fastforce simp: gc_step_def gc_extended_def)
  next
    case full
    then have step: "gc_step alloc s l = gc_full alloc s l" by (auto simp: gc_step_def)
    show ?thesis
    proof (cases "lc_list l + 1 < length (gc_stacks s)")
      case True
      show ?thesis using True gc_step_later [OF sync full(2,1) True] by (simp add: gc_extended_def)
    next
      case False
      then have last: "lc_list l + 1 = length (gc_stacks s)" using v(2) l by simp
      obtain k c where asked: "(if gc_out s then (gc_calls s, None) else gc_try alloc (gc_calls s) c_minimumSpaceForGC) = (k, c)"
        by fastforce
      show ?thesis
      proof (cases c)
        case None
        have "0 < lc_last l" using v(1,2) sync by (auto simp: stacks_wf_def v(4) in_sync_def)
        then have "wk_pend w \<noteq> []"
          unfolding pd [symmetric] elems_cur [OF v(1)] using full(2) v(4,6) by (simp add: ms_elems_def)
        then have "walk_step m0 w (w\<lparr>wk_cur := (0, 0), wk_out := True\<rparr>)" using full(1) num by (intro walk_drop) simp_all
        moreover have "gc_step alloc s l = Mark_Next (s\<lparr>gc_calls := k, gc_out := True\<rparr>) (l\<lparr>lc_lst := 0, lc_num := 0\<rparr>)"
          unfolding step gc_full_def asked None using False by simp
        moreover have "gc_rel m0 C (s\<lparr>gc_calls := k, gc_out := True\<rparr>) (l\<lparr>lc_lst := 0, lc_num := 0\<rparr>) (w\<lparr>wk_cur := (0, 0), wk_out := True\<rparr>)"
          using sync pd same unfolding gc_rel_def by simp
        ultimately show ?thesis by (fastforce simp: gc_extended_def)
      next
        case (Some e)
        have granted: "gc_extended alloc s'" for s'
          using asked Some gc_try_granted unfolding gc_extended_def by (metis prod.inject option.distinct(1))
        let ?s1 = "(SAVESTATE s l)\<lparr>gc_calls := k, gc_stacks := gc_stacks (SAVESTATE s l) @ [MarkStack_Initialize e],
          gc_cur := length (gc_stacks (SAVESTATE s l))\<rparr>"
        let ?l1 = "LOADSTATE ?s1 l"
        have step: "gc_step alloc s l = gc_push ?s1 ?l1"
          unfolding step gc_full_def asked Some using False by (simp add: Let_def)
        show ?thesis
        proof (cases "1 < e")
          case True
          note g = sync_grow [OF sync full(2) last True, of k]
          have "gc_same m0 (gc_weakList ?s1) C (wk_seen w) (gc_mem ?s1)" using same by simp
          note p = gc_push_sim [OF _ this g(1) _ _ _ _ C(1,3) g(3)]
          show ?thesis using p g(2) lay pd cur out full(1) granted unfolding step by fastforce
        next
          case False
          have "gc_push ?s1 ?l1 = Mark_Overrun"
            using False by (simp add: gc_push_def LOADSTATE_def MarkStack_Initialize_def nth_append)
          then show ?thesis using granted step by simp
        qed
      qed
    qed
  qed
qed

text \<open>
  What the marker assumes of the graph: references and lists stay inside of the cells \<open>C\<close>, and
  the cells of a list hold no list of their own.
\<close>

definition gc_graph :: "heap_mem \<Rightarrow> nat set \<Rightarrow> bool" where
  "gc_graph m C \<longleftrightarrow>
     (\<forall>a\<in>C. (gc_sub m a \<noteq> 0 \<longrightarrow> gc_sub m a \<in> C) \<and>
        cells (gc_list m a) \<subseteq> C \<and> (\<forall>c\<in>cells (gc_list m a). snd (gc_list m c) = 0))"

definition gc_targets :: "heap_mem \<Rightarrow> nat set \<Rightarrow> nat set" where
  "gc_targets m C = gc_ref m ` C - {0}"

definition walk_cells :: "walk \<Rightarrow> nat set" where
  "walk_cells w = \<Union> (cells ` set (wk_pend w)) \<union> cells (wk_cur w)"

text \<open>The cells that were seen or will be, \<open>D\<close> being the blocks whose list is still to be walked.\<close>

definition walk_todo :: "heap_mem \<Rightarrow> nat set \<Rightarrow> walk \<Rightarrow> nat set" where
  "walk_todo m D w = wk_seen w \<union> walk_cells w \<union> (if snd (wk_cur w) = 1 then cells (gc_list m (fst (wk_cur w))) else {}) \<union>
     (\<Union>a\<in>if wk_out w then {a \<in> wk_seen w. 1 < snd (gc_list m a)} else D. cells (gc_list m a))"

definition walk_inv :: "heap_mem \<Rightarrow> nat set \<Rightarrow> nat set \<Rightarrow> walk \<Rightarrow> bool" where
  "walk_inv m R D w \<longleftrightarrow>
     wk_seen w \<union> walk_cells w \<subseteq> gc_reach m R \<and> D \<subseteq> {a \<in> wk_seen w. 1 < snd (gc_list m a)} \<and>
     R \<subseteq> walk_todo m D w \<and>
     (\<forall>a\<in>wk_seen w. cells (gc_list m a) \<subseteq> walk_todo m D w \<and> (gc_ref m a \<noteq> 0 \<longrightarrow> gc_ref m a \<in> walk_todo m D w)) \<and>
     (\<forall>e\<in>set (wk_pend w). \<forall>c\<in>cells e. snd (gc_list m c) = 0) \<and>
     (1 < snd (wk_cur w) \<longrightarrow> (\<forall>c\<in>cells (wk_cur w). snd (gc_list m c) = 0) \<and>
        (wk_pend w = [] \<or> (\<exists>a\<in>wk_seen w. wk_cur w = gc_list m a)))"

lemma gc_ref_in: "gc_graph m C \<Longrightarrow> a \<in> C \<Longrightarrow> gc_ref m a \<noteq> 0 \<Longrightarrow> gc_ref m a \<in> C"
  by (auto simp: gc_graph_def gc_ref_def split: if_splits)

lemma gc_reach_in:
  assumes "gc_graph m C" "R \<subseteq> C" shows "gc_reach m R \<subseteq> C"
proof
  show "a \<in> C" if "a \<in> gc_reach m R" for a
    using that by induction (use assms gc_ref_in [OF assms(1)] in \<open>auto simp: gc_graph_def\<close>)
qed

lemma cells_zero [simp]: "cells (p, 0) = {}" "cells (p, 1) = {p}" "snd e = 0 \<Longrightarrow> cells e = {}"
  by (auto simp: cells_def)

lemma cells_tail: "n \<noteq> 0 \<Longrightarrow> cells (p, n) = insert p (cells (p + 3, n - 1))"
proof -
  assume n: "n \<noteq> 0"
  then obtain k where k: "unat n = Suc k" "unat (n - 1) = k" by (metis unat_minus_one Suc_pred unat_gt_0 diff_Suc_1)
  have "c \<in> cells (p, n) \<longleftrightarrow> c = p \<or> c \<in> cells (p + 3, n - 1)" for c
  proof
    assume "c \<in> cells (p, n)"
    then obtain i where i: "i < Suc k" "c = p + 3 * i" by (auto simp: cells_iff k)
    then show "c = p \<or> c \<in> cells (p + 3, n - 1)"
      by (cases i) (auto simp: cells_iff k)
  next
    assume "c = p \<or> c \<in> cells (p + 3, n - 1)"
    then show "c \<in> cells (p, n)"
    proof
      assume "c \<in> cells (p + 3, n - 1)"
      then obtain i where "i < k" "c = p + 3 * Suc i" by (auto simp: cells_iff k)
      then show ?thesis by (auto simp: cells_iff k intro!: exI [of _ "Suc i"])
    qed (auto simp: cells_iff k)
  qed
  then show ?thesis by auto
qed

lemma gc_ref_list: "gc_ref m a \<noteq> 0 \<Longrightarrow> gc_list m a = (0, 0)"
  by (auto simp: gc_ref_def gc_sub_def gc_list_def Let_def gc_types split: if_splits)


lemma gc_next_cells:
  assumes "gc_graph m C" "a \<in> C"
  shows "cells (gc_list m a) \<subseteq> cells (gc_next m V a)" "gc_ref m a \<noteq> 0 \<Longrightarrow> gc_ref m a \<in> V \<union> cells (gc_next m V a)"
    "cells (gc_next m V a) \<subseteq> insert (gc_ref m a) (cells (gc_list m a))"
    "gc_ref m a = 0 \<Longrightarrow> gc_next m V a = gc_list m a"
  using assms gc_ref_list [of m a] by (auto simp: gc_next_def gc_graph_def)

text \<open>After the visit of a flat cell there is nothing to do, or one block not seen so far.\<close>

lemma gc_next_flat:
  assumes "gc_graph m C" "a \<in> C" "snd (gc_list m a) = 0"
  shows "snd (gc_next m V a) = 0 \<or> snd (gc_next m V a) = 1 \<and> fst (gc_next m V a) \<in> gc_targets m C - V"
  using assms by (auto simp: gc_next_def gc_targets_def)


lemma walk_visit_inv:
  assumes graph: "gc_graph m C" "R \<subseteq> C" and inv: "walk_inv m R D w"
    and p: "p \<in> walk_cells w" "walk_cells w \<subseteq> insert p (\<Union> (cells ` set P))" "\<Union> (cells ` set P) \<subseteq> walk_cells w"
    and cur: "snd (wk_cur w) = 1 \<Longrightarrow> fst (wk_cur w) = p"
    and flat: "\<forall>e\<in>set P. \<forall>c\<in>cells e. snd (gc_list m c) = 0"
  shows "walk_inv m R D (walk_visit m (w\<lparr>wk_pend := P\<rparr>) p)"
proof -
  let ?w = "walk_visit m (w\<lparr>wk_pend := P\<rparr>) p" and ?V = "insert p (wk_seen w)"
  have p_in: "p \<in> gc_reach m R" and reach: "wk_seen w \<union> walk_cells w \<subseteq> gc_reach m R"
    and D: "D \<subseteq> {a \<in> wk_seen w. 1 < snd (gc_list m a)}"
    using inv p(1) by (auto simp: walk_inv_def)
  have pC: "p \<in> C" using gc_reach_in [OF graph] p_in by auto
  note nx = gc_next_cells [OF graph(1) pC, where V = ?V]
  have w: "wk_seen ?w = ?V" "wk_pend ?w = P" "wk_cur ?w = gc_next m ?V p" "wk_out ?w = wk_out w"
    by (simp_all add: walk_visit_def)
  have cells: "walk_cells ?w = \<Union> (cells ` set P) \<union> cells (gc_next m ?V p)" by (simp add: walk_cells_def w)
  have todo: "walk_todo m D w \<subseteq> walk_todo m D ?w"
    unfolding walk_todo_def w cells using p(2) nx(1) cur by (auto split: if_splits)
  have "cells (gc_next m ?V p) \<subseteq> gc_reach m R"
  proof (cases "gc_ref m p = 0")
    case True
    then show ?thesis using nx(4) gc_reach.field [OF p_in] by auto
  next
    case False
    then show ?thesis using nx(3) gc_reach.ref [OF p_in] by (auto simp: gc_ref_list)
  qed
  then have "wk_seen ?w \<union> walk_cells ?w \<subseteq> gc_reach m R"
    unfolding w cells using p_in reach p(3) by auto
  moreover have "cells (gc_list m a) \<subseteq> walk_todo m D ?w \<and> (gc_ref m a \<noteq> 0 \<longrightarrow> gc_ref m a \<in> walk_todo m D ?w)"
    if "a \<in> wk_seen ?w" for a
  proof (cases "a \<in> wk_seen w")
    case True
    then show ?thesis using inv todo unfolding walk_inv_def by blast
  next
    case False
    then have "a = p" using that w by simp
    then show ?thesis using nx(1,2) unfolding walk_todo_def w cells by auto
  qed
  moreover have "1 < snd (wk_cur ?w) \<longrightarrow> (\<forall>c\<in>cells (wk_cur ?w). snd (gc_list m c) = 0) \<and> (\<exists>a\<in>wk_seen ?w. wk_cur ?w = gc_list m a)"
    unfolding w using graph(1) pC by (auto simp: gc_next_def gc_graph_def)
  moreover have "R \<subseteq> walk_todo m D ?w" using inv todo by (auto simp: walk_inv_def)
  ultimately show ?thesis using D flat unfolding walk_inv_def by (auto simp: w)
qed

lemma walk_step_inv:
  assumes graph: "gc_graph m C" "R \<subseteq> C"
  shows "walk_step m w w' \<Longrightarrow> walk_inv m R D w \<Longrightarrow> walk_inv m R D w'"
proof (induction rule: walk_step.induct)
  case (walk_pop w E p n)
  have c: "cells (p, n) = insert p (cells (p + 3, n - 1))" by (rule cells_tail [OF walk_pop(3)])
  let ?P = "E @ (if n - 1 = 0 then [] else [(p + 3, n - 1)])"
  have P: "\<Union> (cells ` set ?P) = \<Union> (cells ` set E) \<union> cells (p + 3, n - 1)" by simp
  have W: "walk_cells w = insert p (\<Union> (cells ` set ?P))" using walk_pop(1,2) c unfolding P by (simp add: walk_cells_def Un_commute)
  have "\<forall>e\<in>set (wk_pend w). \<forall>c\<in>cells e. snd (gc_list m c) = 0" using walk_pop(4) by (simp add: walk_inv_def)
  then have flat: "\<forall>e\<in>set ?P. \<forall>c\<in>cells e. snd (gc_list m c) = 0" using walk_pop(2) c by auto
  show ?case by (rule walk_visit_inv [OF graph walk_pop(4) _ _ _ _ flat]) (auto simp: W walk_pop(1))
next
  case (walk_push n w p)
  then have n: "n \<noteq> 0" "n \<noteq> 1" by auto
  note c = cells_tail [OF n(1), of p]
  let ?P = "wk_pend w @ [(p + 3, n - 1)]"
  have W: "walk_cells w = insert p (\<Union> (cells ` set ?P))" using walk_push(2) c by (auto simp: walk_cells_def)
  have flat: "\<forall>e\<in>set ?P. \<forall>c\<in>cells e. snd (gc_list m c) = 0" 
    using walk_push c unfolding walk_inv_def by auto
  show ?case by (rule walk_visit_inv [OF graph walk_push(3) _ _ _ _ flat]) (auto simp: W walk_push(2) n)
next
  case (walk_drop w)
  then obtain a where a: "a \<in> wk_seen w" "wk_cur w = gc_list m a" by (auto simp: walk_inv_def)
  let ?w = "w\<lparr>wk_cur := (0, 0), wk_out := True\<rparr>"
  let ?K = "{a \<in> wk_seen w. 1 < snd (gc_list m a)}"
  have ne: "snd (wk_cur w) \<noteq> 1" using walk_drop(1) by auto
  have "a \<in> ?K" using a walk_drop(1) by simp
  then have cur: "cells (wk_cur w) \<subseteq> (\<Union>a\<in>?K. cells (gc_list m a))" unfolding a(2) by (rule UN_upper)
  have "D \<subseteq> ?K" using walk_drop(3) by (simp add: walk_inv_def)
  then have "(\<Union>a\<in>D. cells (gc_list m a)) \<subseteq> (\<Union>a\<in>?K. cells (gc_list m a))" by (rule UN_mono) simp
  then have todo: "walk_todo m D w \<subseteq> walk_todo m D ?w"
    using cur ne unfolding walk_todo_def walk_cells_def by (simp split: if_split) blast
  have sub: "walk_cells ?w \<subseteq> walk_cells w" by (auto simp: walk_cells_def)
  have R: "R \<subseteq> walk_todo m D w" "wk_seen w \<union> walk_cells w \<subseteq> gc_reach m R"
    and closed: "\<And>a. a \<in> wk_seen w \<Longrightarrow> cells (gc_list m a) \<subseteq> walk_todo m D w"
      "\<And>a. a \<in> wk_seen w \<Longrightarrow> gc_ref m a \<noteq> 0 \<Longrightarrow> gc_ref m a \<in> walk_todo m D w"
    using walk_drop(3) by (simp_all add: walk_inv_def)
  have "R \<subseteq> walk_todo m D ?w" "wk_seen ?w \<union> walk_cells ?w \<subseteq> gc_reach m R"
    using R todo sub by auto
  moreover have "\<forall>a\<in>wk_seen w. cells (gc_list m a) \<subseteq> walk_todo m D ?w \<and> (gc_ref m a \<noteq> 0 \<longrightarrow> gc_ref m a \<in> walk_todo m D ?w)"
    using closed todo by (meson subsetD order_trans)
  ultimately show ?case using walk_drop(3) unfolding walk_inv_def by simp
next
  case (walk_enter w p)
  have W: "walk_cells w = insert p (\<Union> (cells ` set (wk_pend w)))" using walk_enter(1) by (auto simp: walk_cells_def)
  have "walk_inv m R D (walk_visit m (w\<lparr>wk_pend := wk_pend w\<rparr>) p)"
    using walk_enter(2) by (intro walk_visit_inv [OF graph walk_enter(2)]) (auto simp: W walk_enter(1) walk_inv_def)
  then show ?case by simp
qed

text \<open>When a list is dropped, a block has been seen since the start that had not been seen before.\<close>

definition walk_progress :: "heap_mem \<Rightarrow> nat set \<Rightarrow> nat set \<Rightarrow> bool \<Rightarrow> walk \<Rightarrow> bool" where
  "walk_progress m C V o0 w \<longleftrightarrow>
     V \<subseteq> wk_seen w \<and> (wk_out w \<longrightarrow> o0 \<or> gc_targets m C \<inter> (wk_seen w - V) \<noteq> {}) \<and> (o0 \<longrightarrow> wk_out w) \<and>
     (gc_targets m C \<inter> (wk_seen w - V) \<noteq> {} \<or> wk_pend w = [] \<or> snd (wk_cur w) = 0 \<or>
        snd (wk_cur w) = 1 \<and> fst (wk_cur w) \<in> gc_targets m C - wk_seen w)"

lemma walk_step_progress:
  assumes graph: "gc_graph m C" "R \<subseteq> C"
  shows "walk_step m w w' \<Longrightarrow> walk_inv m R D w \<Longrightarrow> walk_progress m C V o0 w \<Longrightarrow> walk_progress m C V o0 w'"
proof (induction rule: walk_step.induct)
  case (walk_pop w E p n)
  then have p: "p \<in> C" "snd (gc_list m p) = 0"
    using gc_reach_in [OF graph] cells_head [OF walk_pop(3), of p] unfolding walk_inv_def walk_cells_def by auto
  show ?case using walk_pop(5) gc_next_flat [OF graph(1) p, of "insert p (wk_seen w)"]
    unfolding walk_progress_def walk_visit_def by auto
next
  case (walk_push n w p)
  then have n: "n \<noteq> 0" "n \<noteq> 1" by auto
  have p: "p \<in> C" "snd (gc_list m p) = 0"
    using gc_reach_in [OF graph] cells_head [OF n(1), of p] walk_push unfolding walk_inv_def walk_cells_def by auto
  show ?case using walk_push(4) gc_next_flat [OF graph(1) p, of "insert p (wk_seen w)"] n
    unfolding walk_progress_def walk_visit_def by (auto simp: walk_push(2))
next
  case (walk_drop w)
  then show ?case unfolding walk_progress_def by auto
next
  case (walk_enter w p)
  then show ?case unfolding walk_progress_def walk_visit_def by auto
qed

text \<open>Every round sees a block for the first time or shortens what is left.\<close>

definition walk_cost :: "heap_mem \<Rightarrow> nat set \<Rightarrow> walk \<Rightarrow> nat" where
  "walk_cost m C w = sum_list (map (\<lambda>e. 2 * unat (snd e)) (wk_pend w)) +
     (if snd (wk_cur w) = 1 then
        (if fst (wk_cur w) \<in> gc_targets m C - wk_seen w then 0 else 1 + 2 * unat (snd (gc_list m (fst (wk_cur w)))))
      else 2 * unat (snd (wk_cur w)))"

definition walk_order :: "heap_mem \<Rightarrow> nat set \<Rightarrow> (walk \<times> walk) set" where
  "walk_order m C = measures [\<lambda>w. card (gc_targets m C - wk_seen w), walk_cost m C]"

lemma walk_visit_order:
  assumes C: "finite C" and cost: "p \<notin> gc_targets m C - wk_seen w \<Longrightarrow>
    walk_cost m C (walk_visit m (w\<lparr>wk_pend := P\<rparr>) p) < walk_cost m C w"
  shows "(walk_visit m (w\<lparr>wk_pend := P\<rparr>) p, w) \<in> walk_order m C"
proof (cases "p \<in> gc_targets m C - wk_seen w")
  case True
  have "finite (gc_targets m C - wk_seen w)" using C by (simp add: gc_targets_def)
  then have "card (gc_targets m C - insert p (wk_seen w)) < card (gc_targets m C - wk_seen w)"
    using True by (intro psubset_card_mono) auto
  then show ?thesis by (simp add: walk_order_def walk_visit_def)
next
  case False
  then have "gc_targets m C - insert p (wk_seen w) = gc_targets m C - wk_seen w" by auto
  then show ?thesis using cost [OF False] by (simp add: walk_order_def walk_visit_def)
qed

lemma walk_cost_flat:
  assumes "gc_graph m C" "p \<in> C" "snd (gc_list m p) = 0"
  shows "walk_cost m C (walk_visit m w p) = sum_list (map (\<lambda>e. 2 * unat (snd e)) (wk_pend w))"
  using gc_next_flat [OF assms, of "insert p (wk_seen w)"] unfolding walk_cost_def walk_visit_def by auto

lemma walk_order_wf: "wf (walk_order m C)"
  by (simp add: walk_order_def)

lemma unat_pred_less: "n \<noteq> 0 \<Longrightarrow> unat (n - 1) < unat (n :: u32)"
  by (metis diff_less unat_gt_0 unat_minus_one zero_less_one)

lemma walk_step_order:
  assumes graph: "gc_graph m C" "R \<subseteq> C" "finite C"
  shows "walk_step m w w' \<Longrightarrow> walk_inv m R D w \<Longrightarrow> (w', w) \<in> walk_order m C"
proof (induction rule: walk_step.induct)
  case (walk_pop w E p n)
  then have p: "p \<in> C" "snd (gc_list m p) = 0"
    using gc_reach_in [OF graph(1,2)] cells_head [OF walk_pop(3), of p] unfolding walk_inv_def walk_cells_def by auto
  show ?case
  proof (rule walk_visit_order [OF graph(3)], subst walk_cost_flat [OF graph(1) p])
    show "sum_list (map (\<lambda>e. 2 * unat (snd e)) (wk_pend (w\<lparr>wk_pend := E @ (if n - 1 = 0 then [] else [(p + 3, n - 1)])\<rparr>))) <
        walk_cost m C w"
      using walk_pop(1,2) unat_pred_less [OF walk_pop(3)] by (simp add: walk_cost_def)
  qed
next
  case (walk_push n w p)
  then have n: "n \<noteq> 0" "n \<noteq> 1" by auto
  have p: "p \<in> C" "snd (gc_list m p) = 0"
    using gc_reach_in [OF graph(1,2)] cells_head [OF n(1), of p] walk_push unfolding walk_inv_def walk_cells_def by auto
  show ?case
  proof (rule walk_visit_order [OF graph(3)], subst walk_cost_flat [OF graph(1) p])
    show "sum_list (map (\<lambda>e. 2 * unat (snd e)) (wk_pend (w\<lparr>wk_pend := wk_pend w @ [(p + 3, n - 1)]\<rparr>))) < walk_cost m C w"
      using walk_push(2) unat_pred_less [OF n(1)] n(2) by (simp add: walk_cost_def)
  qed
next
  case (walk_drop w)
  have "0 < unat (snd (wk_cur w))" "snd (wk_cur w) \<noteq> 1" using walk_drop(1) by (auto simp: unat_gt_0)
  then show ?case by (simp add: walk_order_def walk_cost_def)
next
  case (walk_enter w p)
  have p: "p \<in> C"
    using gc_reach_in [OF graph(1,2)] walk_enter unfolding walk_inv_def walk_cells_def by auto
  have one: "unat (snd (gc_list m q)) = 0" if "gc_list m p = (q, 1)" for q
    using graph(1) p that by (auto simp: gc_graph_def)
  have "walk_cost m C (walk_visit m (w\<lparr>wk_pend := wk_pend w\<rparr>) p) < walk_cost m C w" if "p \<notin> gc_targets m C - wk_seen w"
  proof -
    have "gc_next m (insert p (wk_seen w)) p = gc_list m p \<or> snd (gc_next m (insert p (wk_seen w)) p) = 1 \<and>
        fst (gc_next m (insert p (wk_seen w)) p) \<in> gc_targets m C - insert p (wk_seen w)"
      using p by (auto simp: gc_next_def gc_targets_def)
    then show ?thesis using that one [of "fst (gc_list m p)"] 
      by (cases "gc_list m p") (auto simp: walk_cost_def walk_visit_def walk_enter(1))
  qed
  from walk_visit_order [OF graph(3) this] show ?case by simp
qed

section \<open>The calls of the marker\<close>

definition gc_idle :: "heap_mem \<Rightarrow> nat set \<Rightarrow> nat set \<Rightarrow> nat set \<Rightarrow> gc_state \<Rightarrow> nat set \<Rightarrow> bool" where
  "gc_idle m0 C R D s V \<longleftrightarrow> gc_cur s = 0 \<and> stacks_wf (gc_stacks s) 0 \<and> elems (gc_stacks s) = [] \<and>
     gc_same m0 (gc_weakList s) C V (gc_mem s) \<and>
     walk_inv m0 R D \<lparr>wk_seen = V, wk_pend = [], wk_cur = (0, 0), wk_out = gc_out s\<rparr>"

lemma walk_inv_stop:
  assumes "walk_inv m R D w" "snd (wk_cur w) = 0" "wk_pend w = []"
  shows "walk_inv m R D \<lparr>wk_seen = wk_seen w, wk_pend = [], wk_cur = (0, 0), wk_out = wk_out w\<rparr>" (is "walk_inv m R D ?w")
proof -
  have c: "walk_cells ?w = walk_cells w" using assms(2,3) by (simp add: walk_cells_def)
  have "walk_todo m D ?w = walk_todo m D w" unfolding walk_todo_def c using assms(2) by simp
  then show ?thesis using assms unfolding walk_inv_def c by simp
qed

lemma gc_loop_ok:
  assumes lay: "gc_layout m0 wl C" and graph: "gc_graph m0 C" "R \<subseteq> C"
  shows "gc_weakList s = wl \<Longrightarrow> gc_rel m0 C s l w \<Longrightarrow> walk_inv m0 R D w \<Longrightarrow> walk_progress m0 C V o0 w \<Longrightarrow>
    gc_loop alloc s l = Some GC_Overrun \<and> gc_extended alloc s \<or>
    (\<exists>s' w'. gc_loop alloc s l = Some (GC_Ok s') \<and> gc_idle m0 C R D s' (wk_seen w') \<and> gc_weakList s' = wl \<and>
       (gc_extended alloc s' \<longrightarrow> gc_extended alloc s) \<and> walk_progress m0 C V o0 w' \<and> gc_out s' = wk_out w')"
proof (induction w arbitrary: s l rule: wf_induct_rule [OF walk_order_wf [of m0 C]])
  case (1 w)
  have fin: "finite C" using lay unfolding gc_layout_def by (meson finite_lessThan finite_subset)
  have in_C: "walk_cells w \<subseteq> C" using gc_reach_in [OF graph] 1(4) by (auto simp: walk_inv_def)
  have sub: "\<And>a. a \<in> C \<Longrightarrow> gc_sub m0 a \<noteq> 0 \<Longrightarrow> gc_sub m0 a \<in> C" using graph(1) by (simp add: gc_graph_def)
  consider (step) s' l' w' where "gc_step alloc s l = Mark_Next s' l'" "walk_step m0 w w'" "gc_rel m0 C s' l' w'"
      "gc_weakList s' = wl" "gc_extended alloc s' \<longrightarrow> gc_extended alloc s"
    | (finished) "gc_step alloc s l = Mark_Done (SAVESTATE s l)" "snd (wk_cur w) = 0" "wk_pend w = []" "gc_cur s = 0"
    | (overrun) "gc_step alloc s l = Mark_Overrun" "gc_extended alloc s"
  proof -
    have e: "\<And>e. e \<in> set (wk_pend w) \<Longrightarrow> cells e \<subseteq> C" "cells (wk_cur w) \<subseteq> C"
      using in_C by (auto simp: walk_cells_def)
    have lay: "gc_layout m0 (gc_weakList s) C" using lay 1(2) by simp
    have "(\<exists>s' l' w'. gc_step alloc s l = Mark_Next s' l' \<and> walk_step m0 w w' \<and> gc_rel m0 C s' l' w' \<and>
        gc_weakList s' = gc_weakList s \<and> (gc_extended alloc s' \<longrightarrow> gc_extended alloc s)) \<or>
      gc_step alloc s l = Mark_Done (SAVESTATE s l) \<and> snd (wk_cur w) = 0 \<and> wk_pend w = [] \<and> gc_cur s = 0 \<or>
      gc_step alloc s l = Mark_Overrun \<and> gc_extended alloc s"
      by (rule gc_step_sim [OF lay 1(3)]) (simp_all add: sub e)
    then show ?thesis using that 1(2) by (elim disjE exE conjE) simp_all
  qed
  then show ?case
  proof cases
    case step
    note IH = 1(1) [OF walk_step_order [OF graph fin step(2) 1(4)] step(4,3)
        walk_step_inv [OF graph step(2) 1(4)] walk_step_progress [OF graph step(2) 1(4,5)]]
    have "gc_loop alloc s l = gc_loop alloc s' l'" by (subst gc_loop.simps) (simp add: step(1))
    then show ?thesis using IH step(5) by auto
  next
    case finished
    have loop: "gc_loop alloc s l = Some (GC_Ok (SAVESTATE s l))" by (subst gc_loop.simps) (simp add: finished(1))
    have "walk_inv m0 R D \<lparr>wk_seen = wk_seen w, wk_pend = [], wk_cur = (0, 0), wk_out = wk_out w\<rparr>"
      by (rule walk_inv_stop [OF 1(4) finished(2,3)])
    then have "gc_idle m0 C R D (SAVESTATE s l) (wk_seen w)"
      using 1(3) finished(3,4) unfolding gc_idle_def gc_rel_def in_sync_def by simp
    then show ?thesis using loop 1(2,3,5) unfolding gc_rel_def gc_extended_def by (intro disjI2 exI [of _ "SAVESTATE s l"] exI [of _ w]) simp
  next
    case overrun
    then show ?thesis by (subst (1) gc_loop.simps) simp
  qed
qed


text \<open>One call, from and to the state in which no list is pending.\<close>

lemma gc_idle_start:
  assumes idle: "gc_idle m0 C R D s V" and flat: "1 < num \<Longrightarrow> \<forall>c\<in>cells (lst, num). snd (gc_list m0 c) = 0"
  defines "l \<equiv> LOADSTATE s \<lparr>lc_lst = lst, lc_num = num, lc_list = 0, lc_stack = 0, lc_last = 0\<rparr>"
  defines "w \<equiv> \<lparr>wk_seen = V, wk_pend = [], wk_cur = (lst, num), wk_out = gc_out s\<rparr>"
  shows "gc_rel m0 C s l w" "walk_inv m0 (R \<union> cells (lst, num)) (if num = 1 then D - {lst} else D) w"
    "walk_progress m0 C V (gc_out s) w"
proof -
  have cur: "gc_cur s = 0" "stacks_wf (gc_stacks s) 0" "elems (gc_stacks s) = []" using idle by (simp_all add: gc_idle_def)
  have "(gc_stacks s)[0 := (gc_stacks s ! 0)\<lparr>ms_last := lc_last l, ms_top := lc_stack l\<rparr>] = gc_stacks s"
    by (simp add: l_def LOADSTATE_def cur(1))
  then have save: "gc_stacks (SAVESTATE s l) = gc_stacks s" by (simp add: SAVESTATE_def cur(1))
  then have "in_sync s l" "pend s l = []"
    unfolding in_sync_def save using cur by (simp_all add: l_def LOADSTATE_def)
  then show "gc_rel m0 C s l w" using idle by (simp add: gc_rel_def w_def l_def gc_idle_def)
  show "walk_progress m0 C V (gc_out s) w" by (simp add: walk_progress_def w_def)
  let ?i = "\<lparr>wk_seen = V, wk_pend = [], wk_cur = (0, 0), wk_out = gc_out s\<rparr>"
  let ?R = "R \<union> cells (lst, num)" and ?D = "if num = 1 then D - {lst} else D"
  have inv: "walk_inv m0 R D ?i" using idle by (simp add: gc_idle_def)
  have cells: "walk_cells w = cells (lst, num)" "walk_cells ?i = {}" by (simp_all add: walk_cells_def w_def)
  have todo: "walk_todo m0 D ?i \<union> cells (lst, num) \<subseteq> walk_todo m0 ?D w"
    unfolding walk_todo_def cells by (auto simp: w_def)
  have "gc_reach m0 R \<subseteq> gc_reach m0 ?R"
  proof
    show "a \<in> gc_reach m0 ?R" if "a \<in> gc_reach m0 R" for a
      using that by induction (auto intro: gc_reach.intros)
  qed
  moreover have "cells (lst, num) \<subseteq> gc_reach m0 ?R" by (auto intro: gc_reach.root)
  ultimately have "wk_seen w \<union> walk_cells w \<subseteq> gc_reach m0 ?R"
    using inv unfolding walk_inv_def cells by (auto simp: w_def)
  moreover have "?D \<subseteq> {a \<in> wk_seen w. 1 < snd (gc_list m0 a)}" using inv unfolding walk_inv_def by (auto simp: w_def)
  moreover have "?R \<subseteq> walk_todo m0 ?D w" using inv todo unfolding walk_inv_def by auto
  moreover have "\<forall>a\<in>wk_seen w. cells (gc_list m0 a) \<subseteq> walk_todo m0 ?D w \<and> (gc_ref m0 a \<noteq> 0 \<longrightarrow> gc_ref m0 a \<in> walk_todo m0 ?D w)"
  proof
    fix a assume "a \<in> wk_seen w"
    then have "cells (gc_list m0 a) \<subseteq> walk_todo m0 D ?i" "gc_ref m0 a \<noteq> 0 \<Longrightarrow> gc_ref m0 a \<in> walk_todo m0 D ?i"
      using inv unfolding walk_inv_def by (auto simp: w_def)
    then show "cells (gc_list m0 a) \<subseteq> walk_todo m0 ?D w \<and> (gc_ref m0 a \<noteq> 0 \<longrightarrow> gc_ref m0 a \<in> walk_todo m0 ?D w)"
      using todo by blast
  qed
  ultimately show "walk_inv m0 ?R ?D w"
    using flat unfolding walk_inv_def by (simp add: w_def)
qed

text \<open>
  The outcome of a part of the marking that starts in \<open>s\<close> with the blocks \<open>V\<close> seen: it overran a
  stack that was extended, or the blocks \<open>R\<close> are seen and closed up to the lists in \<open>D\<close>; a dropped
  list is noted, and never without a block seen for the first time.
\<close>

definition gc_post :: "heap_mem \<Rightarrow> nat set \<Rightarrow> (nat \<Rightarrow> nat \<Rightarrow> bool) \<Rightarrow> nat set \<Rightarrow> nat set \<Rightarrow> gc_state \<Rightarrow> nat set \<Rightarrow>
    gc_result option \<Rightarrow> bool" where
  "gc_post m0 C alloc R D s V r \<longleftrightarrow>
     r = Some GC_Overrun \<and> gc_extended alloc s \<or>
     (\<exists>s' V'. r = Some (GC_Ok s') \<and> gc_idle m0 C R D s' V' \<and> gc_weakList s' = gc_weakList s \<and>
        (gc_extended alloc s' \<longrightarrow> gc_extended alloc s) \<and> V \<subseteq> V' \<and> (gc_out s \<longrightarrow> gc_out s') \<and>
        (gc_out s' \<longrightarrow> gc_out s \<or> gc_targets m0 C \<inter> (V' - V) \<noteq> {}))"

lemma gc_post_refl: "gc_idle m0 C R D s V \<Longrightarrow> gc_post m0 C alloc R D s V (Some (GC_Ok s))"
  by (auto simp: gc_post_def)

lemma gc_post_then:
  assumes "gc_post m0 C alloc R D s V r"
    and "\<And>s' V'. gc_idle m0 C R D s' V' \<Longrightarrow> V \<subseteq> V' \<Longrightarrow> gc_weakList s' = gc_weakList s \<Longrightarrow> gc_post m0 C alloc R' D' s' V' (k s')"
  shows "gc_post m0 C alloc R' D' s V (case r of Some (GC_Ok s') \<Rightarrow> k s' | r \<Rightarrow> r)"
  using assms(1) unfolding gc_post_def
proof (elim disjE exE conjE)
  fix s1 V1
  assume s1: "r = Some (GC_Ok s1)" "gc_idle m0 C R D s1 V1" "gc_weakList s1 = gc_weakList s"
    "gc_extended alloc s1 \<longrightarrow> gc_extended alloc s" "V \<subseteq> V1" "gc_out s \<longrightarrow> gc_out s1"
    "gc_out s1 \<longrightarrow> gc_out s \<or> gc_targets m0 C \<inter> (V1 - V) \<noteq> {}"
  consider "k s1 = Some GC_Overrun" "gc_extended alloc s1"
    | s2 V2 where "k s1 = Some (GC_Ok s2)" "gc_idle m0 C R' D' s2 V2" "gc_weakList s2 = gc_weakList s1"
      "gc_extended alloc s2 \<longrightarrow> gc_extended alloc s1" "V1 \<subseteq> V2" "gc_out s1 \<longrightarrow> gc_out s2"
      "gc_out s2 \<longrightarrow> gc_out s1 \<or> gc_targets m0 C \<inter> (V2 - V1) \<noteq> {}"
    using assms(2) [OF s1(2,5,3)] unfolding gc_post_def by blast
  then show "(case r of Some (GC_Ok s') \<Rightarrow> k s' | r \<Rightarrow> r) = Some GC_Overrun \<and> gc_extended alloc s \<or>
     (\<exists>s' V'. (case r of Some (GC_Ok s') \<Rightarrow> k s' | r \<Rightarrow> r) = Some (GC_Ok s') \<and> gc_idle m0 C R' D' s' V' \<and>
        gc_weakList s' = gc_weakList s \<and>
        (gc_extended alloc s' \<longrightarrow> gc_extended alloc s) \<and> V \<subseteq> V' \<and> (gc_out s \<longrightarrow> gc_out s') \<and>
        (gc_out s' \<longrightarrow> gc_out s \<or> gc_targets m0 C \<inter> (V' - V) \<noteq> {}))"
  proof cases
    case 1
    then show ?thesis using s1 by simp
  next
    case (2 s2 V2)
    have "gc_targets m0 C \<inter> (V1 - V) \<subseteq> gc_targets m0 C \<inter> (V2 - V)"
      "gc_targets m0 C \<inter> (V2 - V1) \<subseteq> gc_targets m0 C \<inter> (V2 - V)" using 2(5) s1(5) by auto
    then have "gc_out s2 \<longrightarrow> gc_out s \<or> gc_targets m0 C \<inter> (V2 - V) \<noteq> {}" using 2(7) s1(7) by blast
    then show ?thesis using 2 s1 by (intro disjI2 exI [of _ s2] exI [of _ V2]) auto
  qed
qed simp

lemma gc_multi_post:
  assumes lay: "gc_layout m0 (gc_weakList s) C" and graph: "gc_graph m0 C" "R \<union> cells (lst, num) \<subseteq> C"
    and idle: "gc_idle m0 C R D s V" and flat: "1 < num \<Longrightarrow> \<forall>c\<in>cells (lst, num). snd (gc_list m0 c) = 0"
  shows "gc_post m0 C alloc (R \<union> cells (lst, num)) (if num = 1 then D - {lst} else D) s V
    (ReachabilityForMultipleBlocks alloc s lst num)"
proof -
  let ?l = "LOADSTATE s \<lparr>lc_lst = lst, lc_num = num, lc_list = 0, lc_stack = 0, lc_last = 0\<rparr>"
  note start = gc_idle_start [OF idle flat]
  note ok = gc_loop_ok [OF lay graph refl start, of alloc]
  consider "gc_loop alloc s ?l = Some GC_Overrun" "gc_extended alloc s"
    | s' w' where "gc_loop alloc s ?l = Some (GC_Ok s')"
      "gc_idle m0 C (R \<union> cells (lst, num)) (if num = 1 then D - {lst} else D) s' (wk_seen w')"
      "gc_weakList s' = gc_weakList s" "gc_extended alloc s' \<longrightarrow> gc_extended alloc s"
      "walk_progress m0 C V (gc_out s) w'" "gc_out s' = wk_out w'"
    using ok by blast
  then show ?thesis
  proof cases
    case 1
    then show ?thesis by (simp add: ReachabilityForMultipleBlocks_def gc_post_def)
  next
    case (2 s' w')
    have "V \<subseteq> wk_seen w'" "gc_out s \<longrightarrow> gc_out s'" "gc_out s' \<longrightarrow> gc_out s \<or> gc_targets m0 C \<inter> (wk_seen w' - V) \<noteq> {}"
      using 2(5,6) by (auto simp: walk_progress_def)
    then show ?thesis using 2(1-4) unfolding ReachabilityForMultipleBlocks_def gc_post_def
      by (intro disjI2 exI [of _ s'] exI [of _ "wk_seen w'"]) blast
  qed
qed

text \<open>A block seen already is a root that changes nothing.\<close>

lemma gc_idle_seen:
  assumes idle: "gc_idle m0 C R D s V" and a: "A \<subseteq> V"
  shows "gc_idle m0 C (R \<union> A) D s V"
proof -
  let ?w = "\<lparr>wk_seen = V, wk_pend = [], wk_cur = (0, 0), wk_out = gc_out s\<rparr>"
  have "gc_reach m0 R \<subseteq> gc_reach m0 (R \<union> A)"
  proof
    show "x \<in> gc_reach m0 (R \<union> A)" if "x \<in> gc_reach m0 R" for x
      using that by induction (auto intro: gc_reach.intros)
  qed
  moreover have "V \<subseteq> walk_todo m0 D ?w" by (auto simp: walk_todo_def)
  ultimately have "walk_inv m0 R D ?w \<Longrightarrow> walk_inv m0 (R \<union> A) D ?w"
    using a unfolding walk_inv_def by auto
  then show ?thesis using idle by (simp add: gc_idle_def)
qed


lemma gc_post_mono:
  assumes "gc_post m0 C alloc R D s V r" "\<And>s' V'. gc_idle m0 C R D s' V' \<Longrightarrow> V \<subseteq> V' \<Longrightarrow> gc_idle m0 C R' D' s' V'"
  shows "gc_post m0 C alloc R' D' s V r"
  using assms unfolding gc_post_def by (elim disjE exE conjE) blast+

lemma gc_idle_reached:
  assumes idle: "gc_idle m0 C (R \<union> A) D s V" and a: "A \<subseteq> gc_reach m0 R"
  shows "gc_idle m0 C R D s V"
proof -
  have "gc_reach m0 (R \<union> A) \<subseteq> gc_reach m0 R"
  proof
    show "x \<in> gc_reach m0 R" if "x \<in> gc_reach m0 (R \<union> A)" for x
      using that by induction (use a in \<open>auto intro: gc_reach.intros\<close>)
  qed
  then show ?thesis using idle unfolding gc_idle_def walk_inv_def by auto
qed

lemma gc_idleD:
  assumes "gc_idle m0 C R D s V"
  shows "gc_same m0 (gc_weakList s) C V (gc_mem s)" "V \<subseteq> gc_reach m0 R" "D \<subseteq> {a \<in> V. 1 < snd (gc_list m0 a)}"
  using assms by (auto simp: gc_idle_def walk_inv_def)

text \<open>The heap the slow pass walks: clusters with their blocks, which hold every list of more than one cell.\<close>

definition gc_cluster :: "heap_mem \<Rightarrow> nat \<Rightarrow> nat set \<Rightarrow> nat \<Rightarrow> (nat \<times> u32) list \<Rightarrow> bool" where
  "gc_cluster m wl C hc bs \<longleftrightarrow>
     0 < hc_payloadStart m hc \<and> heap_blocks m (hc_payloadStart m hc) bs (hc_payloadEnd m hc) \<and>
     fst ` set bs \<subseteq> C \<and> (\<forall>a\<in>fst ` set bs. hb_IsEvent m a \<or> \<not> hb_IsAlive m a) \<and>
     {hc + 6, hc + 7} \<inter> (C \<union> list_words wl \<union> \<Union> (gc_writes m ` C)) = {}"

definition gc_heap :: "heap_mem \<Rightarrow> nat \<Rightarrow> nat set \<Rightarrow> (nat \<times> (nat \<times> u32) list) list \<Rightarrow> bool" where
  "gc_heap m wl C H \<longleftrightarrow>
     (\<forall>(hc, bs)\<in>set H. gc_cluster m wl C hc bs) \<and>
     {a \<in> C. 1 < snd (gc_list m a)} \<subseteq> (\<Union>(hc, bs)\<in>set H. {a \<in> fst ` set bs. \<not> hb_IsEvent m a})"

lemma gc_heapD:
  assumes "gc_heap m wl C H" "(hc, bs) \<in> set H"
  shows "0 < hc_payloadStart m hc" "heap_blocks m (hc_payloadStart m hc) bs (hc_payloadEnd m hc)"
    "fst ` set bs \<subseteq> C" "\<forall>a\<in>fst ` set bs. hb_IsEvent m a \<or> \<not> hb_IsAlive m a"
    "{hc + 6, hc + 7} \<inter> (C \<union> list_words wl \<union> \<Union> (gc_writes m ` C)) = {}"
proof -
  have "gc_cluster m wl C hc bs" using assms unfolding gc_heap_def by auto
  then show "0 < hc_payloadStart m hc" "heap_blocks m (hc_payloadStart m hc) bs (hc_payloadEnd m hc)"
    "fst ` set bs \<subseteq> C" "\<forall>a\<in>fst ` set bs. hb_IsEvent m a \<or> \<not> hb_IsAlive m a"
    "{hc + 6, hc + 7} \<inter> (C \<union> list_words wl \<union> \<Union> (gc_writes m ` C)) = {}"
    unfolding gc_cluster_def by blast+
qed

lemma gc_same_block:
  assumes "gc_same m0 wl C V m" "a \<in> C"
  shows "hb_DataSize m a = id_size (m0 a)" "hb_IsEvent m a = hb_IsEvent m0 a"
  using gc_sameD(1) [OF assms] by (simp_all add: hb_DataSize_def id_or_alive hb_IsEvent_bit alive_bit_or)

lemma gc_slow_cluster_post:
  assumes lay: "gc_layout m0 wl C" and graph: "gc_graph m0 C" "R \<subseteq> C"
  shows "heap_blocks m0 p bs e \<Longrightarrow> 0 < p \<Longrightarrow> fst ` set bs \<subseteq> C \<Longrightarrow>
    (\<And>a. a \<in> fst ` set bs \<Longrightarrow> hb_IsEvent m0 a \<or> \<not> hb_IsAlive m0 a) \<Longrightarrow>
    (\<And>a. a \<in> D \<Longrightarrow> \<not> hb_IsEvent m0 a) \<Longrightarrow> gc_idle m0 C R D s V \<Longrightarrow> gc_weakList s = wl \<Longrightarrow>
    gc_post m0 C alloc R (D - fst ` set bs) s V (gc_slow_cluster alloc s p e)"
proof (induction bs arbitrary: p D s V)
  case Nil
  then show ?case by (subst gc_slow_cluster.simps) (simp add: gc_post_refl)
next
  case (Cons b bs)
  obtain a w where b: "b = (a, w)" by fastforce
  have blk: "a = p" "m0 p = w" "id_size w \<noteq> 0" "heap_blocks m0 (p + 3 * unat (id_size w)) bs e"
    using Cons.prems(1) by (auto simp: b)
  have pe: "p < e" using heap_blocks_end [OF blk(4)] blk(3) by (simp add: unat_gt_0)
  have p: "p \<in> C" "hb_IsEvent m0 p \<or> \<not> hb_IsAlive m0 p" using Cons.prems(3,4) by (auto simp: b blk(1))
  note idle = gc_idleD [OF Cons.prems(6), unfolded Cons.prems(7)]
  have alive: "hb_IsAlive (gc_mem s) p \<longleftrightarrow> hb_IsAlive m0 p \<or> p \<in> V" by (rule gc_same_view(6) [OF idle(1) p(1)])
  have event: "hb_IsEvent (gc_mem s) p = hb_IsEvent m0 p" by (rule gc_same_block(2) [OF idle(1) p(1)])
  define r where "r = (if hb_IsAlive (gc_mem s) p \<and> \<not> hb_IsEvent (gc_mem s) p
     then gc_check1 alloc s (CheckSingleBlock_Force p) else Some (GC_Ok s))"
  have "gc_post m0 C alloc R (D - {p}) s V r"
  proof (cases "hb_IsAlive (gc_mem s) p \<and> \<not> hb_IsEvent (gc_mem s) p")
    case True
    then have "p \<in> V" using p(2) alive event by blast
    then have reach: "{p} \<subseteq> gc_reach m0 R" using idle(2) by auto
    have "r = ReachabilityForMultipleBlocks alloc s p 1"
      using True Cons.prems(2) by (simp add: r_def gc_check1_def)
    then have "gc_post m0 C alloc (R \<union> {p}) (D - {p}) s V r"
      using gc_multi_post [OF _ graph(1) _ Cons.prems(6), of p 1 alloc] lay graph(2) p(1) Cons.prems(7) by simp
    then show ?thesis by (rule gc_post_mono) (rule gc_idle_reached [OF _ reach])
  next
    case False
    then have "p \<notin> D" using idle(3) alive event Cons.prems(5) [of p] by auto
    then have "D - {p} = D" by blast
    moreover have "r = Some (GC_Ok s)" unfolding r_def using False by (rule if_not_P)
    ultimately show ?thesis using gc_post_refl [OF Cons.prems(6)] by simp
  qed
  then have "gc_post m0 C alloc R (D - fst ` set (b # bs)) s V
      (case r of Some (GC_Ok s') \<Rightarrow> gc_slow_cluster alloc s' (p + 3 * unat (hb_DataSize (gc_mem s') p)) e | r \<Rightarrow> r)"
  proof (rule gc_post_then)
    fix s' V' assume s': "gc_idle m0 C R (D - {p}) s' V'" "V \<subseteq> V'" "gc_weakList s' = gc_weakList s"
    have "hb_DataSize (gc_mem s') p = id_size w"
      using gc_same_block(1) [OF gc_idleD(1) [OF s'(1)] p(1)] blk(2) by simp
    moreover have "gc_post m0 C alloc R (D - {p} - fst ` set bs) s' V' (gc_slow_cluster alloc s' (p + 3 * unat (id_size w)) e)"
      using Cons.prems(2,3,4,5,7) s'(3) by (intro Cons.IH [OF blk(4) _ _ _ _ s'(1)]) (auto simp: b)
    ultimately show "gc_post m0 C alloc R (D - fst ` set (b # bs)) s' V'
        (gc_slow_cluster alloc s' (p + 3 * unat (hb_DataSize (gc_mem s') p)) e)"
      by (simp add: b blk(1) Diff_insert2 [symmetric])
  qed
  also have "(case r of Some (GC_Ok s') \<Rightarrow> gc_slow_cluster alloc s' (p + 3 * unat (hb_DataSize (gc_mem s') p)) e | r \<Rightarrow> r) =
      gc_slow_cluster alloc s p e"
    unfolding r_def by (subst (2) gc_slow_cluster.simps) (simp add: pe)
  finally show ?case .
qed


lemma gc_slow_pass_post:
  assumes lay: "gc_layout m0 wl C" and graph: "gc_graph m0 C" "R \<subseteq> C" and heap: "gc_heap m0 wl C HH"
  shows "set H \<subseteq> set HH \<Longrightarrow> (\<And>a. a \<in> D \<Longrightarrow> \<not> hb_IsEvent m0 a) \<Longrightarrow> gc_idle m0 C R D s V \<Longrightarrow> gc_weakList s = wl \<Longrightarrow>
    gc_post m0 C alloc R (D - (\<Union>(hc, bs)\<in>set H. fst ` set bs)) s V (gc_slow_pass alloc s (map fst H))"
proof (induction H arbitrary: D s V)
  case Nil
  then show ?case by (simp add: gc_post_refl)
next
  case (Cons h H)
  obtain hc bs where h: "h = (hc, bs)" by fastforce
  have blk: "0 < hc_payloadStart m0 hc" "heap_blocks m0 (hc_payloadStart m0 hc) bs (hc_payloadEnd m0 hc)"
      "fst ` set bs \<subseteq> C" "\<And>a. a \<in> fst ` set bs \<Longrightarrow> hb_IsEvent m0 a \<or> \<not> hb_IsAlive m0 a"
      "{hc + 6, hc + 7} \<inter> (C \<union> list_words wl \<union> \<Union> (gc_writes m0 ` C)) = {}"
  proof -
    have "(hc, bs) \<in> set HH" using Cons.prems(1) h by auto
    note D = gc_heapD [OF heap this]
    show "0 < hc_payloadStart m0 hc" "heap_blocks m0 (hc_payloadStart m0 hc) bs (hc_payloadEnd m0 hc)"
      "fst ` set bs \<subseteq> C" "{hc + 6, hc + 7} \<inter> (C \<union> list_words wl \<union> \<Union> (gc_writes m0 ` C)) = {}" by (fact D)+
    show "hb_IsEvent m0 a \<or> \<not> hb_IsAlive m0 a" if "a \<in> fst ` set bs" for a using D(4) that by blast
  qed
  note same = gc_idleD(1) [OF Cons.prems(3), unfolded Cons.prems(4)]
  have k: "gc_mem s (hc + 6) = m0 (hc + 6)" "gc_mem s (hc + 7) = m0 (hc + 7)"
    using blk(5) by (auto intro!: gc_sameD(4) [OF same])
  have ends: "hc_payloadStart (gc_mem s) hc = hc_payloadStart m0 hc" "hc_payloadEnd (gc_mem s) hc = hc_payloadEnd m0 hc"
    by (simp_all add: hc_payloadStart_def hc_payloadEnd_def k)
  have post: "gc_post m0 C alloc R (D - fst ` set bs) s V
      (gc_slow_cluster alloc s (hc_payloadStart (gc_mem s) hc) (hc_payloadEnd (gc_mem s) hc))"
    unfolding ends using Cons.prems(2-4) by (intro gc_slow_cluster_post [OF lay graph blk(2,1,3,4)]) auto
  have set: "D - fst ` set bs - (\<Union>(hc, bs)\<in>set H. fst ` set bs) = D - (\<Union>(hc, bs)\<in>set (h # H). fst ` set bs)"
    by (auto simp: h)
  show ?case unfolding list.map(2) gc_slow_pass.simps h fst_conv
  proof (rule gc_post_then [OF post])
    fix s' V' assume s': "gc_idle m0 C R (D - fst ` set bs) s' V'" "gc_weakList s' = gc_weakList s"
    show "gc_post m0 C alloc R (D - (\<Union>(hc, bs)\<in>set ((hc, bs) # H). fst ` set bs)) s' V' (gc_slow_pass alloc s' (map fst H))"
      using Cons.IH [OF _ _ s'(1)] Cons.prems(1,2,4) s'(2) unfolding set h by simp
  qed
qed

text \<open>The outcome of the whole marking.\<close>

definition gc_marked :: "heap_mem \<Rightarrow> nat set \<Rightarrow> (nat \<Rightarrow> nat \<Rightarrow> bool) \<Rightarrow> nat set \<Rightarrow> gc_state \<Rightarrow> gc_result option \<Rightarrow> bool" where
  "gc_marked m0 C alloc R s r \<longleftrightarrow>
     r = Some GC_Overrun \<and> gc_extended alloc s \<or>
     (\<exists>s' V'. r = Some (GC_Ok s') \<and> gc_idle m0 C R {} s' V' \<and> \<not> gc_out s' \<and> gc_weakList s' = gc_weakList s \<and>
        (gc_extended alloc s' \<longrightarrow> gc_extended alloc s))"

lemma gc_idle_restart:
  assumes "gc_idle m0 C R {} s V" "gc_out s"
  shows "gc_idle m0 C R {a \<in> V. 1 < snd (gc_list m0 a)} (s\<lparr>gc_out := False\<rparr>) V"
proof -
  let ?D = "{a \<in> V. 1 < snd (gc_list m0 a)}"
  let ?w = "\<lparr>wk_seen = V, wk_pend = [], wk_cur = (0, 0), wk_out = True\<rparr>"
  have "walk_cells (?w\<lparr>wk_out := False\<rparr>) = walk_cells ?w" by (simp add: walk_cells_def)
  moreover have "walk_todo m0 ?D (?w\<lparr>wk_out := False\<rparr>) = walk_todo m0 {} ?w"
    by (simp add: walk_todo_def walk_cells_def)
  ultimately show ?thesis using assms unfolding gc_idle_def walk_inv_def by simp
qed

lemma MarkSlow_post:
  assumes lay: "gc_layout m0 wl C" and graph: "gc_graph m0 C" "R \<subseteq> C" and heap: "gc_heap m0 wl C H"
  shows "gc_idle m0 C R {} s V \<Longrightarrow> gc_weakList s = wl \<Longrightarrow> gc_marked m0 C alloc R s (MarkSlow alloc s (map fst H))"
proof (induction "card (gc_targets m0 C - V)" arbitrary: s V rule: less_induct)
  case less
  show ?case
  proof (cases "gc_out s")
    case False
    then show ?thesis using less.prems by (subst MarkSlow.simps) (auto simp: gc_marked_def)
  next
    case True
    let ?s = "s\<lparr>gc_out := False\<rparr>" and ?D = "{a \<in> V. 1 < snd (gc_list m0 a)}"
    note idle = gc_idle_restart [OF less.prems(1) True]
    have ext: "gc_extended alloc ?s = gc_extended alloc s" by (simp add: gc_extended_def)
    have VC: "V \<subseteq> C" using gc_idleD(2) [OF less.prems(1)] gc_reach_in [OF graph] by auto
    then have D: "?D \<subseteq> (\<Union>(hc, bs)\<in>set H. {a \<in> fst ` set bs. \<not> hb_IsEvent m0 a})"
      using heap unfolding gc_heap_def by blast
    have "\<not> hb_IsEvent m0 a" if "a \<in> ?D" for a using D that by auto
    then have "gc_post m0 C alloc R (?D - (\<Union>(hc, bs)\<in>set H. fst ` set bs)) ?s V (gc_slow_pass alloc ?s (map fst H))"
      using gc_slow_pass_post [OF lay graph heap subset_refl _ idle] less.prems(2) by simp
    also have "?D - (\<Union>(hc, bs)\<in>set H. fst ` set bs) = {}"
    proof -
      have "(\<Union>(hc, bs)\<in>set H. {a \<in> fst ` set bs. \<not> hb_IsEvent m0 a}) \<subseteq> (\<Union>(hc, bs)\<in>set H. fst ` set bs)"
        by (rule UN_mono) auto
      with D have "?D \<subseteq> (\<Union>(hc, bs)\<in>set H. fst ` set bs)" by (rule order_trans)
      then show ?thesis by (simp only: Diff_eq_empty_iff)
    qed
    finally show ?thesis unfolding gc_post_def ext
    proof (elim disjE exE conjE)
      assume "gc_slow_pass alloc ?s (map fst H) = Some GC_Overrun" "gc_extended alloc s"
      then show ?thesis using True by (subst MarkSlow.simps) (simp add: gc_marked_def)
    next
      fix s' V'
      assume 1: "gc_slow_pass alloc ?s (map fst H) = Some (GC_Ok s')" "gc_idle m0 C R {} s' V'"
        "gc_weakList s' = gc_weakList ?s" "gc_extended alloc s' \<longrightarrow> gc_extended alloc s" "V \<subseteq> V'"
        "gc_out s' \<longrightarrow> gc_out ?s \<or> gc_targets m0 C \<inter> (V' - V) \<noteq> {}"
      have 2: "gc_weakList s' = wl" "gc_out s' \<longrightarrow> gc_targets m0 C \<inter> (V' - V) \<noteq> {}" using 1(3,6) less.prems(2) by simp_all
      have step: "MarkSlow alloc s (map fst H) = MarkSlow alloc s' (map fst H)"
        using True 1(1) by (subst MarkSlow.simps) simp
      have "gc_marked m0 C alloc R s' (MarkSlow alloc s' (map fst H))"
      proof (cases "gc_out s'")
        case True
        have "finite C" using lay unfolding gc_layout_def by (meson finite_lessThan finite_subset)
        then have "card (gc_targets m0 C - V') < card (gc_targets m0 C - V)"
          using 1(5) 2(2) True by (intro psubset_card_mono) (auto simp: gc_targets_def)
        then show ?thesis using less.hyps 1(2) 2(1) by blast
      next
        case False
        then show ?thesis using 1(2) by (subst MarkSlow.simps) (auto simp: gc_marked_def)
      qed
      then show ?thesis using 1(4) 2(1) less.prems(2) unfolding step gc_marked_def by auto
    qed
  qed
qed

end
