(* ===== verification/GcCollect.thy ===== *)
theory GcCollect
  imports GcWalk
begin

text \<open>
  The collection (\<open>Mark\<close>, \<open>MarkWeak\<close> and \<open>Sweep\<close> of \<open>CLR/Core/GarbageCollector.cpp\<close>): the roots the
  runtime hands over, the finalizers, and the theorem on the marking as a whole.
\<close>

section \<open>The roots and the finalizers\<close>

text \<open>What one of the calls hands over.\<close>

definition check_cells :: "heap_mem \<Rightarrow> gc_check \<Rightarrow> nat set" where
  "check_cells m c =
     (case c of
        CheckSingleBlock obj \<Rightarrow> if obj = 0 \<or> hb_IsAlive m obj then {} else {obj}
      | CheckSingleBlock_Force ptr \<Rightarrow> if ptr = 0 then {} else {ptr}
      | CheckMultipleBlocks lst num \<Rightarrow> if lst = 0 then {} else cells (lst, num))"

definition check_ok :: "heap_mem \<Rightarrow> nat set \<Rightarrow> gc_check \<Rightarrow> bool" where
  "check_ok m C c \<longleftrightarrow> check_cells m c \<subseteq> C \<and>
     (case c of
        CheckSingleBlock obj \<Rightarrow> obj = 0 \<or> obj \<in> C
      | CheckSingleBlock_Force ptr \<Rightarrow> True
      | CheckMultipleBlocks lst num \<Rightarrow> 1 < num \<longrightarrow> (\<forall>c\<in>check_cells m (CheckMultipleBlocks lst num). snd (gc_list m c) = 0))"

lemma gc_check1_post:
  assumes lay: "gc_layout m0 (gc_weakList s) C" and graph: "gc_graph m0 C" "R \<subseteq> C"
    and idle: "gc_idle m0 C R {} s V" and c: "check_ok m0 C c"
  shows "gc_post m0 C alloc (R \<union> check_cells m0 c) {} s V (gc_check1 alloc s c)"
proof -
  have multi: "gc_post m0 C alloc (R \<union> cells (lst, num)) {} s V (ReachabilityForMultipleBlocks alloc s lst num)"
    if "cells (lst, num) \<subseteq> C" "1 < num \<Longrightarrow> \<forall>c\<in>cells (lst, num). snd (gc_list m0 c) = 0" for lst num
    using gc_multi_post [OF lay graph(1) _ idle that(2), of alloc] graph(2) that(1) by (simp split: if_splits)
  show ?thesis
  proof (cases c)
    case (CheckSingleBlock obj)
    show ?thesis
    proof (cases "obj = 0 \<or> hb_IsAlive (gc_mem s) obj")
      case True
      have "check_cells m0 c \<subseteq> V"
        using True gc_same_view(6) [OF gc_idleD(1) [OF idle], of obj] c CheckSingleBlock
        by (auto simp: check_cells_def check_ok_def)
      then show ?thesis using gc_post_refl [OF gc_idle_seen [OF idle]] True CheckSingleBlock
        by (simp add: gc_check1_def ReachabilityForSingleBlock_def)
    next
      case False
      then have "check_cells m0 c = {obj}" "obj \<in> C"
        using gc_same_view(6) [OF gc_idleD(1) [OF idle], of obj] c CheckSingleBlock
        by (auto simp: check_cells_def check_ok_def)
      then show ?thesis using multi [of obj 1] False CheckSingleBlock
        by (simp add: gc_check1_def ReachabilityForSingleBlock_def)
    qed
  next
    case (CheckSingleBlock_Force ptr)
    then show ?thesis using multi [of ptr 1] gc_post_refl [OF idle] c
      by (auto simp: gc_check1_def check_cells_def check_ok_def)
  next
    case (CheckMultipleBlocks lst num)
    then show ?thesis using multi [of lst num] gc_post_refl [OF idle] c
      by (auto simp: gc_check1_def check_cells_def check_ok_def)
  qed
qed

lemma gc_checks_post:
  assumes lay: "gc_layout m0 wl C" and graph: "gc_graph m0 C"
  shows "R \<subseteq> C \<Longrightarrow> (\<And>c. c \<in> set cs \<Longrightarrow> check_ok m0 C c) \<Longrightarrow> gc_idle m0 C R {} s V \<Longrightarrow> gc_weakList s = wl \<Longrightarrow>
    gc_post m0 C alloc (R \<union> \<Union> (check_cells m0 ` set cs)) {} s V (gc_checks alloc s cs)"
proof (induction cs arbitrary: R s V)
  case Nil
  then show ?case by (simp add: gc_post_refl)
next
  case (Cons c cs)
  have c: "check_cells m0 c \<subseteq> C" using Cons.prems(2) [of c] by (simp add: check_ok_def)
  have "gc_post m0 C alloc (R \<union> check_cells m0 c) {} s V (gc_check1 alloc s c)"
    using lay Cons.prems by (intro gc_check1_post [OF _ graph]) auto
  then show ?case unfolding gc_checks.simps
  proof (rule gc_post_then)
    fix s' V' assume s': "gc_idle m0 C (R \<union> check_cells m0 c) {} s' V'" "gc_weakList s' = gc_weakList s"
    show "gc_post m0 C alloc (R \<union> \<Union> (check_cells m0 ` set (c # cs))) {} s' V' (gc_checks alloc s' cs)"
      using Cons.IH [OF _ _ s'(1)] Cons.prems(1,2,4) s'(2) c by (simp add: Un_assoc)
  qed
qed

text \<open>With no list pending and none dropped, the blocks seen are the reachable ones.\<close>

lemma gc_idle_complete:
  assumes "gc_idle m0 C R {} s V" "\<not> gc_out s"
  shows "V = gc_reach m0 R"
proof
  show "V \<subseteq> gc_reach m0 R" by (rule gc_idleD(2) [OF assms(1)])
  let ?w = "\<lparr>wk_seen = V, wk_pend = [], wk_cur = (0, 0), wk_out = gc_out s\<rparr>"
  have todo: "walk_todo m0 {} ?w = V" using assms(2) by (simp add: walk_todo_def walk_cells_def)
  have V: "R \<subseteq> V" "\<And>a. a \<in> V \<Longrightarrow> cells (gc_list m0 a) \<subseteq> V" "\<And>a. a \<in> V \<Longrightarrow> gc_ref m0 a \<noteq> 0 \<Longrightarrow> gc_ref m0 a \<in> V"
    using assms(1) unfolding gc_idle_def walk_inv_def todo by simp_all
  show "gc_reach m0 R \<subseteq> V"
  proof
    show "a \<in> V" if "a \<in> gc_reach m0 R" for a
      using that by induction (use V in auto)
  qed
qed


text \<open>
  The finalizers of \<open>m_finalizersAlive\<close> by the objects they watch: those whose object is dead go to
  the end of \<open>m_finalizersPending\<close> and keep it for one more time.
\<close>

datatype gc_mark_result = Marked gc_state "nat list" "nat list" | Marked_Overrun

fun gc_finalizers :: "(nat \<Rightarrow> nat \<Rightarrow> bool) \<Rightarrow> gc_state \<Rightarrow> nat list \<Rightarrow> nat list \<Rightarrow> nat list \<Rightarrow> gc_mark_result option" where
  "gc_finalizers alloc s [] alive pending = Some (Marked s alive pending)"
| "gc_finalizers alloc s (fin # fins) alive pending =
     (if \<not> hb_IsAlive (gc_mem s) fin then
        (case gc_check1 alloc s (CheckSingleBlock fin) of
           Some (GC_Ok s') \<Rightarrow> gc_finalizers alloc s' fins alive (pending @ [fin])
         | Some GC_Overrun \<Rightarrow> Some Marked_Overrun
         | None \<Rightarrow> None)
      else gc_finalizers alloc s fins (alive @ [fin]) pending)"

definition gc_fin_post :: "heap_mem \<Rightarrow> nat set \<Rightarrow> (nat \<Rightarrow> nat \<Rightarrow> bool) \<Rightarrow> nat set \<Rightarrow> gc_state \<Rightarrow> nat set \<Rightarrow>
    nat list \<Rightarrow> nat list \<Rightarrow> nat list \<Rightarrow> gc_mark_result option \<Rightarrow> bool" where
  "gc_fin_post m0 C alloc R s V fins a p r \<longleftrightarrow>
     r = Some Marked_Overrun \<and> gc_extended alloc s \<or>
     (\<exists>s' V' a2 p2. r = Some (Marked s' (a @ a2) (p @ p2)) \<and>
       gc_idle m0 C (R \<union> set p2) {} s' V' \<and> gc_weakList s' = gc_weakList s \<and> (gc_extended alloc s' \<longrightarrow> gc_extended alloc s) \<and>
       V \<subseteq> V' \<and> set p2 \<inter> V = {} \<and> (\<forall>f\<in>set p2. \<not> hb_IsAlive m0 f) \<and> (\<forall>f\<in>set a2. hb_IsAlive m0 f \<or> f \<in> V') \<and>
       set fins = set a2 \<union> set p2)"

lemma gc_fin_post_alive:
  assumes post: "gc_fin_post m0 C alloc R s V fins (a @ [f]) p r" and f: "hb_IsAlive m0 f \<or> f \<in> V"
  shows "gc_fin_post m0 C alloc R s V (f # fins) a p r"
  using post unfolding gc_fin_post_def
proof (elim disjE exE conjE)
  fix s' V' a2 p2
  assume 1: "r = Some (Marked s' ((a @ [f]) @ a2) (p @ p2))"
    "gc_idle m0 C (R \<union> set p2) {} s' V'" "gc_weakList s' = gc_weakList s" "gc_extended alloc s' \<longrightarrow> gc_extended alloc s"
    "V \<subseteq> V'" "set p2 \<inter> V = {}" "\<forall>f\<in>set p2. \<not> hb_IsAlive m0 f" "\<forall>f\<in>set a2. hb_IsAlive m0 f \<or> f \<in> V'"
    "set fins = set a2 \<union> set p2"
  have "\<forall>f\<in>set (f # a2). hb_IsAlive m0 f \<or> f \<in> V'" using 1(5,8) f by auto
  then show "r = Some Marked_Overrun \<and> gc_extended alloc s \<or>
     (\<exists>s' V' a2 p2. r = Some (Marked s' (a @ a2) (p @ p2)) \<and>
       gc_idle m0 C (R \<union> set p2) {} s' V' \<and> gc_weakList s' = gc_weakList s \<and> (gc_extended alloc s' \<longrightarrow> gc_extended alloc s) \<and>
       V \<subseteq> V' \<and> set p2 \<inter> V = {} \<and> (\<forall>f\<in>set p2. \<not> hb_IsAlive m0 f) \<and> (\<forall>f\<in>set a2. hb_IsAlive m0 f \<or> f \<in> V') \<and>
       set (f # fins) = set a2 \<union> set p2)"
    using 1 by (intro disjI2 exI [of _ s'] exI [of _ V'] exI [of _ "f # a2"] exI [of _ p2]) simp
qed simp

lemma gc_fin_post_dead:
  assumes post: "gc_fin_post m0 C alloc (R \<union> {f}) s1 V1 fins a (p @ [f]) r"
    and f: "\<not> hb_IsAlive m0 f" "f \<notin> V" and s1: "V \<subseteq> V1" "gc_weakList s1 = gc_weakList s"
      "gc_extended alloc s1 \<longrightarrow> gc_extended alloc s"
  shows "gc_fin_post m0 C alloc R s V (f # fins) a p r"
  using post unfolding gc_fin_post_def
proof (elim disjE exE conjE)
  fix s' V' a2 p2
  assume 1: "r = Some (Marked s' (a @ a2) ((p @ [f]) @ p2))"
    "gc_idle m0 C (R \<union> {f} \<union> set p2) {} s' V'" "gc_weakList s' = gc_weakList s1" "gc_extended alloc s' \<longrightarrow> gc_extended alloc s1"
    "V1 \<subseteq> V'" "set p2 \<inter> V1 = {}" "\<forall>f\<in>set p2. \<not> hb_IsAlive m0 f" "\<forall>f\<in>set a2. hb_IsAlive m0 f \<or> f \<in> V'"
    "set fins = set a2 \<union> set p2"
  have "R \<union> {f} \<union> set p2 = R \<union> set (f # p2)" "set (f # p2) \<inter> V = {}" "\<forall>f\<in>set (f # p2). \<not> hb_IsAlive m0 f"
      "V \<subseteq> V'" "gc_extended alloc s' \<longrightarrow> gc_extended alloc s" "set (f # fins) = set a2 \<union> set (f # p2)"
    using f s1 1(4-7,9) by auto
  then show "r = Some Marked_Overrun \<and> gc_extended alloc s \<or>
     (\<exists>s' V' a2 p2. r = Some (Marked s' (a @ a2) (p @ p2)) \<and>
       gc_idle m0 C (R \<union> set p2) {} s' V' \<and> gc_weakList s' = gc_weakList s \<and> (gc_extended alloc s' \<longrightarrow> gc_extended alloc s) \<and>
       V \<subseteq> V' \<and> set p2 \<inter> V = {} \<and> (\<forall>f\<in>set p2. \<not> hb_IsAlive m0 f) \<and> (\<forall>f\<in>set a2. hb_IsAlive m0 f \<or> f \<in> V') \<and>
       set (f # fins) = set a2 \<union> set p2)"
    using 1(1-3,8) s1(2) by (intro disjI2 exI [of _ s'] exI [of _ V'] exI [of _ a2] exI [of _ "f # p2"]) simp
qed (use s1 in simp)

lemma gc_finalizers_post:
  assumes lay: "gc_layout m0 wl C" and graph: "gc_graph m0 C"
  shows "R \<subseteq> C \<Longrightarrow> set fins \<subseteq> C - {0} \<Longrightarrow> gc_idle m0 C R {} s V \<Longrightarrow> gc_weakList s = wl \<Longrightarrow>
    gc_fin_post m0 C alloc R s V fins a p (gc_finalizers alloc s fins a p)"
proof (induction fins arbitrary: R s V a p)
  case Nil
  then show ?case unfolding gc_fin_post_def by (intro disjI2 exI [of _ s] exI [of _ V] exI [of _ "[]"]) simp
next
  case (Cons f fins)
  have f: "f \<in> C" "f \<noteq> 0" "set fins \<subseteq> C - {0}" using Cons.prems(2) by auto
  have alive: "hb_IsAlive (gc_mem s) f \<longleftrightarrow> hb_IsAlive m0 f \<or> f \<in> V"
    by (rule gc_same_view(6) [OF gc_idleD(1) [OF Cons.prems(3)] f(1)])
  show ?case
  proof (cases "hb_IsAlive (gc_mem s) f")
    case True
    then show ?thesis
      using gc_fin_post_alive [OF Cons.IH [OF Cons.prems(1) f(3) Cons.prems(3,4)]] alive by simp
  next
    case False
    have cells: "check_cells m0 (CheckSingleBlock f) = {f}" using f(2) alive False by (simp add: check_cells_def)
    then have ok: "check_ok m0 C (CheckSingleBlock f)" using f(1) by (simp add: check_ok_def)
    have lay': "gc_layout m0 (gc_weakList s) C" using lay Cons.prems(4) by simp
    from gc_check1_post [OF lay' graph Cons.prems(1,3) ok, of alloc] show ?thesis unfolding gc_post_def cells
    proof (elim disjE exE conjE)
      assume "gc_check1 alloc s (CheckSingleBlock f) = Some GC_Overrun" "gc_extended alloc s"
      then show ?thesis using False by (simp add: gc_fin_post_def)
    next
      fix s1 V1
      assume 1: "gc_check1 alloc s (CheckSingleBlock f) = Some (GC_Ok s1)" "gc_idle m0 C (R \<union> {f}) {} s1 V1"
        "gc_weakList s1 = gc_weakList s" "gc_extended alloc s1 \<longrightarrow> gc_extended alloc s" "V \<subseteq> V1"
      have R: "R \<union> {f} \<subseteq> C" "gc_weakList s1 = wl" using Cons.prems(1,4) f 1(3) by auto
      show ?thesis
        using gc_fin_post_dead [OF Cons.IH [OF R(1) f(3) 1(2) R(2)] _ _ 1(5,3,4)] False alive 1(1) by simp
    qed
  qed
qed

section \<open>\<open>Mark\<close>\<close>

text \<open>
  What the runtime holds, as the lists its markers walk: the chain of \<open>CLR_RT_ProtectFromGC\<close>, the
  application domains with the static fields of their assemblies, the files of the assemblies, and
  the threads with their stack frames. A callback of a protected pointer is the calls it makes.
\<close>

datatype gc_protect = Protect_Callback "gc_check list" | Protect_Data nat

definition Protect_Invoke :: "gc_protect \<Rightarrow> gc_check list" where
  "Protect_Invoke p =
     (case p of
        Protect_Callback cs \<Rightarrow> cs
      | Protect_Data d \<Rightarrow> if d \<noteq> 0 then [CheckMultipleBlocks d 1] else [])"

definition Protect_InvokeAll :: "gc_protect list \<Rightarrow> gc_check list" where
  "Protect_InvokeAll ps = concat (map Protect_Invoke ps)"

record app_domain =
  ad_assemblies :: "(nat \<times> u32) list"
  ad_globalLock :: nat
  ad_strName :: nat
  ad_outOfMemoryException :: nat

definition AppDomain_Mark :: "app_domain list \<Rightarrow> gc_check list" where
  "AppDomain_Mark ads = concat (map (\<lambda>ad.
     map (\<lambda>(fields, num). CheckMultipleBlocks fields num) (ad_assemblies ad) @
     [CheckSingleBlock_Force (ad_globalLock ad), CheckSingleBlock_Force (ad_strName ad),
      CheckSingleBlock_Force (ad_outOfMemoryException ad)]) ads)"

definition Assembly_Mark :: "nat list \<Rightarrow> gc_check list" where
  "Assembly_Mark files = map CheckSingleBlock files"

record frame_cells =
  fc_args :: "nat \<times> u32"
  fc_locals :: "nat \<times> u32"
  fc_evalStack :: "nat \<times> u32"

record stack_frame =
  sf_inline :: "frame_cells option"
  sf_frame :: frame_cells

record rt_thread =
  th_dlg :: nat
  th_currentException :: nat
  th_nestedExceptions :: "nat list"
  th_nestedExceptionsPos :: nat
  th_stackFrames :: "stack_frame list"
  th_locks :: "nat list"
  th_waitForObject :: "(nat \<times> u32) option"

definition Frame_Mark :: "frame_cells \<Rightarrow> gc_check list" where
  "Frame_Mark f = map (\<lambda>(lst, num). CheckMultipleBlocks lst num) [fc_args f, fc_locals f, fc_evalStack f]"

definition Thread_Mark :: "rt_thread \<Rightarrow> gc_check list" where
  "Thread_Mark th =
     [CheckSingleBlock (th_dlg th), CheckSingleBlock_Force (th_currentException th)] @
     map CheckSingleBlock_Force (take (th_nestedExceptionsPos th) (th_nestedExceptions th)) @
     concat (map (\<lambda>stack. (case sf_inline stack of None \<Rightarrow> [] | Some f \<Rightarrow> Frame_Mark f) @ Frame_Mark (sf_frame stack))
       (th_stackFrames th)) @
     map CheckSingleBlock_Force (th_locks th) @
     (case th_waitForObject th of None \<Rightarrow> [] | Some (objs, n) \<Rightarrow> [CheckMultipleBlocks objs n])"

definition Thread_Mark_all :: "rt_thread list \<Rightarrow> gc_check list" where
  "Thread_Mark_all ths = concat (map Thread_Mark ths)"

record gc_roots =
  ro_protected :: "gc_protect list"
  ro_finalizersPending :: "nat list"
  ro_finalizersAlive :: "nat list"
  ro_appDomains :: "app_domain list"
  ro_files :: "nat list"
  ro_threadsReady :: "rt_thread list"
  ro_threadsWaiting :: "rt_thread list"
  ro_currentUICulture :: nat
  ro_scratchPadArray :: nat

definition gc_root_checks :: "gc_roots \<Rightarrow> gc_check list" where
  "gc_root_checks ro =
     Protect_InvokeAll (ro_protected ro) @
     map CheckSingleBlock (ro_finalizersPending ro) @
     AppDomain_Mark (ro_appDomains ro) @
     Assembly_Mark (ro_files ro) @
     Thread_Mark_all (ro_threadsReady ro) @
     Thread_Mark_all (ro_threadsWaiting ro) @
     [CheckSingleBlock_Force (ro_currentUICulture ro), CheckSingleBlock_Force (ro_scratchPadArray ro)]"

text \<open>\<open>m_markStack\<close> and \<open>m_weakDelegates_Reachable\<close> set up, the list at the address \<open>wl\<close>.\<close>

definition gc_start :: "heap_mem \<Rightarrow> nat \<Rightarrow> gc_state" where
  "gc_start m wl =
     \<lparr>gc_mem = DblLinkedList_Initialize m wl, gc_stacks = [MarkStack_Initialize c_minimumSpaceForGC],
      gc_cur = 0, gc_out = False, gc_calls = 0, gc_weakList = wl\<rparr>"

text \<open>The second half of \<open>Mark\<close>, the finalizers and what they left undone, and the whole.\<close>

definition Mark_finalizers :: "(nat \<Rightarrow> nat \<Rightarrow> bool) \<Rightarrow> gc_state \<Rightarrow> gc_roots \<Rightarrow> nat list \<Rightarrow> gc_mark_result option" where
  "Mark_finalizers alloc s ro heap =
     (case gc_finalizers alloc s (ro_finalizersAlive ro) [] (ro_finalizersPending ro) of
        Some (Marked s' alive pending) \<Rightarrow>
          (case MarkSlow alloc s' heap of
             Some (GC_Ok s'') \<Rightarrow> Some (Marked s'' alive pending)
           | Some GC_Overrun \<Rightarrow> Some Marked_Overrun
           | None \<Rightarrow> None)
      | r \<Rightarrow> r)"

definition Mark :: "(nat \<Rightarrow> nat \<Rightarrow> bool) \<Rightarrow> heap_mem \<Rightarrow> nat \<Rightarrow> gc_roots \<Rightarrow> nat list \<Rightarrow> gc_mark_result option" where
  "Mark alloc m wl ro heap =
     (case (case gc_checks alloc (gc_start m wl) (gc_root_checks ro) of
              Some (GC_Ok s) \<Rightarrow> MarkSlow alloc s heap
            | r \<Rightarrow> r) of
        Some (GC_Ok s) \<Rightarrow> Mark_finalizers alloc s ro heap
      | Some GC_Overrun \<Rightarrow> Some Marked_Overrun
      | None \<Rightarrow> None)"

lemma gc_start_idle:
  assumes "0 < wl" "wl < 2 ^ 32"
  shows "gc_idle (DblLinkedList_Initialize m wl) C {} {} (gc_start m wl) {}" "gc_extended alloc (gc_start m wl) \<longleftrightarrow> (\<exists>n e. alloc n e)"
proof -
  let ?m0 = "DblLinkedList_Initialize m wl"
  have "unat (?m0 (wl + 2)) = wl - 1" using assms hb_ptr [of "wl - 1"] by (simp add: DblLinkedList_Initialize_def list_Head_def)
  then have "gc_same ?m0 wl C {} ?m0" by (simp add: gc_same_def)
  moreover have "stacks_wf [MarkStack_Initialize c_minimumSpaceForGC] 0" "elems [MarkStack_Initialize c_minimumSpaceForGC] = []"
    by (simp_all add: stacks_wf_def elems_def ms_elems_def MarkStack_Initialize_def c_minimumSpaceForGC_def)
  ultimately show "gc_idle ?m0 C {} {} (gc_start m wl) {}"
    by (simp add: gc_idle_def gc_start_def walk_inv_def walk_cells_def)
  show "gc_extended alloc (gc_start m wl) \<longleftrightarrow> (\<exists>n e. alloc n e)" by (simp add: gc_extended_def gc_start_def)
qed

text \<open>What the marking leaves: the blocks alive are the ones alive before and the reachable ones.\<close>

definition mark_done :: "heap_mem \<Rightarrow> nat \<Rightarrow> nat set \<Rightarrow> nat set \<Rightarrow> nat list \<Rightarrow> nat list \<Rightarrow> gc_state \<Rightarrow> nat list \<Rightarrow> nat list \<Rightarrow> bool" where
  "mark_done m0 wl C R fins pending s a p \<longleftrightarrow>
     (\<exists>new. p = pending @ new \<and> \<not> gc_out s \<and> gc_same m0 wl C (gc_reach m0 (R \<union> set new)) (gc_mem s) \<and>
        (\<forall>f\<in>set new. \<not> hb_IsAlive m0 f \<and> f \<notin> gc_reach m0 R) \<and> (\<forall>f\<in>set a. hb_IsAlive (gc_mem s) f) \<and>
        set fins = set a \<union> set new)"

lemma Mark_finalizers_post:
  assumes lay: "gc_layout m0 wl C" and graph: "gc_graph m0 C" "R \<subseteq> C" and heap: "gc_heap m0 wl C H"
    and fins: "set (ro_finalizersAlive ro) \<subseteq> C - {0}"
    and s: "gc_idle m0 C R {} s V" "\<not> gc_out s" "gc_weakList s = wl"
  shows "Mark_finalizers alloc s ro (map fst H) = Some Marked_Overrun \<and> gc_extended alloc s \<or>
    (\<exists>s' a p. Mark_finalizers alloc s ro (map fst H) = Some (Marked s' a p) \<and>
      mark_done m0 wl C R (ro_finalizersAlive ro) (ro_finalizersPending ro) s' a p)"
proof -
  let ?fin = "gc_finalizers alloc s (ro_finalizersAlive ro) [] (ro_finalizersPending ro)"
  have V: "V = gc_reach m0 R" by (rule gc_idle_complete [OF s(1,2)])
  from gc_finalizers_post [OF lay graph fins s(1,3), of alloc "[]" "ro_finalizersPending ro"]
  show ?thesis unfolding gc_fin_post_def
  proof (elim disjE exE conjE)
    assume "?fin = Some Marked_Overrun" "gc_extended alloc s"
    then show ?thesis by (simp add: Mark_finalizers_def)
  next
    fix s3 V3 a new
    assume fin: "?fin = Some (Marked s3 ([] @ a) (ro_finalizersPending ro @ new))" "gc_idle m0 C (R \<union> set new) {} s3 V3"
      "gc_weakList s3 = gc_weakList s" "gc_extended alloc s3 \<longrightarrow> gc_extended alloc s" "set new \<inter> V = {}"
      "\<forall>f\<in>set new. \<not> hb_IsAlive m0 f" "\<forall>f\<in>set a. hb_IsAlive m0 f \<or> f \<in> V3" "set (ro_finalizersAlive ro) = set a \<union> set new"
    have new: "R \<union> set new \<subseteq> C" "set a \<subseteq> C" "gc_weakList s3 = wl" using graph(2) fins fin(3,8) s(3) by auto
    from MarkSlow_post [OF lay graph(1) new(1) heap fin(2) new(3), of alloc] show ?thesis unfolding gc_marked_def
    proof (elim disjE exE conjE)
      assume "MarkSlow alloc s3 (map fst H) = Some GC_Overrun" "gc_extended alloc s3"
      then show ?thesis using fin(1,4) by (simp add: Mark_finalizers_def)
    next
      fix s4 V4
      assume fine: "MarkSlow alloc s3 (map fst H) = Some (GC_Ok s4)" "gc_idle m0 C (R \<union> set new) {} s4 V4" "\<not> gc_out s4"
        "gc_weakList s4 = gc_weakList s3"
      have V4: "V4 = gc_reach m0 (R \<union> set new)" by (rule gc_idle_complete [OF fine(2,3)])
      have same: "gc_same m0 wl C V4 (gc_mem s4)" using gc_idleD(1) [OF fine(2)] fine(4) new(3) by simp
      have "V3 \<subseteq> V4" using gc_idleD(2) [OF fin(2)] V4 by simp
      then have "\<forall>f\<in>set a. hb_IsAlive (gc_mem s4) f"
        using fin(7) new(2) gc_same_view(6) [OF same] by blast
      then have "mark_done m0 wl C R (ro_finalizersAlive ro) (ro_finalizersPending ro) s4 a (ro_finalizersPending ro @ new)"
        using fine(3) same fin(5,6,8) unfolding mark_done_def V4 V by blast
      then show ?thesis using fin(1) fine(1) by (auto simp: Mark_finalizers_def)
    qed
  qed
qed

lemma Mark_post:
  fixes m :: heap_mem and wl :: nat and ro :: gc_roots
  defines "m0 \<equiv> DblLinkedList_Initialize m wl" and "R \<equiv> \<Union> (check_cells (DblLinkedList_Initialize m wl) ` set (gc_root_checks ro))"
  assumes lay: "gc_layout m0 wl C" and graph: "gc_graph m0 C" and heap: "gc_heap m0 wl C H"
    and roots: "\<And>c. c \<in> set (gc_root_checks ro) \<Longrightarrow> check_ok m0 C c" and fins: "set (ro_finalizersAlive ro) \<subseteq> C - {0}"
  shows "Mark alloc m wl ro (map fst H) = Some Marked_Overrun \<and> (\<exists>n e. alloc n e) \<or>
    (\<exists>s a p. Mark alloc m wl ro (map fst H) = Some (Marked s a p) \<and>
      mark_done m0 wl C R (ro_finalizersAlive ro) (ro_finalizersPending ro) s a p)"
proof -
  let ?s0 = "gc_start m wl"
  have wl: "0 < wl" "wl < 2 ^ 32" using lay by (simp_all add: gc_layout_def)
  have R: "R \<subseteq> C" using roots by (force simp: R_def check_ok_def m0_def)
  have "gc_post m0 C alloc R {} ?s0 {} (gc_checks alloc ?s0 (gc_root_checks ro))"
    using gc_checks_post [OF lay graph _ _ gc_start_idle(1) [OF wl, of m C, folded m0_def], of "gc_root_checks ro" alloc] roots
    by (simp add: R_def m0_def gc_start_def)
  then show ?thesis unfolding gc_post_def gc_start_idle(2) [OF wl]
  proof (elim disjE exE conjE)
    fix n e assume "gc_checks alloc ?s0 (gc_root_checks ro) = Some GC_Overrun" "alloc n e"
    then show ?thesis by (auto simp: Mark_def)
  next
    fix s1 V1
    assume ok: "gc_checks alloc ?s0 (gc_root_checks ro) = Some (GC_Ok s1)" "gc_idle m0 C R {} s1 V1"
      "gc_weakList s1 = gc_weakList ?s0" "gc_extended alloc s1 \<longrightarrow> (\<exists>n e. alloc n e)"
    have w: "gc_weakList s1 = wl" using ok(3) by (simp add: gc_start_def)
    from MarkSlow_post [OF lay graph R heap ok(2) w, of alloc] show ?thesis unfolding gc_marked_def
    proof (elim disjE exE conjE)
      assume "MarkSlow alloc s1 (map fst H) = Some GC_Overrun" "gc_extended alloc s1"
      then show ?thesis using ok(1,4) by (simp add: Mark_def)
    next
      fix s2 V2
      assume slow: "MarkSlow alloc s1 (map fst H) = Some (GC_Ok s2)" "gc_idle m0 C R {} s2 V2" "\<not> gc_out s2"
        "gc_weakList s2 = gc_weakList s1" "gc_extended alloc s2 \<longrightarrow> gc_extended alloc s1"
      have eq: "Mark alloc m wl ro (map fst H) = Mark_finalizers alloc s2 ro (map fst H)"
        using ok(1) slow(1) by (simp add: Mark_def)
      have w2: "gc_weakList s2 = wl" using slow(4) w by simp
      from Mark_finalizers_post [OF lay graph R heap fins slow(2,3) w2, of alloc] show ?thesis
        unfolding eq using slow(5) ok(4) by blast
    qed
  qed
qed

end
