(* ===== verification/GcSweep.thy ===== *)
theory GcSweep
  imports GcCollect
begin

text \<open>
  What follows the marking in a collection (\<open>MarkWeak\<close>, \<open>Sweep\<close> and
  \<open>Heap_ComputeAliveVsDeadRatio\<close> of \<open>CLR/Core/GarbageCollector.cpp\<close>): the weak references lose
  their dead targets, the weak delegates of dead objects are cut, and the clusters are recovered one
  by one. What the runtime does for events between the two (\<open>RecoverEventsFromGC\<close>) and the entries
  of the persistence manager are not modelled: the first is left out, the second is a parameter.
\<close>

section \<open>Weak references\<close>

definition WR_ExtendedType :: u32 where "WR_ExtendedType = 0x80000000"
definition WR_Restored :: u32 where "WR_Restored = 0x40000000"

definition weak_flags :: "heap_mem \<Rightarrow> nat \<Rightarrow> u32" where
  "weak_flags m w = m (w + 4)"

definition weak_targetDirect :: "heap_mem \<Rightarrow> nat \<Rightarrow> nat" where
  "weak_targetDirect m w = unat (m (w + 9))"

definition weak_targetSerialized :: "heap_mem \<Rightarrow> nat \<Rightarrow> nat" where
  "weak_targetSerialized m w = unat (m (w + 10))"

text \<open>The body of the loop for one weak reference; \<open>invalidate\<close> is \<open>InvalidateEntry\<close>.\<close>

definition keep_serialized :: "heap_mem \<Rightarrow> nat \<Rightarrow> heap_mem" where
  "keep_serialized m w =
     (let t = weak_targetSerialized m w in if t \<noteq> 0 \<and> \<not> hb_IsAlive m t then hb_MarkAlive m t else m)"

definition MarkWeak1 :: "(heap_mem \<Rightarrow> nat \<Rightarrow> heap_mem) \<Rightarrow> heap_mem \<Rightarrow> nat \<Rightarrow> heap_mem" where
  "MarkWeak1 invalidate m w =
     (let m1 = (if weak_flags m w AND WR_Restored \<noteq> 0 \<and> weak_targetSerialized m w \<noteq> 0 then hb_MarkAlive m w else m)
      in if hb_IsAlive m1 w then
           (let m2 = (if weak_flags m1 w AND WR_ExtendedType \<noteq> 0 then keep_serialized m1 w else m1);
                d = weak_targetDirect m2 w
            in if d \<noteq> 0 then
                 if hb_IsAlive m2 d then keep_serialized m2 w else m2(w + 9 := 0)
               else m2)
         else hb_Unlink (invalidate m1 w) w)"

partial_function (option) weak_loop :: "(heap_mem \<Rightarrow> nat \<Rightarrow> heap_mem) \<Rightarrow> heap_mem \<Rightarrow> nat \<Rightarrow> heap_mem option" where
  "weak_loop invalidate m w =
     (let w' = hb_Next m w
      in if w' \<noteq> 0 then weak_loop invalidate (MarkWeak1 invalidate m w) w' else Some m)"

definition MarkWeak :: "(heap_mem \<Rightarrow> nat \<Rightarrow> heap_mem) \<Rightarrow> heap_mem \<Rightarrow> nat \<Rightarrow> heap_mem option" where
  "MarkWeak invalidate m weakReferences = weak_loop invalidate m (list_FirstNode m weakReferences)"

section \<open>The sweep\<close>

text \<open>The delegates of a weak list: those of a dead object are cut, the others kept alive.\<close>

definition hb_SetObjectReference :: "heap_mem \<Rightarrow> nat \<Rightarrow> nat \<Rightarrow> heap_mem" where
  "hb_SetObjectReference m a p = m(a := RAW_ID (ucast DATATYPE_OBJECT) 0 1, a + 1 := of_nat p)"

definition sweep_delegate :: "heap_mem \<Rightarrow> nat \<Rightarrow> heap_mem" where
  "sweep_delegate m dlgs =
     (let dlg = hb_Dereference m dlgs
      in if dlg \<noteq> 0 then
           (let obj = hb_Dereference m (delegate_object dlg)
            in if obj \<noteq> 0 \<and> \<not> hb_IsAlive m obj then hb_SetObjectReference m dlgs 0 else hb_MarkAlive m dlg)
         else m)"

fun sweep_delegates :: "heap_mem \<Rightarrow> nat \<Rightarrow> nat \<Rightarrow> heap_mem" where
  "sweep_delegates m dlgs 0 = m"
| "sweep_delegates m dlgs (Suc num) = sweep_delegates (sweep_delegate m dlgs) (dlgs + 3) num"

partial_function (option) sweep_weak_lists :: "heap_mem \<Rightarrow> nat \<Rightarrow> heap_mem option" where
  "sweep_weak_lists m weak =
     (let weak' = hb_Next m weak
      in if weak' \<noteq> 0 then
           sweep_weak_lists (sweep_delegates m (dlist_Delegates weak) (unat (dlist_length m weak))) weak'
         else Some m)"

fun sweep_clusters :: "heap_mem \<Rightarrow> nat list \<Rightarrow> heap_mem option" where
  "sweep_clusters m [] = Some m"
| "sweep_clusters m (hc # hcs) =
     (case RecoverFromGC m hc of Some m' \<Rightarrow> sweep_clusters m' hcs | None \<Rightarrow> None)"

text \<open>\<open>events\<close> is \<open>RecoverEventsFromGC\<close>.\<close>

definition Sweep :: "(heap_mem \<Rightarrow> heap_mem) \<Rightarrow> heap_mem \<Rightarrow> nat \<Rightarrow> nat list \<Rightarrow> heap_mem option" where
  "Sweep events m wl heap =
     (case sweep_weak_lists m (list_FirstNode m wl) of
        Some m' \<Rightarrow> sweep_clusters (events m') heap
      | None \<Rightarrow> None)"

text \<open>The sizes of the free list, from its end, and the ratio.\<close>

partial_function (option) free_blocks :: "heap_mem \<Rightarrow> nat \<Rightarrow> u32 \<Rightarrow> u32 option" where
  "free_blocks m ptr acc =
     (let ptr' = hb_Prev m ptr
      in if ptr' \<noteq> 0 then free_blocks m ptr' (acc + ucast (hb_DataSize m ptr)) else Some acc)"

fun alive_dead_loop :: "heap_mem \<Rightarrow> nat list \<Rightarrow> u32 \<Rightarrow> u32 \<Rightarrow> (u32 \<times> u32) option" where
  "alive_dead_loop m [] tot free = Some (tot, free)"
| "alive_dead_loop m (hc # hcs) tot free =
     (case free_blocks m (list_LastNode m (hc_freeList hc)) free of
        Some free' \<Rightarrow> alive_dead_loop m hcs (tot + of_nat (4 * (hc_payloadEnd m hc - hc_payloadStart m hc))) free'
      | None \<Rightarrow> None)"

definition Heap_ComputeAliveVsDeadRatio :: "heap_mem \<Rightarrow> nat list \<Rightarrow> (u32 \<times> u32) option" where
  "Heap_ComputeAliveVsDeadRatio m heap =
     (case alive_dead_loop m heap 0 0 of
        Some (totalBytes, freeBlocks) \<Rightarrow> Some (totalBytes, freeBlocks * 12)
      | None \<Rightarrow> None)"


section \<open>The clusters after the sweep\<close>

definition cluster_words :: "heap_mem \<Rightarrow> nat \<Rightarrow> nat set" where
  "cluster_words m hc = {hc..<hc + 8} \<union> {hc_payloadStart m hc..<hc_payloadEnd m hc}"

text \<open>The blocks that survive, each with the header it has afterwards.\<close>

lemma recover_alive:
  "(a, w) \<in> set bs \<Longrightarrow> bit w 8 \<Longrightarrow> (a, if bit w 10 then w else clear_alive w) \<in> set (recover_list bs)"
proof (induction bs rule: recover_list.induct)
  case (2 b bs)
  have "(a, w) \<in> set (dropWhile dead bs)" if "(a, w) \<in> set bs"
    using that 2(4) by (induction bs) auto
  then show ?case using 2 by (cases b) auto
qed simp


lemma recover_addresses: "fst ` set (recover_list bs) \<subseteq> fst ` set bs"
proof (induction bs rule: recover_list.induct)
  case (2 b bs)
  then show ?case by (cases b) (auto simp: image_subset_iff dest: set_dropWhileD split: if_splits)
qed simp

lemma RecoverFromGC_frame:
  assumes "cluster_mem m hc bs"
  obtains m' where "RecoverFromGC m hc = Some m'" "cluster_ok m' hc (recover_list bs)"
    "\<And>k. k \<notin> cluster_words m hc \<Longrightarrow> m' k = m k" "cluster_words m' hc = cluster_words m hc"
    "\<And>a w k. (a, w) \<in> set bs \<Longrightarrow> bit w 8 \<Longrightarrow> a < k \<Longrightarrow> k < a + 3 * unat (id_size w) \<Longrightarrow> m' k = m k"
proof -
  obtain m' where m': "RecoverFromGC m hc = Some m'" "cluster_ok m' hc (recover_list bs)"
    "\<And>k. k \<notin> {hc + 3, hc + 4, hc + 5} \<Longrightarrow> k \<notin> fst ` set (recover_list bs) \<Longrightarrow> k \<notin> link_words (freed bs) \<Longrightarrow> m' k = m k"
    using RecoverFromGC_ok [OF assms] by blast
  let ?s = "hc_payloadStart m hc" and ?e = "hc_payloadEnd m hc"
  have s: "hc + 8 \<le> ?s" "heap_blocks m ?s bs ?e" using assms by (simp_all add: cluster_mem_def)
  have ids: "?s \<le> a \<and> a < ?e" if "a \<in> fst ` set (recover_list bs)" for a
    using that recover_addresses [of bs] heap_blocks_range [OF s(2)] by fastforce
  have links: "?s < k \<and> k < ?e" if "k \<in> link_words (freed bs)" for k
    using that freed_bounds [OF s(2)] by (fastforce simp: link_words_def)
  have out: "m' k = m k" if "k \<notin> {hc + 3, hc + 4, hc + 5}" "k < ?s \<or> ?e \<le> k" for k
  proof (rule m'(3) [OF that(1)])
    show "k \<notin> fst ` set (recover_list bs)" using ids that(2) by (metis not_le)
    show "k \<notin> link_words (freed bs)" using links that(2) by (metis not_le less_asym)
  qed
  have ends: "hc_payloadStart m' hc = ?s" "hc_payloadEnd m' hc = ?e"
    using out [of "hc + 6"] out [of "hc + 7"] s(1) by (simp_all add: hc_payloadStart_def hc_payloadEnd_def)
  have blocks: "heap_blocks m' ?s (recover_list bs) ?e"
    using m'(2) by (simp add: cluster_ok_def cluster_mem_def ends)
  have frees: "free_list (recover_list bs) = freed bs"
    using assms by (intro free_list_recover) (simp add: cluster_mem_def)
  have data: "m' k = m k" if a: "(a, w) \<in> set bs" "bit w 8" and k: "a < k" "k < a + 3 * unat (id_size w)" for a w k
  proof (rule m'(3))
    let ?v = "if bit w 10 then w else clear_alive w"
    have v: "(a, ?v) \<in> set (recover_list bs)" "id_size ?v = id_size w" "id_type ?v = id_type w"
      using recover_alive [OF a] by (simp_all add: clear_alive_fields)
    show "k \<notin> {hc + 3, hc + 4, hc + 5}" using heap_blocks_range [OF s(2) a(1)] s(1) k(1) by auto
    have "a + (k - a) = k" using k(1) by simp
    then show "k \<notin> fst ` set (recover_list bs)"
      using inside_no_header [OF blocks v(1), of "k - a"] k unfolding v(2) by force
    show "k \<notin> link_words (freed bs)"
    proof
      assume "k \<in> link_words (freed bs)"
      then obtain f where f: "f \<in> set (freed bs)" "k = f + 1 \<or> k = f + 2" by (auto simp: link_words_def)
      then obtain u where u: "(f, u) \<in> set (recover_list bs)" "id_type u = DATATYPE_FREEBLOCK"
        unfolding frees [symmetric] by (auto simp: free_list_def)
      have type: "id_type w \<noteq> DATATYPE_FREEBLOCK" using assms a by (auto simp: cluster_mem_def)
      have "f \<noteq> a" using u heap_blocks_at [OF blocks u(1)] heap_blocks_at [OF blocks v(1)] v(3) type by auto
      moreover have "f < k" "k < f + 3 * unat (id_size u)" using f(2) heap_blocks_size [OF blocks u(1)] by auto
      ultimately show False
        using heap_blocks_disjoint [OF blocks v(1) u(1)] heap_blocks_disjoint [OF blocks u(1) v(1)] k v(2) by force
    qed
  qed
  show thesis
  proof (rule that [OF m'(1,2)])
    show "m' k = m k" if "k \<notin> cluster_words m hc" for k
      using that by (intro out) (auto simp: cluster_words_def)
    show "cluster_words m' hc = cluster_words m hc" by (simp add: cluster_words_def ends)
  qed (rule data)
qed




text \<open>Clusters one after the other, when none lies in another.\<close>

definition clusters_apart :: "heap_mem \<Rightarrow> (nat \<times> (nat \<times> u32) list) list \<Rightarrow> bool" where
  "clusters_apart m H \<longleftrightarrow> sorted_wrt (\<lambda>c d. cluster_words m (fst c) \<inter> cluster_words m (fst d) = {}) H"

definition blocks_kept :: "heap_mem \<Rightarrow> heap_mem \<Rightarrow> (nat \<times> u32) list \<Rightarrow> bool" where
  "blocks_kept m m' bs \<longleftrightarrow> (\<forall>(a, w)\<in>set bs. bit w 8 \<longrightarrow> (\<forall>k. a < k \<and> k < a + 3 * unat (id_size w) \<longrightarrow> m' k = m k))"




section \<open>A collection\<close>

text \<open>What \<open>Mark\<close> needs: the layout, the graph, the roots and the finalizers.\<close>

definition gc_ready :: "heap_mem \<Rightarrow> nat \<Rightarrow> nat set \<Rightarrow> gc_roots \<Rightarrow> (nat \<times> (nat \<times> u32) list) list \<Rightarrow> bool" where
  "gc_ready m wl C ro H \<longleftrightarrow> gc_layout m wl C \<and> gc_graph m C \<and> gc_heap m wl C H \<and>
     (\<forall>c\<in>set (gc_root_checks ro). check_ok m C c) \<and> set (ro_finalizersAlive ro) \<subseteq> C - {0}"

definition root_cells :: "heap_mem \<Rightarrow> gc_roots \<Rightarrow> nat set" where
  "root_cells m ro = \<Union> (check_cells m ` set (gc_root_checks ro))"

text \<open>
  The clusters: free blocks are dead and no reference leads to them, also not through an object that
  is waiting for its finalizer.
\<close>

definition gc_clusters :: "heap_mem \<Rightarrow> gc_roots \<Rightarrow> (nat \<times> (nat \<times> u32) list) list \<Rightarrow> bool" where
  "gc_clusters m ro H \<longleftrightarrow> clusters_apart m H \<and>
     (\<forall>(hc, bs)\<in>set H. cluster_mem m hc bs \<and>
        (\<forall>(a, w)\<in>set bs. id_type w = DATATYPE_FREEBLOCK \<longrightarrow> a \<notin> gc_reach m (root_cells m ro \<union> set (ro_finalizersAlive ro))))"









lemma Mark_ready:
  fixes m :: heap_mem and wl :: nat
  defines "m0 \<equiv> DblLinkedList_Initialize m wl"
  assumes "gc_ready m0 wl C ro H"
  shows "Mark alloc m wl ro (map fst H) = Some Marked_Overrun \<and> (\<exists>n e. alloc n e) \<or>
    (\<exists>s a p. Mark alloc m wl ro (map fst H) = Some (Marked s a p) \<and>
      mark_done m0 wl C (root_cells m0 ro) (ro_finalizersAlive ro) (ro_finalizersPending ro) s a p)"
  using assms(2) unfolding gc_ready_def root_cells_def m0_def by (intro Mark_post) auto



section \<open>Free and total sizes\<close>

definition free_total :: "(nat \<times> u32) list \<Rightarrow> nat" where
  "free_total bs = blocks_total (filter (\<lambda>(a, w). id_type w = DATATYPE_FREEBLOCK) bs)"

lemma free_blocks_chain:
  "node_chain m (h # fs) \<Longrightarrow> hb_Prev m h = 0 \<Longrightarrow> h \<noteq> 0 \<Longrightarrow> 0 \<notin> set fs \<Longrightarrow>
     free_blocks m (last (h # fs)) acc = Some (acc + sum_list (map (\<lambda>f. ucast (hb_DataSize m f)) fs))"
proof (induction fs arbitrary: acc rule: rev_induct)
  case Nil
  then show ?case by (subst free_blocks.simps) simp
next
  case (snoc x fs)
  let ?l = "last (h # fs)"
  have l: "h # fs = butlast (h # fs) @ [?l]" by (simp del: last.simps butlast.simps)
  have "node_chain m (butlast (h # fs) @ [?l, x])" using snoc.prems(1) l by (metis append.assoc append_Cons append_Nil)
  then have c: "node_chain m (h # fs)" "hb_Prev m x = ?l" unfolding node_chain_snoc l [symmetric] by simp_all
  have "?l \<noteq> 0" using snoc.prems(3,4) last_in_set [of "h # fs"] by (metis UnI1 list.discI set_ConsD set_append)
  then have "free_blocks m x acc = free_blocks m ?l (acc + ucast (hb_DataSize m x))"
    by (subst free_blocks.simps) (simp add: c(2) del: last.simps)
  also have "\<dots> = Some (acc + ucast (hb_DataSize m x) + sum_list (map (\<lambda>f. ucast (hb_DataSize m f)) fs))"
    using snoc.prems by (intro snoc.IH [OF c(1)]) auto
  finally show ?case by (simp add: add_ac)
qed

lemma free_blocks_cluster:
  assumes c: "cluster_ok m hc bs"
  shows "free_blocks m (list_LastNode m (hc_freeList hc)) acc = Some (acc + of_nat (free_total bs))"
proof -
  let ?fs = "free_list bs" and ?h = "hc + 2"
  have blocks: "heap_blocks m (hc_payloadStart m hc) bs (hc_payloadEnd m hc)" "hc + 8 \<le> hc_payloadStart m hc"
    using c by (simp_all add: cluster_ok_def cluster_mem_def)
  have pos: "0 \<notin> set ?fs"
  proof
    assume "0 \<in> set ?fs"
    then have "0 \<in> fst ` set bs" by (rule subsetD [OF free_list_subset])
    then show False using heap_blocks_range [OF blocks(1)] blocks(2) by force
  qed
  have "node_chain m (?h # ?fs @ [hc + 3])"
    using c by (simp add: cluster_ok_def list_Head_def list_Tail_def hc_freeList_def numeral_eq_Suc)
  moreover have l: "?h # ?fs = butlast (?h # ?fs) @ [last (?h # ?fs)]" by (simp del: last.simps butlast.simps)
  ultimately have "node_chain m (butlast (?h # ?fs) @ [last (?h # ?fs), hc + 3])"
    by (metis append.assoc append_Cons append_Nil)
  then have chain: "node_chain m (?h # ?fs)" "hb_Prev m (hc + 3) = last (?h # ?fs)" unfolding node_chain_snoc l [symmetric] by simp_all
  have last: "list_LastNode m (hc_freeList hc) = last (?h # ?fs)"
    using chain(2) by (simp add: list_LastNode_def hc_freeList_def hb_Prev_def add.assoc)
  have "?h + 2 = hc + 4" by simp
  then have "hb_Prev m ?h = unat (m (hc + 4))" by (simp only: hb_Prev_def)
  moreover have "m (hc + 4) = 0" using c unfolding cluster_ok_def by blast
  ultimately have "hb_Prev m ?h = 0" by (simp only: unsigned_0)
  then have "free_blocks m (last (?h # ?fs)) acc = Some (acc + sum_list (map (\<lambda>f. ucast (hb_DataSize m f)) ?fs))"
    by (rule free_blocks_chain [OF chain(1) _ _ pos]) simp
  moreover have "sum_list (map (\<lambda>f. ucast (hb_DataSize m f)) ?fs) = (of_nat (free_total bs) :: u32)"
  proof -
    have "sum_list (map (\<lambda>f. ucast (hb_DataSize m f)) (map fst cs)) = (of_nat (blocks_total cs) :: u32)"
      if "set cs \<subseteq> set bs" for cs
      using that by (induction cs) (use heap_blocks_at [OF blocks(1)] in \<open>auto simp: blocks_total_def hb_DataSize_def\<close>)
    from this [of "filter (\<lambda>(a, w). id_type w = DATATYPE_FREEBLOCK) bs"] show ?thesis
      by (simp add: free_list_def free_total_def)
  qed
  ultimately show ?thesis unfolding last by simp
qed

lemma alive_dead_loop_ok:
  "(\<And>hc bs. (hc, bs) \<in> set H \<Longrightarrow> cluster_ok m hc bs) \<Longrightarrow>
     alive_dead_loop m (map fst H) tot frees =
       Some (tot + of_nat (12 * sum_list (map (\<lambda>(hc, bs). blocks_total bs) H)),
             frees + of_nat (sum_list (map (\<lambda>(hc, bs). free_total bs) H)))"
proof (induction H arbitrary: tot frees)
  case (Cons c H)
  obtain hc bs where c: "c = (hc, bs)" by fastforce
  have ok: "cluster_ok m hc bs" using Cons.prems c by simp
  then have "hc_payloadEnd m hc - hc_payloadStart m hc = 3 * blocks_total bs"
    using heap_blocks_end [of m "hc_payloadStart m hc" bs "hc_payloadEnd m hc"] by (simp add: cluster_ok_def cluster_mem_def)
  then show ?case using Cons.IH Cons.prems free_blocks_cluster [OF ok] by (simp add: c algebra_simps)
qed simp

lemma AliveVsDeadRatio_ok:
  assumes "\<And>hc bs. (hc, bs) \<in> set H \<Longrightarrow> cluster_ok m hc bs"
  shows "Heap_ComputeAliveVsDeadRatio m (map fst H) =
    Some (of_nat (12 * sum_list (map (\<lambda>(hc, bs). blocks_total bs) H)),
          of_nat (12 * sum_list (map (\<lambda>(hc, bs). free_total bs) H)))"
proof -
  have "alive_dead_loop m (map fst H) 0 0 =
       Some (0 + of_nat (12 * sum_list (map (\<lambda>(hc, bs). blocks_total bs) H)),
             0 + of_nat (sum_list (map (\<lambda>(hc, bs). free_total bs) H)))"
    by (rule alive_dead_loop_ok) (rule assms)
  then show ?thesis by (simp add: Heap_ComputeAliveVsDeadRatio_def)
qed


section \<open>A weak delegate list visited again\<close>

text \<open>
  \<open>MarkSlow\<close> visits the live blocks again. A weak delegate list that is the last of
  \<open>m_weakDelegates_Reachable\<close> is then cleared and linked behind itself, and the walk of the sweep
  over the list does not come to its end.
\<close>

text \<open>
  \<open>weak_list_apart m a\<close>: no delegate of the weak list at \<open>a\<close> lies inside of the block of the list.
\<close>

definition weak_list_block :: "heap_mem \<Rightarrow> nat \<Rightarrow> nat set" where
  "weak_list_block m a = {a..<a + 6 + 3 * unat (dlist_length m a)}"

definition weak_list_apart :: "heap_mem \<Rightarrow> nat \<Rightarrow> bool" where
  "weak_list_apart m a \<longleftrightarrow>
     (\<forall>k < unat (dlist_length m a). hb_Dereference m (dlist_Delegates a + 3 * k) \<notin> weak_list_block m a - {a})"

lemma sweep_delegates_frame:
  assumes "\<forall>k<n. hb_Dereference m (d + 3 * k) \<notin> B" "B = {b<..<d + 3 * n}" "b < d"
  shows "(\<forall>x \<in> {b<..<d}. sweep_delegates m d n x = m x) \<and>
    (\<forall>k<n. hb_Dereference (sweep_delegates m d n) (d + 3 * k) \<in> {0, hb_Dereference m (d + 3 * k)})"
  using assms
proof (induction n arbitrary: m d)
  case (Suc n)
  define m1 where "m1 = sweep_delegate m d"
  have sd: "m1 = m \<or> m1 = hb_SetObjectReference m d 0 \<or> m1 = hb_MarkAlive m (hb_Dereference m d)"
    by (auto simp: m1_def sweep_delegate_def Let_def)
  have dlg: "hb_Dereference m d \<notin> B" using Suc.prems(1) by (auto dest: spec [of _ 0])
  have keep: "m1 x = m x" if "x \<in> {b<..<d + 3 * Suc n}" "x \<noteq> d" "x \<noteq> d + 1" for x
    using sd dlg that Suc.prems(2)
    by (auto simp: hb_SetObjectReference_def hb_MarkAlive_def hb_SetFlags_def)
  have here: "hb_Dereference m1 d \<in> {0, hb_Dereference m d}"
    using sd dlg Suc.prems(2,3)
    by (auto simp: hb_SetObjectReference_def hb_MarkAlive_def hb_SetFlags_def hb_Dereference_def)
  have there: "hb_Dereference m1 (d + 3 + 3 * k) = hb_Dereference m (d + 3 * Suc k)" if "k < n" for k
    using keep [of "d + 3 * Suc k + 1"] that Suc.prems(3) by (simp add: hb_Dereference_def add.assoc)
  have "hb_Dereference m (d + 3 * Suc k) \<notin> B" if "k < n" for k
    using Suc.prems(1) that by (metis Suc_less_eq)
  then have "\<forall>k<n. hb_Dereference m1 (d + 3 + 3 * k) \<notin> B" using there by metis
  moreover have "B = {b<..<d + 3 + 3 * n}" using Suc.prems(2) by (simp add: add.assoc)
  ultimately have IH: "\<forall>x \<in> {b<..<d + 3}. sweep_delegates m1 (d + 3) n x = m1 x"
    "\<forall>k<n. hb_Dereference (sweep_delegates m1 (d + 3) n) (d + 3 + 3 * k) \<in> {0, hb_Dereference m1 (d + 3 + 3 * k)}"
    using Suc.IH [of m1 "d + 3"] Suc.prems(3) by simp_all
  have e: "sweep_delegates m d (Suc n) = sweep_delegates m1 (d + 3) n" by (simp add: m1_def)
  have "hb_Dereference (sweep_delegates m1 (d + 3) n) d = hb_Dereference m1 d"
    using IH(1) Suc.prems(3) by (simp add: hb_Dereference_def)
  moreover have "hb_Dereference (sweep_delegates m1 (d + 3) n) (d + 3 * Suc k) \<in> {0, hb_Dereference m (d + 3 * Suc k)}"
    if "k < n" for k
    using IH(2) [rule_format, OF that] there [OF that] by (simp add: add.assoc)
  ultimately show ?case
    unfolding e using IH(1) keep here Suc.prems(3) by (auto simp: All_less_Suc2)
qed simp

definition weak_list_stuck :: "heap_mem \<Rightarrow> nat \<Rightarrow> bool" where
  "weak_list_stuck m a \<longleftrightarrow> hb_Next m a = a \<and> 0 < a \<and> weak_list_apart m a"

lemma weak_list_stuck_swept:
  assumes "weak_list_stuck m a"
  shows "weak_list_stuck (sweep_delegates m (dlist_Delegates a) (unat (dlist_length m a))) a"
proof -
  let ?n = "unat (dlist_length m a)" and ?d = "dlist_Delegates a"
  let ?m = "sweep_delegates m ?d ?n"
  have B: "weak_list_block m a - {a} = {a<..<?d + 3 * ?n}" by (auto simp: weak_list_block_def dlist_Delegates_def)
  note f = sweep_delegates_frame [of ?n m ?d "weak_list_block m a - {a}" a, OF _ B]
  from f assms have keep: "\<forall>x \<in> {a<..<?d}. ?m x = m x"
    and dl: "\<forall>k<?n. hb_Dereference ?m (?d + 3 * k) \<in> {0, hb_Dereference m (?d + 3 * k)}"
    by (auto simp: weak_list_stuck_def weak_list_apart_def dlist_Delegates_def)
  have "hb_Next ?m a = hb_Next m a" "dlist_length ?m a = dlist_length m a"
    using keep by (simp_all add: hb_Next_def dlist_length_def dlist_Delegates_def)
  moreover have "hb_Dereference ?m (?d + 3 * k) \<notin> weak_list_block m a - {a}" if "k < ?n" for k
    using dl that assms by (auto simp: weak_list_stuck_def weak_list_apart_def weak_list_block_def)
  ultimately show ?thesis
    using assms by (simp add: weak_list_stuck_def weak_list_apart_def weak_list_block_def)
qed

lemma sweep_weak_lists_stuck: "weak_list_stuck m w \<Longrightarrow> sweep_weak_lists m w = None"
proof -
  have "\<not> weak_list_stuck m w" if "sweep_weak_lists m w = Some m'" for m'
    using that
  proof (induction rule: sweep_weak_lists.raw_induct [of "\<lambda>m w m'. \<not> weak_list_stuck m w", rotated 1, consumes 1])
    case (1 rec m w m')
    show ?case
    proof
      assume w: "weak_list_stuck m w"
      then have "rec (sweep_delegates m (dlist_Delegates w) (unat (dlist_length m w))) w = Some m'"
        using 1(2) by (simp add: Let_def weak_list_stuck_def)
      with 1(1) weak_list_stuck_swept [OF w] show False by blast
    qed
  qed
  then show "weak_list_stuck m w \<Longrightarrow> sweep_weak_lists m w = None" by (cases "sweep_weak_lists m w") auto
qed

lemma weak_list_visited_again:
  assumes weak: "gc_weak (gc_mem s) a" and last: "list_LastNode (gc_mem s) (gc_weakList s) = a"
    and a: "0 < a" "a < 2 ^ 32" "0 < gc_weakList s"
    and apart: "weak_list_block (gc_mem s) a \<inter> {gc_weakList s..gc_weakList s + 2} = {}"
  defines "m' \<equiv> gc_mem (fst (gc_visit s a))"
  shows "hb_Next m' a = a"
    "weak_list_apart (gc_mem s) a \<Longrightarrow> \<forall>x \<in> weak_list_block (gc_mem s) a. m'' x = m' x \<Longrightarrow>
      sweep_weak_lists m'' a = None"
proof -
  let ?m1 = "hb_MarkAlive (gc_mem s) a" and ?wl = "gc_weakList s"
  let ?m2 = "hb_ClearData ?m1 a"
  have m1: "?m1 k = gc_mem s k" if "k \<noteq> a" for k using that by (simp add: hb_MarkAlive_def hb_SetFlags_def)
  have "{a..a + 5} \<subseteq> weak_list_block (gc_mem s) a" by (auto simp: weak_list_block_def)
  with apart have apart5: "{a..a + 5} \<inter> {?wl..?wl + 2} = {}" by blast
  have wl: "?wl + 2 \<noteq> a" "?wl + 2 \<noteq> a + 1" "?wl + 2 \<noteq> a + 2" "?wl \<noteq> a" "a + 4 \<noteq> ?wl + 2"
    using apart5 by (auto simp: disjoint_iff)
  have type: "hb_DataType ?m1 a = hb_DataType (gc_mem s) a"
    by (simp add: hb_DataType_def hb_MarkAlive_def hb_SetFlags_def id_or_alive alive_bit_def [symmetric])
  then have w: "gc_weak ?m1 a" "\<not> gc_unloaded ?m1 a"
    using weak m1 [of "a + 5"] by (simp_all add: gc_weak_def gc_unloaded_def dlist_weak_def gc_types)
  have clear: "?m2 = ?m1(a + 1 := 0, a + 2 := 0)" by (simp add: hb_ClearData_def hb_SetNext_def hb_SetPrev_def)
  have tail: "hb_Prev ?m2 ?wl = a" using last wl m1 by (simp add: hb_Prev_def clear list_LastNode_def)
  have "hb_RemoveFromList ?m2 a = ?m2" by (simp add: hb_RemoveFromList_def clear hb_Next_def hb_Prev_def)
  then have "list_LinkAtBack ?m2 ?wl a = ?m2(a + 1 := of_nat ?wl, a + 2 := of_nat a, ?wl + 2 := of_nat a, a + 1 := of_nat a)"
    using a wl tail weak apart5
    by (auto simp: list_LinkAtBack_def list_InsertBeforeNode_def list_Tail_def list_Insert_def Let_def hb_SetNext_def hb_SetPrev_def)
  moreover have "m' = list_LinkAtBack ?m2 ?wl a"
    unfolding m'_def gc_visit_def gc_switch_eq using w by simp
  ultimately have m': "m' = ?m1(a + 2 := of_nat a, ?wl + 2 := of_nat a, a + 1 := of_nat a)"
    unfolding clear by (simp add: fun_upd_twist)
  then show nx: "hb_Next m' a = a" using hb_ptr [OF a(2)] wl by (simp add: hb_Next_def)
  assume ap: "weak_list_apart (gc_mem s) a" and same: "\<forall>x \<in> weak_list_block (gc_mem s) a. m'' x = m' x"
  have keep: "m'' x = gc_mem s x" if "x \<in> weak_list_block (gc_mem s) a" "a + 2 < x" for x
    using same that m1 [of x] apart by (auto simp: m' disjoint_iff)
  have len: "dlist_length m'' a = dlist_length (gc_mem s) a"
    using keep [of "a + 4"] by (simp add: dlist_length_def weak_list_block_def)
  have "hb_Next m'' a = a" using nx same by (simp add: hb_Next_def weak_list_block_def)
  moreover have "hb_Dereference m'' (dlist_Delegates a + 3 * k) = hb_Dereference (gc_mem s) (dlist_Delegates a + 3 * k)"
    if "k < unat (dlist_length (gc_mem s) a)" for k
    using keep [of "dlist_Delegates a + 3 * k + 1"] that
    by (simp add: hb_Dereference_def weak_list_block_def dlist_Delegates_def)
  ultimately have "weak_list_stuck m'' a"
    using ap a(1) len by (simp add: weak_list_stuck_def weak_list_apart_def weak_list_block_def)
  then show "sweep_weak_lists m'' a = None" by (rule sweep_weak_lists_stuck)
qed

section \<open>A small heap\<close>

text \<open>
  One cluster with an object of two fields, the first of which refers to a second object, and a third
  one that waits for its finalizer; the first is a root.
\<close>

definition demo_mem :: heap_mem where
  "demo_mem = (\<lambda>_. 0)(50 := 50, 52 := 49, 206 := 208, 207 := 223, 208 := 0x30011, 211 := 0x10010, 212 := 217,
     214 := 0x10010, 217 := 0x10011, 220 := 0x10011)"

definition demo_roots :: gc_roots where
  "demo_roots = \<lparr>ro_protected = [], ro_finalizersPending = [], ro_finalizersAlive = [220], ro_appDomains = [], ro_files = [],
     ro_threadsReady = [], ro_threadsWaiting = [], ro_currentUICulture = 0, ro_scratchPadArray = 208\<rparr>"

definition demo_cells :: "nat set" where
  "demo_cells = {208, 211, 214, 217, 220}"

definition demo_heap :: "(nat \<times> (nat \<times> u32) list) list" where
  "demo_heap = [(200, [(208, 0x30011), (217, 0x10011), (220, 0x10011)])]"

lemma demo_start: "DblLinkedList_Initialize demo_mem 50 = demo_mem"
  by (auto simp: DblLinkedList_Initialize_def demo_mem_def list_Tail_def list_Head_def fun_eq_iff)

lemma demo_types:
  "hb_DataType demo_mem 208 = 17" "hb_DataType demo_mem 211 = 16" "hb_DataType demo_mem 214 = 16"
  "hb_DataType demo_mem 217 = 17" "hb_DataType demo_mem 220 = 17" "hb_DataSize demo_mem 208 = 3" "hb_DataSize demo_mem 217 = 1"
  "hb_DataSize demo_mem 220 = 1"
  by (simp_all add: hb_DataType_def hb_DataSize_def demo_mem_def id_type_def id_size_def)

lemma demo_alive: "a \<in> demo_cells \<Longrightarrow> \<not> hb_IsAlive demo_mem a \<and> \<not> hb_IsEvent demo_mem a"
  unfolding demo_cells_def by (auto simp: hb_IsAlive_bit hb_IsEvent_bit demo_mem_def)

lemma demo_words: "demo_mem 206 = 208" "demo_mem 207 = 223" "demo_mem 212 = 217" "demo_mem 215 = 0"
  "demo_mem 208 = 0x30011" "demo_mem 217 = 0x10011" "demo_mem 220 = 0x10011"
  by (simp_all add: demo_mem_def)

lemma demo_lists:
  "gc_list demo_mem 208 = (211, 2)" "gc_list demo_mem 211 = (0, 0)" "gc_list demo_mem 214 = (0, 0)"
  "gc_list demo_mem 217 = (220, 0)" "gc_list demo_mem 220 = (223, 0)"
  "gc_sub demo_mem 208 = 0" "gc_sub demo_mem 211 = 217" "gc_sub demo_mem 214 = 0" "gc_sub demo_mem 217 = 0" "gc_sub demo_mem 220 = 0"
  by (simp_all add: gc_list_def gc_sub_def demo_types gc_types hb_Dereference_def demo_words)

lemma demo_touched:
  "gc_reads demo_mem 208 = {}" "gc_reads demo_mem 211 = {212}" "gc_reads demo_mem 214 = {215}" "gc_reads demo_mem 217 = {}"
  "gc_reads demo_mem 220 = {}" "a \<in> demo_cells \<Longrightarrow> gc_writes demo_mem a = {}"
  "a \<in> demo_cells \<Longrightarrow> \<not> gc_unloaded demo_mem a"
  by (auto simp: gc_reads_def gc_writes_def gc_unloaded_def gc_weak_def demo_types gc_types demo_cells_def)

lemma demo_layout: "gc_layout demo_mem 50 demo_cells"
  unfolding gc_layout_def by (auto simp: demo_touched(6,7)) (auto simp: demo_cells_def demo_touched(1-5) list_words_def)

lemma demo_list_cells: "cells (211, 2) = {211, 214}" "cells (p, 0) = {}"
  using cells_tail [of 2 211] cells_tail [of 1 214] by simp_all

lemma demo_graph: "gc_graph demo_mem demo_cells"
  unfolding gc_graph_def by (simp add: demo_cells_def demo_lists demo_list_cells)

lemma demo_blocks: "heap_blocks demo_mem 208 [(208, 0x30011), (217, 0x10011), (220, 0x10011)] 223"
  by (simp add: demo_words id_size_def)

lemma demo_ends: "hc_payloadStart demo_mem 200 = 208" "hc_payloadEnd demo_mem 200 = 223"
  by (simp_all add: hc_payloadStart_def hc_payloadEnd_def demo_words)

lemma demo_heap_ok: "gc_heap demo_mem 50 demo_cells demo_heap"
proof -
  have "fst ` set [(208 :: nat, 0x30011 :: u32), (217, 0x10011), (220, 0x10011)] \<subseteq> demo_cells" by (simp add: demo_cells_def)
  moreover have "{200 + 6, 200 + 7} \<inter> (demo_cells \<union> list_words 50 \<union> \<Union> (gc_writes demo_mem ` demo_cells)) = {}"
    using demo_touched(6) by (auto simp: list_words_def demo_cells_def)
  ultimately have "gc_cluster demo_mem 50 demo_cells 200 [(208, 0x30011), (217, 0x10011), (220, 0x10011)]"
    unfolding gc_cluster_def demo_ends using demo_blocks demo_alive by simp
  moreover have "{a \<in> demo_cells. 1 < snd (gc_list demo_mem a)} \<subseteq> {208}"
    by (auto simp: demo_cells_def demo_lists)
  moreover have "208 \<in> (\<Union>(hc, bs)\<in>set demo_heap. {a \<in> fst ` set bs. \<not> hb_IsEvent demo_mem a})"
    using demo_alive [of 208] by (simp add: demo_heap_def demo_cells_def)
  ultimately have "{a \<in> demo_cells. 1 < snd (gc_list demo_mem a)} \<subseteq>
      (\<Union>(hc, bs)\<in>set demo_heap. {a \<in> fst ` set bs. \<not> hb_IsEvent demo_mem a})"
    "\<forall>(hc, bs)\<in>set demo_heap. gc_cluster demo_mem 50 demo_cells hc bs"
    by (blast, simp add: demo_heap_def)
  then show ?thesis unfolding gc_heap_def by (intro conjI)
qed

lemma demo_ready: "gc_ready demo_mem 50 demo_cells demo_roots demo_heap"
proof -
  have "gc_root_checks demo_roots = [CheckSingleBlock_Force 0, CheckSingleBlock_Force 208]"
    by (simp add: gc_root_checks_def demo_roots_def Protect_InvokeAll_def AppDomain_Mark_def Assembly_Mark_def Thread_Mark_all_def)
  moreover have "check_ok demo_mem demo_cells (CheckSingleBlock_Force 0)" "check_ok demo_mem demo_cells (CheckSingleBlock_Force 208)"
    by (simp_all add: check_ok_def check_cells_def demo_cells_def)
  moreover have "set (ro_finalizersAlive demo_roots) \<subseteq> demo_cells - {0}" by (simp add: demo_roots_def demo_cells_def)
  ultimately show ?thesis unfolding gc_ready_def using demo_layout demo_graph demo_heap_ok by simp
qed

lemma demo_clusters: "gc_clusters demo_mem demo_roots demo_heap"
proof -
  have "cluster_mem demo_mem 200 [(208, 0x30011), (217, 0x10011), (220, 0x10011)]"
    unfolding cluster_mem_def demo_ends using demo_blocks
    by (simp add: blocks_total_def id_size_def id_type_def DATATYPE_FREEBLOCK_def)
  then show ?thesis
    by (simp add: gc_clusters_def clusters_apart_def demo_heap_def id_type_def DATATYPE_FREEBLOCK_def)
qed

text \<open>
  C9. The marking ends, and with exactly the reachable blocks marked: whatever the requests for more
  stack space bring, \<open>Mark\<close> returns; unless a further stack was granted, and then overrun, the
  blocks alive are those alive at the start and those reachable from the roots and from the objects
  newly handed to their finalizers, no list is left dropped, an object handed to its finalizer is
  not reachable from the roots, and the finalizers that stay watch live objects.
\<close>

theorem marking_is_complete:
  assumes "gc_ready (DblLinkedList_Initialize m wl) wl C ro H"
  shows "Mark alloc m wl ro (map fst H) = Some Marked_Overrun \<and> (\<exists>n e. alloc n e) \<or>
    (\<exists>s a new. Mark alloc m wl ro (map fst H) = Some (Marked s a (ro_finalizersPending ro @ new)) \<and> \<not> gc_out s \<and>
      (let m0 = DblLinkedList_Initialize m wl; L = gc_reach m0 (root_cells m0 ro \<union> set new)
       in (\<forall>b\<in>C. hb_IsAlive (gc_mem s) b \<longleftrightarrow> hb_IsAlive m0 b \<or> b \<in> L) \<and>
          (\<forall>f\<in>set new. \<not> hb_IsAlive m0 f \<and> f \<notin> gc_reach m0 (root_cells m0 ro)) \<and>
          (\<forall>f\<in>set a. hb_IsAlive (gc_mem s) f) \<and> set (ro_finalizersAlive ro) = set a \<union> set new))"
proof -
  let ?m0 = "DblLinkedList_Initialize m wl"
  show ?thesis using Mark_ready [OF assms, of alloc]
  proof (elim disjE exE conjE)
    fix s a p
    assume 1: "Mark alloc m wl ro (map fst H) = Some (Marked s a p)"
      "mark_done ?m0 wl C (root_cells ?m0 ro) (ro_finalizersAlive ro) (ro_finalizersPending ro) s a p"
    then obtain new where new: "p = ro_finalizersPending ro @ new" "\<not> gc_out s"
      "gc_same ?m0 wl C (gc_reach ?m0 (root_cells ?m0 ro \<union> set new)) (gc_mem s)"
      "\<forall>f\<in>set new. \<not> hb_IsAlive ?m0 f \<and> f \<notin> gc_reach ?m0 (root_cells ?m0 ro)"
      "\<forall>f\<in>set a. hb_IsAlive (gc_mem s) f" "set (ro_finalizersAlive ro) = set a \<union> set new"
      unfolding mark_done_def by blast
    then show ?thesis unfolding Let_def using 1(1) gc_same_view(6) [OF new(3)]
      by (intro disjI2 exI [of _ s] exI [of _ a] exI [of _ new]) simp
  qed auto
qed

theorem marking_is_complete_witness:
  "\<exists>s a new. Mark (\<lambda>_ _. False) demo_mem 50 demo_roots (map fst demo_heap) = Some (Marked s a new) \<and> \<not> gc_out s \<and>
     set new \<inter> gc_reach demo_mem (root_cells demo_mem demo_roots) = {} \<and> {220} = set a \<union> set new"
  using marking_is_complete [of demo_mem 50 demo_cells demo_roots demo_heap "\<lambda>_ _. False"] demo_ready
  unfolding demo_start Let_def by (auto simp: demo_roots_def)



lemma gc_try_pos: "gc_try alloc n e = (k, Some c) \<Longrightarrow> c \<noteq> 0"
  by (induction alloc n e rule: gc_try.induct) (subst (asm) (2) gc_try.simps, auto split: if_splits)

text \<open>
  C17. When a list of several cells meets a full stack, the round writes behind an array in exactly
  two cases: a further stack is already linked behind the current one (the state saved for the full
  stack is then loaded again instead of the next one), or one is asked for and only a single element
  is granted. In all other cases the round goes on.
\<close>

theorem full_stack_overruns:
  assumes "in_sync s l" "lc_stack l = lc_last l" "1 < lc_num l"
  shows "gc_step alloc s l = Mark_Overrun \<longleftrightarrow>
    lc_list l + 1 < length (gc_stacks s) \<or>
    \<not> gc_out s \<and> snd (gc_try alloc (gc_calls s) c_minimumSpaceForGC) = Some 1"
proof (cases "lc_list l + 1 < length (gc_stacks s)")
  case True
  then show ?thesis using gc_step_later [OF assms True] by simp
next
  case False
  have enter: "gc_enter t k a \<noteq> Mark_Overrun" for t k a by (simp add: gc_enter_def split: prod.split)
  have step: "gc_step alloc s l = gc_full alloc s l" using assms by (auto simp: gc_step_def)
  obtain n c where asked: "(if gc_out s then (gc_calls s, None) else gc_try alloc (gc_calls s) c_minimumSpaceForGC) = (n, c)"
    by fastforce
  show ?thesis
  proof (cases c)
    case None
    have "gc_full alloc s l \<noteq> Mark_Overrun" unfolding gc_full_def asked None using False by simp
    moreover have "gc_out s \<or> snd (gc_try alloc (gc_calls s) c_minimumSpaceForGC) = None"
      using asked None by (cases "gc_out s") simp_all
    ultimately show ?thesis using False unfolding step by auto
  next
    case (Some e)
    have asked1: "\<not> gc_out s" "gc_try alloc (gc_calls s) c_minimumSpaceForGC = (n, Some e)"
      using asked Some by (cases "gc_out s"; simp)+
    have e: "e \<noteq> 0" by (rule gc_try_pos [OF asked1(2)])
    have "gc_full alloc s l = Mark_Overrun \<longleftrightarrow> e = 1"
      using False e enter unfolding gc_full_def asked Some
      by (simp add: gc_push_def LOADSTATE_def MarkStack_Initialize_def nth_append Let_def)
    then show ?thesis using False asked1 unfolding step by simp
  qed
qed

text \<open>Two stacks of two elements, the first full, the second empty.\<close>

definition demo_stacks :: gc_state where
  "demo_stacks = \<lparr>gc_mem = demo_mem,
     gc_stacks = [\<lparr>ms_buf = [(0, 0), (214, 1)], ms_last = 1, ms_top = 1\<rparr>, \<lparr>ms_buf = [(0, 0), (0, 0)], ms_last = 1, ms_top = 0\<rparr>],
     gc_cur = 0, gc_out = False, gc_calls = 0, gc_weakList = 50\<rparr>"

theorem full_stack_overruns_witness:
  "gc_step (\<lambda>_ _. False) demo_stacks \<lparr>lc_lst = 211, lc_num = 2, lc_list = 0, lc_stack = 1, lc_last = 1\<rparr> = Mark_Overrun"
proof -
  let ?l = "\<lparr>lc_lst = 211, lc_num = 2, lc_list = 0, lc_stack = 1, lc_last = 1\<rparr>"
  have "in_sync demo_stacks ?l"
    by (auto simp: in_sync_def demo_stacks_def SAVESTATE_def stacks_wf_def ms_elems_def less_Suc_eq)
  then show ?thesis using full_stack_overruns [of demo_stacks ?l "\<lambda>_ _. False"] by (simp add: demo_stacks_def)
qed

text \<open>
  C28. A weak delegate list visited again, as \<open>MarkSlow\<close> does with every live block, while it is the
  last of \<open>m_weakDelegates_Reachable\<close>, becomes its own successor. If its delegates are blocks of their
  own, the loop of \<open>Sweep\<close> does not end once it gets to that list, however many delegates the list has
  and whatever sweeping the lists before it did to the rest of the memory.
\<close>

theorem weak_list_linked_to_itself:
  assumes "gc_weak (gc_mem s) a" "list_LastNode (gc_mem s) (gc_weakList s) = a"
    "0 < a" "a < 2 ^ 32" "0 < gc_weakList s"
    "weak_list_block (gc_mem s) a \<inter> {gc_weakList s..gc_weakList s + 2} = {}"
  shows "hb_Next (gc_mem (fst (gc_visit s a))) a = a \<and>
    (weak_list_apart (gc_mem s) a \<longrightarrow>
      (\<forall>m. (\<forall>x \<in> weak_list_block (gc_mem s) a. m x = gc_mem (fst (gc_visit s a)) x) \<longrightarrow>
        sweep_weak_lists m a = None))"
  using weak_list_visited_again [OF assms] by blast

text \<open>A weak delegate list at 208 with one delegate, the block at 220, linked into the list at 50.\<close>

definition demo_weak :: gc_state where
  "demo_weak = \<lparr>gc_mem = (\<lambda>_. 0)(50 := 208, 52 := 208, 208 := 0x3011C, 209 := 50, 210 := 49, 212 := 1, 213 := 1,
       214 := 0x10010, 215 := 220, 220 := 0x1001B),
     gc_stacks = [], gc_cur = 0, gc_out = False, gc_calls = 0, gc_weakList = 50\<rparr>"

theorem weak_list_linked_to_itself_witness:
  "hb_Next (gc_mem (fst (gc_visit demo_weak 208))) 208 = 208 \<and>
   sweep_weak_lists (gc_mem (fst (gc_visit demo_weak 208))) 208 = None"
proof -
  have "gc_weak (gc_mem demo_weak) 208"
    by (simp add: demo_weak_def gc_weak_def hb_DataType_def id_type_def dlist_weak_def DATATYPE_DELEGATELIST_HEAD_def)
  moreover have "weak_list_block (gc_mem demo_weak) 208 = {208..<217}" "weak_list_apart (gc_mem demo_weak) 208"
    by (simp_all add: weak_list_block_def weak_list_apart_def hb_Dereference_def dlist_Delegates_def dlist_length_def demo_weak_def)
  moreover have "list_LastNode (gc_mem demo_weak) (gc_weakList demo_weak) = 208" "gc_weakList demo_weak = 50"
    by (simp_all add: demo_weak_def list_LastNode_def)
  moreover have "{208..<217} \<inter> {50..50 + 2} = ({} :: nat set)" by auto
  ultimately show ?thesis using weak_list_linked_to_itself [of demo_weak 208] by auto
qed

section \<open>One cluster\<close>

lemma recovered_free_total:
  assumes "blocks_total bs < 2 ^ 16" "\<forall>(a, w)\<in>set bs. id_type w = DATATYPE_FREEBLOCK \<longrightarrow> \<not> bit w 8"
  shows "free_total (recover_list bs) = blocks_total (filter dead bs)"
  using assms
proof (induction bs rule: recover_list.induct)
  case (2 b bs)
  have tot: "blocks_total (b # bs) = blocks_total (b # takeWhile dead bs) + blocks_total (dropWhile dead bs)"
    using takeWhile_total [of dead bs] by (simp add: blocks_total_def)
  show ?case
  proof (cases "dead b")
    case True
    let ?run = "b # takeWhile dead bs"
    have bound: "blocks_total ?run < 2 ^ 16" "blocks_total (dropWhile dead bs) < 2 ^ 16" using tot 2(3) by simp_all
    have "unat (id_size (FREE_ID (of_nat (blocks_total ?run)))) = blocks_total ?run"
      using bound(1) by (simp only: FREE_ID_fields ucast_blocks) (simp add: unsigned_of_nat take_bit_nat_eq_self)
    moreover have "free_total (recover_list (dropWhile dead bs)) = blocks_total (filter dead (dropWhile dead bs))"
      using 2(4) by (intro 2(1) [OF True bound(2)]) (auto dest: set_dropWhileD)
    moreover have "filter dead bs = takeWhile dead bs @ filter dead (dropWhile dead bs)"
      by (induction bs) simp_all
    ultimately show ?thesis using True
      by (simp add: free_total_def blocks_total_def FREE_ID_fields del: filter_append)
  next
    case False
    have "blocks_total bs < 2 ^ 16" using 2(3) by (simp add: blocks_total_def split: prod.splits)
    then have "free_total (recover_list bs) = blocks_total (filter dead bs)" using 2(2) [OF False] 2(4) by simp
    then show ?thesis using False 2(4)
      by (cases b) (auto simp: free_total_def clear_alive_fields)
  qed
qed (simp add: free_total_def blocks_total_def)

text \<open>
  C22. \<open>RecoverFromGC\<close> on any cluster whose headers tile its payload returns, whatever the free list
  was: the live blocks stay where they are with their words, live events with their mark and others
  without it, runs of dead blocks are merged, the free list is ordered by address and links exactly
  the free blocks, nothing outside of the cluster changes, and \<open>Heap_ComputeAliveVsDeadRatio\<close> then
  counts the size of the payload and of the dead blocks.
\<close>

theorem cluster_is_recovered:
  assumes "cluster_mem m hc bs"
  shows "\<exists>m'. RecoverFromGC m hc = Some m' \<and> cluster_ok m' hc (recover_list bs) \<and>
    (\<forall>k. k \<notin> cluster_words m hc \<longrightarrow> m' k = m k) \<and> blocks_kept m m' bs \<and> sorted_wrt (<) (free_list (recover_list bs)) \<and>
    Heap_ComputeAliveVsDeadRatio m' [hc] =
      Some (of_nat (12 * blocks_total bs), of_nat (12 * blocks_total (filter dead bs)))"
proof -
  obtain m' where m': "RecoverFromGC m hc = Some m'" "cluster_ok m' hc (recover_list bs)"
    "\<And>k. k \<notin> cluster_words m hc \<Longrightarrow> m' k = m k" "cluster_words m' hc = cluster_words m hc"
    "\<And>a w k. (a, w) \<in> set bs \<Longrightarrow> bit w 8 \<Longrightarrow> a < k \<Longrightarrow> k < a + 3 * unat (id_size w) \<Longrightarrow> m' k = m k"
    by (rule RecoverFromGC_frame [OF assms]) blast
  have bs: "blocks_total bs < 2 ^ 16" "\<forall>(a, w)\<in>set bs. id_type w = DATATYPE_FREEBLOCK \<longrightarrow> \<not> bit w 8"
    using assms by (simp_all add: cluster_mem_def)
  have kept: "blocks_kept m m' bs" using m'(5) unfolding blocks_kept_def by blast
  have "heap_blocks m' (hc_payloadStart m' hc) (recover_list bs) (hc_payloadEnd m' hc)"
    using m'(2) by (simp add: cluster_ok_def cluster_mem_def)
  then have "sorted_wrt (<) (free_list (recover_list bs))" by (rule free_list_sorted)
  moreover have "Heap_ComputeAliveVsDeadRatio m' [hc] =
      Some (of_nat (12 * blocks_total bs), of_nat (12 * blocks_total (filter dead bs)))"
    using AliveVsDeadRatio_ok [of "[(hc, recover_list bs)]" m'] m'(2)
    by (simp add: recover_total [OF bs(1)] recovered_free_total [OF bs])
  ultimately show ?thesis using m'(1-3) kept by blast
qed

theorem cluster_is_recovered_witness:
  "\<exists>m'. RecoverFromGC demo_mem 200 = Some m' \<and>
     cluster_ok m' 200 (recover_list [(208, 0x30011), (217, 0x10011), (220, 0x10011)]) \<and>
     Heap_ComputeAliveVsDeadRatio m' [200] = Some (60, 60)"
proof -
  have "cluster_mem demo_mem 200 [(208, 0x30011), (217, 0x10011), (220, 0x10011)]"
    using demo_clusters by (simp add: gc_clusters_def demo_heap_def)
  from cluster_is_recovered [OF this] show ?thesis
    by (auto simp: blocks_total_def id_size_def)
qed

text \<open>
  C25. \<open>ExtractBlocks\<close> on a cluster in order: when no free block is long enough it returns NULL and
  changes nothing; otherwise it takes the first one that is, or the last one for event blocks, cuts
  the request off its front, or off its end for event blocks, leaves the cluster in order with the
  rest as a free block, zeroes the new block when asked to, and changes no word besides the links of
  free blocks and the block it took.
\<close>

theorem blocks_are_extracted:
  assumes "cluster_ok m hc bs" "len \<noteq> 0" "ucast dataType \<noteq> DATATYPE_FREEBLOCK"
  shows "case pick_block (is_event_request flags) len bs of
      None \<Rightarrow> ExtractBlocks m hc dataType flags len = Some (m, 0)
    | Some (b, w) \<Rightarrow>
        (let ev = is_event_request flags; n = unat len; res = placed_at ev b w n
         in \<exists>m' bs1 bs2. bs = bs1 @ (b, w) # bs2 \<and> ExtractBlocks m hc dataType flags len = Some (m', res) \<and>
              cluster_ok m' hc (bs1 @ placed ev b w (RAW_ID dataType flags len) n @ bs2) \<and>
              (\<forall>k. k \<notin> {hc + 3, hc + 5} \<and> k \<notin> link_words (free_list (bs1 @ bs2)) \<and>
                 (k < b \<or> b + 3 * unat (id_size w) \<le> k) \<longrightarrow> m' k = m k) \<and>
              (flags AND HB_InitializeToZero \<noteq> 0 \<longrightarrow> (\<forall>k. res < k \<and> k < res + 3 * n \<longrightarrow> m' k = 0)))"
proof (cases "pick_block (is_event_request flags) len bs")
  case None
  then show ?thesis using ExtractBlocks_none [OF assms(1)] by simp
next
  case (Some p)
  then obtain b w where p: "p = (b, w)" "pick_block (is_event_request flags) len bs = Some (b, w)" by (cases p) auto
  show ?thesis unfolding p(2) option.case prod.case Let_def
    by (rule ExtractBlocks_ok [OF assms p(2)]) blast
qed

text \<open>A free cluster of 5 blocks.\<close>

definition demo_free :: heap_mem where
  "demo_free = (\<lambda>_. 0)(203 := 208, 205 := 208, 206 := 208, 207 := 223, 208 := FREE_ID 5, 209 := 203, 210 := 202)"

theorem blocks_are_extracted_witness:
  "\<exists>m'. ExtractBlocks demo_free 200 17 0 2 = Some (m', 208) \<and>
     cluster_ok m' 200 [(208, RAW_ID 17 0 2), (214, FREE_ID 3)]"
proof -
  have id: "id_size (FREE_ID 5) = 5" "id_type (FREE_ID 5) = DATATYPE_FREEBLOCK" by (simp_all add: FREE_ID_fields)
  have "cluster_ok demo_free 200 [(208, FREE_ID 5)]"
    by (simp add: cluster_ok_def cluster_mem_def blocks_total_def free_list_def hc_freeList_def list_Head_def list_Tail_def
        hb_Next_def hb_Prev_def hc_payloadStart_def hc_payloadEnd_def demo_free_def id FREE_ID_fields)
  moreover have "pick_block (is_event_request 0) 2 [(208, FREE_ID 5)] = Some (208, FREE_ID 5)"
    by (simp add: pick_block_def is_event_request_def fitting_def id)
  ultimately show ?thesis using blocks_are_extracted [of demo_free 200 "[(208, FREE_ID 5)]" 2 17 0]
    by (auto simp: DATATYPE_FREEBLOCK_def is_event_request_def placed_at_def placed_def id Let_def Cons_eq_append_conv)
qed

end
