(* ===== verification/HeapArrays.thy ===== *)
theory HeapArrays
  imports DataTypes
begin

text \<open>
  Arrays of the managed heap (\<open>CLR_RT_HeapBlock_Array\<close>, \<open>CLR/Core/CLR_RT_HeapBlock_Array.cpp\<close>, with
  \<open>ExtractHeapBlocksForArray\<close> of \<open>Execution.cpp\<close> and the guards of
  \<open>corlib_native_System_Array.cpp\<close>): creation, clearing, searching and copying. An element is a heap
  block or, in numeric arrays, its bits; the list of elements is what the blocks of the array have room
  for, so that an access behind it is an access outside of the array. \<open>None\<close> as a result stands for
  an access to memory that is not an element of the array. The elements of an array of a value type own
  an object each. Byte offsets are computed on 32 bits, as the code does (\<open>element_index\<close>).
\<close>

section \<open>Heap blocks and results\<close>

text \<open>
  A heap block in an array: a reference, a number with its type, or a reference to the object of a
  value type that the element owns, given by the boxed flag and the contents of that object.
\<close>

datatype 'o hblock = Obj "'o option" | Prim u8 u64 | Val bool 'o

datatype clr_error = E_OUT_OF_RANGE | E_WRONG_TYPE | E_OUT_OF_MEMORY | E_INVALID_CAST
  | E_INVALID_OPERATION | E_INVALID_PARAMETER | E_NULL_REFERENCE

type_synonym ('r, 's) outcome = "((clr_error + 'r) \<times> 's) option"

record elem_type =
  et_dataType :: u8
  et_sizeInBytes :: u8
  et_numeric :: bool

record 'o heap_array =
  reflection :: u64
  numOfElements :: u32
  typeOfElement :: u8
  sizeOfElement :: u8
  fReference :: bool
  elements :: "'o hblock list"

text \<open>
  What the heap and the type system say: the element type behind the header of an array, whether a value
  may be stored in an array with that header, the block inside a boxed primitive, the comparison of two
  references, the header of the arrays of objects; the contents of a boxed object of a value type, the
  class of such contents, what \<open>NewObjectFromIndex\<close> returns and leaves in the n-th element it is called
  for, and whether the clone of a value for the element at an index fails.
\<close>

record 'o type_env =
  te_elem :: "u64 \<Rightarrow> elem_type option"
  te_cast :: "'o hblock \<Rightarrow> u64 \<Rightarrow> clr_error option"
  te_boxed :: "'o \<Rightarrow> 'o hblock option"
  te_same :: "'o hblock \<Rightarrow> 'o hblock \<Rightarrow> bool"
  te_object :: u64
  te_value :: "'o \<Rightarrow> 'o option"
  te_class :: "'o \<Rightarrow> u32"
  te_new :: "u64 \<Rightarrow> nat \<Rightarrow> (clr_error + unit) \<times> 'o hblock"
  te_clone :: "'o \<Rightarrow> int \<Rightarrow> clr_error option"

text \<open>
  The element at \<open>GetElement(i)\<close>: the offset \<open>i * m_sizeOfElement\<close> wraps at 32 bits. An offset between
  two elements, which only a wrapped one of heap blocks can be, is no element.
\<close>

definition element_index :: "u8 \<Rightarrow> int \<Rightarrow> int" where
  "element_index sizeElem i =
    (let offset = unat ((word_of_int i :: u32) * ucast sizeElem) in
     if offset mod unat sizeElem = 0 then int (offset div unat sizeElem) else - 1)"

definition in_elements :: "int \<Rightarrow> 'a list \<Rightarrow> bool" where
  "in_elements i xs \<longleftrightarrow> 0 \<le> i \<and> i < int (length xs)"

section \<open>Creation\<close>

definition sizeof_HeapBlock :: u32 where "sizeof_HeapBlock = 12"
definition sizeof_HeapBlock_Array :: u32 where "sizeof_HeapBlock_Array = 20"
definition HB_MaxSize :: u32 where "HB_MaxSize = 0xFFFF"

definition CONVERTFROMSIZETOHEAPBLOCKS :: "u32 \<Rightarrow> u32" where
  "CONVERTFROMSIZETOHEAPBLOCKS x = (x + sizeof_HeapBlock - 1) div sizeof_HeapBlock"

definition array_blocks :: "elem_type \<Rightarrow> u32 \<Rightarrow> u32" where
  "array_blocks et len =
     CONVERTFROMSIZETOHEAPBLOCKS (sizeof_HeapBlock_Array + len * ucast (et_sizeInBytes et))"

text \<open>
  \<open>granted\<close> says whether the heap has the blocks, \<open>junk\<close> is what they hold. The array has room for as
  many elements as the bytes behind its header.
\<close>

definition array_room :: "elem_type \<Rightarrow> u32 \<Rightarrow> nat" where
  "array_room et len = (unat (array_blocks et len) * 12 - 20) div unat (et_sizeInBytes et)"

definition ExtractHeapBlocksForArray ::
  "bool \<Rightarrow> (nat \<Rightarrow> 'o hblock) \<Rightarrow> elem_type \<Rightarrow> u32 \<Rightarrow> u64 \<Rightarrow> 'o heap_array option" where
  "ExtractHeapBlocksForArray granted junk et len reflex =
    (let lengthHB = array_blocks et len in
     if HB_MaxSize < lengthHB \<or> \<not> granted then None
     else Some \<lparr>reflection = reflex, numOfElements = len, typeOfElement = et_dataType et,
       sizeOfElement = et_sizeInBytes et, fReference = \<not> et_numeric et,
       elements = map junk [0..<array_room et len]\<rparr>)"

definition zeroed :: "'o heap_array \<Rightarrow> 'o hblock" where
  "zeroed a = (if fReference a then
       if typeOfElement a \<in> {DATATYPE_VALUETYPE, DATATYPE_CLASS, DATATYPE_WEAKCLASS, DATATYPE_OBJECT}
       then Obj None else Prim (typeOfElement a) 0
     else Prim (typeOfElement a) 0)"

definition fill_elements :: "'a \<Rightarrow> int \<Rightarrow> int \<Rightarrow> 'a list \<Rightarrow> 'a list option" where
  "fill_elements x i n xs =
    (if n = 0 then Some xs
     else if 0 \<le> i \<and> 0 \<le> n \<and> i + n \<le> int (length xs)
     then Some (take (nat i) xs @ replicate (nat n) x @ drop (nat (i + n)) xs)
     else None)"

text \<open>
  An array of a value type gets a new object for each of its elements. An element whose object cannot be
  made ends the loop; the elements behind it stay as \<open>ZeroFill\<close> left them. The levels of a type are
  the second half-word of its reflection data.
\<close>

definition reflex_levels :: "u64 \<Rightarrow> u16" where
  "reflex_levels r = ucast (drop_bit 16 r)"

definition fAllocate :: "'o heap_array \<Rightarrow> bool" where
  "fAllocate a \<longleftrightarrow> fReference a \<and> reflex_levels (reflection a) = 1 \<and> typeOfElement a = DATATYPE_VALUETYPE"

fun allocate_loop ::
  "(nat \<Rightarrow> (clr_error + unit) \<times> 'o hblock) \<Rightarrow> 'o hblock list \<Rightarrow> int \<Rightarrow> nat \<Rightarrow> nat \<Rightarrow>
    (unit, 'o hblock list) outcome" where
  "allocate_loop new es i k 0 = Some (Inr (), es)"
| "allocate_loop new es i k (Suc n) =
    (if in_elements i es
     then case new k of
       (Inl e, x) \<Rightarrow> Some (Inl e, es[nat i := x])
     | (Inr _, x) \<Rightarrow> allocate_loop new (es[nat i := x]) (i + 1) (k + 1) n
     else None)"

definition ClearElements ::
  "'o type_env \<Rightarrow> 'o heap_array \<Rightarrow> int \<Rightarrow> int \<Rightarrow> (unit, 'o heap_array) outcome" where
  "ClearElements env a index len =
    (let bytes = (word_of_int len :: u32) * ucast (sizeOfElement a);
         filled = int (unat bytes div unat (sizeOfElement a));
         first = element_index (sizeOfElement a) index in
     if fAllocate a then
       (case fill_elements (Prim 0 0) first filled (elements a) of None \<Rightarrow> None
        | Some es \<Rightarrow> map_option (\<lambda>(r, es). (r, a\<lparr>elements := es\<rparr>))
            (allocate_loop (te_new env (reflection a)) es first 0 (nat len)))
     else map_option (\<lambda>es. (Inr (), a\<lparr>elements := es\<rparr>))
       (fill_elements (zeroed a) first (if fReference a then len else filled) (elements a)))"

text \<open>The array itself is the result; an error of \<open>ClearElements\<close> is the result of the creation.\<close>

definition CreateInstance ::
  "'o type_env \<Rightarrow> bool \<Rightarrow> (nat \<Rightarrow> 'o hblock) \<Rightarrow> u32 \<Rightarrow> u64 \<Rightarrow>
    (clr_error + 'o heap_array) option" where
  "CreateInstance env granted junk len reflex =
    (if sint len < 0 then Some (Inl E_OUT_OF_RANGE)
     else case te_elem env reflex of None \<Rightarrow> Some (Inl E_WRONG_TYPE)
     | Some et \<Rightarrow>
       (case ExtractHeapBlocksForArray granted junk et len reflex of
          None \<Rightarrow> Some (Inl E_OUT_OF_MEMORY)
        | Some a \<Rightarrow> map_option (\<lambda>(r, a). case r of Inl e \<Rightarrow> Inl e | Inr _ \<Rightarrow> Inr a)
            (ClearElements env a 0 (uint len))))"

section \<open>Ranges and searching\<close>

definition CheckRange :: "int \<Rightarrow> int \<Rightarrow> int \<Rightarrow> bool" where
  "CheckRange index len n =
    (if len < 0 then False
     else if index < 0 \<or> n < index then False
     else if s32 (index + len) < 0 \<or> n < s32 (index + len) then False
     else True)"

definition FixBoxingReference :: "'o type_env \<Rightarrow> 'o hblock \<Rightarrow> 'o hblock option" where
  "FixBoxingReference env b = (case b of
     Prim dt w \<Rightarrow> Some b
   | Val boxed c \<Rightarrow> Some b
   | Obj None \<Rightarrow> None
   | Obj (Some x) \<Rightarrow> (case te_boxed env x of None \<Rightarrow> Some b | Some y \<Rightarrow> Some y))"

definition DATATYPE_LAST_PRIMITIVE :: u8 where "DATATYPE_LAST_PRIMITIVE = 15"

definition is_primitive :: "'o hblock \<Rightarrow> bool" where
  "is_primitive b = (case b of Prim dt w \<Rightarrow> dt \<le> DATATYPE_LAST_PRIMITIVE | _ \<Rightarrow> False)"

definition block_bits :: "'o hblock \<Rightarrow> u64" where
  "block_bits b = (case b of Prim dt w \<Rightarrow> w | _ \<Rightarrow> 0)"

definition same_bits :: "u8 \<Rightarrow> 'o hblock \<Rightarrow> 'o hblock \<Rightarrow> bool" where
  "same_bits sizeElem x y \<longleftrightarrow>
     take_bit (8 * unat sizeElem) (block_bits x) = take_bit (8 * unat sizeElem) (block_bits y)"

fun find_from :: "('o hblock \<Rightarrow> bool) \<Rightarrow> 'o hblock list \<Rightarrow> int \<Rightarrow> int \<Rightarrow> nat \<Rightarrow> int option" where
  "find_from P es pos incr 0 = Some (- 1)"
| "find_from P es pos incr (Suc count) =
    (if \<not> in_elements pos es then None
     else if P (es ! nat pos) then Some pos
     else find_from P es (pos + incr) incr count)"

definition IndexOf ::
  "'o type_env \<Rightarrow> 'o heap_array \<Rightarrow> 'o hblock \<Rightarrow> int \<Rightarrow> int \<Rightarrow> bool \<Rightarrow> (clr_error + int) option" where
  "IndexOf env a match start stop fForward =
    (let numElem = sint (numOfElements a);
         stop = (if stop = - 1 then numElem else stop);
         count = s32 (stop - start) in
     if \<not> CheckRange start count numElem then Some (Inl E_OUT_OF_RANGE)
     else if 0 < count then
       let pos = (if fForward then start else stop - 1);
           incr = (if fForward then 1 else - 1) in
       if \<not> fReference a then
         (case FixBoxingReference env match of
            None \<Rightarrow> Some (Inl E_NULL_REFERENCE)
          | Some x \<Rightarrow>
            if is_primitive x
            then map_option Inr
              (find_from (\<lambda>e. same_bits (sizeOfElement a) e x) (elements a) pos incr (nat count))
            else Some (Inr (- 1)))
       else map_option Inr (find_from (\<lambda>e. te_same env e match) (elements a) pos incr (nat count))
     else Some (Inr (- 1)))"

text \<open>The native method takes a start and a count; the sum wraps.\<close>

definition TrySZIndexOf ::
  "'o type_env \<Rightarrow> 'o heap_array \<Rightarrow> 'o hblock \<Rightarrow> int \<Rightarrow> int \<Rightarrow> (clr_error + int) option" where
  "TrySZIndexOf env a match start count = IndexOf env a match start (s32 (start + count)) True"

definition native_Clear ::
  "'o type_env \<Rightarrow> 'o heap_array \<Rightarrow> int \<Rightarrow> int \<Rightarrow> (unit, 'o heap_array) outcome" where
  "native_Clear env a index len =
    (let numElem = sint (numOfElements a); len = (if len = - 1 then numElem else len) in
     if len < 0 \<or> index < 0 \<or> numElem < s32 (len + index) then Some (Inl E_OUT_OF_RANGE, a)
     else ClearElements env a index len)"

section \<open>Copying\<close>

text \<open>\<open>memcpy\<close> and \<open>memmove\<close> of whole elements.\<close>

definition move_elements ::
  "'a list \<Rightarrow> int \<Rightarrow> 'a list \<Rightarrow> int \<Rightarrow> int \<Rightarrow> 'a list option" where
  "move_elements dst j src i n =
    (if n = 0 then Some dst
     else if 0 \<le> n \<and> 0 \<le> i \<and> 0 \<le> j \<and> i + n \<le> int (length src) \<and> j + n \<le> int (length dst)
     then Some (take (nat j) dst @ take (nat n) (drop (nat i) src) @ drop (nat (j + n)) dst)
     else None)"

text \<open>
  \<open>memmove\<close> of numbers: the offsets and the number of bytes wrap. The sizes of numbers divide \<open>2 ^ 32\<close>, so
  what is left are whole elements.
\<close>

definition memmove_elements ::
  "u8 \<Rightarrow> 'a list \<Rightarrow> int \<Rightarrow> 'a list \<Rightarrow> int \<Rightarrow> int \<Rightarrow> 'a list option" where
  "memmove_elements sizeElem dst j src i n =
     move_elements dst (element_index sizeElem j) src (element_index sizeElem i) (element_index sizeElem n)"

text \<open>
  \<open>Reassign\<close> between two elements. A reference to an object of a value type that is not boxed names the
  value: the object of the destination keeps its place and takes the contents, of a boxed value with the
  boxed flag. A value cannot replace a reference, nor a reference that is no boxed value a value. (No
  element is a reference to a variable, the other cases of the code.)
\<close>

definition IsAValueType :: "'o hblock \<Rightarrow> bool" where
  "IsAValueType b = (case b of Val boxed c \<Rightarrow> \<not> boxed | _ \<Rightarrow> False)"

definition value_object :: "'o type_env \<Rightarrow> 'o hblock \<Rightarrow> (bool \<times> 'o) option" where
  "value_object env b = (case b of
     Val boxed c \<Rightarrow> Some (boxed, c)
   | Obj (Some x) \<Rightarrow> map_option (Pair True) (te_value env x)
   | _ \<Rightarrow> None)"

definition CopyValueType :: "'o type_env \<Rightarrow> 'o hblock \<Rightarrow> 'o hblock \<Rightarrow> clr_error + 'o hblock" where
  "CopyValueType env destination source = (case (value_object env destination, value_object env source) of
     (Some (_, d), Some (boxed, c)) \<Rightarrow>
       if te_class env c = te_class env d then Inr (Val boxed c) else Inl E_WRONG_TYPE
   | _ \<Rightarrow> Inl E_WRONG_TYPE)"

definition Reassign :: "'o type_env \<Rightarrow> 'o hblock \<Rightarrow> 'o hblock \<Rightarrow> clr_error + 'o hblock" where
  "Reassign env this v =
    (let fDestination = IsAValueType this; fSource = IsAValueType v in
     if fSource \<noteq> fDestination \<and> fDestination \<noteq> (value_object env v \<noteq> None) then Inl E_WRONG_TYPE
     else if fDestination then CopyValueType env this v
     else Inr v)"

text \<open>
  The loop over references, upwards or downwards; within one array it reads what it has written.
\<close>

fun reassign_loop ::
  "'o type_env \<Rightarrow> bool \<Rightarrow> 'o hblock list \<Rightarrow> int \<Rightarrow> 'o hblock list \<Rightarrow> int \<Rightarrow> int \<Rightarrow> nat \<Rightarrow>
    (unit, 'o hblock list) outcome" where
  "reassign_loop env same src i dst j incr 0 = Some (Inr (), dst)"
| "reassign_loop env same src i dst j incr (Suc n) =
    (let from = (if same then dst else src) in
     if in_elements i from \<and> in_elements j dst
     then case Reassign env (dst ! nat j) (from ! nat i) of
       Inl e \<Rightarrow> Some (Inl e, dst)
     | Inr x \<Rightarrow> reassign_loop env same src (i + incr) (dst[nat j := x]) (j + incr) incr n
     else None)"

text \<open>Between arrays of different types every element is cast; the first failure ends the copy.\<close>

definition is_null :: "'o hblock \<Rightarrow> bool" where
  "is_null b = (case b of Obj None \<Rightarrow> True | _ \<Rightarrow> False)"

fun cast_loop ::
  "'o type_env \<Rightarrow> u64 \<Rightarrow> 'o hblock list \<Rightarrow> int \<Rightarrow> 'o hblock list \<Rightarrow> int \<Rightarrow> nat \<Rightarrow>
    (unit, 'o hblock list) outcome" where
  "cast_loop env header src i dst j 0 = Some (Inr (), dst)"
| "cast_loop env header src i dst j (Suc n) =
    (if in_elements i src \<and> in_elements j dst
     then
       let x = src ! nat i in
       case (if is_null x then None else te_cast env x header) of
         Some e \<Rightarrow> Some (Inl e, dst)
       | None \<Rightarrow>
         (case Reassign env (dst ! nat j) x of
            Inl e \<Rightarrow> Some (Inl e, dst)
          | Inr y \<Rightarrow> cast_loop env header src (i + 1) (dst[nat j := y]) (j + 1) n)
     else None)"

text \<open>
  Between references and numbers an element is loaded from its array (a value is cloned) and stored to
  the other: a number is taken out of its box and must have the type of the elements; a reference is
  reassigned.
\<close>

definition store_element ::
  "'o type_env \<Rightarrow> 'o heap_array \<Rightarrow> 'o hblock \<Rightarrow> 'o hblock \<Rightarrow> clr_error + 'o hblock" where
  "store_element env a old x =
    (if \<not> fReference a then
       (case FixBoxingReference env x of
          None \<Rightarrow> Inl E_NULL_REFERENCE
        | Some (Prim dt w) \<Rightarrow>
          if dt \<noteq> typeOfElement a then Inl E_WRONG_TYPE
          else Inr (Prim dt (take_bit (8 * unat (sizeOfElement a)) w))
        | Some _ \<Rightarrow> Inl E_WRONG_TYPE)
     else case x of
         Prim dt w \<Rightarrow> Reassign env old x
       | Obj None \<Rightarrow> Reassign env old x
       | _ \<Rightarrow> (case te_cast env x (reflection a) of Some e \<Rightarrow> Inl E_WRONG_TYPE | None \<Rightarrow> Reassign env old x))"

definition load_error :: "'o type_env \<Rightarrow> 'o hblock \<Rightarrow> int \<Rightarrow> clr_error option" where
  "load_error env x i = (case x of Val False c \<Rightarrow> te_clone env c i | _ \<Rightarrow> None)"

fun convert_loop ::
  "'o type_env \<Rightarrow> 'o heap_array \<Rightarrow> 'o heap_array \<Rightarrow> int \<Rightarrow> 'o hblock list \<Rightarrow> int \<Rightarrow> nat \<Rightarrow>
    (unit, 'o hblock list) outcome" where
  "convert_loop env b a i dst j 0 = Some (Inr (), dst)"
| "convert_loop env b a i dst j (Suc n) =
    (let from = element_index (sizeOfElement b) i; to = element_index (sizeOfElement a) j in
     if in_elements from (elements b) \<and> in_elements to dst
     then
       let x = elements b ! nat from in
       case load_error env x i of Some e \<Rightarrow> Some (Inl e, dst)
       | None \<Rightarrow>
         (case (if is_null x then None else te_cast env x (reflection a)) of
            Some e \<Rightarrow> Some (Inl e, dst)
          | None \<Rightarrow>
            (case store_element env a (dst ! nat to) x of
               Inl e \<Rightarrow> Some (Inl e, dst)
             | Inr y \<Rightarrow> convert_loop env b a (i + 1) (dst[nat to := y]) (j + 1) n))
     else None)"

definition with_elements ::
  "'o heap_array \<Rightarrow> (unit, 'o hblock list) outcome \<Rightarrow> (unit, 'o heap_array) outcome" where
  "with_elements a r = map_option (\<lambda>(s, es). (s, a\<lparr>elements := es\<rparr>)) r"

text \<open>
  \<open>same\<close> says that source and destination are one array. The pointers to the first elements are compared
  by their offsets, which gives the direction of the loop as long as both point into the array; otherwise
  either direction leaves it.
\<close>

definition Array_Copy ::
  "'o type_env \<Rightarrow> bool \<Rightarrow> 'o heap_array \<Rightarrow> int \<Rightarrow> 'o heap_array \<Rightarrow> int \<Rightarrow> int \<Rightarrow>
    (unit, 'o heap_array) outcome" where
  "Array_Copy env same src indexSrc dst indexDst len =
    (if len = 0 then Some (Inr (), dst)
     else if len < 0 \<or> indexSrc < 0 \<or> indexDst < 0 \<or>
       sint (numOfElements src) < s32 (len + indexSrc) \<or>
       sint (numOfElements dst) < s32 (len + indexDst)
     then Some (Inl E_OUT_OF_RANGE, dst)
     else if same \<and> indexSrc = indexDst then Some (Inr (), dst)
     else if reflection src = reflection dst then
       let sizeElem = sizeOfElement src;
           at = element_index sizeElem in
       (if \<not> fReference src then
          with_elements dst (map_option (Pair (Inr ()))
            (memmove_elements sizeElem (elements dst) indexDst (elements src) indexSrc len))
        else if same \<and> (word_of_int indexSrc :: u32) * ucast sizeElem < word_of_int indexDst * ucast sizeElem then
          with_elements dst
            (reassign_loop env same (elements src) (at (indexSrc + len - 1)) (elements dst)
              (at (indexDst + len - 1)) (- 1) (nat len))
        else
          with_elements dst
            (reassign_loop env same (elements src) (at indexSrc) (elements dst) (at indexDst) 1 (nat len)))
     else if fReference src \<and> fReference dst then
       with_elements dst
         (cast_loop env (reflection dst) (elements src) (element_index (sizeOfElement src) indexSrc)
           (elements dst) (element_index (sizeOfElement dst) indexDst) (nat len))
     else
       with_elements dst (convert_loop env src dst indexSrc (elements dst) indexDst (nat len)))"

section \<open>Moving elements\<close>

text \<open>
  \<open>moved\<close> is what all three ways of copying give: the source elements at the destination, everything
  else as it was.
\<close>

definition moved :: "'a list \<Rightarrow> int \<Rightarrow> 'a list \<Rightarrow> int \<Rightarrow> int \<Rightarrow> 'a list" where
  "moved dst j src i n = map (\<lambda>k. if j \<le> int k \<and> int k < j + n then src ! nat (i + (int k - j)) else dst ! k)
     [0..<length dst]"

lemma length_moved [simp]: "length (moved dst j src i n) = length dst"
  by (simp add: moved_def)

lemma nth_moved [simp]: "k < length dst \<Longrightarrow> moved dst j src i n ! k =
    (if j \<le> int k \<and> int k < j + n then src ! nat (i + (int k - j)) else dst ! k)"
  by (simp add: moved_def)

lemma moved_0 [simp]: "n \<le> 0 \<Longrightarrow> moved dst j src i n = dst"
  by (rule nth_equalityI) auto

lemma move_elements_moved:
  assumes "0 \<le> n" "0 \<le> i" "0 \<le> j" "i + n \<le> int (length src)" "j + n \<le> int (length dst)"
  shows "move_elements dst j src i n = Some (moved dst j src i n)"
proof (cases "n = 0")
  case False
  have "take (nat j) dst @ take (nat n) (drop (nat i) src) @ drop (nat (j + n)) dst = moved dst j src i n"
    (is "?l = _")
  proof (rule nth_equalityI)
    show len: "length ?l = length (moved dst j src i n)"
    proof -
      have "nat j \<le> length dst" "nat n \<le> length src - nat i" "nat j + nat n \<le> length dst"
        "nat (j + n) = nat j + nat n" using assms by linarith+
      then show ?thesis by simp
    qed
    fix k assume "k < length ?l"
    with len have k: "k < length dst" by simp
    consider "int k < j" | "j \<le> int k" "int k < j + n" | "j + n \<le> int k" by linarith
    then show "?l ! k = moved dst j src i n ! k"
    proof cases
      case 1
      then have "k < nat j" by simp
      then show ?thesis using 1 k assms by (simp add: nth_append)
    next
      case 2
      then have "nat j \<le> k" "k - nat j < nat n" "nat i + (k - nat j) = nat (i + (int k - j))"
        using assms by linarith+
      moreover have "nat j \<le> length dst" "nat n \<le> length src - nat i" "nat i \<le> length src"
        using assms 2 by linarith+
      ultimately show ?thesis using 2 k assms by (simp add: nth_append)
    next
      case 3
      have "nat j \<le> length dst" "nat n \<le> length src - nat i" using assms by linarith+
      moreover have "\<not> k < nat j" "\<not> k - nat j < nat n"
        "k - nat j - nat n = k - nat (j + n)" "nat (j + n) \<le> length dst" "nat (j + n) \<le> k" using 3 assms by linarith+
      ultimately show ?thesis using 3 k assms by (simp add: nth_append nth_drop add.commute)
    qed
  qed
  with False assms show ?thesis by (simp add: move_elements_def)
qed (simp add: move_elements_def)

text \<open>
  Between elements of one kind, references or values of one class, \<open>Reassign\<close> gives the destination what
  the source has.
\<close>

definition elem_kind :: "'o type_env \<Rightarrow> 'o hblock \<Rightarrow> u32 option" where
  "elem_kind env b = (case b of Val False c \<Rightarrow> Some (te_class env c) | _ \<Rightarrow> None)"

lemma elem_kind_simps [simp]:
  "elem_kind env (Obj v) = None" "elem_kind env (Prim dt w) = None"
  by (simp_all add: elem_kind_def)

lemma Reassign_kind: "elem_kind env y = elem_kind env x \<Longrightarrow> Reassign env y x = Inr x"
  by (auto simp: Reassign_def elem_kind_def IsAValueType_def CopyValueType_def value_object_def
      split: hblock.splits bool.splits if_splits)

definition one_kind :: "'o type_env \<Rightarrow> u32 option \<Rightarrow> 'o hblock list \<Rightarrow> int \<Rightarrow> nat \<Rightarrow> bool" where
  "one_kind env K es i n \<longleftrightarrow> (\<forall>k<n. elem_kind env (es ! nat (i + int k)) = K)"

lemma one_kind_Suc:
  "one_kind env K es i (Suc n) \<longleftrightarrow> elem_kind env (es ! nat i) = K \<and> one_kind env K es (i + 1) n"
  by (simp add: one_kind_def All_less_Suc2 algebra_simps)

lemma one_kind_last:
  "one_kind env K es i (Suc n) \<longleftrightarrow> elem_kind env (es ! nat (i + int n)) = K \<and> one_kind env K es i n"
  by (auto simp: one_kind_def less_Suc_eq)

lemma one_kind_update:
  "one_kind env K es i n \<Longrightarrow> elem_kind env x = K \<Longrightarrow> one_kind env K (es[m := x]) i n"
  by (cases "m < length es") (auto simp: one_kind_def nth_list_update list_update_beyond not_less)

lemma reassign_up:
  assumes "0 \<le> i" "0 \<le> j" "i + int n \<le> int (length (if same then dst else src))"
    "j + int n \<le> int (length dst)" "same \<Longrightarrow> j < i"
    "one_kind env K (if same then dst else src) i n" "one_kind env K dst j n"
  shows "reassign_loop env same src i dst j 1 n =
    Some (Inr (), moved dst j (if same then dst else src) i (int n))"
  using assms
proof (induction n arbitrary: i j dst)
  case (Suc n)
  let ?from = "if same then dst else src" and ?d = "dst[nat j := (if same then dst else src) ! nat i]"
  have *: "in_elements i ?from" "in_elements j dst" using Suc.prems by (auto simp: in_elements_def)
  have K: "elem_kind env (?from ! nat i) = K" "elem_kind env (dst ! nat j) = K"
    "one_kind env K ?from (i + 1) n" "one_kind env K dst (j + 1) n"
    using Suc.prems(6,7) by (simp_all add: one_kind_Suc)
  have "reassign_loop env same src (i + 1) ?d (j + 1) 1 n =
      Some (Inr (), moved ?d (j + 1) (if same then ?d else src) (i + 1) (int n))"
    using Suc.prems one_kind_update [OF K(3,1)] one_kind_update [OF K(4,1)] K(3)
    by (intro Suc.IH) (auto split: if_splits)
  moreover have "moved ?d (j + 1) (if same then ?d else src) (i + 1) (int n) = moved dst j ?from i (int (Suc n))"
  proof (rule nth_equalityI)
    fix k assume "k < length (moved ?d (j + 1) (if same then ?d else src) (i + 1) (int n))"
    then have k: "k < length dst" by simp
    have e: "j + 1 \<le> int k \<Longrightarrow> nat j \<noteq> nat (i + (int k - j))" if same
      using Suc.prems(5) [OF that] Suc.prems(1,2) by linarith
    have f: "i + 1 + (int k - (j + 1)) = i + (int k - j)" by simp
    show "moved ?d (j + 1) (if same then ?d else src) (i + 1) (int n) ! k = moved dst j ?from i (int (Suc n)) ! k"
      using k e Suc.prems(2) by (cases "int k = j") (auto simp: f nth_list_update)
  qed simp
  moreover have "Reassign env (dst ! nat j) (?from ! nat i) = Inr (?from ! nat i)"
    using K(1,2) by (intro Reassign_kind) simp
  ultimately show ?case using * by (simp add: Let_def)
qed simp

lemma reassign_down:
  assumes "0 \<le> i" "0 \<le> j" "i + int n \<le> int (length dst)" "j + int n \<le> int (length dst)" "i < j"
    "one_kind env K dst i n" "one_kind env K dst j n"
  shows "reassign_loop env True src (i + int n - 1) dst (j + int n - 1) (- 1) n =
    Some (Inr (), moved dst j dst i (int n))"
  using assms
proof (induction n arbitrary: dst)
  case (Suc n)
  let ?d = "dst[nat (j + int n) := dst ! nat (i + int n)]"
  have *: "in_elements (i + int n) dst" "in_elements (j + int n) dst"
    using Suc.prems by (auto simp: in_elements_def)
  have K: "elem_kind env (dst ! nat (i + int n)) = K" "elem_kind env (dst ! nat (j + int n)) = K"
    "one_kind env K dst i n" "one_kind env K dst j n"
    using Suc.prems(6,7) by (simp_all add: one_kind_last)
  have "reassign_loop env True src (i + int n - 1) ?d (j + int n - 1) (- 1) n =
      Some (Inr (), moved ?d j ?d i (int n))"
    using Suc.prems one_kind_update [OF K(3,1)] one_kind_update [OF K(4,1)] by (intro Suc.IH) auto
  moreover have "moved ?d j ?d i (int n) = moved dst j dst i (int (Suc n))"
  proof (rule nth_equalityI)
    fix k assume "k < length (moved ?d j ?d i (int n))"
    then have k: "k < length dst" by simp
    have e: "nat (j + int n) \<noteq> nat (i + (int k - j))" if "j \<le> int k" "int k < j + int n"
      using that Suc.prems by linarith
    have f: "nat (j + int n) = k \<longleftrightarrow> int k = j + int n" using Suc.prems by linarith
    have g: "i + int n = i + (int k - j)" if "int k = j + int n" using that by simp
    show "moved ?d j ?d i (int n) ! k = moved dst j dst i (int (Suc n)) ! k"
      using k e Suc.prems(2) by (cases "int k = j + int n") (auto simp: f nth_list_update)
  qed simp
  moreover have "Reassign env (dst ! nat (j + int n)) (dst ! nat (i + int n)) = Inr (dst ! nat (i + int n))"
    using K(1,2) by (intro Reassign_kind) simp
  ultimately show ?case using * by (simp add: Let_def algebra_simps)
qed simp

text \<open>A loop over arrays of one kind that comes to a place outside of them leaves the arrays.\<close>

lemma reassign_leaves:
  assumes "k < n" "\<not> in_elements (i + incr * int k) (if same then dst else src) \<or>
      \<not> in_elements (j + incr * int k) dst"
    "\<forall>x \<in> set src \<union> set dst. elem_kind env x = K"
  shows "reassign_loop env same src i dst j incr n = None"
  using assms
proof (induction n arbitrary: i j dst k)
  case (Suc n)
  let ?from = "if same then dst else src"
  show ?case
  proof (cases "in_elements i ?from \<and> in_elements j dst")
    case True
    let ?d = "dst[nat j := ?from ! nat i]"
    have mem: "?from ! nat i \<in> set src \<union> set dst" "dst ! nat j \<in> set dst"
      using True by (auto simp: in_elements_def)
    then have R: "Reassign env (dst ! nat j) (?from ! nat i) = Inr (?from ! nat i)"
      using Suc.prems(3) by (intro Reassign_kind) simp
    from Suc.prems(2) True obtain k' where k: "k = Suc k'" by (cases k) auto
    have "\<not> in_elements (i + incr + incr * int k') (if same then ?d else src) \<or>
        \<not> in_elements (j + incr + incr * int k') ?d"
      using Suc.prems(2) k by (auto simp: in_elements_def algebra_simps split: if_splits)
    moreover have "\<forall>x \<in> set src \<union> set ?d. elem_kind env x = K"
      using Suc.prems(3) mem(1) set_update_subset_insert [of dst "nat j" "?from ! nat i"] by blast
    ultimately have "reassign_loop env same src (i + incr) ?d (j + incr) incr n = None"
      using Suc.prems(1) k by (intro Suc.IH) simp_all
    then show ?thesis using True R by (simp add: Let_def)
  qed (auto simp: Let_def)
qed simp

section \<open>Offsets\<close>

lemma unat_ucast_u8 [simp]: "unat (ucast (w :: u8) :: u32) = unat w"
proof -
  have "unat w < 2 ^ 8" by (rule order_less_le_trans [OF unsigned_less]) simp
  then show ?thesis by (simp add: unsigned_ucast_eq take_bit_nat_eq_self)
qed

lemma u8_pos: "0 < (w :: u8) \<Longrightarrow> 0 < unat w"
  by (simp add: unat_gt_0 word_neq_0_conv)

lemma unat_offset:
  "0 \<le> i \<Longrightarrow> unat ((word_of_int i :: u32) * ucast (sz :: u8)) = nat i * unat sz mod 2 ^ 32"
proof -
  assume "0 \<le> i"
  then have "unat (word_of_int i :: u32) = nat i mod 2 ^ 32"
    by (simp add: unsigned_of_int take_bit_eq_mod nat_mod_distrib)
  then show ?thesis by (simp add: unat_word_ariths mod_mult_left_eq)
qed

lemma element_index_id:
  assumes "0 \<le> i" "nat i * unat sz < 2 ^ 32" "0 < sz"
  shows "element_index sz i = i"
  using assms u8_pos [OF assms(3)] by (simp add: element_index_def Let_def unat_offset)

lemma element_index_mod:
  assumes "0 \<le> i" "unat sz dvd 2 ^ 32" "0 < sz"
  shows "element_index sz i = i mod (2 ^ 32 div int (unat sz))"
proof -
  define W where "W = 2 ^ 32 div unat sz"
  have W: "2 ^ 32 = W * unat sz" using assms(2) by (simp add: W_def)
  have "nat i * unat sz mod 2 ^ 32 = nat i mod W * unat sz" unfolding W by (rule mult_mod_left [symmetric])
  then have "element_index sz i = int (nat i mod W)"
    using u8_pos [OF assms(3)] by (simp add: element_index_def Let_def unat_offset [OF assms(1)])
  also have "\<dots> = i mod int W" using assms(1) by (simp add: zmod_int)
  also have "int W = 2 ^ 32 div int (unat sz)" by (simp add: W_def zdiv_int)
  finally show ?thesis .
qed

text \<open>Offsets of heap blocks lose two bits to the wrap; what they name is known up to \<open>2 ^ 30\<close>.\<close>

lemma element_index_12:
  assumes "0 \<le> i" "element_index 12 i \<noteq> - 1"
  shows "element_index 12 i mod 2 ^ 30 = i mod 2 ^ 30"
proof -
  let ?o = "nat i * 12 mod 2 ^ 32"
  have "unat ((word_of_int i :: u32) * 12) = ?o" using unat_offset [OF assms(1), of 12] by simp
  then have o: "?o mod 12 = 0" "element_index 12 i = int (?o div 12)"
    using assms(2) by (auto simp: element_index_def Let_def split: if_splits)
  define p where "p = ?o div 12"
  have "12 * p = ?o" using o(1) by (auto simp: p_def)
  then have "4 * (3 * p) mod (4 * 2 ^ 30) = 4 * (3 * nat i) mod (4 * (2 ^ 30 :: nat))" by (simp add: mult.commute)
  then have "3 * p mod 2 ^ 30 = 3 * nat i mod (2 ^ 30 :: nat)" by (simp only: mult_mod_right [symmetric])
  then have "715827883 * (3 * p mod 2 ^ 30) mod 2 ^ 30 = 715827883 * (3 * nat i mod 2 ^ 30) mod (2 ^ 30 :: nat)"
    by simp
  then have "715827883 * (3 * p) mod 2 ^ 30 = 715827883 * (3 * nat i) mod (2 ^ 30 :: nat)"
    by (simp only: mod_mult_right_eq)
  moreover have "715827883 * (3 * x) mod 2 ^ 30 = x mod (2 ^ 30 :: nat)" for x
  proof -
    have "715827883 * (3 * x) = 2 ^ 30 * (2 * x) + x" by simp
    then show ?thesis by (simp only: mod_mult_self4)
  qed
  ultimately have "p mod 2 ^ 30 = nat i mod (2 ^ 30 :: nat)" by simp
  then have "int p mod 2 ^ 30 = int (nat i) mod 2 ^ 30" by (metis of_nat_mod of_nat_numeral of_nat_power)
  then show ?thesis using assms(1) o(2) by (simp add: p_def)
qed

lemma mod_2_30: "0 \<le> i \<Longrightarrow> i < 2 ^ 31 \<Longrightarrow> i mod 2 ^ 30 = i \<or> i mod 2 ^ 30 = i - (2 ^ 30 :: int)"
proof (cases "i < 2 ^ 30")
  case False
  assume "i < 2 ^ 31"
  have "i mod 2 ^ 30 = (i - 2 ^ 30) mod 2 ^ 30" by (simp only: minus_mod_self2)
  also have "\<dots> = i - 2 ^ 30" using False \<open>i < 2 ^ 31\<close> by (intro mod_pos_pos_trivial) simp_all
  finally show ?thesis by simp
qed simp

lemma walk_up_leaves:
  assumes "0 \<le> i" "i < 2 ^ 31" "2 ^ 31 \<le> i + int n" "length es * 12 < 2 ^ 32" "0 < n"
  shows "\<exists>k<n. \<not> in_elements (element_index 12 i + 1 * int k) es"
proof (rule ccontr)
  assume "\<not> ?thesis"
  then have in_es: "in_elements (element_index 12 i + int k) es" if "k < n" for k using that by simp
  let ?p = "element_index 12 i"
  have p: "0 \<le> ?p" "?p + int (n - 1) < int (length es)"
    using in_es [of 0] in_es [of "n - 1"] assms(5) by (simp_all add: in_elements_def)
  then have "?p mod 2 ^ 30 = i mod 2 ^ 30" using assms(1) by (intro element_index_12) auto
  moreover have "int (length es) < 2 ^ 30" using assms(4) by simp
  then have "?p < 2 ^ 30" using p by linarith
  ultimately have "?p = i mod 2 ^ 30" using p(1) by simp
  moreover have "i mod 2 ^ 30 = i \<or> i mod 2 ^ 30 = i - 2 ^ 30" by (rule mod_2_30 [OF assms(1,2)])
  moreover have "int (length es) * 12 < 2 ^ 32" using assms(4) by simp
  moreover have "int (n - 1) = int n - 1" using assms(5) by simp
  ultimately show False using p(2) assms(3) by auto
qed

lemma walk_down_leaves:
  assumes "0 \<le> i" "i < 2 ^ 31" "2 ^ 31 \<le> i + int n" "length es * 12 < 2 ^ 32" "0 < n"
  shows "\<exists>k<n. \<not> in_elements (element_index 12 (i + int n - 1) + - 1 * int k) es"
proof (rule ccontr)
  assume "\<not> ?thesis"
  then have in_es: "in_elements (element_index 12 (i + int n - 1) - int k) es" if "k < n" for k
    using that by simp
  let ?p = "element_index 12 (i + int n - 1)"
  have p: "0 \<le> ?p - int (n - 1)" "?p < int (length es)"
    using in_es [of 0] in_es [of "n - 1"] assms(5) by (simp_all add: in_elements_def)
  then have "?p mod 2 ^ 30 = (i + int n - 1) mod 2 ^ 30" using assms(1,5) by (intro element_index_12) auto
  then have "(?p - int (n - 1)) mod 2 ^ 30 = (i + int n - 1 - int (n - 1)) mod 2 ^ 30"
    by (rule mod_diff_cong) simp
  moreover have "i + int n - 1 - int (n - 1) = i" using assms(5) by simp
  moreover have len: "int (length es) * 12 < 2 ^ 32" using assms(4) by simp
  then have "int (length es) < 2 ^ 30" by simp
  then have "?p - int (n - 1) < 2 ^ 30" using p by linarith
  ultimately have "?p - int (n - 1) = i mod 2 ^ 30" using p(1) by simp
  moreover have "i mod 2 ^ 30 = i \<or> i mod 2 ^ 30 = i - 2 ^ 30" by (rule mod_2_30 [OF assms(1,2)])
  moreover have "int (n - 1) = int n - 1" using assms(5) by simp
  ultimately show False using p(2) assms(3) len by auto
qed

section \<open>Well-formed arrays\<close>

text \<open>
  An array has room for its elements and its count is not negative as a signed number. The sizes that
  go with the count do not wrap.
\<close>

definition array_ok :: "'o heap_array \<Rightarrow> bool" where
  "array_ok a \<longleftrightarrow> 0 \<le> sint (numOfElements a) \<and> unat (numOfElements a) \<le> length (elements a) \<and>
     length (elements a) < 2 ^ 31 \<and> 0 < sizeOfElement a \<and>
     unat (numOfElements a) * unat (sizeOfElement a) < 2 ^ 32"

definition count :: "'o heap_array \<Rightarrow> int" where "count a = sint (numOfElements a)"

lemma sint_nonneg_unat: "0 \<le> sint (w :: u32) \<Longrightarrow> sint w = int (unat w)"
  using uint_lt2p [of w]
  by (cases "bit (uint w) 31")
     (simp_all add: sint_uint signed_take_bit_eq_take_bit_minus take_bit_int_eq_self del: uint_lt2p)


lemma array_ok_count:
  assumes "array_ok a"
  shows "0 \<le> count a" "count a \<le> int (length (elements a))" "count a < 2 ^ 31"
    "int (unat (numOfElements a)) = count a"
proof -
  have *: "0 \<le> sint (numOfElements a)" "unat (numOfElements a) \<le> length (elements a)"
    using assms by (auto simp: array_ok_def)
  show c: "int (unat (numOfElements a)) = count a"
    using sint_nonneg_unat [OF *(1)] by (simp only: count_def)
  show "0 \<le> count a" using *(1) by (simp only: count_def)
  show "count a \<le> int (length (elements a))" using *(2) by (simp only: c [symmetric] of_nat_le_iff)
  show "count a < 2 ^ 31" using sint_lt [of "numOfElements a"] by (simp add: count_def)
qed

lemma array_ok_elements [simp]:
  "length es = length (elements a) \<Longrightarrow> array_ok (a\<lparr>elements := es\<rparr>) = array_ok a"
  by (simp add: array_ok_def)

lemma count_elements [simp]: "count (a\<lparr>elements := es\<rparr>) = count a"
  by (simp add: count_def)

lemma element_index_count:
  assumes "array_ok a" "0 \<le> i" "i \<le> count a"
  shows "element_index (sizeOfElement a) i = i"
    "unat ((word_of_int i :: u32) * ucast (sizeOfElement a)) = nat i * unat (sizeOfElement a)"
proof -
  have n: "nat i \<le> unat (numOfElements a)" using assms(2,3) array_ok_count(4) [OF assms(1)] by linarith
  have "nat i * unat (sizeOfElement a) < 2 ^ 32"
    using assms(1) le_less_trans [OF mult_le_mono1 [OF n]] unfolding array_ok_def by blast
  moreover from this show "unat ((word_of_int i :: u32) * ucast (sizeOfElement a)) = nat i * unat (sizeOfElement a)"
    by (simp add: unat_offset [OF assms(2)])
  ultimately show "element_index (sizeOfElement a) i = i"
    using assms(1,2) by (intro element_index_id) (simp_all add: array_ok_def)
qed

lemma offset_less:
  assumes "array_ok a" "0 \<le> i" "i \<le> count a" "0 \<le> j" "j \<le> count a"
  shows "(word_of_int i :: u32) * ucast (sizeOfElement a) < word_of_int j * ucast (sizeOfElement a) \<longleftrightarrow> i < j"
proof -
  have "0 < unat (sizeOfElement a)" using assms(1) by (simp add: array_ok_def u8_pos)
  then show ?thesis
    unfolding word_less_nat_alt element_index_count(2) [OF assms(1,2,3)] element_index_count(2) [OF assms(1,4,5)]
    using assms(2,4) by auto
qed

section \<open>What a copy does\<close>

lemma moved_self [simp]: "0 \<le> i \<Longrightarrow> moved xs i xs i n = xs"
  by (rule nth_equalityI) auto

lemma Array_Copy_same_header:
  assumes "reflection src = reflection dst" "n \<noteq> 0" "\<not> (same \<and> i = j)"
    "\<not> (n < 0 \<or> i < 0 \<or> j < 0 \<or> count src < s32 (n + i) \<or> count dst < s32 (n + j))"
  shows "Array_Copy env same src i dst j n =
    (if \<not> fReference src
     then map_option (\<lambda>es. (Inr (), dst\<lparr>elements := es\<rparr>))
       (memmove_elements (sizeOfElement src) (elements dst) j (elements src) i n)
     else with_elements dst
       (if same \<and> (word_of_int i :: u32) * ucast (sizeOfElement src) < word_of_int j * ucast (sizeOfElement src)
        then reassign_loop env same (elements src) (element_index (sizeOfElement src) (i + n - 1))
          (elements dst) (element_index (sizeOfElement src) (j + n - 1)) (- 1) (nat n)
        else reassign_loop env same (elements src) (element_index (sizeOfElement src) i)
          (elements dst) (element_index (sizeOfElement src) j) 1 (nat n)))"
proof -
  have 1: "(n < 0 \<or> i < 0 \<or> j < 0 \<or> sint (numOfElements src) < s32 (n + i) \<or>
      sint (numOfElements dst) < s32 (n + j)) = False" using assms(4) by (simp add: count_def)
  have 2: "with_elements dst (map_option (Pair (Inr ())) r) = map_option (\<lambda>es. (Inr (), dst\<lparr>elements := es\<rparr>)) r"
    for r :: "'a hblock list option"
    by (cases r) (simp_all add: with_elements_def)
  have 3: "(same \<and> i = j) = False" using assms(3) by blast
  show ?thesis
    unfolding Array_Copy_def 1 3 2 if_False Let_def using assms(1,2) by simp
qed

lemma copy_guard:
  assumes "array_ok src" "array_ok dst" "0 \<le> i" "0 \<le> j" "0 \<le> n" "i + n \<le> count src" "j + n \<le> count dst"
  shows "\<not> (n < 0 \<or> i < 0 \<or> j < 0 \<or> count src < s32 (n + i) \<or> count dst < s32 (n + j))"
proof -
  note c = array_ok_count [OF assms(1)] array_ok_count [OF assms(2)]
  have "s32 (n + i) = n + i" "s32 (n + j) = n + j" using assms c by (auto intro: s32_id)
  then show ?thesis using assms by simp
qed

lemma Array_Copy_moves:
  assumes "array_ok src" "array_ok dst" "same \<longrightarrow> src = dst" "reflection src = reflection dst"
    "sizeOfElement src = sizeOfElement dst"
    "fReference src \<longrightarrow> one_kind env K (elements src) i (nat n) \<and> one_kind env K (elements dst) j (nat n)"
    "0 \<le> i" "0 \<le> j" "0 \<le> n" "i + n \<le> count src" "j + n \<le> count dst"
  shows "Array_Copy env same src i dst j n =
    Some (Inr (), dst\<lparr>elements := moved (elements dst) j (elements src) i n\<rparr>)"
proof -
  note c = array_ok_count [OF assms(1)] array_ok_count [OF assms(2)]
  have in_src: "i + n \<le> int (length (elements src))" and in_dst: "j + n \<le> int (length (elements dst))"
    using assms c by linarith+
  have n: "int (nat n) = n" using assms by simp
  note guard = copy_guard [OF assms(1,2,7-11)]
  note at_src = element_index_count(1) [OF assms(1)]
    and at_dst = element_index_count(1) [OF assms(2), unfolded assms(5) [symmetric]]
  show ?thesis
  proof (cases "n = 0 \<or> same \<and> i = j")
    case True
    have "sint (numOfElements src) \<ge> s32 (n + i)" "sint (numOfElements dst) \<ge> s32 (n + j)"
      using guard by (simp_all add: count_def)
    then show ?thesis using True assms(3,7,8,9) by (cases "n = 0") (simp_all add: Array_Copy_def)
  next
    case False
    then have "n \<noteq> 0" "\<not> (same \<and> i = j)" by auto
    note copy = Array_Copy_same_header [OF assms(4) this guard, of env]
    have at: "element_index (sizeOfElement src) i = i" "element_index (sizeOfElement src) (i + n - 1) = i + n - 1"
      "element_index (sizeOfElement src) n = n"
      "element_index (sizeOfElement src) j = j" "element_index (sizeOfElement src) (j + n - 1) = j + n - 1"
      using \<open>n \<noteq> 0\<close> assms(7-11) by (simp_all add: at_src at_dst)
    consider "\<not> fReference src" | "fReference src" "same" "i < j"
      | "fReference src" "\<not> (same \<and> i < j)" by blast
    then show ?thesis
    proof cases
      case 1
      then show ?thesis
        using copy move_elements_moved [OF assms(9,7,8) in_src in_dst] by (simp add: memmove_elements_def at)
    next
      case 2
      moreover from 2 assms(3) have sd: "src = dst" by simp
      moreover have "(word_of_int i :: u32) * ucast (sizeOfElement src) < word_of_int j * ucast (sizeOfElement src)"
        using offset_less [OF assms(1), of i j] assms(7-11) 2 sd by simp
      ultimately show ?thesis
        using copy reassign_down [of i j "nat n" "elements dst" env K "elements src"] in_src in_dst n
          assms(6-8) by (simp add: at [unfolded sd] with_elements_def)
    next
      case 3
      have f: "(if same then elements dst else elements src) = elements src" using assms(3) by simp
      have "\<not> (same \<and> (word_of_int i :: u32) * ucast (sizeOfElement src) < word_of_int j * ucast (sizeOfElement src))"
        using offset_less [OF assms(1), of i j] assms(3,7-11) 3 by auto
      then show ?thesis
        using 3 copy reassign_up [of i j "nat n" same "elements dst" "elements src" env K, unfolded f] in_src in_dst n
          \<open>\<not> (same \<and> i = j)\<close> assms(6-8) by (auto simp: at with_elements_def)
    qed
  qed
qed

lemma Array_Copy_out_of_range:
  assumes "array_ok src" "array_ok dst" "n \<noteq> 0"
    "n < 0 \<or> i < 0 \<or> j < 0 \<or> count src < n + i \<and> n + i < 2 ^ 31 \<or> count dst < n + j \<and> n + j < 2 ^ 31"
  shows "Array_Copy env same src i dst j n = Some (Inl E_OUT_OF_RANGE, dst)"
proof -
  have "n < 0 \<or> i < 0 \<or> j < 0 \<or> s32 (n + i) = n + i \<and> count src < n + i \<or> s32 (n + j) = n + j \<and> count dst < n + j"
    using assms array_ok_count [OF assms(1)] array_ok_count [OF assms(2)] by (auto intro!: s32_id)
  then show ?thesis using assms(3) by (auto simp: Array_Copy_def count_def)
qed

text \<open>A sum that wraps is negative, the range is accepted and the copy leaves the array.\<close>

lemma s32_wraps: "2 ^ 31 \<le> x \<Longrightarrow> x < 2 ^ 32 \<Longrightarrow> s32 x = x - 2 ^ 32"
proof -
  assume x: "2 ^ 31 \<le> x" "x < 2 ^ 32"
  define y where "y = x - 2 ^ 31"
  have "x = 2 ^ 31 + y" "0 \<le> y" "y < 2 ^ 31" using x by (simp_all add: y_def)
  then have "x div 2 ^ 31 = 1" by simp
  then show ?thesis using x unfolding s32_def
    by (simp add: signed_take_bit_eq_take_bit_minus take_bit_int_eq_self bit_iff_odd)
qed

lemma s32_wraps_below: "- (2 ^ 32) \<le> x \<Longrightarrow> x < - (2 ^ 31) \<Longrightarrow> s32 x = x + 2 ^ 32"
proof -
  assume x: "- (2 ^ 32) \<le> x" "x < - (2 ^ 31)"
  have "s32 x = s32 (x + 2 ^ 32)"
    unfolding s32_def by (simp add: signed_take_bit_eq_iff_take_bit_eq take_bit_eq_mod)
  also have "\<dots> = x + 2 ^ 32" using x by (intro s32_id) auto
  finally show ?thesis .
qed

lemma wrapped_guard:
  assumes "array_ok src" "array_ok dst" "0 \<le> i" "0 \<le> j" "i < 2 ^ 31" "j < 2 ^ 31" "0 < n" "n < 2 ^ 31"
    "2 ^ 31 \<le> i + n \<or> i + n \<le> count src" "2 ^ 31 \<le> j + n \<or> j + n \<le> count dst"
  shows "\<not> (n < 0 \<or> i < 0 \<or> j < 0 \<or> count src < s32 (n + i) \<or> count dst < s32 (n + j))"
proof -
  note c = array_ok_count [OF assms(1)] array_ok_count [OF assms(2)]
  have "s32 (n + i) \<le> count src"
  proof (cases "2 ^ 31 \<le> i + n")
    case True
    then have "s32 (n + i) = n + i - 2 ^ 32" using assms by (intro s32_wraps) auto
    then show ?thesis using assms(5,8) c(1) by simp
  next
    case False
    then have "s32 (n + i) = n + i" using assms by (intro s32_id) auto
    then show ?thesis using assms(9) False by auto
  qed
  moreover have "s32 (n + j) \<le> count dst"
  proof (cases "2 ^ 31 \<le> j + n")
    case True
    then have "s32 (n + j) = n + j - 2 ^ 32" using assms by (intro s32_wraps) auto
    then show ?thesis using assms(6,8) c(5) by simp
  next
    case False
    then have "s32 (n + j) = n + j" using assms by (intro s32_id) auto
    then show ?thesis using assms(10) False by auto
  qed
  ultimately show ?thesis using assms by auto
qed

text \<open>The ranges the check of \<open>Array_Copy\<close> accepts because a sum wraps.\<close>

definition sum_wraps :: "'o heap_array \<Rightarrow> 'o heap_array \<Rightarrow> bool \<Rightarrow> int \<Rightarrow> int \<Rightarrow> int \<Rightarrow> bool" where
  "sum_wraps src dst same i j n \<longleftrightarrow> 0 \<le> i \<and> 0 \<le> j \<and> 0 < n \<and> \<not> (same \<and> i = j) \<and>
     (2 ^ 31 \<le> i + n \<or> i + n \<le> count src) \<and> (2 ^ 31 \<le> j + n \<or> j + n \<le> count dst) \<and>
     (2 ^ 31 \<le> i + n \<or> 2 ^ 31 \<le> j + n)"

lemma Array_Copy_wraps_numbers:
  assumes "array_ok src" "array_ok dst" "reflection src = reflection dst" "\<not> fReference src"
    "unat (sizeOfElement src) dvd 2 ^ 32"
    "0 \<le> i" "0 \<le> j" "i < 2 ^ 31" "j < 2 ^ 31" "0 < n" "n < 2 ^ 31" "\<not> (same \<and> i = j)"
    "2 ^ 31 \<le> i + n \<or> i + n \<le> count src" "2 ^ 31 \<le> j + n \<or> j + n \<le> count dst"
  shows "Array_Copy env same src i dst j n =
    (let w = 2 ^ 32 div int (unat (sizeOfElement src)) in
     if n mod w = 0 then Some (Inr (), dst)
     else if i mod w + n mod w \<le> int (length (elements src)) \<and> j mod w + n mod w \<le> int (length (elements dst))
     then Some (Inr (), dst\<lparr>elements := moved (elements dst) (j mod w) (elements src) (i mod w) (n mod w)\<rparr>)
     else None)"
proof -
  note guard = wrapped_guard [OF assms(1,2,6-11,13,14)]
  define w where "w = 2 ^ 32 div int (unat (sizeOfElement src))"
  have sz: "0 < sizeOfElement src" using assms(1) by (simp add: array_ok_def)
  have "unat (sizeOfElement src) \<le> 2 ^ 32" using dvd_imp_le [OF assms(5)] by simp
  then have "0 < 2 ^ 32 div unat (sizeOfElement src)"
    using u8_pos [OF sz] by (simp add: div_greater_zero_iff)
  moreover have "w = int (2 ^ 32 div unat (sizeOfElement src))" by (simp add: w_def zdiv_int)
  ultimately have w: "0 < w" by simp
  then have nn: "0 \<le> i mod w" "0 \<le> j mod w" "0 \<le> n mod w" by simp_all
  have m: "memmove_elements (sizeOfElement src) (elements dst) j (elements src) i n =
      move_elements (elements dst) (j mod w) (elements src) (i mod w) (n mod w)"
    using assms(5-7,10) sz by (simp add: memmove_elements_def element_index_mod w_def)
  have same: "dst\<lparr>elements := elements dst\<rparr> = dst" by simp
  let ?fits = "i mod w + n mod w \<le> int (length (elements src)) \<and> j mod w + n mod w \<le> int (length (elements dst))"
  have "n mod w = 0 \<Longrightarrow> move_elements (elements dst) (j mod w) (elements src) (i mod w) (n mod w) = Some (elements dst)"
    by (simp add: move_elements_def)
  moreover have "?fits \<Longrightarrow> move_elements (elements dst) (j mod w) (elements src) (i mod w) (n mod w) =
      Some (moved (elements dst) (j mod w) (elements src) (i mod w) (n mod w))"
    using move_elements_moved [OF nn(3,1,2)] by blast
  moreover have "n mod w \<noteq> 0 \<Longrightarrow> \<not> ?fits \<Longrightarrow>
      move_elements (elements dst) (j mod w) (elements src) (i mod w) (n mod w) = None"
    by (simp only: move_elements_def if_False) (rule if_not_P, blast)
  moreover have "Array_Copy env same src i dst j n = map_option (\<lambda>es. (Inr (), dst\<lparr>elements := es\<rparr>))
      (move_elements (elements dst) (j mod w) (elements src) (i mod w) (n mod w))"
    using Array_Copy_same_header [OF assms(3) _ assms(12) guard, of env] assms(4,10) m by simp
  ultimately show ?thesis
    unfolding w_def [symmetric] Let_def
    by (cases "n mod w = 0"; cases ?fits) (simp_all only: if_True if_False option.map simp_thms same)
qed

lemma Array_Copy_wraps_references:
  assumes "array_ok src" "array_ok dst" "same \<longrightarrow> src = dst" "reflection src = reflection dst" "fReference src"
    "sizeOfElement src = 12" "length (elements src) * 12 < 2 ^ 32" "length (elements dst) * 12 < 2 ^ 32"
    "\<forall>x \<in> set (elements src) \<union> set (elements dst). elem_kind env x = K"
    "0 \<le> i" "0 \<le> j" "i < 2 ^ 31" "j < 2 ^ 31" "0 < n" "n < 2 ^ 31" "\<not> (same \<and> i = j)"
    "2 ^ 31 \<le> i + n \<or> i + n \<le> count src" "2 ^ 31 \<le> j + n \<or> j + n \<le> count dst"
    "2 ^ 31 \<le> i + n \<or> 2 ^ 31 \<le> j + n"
  shows "Array_Copy env same src i dst j n = None"
proof -
  note guard = wrapped_guard [OF assms(1,2,10-15,17,18)]
  note copy = Array_Copy_same_header [OF assms(4) _ assms(16) guard, of env]
  have n: "int (nat n) = n" "0 < nat n" using assms(14) by simp_all
  have f: "(if same then elements dst else elements src) = elements src" using assms(3) by simp
  have up: "\<exists>k<nat n. \<not> in_elements (element_index 12 i + 1 * int k) (elements src) \<or>
      \<not> in_elements (element_index 12 j + 1 * int k) (elements dst)"
    using walk_up_leaves [of i "nat n" "elements src"] walk_up_leaves [of j "nat n" "elements dst"] assms n
    by auto
  have down: "\<exists>k<nat n. \<not> in_elements (element_index 12 (i + n - 1) + - 1 * int k) (elements src) \<or>
      \<not> in_elements (element_index 12 (j + n - 1) + - 1 * int k) (elements dst)"
    using walk_down_leaves [of i "nat n" "elements src"] walk_down_leaves [of j "nat n" "elements dst"] assms n
    by (auto simp del: mult_minus1)
  from up down assms(9)
  have "reassign_loop env same (elements src) (element_index 12 i) (elements dst) (element_index 12 j) 1 (nat n) = None"
    "reassign_loop env same (elements src) (element_index 12 (i + n - 1)) (elements dst)
      (element_index 12 (j + n - 1)) (- 1) (nat n) = None"
    by (blast intro: reassign_leaves [where same = same and src = "elements src" and dst = "elements dst", unfolded f])+
  then show ?thesis using copy assms(5,6,14)
    by (cases "same \<and> (word_of_int i :: u32) * 12 < word_of_int j * 12") (simp_all add: with_elements_def)
qed

section \<open>Creation\<close>

lemma array_blocks_exact:
  assumes "unat len * unat (et_sizeInBytes et) < 2 ^ 32 - 31"
  shows "unat (array_blocks et len) = (unat len * unat (et_sizeInBytes et) + 31) div 12"
proof -
  have p: "unat (len * ucast (et_sizeInBytes et)) = unat len * unat (et_sizeInBytes et)"
    using assms by (simp add: unat_word_ariths)
  have "unat (31 + len * ucast (et_sizeInBytes et)) = unat len * unat (et_sizeInBytes et) + 31"
    using assms by (simp add: unat_plus_if' p)
  then show ?thesis
    by (simp add: array_blocks_def CONVERTFROMSIZETOHEAPBLOCKS_def sizeof_HeapBlock_def
        sizeof_HeapBlock_Array_def unat_div)
qed

lemma array_room_enough:
  assumes "unat len * unat (et_sizeInBytes et) < 2 ^ 32 - 31" "0 < et_sizeInBytes et"
  shows "unat len \<le> array_room et len"
proof -
  let ?b = "unat len * unat (et_sizeInBytes et)"
  have s: "0 < unat (et_sizeInBytes et)" using assms(2) by (simp add: unat_gt_0 word_neq_0_conv)
  have "?b + 31 < 12 * ((?b + 31) div 12) + 12"
    using mod_less_divisor [of 12 "?b + 31"] div_mult_mod_eq [of "?b + 31" 12] by linarith
  then have "?b \<le> (?b + 31) div 12 * 12 - 20" by simp
  then show ?thesis
    using div_le_mono [of ?b "(?b + 31) div 12 * 12 - 20" "unat (et_sizeInBytes et)"] s
    by (simp add: array_room_def array_blocks_exact [OF assms(1)])
qed

lemma fill_elements_0:
  "n \<le> length xs \<Longrightarrow> fill_elements x 0 (int n) xs = Some (replicate n x @ drop n xs)"
  by (simp add: fill_elements_def)

text \<open>\<open>ClearElements\<close> on a range of an array.\<close>

definition cleared :: "'o heap_array \<Rightarrow> int \<Rightarrow> int \<Rightarrow> 'o hblock list" where
  "cleared a i n = map (\<lambda>k. if i \<le> int k \<and> int k < i + n then zeroed a else elements a ! k)
     [0..<length (elements a)]"

lemma length_cleared [simp]: "length (cleared a i n) = length (elements a)"
  by (simp add: cleared_def)

lemma nth_cleared [simp]: "k < length (elements a) \<Longrightarrow> cleared a i n ! k =
    (if i \<le> int k \<and> int k < i + n then zeroed a else elements a ! k)"
  by (simp add: cleared_def)

lemma fill_elements_cleared:
  assumes "0 \<le> i" "0 \<le> n" "i + n \<le> int (length (elements a))"
  shows "fill_elements (zeroed a) i n (elements a) = Some (cleared a i n)"
proof -
  have "take (nat i) (elements a) @ replicate (nat n) (zeroed a) @ drop (nat (i + n)) (elements a) =
      cleared a i n" (is "?l = _")
  proof (rule nth_equalityI)
    have le: "nat i \<le> length (elements a)" "nat i + nat n \<le> length (elements a)"
      "nat (i + n) = nat i + nat n" using assms by linarith+
    then show len: "length ?l = length (cleared a i n)" by simp
    fix k assume "k < length ?l"
    with len have k: "k < length (elements a)" by simp
    have "int k < i \<longleftrightarrow> k < nat i" "int k < i + n \<longleftrightarrow> k < nat i + nat n" using assms by linarith+
    then show "?l ! k = cleared a i n ! k"
      using k le by (auto simp: nth_append nth_drop not_less)
  qed
  moreover have "n = 0 \<Longrightarrow> cleared a i n = elements a" by (rule nth_equalityI) auto
  ultimately show ?thesis using assms by (simp add: fill_elements_def)
qed

lemma cleared_bytes:
  assumes "array_ok a" "0 \<le> n" "n \<le> count a"
  shows "int (unat ((word_of_int n :: u32) * ucast (sizeOfElement a)) div unat (sizeOfElement a)) = n"
  using element_index_count(2) [OF assms] assms(1,2) by (simp add: array_ok_def u8_pos)

lemma ClearElements_range:
  assumes "array_ok a" "\<not> fAllocate a" "0 \<le> i" "0 \<le> n" "i + n \<le> count a"
  shows "ClearElements env a i n = Some (Inr (), a\<lparr>elements := cleared a i n\<rparr>)"
proof -
  have "i + n \<le> int (length (elements a))" using assms(5) array_ok_count(2) [OF assms(1)] by linarith
  then show ?thesis
    using fill_elements_cleared [OF assms(3,4), of a] cleared_bytes [OF assms(1,4)]
      element_index_count(1) [OF assms(1,3)] assms(2-5)
    by (simp add: ClearElements_def Let_def)
qed

text \<open>
  Clearing an array of a value type: every element gets what \<open>NewObjectFromIndex\<close> made for it, up to the
  first failure, which is the result.
\<close>

definition allocated ::
  "(nat \<Rightarrow> (clr_error + unit) \<times> 'o hblock) \<Rightarrow> 'o hblock list \<Rightarrow> int \<Rightarrow> nat \<Rightarrow> nat \<Rightarrow> 'o hblock list" where
  "allocated new es i k n = map (\<lambda>m. if i \<le> int m \<and> int m < i + int n then snd (new (k + nat (int m - i))) else es ! m)
     [0..<length es]"

lemma allocate_loop_all:
  assumes "0 \<le> i" "i + int n \<le> int (length es)" "\<forall>m<n. \<exists>u. fst (new (k + m)) = Inr u"
  shows "allocate_loop new es i k n = Some (Inr (), allocated new es i k n)"
  using assms
proof (induction n arbitrary: i k es)
  case 0
  have "allocated new es i k 0 = es" by (rule nth_equalityI) (auto simp: allocated_def)
  then show ?case by simp
next
  case (Suc n)
  obtain x where x: "new k = (Inr (), x)" using Suc.prems(3) by (cases "new k") (auto dest: spec [of _ 0])
  have "allocate_loop new (es[nat i := x]) (i + 1) (k + 1) n = Some (Inr (), allocated new (es[nat i := x]) (i + 1) (k + 1) n)"
    using Suc.prems by (intro Suc.IH) auto
  moreover have "allocated new (es[nat i := x]) (i + 1) (k + 1) n = allocated new es i k (Suc n)"
  proof (rule nth_equalityI)
    fix m assume "m < length (allocated new (es[nat i := x]) (i + 1) (k + 1) n)"
    then have m: "m < length es" by (simp add: allocated_def)
    have "nat (int m - i) = Suc (nat (int m - (i + 1)))" if "i + 1 \<le> int m" using that by linarith
    then show "allocated new (es[nat i := x]) (i + 1) (k + 1) n ! m = allocated new es i k (Suc n) ! m"
      using m x Suc.prems(1) by (cases "int m = i") (auto simp: allocated_def nth_list_update)
  qed (simp add: allocated_def)
  ultimately show ?case using x Suc.prems by (simp add: in_elements_def)
qed

lemma allocate_loop_fails:
  assumes "0 \<le> i" "i + int n \<le> int (length es)" "m < n" "fst (new (k + m)) = Inl e"
    "\<forall>l<m. \<exists>u. fst (new (k + l)) = Inr u"
  shows "\<exists>es'. allocate_loop new es i k n = Some (Inl e, es') \<and> length es' = length es"
  using assms
proof (induction n arbitrary: i k es m)
  case (Suc n)
  have here: "in_elements i es" using Suc.prems(1,2) by (simp add: in_elements_def)
  show ?case
  proof (cases m)
    case 0
    then show ?thesis using Suc.prems(4) here by (cases "new k") auto
  next
    case (Suc m')
    obtain x where x: "new k = (Inr (), x)" using Suc.prems(5) Suc by (cases "new k") (auto dest: spec [of _ 0])
    have "\<exists>es'. allocate_loop new (es[nat i := x]) (i + 1) (k + 1) n = Some (Inl e, es') \<and>
        length es' = length (es[nat i := x])"
      using Suc.prems Suc by (intro Suc.IH [of _ _ m']) auto
    then show ?thesis using x here by simp
  qed
qed simp

lemma ClearElements_allocates:
  assumes "array_ok a" "fAllocate a" "0 \<le> i" "0 \<le> n" "i + n \<le> count a"
  shows "(\<forall>m<nat n. \<exists>u. fst (te_new env (reflection a) m) = Inr u) \<Longrightarrow>
      ClearElements env a i n = Some (Inr (), a\<lparr>elements := allocated (te_new env (reflection a)) (elements a) i 0 (nat n)\<rparr>)"
    "m < nat n \<Longrightarrow> fst (te_new env (reflection a) m) = Inl e \<Longrightarrow>
      \<forall>l<m. \<exists>u. fst (te_new env (reflection a) l) = Inr u \<Longrightarrow>
      \<exists>es. ClearElements env a i n = Some (Inl e, a\<lparr>elements := es\<rparr>)"
proof -
  let ?new = "te_new env (reflection a)"
  define z where "z = (a\<lparr>fReference := False, typeOfElement := 0\<rparr>)"
  have len: "i + n \<le> int (length (elements a))" using assms(5) array_ok_count(2) [OF assms(1)] by linarith
  have "zeroed z = Prim 0 0" "elements z = elements a" by (simp_all add: z_def zeroed_def)
  then have f: "fill_elements (Prim 0 0) i n (elements a) = Some (cleared z i n)"
    using fill_elements_cleared [OF assms(3,4), of z] len by simp
  have lz: "length (cleared z i n) = length (elements a)" by (simp add: z_def)
  have C: "ClearElements env a i n = map_option (\<lambda>(r, es). (r, a\<lparr>elements := es\<rparr>)) (allocate_loop ?new (cleared z i n) i 0 (nat n))"
    using f cleared_bytes [OF assms(1,4)] element_index_count(1) [OF assms(1,3)] assms(2-5)
    by (simp add: ClearElements_def Let_def)
  have "allocated ?new (cleared z i n) i 0 (nat n) = allocated ?new (elements a) i 0 (nat n)"
    using assms(4) by (intro nth_equalityI) (auto simp: allocated_def z_def)
  then show "(\<forall>m<nat n. \<exists>u. fst (?new m) = Inr u) \<Longrightarrow>
      ClearElements env a i n = Some (Inr (), a\<lparr>elements := allocated ?new (elements a) i 0 (nat n)\<rparr>)"
    using allocate_loop_all [of i "nat n" "cleared z i n" ?new 0] assms(3,4) len lz by (simp add: C)
  show "m < nat n \<Longrightarrow> fst (?new m) = Inl e \<Longrightarrow> \<forall>l<m. \<exists>u. fst (?new l) = Inr u \<Longrightarrow>
      \<exists>es. ClearElements env a i n = Some (Inl e, a\<lparr>elements := es\<rparr>)"
    using allocate_loop_fails [of i "nat n" "cleared z i n" m ?new 0 e] assms(3,4) len lz by (auto simp: C)
qed

text \<open>
  An array whose bytes do not wrap is created well formed, with every element zeroed or, in an array of a
  value type, with its own object, or refused: the blocks are short or more than a block header can
  count, or an object could not be made.
\<close>

definition array_granted :: "bool \<Rightarrow> elem_type \<Rightarrow> u32 \<Rightarrow> bool" where
  "array_granted granted et len \<longleftrightarrow> granted \<and> unat len * unat (et_sizeInBytes et) + 31 < 12 * 65536"

definition raw_array :: "(nat \<Rightarrow> 'o hblock) \<Rightarrow> elem_type \<Rightarrow> u32 \<Rightarrow> u64 \<Rightarrow> 'o heap_array" where
  "raw_array junk et len reflex =
     \<lparr>reflection = reflex, numOfElements = len, typeOfElement = et_dataType et,
       sizeOfElement = et_sizeInBytes et, fReference = \<not> et_numeric et,
       elements = map junk [0..<array_room et len]\<rparr>"

definition value_array :: "elem_type \<Rightarrow> u64 \<Rightarrow> bool" where
  "value_array et reflex \<longleftrightarrow> \<not> et_numeric et \<and> reflex_levels reflex = 1 \<and> et_dataType et = DATATYPE_VALUETYPE"

definition new_array ::
  "'o type_env \<Rightarrow> (nat \<Rightarrow> 'o hblock) \<Rightarrow> elem_type \<Rightarrow> u32 \<Rightarrow> u64 \<Rightarrow> 'o heap_array" where
  "new_array env junk et len reflex =
    (let a = raw_array junk et len reflex in
     a\<lparr>elements := map (\<lambda>k. if k < unat len
         then if value_array et reflex then snd (te_new env reflex k) else zeroed a
         else junk k) [0..<array_room et len]\<rparr>)"

lemma zeroed_elements [simp]: "zeroed (a\<lparr>elements := es\<rparr>) = zeroed a"
  by (simp add: zeroed_def)

lemma raw_array_simps [simp]:
  "fAllocate (raw_array junk et len reflex) \<longleftrightarrow> value_array et reflex"
  "reflection (raw_array junk et len reflex) = reflex" "numOfElements (raw_array junk et len reflex) = len"
  "sizeOfElement (raw_array junk et len reflex) = et_sizeInBytes et"
  "elements (raw_array junk et len reflex) = map junk [0..<array_room et len]"
  by (auto simp: raw_array_def fAllocate_def value_array_def)

lemma array_room_small:
  assumes "array_granted granted et len"
  shows "array_room et len < 2 ^ 31"
proof -
  let ?b = "unat len * unat (et_sizeInBytes et)"
  have b: "?b + 31 < 12 * 65536" using assms by (simp add: array_granted_def)
  then have "(?b + 31) div 12 < 65536" by simp
  then have "(?b + 31) div 12 * 12 - 20 < 2 ^ 31" by simp
  moreover have "unat (array_blocks et len) = (?b + 31) div 12" using b by (intro array_blocks_exact) simp
  ultimately show ?thesis unfolding array_room_def
    by (metis div_le_dividend le_less_trans)
qed

lemma raw_array_ok:
  assumes "array_granted granted et len" "0 < et_sizeInBytes et" "0 \<le> sint len"
  shows "array_ok (raw_array junk et len reflex)" "count (raw_array junk et len reflex) = sint len"
proof -
  have "unat len * unat (et_sizeInBytes et) < 2 ^ 32 - 31" using assms(1) by (simp add: array_granted_def)
  from array_room_enough [OF this assms(2)] array_room_small [OF assms(1)] assms this
  show "array_ok (raw_array junk et len reflex)" by (simp add: array_ok_def)
  show "count (raw_array junk et len reflex) = sint len" by (simp add: count_def)
qed

lemma new_array_ok:
  assumes "array_granted granted et len" "0 < et_sizeInBytes et" "0 \<le> sint len"
  shows "array_ok (new_array env junk et len reflex)" "count (new_array env junk et len reflex) = sint len"
  using raw_array_ok [OF assms, of junk reflex] by (simp_all add: new_array_def Let_def)

lemma int_less_uint: "int k < uint (w :: u32) \<longleftrightarrow> k < unat w"
  using of_nat_less_iff [of k "unat w", where 'a = int] by simp

lemma CreateInstance_extracts:
  assumes "te_elem env reflex = Some et" "0 < et_sizeInBytes et" "0 \<le> sint len"
    "unat len * unat (et_sizeInBytes et) < 2 ^ 32 - 31"
  shows "CreateInstance env granted junk len reflex =
    (if array_granted granted et len
     then map_option (\<lambda>(r, a). case r of Inl e \<Rightarrow> Inl e | Inr _ \<Rightarrow> Inr a)
       (ClearElements env (raw_array junk et len reflex) 0 (sint len))
     else Some (Inl E_OUT_OF_MEMORY))"
proof -
  let ?b = "unat len * unat (et_sizeInBytes et)"
  have "HB_MaxSize < array_blocks et len \<longleftrightarrow> 65536 \<le> (?b + 31) div 12"
    unfolding word_less_nat_alt array_blocks_exact [OF assms(4)] HB_MaxSize_def by simp linarith
  then have max: "HB_MaxSize < array_blocks et len \<longleftrightarrow> \<not> ?b + 31 < 12 * 65536"
    by (simp add: less_eq_div_iff_mult_less_eq not_less)
  have "uint len = sint len" using sint_nonneg_unat [OF assms(3)] by simp
  then show ?thesis using assms(1,3) max
    by (simp add: CreateInstance_def ExtractHeapBlocksForArray_def array_granted_def raw_array_def)
qed

lemma CreateInstance_fits:
  assumes "te_elem env reflex = Some et" "0 < et_sizeInBytes et" "0 \<le> sint len"
    "unat len * unat (et_sizeInBytes et) < 2 ^ 32 - 31"
    "value_array et reflex \<longrightarrow> (\<forall>k < unat len. \<exists>u. fst (te_new env reflex k) = Inr u)"
  shows "CreateInstance env granted junk len reflex =
    Some (if array_granted granted et len then Inr (new_array env junk et len reflex)
      else Inl E_OUT_OF_MEMORY)"
proof (cases "array_granted granted et len")
  case True
  let ?a = "raw_array junk et len reflex"
  note ok = raw_array_ok [OF True assms(2,3), of junk reflex]
  have s: "sint len = int (unat len)" by (rule sint_nonneg_unat [OF assms(3)])
  have new: "?a\<lparr>elements := elements (new_array env junk et len reflex)\<rparr> = new_array env junk et len reflex"
    by (simp add: new_array_def Let_def)
  have "ClearElements env ?a 0 (sint len) = Some (Inr (), new_array env junk et len reflex)"
  proof (cases "value_array et reflex")
    case v: True
    have "allocated (te_new env reflex) (map junk [0..<array_room et len]) 0 0 (unat len) =
        elements (new_array env junk et len reflex)"
      by (rule nth_equalityI) (simp_all add: allocated_def new_array_def Let_def v int_less_uint)
    then show ?thesis
      using ClearElements_allocates(1) [OF ok(1), of 0 "sint len" env] v assms(5) ok(2) new by (simp add: s)
  next
    case v: False
    have "cleared ?a 0 (int (unat len)) = elements (new_array env junk et len reflex)"
      by (rule nth_equalityI) (simp_all add: new_array_def Let_def v int_less_uint)
    then show ?thesis
      using ClearElements_range [OF ok(1), of 0 "sint len" env] v ok(2) new by (simp add: s)
  qed
  then show ?thesis using True CreateInstance_extracts [OF assms(1-4), of granted junk] by auto
next
  case False
  then show ?thesis using CreateInstance_extracts [OF assms(1-4), of granted junk] by simp
qed

lemma CreateInstance_fails:
  assumes "te_elem env reflex = Some et" "0 < et_sizeInBytes et" "0 \<le> sint len"
    "array_granted granted et len" "value_array et reflex" "k < unat len" "fst (te_new env reflex k) = Inl e"
    "\<forall>l<k. \<exists>u. fst (te_new env reflex l) = Inr u"
  shows "CreateInstance env granted junk len reflex = Some (Inl e)"
proof -
  have fits: "unat len * unat (et_sizeInBytes et) < 2 ^ 32 - 31" using assms(4) by (simp add: array_granted_def)
  note ok = raw_array_ok [OF assms(4,2,3), of junk reflex]
  obtain es where "ClearElements env (raw_array junk et len reflex) 0 (sint len) =
      Some (Inl e, (raw_array junk et len reflex)\<lparr>elements := es\<rparr>)"
    using ClearElements_allocates(2) [OF ok(1), of 0 "sint len" k env e] assms ok(2)
      sint_nonneg_unat [OF assms(3)] by auto
  then show ?thesis using CreateInstance_extracts [OF assms(1-3) fits, of granted junk] assms(4) by simp
qed

text \<open>
  Without the bound the bytes wrap: half a gigabyte of eight-byte numbers is granted with room for none
  of its elements, and clearing an array of references runs out of it.
\<close>

lemma CreateInstance_wraps_numeric:
  assumes "te_elem env reflex = Some et" "et_sizeInBytes et = 8" "et_numeric et"
  shows "CreateInstance env True junk 0x20000000 reflex =
    Some (Inr \<lparr>reflection = reflex, numOfElements = 0x20000000, typeOfElement = et_dataType et,
      sizeOfElement = 8, fReference = False, elements = []\<rparr>)"
  using assms
  by (simp add: CreateInstance_def ExtractHeapBlocksForArray_def array_blocks_def array_room_def
      CONVERTFROMSIZETOHEAPBLOCKS_def sizeof_HeapBlock_def sizeof_HeapBlock_Array_def HB_MaxSize_def
      ClearElements_def fill_elements_def fAllocate_def Let_def)

lemma CreateInstance_wraps_reference:
  assumes "te_elem env reflex = Some et" "et_sizeInBytes et = 12" "\<not> et_numeric et"
    "value_array et reflex \<longrightarrow> (\<exists>u. fst (te_new env reflex 0) = Inr u)"
  shows "CreateInstance env True junk 357913942 reflex = None"
proof -
  let ?a = "raw_array junk et 357913942 reflex"
  have room: "array_room et 357913942 = 1" and blocks: "\<not> HB_MaxSize < array_blocks et 357913942"
    using assms(2)
    by (simp_all add: array_room_def array_blocks_def CONVERTFROMSIZETOHEAPBLOCKS_def sizeof_HeapBlock_def
        sizeof_HeapBlock_Array_def HB_MaxSize_def)
  have C: "ClearElements env ?a 0 357913942 = None"
  proof (cases "value_array et reflex")
    case True
    with assms(4) obtain x where x: "te_new env reflex 0 = (Inr (), x)" by (cases "te_new env reflex 0") auto
    have n: "nat 357913942 = Suc (Suc 357913940)" by simp
    have "allocate_loop (te_new env reflex) es 0 0 (nat 357913942) = None" if "length es = 1" for es
      using that x by (simp only: n allocate_loop.simps) (simp add: in_elements_def)
    then show ?thesis
      using True assms(2) room
      by (simp add: ClearElements_def Let_def element_index_def fill_elements_def split: option.split)
  next
    case False
    then have "\<not> fAllocate ?a" by simp
    moreover have "fReference ?a" using assms(3) by (simp add: raw_array_def)
    ultimately show ?thesis
      using assms(2) room by (simp add: ClearElements_def Let_def element_index_def fill_elements_def)
  qed
  then show ?thesis using assms(1) blocks
    by (simp add: CreateInstance_def ExtractHeapBlocksForArray_def raw_array_def)
qed

section \<open>Searching\<close>

definition found_at :: "('o hblock \<Rightarrow> bool) \<Rightarrow> 'o hblock list \<Rightarrow> int \<Rightarrow> int \<Rightarrow> nat \<Rightarrow> int \<Rightarrow> bool" where
  "found_at P es pos incr n r \<longleftrightarrow>
     r = - 1 \<and> (\<forall>k<n. \<not> P (es ! nat (pos + incr * int k))) \<or>
     (\<exists>m<n. r = pos + incr * int m \<and> P (es ! nat r) \<and> (\<forall>k<m. \<not> P (es ! nat (pos + incr * int k))))"

lemma found_at_Suc:
  assumes "\<not> P (es ! nat pos)" "found_at P es (pos + incr) incr n r"
  shows "found_at P es pos incr (Suc n) r"
proof -
  have step: "(\<forall>k<Suc j. \<not> P (es ! nat (pos + incr * int k))) \<longleftrightarrow>
      (\<forall>k<j. \<not> P (es ! nat (pos + incr + incr * int k)))" for j
    using assms(1) by (simp add: All_less_Suc2 algebra_simps)
  from assms(2) consider "r = - 1" "\<forall>k<n. \<not> P (es ! nat (pos + incr + incr * int k))"
    | m where "m < n" "r = pos + incr + incr * int m" "P (es ! nat r)"
      "\<forall>k<m. \<not> P (es ! nat (pos + incr + incr * int k))"
    unfolding found_at_def by blast
  then show ?thesis
  proof cases
    case 1
    then show ?thesis unfolding found_at_def step by simp
  next
    case 2
    have "Suc m < Suc n \<and> r = pos + incr * int (Suc m) \<and> P (es ! nat r) \<and>
        (\<forall>k<Suc m. \<not> P (es ! nat (pos + incr * int k)))"
      unfolding step using 2 by (simp add: algebra_simps)
    then show ?thesis unfolding found_at_def by blast
  qed
qed

lemma find_from_finds:
  assumes "\<forall>k<n. in_elements (pos + incr * int k) es"
  shows "\<exists>r. find_from P es pos incr n = Some r \<and> found_at P es pos incr n r"
  using assms
proof (induction n arbitrary: pos)
  case (Suc n)
  have here: "in_elements pos es" using Suc.prems by (auto dest: spec [of _ 0])
  show ?case
  proof (cases "P (es ! nat pos)")
    case True
    then have "found_at P es pos incr (Suc n) pos" unfolding found_at_def by (auto intro!: exI [of _ 0])
    then show ?thesis using True here by simp
  next
    case False
    have "\<forall>k<n. in_elements (pos + incr + incr * int k) es"
    proof (intro allI impI)
      fix k assume "k < n"
      then have "in_elements (pos + incr * int (Suc k)) es" using Suc.prems by blast
      then show "in_elements (pos + incr + incr * int k) es" by (simp add: algebra_simps)
    qed
    from Suc.IH [OF this] found_at_Suc [of P es pos incr n, OF False] False here
    show ?thesis by auto
  qed
qed (simp add: found_at_def)

lemma CheckRange_iff:
  assumes "0 \<le> n" "n < 2 ^ 31" "- (2 ^ 31) \<le> i" "i < 2 ^ 31" "- (2 ^ 31) \<le> len" "len < 2 ^ 31"
  shows "CheckRange i len n \<longleftrightarrow> 0 \<le> i \<and> 0 \<le> len \<and> i + len \<le> n"
proof (cases "0 \<le> i \<and> 0 \<le> len")
  case True
  show ?thesis
  proof (cases "i + len < 2 ^ 31")
    case small: True
    then have "s32 (i + len) = i + len" using True by (intro s32_id) auto
    then show ?thesis using True by (auto simp: CheckRange_def)
  next
    case False
    then have "s32 (i + len) = i + len - 2 ^ 32" using assms by (intro s32_wraps) auto
    then show ?thesis using False assms True by (auto simp: CheckRange_def)
  qed
qed (auto simp: CheckRange_def)

text \<open>
  A search never reads outside of the array, whatever the arguments: the range check of the search,
  unlike that of the copy, sees the wrap.
\<close>

lemma IndexOf_finds:
  assumes "array_ok a" "fReference a" "- (2 ^ 31) \<le> start" "start < 2 ^ 31"
    "- (2 ^ 31) \<le> stop" "stop < 2 ^ 31"
  shows "\<exists>r. IndexOf env a match start stop fForward = Some r \<and>
    (let stop = (if stop = - 1 then count a else stop) in
     if 0 \<le> start \<and> start \<le> stop \<and> stop \<le> count a
     then \<exists>p. r = Inr p \<and> found_at (\<lambda>e. te_same env e match) (elements a)
       (if fForward then start else stop - 1) (if fForward then 1 else - 1) (nat (stop - start)) p
     else r = Inl E_OUT_OF_RANGE)"
proof -
  note c = array_ok_count [OF assms(1)]
  define e where "e = (if stop = - 1 then count a else stop)"
  have e: "- (2 ^ 31) \<le> e" "e < 2 ^ 31" using assms(5,6) c(1,3) by (auto simp: e_def)
  show ?thesis
  proof (cases "0 \<le> start \<and> start \<le> e \<and> e \<le> count a")
    case True
    then have s: "s32 (e - start) = e - start" using e c by (intro s32_id) auto
    have ok: "CheckRange start (e - start) (count a)" using True c by (auto simp: CheckRange_def)
    show ?thesis
    proof (cases "start = e")
      case eq: True
      then show ?thesis using True ok s
        by (auto simp: IndexOf_def Let_def e_def [symmetric] count_def [symmetric] found_at_def)
    next
      case False
      define pos where "pos = (if fForward then start else e - 1)"
      define incr where "incr = (if fForward then 1 else - 1 :: int)"
      have "\<forall>k<nat (e - start). in_elements (pos + incr * int k) (elements a)"
        using True c by (auto simp: pos_def incr_def in_elements_def)
      from find_from_finds [OF this] obtain p where
        "find_from (\<lambda>x. te_same env x match) (elements a) pos incr (nat (e - start)) = Some p"
        "found_at (\<lambda>x. te_same env x match) (elements a) pos incr (nat (e - start)) p" by blast
      then show ?thesis using True False ok s assms(2)
        by (cases fForward) (auto simp: IndexOf_def Let_def e_def [symmetric] count_def [symmetric] pos_def incr_def)
    qed
  next
    case False
    have "\<not> CheckRange start (s32 (e - start)) (count a)"
    proof (cases "0 \<le> start")
      case start: True
      have "s32 (e - start) = e - start \<or> s32 (e - start) = e - start + 2 ^ 32 \<and> e < 0"
        using s32_id [of "e - start"] s32_wraps_below [of "e - start"] e start assms(4)
        by (cases "- (2 ^ 31) \<le> e - start") auto
      then show ?thesis
      proof
        assume "s32 (e - start) = e - start"
        then show ?thesis
          using False CheckRange_iff [of "count a" start "e - start"] c(1,3) start assms(4) e
          by (cases "- (2 ^ 31) \<le> e - start") (auto simp: CheckRange_def)
      next
        assume "s32 (e - start) = e - start + 2 ^ 32 \<and> e < 0"
        then show ?thesis
          using CheckRange_iff [of "count a" start "e - start + 2 ^ 32"] c(1,3) start assms(4) e
          by (cases "e - start + 2 ^ 32 < 2 ^ 31") auto
      qed
    qed (simp add: CheckRange_def)
    then show ?thesis using False
      by (auto simp: IndexOf_def Let_def e_def [symmetric] count_def [symmetric])
  qed
qed

section \<open>Copying with casts\<close>

text \<open>
  The copy of a boxed value makes the object of the destination a boxed one, and no value can be stored
  there any more.
\<close>

lemma boxed_copy_blocks_stores:
  assumes "te_value env x = Some v" "te_class env v = te_class env c"
  shows "Reassign env (Val False c) (Obj (Some x)) = Inr (Val True v)"
    "Reassign env (Val True v) (Val False d) = Inl E_WRONG_TYPE"
  using assms by (simp_all add: Reassign_def IsAValueType_def CopyValueType_def value_object_def)

text \<open>A copy to references: a value cannot be stored, a reference that cannot be cast neither.\<close>

lemma Reassign_reference:
  "elem_kind env y = None \<Longrightarrow> Reassign env y x = (if IsAValueType x then Inl E_WRONG_TYPE else Inr x)"
  by (auto simp: Reassign_def elem_kind_def IsAValueType_def value_object_def split: hblock.splits bool.splits)

definition cast_error :: "'o type_env \<Rightarrow> u64 \<Rightarrow> 'o hblock \<Rightarrow> clr_error option" where
  "cast_error env header x = (case (if is_null x then None else te_cast env x header) of
     Some e \<Rightarrow> Some e | None \<Rightarrow> (if IsAValueType x then Some E_WRONG_TYPE else None))"

text \<open>\<open>copied_until\<close>: the elements before the first that cannot be stored are copied.\<close>

definition copied_until ::
  "'o type_env \<Rightarrow> u64 \<Rightarrow> 'o hblock list \<Rightarrow> int \<Rightarrow> nat \<Rightarrow> clr_error + unit \<Rightarrow> nat \<Rightarrow> bool" where
  "copied_until env header src i n r m \<longleftrightarrow>
     m \<le> n \<and> (\<forall>k<m. cast_error env header (src ! nat (i + int k)) = None) \<and>
     (case r of Inr _ \<Rightarrow> m = n
      | Inl e \<Rightarrow> m < n \<and> cast_error env header (src ! nat (i + int m)) = Some e)"

lemma cast_loop_copies:
  assumes "0 \<le> i" "0 \<le> j" "i + int n \<le> int (length src)" "j + int n \<le> int (length dst)"
    "one_kind env None dst j n"
  shows "\<exists>r m. cast_loop env header src i dst j n = Some (r, moved dst j src i (int m)) \<and>
    copied_until env header src i n r m"
  using assms
proof (induction n arbitrary: i j dst)
  case (Suc n)
  have *: "in_elements i src" "in_elements j dst" using Suc.prems by (auto simp: in_elements_def)
  have kind: "elem_kind env (dst ! nat j) = None" "one_kind env None dst (j + 1) n"
    using Suc.prems(5) by (simp_all add: one_kind_Suc)
  let ?x = "src ! nat i"
  let ?d = "dst[nat j := ?x]"
  show ?case
  proof (cases "cast_error env header ?x")
    case None
    then have ok: "(if is_null ?x then None else te_cast env ?x header) = None" "\<not> IsAValueType ?x"
      by (simp_all add: cast_error_def split: option.splits if_splits)
    then have "elem_kind env ?x = None" by (auto simp: elem_kind_def IsAValueType_def split: hblock.splits bool.splits)
    then obtain r m where r: "cast_loop env header src (i + 1) ?d (j + 1) n =
        Some (r, moved ?d (j + 1) src (i + 1) (int m))" "copied_until env header src (i + 1) n r m"
      using Suc.IH [of "i + 1" "j + 1" ?d] Suc.prems one_kind_update [OF kind(2)] by auto
    have "moved ?d (j + 1) src (i + 1) (int m) = moved dst j src i (int (Suc m))"
    proof (rule nth_equalityI)
      fix k assume "k < length (moved ?d (j + 1) src (i + 1) (int m))"
      then have k: "k < length dst" by simp
      have "i + 1 + (int k - (j + 1)) = i + (int k - j)" by simp
      then show "moved ?d (j + 1) src (i + 1) (int m) ! k = moved dst j src i (int (Suc m)) ! k"
        using k Suc.prems(2) by (cases "int k = j") (auto simp: nth_list_update)
    qed simp
    moreover have "copied_until env header src i (Suc n) r (Suc m)"
      using r(2) None unfolding copied_until_def by (auto simp: All_less_Suc2 algebra_simps split: sum.splits)
    moreover have "cast_loop env header src i dst j (Suc n) =
        Some (r, moved ?d (j + 1) src (i + 1) (int m))"
      using r(1) * ok Reassign_reference [OF kind(1), of ?x] by (simp add: Let_def)
    ultimately show ?thesis by metis
  next
    case (Some e)
    then have "copied_until env header src i (Suc n) (Inl e) 0" by (simp add: copied_until_def)
    moreover have "cast_loop env header src i dst j (Suc n) = Some (Inl e, dst)"
      using Some * Reassign_reference [OF kind(1), of ?x]
      by (auto simp: Let_def cast_error_def split: option.splits if_splits)
    ultimately show ?thesis by (auto intro!: exI [of _ 0])
  qed
qed (simp add: copied_until_def)

lemma Array_Copy_casts:
  assumes "array_ok src" "array_ok dst" "reflection src \<noteq> reflection dst"
    "fReference src" "fReference dst"
    "0 \<le> i" "0 \<le> j" "0 < n" "i + n \<le> count src" "j + n \<le> count dst"
    "one_kind env None (elements dst) j (nat n)"
  shows "\<exists>r m. Array_Copy env False src i dst j n =
      Some (r, dst\<lparr>elements := moved (elements dst) j (elements src) i (int m)\<rparr>) \<and>
    copied_until env (reflection dst) (elements src) i (nat n) r m"
proof -
  note c = array_ok_count [OF assms(1)] array_ok_count [OF assms(2)]
  have guard: "(n < 0 \<or> i < 0 \<or> j < 0 \<or> sint (numOfElements src) < s32 (n + i) \<or>
      sint (numOfElements dst) < s32 (n + j)) = False"
    using copy_guard [OF assms(1,2,6,7) _ assms(9,10)] assms(8) by (simp add: count_def)
  have at: "element_index (sizeOfElement src) i = i" "element_index (sizeOfElement dst) j = j"
    using element_index_count(1) [OF assms(1,6)] element_index_count(1) [OF assms(2,7)] assms(8-10) by simp_all
  obtain r m where "cast_loop env (reflection dst) (elements src) i (elements dst) j (nat n) =
      Some (r, moved (elements dst) j (elements src) i (int m))"
    "copied_until env (reflection dst) (elements src) i (nat n) r m"
    using cast_loop_copies [of i j "nat n" "elements src" "elements dst" env "reflection dst"] assms c
    by auto
  then have "Array_Copy env False src i dst j n =
      Some (r, dst\<lparr>elements := moved (elements dst) j (elements src) i (int m)\<rparr>)"
    unfolding Array_Copy_def guard using assms(3-5,8) by (simp add: with_elements_def at)
  with \<open>copied_until _ _ _ _ _ r m\<close> show ?thesis by blast
qed

end
