(* ===== verification/Collections.thy ===== *)
theory Collections
  imports HeapArrays "HOL-Library.Monad_Syntax"
begin

text \<open>
  The native halves of the collections of the class library (\<open>CLR/Core/CLR_RT_HeapBlock_Queue.cpp\<close>,
  \<open>CLR_RT_HeapBlock_Stack.cpp\<close>, \<open>CLR_RT_HeapBlock_ArrayList.cpp\<close>): a managed object with an array of
  objects and its counters, a record here. Their contract, a history of operations that behaves as on
  a list, is the locale \<open>collection\<close>, interpreted on all three.
\<close>

section \<open>References in arrays\<close>

text \<open>
  \<open>Dereference\<close> of an element and \<open>SetObjectReference\<close> on it; an element that is no reference, or
  one to an object of a value type, read as a reference is outside of the model.
\<close>

definition get_ref :: "'o heap_array \<Rightarrow> int \<Rightarrow> 'o option option" where
  "get_ref a i = (if in_elements i (elements a)
     then case elements a ! nat i of Obj v \<Rightarrow> Some v | _ \<Rightarrow> None else None)"

definition set_ref :: "'o heap_array \<Rightarrow> int \<Rightarrow> 'o option \<Rightarrow> 'o heap_array option" where
  "set_ref a i v = (if in_elements i (elements a)
     then Some (a\<lparr>elements := (elements a)[nat i := Obj v]\<rparr>) else None)"

text \<open>\<open>Assign\<close> from one element to another.\<close>

definition assign_ref :: "'o heap_array \<Rightarrow> int \<Rightarrow> int \<Rightarrow> 'o heap_array option" where
  "assign_ref a i j = (if in_elements i (elements a) \<and> in_elements j (elements a)
     then Some (a\<lparr>elements := (elements a)[nat i := elements a ! nat j]\<rparr>) else None)"

section \<open>The queue\<close>

record 'o obj_queue =
  q_array :: "'o heap_array"
  q_head :: int
  q_tail :: int
  q_size :: int

text \<open>The remainder by the unsigned count of an array.\<close>

definition umod :: "int \<Rightarrow> u32 \<Rightarrow> int" where
  "umod x n = uint ((word_of_int x :: u32) mod n)"

definition Dequeue :: "'o obj_queue \<Rightarrow> ('o option, 'o obj_queue) outcome" where
  "Dequeue q =
    (let arr = q_array q; size = q_size q; head = q_head q in
     if size = 0 then Some (Inl E_INVALID_OPERATION, q)
     else do {
       v \<leftarrow> get_ref arr head;
       arr \<leftarrow> set_ref arr head None;
       Some (Inr v, q\<lparr>q_array := arr, q_head := umod (head + 1) (numOfElements arr), q_size := size - 1\<rparr>)
     })"

text \<open>
  \<open>ObjArrayMemcpy\<close> passes the source where \<open>memcpy\<close> takes the destination: the elements go from
  \<open>arrayDst\<close> to \<open>arraySrc\<close>. The result is \<open>arraySrc\<close> after the call.
\<close>

definition ObjArrayMemcpy ::
  "'o heap_array \<Rightarrow> int \<Rightarrow> 'o heap_array \<Rightarrow> int \<Rightarrow> int \<Rightarrow> 'o heap_array option" where
  "ObjArrayMemcpy arraySrc indexSrc arrayDst indexDst len =
     map_option (\<lambda>es. arraySrc\<lparr>elements := es\<rparr>)
       (move_elements (elements arraySrc) (element_index (sizeOfElement arraySrc) indexSrc)
         (elements arrayDst) (element_index (sizeOfElement arrayDst) indexDst) (element_index 12 len))"

text \<open>The call through the function pointer; both arrays are returned.\<close>

definition array_copy ::
  "'o type_env \<Rightarrow> 'o heap_array \<Rightarrow> int \<Rightarrow> 'o heap_array \<Rightarrow> int \<Rightarrow> int \<Rightarrow>
    (unit, 'o heap_array \<times> 'o heap_array) outcome" where
  "array_copy env arr i toArray j len =
    (if typeOfElement toArray = DATATYPE_OBJECT
     then map_option (\<lambda>arr'. (Inr (), arr', toArray)) (ObjArrayMemcpy arr i toArray j len)
     else map_option (\<lambda>(r, to'). (r, arr, to')) (Array_Copy env False arr i toArray j len))"

definition CopyTo ::
  "'o type_env \<Rightarrow> 'o obj_queue \<Rightarrow> 'o heap_array \<Rightarrow> int \<Rightarrow> (unit, 'o heap_array \<times> 'o heap_array) outcome" where
  "CopyTo env q toArray index =
    (let arr = q_array q; size = q_size q; head = q_head q; tail = q_tail q in
     if s32 (sint (numOfElements toArray) - index) < size then Some (Inl E_INVALID_PARAMETER, arr, toArray)
     else if 0 < size then
       if head < tail then array_copy env arr head toArray index size
       else
         let firstPart = sint (numOfElements arr) - head in
         do {
           (r, arr, toArray) \<leftarrow> array_copy env arr head toArray index firstPart;
           case r of Inl e \<Rightarrow> Some (Inl e, arr, toArray)
           | Inr _ \<Rightarrow> array_copy env arr 0 toArray (s32 (index + firstPart)) tail
         }
     else Some (Inr (), arr, toArray))"

text \<open>
  \<open>Enqueue\<close> doubles a full array and ignores what \<open>CopyTo\<close> returns. \<open>granted\<close> and \<open>junk\<close> are those of
  the creation of the new array.
\<close>

definition enqueue_at :: "'o option \<Rightarrow> int \<Rightarrow> int \<Rightarrow> 'o obj_queue \<Rightarrow> (unit, 'o obj_queue) outcome" where
  "enqueue_at v tail capacity q = do {
     arr \<leftarrow> set_ref (q_array q) tail v;
     Some (Inr (), q\<lparr>q_array := arr, q_tail := c_mod (tail + 1) capacity, q_size := q_size q + 1\<rparr>)
   }"

definition Enqueue ::
  "'o type_env \<Rightarrow> bool \<Rightarrow> (nat \<Rightarrow> 'o hblock) \<Rightarrow> 'o option \<Rightarrow> 'o obj_queue \<Rightarrow> (unit, 'o obj_queue) outcome" where
  "Enqueue env granted junk v q =
    (let arr = q_array q; size = q_size q; tail = q_tail q; capacity = sint (numOfElements arr) in
     if size = capacity then
       let capacity = s32 (capacity * 2) in
       do {
         r \<leftarrow> CreateInstance env granted junk (word_of_int capacity) (te_object env);
         case r of Inl e \<Rightarrow> Some (Inl e, q)
         | Inr newArray \<Rightarrow> do {
             (_, _, newArray) \<leftarrow> CopyTo env q newArray 0;
             enqueue_at v size capacity (q\<lparr>q_array := newArray, q_head := 0, q_tail := size\<rparr>)
           }
       }
     else enqueue_at v tail capacity q)"

definition queue_Peek :: "'o obj_queue \<Rightarrow> ('o option, 'o obj_queue) outcome" where
  "queue_Peek q =
    (if q_size q = 0 then Some (Inl E_INVALID_OPERATION, q)
     else do { v \<leftarrow> get_ref (q_array q) (q_head q); Some (Inr v, q) })"

definition queue_Clear :: "'o type_env \<Rightarrow> 'o obj_queue \<Rightarrow> (unit, 'o obj_queue) outcome" where
  "queue_Clear env q =
    (let arr = q_array q; size = q_size q; head = q_head q; tail = q_tail q in
     if 0 < size then
       do {
         (r, arr) \<leftarrow> (if head < tail then ClearElements env arr head size
           else do {
             (r, arr) \<leftarrow> ClearElements env arr head (sint (numOfElements arr) - head);
             case r of Inl e \<Rightarrow> Some (Inl e, arr) | Inr _ \<Rightarrow> ClearElements env arr 0 tail
           });
         case r of Inl e \<Rightarrow> Some (Inl e, q\<lparr>q_array := arr\<rparr>)
         | Inr _ \<Rightarrow> Some (Inr (), q\<lparr>q_array := arr, q_size := 0, q_head := 0, q_tail := 0\<rparr>)
       }
     else Some (Inr (), q\<lparr>q_head := 0, q_tail := 0\<rparr>))"

section \<open>The stack\<close>

record 'o obj_stack =
  s_array :: "'o heap_array"
  s_size :: int

definition Pop :: "'o obj_stack \<Rightarrow> ('o option, 'o obj_stack) outcome" where
  "Pop s =
    (let arr = s_array s; size = s_size s; top = sint (numOfElements arr) - size in
     if size = 0 then Some (Inl E_INVALID_OPERATION, s)
     else do {
       v \<leftarrow> get_ref arr top;
       arr \<leftarrow> set_ref arr top None;
       Some (Inr v, s\<lparr>s_array := arr, s_size := size - 1\<rparr>)
     })"

definition push_at :: "'o option \<Rightarrow> int \<Rightarrow> int \<Rightarrow> 'o obj_stack \<Rightarrow> (unit, 'o obj_stack) outcome" where
  "push_at v n capacity s = do {
     arr \<leftarrow> set_ref (s_array s) (capacity - (n + 1)) v;
     Some (Inr (), s\<lparr>s_array := arr, s_size := n + 1\<rparr>)
   }"

definition Push ::
  "'o type_env \<Rightarrow> bool \<Rightarrow> (nat \<Rightarrow> 'o hblock) \<Rightarrow> 'o option \<Rightarrow> 'o obj_stack \<Rightarrow> (unit, 'o obj_stack) outcome" where
  "Push env granted junk v s =
    (let arr = s_array s; size = s_size s; capacity = sint (numOfElements arr) in
     if size = capacity then
       let capacity = s32 (capacity * 2) in
       do {
         r \<leftarrow> CreateInstance env granted junk (word_of_int capacity) (te_object env);
         case r of Inl e \<Rightarrow> Some (Inl e, s)
         | Inr newArray \<Rightarrow> do {
             es \<leftarrow> move_elements (elements newArray) size (elements arr) 0 size;
             push_at v size capacity (s\<lparr>s_array := newArray\<lparr>elements := es\<rparr>\<rparr>)
           }
       }
     else push_at v size capacity s)"

definition stack_Peek :: "'o obj_stack \<Rightarrow> ('o option, 'o obj_stack) outcome" where
  "stack_Peek s =
    (if s_size s = 0 then Some (Inl E_INVALID_OPERATION, s)
     else do { v \<leftarrow> get_ref (s_array s) (sint (numOfElements (s_array s)) - s_size s); Some (Inr v, s) })"

definition stack_Clear :: "'o type_env \<Rightarrow> 'o obj_stack \<Rightarrow> (unit, 'o obj_stack) outcome" where
  "stack_Clear env s = do {
     (r, arr) \<leftarrow> ClearElements env (s_array s) (sint (numOfElements (s_array s)) - s_size s) (s_size s);
     case r of Inl e \<Rightarrow> Some (Inl e, s\<lparr>s_array := arr\<rparr>)
     | Inr _ \<Rightarrow> Some (Inr (), s\<lparr>s_array := arr, s_size := 0\<rparr>)
   }"

section \<open>The array list\<close>

record 'o array_list =
  l_items :: "'o heap_array"
  l_size :: int

definition c_DefaultCapacity :: int where "c_DefaultCapacity = 4"

definition GetItem :: "int \<Rightarrow> 'o array_list \<Rightarrow> ('o option, 'o array_list) outcome" where
  "GetItem index l =
    (if index < 0 \<or> l_size l \<le> index then Some (Inl E_OUT_OF_RANGE, l)
     else do { v \<leftarrow> get_ref (l_items l) index; Some (Inr v, l) })"

definition SetItem :: "int \<Rightarrow> 'o option \<Rightarrow> 'o array_list \<Rightarrow> (unit, 'o array_list) outcome" where
  "SetItem index v l =
    (if index < 0 \<or> l_size l \<le> index then Some (Inl E_OUT_OF_RANGE, l)
     else do { items \<leftarrow> set_ref (l_items l) index v; Some (Inr (), l\<lparr>l_items := items\<rparr>) })"

definition SetCapacity ::
  "'o type_env \<Rightarrow> bool \<Rightarrow> (nat \<Rightarrow> 'o hblock) \<Rightarrow> int \<Rightarrow> 'o array_list \<Rightarrow> (unit, 'o array_list) outcome" where
  "SetCapacity env granted junk newCapacity l =
    (let items = l_items l; size = l_size l in
     if newCapacity \<noteq> sint (numOfElements items) then
       if newCapacity < size then Some (Inl E_OUT_OF_RANGE, l)
       else
         let newCapacity = (if newCapacity < c_DefaultCapacity then c_DefaultCapacity else newCapacity) in
         do {
           r \<leftarrow> CreateInstance env granted junk (word_of_int newCapacity) (te_object env);
           case r of Inl e \<Rightarrow> Some (Inl e, l)
           | Inr newItems \<Rightarrow> do {
               es \<leftarrow> (if 0 < size then move_elements (elements newItems) 0 (elements items) 0 size
                 else Some (elements newItems));
               Some (Inr (), l\<lparr>l_items := newItems\<lparr>elements := es\<rparr>\<rparr>)
             }
         }
     else Some (Inr (), l))"

definition EnsureCapacity ::
  "'o type_env \<Rightarrow> bool \<Rightarrow> (nat \<Rightarrow> 'o hblock) \<Rightarrow> int \<Rightarrow> int \<Rightarrow> 'o array_list \<Rightarrow> (unit, 'o array_list) outcome" where
  "EnsureCapacity env granted junk min_cap currentCapacity l =
    (if currentCapacity < min_cap then
       let newCapacity = c_div (s32 (currentCapacity * 3)) 2;
           newCapacity = (if newCapacity < min_cap then min_cap else newCapacity) in
       SetCapacity env granted junk newCapacity l
     else Some (Inr (), l))"

text \<open>The growth of a full list, the shared first half of \<open>Add\<close> and \<open>Insert\<close>.\<close>

definition grow_full ::
  "'o type_env \<Rightarrow> bool \<Rightarrow> (nat \<Rightarrow> 'o hblock) \<Rightarrow> 'o array_list \<Rightarrow> (unit, 'o array_list) outcome" where
  "grow_full env granted junk l =
    (let size = l_size l; capacity = sint (numOfElements (l_items l)) in
     if size = capacity then EnsureCapacity env granted junk (size + 1) capacity l else Some (Inr (), l))"

definition Add ::
  "'o type_env \<Rightarrow> bool \<Rightarrow> (nat \<Rightarrow> 'o hblock) \<Rightarrow> 'o option \<Rightarrow> 'o array_list \<Rightarrow> (int, 'o array_list) outcome" where
  "Add env granted junk v l = do {
     (r, l) \<leftarrow> grow_full env granted junk l;
     case r of Inl e \<Rightarrow> Some (Inl e, l)
     | Inr _ \<Rightarrow> do {
         items \<leftarrow> set_ref (l_items l) (l_size l) v;
         Some (Inr (l_size l), l\<lparr>l_items := items, l_size := l_size l + 1\<rparr>)
       }
   }"

definition al_Clear :: "'o type_env \<Rightarrow> 'o array_list \<Rightarrow> (unit, 'o array_list) outcome" where
  "al_Clear env l = do {
     (r, items) \<leftarrow> ClearElements env (l_items l) 0 (l_size l);
     case r of Inl e \<Rightarrow> Some (Inl e, l\<lparr>l_items := items\<rparr>)
     | Inr _ \<Rightarrow> Some (Inr (), l\<lparr>l_items := items, l_size := 0\<rparr>)
   }"

text \<open>The loops of \<open>Insert\<close> (downwards to \<open>stop\<close>) and of \<open>RemoveAt\<close> (upwards to \<open>stop\<close>); a \<open>do\<close> loop
  that starts at its end would run on, the callers exclude it.\<close>

fun shift_up :: "'o heap_array \<Rightarrow> int \<Rightarrow> nat \<Rightarrow> 'o heap_array option" where
  "shift_up a current 0 = Some a"
| "shift_up a current (Suc n) = do {
     a \<leftarrow> assign_ref a current (current - 1);
     shift_up a (current - 1) n
   }"

fun shift_down :: "'o heap_array \<Rightarrow> int \<Rightarrow> nat \<Rightarrow> 'o heap_array option" where
  "shift_down a current 0 = Some a"
| "shift_down a current (Suc n) = do {
     a \<leftarrow> assign_ref a current (current + 1);
     shift_down a (current + 1) n
   }"

definition al_Insert ::
  "'o type_env \<Rightarrow> bool \<Rightarrow> (nat \<Rightarrow> 'o hblock) \<Rightarrow> int \<Rightarrow> 'o option \<Rightarrow> 'o array_list \<Rightarrow>
    (unit, 'o array_list) outcome" where
  "al_Insert env granted junk index v l =
    (let size = l_size l in
     if index < 0 \<or> size < index then Some (Inl E_OUT_OF_RANGE, l)
     else do {
       (r, l) \<leftarrow> grow_full env granted junk l;
       case r of Inl e \<Rightarrow> Some (Inl e, l)
       | Inr _ \<Rightarrow> do {
           items \<leftarrow> (if index < size then shift_up (l_items l) size (nat (size - index)) else Some (l_items l));
           items \<leftarrow> set_ref items index v;
           Some (Inr (), l\<lparr>l_items := items, l_size := size + 1\<rparr>)
         }
     })"

definition RemoveAt :: "int \<Rightarrow> 'o array_list \<Rightarrow> (unit, 'o array_list) outcome" where
  "RemoveAt index l =
    (let items = l_items l; size = l_size l in
     if index < 0 \<or> size \<le> index then Some (Inl E_OUT_OF_RANGE, l)
     else do {
       items \<leftarrow> (if index < size - 1 then shift_down items index (nat (size - 1 - index)) else Some items);
       items \<leftarrow> set_ref items (size - 1) None;
       Some (Inr (), l\<lparr>l_items := items, l_size := size - 1\<rparr>)
     })"

section \<open>Arrays of objects\<close>

text \<open>
  The array behind a collection holds references. Every operation on it is one on the list \<open>refs\<close>.
\<close>

definition object_type :: "'o type_env \<Rightarrow> u8 \<Rightarrow> bool" where
  "object_type env t \<longleftrightarrow> te_elem env (te_object env) =
       Some \<lparr>et_dataType = t, et_sizeInBytes = 12, et_numeric = False\<rparr> \<and>
     t \<in> {DATATYPE_CLASS, DATATYPE_OBJECT}"

definition max_array :: int where "max_array = 65533"

definition obj_array :: "'o type_env \<Rightarrow> u8 \<Rightarrow> 'o heap_array \<Rightarrow> bool" where
  "obj_array env t a \<longleftrightarrow> array_ok a \<and> reflection a = te_object env \<and> typeOfElement a = t \<and>
     fReference a \<and> sizeOfElement a = 12 \<and> 0 < count a \<and> count a \<le> max_array \<and> object_type env t \<and>
     (\<forall>k<nat (count a). \<exists>v. elements a ! k = Obj v)"

definition deref :: "'o hblock \<Rightarrow> 'o option" where
  "deref b = (case b of Obj v \<Rightarrow> v | _ \<Rightarrow> None)"

definition refs :: "'o heap_array \<Rightarrow> 'o option list" where
  "refs a = map (\<lambda>k. deref (elements a ! k)) [0..<nat (count a)]"

lemma object_types [simp]:
  "DATATYPE_CLASS \<noteq> DATATYPE_VALUETYPE" "DATATYPE_OBJECT \<noteq> DATATYPE_VALUETYPE"
  "DATATYPE_VALUETYPE \<noteq> DATATYPE_CLASS" "DATATYPE_VALUETYPE \<noteq> DATATYPE_OBJECT"
  by (simp_all add: DATATYPE_CLASS_def DATATYPE_OBJECT_def DATATYPE_VALUETYPE_def)

lemma deref_Obj [simp]: "deref (Obj v) = v"
  by (simp add: deref_def)

lemma length_refs [simp]: "length (refs a) = nat (count a)"
  by (simp add: refs_def)

lemma nth_refs: "k < nat (count a) \<Longrightarrow> refs a ! k = deref (elements a ! k)"
  by (simp add: refs_def)

lemma obj_arrayD:
  assumes "obj_array env t a"
  shows "array_ok a" "0 < count a" "count a \<le> max_array" "count a < 2 ^ 30"
    "count a \<le> int (length (elements a))"
  using assms array_ok_count(2) [of a] by (simp_all add: obj_array_def max_array_def)

lemma obj_index:
  assumes "obj_array env t a" "0 \<le> i" "i \<le> count a"
  shows "element_index (sizeOfElement a) i = i" "element_index 12 i = i"
  using element_index_count(1) [OF obj_arrayD(1) [OF assms(1)] assms(2,3)] assms(1)
  by (simp_all add: obj_array_def)

lemma obj_element: "obj_array env t a \<Longrightarrow> k < nat (count a) \<Longrightarrow> elements a ! k = Obj (refs a ! k)"
  by (auto simp: obj_array_def nth_refs)

lemma obj_array_update:
  assumes "obj_array env t a" "length es = length (elements a)"
    "\<And>k. k < nat (count a) \<Longrightarrow> es ! k = Obj (xs ! k)" "length xs = nat (count a)"
  shows "obj_array env t (a\<lparr>elements := es\<rparr>) \<and> refs (a\<lparr>elements := es\<rparr>) = xs"
proof
  show "obj_array env t (a\<lparr>elements := es\<rparr>)" using assms by (auto simp: obj_array_def)
  show "refs (a\<lparr>elements := es\<rparr>) = xs"
    by (rule nth_equalityI) (use assms in \<open>simp_all add: nth_refs\<close>)
qed

lemma obj_get:
  assumes "obj_array env t a" "0 \<le> i" "i < count a"
  shows "get_ref a i = Some (refs a ! nat i)"
  using assms obj_arrayD(5) [OF assms(1)] obj_element [OF assms(1), of "nat i"]
  by (simp add: get_ref_def in_elements_def)

lemma obj_set:
  assumes "obj_array env t a" "0 \<le> i" "i < count a"
  shows "\<exists>a'. set_ref a i v = Some a' \<and> obj_array env t a' \<and> refs a' = (refs a)[nat i := v] \<and>
    count a' = count a \<and> numOfElements a' = numOfElements a"
proof -
  note d = obj_arrayD [OF assms(1)]
  have "obj_array env t (a\<lparr>elements := (elements a)[nat i := Obj v]\<rparr>) \<and>
      refs (a\<lparr>elements := (elements a)[nat i := Obj v]\<rparr>) = (refs a)[nat i := v]"
    by (rule obj_array_update [OF assms(1)])
       (use assms d in \<open>simp_all add: nth_list_update obj_element [OF assms(1)]\<close>)
  then show ?thesis using assms d(5) by (simp add: set_ref_def in_elements_def)
qed

definition blank :: "'a option list \<Rightarrow> int \<Rightarrow> int \<Rightarrow> 'a option list" where
  "blank xs i n = map (\<lambda>k. if i \<le> int k \<and> int k < i + n then None else xs ! k) [0..<length xs]"

lemma length_blank [simp]: "length (blank xs i n) = length xs"
  by (simp add: blank_def)

lemma nth_blank [simp]: "k < length xs \<Longrightarrow>
    blank xs i n ! k = (if i \<le> int k \<and> int k < i + n then None else xs ! k)"
  by (simp add: blank_def)

lemma zeroed_obj: "obj_array env t a \<Longrightarrow> zeroed a = Obj None"
  by (auto simp: obj_array_def zeroed_def object_type_def)

lemma obj_clear:
  assumes "obj_array env t a" "0 \<le> i" "0 \<le> n" "i + n \<le> count a"
  shows "\<exists>a'. ClearElements env a i n = Some (Inr (), a') \<and> obj_array env t a' \<and> refs a' = blank (refs a) i n \<and>
    count a' = count a \<and> numOfElements a' = numOfElements a"
proof -
  note d = obj_arrayD [OF assms(1)]
  have "obj_array env t (a\<lparr>elements := cleared a i n\<rparr>) \<and>
      refs (a\<lparr>elements := cleared a i n\<rparr>) = blank (refs a) i n"
    by (rule obj_array_update [OF assms(1)])
       (use assms d in \<open>simp_all add: obj_element [OF assms(1)] zeroed_obj [OF assms(1)]\<close>)
  moreover have "\<not> fAllocate a" using assms(1) by (auto simp: obj_array_def object_type_def fAllocate_def)
  ultimately show ?thesis using ClearElements_range [OF d(1) _ assms(2-4)] by simp
qed

lemma moved_refs:
  assumes "obj_array env t a" "obj_array env t b"
    "0 \<le> i" "0 \<le> j" "0 \<le> n" "i + n \<le> count a" "j + n \<le> count b"
  shows "obj_array env t (b\<lparr>elements := moved (elements b) j (elements a) i n\<rparr>) \<and>
    refs (b\<lparr>elements := moved (elements b) j (elements a) i n\<rparr>) = moved (refs b) j (refs a) i n"
proof -
  note d = obj_arrayD [OF assms(1)] obj_arrayD [OF assms(2)]
  have *: "moved (elements b) j (elements a) i n ! k = Obj (moved (refs b) j (refs a) i n ! k)"
    if "k < nat (count b)" for k
  proof -
    have "nat (i + (int k - j)) < nat (count a)" if "int k < j + n"
      using that assms(3-7) d(2) by linarith
    then show ?thesis using that d(5,10) by (simp add: obj_element [OF assms(1)] obj_element [OF assms(2)])
  qed
  show ?thesis by (rule obj_array_update [OF assms(2)]) (use * in simp_all)
qed

lemma obj_copy:
  assumes "obj_array env t a" "obj_array env t b"
    "0 \<le> i" "0 \<le> j" "0 \<le> n" "i + n \<le> count a" "j + n \<le> count b"
  shows "\<exists>b'. Array_Copy env False a i b j n = Some (Inr (), b') \<and> obj_array env t b' \<and>
    refs b' = moved (refs b) j (refs a) i n \<and> count b' = count b \<and> numOfElements b' = numOfElements b"
proof -
  have "nat (i + int k) < nat (count a)" "nat (j + int k) < nat (count b)" if "k < nat n" for k
    using that assms(3-7) by linarith+
  then have "one_kind env None (elements a) i (nat n)" "one_kind env None (elements b) j (nat n)"
    by (simp_all add: one_kind_def obj_element [OF assms(1)] obj_element [OF assms(2)])
  then show ?thesis
    using Array_Copy_moves [OF obj_arrayD(1) [OF assms(1)] obj_arrayD(1) [OF assms(2)], of False env None i n j]
      moved_refs [OF assms] assms by (simp add: obj_array_def)
qed

lemma obj_move:
  assumes "obj_array env t a" "obj_array env t b"
    "0 \<le> i" "0 \<le> j" "0 \<le> n" "i + n \<le> count a" "j + n \<le> count b"
  shows "\<exists>es. move_elements (elements b) j (elements a) i n = Some es \<and>
    obj_array env t (b\<lparr>elements := es\<rparr>) \<and> refs (b\<lparr>elements := es\<rparr>) = moved (refs b) j (refs a) i n"
proof -
  have "i + n \<le> int (length (elements a))" "j + n \<le> int (length (elements b))"
    using assms obj_arrayD(5) by fastforce+
  from move_elements_moved [OF assms(5,3,4) this] moved_refs [OF assms] show ?thesis by simp
qed

lemma obj_create:
  assumes "object_type env t" "0 < n" "n < 2 ^ 28"
  shows "if granted \<and> n \<le> max_array
    then \<exists>a. CreateInstance env granted junk (word_of_int n) (te_object env) = Some (Inr a) \<and>
      obj_array env t a \<and> count a = n \<and> refs a = replicate (nat n) None
    else CreateInstance env granted junk (word_of_int n) (te_object env) =
      Some (Inl E_OUT_OF_MEMORY)"
proof -
  let ?et = "\<lparr>et_dataType = t, et_sizeInBytes = 12, et_numeric = False\<rparr>"
  have u: "unat (word_of_int n :: u32) = nat n"
    using assms by (simp add: unsigned_of_int take_bit_int_eq_self)
  have s: "sint (word_of_int n :: u32) = n"
    using assms by (simp add: signed_of_int signed_take_bit_int_eq_self)
  have et: "te_elem env (te_object env) = Some ?et" using assms(1) by (simp add: object_type_def)
  have fits: "unat (word_of_int n :: u32) * unat (et_sizeInBytes ?et) < 2 ^ 32 - 31"
    using assms by (simp add: u)
  have g: "array_granted granted ?et (word_of_int n) \<longleftrightarrow> granted \<and> n \<le> max_array"
    using assms by (auto simp: array_granted_def u max_array_def)
  have v: "\<not> value_array ?et (te_object env)" using assms(1) by (auto simp: object_type_def value_array_def)
  note create = CreateInstance_fits [of env "te_object env" ?et "word_of_int n" granted junk,
    OF et _ _ fits, unfolded g]
  show ?thesis
  proof (cases "granted \<and> n \<le> max_array")
    case True
    let ?a = "new_array env junk ?et (word_of_int n) (te_object env)"
    have ok: "array_ok ?a" "count ?a = n"
      using new_array_ok [of granted ?et "word_of_int n"] g True s assms(2) by auto
    have z: "k < nat n \<Longrightarrow> elements ?a ! k = Obj None" for k
      using array_room_enough [OF fits] assms(1)
      by (auto simp: new_array_def Let_def u v raw_array_def zeroed_def object_type_def)
    have "obj_array env t ?a"
      using ok z True assms by (simp add: obj_array_def new_array_def raw_array_def Let_def)
    moreover have "refs ?a = replicate (nat n) None"
      by (rule nth_equalityI) (use ok z in \<open>simp_all add: nth_refs\<close>)
    ultimately show ?thesis using create True ok s v assms(2) by simp
  next
    case False
    then show ?thesis using create s v assms(2) by auto
  qed
qed

text \<open>The array that a full collection of twice the size moves to.\<close>

lemma obj_double:
  assumes "obj_array env t a"
  shows "if granted \<and> count a * 2 \<le> max_array
    then \<exists>b. CreateInstance env granted junk (word_of_int (count a * 2)) (te_object env) =
        Some (Inr b) \<and>
      obj_array env t b \<and> count b = count a * 2 \<and> refs b = replicate (nat (count a * 2)) None
    else CreateInstance env granted junk (word_of_int (count a * 2)) (te_object env) =
      Some (Inl E_OUT_OF_MEMORY)"
  using obj_create [of env t "count a * 2" granted junk] obj_arrayD(2,3) [OF assms] assms
  by (simp add: max_array_def obj_array_def)

section \<open>Histories\<close>

text \<open>
  A history of operations with their results. \<open>explains\<close> says that the results are those of the list
  operations, except that an operation that \<open>refusable\<close> allows may report that memory is short and
  then changes nothing.
\<close>

fun run_ops :: "('op \<Rightarrow> 's \<Rightarrow> ('r, 's) outcome) \<Rightarrow> 'op list \<Rightarrow> 's \<Rightarrow> ((clr_error + 'r) list \<times> 's) option" where
  "run_ops step [] s = Some ([], s)"
| "run_ops step (op # ops) s = do {
     (r, s) \<leftarrow> step op s;
     (rs, s) \<leftarrow> run_ops step ops s;
     Some (r # rs, s)
   }"

fun explains ::
  "('op \<Rightarrow> 'v list \<Rightarrow> (clr_error + 'r) \<times> 'v list) \<Rightarrow> ('op \<Rightarrow> 'v list \<Rightarrow> bool) \<Rightarrow>
    'v list \<Rightarrow> 'op list \<Rightarrow> (clr_error + 'r) list \<Rightarrow> 'v list \<Rightarrow> bool" where
  "explains spec refusable xs [] [] ys \<longleftrightarrow> xs = ys"
| "explains spec refusable xs (op # ops) (r # rs) ys \<longleftrightarrow>
     r = fst (spec op xs) \<and> explains spec refusable (snd (spec op xs)) ops rs ys \<or>
     r = Inl E_OUT_OF_MEMORY \<and> refusable op xs \<and> explains spec refusable xs ops rs ys"
| "explains spec refusable xs _ _ ys \<longleftrightarrow> False"

locale collection =
  fixes ok :: "'s \<Rightarrow> bool"
    and contents :: "'s \<Rightarrow> 'v list"
    and step :: "'op \<Rightarrow> 's \<Rightarrow> ('r, 's) outcome"
    and spec :: "'op \<Rightarrow> 'v list \<Rightarrow> (clr_error + 'r) \<times> 'v list"
    and refusable :: "'op \<Rightarrow> 'v list \<Rightarrow> bool"
    and valid :: "'op \<Rightarrow> bool"
  assumes step_spec: "ok s \<Longrightarrow> valid op \<Longrightarrow> \<exists>r s'. step op s = Some (r, s') \<and> ok s' \<and>
      ((r, contents s') = spec op (contents s) \<or>
       r = Inl E_OUT_OF_MEMORY \<and> contents s' = contents s \<and> refusable op (contents s))"
begin

lemma history:
  assumes "ok s" "\<forall>op \<in> set ops. valid op"
  shows "\<exists>rs s'. run_ops step ops s = Some (rs, s') \<and> ok s' \<and>
    explains spec refusable (contents s) ops rs (contents s')"
  using assms
proof (induction ops arbitrary: s)
  case (Cons op ops)
  from Cons.prems have op: "valid op" "\<forall>op \<in> set ops. valid op" by simp_all
  from step_spec [OF Cons.prems(1) op(1)] obtain r s1 where r: "step op s = Some (r, s1)" "ok s1"
    "(r, contents s1) = spec op (contents s) \<or>
     r = Inl E_OUT_OF_MEMORY \<and> contents s1 = contents s \<and> refusable op (contents s)" by blast
  from Cons.IH [OF r(2) op(2)] obtain rs s' where s': "run_ops step ops s1 = Some (rs, s')" "ok s'"
    "explains spec refusable (contents s1) ops rs (contents s')" by blast
  have "explains spec refusable (contents s) (op # ops) (r # rs) (contents s')"
    using r(3) s'(3) by (cases "spec op (contents s)") auto
  then show ?case using r s' by simp
qed simp

end

section \<open>The queue is first in, first out\<close>

definition q_ok :: "'o type_env \<Rightarrow> u8 \<Rightarrow> 'o obj_queue \<Rightarrow> bool" where
  "q_ok env t q \<longleftrightarrow> obj_array env t (q_array q) \<and> 0 \<le> q_head q \<and> q_head q < count (q_array q) \<and>
     0 \<le> q_size q \<and> q_size q \<le> count (q_array q) \<and>
     q_tail q = int (ring_idx (nat (count (q_array q))) (nat (q_head q)) (nat (q_size q)))"

definition q_contents :: "'o obj_queue \<Rightarrow> 'o option list" where
  "q_contents q = map (\<lambda>i. refs (q_array q) ! ring_idx (nat (count (q_array q))) (nat (q_head q)) i)
     [0..<nat (q_size q)]"

lemma length_q_contents [simp]: "length (q_contents q) = nat (q_size q)"
  by (simp add: q_contents_def)

lemma q_okD:
  assumes "q_ok env t q"
  shows "obj_array env t (q_array q)" "0 \<le> q_head q" "q_head q < count (q_array q)" "0 \<le> q_size q"
    "q_size q \<le> count (q_array q)" "0 < nat (count (q_array q))" "nat (q_head q) < nat (count (q_array q))"
    "q_tail q = int (ring_idx (nat (count (q_array q))) (nat (q_head q)) (nat (q_size q)))"
    "0 \<le> q_tail q" "q_tail q < count (q_array q)" "count (q_array q) < 2 ^ 30"
proof -
  show *: "obj_array env t (q_array q)" "0 \<le> q_head q" "q_head q < count (q_array q)" "0 \<le> q_size q"
    "q_size q \<le> count (q_array q)"
    "q_tail q = int (ring_idx (nat (count (q_array q))) (nat (q_head q)) (nat (q_size q)))"
    using assms by (simp_all add: q_ok_def)
  then show n: "0 < nat (count (q_array q))" "nat (q_head q) < nat (count (q_array q))" by auto
  show "0 \<le> q_tail q" using *(6) by simp
  show "q_tail q < count (q_array q)"
    using *(6) ring_idx_less [OF n(1), of "nat (q_head q)" "nat (q_size q)"] by linarith
  show "count (q_array q) < 2 ^ 30" using obj_arrayD(4) [OF *(1)] .
qed

lemma uint_of_small_int: "0 \<le> x \<Longrightarrow> x < 2 ^ 32 \<Longrightarrow> uint (word_of_int x :: u32) = x"
  by (simp add: unsigned_of_int take_bit_int_eq_self)

lemma umod_next:
  assumes "0 \<le> i" "i < count a" "array_ok a"
  shows "umod (i + 1) (numOfElements a) = (i + 1) mod count a"
proof -
  have c: "uint (numOfElements a) = count a" "count a < 2 ^ 31" using array_ok_count [OF assms(3)] by simp_all
  have "uint (word_of_int (i + 1) :: u32) = i + 1"
    using assms c(2) by (intro uint_of_small_int) auto
  then show ?thesis by (simp add: umod_def uint_mod c(1))
qed

lemma ring_idx_int:
  assumes "0 \<le> h" "h < n" "0 \<le> k" "k \<le> n"
  shows "int (ring_idx (nat n) (nat h) (nat k)) = (if h + k < n then h + k else h + k - n)"
proof (cases "k = n")
  case True
  have "(nat h + nat n) mod nat n = nat h" using assms by simp
  then show ?thesis using assms True by (simp add: ring_idx_def)
next
  case False
  show ?thesis
  proof (cases "h + k < n")
    case lt: True
    then have "nat h + nat k < nat n" using assms by linarith
    then show ?thesis using lt assms by (simp add: ring_idx_no_wrap)
  next
    case ge: False
    then have "nat n \<le> nat h + nat k" "nat h < nat n" "nat k < nat n" using assms False by linarith+
    then show ?thesis using ge assms by (simp add: ring_idx_wrap of_nat_diff)
  qed
qed

lemma ring_next: "0 \<le> i \<Longrightarrow> i < n \<Longrightarrow> nat ((i + 1) mod n) = ring_idx (nat n) (nat i) 1"
  by (simp add: ring_idx_def nat_mod_distrib nat_add_distrib)

lemma Dequeue_ok:
  assumes "q_ok env t q"
  shows "case q_contents q of
      [] \<Rightarrow> Dequeue q = Some (Inl E_INVALID_OPERATION, q)
    | x # xs \<Rightarrow> \<exists>q'. Dequeue q = Some (Inr x, q') \<and> q_ok env t q' \<and> q_contents q' = xs"
proof (cases "q_size q = 0")
  case True
  then show ?thesis by (simp add: q_contents_def Dequeue_def)
next
  case False
  note d = q_okD [OF assms]
  define n where "n = nat (count (q_array q))"
  define h where "h = nat (q_head q)"
  obtain m where m: "nat (q_size q) = Suc m" using False d(4) by (cases "nat (q_size q)") auto
  obtain a where a: "set_ref (q_array q) (q_head q) None = Some a" "obj_array env t a"
    "refs a = (refs (q_array q))[h := None]" "count a = count (q_array q)"
    "numOfElements a = numOfElements (q_array q)"
    using obj_set [OF d(1-3), of None] by (auto simp: h_def)
  define q' where "q' = q\<lparr>q_array := a, q_head := umod (q_head q + 1) (numOfElements a), q_size := q_size q - 1\<rparr>"
  have head: "q_head q' = (q_head q + 1) mod count (q_array q)"
    using umod_next [OF d(2,3) obj_arrayD(1) [OF d(1)]] by (simp add: q'_def a(5))
  have h': "nat (q_head q') = ring_idx n h 1" unfolding head n_def h_def using ring_next [OF d(2,3)] .
  have size: "nat (q_size q') = m" using m d(4) by (simp add: q'_def)
  have deq: "Dequeue q = Some (Inr (refs (q_array q) ! h), q')"
    using False obj_get [OF d(1-3)] a(1) by (simp add: Dequeue_def Let_def h_def q'_def)
  have "q_ok env t q'"
    unfolding q_ok_def
  proof (intro conjI)
    show "obj_array env t (q_array q')" using a(2) by (simp add: q'_def)
    show "0 \<le> q_head q'" "q_head q' < count (q_array q')" using d(3,6) a(4) head by (simp_all add: q'_def)
    show "0 \<le> q_size q'" "q_size q' \<le> count (q_array q')" using m d(4,5) a(4) by (simp_all add: q'_def)
    show "q_tail q' = int (ring_idx (nat (count (q_array q'))) (nat (q_head q')) (nat (q_size q')))"
      unfolding h' size using d(8) m by (simp add: q'_def a(4) n_def [symmetric] h_def [symmetric] ring_idx_shift)
  qed
  moreover have "q_contents q = refs (q_array q) ! h # q_contents q'"
  proof -
    have ne: "h \<noteq> ring_idx n h (Suc i)" if "i < m" for i
    proof
      assume "h = ring_idx n h (Suc i)"
      then have "ring_idx n h (Suc i) = ring_idx n h 0" using d(7) by (simp add: h_def n_def)
      moreover have "Suc i < n" using that m d(5) by (simp add: n_def)
      ultimately show False using ring_idx_inj [of h n "Suc i" 0] d(6,7) by (simp add: h_def n_def)
    qed
    then show ?thesis
      using d(7) unfolding q_contents_def m h' size map_upt_Suc_shift
      by (simp add: q'_def a(3,4) n_def [symmetric] h_def [symmetric] ring_idx_shift)
  qed
  ultimately show ?thesis using deq by simp
qed

lemma queue_Peek_ok:
  assumes "q_ok env t q"
  shows "queue_Peek q = Some (case q_contents q of [] \<Rightarrow> Inl E_INVALID_OPERATION | x # xs \<Rightarrow> Inr x, q)"
proof (cases "nat (q_size q)")
  case 0
  then have "q_size q = 0" using q_okD(4) [OF assms] by simp
  then show ?thesis by (simp add: queue_Peek_def q_contents_def)
next
  case (Suc m)
  note d = q_okD [OF assms]
  have "q_contents q = refs (q_array q) ! nat (q_head q) # tl (q_contents q)"
    using d(7) unfolding q_contents_def Suc map_upt_Suc_shift by simp
  then show ?thesis using Suc obj_get [OF d(1-3)] by (cases "q_contents q") (auto simp: queue_Peek_def)
qed

text \<open>The elements of a queue lie in one run, or in two when it wraps.\<close>

lemma q_tail_int:
  assumes "q_ok env t q"
  shows "q_tail q = (if q_head q + q_size q < count (q_array q) then q_head q + q_size q
    else q_head q + q_size q - count (q_array q))"
  using ring_idx_int [of "q_head q" "count (q_array q)" "q_size q"] q_okD [OF assms] by simp

lemma q_one_run:
  assumes "q_ok env t q" "0 < q_size q" "q_head q < q_tail q"
  shows "q_head q + q_size q \<le> count (q_array q)"
  using q_tail_int [OF assms(1)] q_okD(5) [OF assms(1)] assms(3) by (auto split: if_splits)

lemma q_two_runs:
  assumes "q_ok env t q" "0 < q_size q" "q_tail q \<le> q_head q"
  shows "q_tail q = q_head q + q_size q - count (q_array q)" "count (q_array q) \<le> q_head q + q_size q"
  using q_tail_int [OF assms(1)] assms(2,3) by (auto split: if_splits)

lemma q_contents_nth:
  assumes "q_ok env t q" "k < nat (q_size q)"
  shows "q_contents q ! k = refs (q_array q) !
    nat (if q_head q + int k < count (q_array q) then q_head q + int k
      else q_head q + int k - count (q_array q))"
proof -
  have "int (ring_idx (nat (count (q_array q))) (nat (q_head q)) (nat (int k))) =
      (if q_head q + int k < count (q_array q) then q_head q + int k
       else q_head q + int k - count (q_array q))"
    using q_okD [OF assms(1)] assms(2) by (intro ring_idx_int) auto
  from arg_cong [OF this, of nat] have eq: "ring_idx (nat (count (q_array q))) (nat (q_head q)) k =
      nat (if q_head q + int k < count (q_array q) then q_head q + int k
       else q_head q + int k - count (q_array q))"
    by (simp only: nat_int)
  have "q_contents q ! k = refs (q_array q) ! ring_idx (nat (count (q_array q))) (nat (q_head q)) k"
    using assms(2) by (simp only: q_contents_def nth_map_upt diff_zero add_0)
  then show ?thesis unfolding eq .
qed

lemma queue_Clear_ok:
  assumes "q_ok env t q"
  shows "\<exists>q'. queue_Clear env q = Some (Inr (), q') \<and> q_ok env t q' \<and> q_contents q' = []"
proof -
  note d = q_okD [OF assms]
  let ?a = "q_array q"
  have sint: "sint (numOfElements ?a) = count ?a" by (simp add: count_def)
  have empty: "q_ok env t (q\<lparr>q_array := a, q_size := 0, q_head := 0, q_tail := 0\<rparr>)"
    if "obj_array env t a" "count a = count ?a" for a
    using that d(3,2) by (simp add: q_ok_def ring_idx_def)
  consider "q_size q = 0" | "0 < q_size q" "q_head q < q_tail q" | "0 < q_size q" "q_tail q \<le> q_head q"
    using d(4) by linarith
  then show ?thesis
  proof cases
    case 1
    then have "q\<lparr>q_array := ?a, q_size := 0, q_head := 0, q_tail := 0\<rparr> = q\<lparr>q_head := 0, q_tail := 0\<rparr>"
      by (cases q) simp
    then have "q_ok env t (q\<lparr>q_head := 0, q_tail := 0\<rparr>)" using empty [OF d(1) refl] by metis
    then show ?thesis using 1 by (simp add: queue_Clear_def q_contents_def)
  next
    case 2
    from obj_clear [OF d(1,2,4) q_one_run [OF assms 2]] obtain a where
      "ClearElements env ?a (q_head q) (q_size q) = Some (Inr (), a)" "obj_array env t a" "count a = count ?a" by blast
    then show ?thesis using 2 empty [of a] by (simp add: queue_Clear_def Let_def q_contents_def)
  next
    case 3
    from obj_clear [OF d(1,2), of "count ?a - q_head q"] d(3) obtain a where
      a: "ClearElements env ?a (q_head q) (count ?a - q_head q) = Some (Inr (), a)" "obj_array env t a" "count a = count ?a"
      by auto
    from obj_clear [OF a(2), of 0 "q_tail q"] d(9,10) a(3) obtain b where
      b: "ClearElements env a 0 (q_tail q) = Some (Inr (), b)" "obj_array env t b" "count b = count ?a" by auto
    show ?thesis using 3 a(1) b(1) empty [OF b(2,3)] by (simp add: queue_Clear_def Let_def q_contents_def sint)
  qed
qed

lemma CopyTo_ok:
  assumes "q_ok env t q" "t \<noteq> DATATYPE_OBJECT" "obj_array env t b" "0 \<le> j" "j + q_size q \<le> count b"
  shows "\<exists>b'. CopyTo env q b j = Some (Inr (), q_array q, b') \<and> obj_array env t b' \<and> count b' = count b \<and>
    refs b' = moved (refs b) j (q_contents q) 0 (q_size q)"
proof -
  note d = q_okD [OF assms(1)]
  let ?a = "q_array q"
  have sint: "sint (numOfElements x) = count x" for x :: "'a heap_array" by (simp add: count_def)
  have guard: "\<not> s32 (count b - j) < q_size q"
  proof -
    have "s32 (count b - j) = count b - j"
      using assms(4,5) d(4) obj_arrayD(4) [OF assms(3)] by (intro s32_id) auto
    then show ?thesis using assms(5) by simp
  qed
  have copy: "array_copy env ?a i x k n = map_option (\<lambda>(r, x'). (r, ?a, x')) (Array_Copy env False ?a i x k n)"
    if "obj_array env t x" for x i k n
  proof -
    have "typeOfElement x \<noteq> DATATYPE_OBJECT" using that assms(2) unfolding obj_array_def by blast
    then show ?thesis by (simp add: array_copy_def)
  qed
  consider "q_size q = 0" | "0 < q_size q" "q_head q < q_tail q" | "0 < q_size q" "q_tail q \<le> q_head q"
    using d(4) by linarith
  then show ?thesis
  proof cases
    case 1
    then show ?thesis using guard assms(3) by (simp add: CopyTo_def Let_def sint)
  next
    case 2
    note run = q_one_run [OF assms(1) 2]
    from obj_copy [OF d(1) assms(3) d(2) assms(4) d(4) run assms(5)] obtain b' where
      b': "Array_Copy env False ?a (q_head q) b j (q_size q) = Some (Inr (), b')" "obj_array env t b'"
      "refs b' = moved (refs b) j (refs ?a) (q_head q) (q_size q)" "count b' = count b" by blast
    have "refs b' = moved (refs b) j (q_contents q) 0 (q_size q)"
      unfolding b'(3)
    proof (rule nth_equalityI)
      fix k assume "k < length (moved (refs b) j (refs ?a) (q_head q) (q_size q))"
      then show "moved (refs b) j (refs ?a) (q_head q) (q_size q) ! k = moved (refs b) j (q_contents q) 0 (q_size q) ! k"
        using q_contents_nth [OF assms(1), of "nat (int k - j)"] run by auto
    qed simp
    then show ?thesis using 2 guard b' copy [OF assms(3)] by (simp add: CopyTo_def Let_def sint)
  next
    case 3
    note run = q_two_runs [OF assms(1) 3]
    let ?f = "count ?a - q_head q"
    from obj_copy [OF d(1) assms(3) d(2) assms(4), of ?f] d(3) run(2) assms(5) obtain b1 where
      b1: "Array_Copy env False ?a (q_head q) b j ?f = Some (Inr (), b1)" "obj_array env t b1"
      "refs b1 = moved (refs b) j (refs ?a) (q_head q) ?f" "count b1 = count b" by auto
    from obj_copy [OF d(1) b1(2), of 0 "j + ?f" "q_tail q"] d(3,9,10) run assms(4,5) b1(4) obtain b2 where
      b2: "Array_Copy env False ?a 0 b1 (j + ?f) (q_tail q) = Some (Inr (), b2)" "obj_array env t b2"
      "refs b2 = moved (refs b1) (j + ?f) (refs ?a) 0 (q_tail q)" "count b2 = count b" by auto
    have s: "s32 (j + ?f) = j + ?f"
      using assms(4,5) run(2) d(3) obj_arrayD(4) [OF assms(3)] by (intro s32_id) auto
    have "refs b2 = moved (refs b) j (q_contents q) 0 (q_size q)"
      unfolding b2(3)
    proof (rule nth_equalityI)
      fix k assume "k < length (moved (refs b1) (j + ?f) (refs ?a) 0 (q_tail q))"
      then have k: "k < length (refs b)" using b1(4) by simp
      show "moved (refs b1) (j + ?f) (refs ?a) 0 (q_tail q) ! k = moved (refs b) j (q_contents q) 0 (q_size q) ! k"
        using k q_contents_nth [OF assms(1), of "nat (int k - j)"] run d(3) by (auto simp: b1(3,4) algebra_simps)
    qed (simp add: b1(4))
    then show ?thesis using 3 guard b1(1) b2 copy [OF assms(3)] copy [OF b1(2)] s
      by (simp add: CopyTo_def Let_def sint)
  qed
qed

text \<open>Storing at the tail of a queue that is not full.\<close>

lemma enqueue_at_ok:
  assumes "q_ok env t q" "q_size q < count (q_array q)"
  shows "\<exists>q'. enqueue_at v (q_tail q) (count (q_array q)) q = Some (Inr (), q') \<and> q_ok env t q' \<and>
    q_contents q' = q_contents q @ [v]"
proof -
  note d = q_okD [OF assms(1)]
  define n where "n = nat (count (q_array q))"
  define h where "h = nat (q_head q)"
  define m where "m = nat (q_size q)"
  have m: "m < n" "h < n" using assms(2) d(4,7) by (simp_all add: m_def n_def h_def)
  have tail: "q_tail q = int (ring_idx n h m)" using d(8) by (simp add: n_def h_def m_def)
  obtain a where a: "set_ref (q_array q) (q_tail q) v = Some a" "obj_array env t a"
    "refs a = (refs (q_array q))[ring_idx n h m := v]" "count a = count (q_array q)"
    using obj_set [OF d(1,9,10), of v] by (auto simp: tail)
  define q' where "q' = q\<lparr>q_array := a, q_tail := c_mod (q_tail q + 1) (count (q_array q)),
    q_size := q_size q + 1\<rparr>"
  have "q_tail q' = int (ring_idx n h (Suc m))"
  proof -
    have "q_tail q' = (q_tail q + 1) mod count (q_array q)"
      using d(9,10) by (simp add: q'_def)
    also have "\<dots> = int ((ring_idx n h m + 1) mod n)"
      using d(6) by (simp add: tail n_def zmod_int add.commute)
    also have "(ring_idx n h m + 1) mod n = ring_idx n h (Suc m)"
      by (simp add: ring_idx_def mod_Suc_eq)
    finally show ?thesis .
  qed
  then have ok: "q_ok env t q'"
    using d(2-5) assms(2) a(2,4) by (simp add: q_ok_def q'_def n_def h_def m_def nat_add_distrib)
  have "q_contents q' = q_contents q @ [v]"
  proof -
    have ne: "ring_idx n h m \<noteq> ring_idx n h i" if "i < m" for i
      using ring_idx_inj [of h n m i] m that by auto
    have size: "nat (q_size q') = Suc m" using d(4) by (simp add: q'_def m_def)
    have "ring_idx n h m < length (refs (q_array q))" using m by (simp add: n_def)
    then show ?thesis
      unfolding q_contents_def size by (simp add: q'_def a(3,4) n_def [symmetric] h_def [symmetric] m_def [symmetric] ne)
  qed
  then show ?thesis using ok a(1) by (simp add: enqueue_at_def q'_def)
qed

lemma Enqueue_ok:
  assumes "q_ok env t q" "t \<noteq> DATATYPE_OBJECT"
  shows "if q_size q < count (q_array q) \<or> granted \<and> 2 * q_size q \<le> max_array
    then \<exists>q'. Enqueue env granted junk v q = Some (Inr (), q') \<and> q_ok env t q' \<and>
      q_contents q' = q_contents q @ [v]
    else Enqueue env granted junk v q = Some (Inl E_OUT_OF_MEMORY, q)"
proof (cases "q_size q < count (q_array q)")
  case True
  then show ?thesis using enqueue_at_ok [OF assms(1) True, of v] by (simp add: Enqueue_def count_def)
next
  case False
  note d = q_okD [OF assms(1)]
  let ?n = "count (q_array q)"
  have full: "q_size q = ?n" using False d(5) by simp
  have n: "0 < ?n" "?n < 2 ^ 30" "?n \<le> max_array" using obj_arrayD [OF d(1)] by simp_all
  have s: "s32 (?n * 2) = ?n * 2" using n by (intro s32_id) auto
  note create = obj_double [OF d(1), of granted junk]
  show ?thesis
  proof (cases "granted \<and> ?n * 2 \<le> max_array")
    case True
    with create obtain b where b: "CreateInstance env granted junk (word_of_int (?n * 2)) (te_object env) = Some (Inr b)"
      "obj_array env t b" "count b = ?n * 2" "refs b = replicate (nat (?n * 2)) None" by auto
    from CopyTo_ok [OF assms b(2), of 0] full n b(3) obtain c where
      c: "CopyTo env q b 0 = Some (Inr (), q_array q, c)" "obj_array env t c" "count c = ?n * 2"
      "refs c = moved (refs b) 0 (q_contents q) 0 ?n" by auto
    define q1 where "q1 = q\<lparr>q_array := c, q_head := 0, q_tail := ?n\<rparr>"
    have ok1: "q_ok env t q1"
      using c(2,3) n full by (simp add: q1_def q_ok_def ring_idx_def nat_mult_distrib)
    have lt: "nat ?n < nat (?n * 2)" using n(1) by simp
    have "q_contents q1 = q_contents q"
    proof (rule nth_equalityI)
      fix k assume "k < length (q_contents q1)"
      then have k: "k < nat ?n" "int k < ?n" by (simp_all add: q1_def full)
      have "q_contents q1 ! k = refs c ! k"
        using q_contents_nth [OF ok1, of k] k n(1) c(3) full by (simp add: q1_def)
      then show "q_contents q1 ! k = q_contents q ! k"
        using k n(1) c(4) b(3) by simp
    qed (simp add: q1_def)
    moreover have "q_size q1 < count (q_array q1)" "q_tail q1 = ?n" "count (q_array q1) = ?n * 2"
      using n(1) full c(3) by (simp_all add: q1_def)
    ultimately obtain q' where "enqueue_at v ?n (?n * 2) q1 = Some (Inr (), q')" "q_ok env t q'"
      "q_contents q' = q_contents q @ [v]"
      using enqueue_at_ok [OF ok1, of v] by auto
    then show ?thesis
      using True b(1) c(1) full s by (simp add: Enqueue_def count_def [symmetric] q1_def)
  next
    case no: False
    then show ?thesis using False create full s by (auto simp: Enqueue_def count_def [symmetric])
  qed
qed

subsection \<open>Histories of a queue\<close>

datatype 'o queue_op = OpEnqueue bool "'o option" | OpDequeue | OpPeek | OpClear

fun queue_step ::
  "'o type_env \<Rightarrow> (nat \<Rightarrow> 'o hblock) \<Rightarrow> 'o queue_op \<Rightarrow> 'o obj_queue \<Rightarrow> ('o option option, 'o obj_queue) outcome" where
  "queue_step env junk (OpEnqueue granted v) q =
     map_option (map_prod (map_sum id (\<lambda>_. None)) id) (Enqueue env granted junk v q)"
| "queue_step env junk OpDequeue q = map_option (map_prod (map_sum id Some) id) (Dequeue q)"
| "queue_step env junk OpPeek q = map_option (map_prod (map_sum id Some) id) (queue_Peek q)"
| "queue_step env junk OpClear q = map_option (map_prod (map_sum id (\<lambda>_. None)) id) (queue_Clear env q)"

fun queue_spec :: "'o queue_op \<Rightarrow> 'o option list \<Rightarrow> (clr_error + 'o option option) \<times> 'o option list" where
  "queue_spec (OpEnqueue granted v) xs = (Inr None, xs @ [v])"
| "queue_spec OpDequeue xs =
     (case xs of [] \<Rightarrow> (Inl E_INVALID_OPERATION, []) | y # ys \<Rightarrow> (Inr (Some y), ys))"
| "queue_spec OpPeek xs =
     (case xs of [] \<Rightarrow> (Inl E_INVALID_OPERATION, []) | y # ys \<Rightarrow> (Inr (Some y), xs))"
| "queue_spec OpClear xs = (Inr None, [])"

text \<open>Only an array that has to grow is refused: without memory, or beyond the longest array.\<close>

fun queue_refusable :: "'o queue_op \<Rightarrow> 'o option list \<Rightarrow> bool" where
  "queue_refusable (OpEnqueue granted v) xs \<longleftrightarrow> 0 < length xs \<and> (granted \<longrightarrow> max_array < 2 * int (length xs))"
| "queue_refusable _ xs \<longleftrightarrow> False"

interpretation fifo: collection "q_ok env DATATYPE_CLASS" q_contents "queue_step env junk" queue_spec
  queue_refusable "\<lambda>op. True" for env junk
proof
  fix q :: "'o obj_queue" and op :: "'o queue_op" and env :: "'o type_env" and junk :: "nat \<Rightarrow> 'o hblock"
  assume ok: "q_ok env DATATYPE_CLASS q"
  note d = q_okD [OF ok]
  have ne: "DATATYPE_CLASS \<noteq> DATATYPE_OBJECT" by (simp add: DATATYPE_CLASS_def DATATYPE_OBJECT_def)
  show "\<exists>r q'. queue_step env junk op q = Some (r, q') \<and> q_ok env DATATYPE_CLASS q' \<and>
      ((r, q_contents q') = queue_spec op (q_contents q) \<or>
       r = Inl E_OUT_OF_MEMORY \<and> q_contents q' = q_contents q \<and> queue_refusable op (q_contents q))"
  proof (cases op)
    case (OpEnqueue granted v)
    show ?thesis
    proof (cases "q_size q < count (q_array q) \<or> granted \<and> 2 * q_size q \<le> max_array")
      case True
      then show ?thesis using Enqueue_ok [OF ok ne, of granted junk v] OpEnqueue by auto
    next
      case False
      then have "queue_refusable op (q_contents q)"
        using OpEnqueue d(3,4) obj_arrayD(2) [OF d(1)] by auto
      then show ?thesis using Enqueue_ok [OF ok ne, of granted junk v] False OpEnqueue ok by auto
    qed
  next
    case OpDequeue
    then show ?thesis using Dequeue_ok [OF ok] ok by (cases "q_contents q") auto
  next
    case OpPeek
    then show ?thesis using queue_Peek_ok [OF ok] ok by (cases "q_contents q") auto
  next
    case OpClear
    then show ?thesis using queue_Clear_ok [OF ok] by auto
  qed
qed

section \<open>The stack is last in, first out\<close>

definition s_ok :: "'o type_env \<Rightarrow> u8 \<Rightarrow> 'o obj_stack \<Rightarrow> bool" where
  "s_ok env t s \<longleftrightarrow> obj_array env t (s_array s) \<and> 0 \<le> s_size s \<and> s_size s \<le> count (s_array s)"

text \<open>The array is filled from its end; the first element is the top.\<close>

definition s_contents :: "'o obj_stack \<Rightarrow> 'o option list" where
  "s_contents s = drop (nat (count (s_array s) - s_size s)) (refs (s_array s))"

lemma s_okD:
  assumes "s_ok env t s"
  shows "obj_array env t (s_array s)" "0 \<le> s_size s" "s_size s \<le> count (s_array s)"
    "0 < count (s_array s)" "count (s_array s) < 2 ^ 30" "object_type env t"
  using assms obj_arrayD(4) [of env t "s_array s"] by (auto simp: s_ok_def obj_array_def)

lemma length_s_contents: "s_ok env t s \<Longrightarrow> length (s_contents s) = nat (s_size s)"
  using s_okD(2,3) [of env t s] by (simp add: s_contents_def)

lemma s_contents_Cons:
  assumes "s_ok env t s" "s_size s \<noteq> 0"
  shows "s_contents s = refs (s_array s) ! nat (count (s_array s) - s_size s) #
    drop (nat (count (s_array s) - (s_size s - 1))) (refs (s_array s))"
proof -
  note d = s_okD [OF assms(1)]
  have "nat (count (s_array s) - s_size s) < length (refs (s_array s))"
    "nat (count (s_array s) - (s_size s - 1)) = Suc (nat (count (s_array s) - s_size s))"
    using d assms(2) by auto
  then show ?thesis by (simp only: s_contents_def Cons_nth_drop_Suc)
qed

lemma s_contents_Nil: "s_size s = 0 \<Longrightarrow> s_contents s = []"
  by (simp add: s_contents_def)

lemma Pop_ok:
  assumes "s_ok env t s"
  shows "case s_contents s of
      [] \<Rightarrow> Pop s = Some (Inl E_INVALID_OPERATION, s)
    | x # xs \<Rightarrow> \<exists>s'. Pop s = Some (Inr x, s') \<and> s_ok env t s' \<and> s_contents s' = xs"
proof (cases "s_size s = 0")
  case True
  then show ?thesis by (simp add: s_contents_Nil Pop_def)
next
  case False
  note d = s_okD [OF assms]
  let ?top = "count (s_array s) - s_size s"
  have top: "0 \<le> ?top" "?top < count (s_array s)" using d(2,3) False by auto
  obtain a where a: "set_ref (s_array s) ?top None = Some a" "obj_array env t a"
    "refs a = (refs (s_array s))[nat ?top := None]" "count a = count (s_array s)"
    using obj_set [OF d(1) top, of None] by auto
  define s' where "s' = s\<lparr>s_array := a, s_size := s_size s - 1\<rparr>"
  have "Pop s = Some (Inr (refs (s_array s) ! nat ?top), s')"
    using False obj_get [OF d(1) top] a(1) by (simp add: Pop_def Let_def s'_def count_def [symmetric])
  moreover have "s_ok env t s'" using a d False by (simp add: s_ok_def s'_def)
  moreover have "s_contents s' = drop (nat (count (s_array s) - (s_size s - 1))) (refs (s_array s))"
    using top(1) by (simp add: s_contents_def s'_def a(3,4))
  ultimately show ?thesis unfolding s_contents_Cons [OF assms False] by simp
qed

lemma stack_Peek_ok:
  assumes "s_ok env t s"
  shows "stack_Peek s = Some (case s_contents s of [] \<Rightarrow> Inl E_INVALID_OPERATION | x # xs \<Rightarrow> Inr x, s)"
proof (cases "s_size s = 0")
  case True
  then show ?thesis by (simp add: s_contents_Nil stack_Peek_def)
next
  case False
  note d = s_okD [OF assms]
  have "get_ref (s_array s) (count (s_array s) - s_size s) =
      Some (refs (s_array s) ! nat (count (s_array s) - s_size s))"
    using d False by (intro obj_get) auto
  then show ?thesis unfolding s_contents_Cons [OF assms False]
    using False by (simp add: stack_Peek_def count_def [symmetric])
qed

lemma stack_Clear_ok:
  assumes "s_ok env t s"
  shows "\<exists>s'. stack_Clear env s = Some (Inr (), s') \<and> s_ok env t s' \<and> s_contents s' = []"
proof -
  note d = s_okD [OF assms]
  from obj_clear [OF d(1), of "count (s_array s) - s_size s" "s_size s"] d(2,3) obtain a where
    "ClearElements env (s_array s) (count (s_array s) - s_size s) (s_size s) = Some (Inr (), a)" "obj_array env t a" by auto
  then show ?thesis using obj_arrayD(2) [of env t a]
    by (simp add: stack_Clear_def count_def [symmetric] s_ok_def s_contents_Nil)
qed

lemma push_at_ok:
  assumes "s_ok env t s" "s_size s < count (s_array s)"
  shows "\<exists>s'. push_at v (s_size s) (count (s_array s)) s = Some (Inr (), s') \<and> s_ok env t s' \<and>
    s_contents s' = v # s_contents s"
proof -
  note d = s_okD [OF assms(1)]
  let ?i = "count (s_array s) - (s_size s + 1)"
  have i: "0 \<le> ?i" "?i < count (s_array s)" using d assms(2) by auto
  obtain a where a: "set_ref (s_array s) ?i v = Some a" "obj_array env t a"
    "refs a = (refs (s_array s))[nat ?i := v]" "count a = count (s_array s)"
    using obj_set [OF d(1) i, of v] by auto
  define s' where "s' = s\<lparr>s_array := a, s_size := s_size s + 1\<rparr>"
  have ok: "s_ok env t s'" using a d assms(2) by (simp add: s_ok_def s'_def)
  have "s_size s' \<noteq> 0" using d(2) by (simp add: s'_def)
  from s_contents_Cons [OF ok this] have "s_contents s' = v # s_contents s"
    using i by (simp add: s'_def a(3,4) s_contents_def)
  then show ?thesis using ok a(1) by (simp add: push_at_def s'_def)
qed

lemma Push_ok:
  assumes "s_ok env t s"
  shows "if s_size s < count (s_array s) \<or> granted \<and> 2 * s_size s \<le> max_array
    then \<exists>s'. Push env granted junk v s = Some (Inr (), s') \<and> s_ok env t s' \<and>
      s_contents s' = v # s_contents s
    else Push env granted junk v s = Some (Inl E_OUT_OF_MEMORY, s)"
proof (cases "s_size s < count (s_array s)")
  case True
  then show ?thesis using push_at_ok [OF assms True, of v] by (simp add: Push_def count_def)
next
  case False
  note d = s_okD [OF assms]
  let ?n = "count (s_array s)"
  have full: "s_size s = ?n" using False d(3) by simp
  have s2: "s32 (?n * 2) = ?n * 2" using d by (intro s32_id) auto
  note create = obj_double [OF d(1), of granted junk]
  show ?thesis
  proof (cases "granted \<and> ?n * 2 \<le> max_array")
    case True
    with create obtain b where b: "CreateInstance env granted junk (word_of_int (?n * 2)) (te_object env) = Some (Inr b)"
      "obj_array env t b" "count b = ?n * 2" "refs b = replicate (nat (?n * 2)) None" by auto
    from obj_move [OF d(1) b(2), of 0 ?n ?n] d(4) b(3) obtain es where
      es: "move_elements (elements b) ?n (elements (s_array s)) 0 ?n = Some es"
      "obj_array env t (b\<lparr>elements := es\<rparr>)"
      "refs (b\<lparr>elements := es\<rparr>) = moved (refs b) ?n (refs (s_array s)) 0 ?n" by auto
    define s1 where "s1 = s\<lparr>s_array := b\<lparr>elements := es\<rparr>\<rparr>"
    have ok1: "s_ok env t s1" using es(2) b(3) d(4) full by (simp add: s1_def s_ok_def)
    have "s_contents s1 = s_contents s"
    proof (rule nth_equalityI)
      show len: "length (s_contents s1) = length (s_contents s)"
        using length_s_contents [OF ok1] length_s_contents [OF assms] by (simp add: s1_def)
      fix k assume "k < length (s_contents s1)"
      then have k: "k < nat ?n" "int k < ?n" using length_s_contents [OF ok1] full by (simp_all add: s1_def)
      have "nat ?n + k < nat (?n * 2)" using k by linarith
      then show "s_contents s1 ! k = s_contents s ! k"
        using k d(4) b(3) by (simp add: s_contents_def s1_def es(3) full)
    qed
    moreover have "s_size s1 < count (s_array s1)" "s_size s1 = ?n" "count (s_array s1) = ?n * 2"
      using d(4) full b(3) by (simp_all add: s1_def)
    ultimately obtain s' where "push_at v ?n (?n * 2) s1 = Some (Inr (), s')" "s_ok env t s'"
      "s_contents s' = v # s_contents s"
      using push_at_ok [OF ok1, of v] by auto
    then show ?thesis
      using True b(1) es(1) full s2 by (simp add: Push_def count_def [symmetric] s1_def)
  next
    case no: False
    then show ?thesis using False create full s2 by (auto simp: Push_def count_def [symmetric])
  qed
qed

subsection \<open>Histories of a stack\<close>

datatype 'o stack_op = SPush bool "'o option" | SPop | SPeek | SClear

fun stack_step ::
  "'o type_env \<Rightarrow> (nat \<Rightarrow> 'o hblock) \<Rightarrow> 'o stack_op \<Rightarrow> 'o obj_stack \<Rightarrow> ('o option option, 'o obj_stack) outcome" where
  "stack_step env junk (SPush granted v) s =
     map_option (map_prod (map_sum id (\<lambda>_. None)) id) (Push env granted junk v s)"
| "stack_step env junk SPop s = map_option (map_prod (map_sum id Some) id) (Pop s)"
| "stack_step env junk SPeek s = map_option (map_prod (map_sum id Some) id) (stack_Peek s)"
| "stack_step env junk SClear s = map_option (map_prod (map_sum id (\<lambda>_. None)) id) (stack_Clear env s)"

fun stack_spec :: "'o stack_op \<Rightarrow> 'o option list \<Rightarrow> (clr_error + 'o option option) \<times> 'o option list" where
  "stack_spec (SPush granted v) xs = (Inr None, v # xs)"
| "stack_spec SPop xs =
     (case xs of [] \<Rightarrow> (Inl E_INVALID_OPERATION, []) | y # ys \<Rightarrow> (Inr (Some y), ys))"
| "stack_spec SPeek xs =
     (case xs of [] \<Rightarrow> (Inl E_INVALID_OPERATION, []) | y # ys \<Rightarrow> (Inr (Some y), xs))"
| "stack_spec SClear xs = (Inr None, [])"

fun stack_refusable :: "'o stack_op \<Rightarrow> 'o option list \<Rightarrow> bool" where
  "stack_refusable (SPush granted v) xs \<longleftrightarrow> 0 < length xs \<and> (granted \<longrightarrow> max_array < 2 * int (length xs))"
| "stack_refusable _ xs \<longleftrightarrow> False"

interpretation lifo: collection "s_ok env t" s_contents "stack_step env junk" stack_spec
  stack_refusable "\<lambda>op. True" for env t junk
proof
  fix s :: "'o obj_stack" and op :: "'o stack_op" and env :: "'o type_env" and junk :: "nat \<Rightarrow> 'o hblock" and t
  assume ok: "s_ok env t s"
  note d = s_okD [OF ok]
  show "\<exists>r s'. stack_step env junk op s = Some (r, s') \<and> s_ok env t s' \<and>
      ((r, s_contents s') = stack_spec op (s_contents s) \<or>
       r = Inl E_OUT_OF_MEMORY \<and> s_contents s' = s_contents s \<and> stack_refusable op (s_contents s))"
  proof (cases op)
    case (SPush granted v)
    show ?thesis
    proof (cases "s_size s < count (s_array s) \<or> granted \<and> 2 * s_size s \<le> max_array")
      case True
      then show ?thesis using Push_ok [OF ok, of granted junk v] SPush by auto
    next
      case False
      then have "stack_refusable op (s_contents s)"
        using SPush d(3,4) length_s_contents [OF ok] by auto
      then show ?thesis using Push_ok [OF ok, of granted junk v] False SPush ok by auto
    qed
  next
    case SPop
    then show ?thesis using Pop_ok [OF ok] ok by (cases "s_contents s") auto
  next
    case SPeek
    then show ?thesis using stack_Peek_ok [OF ok] ok by (cases "s_contents s") auto
  next
    case SClear
    then show ?thesis using stack_Clear_ok [OF ok] by auto
  qed
qed

section \<open>The array list\<close>

definition l_ok :: "'o type_env \<Rightarrow> u8 \<Rightarrow> 'o array_list \<Rightarrow> bool" where
  "l_ok env t l \<longleftrightarrow> obj_array env t (l_items l) \<and> 0 \<le> l_size l \<and> l_size l \<le> count (l_items l)"

definition l_contents :: "'o array_list \<Rightarrow> 'o option list" where
  "l_contents l = take (nat (l_size l)) (refs (l_items l))"

lemma l_okD:
  assumes "l_ok env t l"
  shows "obj_array env t (l_items l)" "0 \<le> l_size l" "l_size l \<le> count (l_items l)"
    "0 < count (l_items l)" "count (l_items l) \<le> max_array" "object_type env t"
  using assms by (auto simp: l_ok_def obj_array_def)

lemma length_l_contents: "l_ok env t l \<Longrightarrow> length (l_contents l) = nat (l_size l)"
  using l_okD(2,3) [of env t l] by (simp add: l_contents_def)

lemma nth_l_contents: "l_ok env t l \<Longrightarrow> k < nat (l_size l) \<Longrightarrow> l_contents l ! k = refs (l_items l) ! k"
  by (simp add: l_contents_def)

lemma GetItem_ok:
  assumes "l_ok env t l"
  shows "GetItem i l = Some (if 0 \<le> i \<and> i < l_size l then Inr (l_contents l ! nat i)
    else Inl E_OUT_OF_RANGE, l)"
  using l_okD [OF assms] obj_get [of env t "l_items l" i]
  by (auto simp: GetItem_def l_contents_def)

lemma SetItem_ok:
  assumes "l_ok env t l" "0 \<le> i" "i < l_size l"
  shows "\<exists>l'. SetItem i v l = Some (Inr (), l') \<and> l_ok env t l' \<and>
    l_contents l' = (l_contents l)[nat i := v]"
proof -
  note d = l_okD [OF assms(1)]
  obtain a where "set_ref (l_items l) i v = Some a" "obj_array env t a"
    "refs a = (refs (l_items l))[nat i := v]" "count a = count (l_items l)"
    using obj_set [OF d(1) assms(2), of v] assms(3) d(3) by auto
  then show ?thesis
    using assms(2,3) d(2,3) by (simp add: SetItem_def l_ok_def l_contents_def take_update_swap)
qed

lemma al_Clear_ok:
  assumes "l_ok env t l"
  shows "\<exists>l'. al_Clear env l = Some (Inr (), l') \<and> l_ok env t l' \<and> l_contents l' = []"
proof -
  note d = l_okD [OF assms]
  from obj_clear [OF d(1), of 0 "l_size l"] d(2,3) obtain a where
    "ClearElements env (l_items l) 0 (l_size l) = Some (Inr (), a)" "obj_array env t a" by auto
  then show ?thesis using obj_arrayD(2) [of env t a] by (simp add: al_Clear_def l_ok_def l_contents_def)
qed

lemma SetCapacity_ok:
  assumes "l_ok env t l" "c < 2 ^ 28"
  shows "if c < l_size l then SetCapacity env granted junk c l = Some (Inl E_OUT_OF_RANGE, l)
    else if c = count (l_items l) \<or> granted \<and> c \<le> max_array
    then \<exists>l'. SetCapacity env granted junk c l = Some (Inr (), l') \<and> l_ok env t l' \<and>
      l_contents l' = l_contents l \<and> l_size l' = l_size l \<and> c \<le> count (l_items l')
    else SetCapacity env granted junk c l = Some (Inl E_OUT_OF_MEMORY, l)"
proof -
  note d = l_okD [OF assms(1)]
  have sint: "sint (numOfElements x) = count x" for x :: "'a heap_array" by (simp add: count_def)
  consider "c = count (l_items l)" | "c \<noteq> count (l_items l)" "c < l_size l"
    | "c \<noteq> count (l_items l)" "l_size l \<le> c" by linarith
  then show ?thesis
  proof cases
    case 1
    then show ?thesis using assms d(3) by (simp add: SetCapacity_def sint)
  next
    case 2
    then show ?thesis by (simp add: SetCapacity_def sint)
  next
    case 3
    define n where "n = (if c < c_DefaultCapacity then c_DefaultCapacity else c)"
    have n: "0 < n" "n < 2 ^ 28" "c \<le> n" "n \<le> max_array \<longleftrightarrow> c \<le> max_array"
      using assms(2) by (auto simp: n_def c_DefaultCapacity_def max_array_def)
    note create = obj_create [OF d(6) n(1,2), of granted junk]
    show ?thesis
    proof (cases "granted \<and> c \<le> max_array")
      case True
      with create n(4) obtain b where b: "CreateInstance env granted junk (word_of_int n) (te_object env) = Some (Inr b)"
        "obj_array env t b" "count b = n" "refs b = replicate (nat n) None" by auto
      obtain es where es: "(if 0 < l_size l then move_elements (elements b) 0 (elements (l_items l)) 0 (l_size l)
          else Some (elements b)) = Some es" "obj_array env t (b\<lparr>elements := es\<rparr>)"
        "refs (b\<lparr>elements := es\<rparr>) = moved (refs b) 0 (refs (l_items l)) 0 (l_size l)"
      proof (cases "0 < l_size l")
        case True
        then show ?thesis using that obj_move [OF d(1) b(2), of 0 0 "l_size l"] d(3) 3(2) n(3) b(3) by auto
      next
        case False
        have "b\<lparr>elements := elements b\<rparr> = b" by simp
        then show ?thesis using that [of "elements b"] b(2) False by simp
      qed
      define l1 where "l1 = l\<lparr>l_items := b\<lparr>elements := es\<rparr>\<rparr>"
      have ok1: "l_ok env t l1" using es(2) b(3) d(2) 3(2) n(3) by (simp add: l1_def l_ok_def)
      have "l_contents l1 = l_contents l"
      proof (rule nth_equalityI)
        show "length (l_contents l1) = length (l_contents l)"
          using length_l_contents [OF ok1] length_l_contents [OF assms(1)] by (simp add: l1_def)
        fix k assume "k < length (l_contents l1)"
        then have k: "k < nat (l_size l)" "int k < l_size l" using length_l_contents [OF ok1] by (simp_all add: l1_def)
        then show "l_contents l1 ! k = l_contents l ! k"
          using nth_l_contents [OF ok1, of k] nth_l_contents [OF assms(1), of k] 3(2) n(3) b(3)
          by (simp add: l1_def es(3))
      qed
      then show ?thesis using 3 True b(1,3) es(1) ok1 n(3)
        by (simp add: SetCapacity_def Let_def sint n_def [symmetric] l1_def)
    next
      case False
      then show ?thesis using 3 create n(4) by (auto simp: SetCapacity_def Let_def sint n_def [symmetric])
    qed
  qed
qed

lemma grow_full_ok:
  assumes "l_ok env t l"
  shows "if l_size l < count (l_items l) \<or> granted \<and> 3 * l_size l div 2 \<le> max_array
    then \<exists>l'. grow_full env granted junk l = Some (Inr (), l') \<and> l_ok env t l' \<and>
      l_contents l' = l_contents l \<and> l_size l' = l_size l \<and> l_size l < count (l_items l')
    else grow_full env granted junk l = Some (Inl E_OUT_OF_MEMORY, l)"
proof (cases "l_size l < count (l_items l)")
  case True
  then show ?thesis using assms by (simp add: grow_full_def count_def [symmetric])
next
  case False
  note d = l_okD [OF assms]
  define n where "n = l_size l"
  have n: "count (l_items l) = n" "0 < n" "n \<le> 65533"
    using False d(3,4,5) by (simp_all add: n_def max_array_def)
  define c where "c = (if 3 * n div 2 < n + 1 then n + 1 else 3 * n div 2)"
  have "s32 (n * 3) = n * 3" using n by (intro s32_id) auto
  then have ens: "grow_full env granted junk l = SetCapacity env granted junk c l"
    using n by (simp add: grow_full_def EnsureCapacity_def count_def [symmetric] n_def [symmetric] c_def mult.commute)
  have c: "n < c" "c < 2 ^ 28" "c \<le> max_array \<longleftrightarrow> 3 * n div 2 \<le> max_array"
    using n by (auto simp: c_def max_array_def)
  show ?thesis
    using SetCapacity_ok [OF assms c(2), of granted junk] c n False
    unfolding ens n_def [symmetric] by (auto split: if_splits)
qed

lemma set_at_ok:
  assumes "l_ok env t l" "l_size l < count (l_items l)"
  shows "\<exists>a. set_ref (l_items l) (l_size l) v = Some a \<and>
    l_ok env t (l\<lparr>l_items := a, l_size := l_size l + 1\<rparr>) \<and>
    l_contents (l\<lparr>l_items := a, l_size := l_size l + 1\<rparr>) = l_contents l @ [v]"
proof -
  note d = l_okD [OF assms(1)]
  obtain a where a: "set_ref (l_items l) (l_size l) v = Some a" "obj_array env t a"
    "refs a = (refs (l_items l))[nat (l_size l) := v]" "count a = count (l_items l)"
    using obj_set [OF d(1,2) assms(2), of v] by auto
  have "nat (l_size l) < length (refs (l_items l))" using assms(2) d(2) by simp
  then have "take (Suc (nat (l_size l))) ((refs (l_items l))[nat (l_size l) := v]) =
      take (nat (l_size l)) (refs (l_items l)) @ [v]"
    by (simp add: take_Suc_conv_app_nth)
  moreover have "nat (l_size l + 1) = Suc (nat (l_size l))" using d(2) by simp
  ultimately show ?thesis using a d(2) assms(2) by (simp add: l_ok_def l_contents_def)
qed

lemma Add_ok:
  assumes "l_ok env t l"
  shows "if l_size l < count (l_items l) \<or> granted \<and> 3 * l_size l div 2 \<le> max_array
    then \<exists>l'. Add env granted junk v l = Some (Inr (l_size l), l') \<and> l_ok env t l' \<and>
      l_contents l' = l_contents l @ [v]
    else Add env granted junk v l = Some (Inl E_OUT_OF_MEMORY, l)"
proof (cases "l_size l < count (l_items l) \<or> granted \<and> 3 * l_size l div 2 \<le> max_array")
  case True
  with grow_full_ok [OF assms, of granted junk] obtain l1 where
    l1: "grow_full env granted junk l = Some (Inr (), l1)" "l_ok env t l1" "l_contents l1 = l_contents l"
    "l_size l1 = l_size l" "l_size l < count (l_items l1)" by auto
  with set_at_ok [OF l1(2), of v] True show ?thesis by (auto simp: Add_def)
next
  case False
  with grow_full_ok [OF assms, of granted junk] show ?thesis by (auto simp: Add_def)
qed

lemma obj_assign:
  assumes "obj_array env t a" "0 \<le> i" "i < count a" "0 \<le> j" "j < count a"
  shows "\<exists>b. assign_ref a i j = Some b \<and> obj_array env t b \<and> count b = count a \<and>
    refs b = (refs a)[nat i := refs a ! nat j]"
proof -
  have "assign_ref a i j = set_ref a i (refs a ! nat j)"
    using assms obj_arrayD(5) [OF assms(1)] obj_element [OF assms(1), of "nat j"]
    by (simp add: assign_ref_def set_ref_def in_elements_def)
  then show ?thesis using obj_set [OF assms(1-3), of "refs a ! nat j"] by auto
qed

lemma shift_up_ok:
  assumes "obj_array env t a" "int n \<le> cur" "cur < count a"
  shows "\<exists>b. shift_up a cur n = Some b \<and> obj_array env t b \<and> count b = count a \<and>
    refs b = moved (refs a) (cur - int n + 1) (refs a) (cur - int n) (int n)"
  using assms
proof (induction n arbitrary: a cur)
  case (Suc n)
  from obj_assign [OF Suc.prems(1), of cur "cur - 1"] Suc.prems obtain b where
    b: "assign_ref a cur (cur - 1) = Some b" "obj_array env t b" "count b = count a"
    "refs b = (refs a)[nat cur := refs a ! nat (cur - 1)]" by auto
  from Suc.IH [OF b(2), of "cur - 1"] Suc.prems b(3) obtain c where
    c: "shift_up b (cur - 1) n = Some c" "obj_array env t c" "count c = count a"
    "refs c = moved (refs b) (cur - 1 - int n + 1) (refs b) (cur - 1 - int n) (int n)" by auto
  have "refs c = moved (refs a) (cur - int (Suc n) + 1) (refs a) (cur - int (Suc n)) (int (Suc n))"
    unfolding c(4)
  proof (rule nth_equalityI)
    fix k assume "k < length (moved (refs b) (cur - 1 - int n + 1) (refs b) (cur - 1 - int n) (int n))"
    then have k: "k < nat (count a)" using b(3) by simp
    have e: "nat cur = k \<longleftrightarrow> int k = cur" using Suc.prems(2) by auto
    have s: "cur - 1 - int n + (int k - (cur - 1 - int n + 1)) = int k - 1"
      "cur - int (Suc n) + (int k - (cur - int (Suc n) + 1)) = int k - 1" by simp_all
    show "moved (refs b) (cur - 1 - int n + 1) (refs b) (cur - 1 - int n) (int n) ! k =
        moved (refs a) (cur - int (Suc n) + 1) (refs a) (cur - int (Suc n)) (int (Suc n)) ! k"
    proof (cases "int k = cur")
      case True
      then show ?thesis using k b(3) e Suc.prems(2) by (simp add: b(4) nth_list_update)
    next
      case False
      have "nat (int k - 1) \<noteq> nat cur \<or> cur < int k" using Suc.prems(2) by auto
      then show ?thesis using k b(3) e False Suc.prems(2) unfolding b(4)
        by (auto simp: s nth_list_update)
    qed
  qed (simp add: b(3))
  then show ?case using b(1) c(1-3) by simp
qed simp

lemma shift_down_ok:
  assumes "obj_array env t a" "0 \<le> cur" "cur + int n < count a"
  shows "\<exists>b. shift_down a cur n = Some b \<and> obj_array env t b \<and> count b = count a \<and>
    refs b = moved (refs a) cur (refs a) (cur + 1) (int n)"
  using assms
proof (induction n arbitrary: a cur)
  case (Suc n)
  from obj_assign [OF Suc.prems(1), of cur "cur + 1"] Suc.prems obtain b where
    b: "assign_ref a cur (cur + 1) = Some b" "obj_array env t b" "count b = count a"
    "refs b = (refs a)[nat cur := refs a ! nat (cur + 1)]" by auto
  from Suc.IH [OF b(2), of "cur + 1"] Suc.prems b(3) obtain c where
    c: "shift_down b (cur + 1) n = Some c" "obj_array env t c" "count c = count a"
    "refs c = moved (refs b) (cur + 1) (refs b) (cur + 1 + 1) (int n)" by auto
  have "refs c = moved (refs a) cur (refs a) (cur + 1) (int (Suc n))"
    unfolding c(4)
  proof (rule nth_equalityI)
    fix k assume "k < length (moved (refs b) (cur + 1) (refs b) (cur + 1 + 1) (int n))"
    then have k: "k < nat (count a)" using b(3) by simp
    have e: "nat cur = k \<longleftrightarrow> int k = cur" using Suc.prems(2) by auto
    have s: "cur + 1 + 1 + (int k - (cur + 1)) = int k + 1" "cur + 1 + (int k - cur) = int k + 1" by simp_all
    show "moved (refs b) (cur + 1) (refs b) (cur + 1 + 1) (int n) ! k =
        moved (refs a) cur (refs a) (cur + 1) (int (Suc n)) ! k"
    proof (cases "int k = cur")
      case True
      then show ?thesis using k b(3) e Suc.prems(2) by (simp add: b(4) nth_list_update)
    next
      case False
      have u: "nat (1 + int k) = Suc k" "nat (int k + 1) = Suc k" by auto
      have "nat (int k + 1) \<noteq> nat cur \<or> int k < cur" using Suc.prems(2) by auto
      then show ?thesis using k b(3) e False Suc.prems(2) unfolding b(4)
        by (auto simp: s u nth_list_update)
    qed
  qed (simp add: b(3))
  then show ?case using b(1) c(1-3) by simp
qed simp

lemma al_Insert_ok:
  assumes "l_ok env t l"
  shows "if i < 0 \<or> l_size l < i then al_Insert env granted junk i v l = Some (Inl E_OUT_OF_RANGE, l)
    else if l_size l < count (l_items l) \<or> granted \<and> 3 * l_size l div 2 \<le> max_array
    then \<exists>l'. al_Insert env granted junk i v l = Some (Inr (), l') \<and> l_ok env t l' \<and>
      l_contents l' = take (nat i) (l_contents l) @ v # drop (nat i) (l_contents l)
    else al_Insert env granted junk i v l = Some (Inl E_OUT_OF_MEMORY, l)"
proof -
  consider "i < 0 \<or> l_size l < i"
    | "0 \<le> i" "i \<le> l_size l" "\<not> (l_size l < count (l_items l) \<or> granted \<and> 3 * l_size l div 2 \<le> max_array)"
    | "0 \<le> i" "i \<le> l_size l" "l_size l < count (l_items l) \<or> granted \<and> 3 * l_size l div 2 \<le> max_array"
    by linarith
  then show ?thesis
  proof cases
    case 1
    then show ?thesis by (auto simp: al_Insert_def Let_def)
  next
    case 2
    with grow_full_ok [OF assms, of granted junk] show ?thesis by (auto simp: al_Insert_def Let_def)
  next
    case 3
    with grow_full_ok [OF assms, of granted junk] obtain l1 where
      l1: "grow_full env granted junk l = Some (Inr (), l1)" "l_ok env t l1" "l_contents l1 = l_contents l"
      "l_size l1 = l_size l" "l_size l < count (l_items l1)" by auto
    note d = l_okD [OF l1(2)]
    define n where "n = l_size l"
    have n: "0 \<le> n" "n < count (l_items l1)" "i \<le> n" using d(2) l1(4,5) 3 by (simp_all add: n_def)
    from shift_up_ok [OF d(1), of "nat (n - i)" n] n 3(1) obtain a where
      a: "shift_up (l_items l1) n (nat (n - i)) = Some a" "obj_array env t a" "count a = count (l_items l1)"
      "refs a = moved (refs (l_items l1)) (i + 1) (refs (l_items l1)) i (n - i)" by auto
    have sh: "(if i < n then shift_up (l_items l1) n (nat (n - i)) else Some (l_items l1)) = Some a"
      using a(1) n(3) by (cases "i < n") auto
    have i: "i < count a" using a(3) n by simp
    from obj_set [OF a(2) 3(1) i, of v] obtain b where
      b: "set_ref a i v = Some b" "obj_array env t b" "refs b = (refs a)[nat i := v]" "count b = count a"
      by auto
    define l' where "l' = l1\<lparr>l_items := b, l_size := n + 1\<rparr>"
    have ok: "l_ok env t l'" using b(2,4) a(3) n by (simp add: l_ok_def l'_def)
    have "l_contents l' = take (nat i) (l_contents l) @ v # drop (nat i) (l_contents l)"
    proof (rule nth_equalityI)
      have len: "length (l_contents l) = nat n" using length_l_contents [OF l1(2)] l1(3,4) by (simp add: n_def)
      show "length (l_contents l') = length (take (nat i) (l_contents l) @ v # drop (nat i) (l_contents l))"
        using length_l_contents [OF ok] len n 3(1) by (simp add: l'_def nat_add_distrib)
      fix k assume "k < length (l_contents l')"
      then have k: "k < nat n + 1" using length_l_contents [OF ok] n(1) by (simp add: l'_def nat_add_distrib)
      have at: "refs (l_items l1) ! j = l_contents l ! j" if "j < nat n" for j
        using nth_l_contents [OF l1(2), of j] that l1(3,4) by (simp add: n_def)
      have "l_contents l' ! k = (refs a)[nat i := v] ! k"
        using k n(1) nth_l_contents [OF ok, of k] by (simp add: l'_def b(3) nat_add_distrib)
      moreover have "i + (int k - (i + 1)) = int k - 1" by simp
      moreover have "nat (int k - 1) = k - 1" by simp
      ultimately show "l_contents l' ! k = (take (nat i) (l_contents l) @ v # drop (nat i) (l_contents l)) ! k"
        using k n 3(1) at [of k] at [of "k - 1"] len a(3)
        by (auto simp: a(4) nth_list_update nth_append nth_Cons' nth_drop not_less)
    qed
    moreover have "al_Insert env granted junk i v l = Some (Inr (), l')"
      using 3 l1(1) sh b(1) by (simp add: al_Insert_def Let_def n_def [symmetric] l'_def)
    ultimately show ?thesis using 3 ok by auto
  qed
qed

lemma RemoveAt_ok:
  assumes "l_ok env t l"
  shows "if 0 \<le> i \<and> i < l_size l
    then \<exists>l'. RemoveAt i l = Some (Inr (), l') \<and> l_ok env t l' \<and>
      l_contents l' = take (nat i) (l_contents l) @ drop (Suc (nat i)) (l_contents l)
    else RemoveAt i l = Some (Inl E_OUT_OF_RANGE, l)"
proof (cases "0 \<le> i \<and> i < l_size l")
  case True
  note d = l_okD [OF assms]
  define n where "n = l_size l"
  have n: "0 \<le> i" "i < n" "n \<le> count (l_items l)" using True d(3) by (simp_all add: n_def)
  from shift_down_ok [OF d(1), of i "nat (n - 1 - i)"] n obtain a where
    a: "shift_down (l_items l) i (nat (n - 1 - i)) = Some a" "obj_array env t a" "count a = count (l_items l)"
    "refs a = moved (refs (l_items l)) i (refs (l_items l)) (i + 1) (n - 1 - i)" by auto
  have sh: "(if i < n - 1 then shift_down (l_items l) i (nat (n - 1 - i)) else Some (l_items l)) = Some a"
    using a(1) n(2) by (cases "i < n - 1") auto
  from obj_set [OF a(2), of "n - 1" None] n a(3) obtain b where
    b: "set_ref a (n - 1) None = Some b" "obj_array env t b" "refs b = (refs a)[nat (n - 1) := None]"
    "count b = count a" by auto
  define l' where "l' = l\<lparr>l_items := b, l_size := n - 1\<rparr>"
  have ok: "l_ok env t l'" using b(2,4) a(3) n by (simp add: l_ok_def l'_def)
  have "l_contents l' = take (nat i) (l_contents l) @ drop (Suc (nat i)) (l_contents l)"
  proof (rule nth_equalityI)
    have len: "length (l_contents l) = nat n" using length_l_contents [OF assms] by (simp add: n_def)
    show "length (l_contents l') = length (take (nat i) (l_contents l) @ drop (Suc (nat i)) (l_contents l))"
      using length_l_contents [OF ok] len n by (simp add: l'_def)
    fix k assume "k < length (l_contents l')"
    then have k: "k < nat (n - 1)" "k \<noteq> nat (n - 1)" "k < nat n" "Suc k < nat n" "int k < n - 1"
      using length_l_contents [OF ok] by (simp_all add: l'_def)
    have at: "refs (l_items l) ! j = l_contents l ! j" if "j < nat n" for j
      using nth_l_contents [OF assms, of j] that by (simp add: n_def)
    have "l_contents l' ! k = refs a ! k"
      using k nth_l_contents [OF ok, of k] by (simp add: l'_def b(3))
    moreover have "i + 1 + (int k - i) = int (Suc k)" by simp
    moreover have "nat (1 + int k) = Suc k" by simp
    ultimately show "l_contents l' ! k = (take (nat i) (l_contents l) @ drop (Suc (nat i)) (l_contents l)) ! k"
      using k n at [of k] at [of "Suc k"] len a(3)
      by (auto simp: a(4) nth_append nth_drop not_less simp del: of_nat_Suc)
  qed
  moreover have "RemoveAt i l = Some (Inr (), l')"
    using True sh b(1) by (simp add: RemoveAt_def Let_def n_def [symmetric] l'_def)
  ultimately show ?thesis using True ok by auto
qed (auto simp: RemoveAt_def Let_def)

subsection \<open>Histories of an array list\<close>

datatype 'o list_op = LGet int | LSet int "'o option" | LAdd bool "'o option" | LClear
  | LInsert bool int "'o option" | LRemoveAt int | LSetCapacity bool int

datatype 'o list_result = Done | Item "'o option" | Index int

fun list_step ::
  "'o type_env \<Rightarrow> (nat \<Rightarrow> 'o hblock) \<Rightarrow> 'o list_op \<Rightarrow> 'o array_list \<Rightarrow> ('o list_result, 'o array_list) outcome" where
  "list_step env junk (LGet i) l = map_option (map_prod (map_sum id Item) id) (GetItem i l)"
| "list_step env junk (LSet i v) l = map_option (map_prod (map_sum id (\<lambda>_. Done)) id) (SetItem i v l)"
| "list_step env junk (LAdd granted v) l = map_option (map_prod (map_sum id Index) id) (Add env granted junk v l)"
| "list_step env junk LClear l = map_option (map_prod (map_sum id (\<lambda>_. Done)) id) (al_Clear env l)"
| "list_step env junk (LInsert granted i v) l =
     map_option (map_prod (map_sum id (\<lambda>_. Done)) id) (al_Insert env granted junk i v l)"
| "list_step env junk (LRemoveAt i) l = map_option (map_prod (map_sum id (\<lambda>_. Done)) id) (RemoveAt i l)"
| "list_step env junk (LSetCapacity granted c) l =
     map_option (map_prod (map_sum id (\<lambda>_. Done)) id) (SetCapacity env granted junk c l)"

fun list_spec :: "'o list_op \<Rightarrow> 'o option list \<Rightarrow> (clr_error + 'o list_result) \<times> 'o option list" where
  "list_spec (LGet i) xs =
     (if 0 \<le> i \<and> i < int (length xs) then (Inr (Item (xs ! nat i)), xs) else (Inl E_OUT_OF_RANGE, xs))"
| "list_spec (LSet i v) xs =
     (if 0 \<le> i \<and> i < int (length xs) then (Inr Done, xs[nat i := v]) else (Inl E_OUT_OF_RANGE, xs))"
| "list_spec (LAdd granted v) xs = (Inr (Index (int (length xs))), xs @ [v])"
| "list_spec LClear xs = (Inr Done, [])"
| "list_spec (LInsert granted i v) xs =
     (if 0 \<le> i \<and> i \<le> int (length xs) then (Inr Done, take (nat i) xs @ v # drop (nat i) xs)
      else (Inl E_OUT_OF_RANGE, xs))"
| "list_spec (LRemoveAt i) xs =
     (if 0 \<le> i \<and> i < int (length xs) then (Inr Done, take (nat i) xs @ drop (Suc (nat i)) xs)
      else (Inl E_OUT_OF_RANGE, xs))"
| "list_spec (LSetCapacity granted c) xs =
     (if c < int (length xs) then (Inl E_OUT_OF_RANGE, xs) else (Inr Done, xs))"

fun list_refusable :: "'o list_op \<Rightarrow> 'o option list \<Rightarrow> bool" where
  "list_refusable (LAdd granted v) xs \<longleftrightarrow> 0 < length xs \<and> (granted \<longrightarrow> max_array < 3 * int (length xs) div 2)"
| "list_refusable (LInsert granted i v) xs \<longleftrightarrow>
     0 < length xs \<and> (granted \<longrightarrow> max_array < 3 * int (length xs) div 2)"
| "list_refusable (LSetCapacity granted c) xs \<longleftrightarrow> granted \<longrightarrow> max_array < c"
| "list_refusable _ xs \<longleftrightarrow> False"

text \<open>A capacity whose bytes wrap is excluded; it is the subject of a theorem of its own.\<close>

fun list_valid :: "'o list_op \<Rightarrow> bool" where
  "list_valid (LSetCapacity granted c) \<longleftrightarrow> c < 2 ^ 28"
| "list_valid _ \<longleftrightarrow> True"

interpretation items: collection "l_ok env t" l_contents "list_step env junk" list_spec
  list_refusable list_valid for env t junk
proof
  fix l :: "'o array_list" and op :: "'o list_op" and env :: "'o type_env" and junk :: "nat \<Rightarrow> 'o hblock" and t
  assume ok: "l_ok env t l" and valid: "list_valid op"
  note d = l_okD [OF ok]
  have len: "int (length (l_contents l)) = l_size l" using length_l_contents [OF ok] d(2) by simp
  have grows: "0 < length (l_contents l) \<and> (granted \<longrightarrow> max_array < 3 * int (length (l_contents l)) div 2)"
    if "\<not> (l_size l < count (l_items l) \<or> granted \<and> 3 * l_size l div 2 \<le> max_array)" for granted
    using that d(3,4) len by auto
  show "\<exists>r l'. list_step env junk op l = Some (r, l') \<and> l_ok env t l' \<and>
      ((r, l_contents l') = list_spec op (l_contents l) \<or>
       r = Inl E_OUT_OF_MEMORY \<and> l_contents l' = l_contents l \<and> list_refusable op (l_contents l))"
  proof (cases op)
    case (LGet i)
    then show ?thesis using GetItem_ok [OF ok, of i] ok len by auto
  next
    case (LSet i v)
    show ?thesis
    proof (cases "0 \<le> i \<and> i < l_size l")
      case True
      then show ?thesis using LSet SetItem_ok [OF ok, of i v] len by auto
    next
      case False
      then show ?thesis using LSet ok len by (auto simp: SetItem_def)
    qed
  next
    case (LAdd granted v)
    then show ?thesis
      using Add_ok [OF ok, of granted junk v] grows [of granted] ok len
      by (cases "l_size l < count (l_items l) \<or> granted \<and> 3 * l_size l div 2 \<le> max_array") auto
  next
    case LClear
    then show ?thesis using al_Clear_ok [OF ok] by auto
  next
    case (LInsert granted i v)
    then show ?thesis
      using al_Insert_ok [OF ok, of i granted junk v] grows [of granted] ok len
      by (cases "i < 0 \<or> l_size l < i";
          cases "l_size l < count (l_items l) \<or> granted \<and> 3 * l_size l div 2 \<le> max_array") auto
  next
    case (LRemoveAt i)
    then show ?thesis using RemoveAt_ok [OF ok, of i] ok len by (cases "0 \<le> i \<and> i < l_size l") auto
  next
    case (LSetCapacity granted c)
    then have "c < 2 ^ 28" using valid by simp
    from SetCapacity_ok [OF ok this, of granted junk] show ?thesis
      using LSetCapacity ok len by (cases "c < l_size l"; cases "c = count (l_items l) \<or> granted \<and> c \<le> max_array") auto
  qed
qed

section \<open>A queue whose array is typed as objects\<close>

lemma move_elements_some:
  assumes "0 \<le> n" "0 \<le> i" "0 \<le> j" "i + n \<le> int (length src)" "j + n \<le> int (length dst)"
  shows "\<exists>es. move_elements dst j src i n = Some es \<and> length es = length dst"
  using move_elements_moved [OF assms] by simp

lemma ObjArrayMemcpy_moves:
  assumes "sizeOfElement x = 12" "sizeOfElement b = 12" "0 \<le> i" "0 \<le> j" "0 \<le> n"
    "i < 2 ^ 28" "j < 2 ^ 28" "n < 2 ^ 28"
  shows "ObjArrayMemcpy x i b j n =
    map_option (\<lambda>es. x\<lparr>elements := es\<rparr>) (move_elements (elements x) i (elements b) j n)"
proof -
  have "element_index 12 k = k" if "0 \<le> k" "k < 2 ^ 28" for k
    using that by (intro element_index_id) simp_all
  then show ?thesis using assms by (simp add: ObjArrayMemcpy_def)
qed

lemma CopyTo_backwards:
  assumes "q_ok env DATATYPE_OBJECT q" "obj_array env DATATYPE_OBJECT b" "q_size q \<le> count b"
  shows "\<exists>a. CopyTo env q b 0 = Some (Inr (), a, b)"
proof -
  note d = q_okD [OF assms(1)] and l = obj_arrayD(5) [OF q_okD(1) [OF assms(1)]]
  let ?a = "q_array q"
  have sint: "sint (numOfElements x) = count x" for x :: "'a heap_array" by (simp add: count_def)
  have lb: "count b \<le> int (length (elements b))" using obj_arrayD(5) [OF assms(2)] .
  have guard: "\<not> s32 (count b - 0) < q_size q"
    using assms(3) d(4) obj_arrayD(4) [OF assms(2)] by (subst s32_id) auto
  have small: "k < 2 ^ 28" if "k \<le> count ?a \<or> k \<le> count b" for k
    using that obj_arrayD(3) [OF d(1)] obj_arrayD(3) [OF assms(2)] by (auto simp: max_array_def)
  have a12: "sizeOfElement ?a = 12" using d(1) by (simp add: obj_array_def)
  have copy: "array_copy env x i b j n = map_option (\<lambda>a'. (Inr (), a', b))
      (map_option (\<lambda>es. x\<lparr>elements := es\<rparr>) (move_elements (elements x) i (elements b) j n))"
    if "sizeOfElement x = 12" "0 \<le> i" "0 \<le> j" "0 \<le> n" "i < 2 ^ 28" "j < 2 ^ 28" "n < 2 ^ 28" for x i j n
    using assms(2) that by (simp add: array_copy_def obj_array_def ObjArrayMemcpy_moves)
  consider "q_size q = 0" | "0 < q_size q" "q_head q < q_tail q" | "0 < q_size q" "q_tail q \<le> q_head q"
    using d(4) by linarith
  then show ?thesis
  proof cases
    case 1
    then show ?thesis using guard by (simp add: CopyTo_def Let_def sint)
  next
    case 2
    have "\<exists>es. move_elements (elements ?a) (q_head q) (elements b) 0 (q_size q) = Some es \<and>
        length es = length (elements ?a)"
      using q_one_run [OF assms(1) 2] d(2,4) l lb assms(3) by (intro move_elements_some) auto
    then show ?thesis using 2 guard copy [of ?a "q_head q" 0 "q_size q"] a12 d(2,3) assms(3)
        small [of "q_head q"] small [of "q_size q"]
      by (auto simp: CopyTo_def Let_def sint)
  next
    case 3
    note run = q_two_runs [OF assms(1) 3]
    let ?f = "count ?a - q_head q"
    have "\<exists>es. move_elements (elements ?a) (q_head q) (elements b) 0 ?f = Some es \<and>
        length es = length (elements ?a)"
      using d(2,3) l lb assms(3) run by (intro move_elements_some) auto
    then obtain es where es: "move_elements (elements ?a) (q_head q) (elements b) 0 ?f = Some es"
      "length es = length (elements ?a)" by blast
    have "\<exists>fs. move_elements es 0 (elements b) ?f (q_tail q) = Some fs \<and> length fs = length es"
      using d(3,9,10) l lb assms(3) run es(2) by (intro move_elements_some) auto
    then obtain fs where fs: "move_elements es 0 (elements b) ?f (q_tail q) = Some fs" by blast
    have s: "s32 ?f = ?f" using d(2,3,11) by (intro s32_id) auto
    have "array_copy env ?a (q_head q) b 0 ?f = Some (Inr (), ?a\<lparr>elements := es\<rparr>, b)"
      using copy [of ?a "q_head q" 0 ?f] es(1) a12 d(2,3) small [of "q_head q"] small [of ?f] by simp
    moreover have "array_copy env (?a\<lparr>elements := es\<rparr>) 0 b ?f (q_tail q) =
        Some (Inr (), ?a\<lparr>elements := fs\<rparr>, b)"
      using copy [of "?a\<lparr>elements := es\<rparr>" 0 ?f "q_tail q"] fs a12 d small [of ?f] small [of "q_tail q"] 3 by simp
    ultimately show ?thesis using 3 guard s by (simp add: CopyTo_def Let_def sint)
  qed
qed

lemma Enqueue_backwards:
  assumes "q_ok env DATATYPE_OBJECT q" "q_size q = count (q_array q)" "2 * q_size q \<le> max_array"
  shows "\<exists>q'. Enqueue env True junk v q = Some (Inr (), q') \<and> q_ok env DATATYPE_OBJECT q' \<and>
    q_contents q' = replicate (length (q_contents q)) None @ [v]"
proof -
  note d = q_okD [OF assms(1)]
  let ?n = "count (q_array q)"
  have n: "0 < ?n" "?n < 2 ^ 30" using obj_arrayD [OF d(1)] by simp_all
  have s: "s32 (?n * 2) = ?n * 2" using n by (intro s32_id) auto
  obtain b where b: "CreateInstance env True junk (word_of_int (?n * 2)) (te_object env) = Some (Inr b)"
    "obj_array env DATATYPE_OBJECT b" "count b = ?n * 2" "refs b = replicate (nat (?n * 2)) None"
    using obj_double [OF d(1), of True junk] assms(2,3) by auto
  obtain a where c: "CopyTo env q b 0 = Some (Inr (), a, b)"
    using CopyTo_backwards [OF assms(1) b(2)] assms(2) b(3) n by auto
  define q1 where "q1 = q\<lparr>q_array := b, q_head := 0, q_tail := ?n\<rparr>"
  have ok1: "q_ok env DATATYPE_OBJECT q1"
    using b(2,3) n assms(2) by (simp add: q1_def q_ok_def ring_idx_def nat_mult_distrib)
  have "q_contents q1 = replicate (length (q_contents q)) None"
  proof (rule nth_equalityI)
    fix k assume "k < length (q_contents q1)"
    then have k: "k < nat ?n" "int k < ?n" by (simp_all add: q1_def assms(2))
    have "q_contents q1 ! k = refs b ! k"
      using q_contents_nth [OF ok1, of k] k n(1) b(3) assms(2) by (simp add: q1_def)
    moreover have "k < nat (?n * 2)" using k by simp
    ultimately show "q_contents q1 ! k = replicate (length (q_contents q)) None ! k"
      using k b(4) assms(2) by simp
  qed (simp add: q1_def)
  moreover have "q_size q1 < count (q_array q1)" "q_tail q1 = ?n" "count (q_array q1) = ?n * 2"
    using n(1) assms(2) b(3) by (simp_all add: q1_def)
  ultimately obtain q' where "enqueue_at v ?n (?n * 2) q1 = Some (Inr (), q')" "q_ok env DATATYPE_OBJECT q'"
    "q_contents q' = replicate (length (q_contents q)) None @ [v]"
    using enqueue_at_ok [OF ok1, of v] by auto
  then show ?thesis
    using b(1) c assms(2) s by (simp add: Enqueue_def count_def [symmetric] q1_def)
qed

section \<open>Properties\<close>

lemma SetCapacity_wraps:
  assumes "l_ok env t l"
  shows "SetCapacity env True junk 357913942 l = None"
proof -
  note d = l_okD [OF assms]
  have "te_elem env (te_object env) = Some \<lparr>et_dataType = t, et_sizeInBytes = 12, et_numeric = False\<rparr>"
    using d(6) by (simp add: object_type_def)
  then have "CreateInstance env True junk (word_of_int 357913942) (te_object env) = None"
    using CreateInstance_wraps_reference [of env "te_object env" _ junk] d(6)
    by (auto simp: object_type_def value_array_def)
  moreover have "sint (numOfElements (l_items l)) < 357913942"
    using d(5) by (simp add: count_def [symmetric] max_array_def)
  ultimately show ?thesis
    using d(3) by (simp add: SetCapacity_def Let_def count_def [symmetric] c_DefaultCapacity_def)
qed

lemma new_array_elements:
  assumes "array_granted granted et len" "0 < et_sizeInBytes et" "k < unat len"
  shows "elements (new_array env junk et len reflex) ! k =
    (if value_array et reflex then snd (te_new env reflex k) else zeroed (new_array env junk et len reflex))"
proof -
  have "unat len \<le> array_room et len"
    using array_room_enough [OF _ assms(2), of len] assms(1) by (simp add: array_granted_def)
  then show ?thesis using assms(3) by (simp add: new_array_def Let_def)
qed

definition demo_types :: "u8 \<Rightarrow> nat type_env" where
  "demo_types t = \<lparr>te_elem = (\<lambda>r. Some (if r = 7 then \<lparr>et_dataType = t, et_sizeInBytes = 12, et_numeric = False\<rparr>
       else \<lparr>et_dataType = 12, et_sizeInBytes = 8, et_numeric = True\<rparr>)),
     te_cast = (\<lambda>b h. None), te_boxed = (\<lambda>x. None), te_same = (\<lambda>x y. is_null x = is_null y), te_object = 7,
     te_value = (\<lambda>x. None), te_class = (\<lambda>x. 0), te_new = (\<lambda>r k. (if k < 3 then Inr () else Inl E_OUT_OF_MEMORY, Val False k)),
     te_clone = (\<lambda>x i. None)\<rparr>"

definition demo_array :: "u8 \<Rightarrow> nat hblock list \<Rightarrow> nat heap_array" where
  "demo_array t es = \<lparr>reflection = 7, numOfElements = 4, typeOfElement = t, sizeOfElement = 12,
     fReference = True, elements = es\<rparr>"

definition demo_elements :: "nat hblock list" where
  "demo_elements = [Obj (Some 1), Obj (Some 2), Obj (Some 3), Obj None]"

lemma demo_array_ok:
  assumes "t \<in> {DATATYPE_CLASS, DATATYPE_OBJECT}"
  shows "obj_array (demo_types t) t (demo_array t demo_elements)" "count (demo_array t demo_elements) = 4"
proof -
  show c: "count (demo_array t demo_elements) = 4" by (simp add: count_def demo_array_def)
  have "\<exists>v. demo_elements ! k = Obj v" if "k < 4" for k
    using that by (auto simp: demo_elements_def nth_Cons' split: if_splits)
  then show "obj_array (demo_types t) t (demo_array t demo_elements)"
    using assms c by (simp add: obj_array_def array_ok_def demo_array_def demo_types_def object_type_def
        max_array_def demo_elements_def)
qed

definition demo_values :: "nat type_env" where
  "demo_values = (demo_types DATATYPE_CLASS)\<lparr>te_elem := (\<lambda>r. Some \<lparr>et_dataType = DATATYPE_VALUETYPE,
     et_sizeInBytes = 12, et_numeric = False\<rparr>)\<rparr>"

definition demo_numbers :: "nat hblock list \<Rightarrow> nat heap_array" where
  "demo_numbers es = \<lparr>reflection = 8, numOfElements = 4, typeOfElement = 12, sizeOfElement = 8,
     fReference = False, elements = es\<rparr>"

text \<open>
  C32. The collections of the class library are the lists they stand for. Every history of operations
  on a queue, a stack or an array list returns, never leaves its array and gives the results of the
  list operations, errors for empty collections and bad indices included. An operation that must grow
  the array may report that memory is short, only when memory is refused or the array would be longer
  than a block header can count, and then changes nothing. Two limits belong to the statement: no
  \<open>SetCapacity\<close> of the history asks for \<open>2 ^ 28\<close> elements or more (\<open>array_creation\<close> shows that the
  bytes of an array of 357913942 references wrap), and the queue is one of arrays whose elements have the
  type the linker gives to objects (\<open>queue_grows_backwards\<close> shows what happens with the other type).
\<close>

theorem collections_are_lists:
  "(q_ok env DATATYPE_CLASS q \<longrightarrow>
      (\<exists>rs q'. run_ops (queue_step env junk) ops q = Some (rs, q') \<and> q_ok env DATATYPE_CLASS q' \<and>
        explains queue_spec queue_refusable (q_contents q) ops rs (q_contents q'))) \<and>
   (s_ok env t s \<longrightarrow>
      (\<exists>rs s'. run_ops (stack_step env junk) ops' s = Some (rs, s') \<and> s_ok env t s' \<and>
        explains stack_spec stack_refusable (s_contents s) ops' rs (s_contents s'))) \<and>
   (l_ok env t l \<and> list_all list_valid ops'' \<longrightarrow>
      (\<exists>rs l'. run_ops (list_step env junk) ops'' l = Some (rs, l') \<and> l_ok env t l' \<and>
        explains list_spec list_refusable (l_contents l) ops'' rs (l_contents l')))"
proof (intro conjI impI)
  assume "q_ok env DATATYPE_CLASS q"
  then show "\<exists>rs q'. run_ops (queue_step env junk) ops q = Some (rs, q') \<and> q_ok env DATATYPE_CLASS q' \<and>
      explains queue_spec queue_refusable (q_contents q) ops rs (q_contents q')"
    by (rule fifo.history) simp
next
  assume "s_ok env t s"
  then show "\<exists>rs s'. run_ops (stack_step env junk) ops' s = Some (rs, s') \<and> s_ok env t s' \<and>
      explains stack_spec stack_refusable (s_contents s) ops' rs (s_contents s')"
    by (rule lifo.history) simp
next
  assume l: "l_ok env t l \<and> list_all list_valid ops''"
  then show "\<exists>rs l'. run_ops (list_step env junk) ops'' l = Some (rs, l') \<and> l_ok env t l' \<and>
      explains list_spec list_refusable (l_contents l) ops'' rs (l_contents l')"
    by (intro items.history) (simp_all add: list_all_iff)
qed

definition demo_queue :: "u8 \<Rightarrow> nat obj_queue" where
  "demo_queue t = \<lparr>q_array = demo_array t demo_elements, q_head = 1, q_tail = 1, q_size = 4\<rparr>"

lemma demo_queue_ok: "t \<in> {DATATYPE_CLASS, DATATYPE_OBJECT} \<Longrightarrow> q_ok (demo_types t) t (demo_queue t)"
  using demo_array_ok [of t] by (simp add: q_ok_def demo_queue_def ring_idx_def)

lemma demo_queue_contents: "q_contents (demo_queue t) = [Some 2, Some 3, None, Some 1]"
proof -
  have "[0..<4] = [0, 1, 2, 3::nat]" by (simp add: upt_rec)
  moreover have "count (demo_array t demo_elements) = 4" by (simp add: count_def demo_array_def)
  ultimately show ?thesis
    by (simp add: q_contents_def demo_queue_def refs_def ring_idx_def)
       (simp add: demo_array_def demo_elements_def)
qed

theorem collections_are_lists_witness:
  "(\<exists>rs q'. run_ops (queue_step (demo_types DATATYPE_CLASS) (\<lambda>k. Prim 0 0)) [OpEnqueue True (Some 9), OpDequeue]
        (demo_queue DATATYPE_CLASS) = Some (rs, q') \<and>
      explains queue_spec queue_refusable [Some 2, Some 3, None, Some 1] [OpEnqueue True (Some 9), OpDequeue]
        rs (q_contents q')) \<and>
   (\<exists>rs s'. run_ops (stack_step (demo_types DATATYPE_CLASS) (\<lambda>k. Prim 0 0)) [SPop, SPush False None]
        \<lparr>s_array = demo_array DATATYPE_CLASS demo_elements, s_size = 2\<rparr> = Some (rs, s')) \<and>
   (\<exists>rs l'. run_ops (list_step (demo_types DATATYPE_CLASS) (\<lambda>k. Prim 0 0)) [LInsert True 1 (Some 5), LRemoveAt 7]
        \<lparr>l_items = demo_array DATATYPE_CLASS demo_elements, l_size = 3\<rparr> = Some (rs, l'))"
proof -
  note a = demo_array_ok [of DATATYPE_CLASS, simplified]
  let ?s = "\<lparr>s_array = demo_array DATATYPE_CLASS demo_elements, s_size = 2\<rparr>"
    and ?l = "\<lparr>l_items = demo_array DATATYPE_CLASS demo_elements, l_size = 3\<rparr>"
  have ok: "s_ok (demo_types DATATYPE_CLASS) DATATYPE_CLASS ?s" "l_ok (demo_types DATATYPE_CLASS) DATATYPE_CLASS ?l"
    "q_ok (demo_types DATATYPE_CLASS) DATATYPE_CLASS (demo_queue DATATYPE_CLASS)"
    "list_all list_valid [LInsert True 1 (Some 5), LRemoveAt 7 :: nat list_op]"
    using a demo_queue_ok [of DATATYPE_CLASS] by (simp_all add: s_ok_def l_ok_def)
  show ?thesis
    using collections_are_lists [of "demo_types DATATYPE_CLASS" "demo_queue DATATYPE_CLASS" "\<lambda>k. Prim 0 0"
        "[OpEnqueue True (Some 9), OpDequeue]" DATATYPE_CLASS ?s "[SPop, SPush False None]" ?l
        "[LInsert True 1 (Some 5), LRemoveAt 7]"] ok
    unfolding demo_queue_contents by blast
qed

text \<open>
  C19. The short cut of \<open>CopyTo\<close> copies the wrong way round. On an array whose elements have the type of
  objects a full queue that grows loses everything it held: every element reads as null afterwards. With
  the type the linker gives to objects the same call appends to what the queue held.
\<close>

theorem queue_grows_backwards:
  assumes "q_ok env t q" "q_size q = count (q_array q)" "2 * q_size q \<le> max_array"
  shows "\<exists>q'. Enqueue env True junk v q = Some (Inr (), q') \<and> q_ok env t q' \<and>
    q_contents q' = (if t = DATATYPE_OBJECT then replicate (length (q_contents q)) None
      else q_contents q) @ [v]"
proof (cases "t = DATATYPE_OBJECT")
  case True
  then show ?thesis using Enqueue_backwards [of env q junk v] assms by simp
next
  case False
  then show ?thesis using Enqueue_ok [OF assms(1) False, of True junk v] assms(3) by simp
qed

theorem queue_grows_backwards_witness:
  "(\<exists>q'. Enqueue (demo_types DATATYPE_OBJECT) True (\<lambda>k. Prim 0 0) (Some 9) (demo_queue DATATYPE_OBJECT) =
      Some (Inr (), q') \<and> q_contents q' = [None, None, None, None, Some 9]) \<and>
   (\<exists>q'. Enqueue (demo_types DATATYPE_CLASS) True (\<lambda>k. Prim 0 0) (Some 9) (demo_queue DATATYPE_CLASS) =
      Some (Inr (), q') \<and> q_contents q' = [Some 2, Some 3, None, Some 1, Some 9])"
proof -
  have full: "q_size (demo_queue t) = count (q_array (demo_queue t))" "2 * q_size (demo_queue t) \<le> max_array" for t
    by (simp_all add: demo_queue_def count_def demo_array_def max_array_def)
  show ?thesis
    using queue_grows_backwards [OF demo_queue_ok [of DATATYPE_OBJECT, simplified] full, of "\<lambda>k. Prim 0 0" "Some 9"]
      queue_grows_backwards [OF demo_queue_ok [of DATATYPE_CLASS, simplified] full, of "\<lambda>k. Prim 0 0" "Some 9"]
    unfolding demo_queue_contents
    by (auto simp: DATATYPE_CLASS_def DATATYPE_OBJECT_def)
qed

text \<open>
  C18. What \<open>Array.Copy\<close> does with its ranges, on all arguments. A range that ends outside of its array is
  refused and nothing changes, as long as index plus length fits in 31 bits. Between arrays of one type,
  or within one array with the ranges overlapping, ranges that lie inside move the elements: numbers by
  \<open>memmove\<close>, heap blocks by \<open>Reassign\<close>, which is an assignment for references and a copy of the
  contents for values of one class. When a sum wraps, the check accepts the range. Then the offsets and the
  number of bytes of numbers wrap as well: the copy uses indices and length modulo \<open>2 ^ 32\<close> divided by
  the element size, and either moves what lies there or leaves the arrays; a copy of references always
  leaves them. Between arrays of references of different types (the destination not holding values) the
  elements before the first that cannot be cast are copied.
\<close>

theorem array_copy_ranges:
  assumes "array_ok src" "array_ok dst" "same \<longrightarrow> src = dst" "i < 2 ^ 31" "j < 2 ^ 31" "n < 2 ^ 31" "n \<noteq> 0"
  shows "(n < 0 \<or> i < 0 \<or> j < 0 \<or> count src < n + i \<and> n + i < 2 ^ 31 \<or> count dst < n + j \<and> n + j < 2 ^ 31 \<longrightarrow>
      Array_Copy env same src i dst j n = Some (Inl E_OUT_OF_RANGE, dst)) \<and>
    (reflection src = reflection dst \<and> sizeOfElement src = sizeOfElement dst \<and>
      0 \<le> i \<and> 0 \<le> j \<and> 0 < n \<and> i + n \<le> count src \<and> j + n \<le> count dst \<and>
      (fReference src \<longrightarrow>
        one_kind env K (elements src) i (nat n) \<and> one_kind env K (elements dst) j (nat n)) \<longrightarrow>
      Array_Copy env same src i dst j n =
        Some (Inr (), dst\<lparr>elements := moved (elements dst) j (elements src) i n\<rparr>)) \<and>
    (reflection src = reflection dst \<and> sum_wraps src dst same i j n \<longrightarrow>
      (\<not> fReference src \<and> unat (sizeOfElement src) dvd 2 ^ 32 \<longrightarrow>
        Array_Copy env same src i dst j n =
          (let w = 2 ^ 32 div int (unat (sizeOfElement src)) in
           if n mod w = 0 then Some (Inr (), dst)
           else if i mod w + n mod w \<le> int (length (elements src)) \<and>
             j mod w + n mod w \<le> int (length (elements dst))
           then Some (Inr (), dst\<lparr>elements := moved (elements dst) (j mod w) (elements src) (i mod w) (n mod w)\<rparr>)
           else None)) \<and>
      (fReference src \<and> sizeOfElement src = 12 \<and> length (elements src) * 12 < 2 ^ 32 \<and>
        length (elements dst) * 12 < 2 ^ 32 \<and>
        (\<forall>x \<in> set (elements src) \<union> set (elements dst). elem_kind env x = K) \<longrightarrow>
        Array_Copy env same src i dst j n = None)) \<and>
    (reflection src \<noteq> reflection dst \<and> fReference src \<and> fReference dst \<and>
      0 \<le> i \<and> 0 \<le> j \<and> 0 < n \<and> i + n \<le> count src \<and> j + n \<le> count dst \<and>
      one_kind env None (elements dst) j (nat n) \<longrightarrow>
      (\<exists>r m. Array_Copy env False src i dst j n =
          Some (r, dst\<lparr>elements := moved (elements dst) j (elements src) i (int m)\<rparr>) \<and>
        copied_until env (reflection dst) (elements src) i (nat n) r m))"
    (is "?refused \<and> ?moves \<and> ?wraps \<and> ?casts")
proof (intro conjI)
  show ?refused using Array_Copy_out_of_range [OF assms(1,2,7)] by blast
  show ?moves by (intro impI Array_Copy_moves [OF assms(1-3), where K = K]) simp_all
  show ?casts using Array_Copy_casts [OF assms(1,2)] by simp
  show ?wraps
  proof (intro impI conjI; elim conjE)
    assume a: "reflection src = reflection dst" "sum_wraps src dst same i j n" "\<not> fReference src"
      "unat (sizeOfElement src) dvd 2 ^ 32"
    show "Array_Copy env same src i dst j n =
        (let w = 2 ^ 32 div int (unat (sizeOfElement src)) in
         if n mod w = 0 then Some (Inr (), dst)
         else if i mod w + n mod w \<le> int (length (elements src)) \<and>
           j mod w + n mod w \<le> int (length (elements dst))
         then Some (Inr (), dst\<lparr>elements := moved (elements dst) (j mod w) (elements src) (i mod w) (n mod w)\<rparr>)
         else None)"
      by (rule Array_Copy_wraps_numbers [OF assms(1,2) a(1,3,4)])
        (use a(2) assms(4-6) in \<open>simp_all only: sum_wraps_def simp_thms\<close>)
  next
    assume a: "reflection src = reflection dst" "sum_wraps src dst same i j n" "fReference src"
      "sizeOfElement src = 12" "length (elements src) * 12 < 2 ^ 32" "length (elements dst) * 12 < 2 ^ 32"
      "\<forall>x \<in> set (elements src) \<union> set (elements dst). elem_kind env x = K"
    show "Array_Copy env same src i dst j n = None"
      by (rule Array_Copy_wraps_references [OF assms(1-3) a(1,3-7)])
        (use a(2) assms(4-6) in \<open>simp_all only: sum_wraps_def simp_thms\<close>)
  qed
qed

theorem array_copy_ranges_witness:
  "let a = demo_array DATATYPE_CLASS demo_elements; b = demo_numbers [Prim 12 1, Prim 12 2, Prim 12 3, Prim 12 4] in
   Array_Copy (demo_types DATATYPE_CLASS) True a 0 a 1 3 =
     Some (Inr (), a\<lparr>elements := [Obj (Some 1), Obj (Some 1), Obj (Some 2), Obj (Some 3)]\<rparr>) \<and>
   Array_Copy (demo_types DATATYPE_CLASS) True a 2 a 1 3 = Some (Inl E_OUT_OF_RANGE, a) \<and>
   Array_Copy (demo_types DATATYPE_CLASS) True a 2 a 1 (2 ^ 31 - 1) = None \<and>
   Array_Copy (demo_types DATATYPE_CLASS) True b (3 * 2 ^ 29) b (3 * 2 ^ 29 + 1) (2 ^ 29 + 1) =
     Some (Inr (), demo_numbers [Prim 12 1, Prim 12 1, Prim 12 3, Prim 12 4])"
proof -
  let ?env = "demo_types DATATYPE_CLASS" and ?a = "demo_array DATATYPE_CLASS demo_elements"
    and ?b = "demo_numbers [Prim 12 1, Prim 12 2, Prim 12 3, Prim 12 4]"
  have ok: "array_ok ?a" "count ?a = 4"
    using obj_arrayD(1) [OF demo_array_ok(1)] demo_array_ok(2) by simp_all
  have okb: "array_ok ?b" "count ?b = 4"
    by (simp_all add: array_ok_def count_def demo_numbers_def)
  have a: "fReference ?a" "sizeOfElement ?a = 12" "length (elements ?a) = 4"
    "\<forall>x \<in> set (elements ?a). elem_kind ?env x = None"
    by (auto simp: demo_array_def demo_elements_def)
  have kind: "one_kind ?env None (elements ?a) i (nat 3)" if "i \<in> {0, 1}" for i
    using that a(3,4) by (auto simp: one_kind_def)
  have upt: "[0..<4] = [0, 1, 2, 3::nat]" by (simp add: upt_rec)
  note r = array_copy_ranges [OF ok(1) ok(1), where same = True and env = ?env and K = None]
    and rb = array_copy_ranges [OF okb(1) okb(1), where same = True and env = ?env and K = None]
  have "moved (elements ?a) 1 (elements ?a) 0 3 = [Obj (Some 1), Obj (Some 1), Obj (Some 2), Obj (Some 3)]"
    using upt by (simp add: moved_def demo_array_def demo_elements_def)
  moreover have "Array_Copy ?env True ?a 0 ?a 1 3 =
      Some (Inr (), ?a\<lparr>elements := moved (elements ?a) 1 (elements ?a) 0 3\<rparr>)"
    using r [of 0 1 3] ok(2) kind [of 0] kind [of 1] by simp
  moreover have "Array_Copy ?env True ?a 2 ?a 1 3 = Some (Inl E_OUT_OF_RANGE, ?a)"
    using r [of 2 1 3] ok(2) by simp
  moreover have "sum_wraps ?a ?a True 2 1 (2 ^ 31 - 1)" "sum_wraps ?b ?b True (3 * 2 ^ 29) (3 * 2 ^ 29 + 1) (2 ^ 29 + 1)"
    by (simp_all add: sum_wraps_def)
  moreover from this have "Array_Copy ?env True ?a 2 ?a 1 (2 ^ 31 - 1) = None"
    using r [of 2 1 "2 ^ 31 - 1"] a by simp
  moreover have "Array_Copy ?env True ?b (3 * 2 ^ 29) ?b (3 * 2 ^ 29 + 1) (2 ^ 29 + 1) =
      Some (Inr (), ?b\<lparr>elements := moved (elements ?b) 1 (elements ?b) 0 1\<rparr>)"
    using rb [of "3 * 2 ^ 29" "3 * 2 ^ 29 + 1" "2 ^ 29 + 1"] calculation(5)
    by (simp add: demo_numbers_def)
  moreover have "?b\<lparr>elements := moved (elements ?b) 1 (elements ?b) 0 1\<rparr> =
      demo_numbers [Prim 12 1, Prim 12 1, Prim 12 3, Prim 12 4]"
    using upt by (simp add: moved_def demo_numbers_def)
  ultimately show ?thesis by (simp only: Let_def simp_thms)
qed

text \<open>
  C11. Creating an array whose bytes do not wrap reports that memory is short or gives the blocks for all
  of its elements: zeroed, and in an array of a value type each with the object \<open>NewObjectFromIndex\<close> made
  for it; the first object that cannot be made is the error of the creation. Nothing bounds the length
  before the bytes are computed: a long array of eight-byte numbers is granted with room for none of its
  elements, an array of references (or of values, once an object is made) as long as the wrap allows, also
  as the capacity of a list, is cleared past its end.
\<close>

theorem array_creation:
  assumes "te_elem env reflex = Some et" "0 < et_sizeInBytes et" "0 \<le> sint len"
  shows "(unat len * unat (et_sizeInBytes et) < 2 ^ 32 - 31 \<and> \<not> array_granted granted et len \<longrightarrow>
      CreateInstance env granted junk len reflex = Some (Inl E_OUT_OF_MEMORY)) \<and>
    (array_granted granted et len \<longrightarrow>
      ((value_array et reflex \<longrightarrow> (\<forall>k < unat len. \<exists>u. fst (te_new env reflex k) = Inr u)) \<longrightarrow>
        CreateInstance env granted junk len reflex = Some (Inr (new_array env junk et len reflex)) \<and>
        array_ok (new_array env junk et len reflex) \<and>
        (\<forall>k < unat len. elements (new_array env junk et len reflex) ! k =
          (if value_array et reflex then snd (te_new env reflex k)
           else zeroed (new_array env junk et len reflex)))) \<and>
      (\<forall>k e. value_array et reflex \<and> k < unat len \<and> fst (te_new env reflex k) = Inl e \<and>
          (\<forall>l<k. \<exists>u. fst (te_new env reflex l) = Inr u) \<longrightarrow>
        CreateInstance env granted junk len reflex = Some (Inl e))) \<and>
    (et_sizeInBytes et = 8 \<and> et_numeric et \<longrightarrow>
      (\<exists>a. CreateInstance env True junk 0x20000000 reflex = Some (Inr a) \<and>
        numOfElements a = 0x20000000 \<and> elements a = [])) \<and>
    (et_sizeInBytes et = 12 \<and> \<not> et_numeric et \<and>
      (value_array et reflex \<longrightarrow> (\<exists>u. fst (te_new env reflex 0) = Inr u)) \<longrightarrow>
      CreateInstance env True junk 357913942 reflex = None) \<and>
    (l_ok env t l \<longrightarrow> SetCapacity env True junk 357913942 l = None)"
    (is "?refused \<and> (?granted \<longrightarrow> (?made \<longrightarrow> ?created) \<and> ?failed) \<and> ?numbers \<and> ?blocks \<and> ?capacity")
proof (intro conjI)
  show ?refused using CreateInstance_fits [OF assms, of granted junk] CreateInstance_extracts [OF assms] by simp
  show "?granted \<longrightarrow> (?made \<longrightarrow> ?created) \<and> ?failed"
  proof (intro impI conjI)
    assume g: ?granted
    then have fits: "unat len * unat (et_sizeInBytes et) < 2 ^ 32 - 31" by (simp add: array_granted_def)
    assume ?made
    then show "CreateInstance env granted junk len reflex = Some (Inr (new_array env junk et len reflex))"
      using CreateInstance_fits [OF assms fits] g by simp
    show "array_ok (new_array env junk et len reflex)" by (rule new_array_ok(1) [OF g assms(2,3)])
    show "\<forall>k < unat len. elements (new_array env junk et len reflex) ! k =
        (if value_array et reflex then snd (te_new env reflex k) else zeroed (new_array env junk et len reflex))"
      using new_array_elements [OF g assms(2)] by blast
  next
    assume ?granted
    then show ?failed using CreateInstance_fails [OF assms] by blast
  qed
  show ?numbers using CreateInstance_wraps_numeric [OF assms(1)] by auto
  show ?blocks using CreateInstance_wraps_reference [OF assms(1)] by blast
  show ?capacity using SetCapacity_wraps by blast
qed

theorem array_creation_witness:
  "(\<exists>a. CreateInstance (demo_types DATATYPE_CLASS) True (\<lambda>k. Prim 3 4) 0x20000000 8 = Some (Inr a) \<and>
      numOfElements a = 0x20000000 \<and> elements a = []) \<and>
   CreateInstance (demo_types DATATYPE_CLASS) True (\<lambda>k. Prim 3 4) 357913942 7 = None \<and>
   CreateInstance demo_values True (\<lambda>k. Prim 3 4) 5 0x10007 = Some (Inl E_OUT_OF_MEMORY) \<and>
   (\<exists>a. CreateInstance demo_values True (\<lambda>k. Prim 3 4) 3 0x10007 = Some (Inr a) \<and>
      elements a ! 2 = Val False 2)"
proof -
  let ?cls = "demo_types DATATYPE_CLASS" and ?val = demo_values
    and ?junk = "\<lambda>k. Prim 3 4 :: nat hblock" and ?v = "0x10007 :: u64"
  let ?num = "\<lparr>et_dataType = 12, et_sizeInBytes = 8, et_numeric = True\<rparr>"
    and ?ref = "\<lambda>t. \<lparr>et_dataType = t, et_sizeInBytes = 12, et_numeric = False\<rparr>"
  have types: "te_elem ?cls 8 = Some ?num" "te_elem ?cls 7 = Some (?ref DATATYPE_CLASS)"
    "te_elem ?val ?v = Some (?ref DATATYPE_VALUETYPE)" by (simp_all add: demo_types_def demo_values_def)
  have n: "0 < et_sizeInBytes ?num" "0 < et_sizeInBytes (?ref t)" "0 \<le> sint (5 :: u32)" "0 \<le> sint (3 :: u32)"
    for t by simp_all
  have v: "value_array (?ref DATATYPE_VALUETYPE) ?v" "\<not> value_array (?ref DATATYPE_CLASS) 7"
    by (simp_all add: value_array_def reflex_levels_def)
  have g: "array_granted True (?ref t) 5" "array_granted True (?ref t) 3" for t by (simp_all add: array_granted_def)
  have new: "te_new ?val ?v k = (if k < 3 then Inr () else Inl E_OUT_OF_MEMORY, Val False k)" for k
    by (simp add: demo_types_def demo_values_def)
  from array_creation [OF types(1) n(1,3), of True ?junk]
  have 1: "\<exists>a. CreateInstance ?cls True ?junk 0x20000000 8 = Some (Inr a) \<and>
      numOfElements a = 0x20000000 \<and> elements a = []" by simp
  from array_creation [OF types(2) n(2,3), of True ?junk] v(2)
  have 2: "CreateInstance ?cls True ?junk 357913942 7 = None" by simp
  note five = array_creation [OF types(3) n(2,3), of True ?junk]
    and three = array_creation [OF types(3) n(2,4), of True ?junk]
  have new3: "\<forall>l<3. \<exists>u. fst (te_new ?val ?v l) = Inr u" "fst (te_new ?val ?v 3) = Inl E_OUT_OF_MEMORY"
    by (simp_all add: new)
  have "value_array (?ref DATATYPE_VALUETYPE) ?v \<and> 3 < unat (5 :: u32) \<and>
      fst (te_new ?val ?v 3) = Inl E_OUT_OF_MEMORY \<and> (\<forall>l<3. \<exists>u. fst (te_new ?val ?v l) = Inr u)"
    using v(1) new3 by simp
  note 3 = five [THEN conjunct2, THEN conjunct1, THEN mp, OF g(1), THEN conjunct2, THEN spec, THEN spec, THEN mp, OF this]
  have "value_array (?ref DATATYPE_VALUETYPE) ?v \<longrightarrow> (\<forall>k < unat (3 :: u32). \<exists>u. fst (te_new ?val ?v k) = Inr u)"
    using new3 by simp
  note made = three [THEN conjunct2, THEN conjunct1, THEN mp, OF g(2), THEN conjunct1, THEN mp, OF this]
  have "elements (new_array ?val ?junk (?ref DATATYPE_VALUETYPE) 3 ?v) ! 2 = Val False 2"
    using made [THEN conjunct2, THEN conjunct2, THEN spec, of 2] v(1) new by simp
  with made have 4: "\<exists>a. CreateInstance ?val True ?junk 3 ?v = Some (Inr a) \<and> elements a ! 2 = Val False 2" by blast
  from 1 2 3 4 show ?thesis by blast
qed

end
