(* ===== verification/Spec2Isabelle.thy ===== *)
theory Spec2Isabelle
  imports HalQueue HalList AsyncProc TimeCalendar Crc ClrMeta ClrSignature AvlTree MethodCache
    LwipInet LwipChksum LwipTimeouts WireProtocol Messaging
    Compression SimpleHeap Utf8 GcSweep Collections
begin

text \<open>
  A verification development for the Netduino firmware, a port of the .NET Micro Framework. The
  repository holds the hardware abstraction layer and the platform layer (\<open>DeviceCode\<close>), the
  managed runtime (\<open>CLR\<close>), shared support code (\<open>Support\<close>), the boot loaders and the firmware
  application (\<open>Application\<close>), the board solutions (\<open>Solutions\<close>) and the managed class libraries
  (\<open>Framework\<close>). The C and C++ code that carries logic of its own is translated here, one theory or
  one group of theories per component. Definitions keep the names of the source.

  Hardware and platform layer
  \<^item> \<open>HalQueue\<close>: the ring buffers \<open>Hal_Queue_KnownSize\<close> and \<open>Hal_Queue_UnknownSize\<close>
    (\<open>DeviceCode/Include/tinyhal.h\<close>). The storage is a list, the pointers a queue hands out are
    indices into it. The locale \<open>bounded_fifo\<close> is what users of a queue rely on; it is interpreted on
    both (\<open>kq\<close>, \<open>uq\<close>).
  \<^item> \<open>HalList\<close>: the intrusive lists \<open>HAL_DblLinkedNode\<close> and \<open>HAL_DblLinkedList\<close> of the same header over
    an explicit memory of pointer cells. \<open>dl_rep\<close> relates a memory to the list of its nodes; the locale
    \<open>node_list\<close> is the contract, interpreted as \<open>dl\<close>.
  \<^item> \<open>AsyncProc\<close>: continuations, completions with the compare register of the tick timer, event flags,
    callbacks and debouncers (\<open>DeviceCode/pal/AsyncProcCall\<close>, \<open>events\<close>, \<open>StateDebounce\<close>). The two queues
    are lists of \<open>HalList\<close> in one memory; \<open>client_step\<close> is what their users do, also the callbacks,
    \<open>async_step\<close> interleaves it with the interrupt and \<open>async_inv\<close> is its invariant.
  \<^item> \<open>TimeCalendar\<close>: calendar conversion and clocks of the time driver (\<open>DeviceCode/pal/time\<close>) on 64-bit
    and 16-bit integers as the source declares them, against a calendar counted day by day.
  \<^item> \<open>SimpleHeap\<close>: the custom heap (\<open>DeviceCode/pal/SimpleHeap\<close>) in a memory of bytes that holds block
    headers and data. The locale \<open>allocator\<close> states what a caller relies on and is interpreted on the
    operations (\<open>sh\<close>).

  Network stack (\<open>DeviceCode/pal/lwip\<close>, with the changes made for this port)
  \<^item> \<open>LwipInet\<close>: byte order, addresses, their text form and the address tests.
  \<^item> \<open>LwipChksum\<close>: the three checksum routines and the checksums of packets. The locale
    \<open>chksum_routine\<close> is what the packet checksums ask of a routine; it is interpreted on all three.
  \<^item> \<open>LwipTimeouts\<close>: the timeout list and the two waits that serve it.

  Shared support code
  \<^item> \<open>Crc\<close>: \<open>SUPPORT_ComputeCRC\<close> (\<open>Support/crc\<close>) and the checks of an assembly image built on it
    (\<open>CLR/Core/TypeSystem.cpp\<close>).
  \<^item> \<open>WireProtocol\<close>: packets, sealing and the receive state machine
    (\<open>Support/WireProtocol/WireProtocol.cpp\<close>, \<open>Support/Include/WireProtocol.h\<close>). The physical and the
    application layer, tables of function pointers in the source, are the fields of the record
    \<open>WP_Layers\<close> and thread a state of their own.
  \<^item> \<open>Messaging\<close>: the messaging ports (\<open>CLR/Messaging/Messaging.cpp\<close>): dispatch to command handlers,
    the caches of requests and replies, end points. Its \<open>messaging_layers\<close> are the layers it passes to
    \<open>WireProtocol\<close>.
  \<^item> \<open>Compression\<close>: LZ77 (\<open>Support/WireProtocol/Compression.cpp\<close>).

  Managed runtime
  \<^item> \<open>ClrMeta\<close>, \<open>DataTypes\<close>, \<open>ClrSignature\<close>: metadata encodings, data types and the signature parser
    (\<open>CLR/Include/TinyCLR_Types.h\<close>, \<open>CLR/Core/TypeSystem.cpp\<close>).
  \<^item> \<open>Utf8\<close>: the conversions of \<open>CLR/Core/CLR_RT_UnicodeHelper.cpp\<close> and \<open>UnicodeString\<close> on top.
  \<^item> \<open>AvlTree\<close>, \<open>MethodCache\<close>: the AVL tree and the virtual method cache (\<open>CLR/Core/AVLTree.cpp\<close>,
    \<open>Cache.cpp\<close>). The locale \<open>avl_owner\<close> is what the tree asks of the callbacks of its owner and is
    interpreted on those of the cache (\<open>vmt\<close>).
  \<^item> \<open>HeapCluster\<close>: heap blocks and the clusters of the managed heap
    (\<open>CLR/Core/CLR_RT_HeapCluster.cpp\<close>, \<open>CLR/Include/TinyCLR_Runtime__HeapBlock.h\<close>) in a memory of
    words; \<open>cluster_ok\<close> describes a cluster that is a sequence of blocks with a free list through it.
  \<^item> \<open>GcMark\<close>, \<open>GcWalk\<close>: the marker (\<open>CLR/Core/GarbageCollector_ComputeReachabilityGraph.cpp\<close>).
    \<open>GcMark\<close> has the code: the loop over blocks, the chained mark stacks in the same memory, and the
    slow pass when they cannot grow. \<open>GcWalk\<close> has its specification, a walk over the graph of blocks in
    which the stacks are a list, with the simulation that relates the two and the measure by which the
    walk ends.
  \<^item> \<open>GcCollect\<close>, \<open>GcSweep\<close>: the roots, finalizers, weak references and the sweep
    (\<open>CLR/Core/GarbageCollector.cpp\<close>), composed as a collection does, over the clusters.
  \<^item> \<open>HeapArrays\<close>, \<open>Collections\<close>: managed arrays (\<open>CLR/Core/CLR_RT_HeapBlock_Array.cpp\<close>) and the native
    halves of the queue, the stack and the array list on them (\<open>CLR_RT_HeapBlock_Queue.cpp\<close>,
    \<open>CLR_RT_HeapBlock_Stack.cpp\<close>, \<open>CLR_RT_HeapBlock_ArrayList.cpp\<close>). An array is the list of the elements
    its blocks have room for, \<open>None\<close> an access outside of them; byte offsets wrap at 32 bits
    (\<open>element_index\<close>); \<open>refs\<close> is the list of its references. An element of a value type stands for the
    object it owns, so that \<open>Reassign\<close> copies its contents.
    The locale \<open>collection\<close> is the contract of a history of operations, interpreted on all three
    (\<open>fifo\<close>, \<open>lifo\<close>, \<open>items\<close>).

  How the parts meet. \<open>AsyncProc\<close> works on the memory of \<open>HalList\<close> and reasons about it
  through \<open>dl_rep\<close>. \<open>Crc\<close> seals assembly images and wire packets; \<open>WireProtocol\<close> gives
  complete messages to \<open>Messaging\<close>. \<open>MethodCache\<close> owns the tree of \<open>AvlTree\<close>. \<open>GcMark\<close> marks in the
  memory that \<open>HeapCluster\<close> lays out, \<open>GcSweep\<close> hands the marked memory to \<open>RecoverFromGC\<close> of each
  cluster: marking sets alive bits and leaves every link as it is (\<open>gc_same\<close>), recovery merges what
  is not marked, and the theorem on a collection puts the two together.

  What the lemmas show
  \<^item> Refinement: queues are bounded sequences (\<open>uq_list\<close>, \<open>kq_list\<close>), intrusive lists are lists
    (\<open>dl_rep\<close>), the timeout list is an ordered list of deadlines (\<open>deadlines\<close>), the tree is a finite
    map (\<open>lookup\<close>), the marker is the walk (\<open>gc_rel\<close>), the collections are lists (\<open>q_contents\<close>,
    \<open>s_contents\<close>, \<open>l_contents\<close>).
  \<^item> Invariants over every sequence of operations: \<open>async_inv\<close>, \<open>vmt_inv\<close>, \<open>rx_ok\<close>, \<open>accounted\<close>,
    \<open>heap_ok\<close>, \<open>cluster_ok\<close>.
  \<^item> Equivalence with a plain definition: the table-driven checksum and the division of polynomials,
    the three checksum routines and the ones-complement sum, the cached and the uncached method
    resolution, the two queues.
  \<^item> Round trips: calendar, tokens, compressed integers, signatures, addresses, UTF-8, packets, LZ77.
  \<^item> Behaviour that goes wrong, stated as the code has it: a completion lost by a wait entered with an
    empty queue, the compare register after the earliest completion is put off, the first day the calendar conversion gets wrong, a mark stack overrun when a list meets
    it full, array sizes and ranges that wrap, a queue copied the wrong way round, a weak delegate list linked to itself, waits re-entered by a handler.

  Loops. Where a loop of the source may not end the definition is a \<open>partial_function (option)\<close> and
  \<open>None\<close> means that it does not return: \<open>list_drain\<close>, \<open>comp_find_later\<close>, \<open>sig_element\<close>, \<open>Process\<close>,
  \<open>sys_mbox_fetch\<close>, \<open>sys_sem_wait\<close>, \<open>sh_fit\<close>, the counts of \<open>HalList\<close>, the loops over clusters and weak lists, \<open>gc_loop\<close> and
  \<open>MarkSlow\<close>. Their theorems then have \<open>Some\<close> in the conclusion. The loops of the cluster, of the
  marker and of the simple heap are measured by the distance to the end of the memory they walk and by
  the number of reachable blocks not yet marked (\<open>walk_order\<close>). Every other recursion ends by a
  measure (\<open>termination\<close>) or by its structure. No definition uses fuel.

  Hypotheses. Machine state outside the tree is an argument: clocks, interrupts, the serial port,
  memory requests (an oracle that may refuse), the type system behind the signature parser and the method
  cache. \<open>gc_layout\<close>, \<open>gc_graph\<close> and \<open>gc_heap\<close> say what a well-formed managed heap is: blocks of the
  clusters do not overlap, references point to blocks, lists end at their tail. \<open>demo_heap\<close> and the
  examples named \<open>example\<close> in the other theories satisfy them, and the witnesses evaluate the theorems
  there.

  Not modelled
  \<^item> Of the managed heap: where the additional mark stacks lie (the collector takes their blocks from the
    clusters while it marks, here they are kept beside the heap memory), \<open>RecoverEventsFromGC\<close>, the persistence of weak references, compaction and the
    choice of when to collect (\<open>CheckMemoryPressure\<close>): they run through native objects whose layout is
    that of the host compiler.
  \<^item> The interpreter, threads, the resolution of types and the native halves of the class libraries: they
    need loaded assemblies as a whole. The object mode of the signature parser belongs with them.
  \<^item> The hash-linked form of the caches; the search for matches of the compressor (host only); the
    waits of \<open>Events_WaitForEvents\<close>; big-endian builds of the wire protocol.
  \<^item> Debugger commands, graphics, the USB, serial and I2C drivers, the FAT file system and block
    storage, PKCS11 and TLS: mostly hardware registers, drawing, or wrappers of code outside the tree.
  \<^item> Headers of register definitions and the vendored libraries, apart from the parts of the network
    stack above.
\<close>

end
